(* ===== verification/Prelude.thy ===== *)
theory Prelude
  imports Main "HOL-Library.Word"
begin

text \<open>
  Shared vocabulary of the development: the outcome type of kernel routines, the machine
  arithmetic of the 32-bit targets, the error numbers of \<^verbatim>\<open>sys/sys/errno.h\<close>, and the generic
  lemmas on lists and on linked structures in a store that the component theories use.
\<close>

unbundle bit_operations_syntax

section \<open>Lemma collections\<close>

named_theorems kdefs \<open>unfolding of small kernel helpers\<close>
named_theorems wf_simps \<open>rewrite rules valid under a component's well-formedness invariant\<close>

section \<open>Outcomes of kernel routines\<close>

text \<open>
  A routine either finishes with a value, calls \<^verbatim>\<open>panic\<close> with a message, or performs an access
  the C text gives no meaning to (a read or write outside the object it walks). The last case
  is \<open>Stuck\<close>: no theorem of the development hides it.
\<close>

datatype 'a cres = Ok 'a | Panic string | Stuck

primrec bind_cres :: "'a cres \<Rightarrow> ('a \<Rightarrow> 'b cres) \<Rightarrow> 'b cres" where
  "bind_cres (Ok x) f = f x"
| "bind_cres (Panic m) f = Panic m"
| "bind_cres Stuck f = Stuck"

lemma bind_cres_eq_Ok [simp]:
  "bind_cres r f = Ok y \<longleftrightarrow> (\<exists>x. r = Ok x \<and> f x = Ok y)"
  by (cases r) auto

definition of_opt :: "'a option \<Rightarrow> 'a cres" where
  "of_opt x = (case x of None \<Rightarrow> Stuck | Some y \<Rightarrow> Ok y)"

lemma of_opt_simps [simp]: "of_opt None = Stuck" "of_opt (Some x) = Ok x"
  by (simp_all add: of_opt_def)

section \<open>Machine arithmetic\<close>

text \<open>\<^verbatim>\<open>size_t\<close> and \<^verbatim>\<open>u_int\<close> are 32 bits wide on every supported target; sums wrap.\<close>

definition add32 :: "nat \<Rightarrow> nat \<Rightarrow> nat" where
  "add32 a b = (a + b) mod 2 ^ 32"

lemma add32_id [simp]: "a + b < 2 ^ 32 \<Longrightarrow> add32 a b = a + b"
  by (simp add: add32_def)

text \<open>C's integer division and remainder truncate towards zero.\<close>

definition c_div :: "int \<Rightarrow> int \<Rightarrow> int" where
  "c_div a b = sgn a * sgn b * (\<bar>a\<bar> div \<bar>b\<bar>)"

definition c_mod :: "int \<Rightarrow> int \<Rightarrow> int" where
  "c_mod a b = a - b * c_div a b"

lemma c_div_nonneg: "0 \<le> a \<Longrightarrow> 0 < b \<Longrightarrow> c_div a b = a div b"
  by (cases "a = 0") (auto simp: c_div_def)

lemma c_mod_nonneg: "0 \<le> a \<Longrightarrow> 0 < b \<Longrightarrow> c_mod a b = a mod b"
  by (simp add: c_mod_def c_div_nonneg minus_mult_div_eq_mod)

section \<open>Generic list lemmas\<close>

lemma upt_split: "i \<le> j \<Longrightarrow> j \<le> k \<Longrightarrow> [i..<k] = [i..<j] @ [j..<k]"
  using upt_add_eq_append [of i j "k - j"] by simp

section \<open>Linked lists in a store\<close>

text \<open>The cells met when following the links from \<open>a\<close> to the null pointer 0.\<close>

fun chain :: "(nat \<Rightarrow> nat) \<Rightarrow> nat \<Rightarrow> nat list \<Rightarrow> bool" where
  "chain nx a [] = (a = 0)"
| "chain nx a (b # bs) = (a = b \<and> b \<noteq> 0 \<and> chain nx (nx b) bs)"

lemma chain_upd [simp]: "b \<notin> set bs \<Longrightarrow> chain (nx(b := x)) a bs = chain nx a bs"
  by (induction bs arbitrary: a) auto

lemma chain_null: "chain nx 0 bs \<longleftrightarrow> bs = []"
  by (cases bs) auto

lemma chain_Cons_D: "chain nx a bs \<Longrightarrow> a \<noteq> 0 \<Longrightarrow> \<exists>bs'. bs = a # bs' \<and> chain nx (nx a) bs'"
  by (cases bs) auto

lemma chain_cong: "(\<And>b. b \<in> set bs \<Longrightarrow> nx' b = nx b) \<Longrightarrow> chain nx' a bs = chain nx a bs"
  by (induction bs arbitrary: a) auto

lemma chain_unique: "chain nx a bs \<Longrightarrow> chain nx a bs' \<Longrightarrow> bs = bs'"
proof (induction bs arbitrary: a bs')
  case Nil
  then show ?case by (simp add: chain_null)
next
  case (Cons b bs)
  then show ?case by (cases bs') auto
qed

section \<open>Refinement of a component by an abstract machine\<close>

text \<open>
  A component is called through \<open>step op st\<close>, which is \<open>None\<close> when the call does not return. Its
  contract \<open>spec op a a' r\<close> relates the abstract states before and after to the result.
\<close>

fun run_ops :: "('o \<Rightarrow> 's \<Rightarrow> ('s \<times> 'r) option) \<Rightarrow> 'o list \<Rightarrow> 's \<Rightarrow> ('s \<times> 'r list) option" where
  "run_ops step [] st = Some (st, [])"
| "run_ops step (op # ops) st =
     (case step op st of None \<Rightarrow> None
      | Some (st', r) \<Rightarrow> map_option (\<lambda>(st'', rs). (st'', r # rs)) (run_ops step ops st'))"

fun run_spec :: "('o \<Rightarrow> 'a \<Rightarrow> 'a \<Rightarrow> 'r \<Rightarrow> bool) \<Rightarrow> 'o list \<Rightarrow> 'a \<Rightarrow> 'a \<Rightarrow> 'r list \<Rightarrow> bool" where
  "run_spec spec [] a a' rs = (a' = a \<and> rs = [])"
| "run_spec spec (op # ops) a a' rs = (\<exists>b r rs'. rs = r # rs' \<and> spec op a b r \<and> run_spec spec ops b a' rs')"

locale refines =
  fixes inv :: "'s \<Rightarrow> bool" and abs :: "'s \<Rightarrow> 'a" and pre :: "'s \<Rightarrow> 'o \<Rightarrow> bool"
    and step :: "'o \<Rightarrow> 's \<Rightarrow> ('s \<times> 'r) option" and spec :: "'o \<Rightarrow> 'a \<Rightarrow> 'a \<Rightarrow> 'r \<Rightarrow> bool"
  assumes step_refines: "inv st \<Longrightarrow> pre st op \<Longrightarrow> \<exists>st' r. step op st = Some (st', r) \<and> inv st'
      \<and> pre st' = pre st \<and> spec op (abs st) (abs st') r"
begin

lemma step_inv: "inv st \<Longrightarrow> pre st op \<Longrightarrow> step op st = Some (st', r) \<Longrightarrow>
   inv st' \<and> pre st' = pre st \<and> spec op (abs st) (abs st') r"
  using step_refines [of st op] by auto

lemma run_refines:
  "inv st \<Longrightarrow> \<forall>op\<in>set ops. pre st op \<Longrightarrow> \<exists>st' rs. run_ops step ops st = Some (st', rs) \<and> inv st'
     \<and> pre st' = pre st \<and> run_spec spec ops (abs st) (abs st') rs"
proof (induction ops arbitrary: st)
  case (Cons op ops)
  then obtain st1 r where a: "step op st = Some (st1, r)" "inv st1" "pre st1 = pre st" "spec op (abs st) (abs st1) r"
    using step_refines [of st op] by auto
  with Cons.IH [of st1] Cons.prems obtain st' rs where "run_ops step ops st1 = Some (st', rs)" "inv st'"
    "pre st' = pre st1" "run_spec spec ops (abs st1) (abs st') rs" by auto
  with a show ?case by auto
qed simp

end

section \<open>Components that keep an invariant\<close>

text \<open>A component whose calls return, without panic, and keep its invariant; then so does every run of it.\<close>

fun run_calls :: "('o \<Rightarrow> 's \<Rightarrow> 's cres) \<Rightarrow> 'o list \<Rightarrow> 's \<Rightarrow> 's cres" where
  "run_calls call [] st = Ok st"
| "run_calls call (op # ops) st = bind_cres (call op st) (run_calls call ops)"

locale safe_component =
  fixes inv :: "'s \<Rightarrow> bool" and pre :: "'o \<Rightarrow> bool" and call :: "'o \<Rightarrow> 's \<Rightarrow> 's cres"
  assumes call_safe: "inv st \<Longrightarrow> pre op \<Longrightarrow> \<exists>st'. call op st = Ok st' \<and> inv st'"
begin

lemma run_safe: "inv st \<Longrightarrow> \<forall>op\<in>set ops. pre op \<Longrightarrow> \<exists>st'. run_calls call ops st = Ok st' \<and> inv st'"
proof (induction ops arbitrary: st)
  case (Cons op ops)
  from call_safe [of st op] Cons.prems obtain st1 where "call op st = Ok st1" "inv st1" by auto
  with Cons.IH [of st1] Cons.prems show ?case by auto
qed simp

end

end
