(* ===== verification/Rmap.thy ===== *)
theory Rmap
  imports Prelude
begin

text \<open>
  The resource maps of \<^verbatim>\<open>sys/kern/subr_rmap.c\<close>, which hand out swap space. A map is an array
  of slots, in use up to the first slot of size 0. The array is a list; a pointer into it is a
  split of the list (slots before the pointer, slots from the pointer on) or an index. Running
  past the last slot of the array is \<open>Stuck\<close>.
\<close>

section \<open>Data\<close>

record mapent =
  m_size :: nat
  m_addr :: nat

record rmap =
  m_map :: "mapent list"
  m_limit :: nat
  m_name :: string

section \<open>malloc\<close>

text \<open>\<open>*ep = *++bp\<close> until the terminator has been copied: the slots from \<open>ep\<close> on.\<close>

fun shift_left :: "mapent list \<Rightarrow> mapent list option" where
  "shift_left (e # b # rest) =
     (if m_size b = 0 then Some (b # b # rest)
      else map_option (\<lambda>r. b # r) (shift_left (b # rest)))"
| "shift_left _ = None"

fun malloc_at :: "mapent list \<Rightarrow> nat \<Rightarrow> (nat \<times> mapent list) option" where
  "malloc_at [] sz = None"
| "malloc_at (bp # rest) sz =
     (if m_size bp = 0 then Some (0, bp # rest)
      else if sz \<le> m_size bp then
        (let bp' = bp\<lparr>m_size := m_size bp - sz\<rparr> in
         if m_size bp' \<noteq> 0
         then Some (m_addr bp, bp'\<lparr>m_addr := add32 (m_addr bp) sz\<rparr> # rest)
         else map_option (\<lambda>r. (m_addr bp, r)) (shift_left (bp' # rest)))
      else map_option (\<lambda>(a, r). (a, bp # r)) (malloc_at rest sz))"

definition malloc :: "rmap \<Rightarrow> nat \<Rightarrow> (rmap \<times> nat) cres" where
  "malloc mp sz =
     (if sz = 0 then Panic ''malloc: size = 0''
      else case malloc_at (m_map mp) sz of
             None \<Rightarrow> Stuck
           | Some (a, arr) \<Rightarrow> Ok (mp\<lparr>m_map := arr\<rparr>, a))"

section \<open>mfree\<close>

text \<open>The piece which starts after the returned space: the slots skipped, and those from \<open>bp\<close> on.\<close>

fun mfree_seek :: "mapent list \<Rightarrow> mapent list \<Rightarrow> nat \<Rightarrow> (mapent list \<times> mapent list) option" where
  "mfree_seek pre [] addr = None"
| "mfree_seek pre (bp # post) addr =
     (if m_size bp \<noteq> 0 \<and> m_addr bp \<le> addr then mfree_seek (pre @ [bp]) post addr
      else Some (pre, bp # post))"

text \<open>
  The scan to the terminator: the slots passed, the terminator, and what lies behind it in the
  array.
\<close>

fun to_end :: "mapent list \<Rightarrow> mapent list \<Rightarrow> (mapent list \<times> mapent \<times> mapent list) option" where
  "to_end seen [] = None"
| "to_end seen (bp # post) =
     (if m_size bp \<noteq> 0 then to_end (seen @ [bp]) post else Some (seen, bp, post))"

text \<open>
  A new entry at \<open>start\<close>. \<open>++bp\<close> moves to the slot behind the terminator; it is
  compared with \<open>m_limit\<close>, and only then the slots move one place up, into that slot.
  The boolean tells whether the overflow warning was printed.
\<close>

definition mfree_insert ::
  "rmap \<Rightarrow> mapent list \<Rightarrow> mapent list \<Rightarrow> nat \<Rightarrow> nat \<Rightarrow> (rmap \<times> bool) cres" where
  "mfree_insert mp pre post sz addr =
     (case to_end [] post of
        None \<Rightarrow> Stuck
      | Some (segs, t, beyond) \<Rightarrow>
          (if length pre + length segs + 1 > m_limit mp then Ok (mp, True)
           else case beyond of
                  [] \<Rightarrow> Stuck
                | _ # beyond' \<Rightarrow>
                    Ok (mp\<lparr>m_map := pre @ [\<lparr>m_size = sz, m_addr = addr\<rparr>]
                                   @ segs @ [t] @ beyond'\<rparr>, False)))"

text \<open>
  The space does not abut on the left: grow the piece on the right, or make a new entry.
  \<open>diag\<close> tells whether the kernel is built with \<^verbatim>\<open>DIAGNOSTIC\<close>, which adds the overlap panics.
\<close>

definition mfree_right ::
  "bool \<Rightarrow> rmap \<Rightarrow> mapent list \<Rightarrow> mapent \<Rightarrow> mapent list \<Rightarrow> nat \<Rightarrow> nat \<Rightarrow> (rmap \<times> bool) cres" where
  "mfree_right diag mp pre bp rest sz addr =
     (if m_size bp \<noteq> 0 \<and> add32 addr sz \<ge> m_addr bp then
        (if diag \<and> add32 addr sz > m_addr bp then Panic ''mfree overlap #3''
         else Ok (mp\<lparr>m_map := pre @ [bp\<lparr>m_addr := addr, m_size := add32 (m_size bp) sz\<rparr>] @ rest\<rparr>, False))
      else mfree_insert mp pre (bp # rest) sz addr)"

text \<open>The piece on the left (the last slot before \<open>bp\<close>) abuts: grow it, and swallow the right one.\<close>

definition mfree_left ::
  "bool \<Rightarrow> rmap \<Rightarrow> mapent list \<Rightarrow> mapent \<Rightarrow> mapent \<Rightarrow> mapent list \<Rightarrow> nat \<Rightarrow> nat \<Rightarrow> (rmap \<times> bool) cres" where
  "mfree_left diag mp pre ep bp rest sz addr =
     (if diag \<and> add32 (m_addr ep) (m_size ep) > addr then Panic ''mfree overlap #1''
      else
      let ep' = ep\<lparr>m_size := add32 (m_size ep) sz\<rparr> in
      if m_size bp \<noteq> 0 \<and> add32 addr sz \<ge> m_addr bp then
        (if diag \<and> add32 addr sz > m_addr bp then Panic ''mfree overlap #2''
         else case shift_left (bp # rest) of
                None \<Rightarrow> Stuck
              | Some post' \<Rightarrow>
                  Ok (mp\<lparr>m_map := pre @ [ep'\<lparr>m_size := add32 (m_size ep') (m_size bp)\<rparr>] @ post'\<rparr>, False))
      else Ok (mp\<lparr>m_map := pre @ [ep'] @ bp # rest\<rparr>, False))"

definition mfree :: "bool \<Rightarrow> rmap \<Rightarrow> nat \<Rightarrow> nat \<Rightarrow> (rmap \<times> bool) cres" where
  "mfree diag mp sz addr =
     (if sz = 0 then Ok (mp, False)
      else if addr = 0 then Panic ''mfree: addr = 0''
      else case mfree_seek [] (m_map mp) addr of
        None \<Rightarrow> Stuck
      | Some (pre, post) \<Rightarrow>
         (case post of
            [] \<Rightarrow> Stuck
          | bp # rest \<Rightarrow>
             if pre \<noteq> [] \<and> add32 (m_addr (last pre)) (m_size (last pre)) \<ge> addr
             then mfree_left diag mp (butlast pre) (last pre) bp rest sz addr
             else mfree_right diag mp pre bp rest sz addr))"

section \<open>malloc3\<close>

text \<open>
  The working state of \<open>malloc3\<close>: the array, the slot each of the three pieces was taken from,
  the first slot that became empty, and the number of pieces found.
\<close>

record m3 =
  m3_arr :: "mapent list"
  madd :: "nat \<Rightarrow> nat option"
  remap :: "nat option"
  found :: nat

text \<open>One round of the inner loop; once \<open>found\<close> is 3 control has left for \<open>resolve\<close>.\<close>

definition m3_step :: "(nat \<Rightarrow> nat) \<Rightarrow> nat \<Rightarrow> nat \<Rightarrow> m3 \<Rightarrow> m3" where
  "m3_step sizes bp nxt s =
     (if found s = 3 then s
      else if madd s nxt = None \<and> sizes nxt \<le> m_size (m3_arr s ! bp) then
        (let e = m3_arr s ! bp; e' = e\<lparr>m_size := m_size e - sizes nxt\<rparr> in
         s\<lparr>m3_arr := (m3_arr s)[bp := e'], madd := (madd s)(nxt := Some bp),
           remap := (if m_size e' = 0 \<and> remap s = None then Some bp else remap s),
           found := found s + 1\<rparr>)
      else s)"

lemma m3_step_length [simp]: "length (m3_arr (m3_step sizes bp nxt s)) = length (m3_arr s)"
  by (simp add: m3_step_def Let_def)

function m3_scan :: "(nat \<Rightarrow> nat) \<Rightarrow> nat \<Rightarrow> m3 \<Rightarrow> m3 option" where
  "m3_scan sizes bp s =
     (if found s = 3 then Some s
      else if length (m3_arr s) \<le> bp then None
      else if m_size (m3_arr s ! bp) = 0 then Some s
      else m3_scan sizes (Suc bp) (fold (m3_step sizes bp) [0, 1, 2] s))"
  by pat_completeness auto
termination
  by (relation "measure (\<lambda>(sizes, bp, s). length (m3_arr s) - bp)") auto

declare m3_scan.simps [simp del]

text \<open>Give the sizes back after a failure.\<close>

definition m3_restore :: "(nat \<Rightarrow> nat) \<Rightarrow> (nat \<Rightarrow> nat option) \<Rightarrow> nat \<Rightarrow> mapent list \<Rightarrow> mapent list" where
  "m3_restore sizes ma nxt arr =
     (case ma nxt of None \<Rightarrow> arr
      | Some i \<Rightarrow> arr[i := (arr ! i)\<lparr>m_size := add32 (m_size (arr ! i)) (sizes nxt)\<rparr>])"

text \<open>\<open>resolve\<close>: read the address of a piece and move the slot's start behind it.\<close>

definition m3_resolve ::
  "(nat \<Rightarrow> nat) \<Rightarrow> (nat \<Rightarrow> nat option) \<Rightarrow> nat \<Rightarrow> nat list \<times> mapent list \<Rightarrow> nat list \<times> mapent list" where
  "m3_resolve sizes ma nxt st =
     (case ma nxt of None \<Rightarrow> st
      | Some i \<Rightarrow> (let (a, arr) = st in
          (a[nxt := m_addr (arr ! i)],
           arr[i := (arr ! i)\<lparr>m_addr := add32 (m_addr (arr ! i)) (sizes nxt)\<rparr>])))"

text \<open>Remove the entries of size 0 from \<open>r\<close> on; an address of 0 terminates.\<close>

function m3_compact :: "nat \<Rightarrow> nat \<Rightarrow> mapent list \<Rightarrow> mapent list option" where
  "m3_compact r bp arr =
     (if length arr \<le> bp then None
      else if m_size (arr ! bp) \<noteq> 0 \<or> m_addr (arr ! bp) = 0 then
        (if m_addr (arr ! bp) = 0 then Some (arr[r := arr ! bp])
         else m3_compact (Suc r) (Suc bp) (arr[r := arr ! bp]))
      else m3_compact r (Suc bp) arr)"
  by pat_completeness auto
termination
  by (relation "measure (\<lambda>(r, bp, arr). length arr - bp)") auto

declare m3_compact.simps [simp del]

text \<open>The result: the map, the return value (0 on failure) and the array \<open>a\<close>.\<close>

definition malloc3 :: "rmap \<Rightarrow> nat \<Rightarrow> nat \<Rightarrow> nat \<Rightarrow> nat list \<Rightarrow> (rmap \<times> nat \<times> nat list) cres" where
  "malloc3 mp d_size s_size u_size a =
     (let sizes = (\<lambda>n. if n = 0 then d_size else if n = Suc 0 then s_size else u_size) in
      case m3_scan sizes 0 \<lparr>m3_arr = m_map mp, madd = (\<lambda>_. None), remap = None, found = 0\<rparr> of
        None \<Rightarrow> Stuck
      | Some s \<Rightarrow>
          (if found s \<noteq> 3
           then Ok (mp\<lparr>m_map := fold (m3_restore sizes (madd s)) [0, 1, 2] (m3_arr s)\<rparr>, 0, a)
           else
             let (a', arr) = fold (m3_resolve sizes (madd s)) [0, 1, 2] (a, m3_arr s) in
             case remap s of
               None \<Rightarrow> Ok (mp\<lparr>m_map := arr\<rparr>, a' ! 2, a')
             | Some r \<Rightarrow>
                 (case m3_compact r (Suc r) arr of
                    None \<Rightarrow> Stuck
                  | Some arr' \<Rightarrow> Ok (mp\<lparr>m_map := arr'\<rparr>, a' ! 2, a'))))"

section \<open>The swap map as the machine-dependent start-up code declares it\<close>

text \<open>
  \<open>swapmap\<close> over the slots \<open>swapent\<close>: \<open>m_limit\<close> is \<^verbatim>\<open>&swapent[SMAPSIZ]\<close>, the address behind the
  array.
\<close>

definition swapmap :: "mapent list \<Rightarrow> rmap" where
  "swapmap swapent = \<lparr>m_map = swapent, m_limit = length swapent, m_name = ''swapmap''\<rparr>"

section \<open>Well-formed maps and the units they hold\<close>

text \<open>
  The slots from one on, above \<open>lo\<close>: addresses strictly increase with a gap between
  neighbouring segments, every segment ends below \<open>2\<^sup>3\<^sup>2\<close>, and the terminator is
  \<open>{0, 0}\<close>, which is what \<open>malloc3\<close> relies on.
\<close>

fun wf_slots :: "nat \<Rightarrow> mapent list \<Rightarrow> bool" where
  "wf_slots lo [] = False"
| "wf_slots lo (e # es) =
     (if m_size e = 0 then m_addr e = 0
      else lo < m_addr e \<and> m_addr e + m_size e < 2 ^ 32 \<and> wf_slots (m_addr e + m_size e) es)"

fun free_units :: "mapent list \<Rightarrow> nat set" where
  "free_units [] = {}"
| "free_units (e # es) =
     (if m_size e = 0 then {} else {m_addr e..<m_addr e + m_size e} \<union> free_units es)"

abbreviation segs :: "mapent list \<Rightarrow> mapent list" where
  "segs arr \<equiv> takeWhile (\<lambda>e. m_size e \<noteq> 0) arr"

text \<open>
  \<open>m_limit\<close> is the index of a slot of the array, and the terminator lies at or before it
  (\<^verbatim>\<open>map.h\<close>: \<open>address of last slot in map\<close>).
\<close>

definition wf_rmap :: "rmap \<Rightarrow> bool" where
  "wf_rmap mp \<longleftrightarrow> wf_slots 0 (m_map mp) \<and> length (segs (m_map mp)) \<le> m_limit mp
     \<and> m_limit mp < length (m_map mp)"

definition units :: "rmap \<Rightarrow> nat set" where
  "units mp = free_units (m_map mp)"

lemma wf_slots_mono: "wf_slots hi es \<Longrightarrow> lo \<le> hi \<Longrightarrow> wf_slots lo es"
  by (cases es) auto

lemma free_units_gt: "wf_slots lo es \<Longrightarrow> x \<in> free_units es \<Longrightarrow> lo < x"
proof (induction es arbitrary: lo)
  case (Cons e es)
  show ?case
  proof (cases "x \<in> free_units es \<and> m_size e \<noteq> 0")
    case True
    with Cons have "m_addr e + m_size e < x" "lo < m_addr e" by (auto split: if_splits)
    then show ?thesis by linarith
  qed (use Cons.prems in \<open>auto split: if_splits\<close>)
qed simp

lemma shift_left_spec:
  "wf_slots lo rest \<Longrightarrow>
   \<exists>r. shift_left (e # rest) = Some r \<and> wf_slots lo r \<and> free_units r = free_units rest
      \<and> length r = Suc (length rest) \<and> length (segs r) = length (segs rest)"
proof (induction rest arbitrary: e lo)
  case (Cons b rest)
  show ?case
  proof (cases "m_size b = 0")
    case False
    with Cons.prems have "wf_slots (m_addr b + m_size b) rest" by simp
    from Cons.IH [OF this] obtain r where "shift_left (b # rest) = Some r"
      "wf_slots (m_addr b + m_size b) r" "free_units r = free_units rest"
      "length r = Suc (length rest)" "length (segs r) = length (segs rest)" by blast
    with False Cons.prems show ?thesis by simp
  qed (use Cons.prems in auto)
qed simp

section \<open>malloc is first fit and takes exactly the units it returns\<close>

lemma malloc_at_first_fit:
  "malloc_at arr sz = Some (a, arr') \<Longrightarrow>
   a = (case find (\<lambda>e. sz \<le> m_size e) (segs arr) of None \<Rightarrow> 0 | Some e \<Rightarrow> m_addr e)"
  by (induction arr sz arbitrary: a arr' rule: malloc_at.induct)
    (auto simp: Let_def split: if_splits)

lemma malloc_at_spec:
  assumes "wf_slots lo arr" and "0 < sz"
  shows "\<exists>a arr'. malloc_at arr sz = Some (a, arr') \<and> wf_slots lo arr' \<and> length arr' = length arr
      \<and> (if a = 0 then arr' = arr
         else lo < a \<and> {a..<a + sz} \<subseteq> free_units arr \<and> free_units arr' = free_units arr - {a..<a + sz}
           \<and> length (segs arr') \<le> length (segs arr)
           \<and> (a + sz \<in> free_units arr' \<or> length (segs arr') < length (segs arr)))"
  using assms
proof (induction arr sz arbitrary: lo rule: malloc_at.induct)
  case (2 bp rest sz)
  show ?case
  proof (cases "m_size bp = 0")
    case nz: False
    with "2.prems" have wf: "lo < m_addr bp" "m_addr bp + m_size bp < 2 ^ 32"
      "wf_slots (m_addr bp + m_size bp) rest" by auto
    have above: "\<forall>x\<in>free_units rest. m_addr bp + m_size bp < x"
      using free_units_gt [OF wf(3)] by blast
    consider (whole) "sz = m_size bp" | (part) "sz < m_size bp" | (skip) "m_size bp < sz" by linarith
    then show ?thesis
    proof cases
      case whole
      from shift_left_spec [OF wf(3), of "bp\<lparr>m_size := 0\<rparr>"] obtain r where
        "shift_left (bp\<lparr>m_size := 0\<rparr> # rest) = Some r" "wf_slots (m_addr bp + m_size bp) r"
        "free_units r = free_units rest" "length r = Suc (length rest)"
        "length (segs r) = length (segs rest)" by blast
      moreover from this(2) have "wf_slots lo r" by (rule wf_slots_mono) (use wf in simp)
      ultimately show ?thesis using whole nz wf above by fastforce
    next
      case part
      then show ?thesis using nz wf above by (fastforce simp: Let_def)
    next
      case skip
      from "2.IH" [OF nz _ wf(3)] skip "2.prems"(2) obtain a arr' where r:
        "malloc_at rest sz = Some (a, arr')" "wf_slots (m_addr bp + m_size bp) arr'"
        "length arr' = length rest"
        "if a = 0 then arr' = rest else m_addr bp + m_size bp < a \<and> {a..<a + sz} \<subseteq> free_units rest
           \<and> free_units arr' = free_units rest - {a..<a + sz}
           \<and> length (segs arr') \<le> length (segs rest)
           \<and> (a + sz \<in> free_units arr' \<or> length (segs arr') < length (segs rest))"
        by (auto simp: not_le)
      then show ?thesis using skip nz wf above by (cases "a = 0") auto
    qed
  qed (use "2.prems" in auto)
qed simp

section \<open>mfree gives the units back\<close>

text \<open>The slots before a pointer, all in use, and the end of the last of them.\<close>

fun wf_pre :: "nat \<Rightarrow> mapent list \<Rightarrow> bool" where
  "wf_pre lo [] = True"
| "wf_pre lo (e # es) =
     (m_size e \<noteq> 0 \<and> lo < m_addr e \<and> m_addr e + m_size e < 2 ^ 32 \<and> wf_pre (m_addr e + m_size e) es)"

fun pre_end :: "nat \<Rightarrow> mapent list \<Rightarrow> nat" where
  "pre_end lo [] = lo"
| "pre_end lo (e # es) = pre_end (m_addr e + m_size e) es"

lemma wf_slots_append:
  "\<forall>e\<in>set pre. m_size e \<noteq> 0 \<Longrightarrow>
   wf_slots lo (pre @ post) \<longleftrightarrow> wf_pre lo pre \<and> wf_slots (pre_end lo pre) post"
  by (induction pre arbitrary: lo) auto

lemma wf_pre_append:
  "wf_pre lo (xs @ ys) \<longleftrightarrow> wf_pre lo xs \<and> wf_pre (pre_end lo xs) ys"
  by (induction xs arbitrary: lo) auto

lemma pre_end_append [simp]: "pre_end lo (xs @ ys) = pre_end (pre_end lo xs) ys"
  by (induction xs arbitrary: lo) auto

lemma wf_pre_nonzero: "wf_pre lo pre \<Longrightarrow> \<forall>e\<in>set pre. m_size e \<noteq> 0"
  by (induction pre arbitrary: lo) auto

lemma free_units_append:
  "\<forall>e\<in>set pre. m_size e \<noteq> 0 \<Longrightarrow>
   free_units (pre @ post) = (\<Union>e\<in>set pre. {m_addr e..<m_addr e + m_size e}) \<union> free_units post"
  by (induction pre) auto

lemma mfree_seek_spec:
  assumes "wf_slots lo (pre @ post)" "\<forall>e\<in>set pre. m_size e \<noteq> 0 \<and> m_addr e \<le> addr"
  shows "\<exists>pre' bp rest. mfree_seek pre post addr = Some (pre', bp # rest)
     \<and> pre' @ bp # rest = pre @ post
     \<and> (\<forall>e\<in>set pre'. m_size e \<noteq> 0 \<and> m_addr e \<le> addr) \<and> (m_size bp = 0 \<or> addr < m_addr bp)"
  using assms
proof (induction pre post addr rule: mfree_seek.induct)
  case (1 pre addr)
  then show ?case using wf_slots_append [of pre lo "[]"] by auto
next
  case (2 pre bp post addr)
  show ?case
  proof (cases "m_size bp \<noteq> 0 \<and> m_addr bp \<le> addr")
    case True
    with "2.prems" "2.IH" [OF True] show ?thesis by simp
  qed (use "2.prems" in auto)
qed

lemma mfree_seek_start:
  assumes "wf_slots 0 arr"
  shows "\<exists>pre bp rest. mfree_seek [] arr addr = Some (pre, bp # rest) \<and> arr = pre @ bp # rest
     \<and> (\<forall>e\<in>set pre. m_size e \<noteq> 0 \<and> m_addr e \<le> addr) \<and> (m_size bp = 0 \<or> addr < m_addr bp)"
  using mfree_seek_spec [of 0 "[]" arr addr] assms by (metis append_Nil empty_iff empty_set)

lemma to_end_spec:
  "wf_slots lo post \<Longrightarrow> \<exists>ss t beyond. to_end seen post = Some (seen @ ss, t, beyond)
     \<and> post = ss @ t # beyond \<and> (\<forall>e\<in>set ss. m_size e \<noteq> 0) \<and> m_size t = 0 \<and> m_addr t = 0"
proof (induction post arbitrary: lo seen)
  case (Cons b post)
  show ?case
  proof (cases "m_size b = 0")
    case False
    with Cons.prems have "wf_slots (m_addr b + m_size b) post" by simp
    from Cons.IH [OF this, of "seen @ [b]"] obtain ss t beyond where
      "to_end (seen @ [b]) post = Some ((seen @ [b]) @ ss, t, beyond)" "post = ss @ t # beyond"
      "\<forall>e\<in>set ss. m_size e \<noteq> 0" "m_size t = 0" "m_addr t = 0" by blast
    with False show ?thesis by (intro exI [of _ "b # ss"]) auto
  qed (use Cons.prems in auto)
qed simp

lemma segs_append: "\<forall>e\<in>set pre. m_size e \<noteq> 0 \<Longrightarrow> segs (pre @ post) = pre @ segs post"
  by (induction pre) auto

text \<open>What the caller of \<open>mfree\<close> owes: a real block, in range, none of it free already.\<close>

definition returnable :: "rmap \<Rightarrow> nat \<Rightarrow> nat \<Rightarrow> bool" where
  "returnable mp sz addr \<longleftrightarrow>
     0 < sz \<and> 0 < addr \<and> addr + sz < 2 ^ 32 \<and> {addr..<addr + sz} \<inter> units mp = {}"

lemma seg_apart_right:
  assumes "m_size e \<noteq> 0" "addr < m_addr e" "{addr..<addr + sz} \<inter> {m_addr e..<m_addr e + m_size e} = {}"
  shows "addr + sz \<le> m_addr e"
proof (rule ccontr)
  assume "\<not> addr + sz \<le> m_addr e"
  with assms have "m_addr e \<in> {addr..<addr + sz} \<inter> {m_addr e..<m_addr e + m_size e}" by auto
  with assms show False by blast
qed

lemma seg_apart_left:
  assumes "0 < sz" "m_addr e \<le> addr" "{addr..<addr + sz} \<inter> {m_addr e..<m_addr e + m_size e} = {}"
  shows "m_addr e + m_size e \<le> addr"
proof (rule ccontr)
  assume "\<not> m_addr e + m_size e \<le> addr"
  with assms have "addr \<in> {addr..<addr + sz} \<inter> {m_addr e..<m_addr e + m_size e}" by auto
  with assms show False by blast
qed

text \<open>
  The three successful shapes of a return, as statements about a map cut at \<open>bp\<close>: growing
  the left neighbour (and swallowing the right one), growing the right neighbour, inserting.
\<close>

lemma grow_left:
  assumes wf: "wf_slots lo (pre @ [ep] @ post)" and nz: "\<forall>e\<in>set pre. m_size e \<noteq> 0" "m_size ep \<noteq> 0"
    and ab: "m_addr ep + m_size ep = addr" and lt: "addr + sz < 2 ^ 32"
    and ok: "wf_slots (addr + sz) post"
  shows "wf_slots lo (pre @ [ep\<lparr>m_size := m_size ep + sz\<rparr>] @ post)"
    and "free_units (pre @ [ep\<lparr>m_size := m_size ep + sz\<rparr>] @ post)
         = free_units (pre @ [ep] @ post) \<union> {addr..<addr + sz}"
  using assms by (auto simp: wf_slots_append free_units_append add.assoc)

lemma grow_right:
  assumes wf: "wf_slots lo (pre @ bp # rest)" and nz: "\<forall>e\<in>set pre. m_size e \<noteq> 0" "m_size bp \<noteq> 0"
    and ab: "addr + sz = m_addr bp" and lo: "pre_end lo pre < addr"
  shows "wf_slots lo (pre @ bp\<lparr>m_addr := addr, m_size := m_size bp + sz\<rparr> # rest)"
    and "free_units (pre @ bp\<lparr>m_addr := addr, m_size := m_size bp + sz\<rparr> # rest)
         = free_units (pre @ bp # rest) \<union> {addr..<addr + sz}"
proof -
  have "m_addr bp + m_size bp = addr + (m_size bp + sz)" using ab by simp
  then show "wf_slots lo (pre @ bp\<lparr>m_addr := addr, m_size := m_size bp + sz\<rparr> # rest)"
    using wf nz lo by (auto simp: wf_slots_append ac_simps)
  show "free_units (pre @ bp\<lparr>m_addr := addr, m_size := m_size bp + sz\<rparr> # rest)
         = free_units (pre @ bp # rest) \<union> {addr..<addr + sz}"
    using ab nz by (auto simp: free_units_append)
qed

lemma insert_between:
  assumes wf: "wf_slots lo (pre @ ss @ t # x # beyond)"
    and nz: "\<forall>e\<in>set pre. m_size e \<noteq> 0" "\<forall>e\<in>set ss. m_size e \<noteq> 0" "m_size t = 0"
    and lo: "pre_end lo pre < addr" and sz: "0 < sz" "addr + sz < 2 ^ 32"
    and ok: "wf_slots (addr + sz) (ss @ t # x # beyond)"
  shows "wf_slots lo (pre @ [\<lparr>m_size = sz, m_addr = addr\<rparr>] @ ss @ [t] @ beyond)"
    and "free_units (pre @ [\<lparr>m_size = sz, m_addr = addr\<rparr>] @ ss @ [t] @ beyond)
         = free_units (pre @ ss @ t # x # beyond) \<union> {addr..<addr + sz}"
  using assms by (auto simp: wf_slots_append free_units_append)

lemma wf_pre_units_le:
  "wf_pre lo pre \<Longrightarrow> e \<in> set pre \<Longrightarrow> m_addr e + m_size e \<le> pre_end lo pre"
proof (induction pre arbitrary: lo)
  case (Cons x pre)
  have ge: "wf_pre l p \<Longrightarrow> l \<le> pre_end l p" for l p
    by (induction p arbitrary: l) force+
  show ?case
  proof (cases "e = x")
    case True
    with Cons.prems ge [of "m_addr x + m_size x" pre] show ?thesis by simp
  next
    case False
    with Cons show ?thesis by simp
  qed
qed simp

lemma mfree_insert_spec:
  assumes arr: "m_map mp = pre @ bp # rest" and wf: "wf_rmap mp"
    and nz: "\<forall>e\<in>set pre. m_size e \<noteq> 0" and lo: "pre_end 0 pre < addr"
    and sz: "0 < sz" "addr + sz < 2 ^ 32"
    and ok: "wf_slots (addr + sz) (bp # rest)"
  shows "\<exists>mp' lost. mfree_insert mp pre (bp # rest) sz addr = Ok (mp', lost) \<and> wf_rmap mp'
      \<and> m_limit mp' = m_limit mp \<and> length (m_map mp') = length (m_map mp)
      \<and> (if lost then mp' = mp \<and> m_limit mp \<le> length (segs (m_map mp)) \<and> addr + sz \<notin> units mp
         else units mp' = units mp \<union> {addr..<addr + sz})"
proof -
  from to_end_spec [OF ok, of "[]"] obtain ss t beyond where e:
    "to_end [] (bp # rest) = Some (ss, t, beyond)" "bp # rest = ss @ t # beyond"
    "\<forall>e\<in>set ss. m_size e \<noteq> 0" "m_size t = 0" by (metis append_Nil)
  have full: "segs (m_map mp) = pre @ ss"
    using e nz arr by (simp add: segs_append)
  show ?thesis
  proof (cases "length pre + length ss + 1 > m_limit mp")
    case True
    from wf arr nz have wp: "wf_pre 0 pre" by (simp add: wf_rmap_def wf_slots_append)
    have "addr + sz \<notin> units mp"
      using wf_pre_units_le [OF wp] free_units_gt [OF ok, of "addr + sz"] lo nz
      by (force simp: units_def arr free_units_append)
    with True e(1) full wf show ?thesis
      by (intro exI [of _ mp] exI [of _ True]) (simp add: mfree_insert_def)
  next
    case False
    from wf have lim: "m_limit mp < length (m_map mp)" by (simp add: wf_rmap_def)
    with False arr e(2) obtain x beyond' where b: "beyond = x # beyond'"
      by (cases beyond) auto
    have *: "wf_slots 0 (pre @ ss @ t # x # beyond')" "m_map mp = pre @ ss @ t # x # beyond'"
      using wf arr e(2) b by (simp_all add: wf_rmap_def)
    let ?new = "pre @ [\<lparr>m_size = sz, m_addr = addr\<rparr>] @ ss @ [t] @ beyond'"
    from insert_between [OF *(1) nz e(3,4) lo sz] ok e(2) b
    have w: "wf_slots 0 ?new" "free_units ?new = free_units (m_map mp) \<union> {addr..<addr + sz}"
      by (simp_all add: *(2))
    have l: "length (segs ?new) = length pre + length ss + 1" "length ?new = length (m_map mp)"
      using nz e(3,4) sz *(2) by (simp_all add: segs_append)
    have "mfree_insert mp pre (bp # rest) sz addr = Ok (mp\<lparr>m_map := ?new\<rparr>, False)"
      using False e(1) b by (simp add: mfree_insert_def)
    moreover have "wf_rmap (mp\<lparr>m_map := ?new\<rparr>)"
      using w(1) l False lim unfolding wf_rmap_def by simp
    ultimately show ?thesis using w(2) l(2)
      by (intro exI [of _ "mp\<lparr>m_map := ?new\<rparr>"] exI [of _ False]) (simp add: units_def)
  qed
qed

lemma mfree_right_spec:
  assumes arr: "m_map mp = pre @ bp # rest" and wf: "wf_rmap mp"
    and nz: "\<forall>e\<in>set pre. m_size e \<noteq> 0" and lo: "pre_end 0 pre < addr"
    and sz: "0 < sz" "addr + sz < 2 ^ 32"
    and le: "m_size bp \<noteq> 0 \<longrightarrow> addr + sz \<le> m_addr bp"
  shows "\<exists>mp' lost. mfree_right diag mp pre bp rest sz addr = Ok (mp', lost) \<and> wf_rmap mp'
      \<and> m_limit mp' = m_limit mp \<and> length (m_map mp') = length (m_map mp)
      \<and> (if lost then mp' = mp \<and> m_limit mp \<le> length (segs (m_map mp)) \<and> addr + sz \<notin> units mp
         else units mp' = units mp \<union> {addr..<addr + sz})"
proof -
  from wf arr nz have wfp: "wf_slots (pre_end 0 pre) (bp # rest)"
    by (auto simp: wf_rmap_def wf_slots_append)
  show ?thesis
  proof (cases "m_size bp \<noteq> 0 \<and> addr + sz = m_addr bp")
    case True
    let ?new = "pre @ bp\<lparr>m_addr := addr, m_size := m_size bp + sz\<rparr> # rest"
    from wfp True have "m_size bp + sz < 2 ^ 32" by auto
    with True sz have "mfree_right diag mp pre bp rest sz addr = Ok (mp\<lparr>m_map := ?new\<rparr>, False)"
      by (simp add: mfree_right_def)
    moreover have "length (segs ?new) = length (segs (m_map mp))"
      using nz True arr by (simp add: segs_append)
    ultimately show ?thesis
      using grow_right [of 0 pre bp rest addr sz] True wf arr nz lo by (auto simp: wf_rmap_def units_def)
  next
    case False
    with le have lt: "m_size bp \<noteq> 0 \<longrightarrow> addr + sz < m_addr bp" by auto
    then have "wf_slots (addr + sz) (bp # rest)" using wfp by (auto split: if_splits)
    note ins = mfree_insert_spec [OF arr wf nz lo sz this]
    from lt sz have "mfree_right diag mp pre bp rest sz addr = mfree_insert mp pre (bp # rest) sz addr"
      by (auto simp: mfree_right_def)
    with ins show ?thesis by simp
  qed
qed

lemma mfree_left_spec:
  assumes arr: "m_map mp = pre @ ep # bp # rest" and wf: "wf_rmap mp"
    and nz: "\<forall>e\<in>set pre. m_size e \<noteq> 0" "m_size ep \<noteq> 0" and ab: "m_addr ep + m_size ep = addr"
    and sz: "0 < sz" "addr + sz < 2 ^ 32"
    and le: "m_size bp \<noteq> 0 \<longrightarrow> addr + sz \<le> m_addr bp"
  shows "\<exists>mp'. mfree_left diag mp pre ep bp rest sz addr = Ok (mp', False) \<and> wf_rmap mp'
      \<and> m_limit mp' = m_limit mp \<and> length (m_map mp') = length (m_map mp)
      \<and> units mp' = units mp \<union> {addr..<addr + sz}"
proof -
  from wf arr have w: "wf_slots 0 (pre @ [ep] @ bp # rest)" by (simp add: wf_rmap_def)
  with nz ab have wb: "wf_slots addr (bp # rest)" and wp: "wf_slots 0 (pre @ [ep] @ [\<lparr>m_size = 0, m_addr = 0\<rparr>])"
    by (auto simp: wf_slots_append)
  show ?thesis
  proof (cases "m_size bp \<noteq> 0 \<and> addr + sz = m_addr bp")
    case True
    with wb have rest: "wf_slots (addr + sz + m_size bp) rest" "addr + sz + m_size bp < 2 ^ 32" by auto
    from shift_left_spec [OF rest(1), of bp] obtain r where r: "shift_left (bp # rest) = Some r"
      "wf_slots (addr + sz + m_size bp) r" "free_units r = free_units rest" "length r = Suc (length rest)" "length (segs r) = length (segs rest)"
      by blast
    have "wf_slots addr r" using r(2) by (rule wf_slots_mono) simp
    then have "wf_slots 0 (pre @ [ep] @ r)" using wp nz ab by (auto simp: wf_slots_append)
    note g = grow_left [OF this nz ab, of "sz + m_size bp"]
    from g(1) r(2) rest(2) have g1: "wf_slots 0 (pre @ [ep\<lparr>m_size := m_size ep + (sz + m_size bp)\<rparr>] @ r)"
      by (simp add: add.assoc)
    from g(2) r(2) rest(2)
    have "free_units (pre @ [ep\<lparr>m_size := m_size ep + (sz + m_size bp)\<rparr>] @ r)
         = free_units (pre @ [ep] @ r) \<union> {addr..<addr + (sz + m_size bp)}"
      by (simp add: add.assoc)
    also have "\<dots> = free_units (m_map mp) \<union> {addr..<addr + sz}"
      using True nz arr r(3) by (auto simp: free_units_append)
    finally have g2: "free_units (pre @ [ep\<lparr>m_size := m_size ep + (sz + m_size bp)\<rparr>] @ r)
         = free_units (m_map mp) \<union> {addr..<addr + sz}" .
    from rest(2) ab have "add32 (add32 (m_size ep) sz) (m_size bp) = m_size ep + (sz + m_size bp)" by simp
    with True r(1) ab sz
    have "mfree_left diag mp pre ep bp rest sz addr
       = Ok (mp\<lparr>m_map := pre @ [ep\<lparr>m_size := m_size ep + (sz + m_size bp)\<rparr>] @ r\<rparr>, False)"
      by (simp add: mfree_left_def Let_def)
    moreover have "length (segs (pre @ [ep\<lparr>m_size := m_size ep + (sz + m_size bp)\<rparr>] @ r))
        \<le> length (segs (m_map mp))"
      using nz r(5) arr True by (simp add: segs_append)
    ultimately show ?thesis using wf g1 g2 r(4) arr by (auto simp: wf_rmap_def units_def)
  next
    case False
    with le have lt: "m_size bp \<noteq> 0 \<longrightarrow> addr + sz < m_addr bp" by auto
    then have "wf_slots (addr + sz) (bp # rest)" using wb by (auto split: if_splits)
    note g = grow_left [OF w nz ab sz(2) this]
    have "mfree_left diag mp pre ep bp rest sz addr
       = Ok (mp\<lparr>m_map := pre @ [ep\<lparr>m_size := m_size ep + sz\<rparr>] @ bp # rest\<rparr>, False)"
      using lt sz ab by (auto simp: mfree_left_def Let_def)
    moreover have "length (segs (pre @ [ep\<lparr>m_size := m_size ep + sz\<rparr>] @ bp # rest)) = length (segs (m_map mp))"
      using nz arr by (simp add: segs_append)
    ultimately show ?thesis using wf g arr by (simp add: wf_rmap_def units_def)
  qed
qed

lemma mfree_spec:
  assumes wf: "wf_rmap mp" and blk: "returnable mp sz addr"
  shows "\<exists>mp' lost. mfree diag mp sz addr = Ok (mp', lost) \<and> wf_rmap mp'
      \<and> m_limit mp' = m_limit mp \<and> length (m_map mp') = length (m_map mp)
      \<and> (if lost then mp' = mp \<and> m_limit mp \<le> length (segs (m_map mp)) \<and> addr + sz \<notin> units mp
         else units mp' = units mp \<union> {addr..<addr + sz})"
proof -
  from blk have sz: "0 < sz" "0 < addr" "addr + sz < 2 ^ 32"
    and dj: "{addr..<addr + sz} \<inter> units mp = {}" by (auto simp: returnable_def)
  from wf have wf0: "wf_slots 0 (m_map mp)" by (simp add: wf_rmap_def)
  from mfree_seek_start [OF wf0, of addr] obtain pre bp rest where
    s: "mfree_seek [] (m_map mp) addr = Some (pre, bp # rest)" and arr: "m_map mp = pre @ bp # rest"
    and pre: "\<forall>e\<in>set pre. m_size e \<noteq> 0 \<and> m_addr e \<le> addr" and bp: "m_size bp = 0 \<or> addr < m_addr bp"
    by blast
  from pre have nz: "\<forall>e\<in>set pre. m_size e \<noteq> 0" by blast
  have le: "m_size bp \<noteq> 0 \<longrightarrow> addr + sz \<le> m_addr bp"
  proof (intro impI seg_apart_right)
    assume "m_size bp \<noteq> 0"
    then have "{m_addr bp..<m_addr bp + m_size bp} \<subseteq> units mp"
      using arr nz by (auto simp: units_def free_units_append)
    with dj show "{addr..<addr + sz} \<inter> {m_addr bp..<m_addr bp + m_size bp} = {}" by blast
  qed (use bp in auto)
  show ?thesis
  proof (cases pre rule: rev_cases)
    case Nil
    with mfree_right_spec [OF arr wf nz _ sz(1,3) le] s sz show ?thesis
      by (simp add: mfree_def)
  next
    case (snoc pre0 ep)
    with nz have nz': "\<forall>e\<in>set pre0. m_size e \<noteq> 0" "m_size ep \<noteq> 0" by auto
    have "{m_addr ep..<m_addr ep + m_size ep} \<subseteq> units mp"
      using arr nz snoc by (auto simp: units_def free_units_append)
    with dj have "{addr..<addr + sz} \<inter> {m_addr ep..<m_addr ep + m_size ep} = {}" by blast
    with sz(1) pre snoc have "m_addr ep + m_size ep \<le> addr" by (intro seg_apart_left) auto
    moreover have "m_addr ep + m_size ep < 2 ^ 32"
      using sz(3) calculation by linarith
    ultimately consider (ab) "m_addr ep + m_size ep = addr" | (gap) "m_addr ep + m_size ep < addr"
      "m_addr ep + m_size ep < 2 ^ 32" by linarith
    then show ?thesis
    proof cases
      case ab
      with mfree_left_spec [of mp pre0 ep bp rest addr sz diag] snoc arr wf nz' sz le s show ?thesis
        by (auto simp: mfree_def)
    next
      case gap
      with mfree_right_spec [OF arr wf nz _ sz(1,3) le] s sz snoc show ?thesis
        by (simp add: mfree_def)
    qed
  qed
qed

lemma malloc_spec:
  assumes wf: "wf_rmap mp" and sz: "0 < sz"
  shows "\<exists>mp' a. malloc mp sz = Ok (mp', a) \<and> wf_rmap mp'
      \<and> m_limit mp' = m_limit mp \<and> length (m_map mp') = length (m_map mp)
      \<and> (if a = 0 then mp' = mp
         else {a..<a + sz} \<subseteq> units mp \<and> units mp' = units mp - {a..<a + sz}
           \<and> (a + sz \<in> units mp' \<or> length (segs (m_map mp')) < length (segs (m_map mp))))"
proof -
  from wf have w: "wf_slots 0 (m_map mp)" "length (segs (m_map mp)) \<le> m_limit mp"
    "m_limit mp < length (m_map mp)" by (auto simp: wf_rmap_def)
  from malloc_at_spec [OF w(1) sz] obtain a arr where r: "malloc_at (m_map mp) sz = Some (a, arr)"
    "wf_slots 0 arr" "length arr = length (m_map mp)"
    "if a = 0 then arr = m_map mp
     else 0 < a \<and> {a..<a + sz} \<subseteq> free_units (m_map mp) \<and> free_units arr = free_units (m_map mp) - {a..<a + sz}
       \<and> length (segs arr) \<le> length (segs (m_map mp))
       \<and> (a + sz \<in> free_units arr \<or> length (segs arr) < length (segs (m_map mp)))" by blast
  then have "malloc mp sz = Ok (mp\<lparr>m_map := arr\<rparr>, a)" using sz by (simp add: malloc_def)
  moreover have "wf_rmap (mp\<lparr>m_map := arr\<rparr>)"
    using r w by (cases "a = 0") (auto simp: wf_rmap_def)
  ultimately show ?thesis using r(3,4) by (cases "a = 0") (auto simp: units_def)
qed

lemma units_lt: "wf_slots lo es \<Longrightarrow> x \<in> free_units es \<Longrightarrow> x < 2 ^ 32 - 1"
proof (induction es arbitrary: lo)
  case (Cons e es)
  then show ?case by (cases "m_size e = 0") fastforce+
qed simp

lemma allocated_returnable:
  assumes wf: "wf_rmap mp" and sz: "0 < sz" and a: "a \<noteq> 0"
    and r: "{a..<a + sz} \<subseteq> units mp" "units mp' = units mp - {a..<a + sz}"
  shows "returnable mp' sz a"
proof -
  have "a + sz - 1 \<in> units mp" using r(1) sz by auto
  with units_lt [of 0 "m_map mp"] wf have "a + sz - 1 < 2 ^ 32 - 1"
    by (auto simp: wf_rmap_def units_def)
  then show ?thesis using assms by (auto simp: returnable_def)
qed

section \<open>The contract of a space manager\<close>

text \<open>
  What the swapper relies on: an allocator of ranges of units, with a set of free units and an
  invariant. An allocation returns 0 and changes nothing, or takes exactly the range it returns;
  a release of a range none of which is free adds exactly that range, unless the table is full
  and the range touches no free unit on its right.
\<close>

locale space_manager =
  fixes invar :: "'m \<Rightarrow> bool" and free :: "'m \<Rightarrow> nat set" and slots :: "'m \<Rightarrow> nat" and cap :: "'m \<Rightarrow> nat"
    and alloc :: "'m \<Rightarrow> nat \<Rightarrow> ('m \<times> nat) cres"
    and release :: "'m \<Rightarrow> nat \<Rightarrow> nat \<Rightarrow> ('m \<times> bool) cres"
  assumes slots_cap: "invar m \<Longrightarrow> slots m \<le> cap m"
    and alloc_law: "invar m \<Longrightarrow> 0 < n \<Longrightarrow> \<exists>m' a. alloc m n = Ok (m', a) \<and> invar m' \<and> cap m' = cap m
      \<and> (if a = 0 then m' = m
         else {a..<a + n} \<subseteq> free m \<and> free m' = free m - {a..<a + n}
           \<and> (a + n \<in> free m' \<or> slots m' < slots m))"
    and release_law: "invar m \<Longrightarrow> 0 < n \<Longrightarrow> a \<noteq> 0 \<Longrightarrow> a + n < 2 ^ 32 \<Longrightarrow> {a..<a + n} \<inter> free m = {} \<Longrightarrow>
      \<exists>m' lost. release m n a = Ok (m', lost) \<and> invar m' \<and> cap m' = cap m
      \<and> (if lost then m' = m \<and> cap m \<le> slots m \<and> a + n \<notin> free m
         else free m' = free m \<union> {a..<a + n})"
    and free_range: "invar m \<Longrightarrow> u \<in> free m \<Longrightarrow> u + 1 < 2 ^ 32"
begin

lemma alloc_takes:
  assumes "invar m" "0 < n" "alloc m n = Ok (m', a)" "a \<noteq> 0"
  shows "invar m'" "cap m' = cap m" "{a..<a + n} \<subseteq> free m" "free m' = free m - {a..<a + n}"
    "a + n \<in> free m' \<or> slots m' < slots m"
  using alloc_law [of m n] assms by auto

lemma alloc_then_release:
  assumes i: "invar m" and n: "0 < n" and al: "alloc m n = Ok (m', a)" and a: "a \<noteq> 0"
  shows "\<exists>m''. release m' n a = Ok (m'', False) \<and> invar m'' \<and> free m'' = free m"
proof -
  note t = alloc_takes [OF i n al a]
  have "a + n - 1 \<in> free m" using t(3) n by auto
  then have "a + n < 2 ^ 32" using free_range [OF i] n by fastforce
  then obtain m'' lost where r: "release m' n a = Ok (m'', lost)" "invar m''"
    "if lost then m'' = m' \<and> cap m' \<le> slots m' \<and> a + n \<notin> free m' else free m'' = free m' \<union> {a..<a + n}"
    using release_law [of m' n a] t n a by auto
  have "\<not> lost" using r(3) t(2,5) slots_cap [OF i] by auto
  with r t(3,4) show ?thesis by auto
qed

lemma allocs_disjoint:
  assumes "invar m" "0 < n" "alloc m n = Ok (m', a)" "a \<noteq> 0"
    and "0 < k" "alloc m' k = Ok (m'', b)" "b \<noteq> 0"
  shows "{a..<a + n} \<inter> {b..<b + k} = {} \<and> {a..<a + n} \<union> {b..<b + k} \<subseteq> free m
     \<and> free m'' = free m - ({a..<a + n} \<union> {b..<b + k})"
proof -
  note t = alloc_takes [OF assms(1-4)]
  note u = alloc_takes [OF t(1) assms(5-7)]
  show ?thesis using t(3,4) u(3,4) by blast
qed

end

interpretation rm: space_manager wf_rmap units "\<lambda>mp. length (segs (m_map mp))" m_limit malloc "mfree diag"
  for diag
proof (unfold_locales, goal_cases)
  case (1 m)
  then show ?case by (simp add: wf_rmap_def)
next
  case (2 m n)
  with malloc_spec [of m n] show ?case by metis
next
  case (3 m n a)
  then have "returnable m n a" by (simp add: returnable_def)
  with 3 mfree_spec [of m n a diag] show ?case by metis
next
  case (4 m u)
  with units_lt [of 0 "m_map m" u] show ?case by (simp add: wf_rmap_def units_def)
qed

end
