(* ===== verification/Rmap3.thy ===== *)
theory Rmap3
  imports Rmap
begin

text \<open>
  The three-piece allocation \<open>malloc3\<close> of \<^verbatim>\<open>sys/kern/subr_rmap.c\<close>: the invariant of its scan, what
  the two clean-up loops restore, and the specification; then the properties of the resource
  maps as a whole.
\<close>

section \<open>malloc3 takes three ranges or nothing\<close>

text \<open>The units piece by piece: how much of slot \<open>i\<close> the pieces chosen so far take.\<close>

definition taken :: "(nat \<Rightarrow> nat) \<Rightarrow> (nat \<Rightarrow> nat option) \<Rightarrow> nat \<Rightarrow> nat" where
  "taken sizes ma i = (if ma 0 = Some i then sizes 0 else 0) + (if ma 1 = Some i then sizes 1 else 0)
     + (if ma 2 = Some i then sizes 2 else 0)"

definition n_found :: "(nat \<Rightarrow> nat option) \<Rightarrow> nat" where
  "n_found ma = (if ma 0 = None then 0 else 1) + (if ma 1 = None then 0 else 1) + (if ma 2 = None then 0 else 1)"

text \<open>The state of the scan is determined by the original array and the choices made.\<close>

definition m3_inv :: "(nat \<Rightarrow> nat) \<Rightarrow> mapent list \<Rightarrow> nat \<Rightarrow> m3 \<Rightarrow> bool" where
  "m3_inv sizes orig bp s \<longleftrightarrow>
     length (m3_arr s) = length orig \<and> found s = n_found (madd s)
   \<and> (\<forall>i < length orig. taken sizes (madd s) i \<le> m_size (orig ! i)
        \<and> m3_arr s ! i = (orig ! i)\<lparr>m_size := m_size (orig ! i) - taken sizes (madd s) i\<rparr>)
   \<and> (\<forall>k < 3. \<forall>i. madd s k = Some i \<longrightarrow> i < bp)
   \<and> (case remap s of
        None \<Rightarrow> \<forall>i < bp. m_size (m3_arr s ! i) \<noteq> 0
      | Some r \<Rightarrow> r < bp \<and> m_size (m3_arr s ! r) = 0 \<and> (\<forall>i < r. m_size (m3_arr s ! i) \<noteq> 0))"

lemma taken_upd:
  "ma k = None \<Longrightarrow> k < 3 \<Longrightarrow>
   taken sizes (ma(k := Some j)) i = taken sizes ma i + (if i = j then sizes k else 0)"
  by (auto simp: taken_def numeral_3_eq_3 numeral_2_eq_2 less_Suc_eq)

lemma n_found_upd: "ma k = None \<Longrightarrow> k < 3 \<Longrightarrow> n_found (ma(k := Some j)) = n_found ma + 1"
  by (auto simp: n_found_def numeral_3_eq_3 numeral_2_eq_2 less_Suc_eq)

lemma m3_step_inv:
  assumes inv: "m3_inv sizes orig (Suc bp) s" and k: "k < 3" and bp: "bp < length orig"
    and seg: "\<forall>i \<le> bp. m_size (orig ! i) \<noteq> 0"
  shows "m3_inv sizes orig (Suc bp) (m3_step sizes bp k s)"
proof (cases "found s = 3 \<or> madd s k \<noteq> None \<or> m_size (m3_arr s ! bp) < sizes k")
  case True
  then have "m3_step sizes bp k s = s" by (auto simp: m3_step_def)
  with inv show ?thesis by simp
next
  case False
  let ?e = "m3_arr s ! bp"
  let ?s = "m3_step sizes bp k s"
  have eq: "?s = s\<lparr>m3_arr := (m3_arr s)[bp := ?e\<lparr>m_size := m_size ?e - sizes k\<rparr>], madd := (madd s)(k := Some bp),
     remap := (if m_size ?e - sizes k = 0 \<and> remap s = None then Some bp else remap s), found := found s + 1\<rparr>"
    using False by (simp add: m3_step_def Let_def)
  from inv have len: "length (m3_arr s) = length orig" and f: "found s = n_found (madd s)"
    and cut: "\<And>i. i < length orig \<Longrightarrow> taken sizes (madd s) i \<le> m_size (orig ! i)
        \<and> m3_arr s ! i = (orig ! i)\<lparr>m_size := m_size (orig ! i) - taken sizes (madd s) i\<rparr>"
    and rng: "\<And>k i. k < 3 \<Longrightarrow> madd s k = Some i \<Longrightarrow> i < Suc bp"
    and rm: "case remap s of None \<Rightarrow> \<forall>i < Suc bp. m_size (m3_arr s ! i) \<noteq> 0
      | Some r \<Rightarrow> r < Suc bp \<and> m_size (m3_arr s ! r) = 0 \<and> (\<forall>i < r. m_size (m3_arr s ! i) \<noteq> 0)"
    by (auto simp: m3_inv_def)
  have mk: "madd s k = None" "sizes k \<le> m_size ?e" using False by auto
  note tk = taken_upd [where ma = "madd s" and k = k and sizes = sizes, OF mk(1) k]
  have cut': "taken sizes (madd ?s) i \<le> m_size (orig ! i)
      \<and> m3_arr ?s ! i = (orig ! i)\<lparr>m_size := m_size (orig ! i) - taken sizes (madd ?s) i\<rparr>"
    if "i < length orig" for i
    using cut [OF that] mk(2) len bp by (cases "i = bp") (auto simp: eq tk)
  have rm': "case remap ?s of None \<Rightarrow> \<forall>i < Suc bp. m_size (m3_arr ?s ! i) \<noteq> 0
      | Some r \<Rightarrow> r < Suc bp \<and> m_size (m3_arr ?s ! r) = 0 \<and> (\<forall>i < r. m_size (m3_arr ?s ! i) \<noteq> 0)"
    using rm mk(2) len bp by (auto simp: eq nth_list_update less_Suc_eq split: option.splits)
  show ?thesis
    using len f cut' rm' rng n_found_upd [where ma = "madd s" and k = k and j = bp, OF mk(1) k]
    unfolding m3_inv_def by (auto simp: eq split: if_splits)
qed

lemma m3_inv_Suc:
  assumes "m3_inv sizes orig bp s" "m_size (m3_arr s ! bp) \<noteq> 0"
  shows "m3_inv sizes orig (Suc bp) s"
  using assms by (auto simp: m3_inv_def less_Suc_eq split: option.splits)

lemma m3_inv_range:
  assumes "m3_inv sizes orig bp s" "madd s 0 = Some i \<or> madd s 1 = Some i \<or> madd s 2 = Some i"
  shows "i < bp"
proof -
  have "\<And>k. k < 3 \<Longrightarrow> madd s k = Some i \<Longrightarrow> i < bp" using assms(1) by (auto simp: m3_inv_def)
  from this [of 0] this [of 1] this [of 2] assms(2) show ?thesis by auto
qed

lemma taken_beyond: "m3_inv sizes orig bp s \<Longrightarrow> bp \<le> i \<Longrightarrow> taken sizes (madd s) i = 0"
  unfolding m3_inv_def taken_def by (force simp: numeral_3_eq_3 numeral_2_eq_2)

text \<open>A slot with room for all three pieces ends the scan.\<close>

lemma m3_fits:
  assumes "found s = n_found (madd s)" "bp < length (m3_arr s)"
    and "sizes 0 + sizes 1 + sizes 2 \<le> m_size (m3_arr s ! bp)"
  shows "found (fold (m3_step sizes bp) [0, 1, 2] s) = 3"
  using assms
  by (cases "madd s 0"; cases "madd s 1"; cases "madd s 2") (auto simp: m3_step_def n_found_def Let_def)

lemma m3_scan_inv:
  assumes "m3_inv sizes orig bp s" "bp \<le> length (segs orig)" "length (segs orig) < length orig"
  shows "\<exists>s' bp'. m3_scan sizes bp s = Some s' \<and> bp' \<le> length (segs orig) \<and> m3_inv sizes orig bp' s'
     \<and> (found s' \<noteq> 3 \<longrightarrow> (\<forall>i. bp \<le> i \<and> i < length (segs orig) \<longrightarrow> m_size (orig ! i) < sizes 0 + sizes 1 + sizes 2))"
  using assms
proof (induction sizes bp s rule: m3_scan.induct)
  case (1 sizes bp s)
  have len: "length (m3_arr s) = length orig" using "1.prems"(1) by (simp add: m3_inv_def)
  have same: "m3_arr s ! bp = orig ! bp"
    using "1.prems" taken_beyond [OF "1.prems"(1), of bp] by (auto simp: m3_inv_def)
  show ?case
  proof (cases "found s = 3 \<or> m_size (m3_arr s ! bp) = 0")
    case True
    have "bp = length (segs orig)" if "m_size (orig ! bp) = 0"
    proof (rule ccontr)
      assume "bp \<noteq> length (segs orig)"
      then have i: "bp < length (segs orig)" using "1.prems"(2) by simp
      from nth_mem [OF this] have "m_size (segs orig ! bp) \<noteq> 0" by (auto dest: set_takeWhileD)
      with that takeWhile_nth [OF i] show False by simp
    qed
    with True same have "found s \<noteq> 3 \<longrightarrow> bp = length (segs orig)" by auto
    with True "1.prems" len show ?thesis by (subst m3_scan.simps) (auto intro!: exI [of _ bp])
  next
    case False
    have lt: "bp < length (segs orig)"
    proof (rule ccontr)
      assume "\<not> bp < length (segs orig)"
      with "1.prems" have "bp = length (segs orig)" by simp
      with "1.prems"(3) nth_length_takeWhile [of "\<lambda>e. m_size e \<noteq> 0" orig] same False show False by simp
    qed
    have seg: "\<forall>i \<le> bp. m_size (orig ! i) \<noteq> 0"
    proof (intro allI impI)
      fix i assume "i \<le> bp"
      then have i: "i < length (segs orig)" using lt by simp
      then have "segs orig ! i \<in> set (segs orig)" by (rule nth_mem)
      then have "m_size (segs orig ! i) \<noteq> 0" by (auto dest: set_takeWhileD)
      then show "m_size (orig ! i) \<noteq> 0" using takeWhile_nth [OF i] by simp
    qed
    let ?s = "fold (m3_step sizes bp) [0, 1, 2] s"
    have "m3_inv sizes orig (Suc bp) s" using "1.prems"(1) False by (intro m3_inv_Suc) auto
    then have "m3_inv sizes orig (Suc bp) ?s"
      using lt "1.prems"(3) seg by (simp add: m3_step_inv)
    with "1.IH" False lt "1.prems"(3) len obtain s' bp' where r: "m3_scan sizes (Suc bp) ?s = Some s'"
      "bp' \<le> length (segs orig)" "m3_inv sizes orig bp' s'"
      "found s' \<noteq> 3 \<longrightarrow> (\<forall>i. Suc bp \<le> i \<and> i < length (segs orig) \<longrightarrow> m_size (orig ! i) < sizes 0 + sizes 1 + sizes 2)"
      by auto
    have "m_size (orig ! bp) < sizes 0 + sizes 1 + sizes 2" if "found s' \<noteq> 3"
    proof (rule ccontr)
      assume "\<not> m_size (orig ! bp) < sizes 0 + sizes 1 + sizes 2"
      then have "found ?s = 3" using "1.prems"(1,3) lt len same
        by (intro m3_fits) (auto simp: m3_inv_def)
      then show False using r(1) that by (subst (asm) m3_scan.simps) simp
    qed
    then have "found s' \<noteq> 3 \<longrightarrow> (\<forall>i. bp \<le> i \<and> i < length (segs orig) \<longrightarrow> m_size (orig ! i) < sizes 0 + sizes 1 + sizes 2)"
      using r(4) by (metis Suc_leI le_neq_implies_less)
    moreover have "m3_scan sizes bp s = m3_scan sizes (Suc bp) ?s"
      using False lt "1.prems"(3) len by (subst m3_scan.simps) simp
    ultimately show ?thesis using r(1-3) by auto
  qed
qed


lemma m3_restore_nth:
  assumes "i < length arr" "ma k = Some i \<longrightarrow> m_size (arr ! i) + sizes k < 2 ^ 32"
  shows "m3_restore sizes ma k arr ! i
     = (arr ! i)\<lparr>m_size := m_size (arr ! i) + (if ma k = Some i then sizes k else 0)\<rparr>"
  using assms by (auto simp: m3_restore_def nth_list_update split: option.splits)

lemma m3_restore_length [simp]: "length (m3_restore sizes ma k arr) = length arr"
  by (simp add: m3_restore_def split: option.splits)

lemma m3_restore_all:
  assumes inv: "m3_inv sizes orig bp s" and sm: "\<forall>i < bp. m_size (orig ! i) < 2 ^ 32"
  shows "fold (m3_restore sizes (madd s)) [0, 1, 2] (m3_arr s) = orig"
proof (rule nth_equalityI)
  show "length (fold (m3_restore sizes (madd s)) [0, 1, 2] (m3_arr s)) = length orig"
    using inv by (simp add: m3_inv_def)
next
  fix i assume "i < length (fold (m3_restore sizes (madd s)) [0, 1, 2] (m3_arr s))"
  then have i: "i < length orig" using inv by (simp add: m3_inv_def)
  with inv have *: "taken sizes (madd s) i \<le> m_size (orig ! i)"
    "madd s 0 = Some i \<or> madd s 1 = Some i \<or> madd s 2 = Some i \<longrightarrow> i < bp"
    "m3_arr s ! i = (orig ! i)\<lparr>m_size := m_size (orig ! i) - taken sizes (madd s) i\<rparr>"
    "length (m3_arr s) = length orig"
    using m3_inv_range [OF inv, of i] by (auto simp: m3_inv_def)
  let ?x = "\<lambda>k. if madd s k = Some i then sizes k else 0"
  let ?e = "m3_arr s ! i"
  have b: "m_size ?e + ?x 0 + ?x 1 + ?x 2 < 2 ^ 32"
    if "madd s 0 = Some i \<or> madd s 1 = Some i \<or> madd s 2 = Some i"
  proof -
    from that *(2) sm have "m_size (orig ! i) < 2 ^ 32" by blast
    with *(1) show ?thesis by (simp add: *(3) taken_def)
  qed
  have 1: "m3_restore sizes (madd s) 0 (m3_arr s) ! i = ?e\<lparr>m_size := m_size ?e + ?x 0\<rparr>"
    using m3_restore_nth [of i "m3_arr s" "madd s" 0 sizes] b i *(4) by (cases "madd s 0 = Some i") simp_all
  have 2: "m3_restore sizes (madd s) 1 (m3_restore sizes (madd s) 0 (m3_arr s)) ! i
     = ?e\<lparr>m_size := m_size ?e + ?x 0 + ?x 1\<rparr>"
    using m3_restore_nth [of i "m3_restore sizes (madd s) 0 (m3_arr s)" "madd s" 1 sizes] b i *(4) 1 by (cases "madd s 1 = Some i") simp_all
  have 3: "fold (m3_restore sizes (madd s)) [0, 1, 2] (m3_arr s) ! i
     = ?e\<lparr>m_size := m_size ?e + ?x 0 + ?x 1 + ?x 2\<rparr>"
    using m3_restore_nth [of i "m3_restore sizes (madd s) 1 (m3_restore sizes (madd s) 0 (m3_arr s))" "madd s" 2 sizes]
      b i *(4) 2 by (cases "madd s 2 = Some i") simp_all
  have "m_size ?e + ?x 0 + ?x 1 + ?x 2 = m_size (orig ! i)" using *(1) by (simp add: *(3) taken_def)
  then show "fold (m3_restore sizes (madd s)) [0, 1, 2] (m3_arr s) ! i = orig ! i"
    unfolding 3 by (simp add: *(3))
qed

text \<open>The addresses handed out, and the slots after \<open>resolve\<close>.\<close>

lemma m3_resolve_arr:
  assumes "i < length (snd st)" "ma k = Some i \<longrightarrow> m_addr (snd st ! i) + sizes k < 2 ^ 32"
  shows "snd (m3_resolve sizes ma k st) ! i
     = (snd st ! i)\<lparr>m_addr := m_addr (snd st ! i) + (if ma k = Some i then sizes k else 0)\<rparr>"
  using assms by (cases st) (auto simp: m3_resolve_def nth_list_update split: option.splits)

lemma m3_resolve_length [simp]:
  "length (snd (m3_resolve sizes ma k st)) = length (snd st)"
  "length (fst (m3_resolve sizes ma k st)) = length (fst st)"
  by (cases st; simp add: m3_resolve_def split: option.splits)+

lemma m3_resolve_addr:
  assumes "k < length (fst st)" "ma k = Some i"
  shows "fst (m3_resolve sizes ma k st) ! k = m_addr (snd st ! i)"
    and "j \<noteq> k \<Longrightarrow> fst (m3_resolve sizes ma k st) ! j = fst st ! j"
  using assms by (cases st; simp add: m3_resolve_def)+

definition before :: "(nat \<Rightarrow> nat) \<Rightarrow> (nat \<Rightarrow> nat option) \<Rightarrow> nat \<Rightarrow> nat" where
  "before sizes ma k = (if 0 < k \<and> ma 0 = ma k then sizes 0 else 0) + (if 1 < k \<and> ma 1 = ma k then sizes 1 else 0)"

lemma m3_resolve_all:
  assumes len: "length a = 3" and all: "ma 0 = Some i0" "ma 1 = Some i1" "ma 2 = Some i2"
    and ok: "\<forall>i \<in> {i0, i1, i2}. m_addr (arr ! i) + taken sizes ma i < 2 ^ 32"
    and i: "i0 < length arr" "i1 < length arr" "i2 < length arr"
    and r: "fold (m3_resolve sizes ma) [0, 1, 2] (a, arr) = (a', arr')"
  shows "a' = [m_addr (arr ! i0), m_addr (arr ! i1) + before sizes ma 1, m_addr (arr ! i2) + before sizes ma 2]"
    and "length arr' = length arr"
    and "i < length arr \<Longrightarrow> arr' ! i = (arr ! i)\<lparr>m_addr := m_addr (arr ! i) + taken sizes ma i\<rparr>"
proof -
  define s1 where "s1 = m3_resolve sizes ma 0 (a, arr)"
  define s2 where "s2 = m3_resolve sizes ma 1 s1"
  define s3 where "s3 = m3_resolve sizes ma 2 s2"
  have s3: "s3 = (a', arr')" using r by (simp add: s1_def s2_def s3_def)
  have l: "length (snd s1) = length arr" "length (snd s2) = length arr" "length (snd s3) = length arr"
    "length (fst s1) = 3" "length (fst s2) = 3" "length (fst s3) = 3"
    using len by (simp_all add: s1_def s2_def s3_def)
  have b: "m_addr (arr ! j) + (if ma 0 = Some j then sizes 0 else 0) + (if ma 1 = Some j then sizes 1 else 0)
      + (if ma 2 = Some j then sizes 2 else 0) < 2 ^ 32"
    if "ma 0 = Some j \<or> ma 1 = Some j \<or> ma 2 = Some j" for j
    using ok that all by (auto simp: taken_def add.assoc)
  have n1: "snd s1 ! j = (arr ! j)\<lparr>m_addr := m_addr (arr ! j) + (if ma 0 = Some j then sizes 0 else 0)\<rparr>"
    if "j < length arr" for j
    unfolding s1_def using m3_resolve_arr [of j "(a, arr)" ma 0 sizes] b [of j] that by (cases "ma 0 = Some j") simp_all
  have n2: "snd s2 ! j = (arr ! j)\<lparr>m_addr := m_addr (arr ! j) + (if ma 0 = Some j then sizes 0 else 0)
      + (if ma 1 = Some j then sizes 1 else 0)\<rparr>"
    if "j < length arr" for j
    unfolding s2_def using m3_resolve_arr [of j s1 ma 1 sizes] b [of j] that n1 [OF that] l(1) by (cases "ma 1 = Some j") simp_all
  have n3: "snd s3 ! j = (arr ! j)\<lparr>m_addr := m_addr (arr ! j) + taken sizes ma j\<rparr>"
    if "j < length arr" for j
    unfolding s3_def using m3_resolve_arr [of j s2 ma 2 sizes] b [of j] that n2 [OF that] l(2)
    by (cases "ma 2 = Some j") (simp_all add: taken_def add.assoc)
  show "length arr' = length arr" using l s3 by simp
  show "i < length arr \<Longrightarrow> arr' ! i = (arr ! i)\<lparr>m_addr := m_addr (arr ! i) + taken sizes ma i\<rparr>"
    using n3 s3 by simp
  have a0: "fst s1 ! 0 = m_addr (arr ! i0)"
    unfolding s1_def using m3_resolve_addr(1) [of 0 "(a, arr)" ma i0 sizes] len all by simp
  have a1: "fst s2 ! 0 = fst s1 ! 0" "fst s2 ! 1 = m_addr (snd s1 ! i1)"
    unfolding s2_def using m3_resolve_addr [of 1 s1 ma i1] l all by auto
  have a2: "fst s3 ! 0 = fst s2 ! 0" "fst s3 ! 1 = fst s2 ! 1" "fst s3 ! 2 = m_addr (snd s2 ! i2)"
    unfolding s3_def using m3_resolve_addr [of 2 s2 ma i2] l all by auto
  have "a' = [a' ! 0, a' ! 1, a' ! 2]"
    using l(6) s3 by (auto simp: length_Suc_conv numeral_3_eq_3)
  also have "\<dots> = [m_addr (arr ! i0), m_addr (arr ! i1) + before sizes ma 1, m_addr (arr ! i2) + before sizes ma 2]"
    using a0 a1 a2 s3 n1 [OF i(2)] n2 [OF i(3)] all by (simp add: before_def)
  finally show "a' = [m_addr (arr ! i0), m_addr (arr ! i1) + before sizes ma 1, m_addr (arr ! i2) + before sizes ma 2]" .
qed


text \<open>Compaction keeps exactly the slots that still hold something.\<close>

lemma m3_compact_spec:
  assumes "arr = pre @ junk @ es @ t # beyond" "junk \<noteq> []" "\<forall>e\<in>set es. m_addr e \<noteq> 0"
    "m_size t = 0" "m_addr t = 0"
  shows "\<exists>tail. m3_compact (length pre) (length pre + length junk) arr
     = Some (pre @ filter (\<lambda>e. m_size e \<noteq> 0) es @ t # tail)
     \<and> length (pre @ filter (\<lambda>e. m_size e \<noteq> 0) es @ t # tail) = length arr"
  using assms
proof (induction es arbitrary: pre junk arr)
  case Nil
  then obtain j js where j: "junk = j # js" by (cases junk) auto
  have "arr[length pre := t] = pre @ t # (js @ t # beyond)"
    using Nil.prems(1) by (simp add: j list_update_append)
  moreover have "arr ! (length pre + length junk) = t" using Nil.prems(1) by (simp add: nth_append)
  ultimately show ?case using Nil.prems j by (subst m3_compact.simps) auto
next
  case (Cons e es)
  have at: "arr ! (length pre + length junk) = e" "length pre + length junk < length arr"
    using Cons.prems(1) by (simp_all add: nth_append)
  show ?case
  proof (cases "m_size e = 0")
    case True
    from Cons.IH [of arr pre "junk @ [e]"] Cons.prems obtain tail where
      "m3_compact (length pre) (Suc (length pre + length junk)) arr
         = Some (pre @ filter (\<lambda>e. m_size e \<noteq> 0) es @ t # tail)"
      "length (pre @ filter (\<lambda>e. m_size e \<noteq> 0) es @ t # tail) = length arr" by auto
    with True at Cons.prems(3) show ?thesis by (subst m3_compact.simps) auto
  next
    case False
    obtain j js where j: "junk = j # js" using Cons.prems(2) by (cases junk) auto
    let ?arr = "arr[length pre := e]"
    have "?arr = (pre @ [e]) @ (js @ [e]) @ es @ t # beyond"
      using Cons.prems(1) by (simp add: j list_update_append)
    from Cons.IH [OF this] Cons.prems obtain tail where
      "m3_compact (Suc (length pre)) (Suc (length pre + length junk)) ?arr
         = Some (pre @ filter (\<lambda>e. m_size e \<noteq> 0) (e # es) @ t # tail)"
      "length (pre @ filter (\<lambda>e. m_size e \<noteq> 0) (e # es) @ t # tail) = length arr"
      using False by (auto simp: j)
    with False at Cons.prems(3) show ?thesis by (subst m3_compact.simps) auto
  qed
qed

text \<open>A slot of which the first \<open>t\<close> units were taken.\<close>

definition cut :: "mapent \<Rightarrow> mapent \<Rightarrow> bool" where
  "cut e c \<longleftrightarrow> (\<exists>t \<le> m_size e. c = e\<lparr>m_size := m_size e - t, m_addr := m_addr e + t\<rparr>)"

lemma cut_wf:
  assumes "list_all2 cut ss cs" "wf_slots lo (ss @ t # beyond)" "m_size t = 0" "\<forall>e\<in>set ss. m_size e \<noteq> 0"
  shows "wf_slots lo (filter (\<lambda>e. m_size e \<noteq> 0) cs @ t # tail)"
  using assms
proof (induction arbitrary: lo rule: list_all2_induct)
  case (Cons e es c cs)
  then obtain u where u: "u \<le> m_size e" "c = e\<lparr>m_size := m_size e - u, m_addr := m_addr e + u\<rparr>"
    by (auto simp: cut_def)
  have w: "wf_slots (m_addr e + m_size e) (filter (\<lambda>e. m_size e \<noteq> 0) cs @ t # tail)"
    using Cons by (auto split: if_splits)
  show ?case
  proof (cases "u = m_size e")
    case True
    have "wf_slots lo (filter (\<lambda>e. m_size e \<noteq> 0) cs @ t # tail)"
      using Cons.prems by (intro wf_slots_mono [OF w]) (auto split: if_splits)
    with True u show ?thesis by simp
  next
    case False
    with u w Cons.prems show ?thesis by (auto split: if_splits)
  qed
qed auto

lemma units_filter:
  "free_units (filter (\<lambda>e. m_size e \<noteq> 0) cs @ t # tail)
     = (\<Union>c\<in>set cs. {m_addr c..<m_addr c + m_size c})" if "m_size t = 0"
  using that by (induction cs) auto

lemma segs_filter: "m_size t = 0 \<Longrightarrow> segs (filter (\<lambda>e. m_size e \<noteq> 0) cs @ t # tail) = filter (\<lambda>e. m_size e \<noteq> 0) cs"
  by (induction cs) auto


lemma wf_slots_order:
  assumes "wf_slots lo (ss @ t # beyond)" "\<forall>e\<in>set ss. m_size e \<noteq> 0" "i < length ss"
  shows "lo < m_addr (ss ! i)" "m_addr (ss ! i) + m_size (ss ! i) < 2 ^ 32"
    "i < j \<Longrightarrow> j < length ss \<Longrightarrow> m_addr (ss ! i) + m_size (ss ! i) < m_addr (ss ! j)"
proof -
  from assms have w: "wf_pre lo ss" by (simp add: wf_slots_append)
  have lo: "lo < m_addr (ss ! i) \<and> m_addr (ss ! i) + m_size (ss ! i) < 2 ^ 32"
    if "wf_pre lo ss" "i < length ss" for lo ss i
    using that
  proof (induction ss arbitrary: lo i)
    case (Cons e ss)
    then show ?case by (cases i) fastforce+
  qed simp
  show "lo < m_addr (ss ! i)" "m_addr (ss ! i) + m_size (ss ! i) < 2 ^ 32" using lo [OF w assms(3)] by auto
  assume j: "i < j" "j < length ss"
  then have ss: "ss = take i ss @ ss ! i # drop (Suc i) ss" by (simp add: id_take_nth_drop)
  with w have "wf_pre (m_addr (ss ! i) + m_size (ss ! i)) (drop (Suc i) ss)"
    by (metis wf_pre_append wf_pre.simps(2))
  from lo [OF this, of "j - Suc i"] j show "m_addr (ss ! i) + m_size (ss ! i) < m_addr (ss ! j)" by auto
qed

lemma seg_sizes:
  assumes "wf_slots lo arr" "i < length (segs arr)"
  shows "m_size (arr ! i) < 2 ^ 32"
  using assms
proof (induction arr arbitrary: lo i)
  case (Cons e arr)
  then show ?case by (cases i) (auto split: if_splits)
qed simp

lemma free_units_nth:
  "\<forall>e\<in>set ss. m_size e \<noteq> 0 \<Longrightarrow> m_size t = 0 \<Longrightarrow>
   x \<in> free_units (ss @ t # beyond) \<longleftrightarrow> (\<exists>i < length ss. x \<in> {m_addr (ss ! i)..<m_addr (ss ! i) + m_size (ss ! i)})"
  by (auto simp: free_units_append in_set_conv_nth) (metis nth_mem)

text \<open>
  Three pieces placed one behind the other at the front of their slots: they are pairwise
  disjoint, and what remains of the slots is what remains of their union.
\<close>

lemma three_pieces:
  fixes A S :: "nat \<Rightarrow> nat" and sizes :: "nat \<Rightarrow> nat"
  assumes ord: "\<And>i j. i < j \<Longrightarrow> j < m \<Longrightarrow> A i + S i < A j"
    and ma: "ma 0 = Some i0" "ma 1 = Some i1" "ma 2 = Some i2" and im: "i0 < m" "i1 < m" "i2 < m"
    and fit: "\<And>i. i < m \<Longrightarrow> taken sizes ma i \<le> S i"
    and a: "a0 = A i0" "a1 = A i1 + before sizes ma 1" "a2 = A i2 + before sizes ma 2"
  shows "{a0..<a0 + sizes 0} \<inter> {a1..<a1 + sizes 1} = {}"
    and "{a0..<a0 + sizes 0} \<inter> {a2..<a2 + sizes 2} = {}"
    and "{a1..<a1 + sizes 1} \<inter> {a2..<a2 + sizes 2} = {}"
    and "i < m \<Longrightarrow> {A i + taken sizes ma i..<A i + S i}
       = {A i..<A i + S i} - ({a0..<a0 + sizes 0} \<union> {a1..<a1 + sizes 1} \<union> {a2..<a2 + sizes 2})"
    and "{a0..<a0 + sizes 0} \<subseteq> {A i0..<A i0 + S i0}" "{a1..<a1 + sizes 1} \<subseteq> {A i1..<A i1 + S i1}"
      "{a2..<a2 + sizes 2} \<subseteq> {A i2..<A i2 + S i2}"
proof -
  have t: "taken sizes ma i = (if i = i0 then sizes 0 else 0) + (if i = i1 then sizes 1 else 0)
      + (if i = i2 then sizes 2 else 0)" for i using ma by (auto simp: taken_def)
  have b: "before sizes ma 1 = (if i0 = i1 then sizes 0 else 0)"
    "before sizes ma 2 = (if i0 = i2 then sizes 0 else 0) + (if i1 = i2 then sizes 1 else 0)"
    using ma by (auto simp: before_def)
  have f: "A i0 \<le> a0" "a0 + sizes 0 \<le> A i0 + S i0" "A i1 \<le> a1" "a1 + sizes 1 \<le> A i1 + S i1"
    "A i2 \<le> a2" "a2 + sizes 2 \<le> A i2 + S i2"
    using fit [OF im(1)] fit [OF im(2)] fit [OF im(3)] a b t by (auto split: if_splits)
  have apart: "{x..<x + u} \<inter> {y..<y + v} = {}"
    if "A i \<le> x" "x + u \<le> A i + S i" "A j \<le> y" "y + v \<le> A j + S j" "i < m" "j < m" "i \<noteq> j" for x y u v i j
    using that ord [of i j] ord [of j i] by (cases "i < j") auto
  show 1: "{a0..<a0 + sizes 0} \<inter> {a1..<a1 + sizes 1} = {}"
    using apart [OF f(1-4) im(1,2)] a b by (cases "i0 = i1") auto
  show 2: "{a0..<a0 + sizes 0} \<inter> {a2..<a2 + sizes 2} = {}"
    using apart [OF f(1,2,5,6) im(1,3)] a b by (cases "i0 = i2") auto
  show 3: "{a1..<a1 + sizes 1} \<inter> {a2..<a2 + sizes 2} = {}"
    using apart [OF f(3-6) im(2,3)] a b by (cases "i1 = i2") auto
  show "{a0..<a0 + sizes 0} \<subseteq> {A i0..<A i0 + S i0}" "{a1..<a1 + sizes 1} \<subseteq> {A i1..<A i1 + S i1}"
    "{a2..<a2 + sizes 2} \<subseteq> {A i2..<A i2 + S i2}" using f by auto
  assume i: "i < m"
  have out: "{A i..<A i + S i} \<inter> {x..<x + u} = {}"
    if "A j \<le> x" "x + u \<le> A j + S j" "j < m" "i \<noteq> j" for x u j
    using apart [of i "A i" "S i" j x u] that i by auto
  have o0: "i \<noteq> i0 \<Longrightarrow> {A i..<A i + S i} \<inter> {a0..<a0 + sizes 0} = {}" using out [OF f(1,2) im(1)] by blast
  have o1: "i \<noteq> i1 \<Longrightarrow> {A i..<A i + S i} \<inter> {a1..<a1 + sizes 1} = {}" using out [OF f(3,4) im(2)] by blast
  have o2: "i \<noteq> i2 \<Longrightarrow> {A i..<A i + S i} \<inter> {a2..<a2 + sizes 2} = {}" using out [OF f(5,6) im(3)] by blast
  have front: "{A i..<A i + S i} \<inter> ({a0..<a0 + sizes 0} \<union> {a1..<a1 + sizes 1} \<union> {a2..<a2 + sizes 2})
      = {A i..<A i + taken sizes ma i}"
  proof -
    let ?I = "{A i..<A i + S i}"
    have p0: "?I \<inter> {a0..<a0 + sizes 0} = (if i = i0 then {A i..<A i + sizes 0} else {})"
      using o0 f(1,2) a(1) by (cases "i = i0") auto
    have p1: "?I \<inter> {a1..<a1 + sizes 1} = (if i = i1 then {A i + before sizes ma 1..<A i + before sizes ma 1 + sizes 1} else {})"
      using o1 f(3,4) a(2) by (cases "i = i1") auto
    have p2: "?I \<inter> {a2..<a2 + sizes 2} = (if i = i2 then {A i + before sizes ma 2..<A i + before sizes ma 2 + sizes 2} else {})"
      using o2 f(5,6) a(3) by (cases "i = i2") auto
    show ?thesis unfolding Int_Un_distrib p0 p1 p2 t b by auto
  qed
  let ?U = "{a0..<a0 + sizes 0} \<union> {a1..<a1 + sizes 1} \<union> {a2..<a2 + sizes 2}"
  have "{A i..<A i + S i} - ?U = {A i..<A i + S i} - ({A i..<A i + S i} \<inter> ?U)" by blast
  also have "\<dots> = {A i..<A i + S i} - {A i..<A i + taken sizes ma i}" by (simp only: front)
  also have "\<dots> = {A i + taken sizes ma i..<A i + S i}" by auto
  finally show "{A i + taken sizes ma i..<A i + S i} = {A i..<A i + S i} - ?U" by simp
qed

lemma m3_final:
  assumes inv: "m3_inv sizes orig bp s" and orig: "orig = ss @ t # beyond"
    and ss: "\<forall>e\<in>set ss. m_size e \<noteq> 0" and t: "m_size t = 0" "m_addr t = 0"
    and wf: "wf_slots 0 orig" and bp: "bp \<le> length ss"
    and arr: "length arr = length orig"
      "\<And>i. i < length orig \<Longrightarrow> arr ! i = (m3_arr s ! i)\<lparr>m_addr := m_addr (m3_arr s ! i) + taken sizes (madd s) i\<rparr>"
  shows "\<exists>cs tail. list_all2 cut ss cs
     \<and> (\<forall>i < length ss. cs ! i = (ss ! i)\<lparr>m_size := m_size (ss ! i) - taken sizes (madd s) i,
                                        m_addr := m_addr (ss ! i) + taken sizes (madd s) i\<rparr>)
     \<and> (case remap s of None \<Rightarrow> Some arr | Some r \<Rightarrow> m3_compact r (Suc r) arr)
        = Some (filter (\<lambda>e. m_size e \<noteq> 0) cs @ t # tail)
     \<and> length (filter (\<lambda>e. m_size e \<noteq> 0) cs @ t # tail) = length orig"
proof -
  let ?nz = "\<lambda>e. m_size e \<noteq> 0"
  define cs where "cs = take (length ss) arr"
  have lcs: "length cs = length ss" using arr(1) orig by (simp add: cs_def)
  from inv have c: "\<And>i. i < length orig \<Longrightarrow> taken sizes (madd s) i \<le> m_size (orig ! i)
        \<and> m3_arr s ! i = (orig ! i)\<lparr>m_size := m_size (orig ! i) - taken sizes (madd s) i\<rparr>"
    by (auto simp: m3_inv_def)
  have csn: "cs ! i = (ss ! i)\<lparr>m_size := m_size (ss ! i) - taken sizes (madd s) i,
      m_addr := m_addr (ss ! i) + taken sizes (madd s) i\<rparr>" "taken sizes (madd s) i \<le> m_size (ss ! i)"
    if "i < length ss" for i
    using arr(2) [of i] c [of i] that by (auto simp: cs_def orig nth_append)
  have cut: "list_all2 cut ss cs"
    using lcs csn by (auto simp: list_all2_conv_all_nth cut_def)
  have same: "arr ! i = orig ! i" if "length ss \<le> i" "i < length orig" for i
    using arr(2) [OF that(2)] c [OF that(2)] taken_beyond [OF inv, of i] bp that(1) by simp
  have split: "arr = cs @ t # beyond"
  proof (rule nth_equalityI)
    show "length arr = length (cs @ t # beyond)" using arr(1) lcs orig by simp
    fix i assume "i < length arr"
    then show "arr ! i = (cs @ t # beyond) ! i"
      using same [of i] lcs arr(1) by (auto simp: cs_def orig nth_append)
  qed
  have nonzero: "m_addr e \<noteq> 0" if "e \<in> set cs" for e
  proof -
    from that obtain i where i: "i < length ss" "e = cs ! i" using lcs by (auto simp: in_set_conv_nth)
    have "0 < m_addr (ss ! i)" using wf_slots_order(1) [of 0 ss t beyond i] wf orig ss i by simp
    with csn(1) [OF i(1)] i(2) show ?thesis by simp
  qed
  have msz: "m_size (cs ! i) = m_size (m3_arr s ! i)" if "i < length ss" for i
    using csn [OF that] c [of i] that orig by (simp add: nth_append)
  show ?thesis
  proof (cases "remap s")
    case None
    with inv have z: "\<forall>i < bp. m_size (m3_arr s ! i) \<noteq> 0" by (simp add: m3_inv_def)
    have "?nz (cs ! i)" if "i < length ss" for i
    proof (cases "i < bp")
      case True with z msz [OF that] show ?thesis by simp
    next
      case False
      with csn(1) [OF that] taken_beyond [OF inv, of i] ss that show ?thesis by simp
    qed
    then have "filter ?nz cs = cs" using lcs by (auto simp: filter_id_conv in_set_conv_nth)
    with None split cut csn(1) arr(1) show ?thesis
      by (intro exI [of _ cs] exI [of _ beyond]) simp
  next
    case (Some r)
    with inv have r: "r < bp" "m_size (m3_arr s ! r) = 0" "\<forall>i < r. m_size (m3_arr s ! i) \<noteq> 0"
      by (auto simp: m3_inv_def)
    with bp have rl: "r < length cs" using lcs by simp
    let ?pre = "take r cs" and ?es = "drop (Suc r) cs"
    have "arr = ?pre @ [cs ! r] @ ?es @ t # beyond" using split rl by (simp add: id_take_nth_drop)
    from m3_compact_spec [OF this] t nonzero obtain tail where m:
      "m3_compact r (Suc r) arr = Some (?pre @ filter ?nz ?es @ t # tail)"
      "length (?pre @ filter ?nz ?es @ t # tail) = length arr"
      using rl by (fastforce dest: in_set_dropD)
    have "filter ?nz ?pre = ?pre"
      using r(3) msz rl lcs by (auto simp: filter_id_conv in_set_conv_nth)
    moreover have "filter ?nz cs = filter ?nz ?pre @ filter ?nz (cs ! r # ?es)"
      using rl by (metis filter_append id_take_nth_drop)
    moreover have "\<not> ?nz (cs ! r)" using r(2) msz [of r] rl lcs by simp
    ultimately have "filter ?nz cs = ?pre @ filter ?nz ?es" by simp
    with m Some cut csn(1) arr(1) show ?thesis
      by (intro exI [of _ cs] exI [of _ tail]) simp
  qed
qed


lemma n_found_3: "n_found ma = 3 \<Longrightarrow> \<exists>i0 i1 i2. ma 0 = Some i0 \<and> ma 1 = Some i1 \<and> ma 2 = Some i2"
  by (cases "ma 0"; cases "ma 1"; cases "ma 2") (auto simp: n_found_def)

lemma m3_success:
  assumes wf: "wf_rmap mp" and len: "length a = 3" and inv: "m3_inv sizes (m_map mp) bp st"
    and bp: "bp \<le> length (segs (m_map mp))" and f: "found st = 3"
    and res: "fold (m3_resolve sizes (madd st)) [0, 1, 2] (a, m3_arr st) = (a', arr)"
  shows "\<exists>arr' x y z. (case remap st of None \<Rightarrow> Some arr | Some r \<Rightarrow> m3_compact r (Suc r) arr) = Some arr'
     \<and> wf_rmap (mp\<lparr>m_map := arr'\<rparr>) \<and> a' = [x, y, z] \<and> z \<noteq> 0
     \<and> {x..<x + sizes 0} \<inter> {y..<y + sizes 1} = {} \<and> {x..<x + sizes 0} \<inter> {z..<z + sizes 2} = {}
     \<and> {y..<y + sizes 1} \<inter> {z..<z + sizes 2} = {}
     \<and> {x..<x + sizes 0} \<union> {y..<y + sizes 1} \<union> {z..<z + sizes 2} \<subseteq> units mp
     \<and> free_units arr' = units mp - ({x..<x + sizes 0} \<union> {y..<y + sizes 1} \<union> {z..<z + sizes 2})"
proof -
  from wf have w: "wf_slots 0 (m_map mp)" by (simp add: wf_rmap_def)
  from to_end_spec [OF w, of "[]"] obtain ss t beyond where orig: "m_map mp = ss @ t # beyond"
    and ss: "\<forall>e\<in>set ss. m_size e \<noteq> 0" and t: "m_size t = 0" "m_addr t = 0" by blast
  have segs: "segs (m_map mp) = ss" using orig ss t by (simp add: segs_append)
  note ord = wf_slots_order [OF w [unfolded orig] ss]
  from inv f n_found_3 [of "madd st"] obtain i0 i1 i2 where
    ma: "madd st 0 = Some i0" "madd st 1 = Some i1" "madd st 2 = Some i2" by (auto simp: m3_inv_def)
  have im: "i0 < length ss" "i1 < length ss" "i2 < length ss"
    using m3_inv_range [OF inv, of i0] m3_inv_range [OF inv, of i1] m3_inv_range [OF inv, of i2] ma bp segs
    by auto
  have len': "length (m3_arr st) = length (m_map mp)" using inv by (simp add: m3_inv_def)
  have at: "m_addr (m3_arr st ! i) = m_addr (ss ! i) \<and> taken sizes (madd st) i \<le> m_size (ss ! i)"
    if i: "i < length ss" for i
  proof -
    have "i < length (m_map mp)" "m_map mp ! i = ss ! i" using i orig by (simp_all add: nth_append)
    moreover from this(1) inv have "taken sizes (madd st) i \<le> m_size (m_map mp ! i)
        \<and> m3_arr st ! i = (m_map mp ! i)\<lparr>m_size := m_size (m_map mp ! i) - taken sizes (madd st) i\<rparr>"
      unfolding m3_inv_def by blast
    ultimately show ?thesis by simp
  qed
  have rng: "\<forall>i \<in> {i0, i1, i2}. m_addr (m3_arr st ! i) + taken sizes (madd st) i < 2 ^ 32"
  proof -
    have "m_addr (m3_arr st ! i) + taken sizes (madd st) i < 2 ^ 32" if "i < length ss" for i
      using at [OF that] ord(2) [OF that] by linarith
    with im show ?thesis by simp
  qed
  have il: "i0 < length (m3_arr st)" "i1 < length (m3_arr st)" "i2 < length (m3_arr st)"
    using im len' orig by auto
  note R = m3_resolve_all [OF len ma rng il res]
  define x y z where "x = m_addr (ss ! i0)" and "y = m_addr (ss ! i1) + before sizes (madd st) 1"
    and "z = m_addr (ss ! i2) + before sizes (madd st) 2"
  have a': "a' = [x, y, z]" using R(1) at im by (simp add: x_def y_def z_def)
  have z0: "z \<noteq> 0" using ord(1) [OF im(3)] by (simp add: z_def)
  let ?U = "{x..<x + sizes 0} \<union> {y..<y + sizes 1} \<union> {z..<z + sizes 2}"
  have ord3: "m_addr (ss ! i) + m_size (ss ! i) < m_addr (ss ! j)" if "i < j" "j < length ss" for i j
    using ord(3) [of i j] that by simp
  have P': "taken sizes (madd st) i \<le> m_size (ss ! i)" if "i < length ss" for i
    using at [OF that] by simp
  note P = three_pieces [where A = "\<lambda>i. m_addr (ss ! i)" and S = "\<lambda>i. m_size (ss ! i)" and m = "length ss"
      and ma = "madd st" and sizes = sizes, OF ord3 ma im P' x_def y_def z_def]
  from m3_final [OF inv orig ss t w bp [unfolded segs], of arr] R(2,3) len' obtain cs tail where
    cs: "list_all2 cut ss cs" "\<forall>i < length ss. cs ! i = (ss ! i)\<lparr>m_size := m_size (ss ! i) - taken sizes (madd st) i,
                                        m_addr := m_addr (ss ! i) + taken sizes (madd st) i\<rparr>"
    and fin: "(case remap st of None \<Rightarrow> Some arr | Some r \<Rightarrow> m3_compact r (Suc r) arr)
        = Some (filter (\<lambda>e. m_size e \<noteq> 0) cs @ t # tail)"
    "length (filter (\<lambda>e. m_size e \<noteq> 0) cs @ t # tail) = length (m_map mp)" by auto
  let ?F = "filter (\<lambda>e. m_size e \<noteq> 0) cs @ t # tail"
  have wfF: "wf_slots 0 ?F" using cut_wf [OF cs(1) w [unfolded orig] t(1) ss] .
  have "length (segs ?F) \<le> length cs" unfolding segs_filter [OF t(1)] by simp
  then have "length (segs ?F) \<le> length (segs (m_map mp))"
    using list_all2_lengthD [OF cs(1)] segs by simp
  then have "wf_rmap (mp\<lparr>m_map := ?F\<rparr>)" using wfF wf fin(2) by (simp add: wf_rmap_def)
  moreover have "free_units ?F = units mp - ?U"
  proof -
    have "free_units ?F = (\<Union>i<length ss. {m_addr (cs ! i)..<m_addr (cs ! i) + m_size (cs ! i)})"
      unfolding units_filter [OF t(1)] set_conv_nth using list_all2_lengthD [OF cs(1)] by auto
    also have "\<dots> = (\<Union>i<length ss. {m_addr (ss ! i)..<m_addr (ss ! i) + m_size (ss ! i)} - ?U)"
    proof (rule SUP_cong [OF refl])
      fix i assume "i \<in> {..<length ss}"
      then have i: "i < length ss" by simp
      show "{m_addr (cs ! i)..<m_addr (cs ! i) + m_size (cs ! i)}
          = {m_addr (ss ! i)..<m_addr (ss ! i) + m_size (ss ! i)} - ?U"
        using P(4) [of i] cs(2) i P' [OF i] by simp
    qed
    also have "\<dots> = units mp - ?U"
      using free_units_nth [OF ss t(1), of _ beyond] by (auto simp: units_def orig)
    finally show ?thesis .
  qed
  moreover have "?U \<subseteq> units mp"
    using P(5-7) P' im free_units_nth [OF ss t(1), of _ beyond] unfolding units_def orig by blast
  ultimately show ?thesis
    by (intro exI [of _ ?F] exI [of _ x] exI [of _ y] exI [of _ z] conjI fin(1) a' z0 P(1-3)) assumption+
qed


lemma malloc3_spec:
  assumes wf: "wf_rmap mp" and len: "length a = 3"
  shows "\<exists>mp' ret a'. malloc3 mp d s u a = Ok (mp', ret, a') \<and> wf_rmap mp' \<and> m_limit mp' = m_limit mp
     \<and> (if ret = 0 then mp' = mp \<and> a' = a \<and> (\<forall>i < length (segs (m_map mp)). m_size (m_map mp ! i) < d + s + u)
        else \<exists>x y. a' = [x, y, ret]
          \<and> {x..<x + d} \<inter> {y..<y + s} = {} \<and> {x..<x + d} \<inter> {ret..<ret + u} = {}
          \<and> {y..<y + s} \<inter> {ret..<ret + u} = {}
          \<and> {x..<x + d} \<union> {y..<y + s} \<union> {ret..<ret + u} \<subseteq> units mp
          \<and> units mp' = units mp - ({x..<x + d} \<union> {y..<y + s} \<union> {ret..<ret + u}))"
proof -
  let ?sizes = "\<lambda>n. if n = 0 then d else if n = Suc 0 then s else u"
  let ?init = "\<lparr>m3_arr = m_map mp, madd = (\<lambda>_. None), remap = None, found = 0\<rparr>"
  from wf have w: "wf_slots 0 (m_map mp)" "length (segs (m_map mp)) < length (m_map mp)"
    by (auto simp: wf_rmap_def)
  have "m3_inv ?sizes (m_map mp) 0 ?init" by (simp add: m3_inv_def taken_def n_found_def)
  from m3_scan_inv [OF this _ w(2)] obtain st bp where
    st: "m3_scan ?sizes 0 ?init = Some st" "bp \<le> length (segs (m_map mp))" "m3_inv ?sizes (m_map mp) bp st"
    and no: "found st \<noteq> 3 \<longrightarrow> (\<forall>i < length (segs (m_map mp)). m_size (m_map mp ! i) < d + s + u)"
    by auto
  show ?thesis
  proof (cases "found st = 3")
    case False
    have "m_size (m_map mp ! i) < 2 ^ 32" if "i < bp" for i
      using seg_sizes [OF w(1), of i] that st(2) by simp
    with m3_restore_all [OF st(3)] have "fold (m3_restore ?sizes (madd st)) [0, 1, 2] (m3_arr st) = m_map mp"
      by blast
    with False st(1) wf no show ?thesis
      by (intro exI [of _ mp] exI [of _ 0] exI [of _ a]) (simp add: malloc3_def Let_def)
  next
    case True
    obtain a' arr where res: "fold (m3_resolve ?sizes (madd st)) [0, 1, 2] (a, m3_arr st) = (a', arr)"
      by fastforce
    from m3_success [OF wf len st(3,2) True res] obtain arr' x y z where *:
      "(case remap st of None \<Rightarrow> Some arr | Some r \<Rightarrow> m3_compact r (Suc r) arr) = Some arr'"
      "wf_rmap (mp\<lparr>m_map := arr'\<rparr>)" "a' = [x, y, z]" "z \<noteq> 0"
      "{x..<x + d} \<inter> {y..<y + s} = {}" "{x..<x + d} \<inter> {z..<z + u} = {}" "{y..<y + s} \<inter> {z..<z + u} = {}"
      "{x..<x + d} \<union> {y..<y + s} \<union> {z..<z + u} \<subseteq> units mp"
      "free_units arr' = units mp - ({x..<x + d} \<union> {y..<y + s} \<union> {z..<z + u})"
      by auto
    have "malloc3 mp d s u a = Ok (mp\<lparr>m_map := arr'\<rparr>, z, a')"
      using True st(1) res *(1,3) by (auto simp: malloc3_def Let_def split: option.splits)
    with * show ?thesis
      by (intro exI [of _ "mp\<lparr>m_map := arr'\<rparr>"] exI [of _ z] exI [of _ a']) (auto simp: units_def)
  qed
qed

section \<open>Properties of the resource maps\<close>

lemma seg_addr_pos: "wf_slots lo es \<Longrightarrow> e \<in> set (segs es) \<Longrightarrow> 0 < m_addr e"
  by (induction es arbitrary: lo) (auto split: if_splits)

lemma wf_slots_suffix: "\<forall>e\<in>set pre. m_size e \<noteq> 0 \<Longrightarrow> wf_slots lo (pre @ post) \<Longrightarrow> \<exists>hi. wf_slots hi post"
  by (auto simp: wf_slots_append)

text \<open>
  C1. On a well-formed map and a positive size \<open>malloc\<close> returns: it keeps the map well formed, and
  either returns 0 because no segment is large enough and changes nothing, or returns the address
  of the first segment that is large enough and removes exactly the units \<open>[a, a + size)\<close>, all of
  which were free.
\<close>

theorem malloc_first_fit:
  assumes "wf_rmap mp" and "0 < sz"
  shows "\<exists>mp' a. malloc mp sz = Ok (mp', a) \<and> wf_rmap mp' \<and> m_limit mp' = m_limit mp
     \<and> (case find (\<lambda>e. sz \<le> m_size e) (segs (m_map mp)) of
          None \<Rightarrow> a = 0 \<and> mp' = mp
        | Some e \<Rightarrow> a = m_addr e \<and> a \<noteq> 0 \<and> {a..<a + sz} \<subseteq> units mp \<and> units mp' = units mp - {a..<a + sz})"
proof -
  from malloc_spec [OF assms] obtain mp' a where m: "malloc mp sz = Ok (mp', a)" "wf_rmap mp'"
    "m_limit mp' = m_limit mp"
    "if a = 0 then mp' = mp else {a..<a + sz} \<subseteq> units mp \<and> units mp' = units mp - {a..<a + sz}"
    by (metis (no_types, lifting))
  then obtain arr where "malloc_at (m_map mp) sz = Some (a, arr)"
    using assms(2) by (auto simp: malloc_def split: option.splits)
  from malloc_at_first_fit [OF this] have a:
    "a = (case find (\<lambda>e. sz \<le> m_size e) (segs (m_map mp)) of None \<Rightarrow> 0 | Some e \<Rightarrow> m_addr e)" .
  have "m_addr e \<noteq> 0" if "find (\<lambda>e. sz \<le> m_size e) (segs (m_map mp)) = Some e" for e
  proof -
    from that have "e \<in> set (segs (m_map mp))" by (auto simp: find_Some_iff)
    with assms(1) show ?thesis using seg_addr_pos [of 0 "m_map mp" e] by (simp add: wf_rmap_def)
  qed
  with m a show ?thesis by (auto split: option.splits)
qed

theorem malloc_first_fit_witness:
  "let mp = \<lparr>m_map = [\<lparr>m_size = 4, m_addr = 10\<rparr>, \<lparr>m_size = 9, m_addr = 20\<rparr>, \<lparr>m_size = 0, m_addr = 0\<rparr>],
             m_limit = 2, m_name = []\<rparr>
   in wf_rmap mp \<and> (\<exists>mp'. malloc mp 5 = Ok (mp', 20) \<and> wf_rmap mp' \<and> units mp' = units mp - {20..<25})"
  using malloc_first_fit [of "\<lparr>m_map = [\<lparr>m_size = 4, m_addr = 10\<rparr>, \<lparr>m_size = 9, m_addr = 20\<rparr>,
      \<lparr>m_size = 0, m_addr = 0\<rparr>], m_limit = 2, m_name = []\<rparr>" 5]
  by (auto simp: wf_rmap_def)

text \<open>
  C2. Returning to a well-formed map the space just allocated from it never loses it to a full
  map: \<open>mfree\<close> succeeds without the overflow warning, with and without \<^verbatim>\<open>DIAGNOSTIC\<close>, and the
  free units are again the original ones.
\<close>

theorem malloc_mfree_roundtrip:
  assumes "wf_rmap mp" and "0 < sz" and "malloc mp sz = Ok (mp', a)" and "a \<noteq> 0"
  shows "\<exists>mp''. mfree diag mp' sz a = Ok (mp'', False) \<and> wf_rmap mp'' \<and> units mp'' = units mp"
  using assms by (rule rm.alloc_then_release)

theorem malloc_mfree_roundtrip_witness:
  "let mp = \<lparr>m_map = [\<lparr>m_size = 4, m_addr = 10\<rparr>, \<lparr>m_size = 0, m_addr = 0\<rparr>], m_limit = 1, m_name = []\<rparr>;
       mp' = \<lparr>m_map = [\<lparr>m_size = 0, m_addr = 0\<rparr>, \<lparr>m_size = 0, m_addr = 0\<rparr>], m_limit = 1, m_name = []\<rparr>
   in malloc mp 4 = Ok (mp', 10)
     \<and> (\<exists>mp''. mfree True mp' 4 10 = Ok (mp'', False) \<and> wf_rmap mp'' \<and> units mp'' = units mp)"
  using malloc_mfree_roundtrip [of "\<lparr>m_map = [\<lparr>m_size = 4, m_addr = 10\<rparr>, \<lparr>m_size = 0, m_addr = 0\<rparr>],
      m_limit = 1, m_name = []\<rparr>" 4 "\<lparr>m_map = [\<lparr>m_size = 0, m_addr = 0\<rparr>, \<lparr>m_size = 0, m_addr = 0\<rparr>],
      m_limit = 1, m_name = []\<rparr>" 10 True]
  by (simp add: wf_rmap_def malloc_def Let_def)

text \<open>
  C3. Any block none of whose units is free can be returned to a well-formed map. The map stays well
  formed; the block's units become free, unless the table is full and the block does not abut
  the next segment, in which case nothing changes (and the overflow warning is printed).
\<close>

theorem mfree_returns_space:
  assumes "wf_rmap mp" and "0 < sz" and "addr \<noteq> 0" and "addr + sz < 2 ^ 32"
    and "{addr..<addr + sz} \<inter> units mp = {}"
  shows "\<exists>mp' lost. mfree diag mp sz addr = Ok (mp', lost) \<and> wf_rmap mp' \<and> m_limit mp' = m_limit mp
     \<and> (if lost then mp' = mp \<and> m_limit mp \<le> length (segs (m_map mp)) \<and> addr + sz \<notin> units mp
        else units mp' = units mp \<union> {addr..<addr + sz})"
  using rm.release_law [OF assms] .

theorem mfree_returns_space_witness:
  "let mp = \<lparr>m_map = [\<lparr>m_size = 4, m_addr = 10\<rparr>, \<lparr>m_size = 0, m_addr = 0\<rparr>], m_limit = 1, m_name = []\<rparr>
   in wf_rmap mp \<and> {14..<17} \<inter> units mp = {}
     \<and> (\<exists>mp'. mfree True mp 3 14 = Ok (mp', False) \<and> wf_rmap mp' \<and> units mp' = units mp \<union> {14..<17})"
  using mfree_returns_space [of "\<lparr>m_map = [\<lparr>m_size = 4, m_addr = 10\<rparr>, \<lparr>m_size = 0, m_addr = 0\<rparr>],
      m_limit = 1, m_name = []\<rparr>" 3 14 True]
  by (auto simp: wf_rmap_def units_def mfree_def mfree_left_def Let_def)

text \<open>
  C4. \<open>malloc3\<close> is all or nothing: on a well-formed map it returns 0 and leaves both the map and
  the caller's array as they were, which happens only when no segment has room for all three
  pieces at once, or it returns three pairwise disjoint ranges of the requested
  sizes, all of them free before, and exactly those are no longer free.
\<close>

theorem malloc3_all_or_nothing:
  assumes "wf_rmap mp" and "length a = 3"
  shows "\<exists>mp' ret a'. malloc3 mp d s u a = Ok (mp', ret, a') \<and> wf_rmap mp' \<and> m_limit mp' = m_limit mp
     \<and> (if ret = 0 then mp' = mp \<and> a' = a \<and> (\<forall>i < length (segs (m_map mp)). m_size (m_map mp ! i) < d + s + u)
        else \<exists>x y. a' = [x, y, ret]
          \<and> {x..<x + d} \<inter> {y..<y + s} = {} \<and> {x..<x + d} \<inter> {ret..<ret + u} = {}
          \<and> {y..<y + s} \<inter> {ret..<ret + u} = {}
          \<and> {x..<x + d} \<union> {y..<y + s} \<union> {ret..<ret + u} \<subseteq> units mp
          \<and> units mp' = units mp - ({x..<x + d} \<union> {y..<y + s} \<union> {ret..<ret + u}))"
  using assms by (rule malloc3_spec)

theorem malloc3_all_or_nothing_witness:
  "let mp = \<lparr>m_map = [\<lparr>m_size = 4, m_addr = 10\<rparr>, \<lparr>m_size = 0, m_addr = 0\<rparr>], m_limit = 1, m_name = []\<rparr>
   in wf_rmap mp \<and> length [0, 0, 0] = 3 \<and>
     (\<exists>mp' ret x y. malloc3 mp 1 2 1 [0, 0, 0] = Ok (mp', ret, [x, y, ret]) \<and> wf_rmap mp' \<and> ret \<noteq> 0)"
  using malloc3_all_or_nothing [of "\<lparr>m_map = [\<lparr>m_size = 4, m_addr = 10\<rparr>, \<lparr>m_size = 0, m_addr = 0\<rparr>],
      m_limit = 1, m_name = []\<rparr>" "[0, 0, 0]" 1 2 1]
  by (auto simp: wf_rmap_def split: if_splits)

text \<open>
  C5. The swap map is set up with \<open>m_limit\<close> one slot behind its array, not at its last slot. When
  every slot but the terminator is in use, \<open>mfree\<close> of a block that abuts no segment is therefore
  not caught by the overflow test and writes behind the array.
\<close>

theorem swapmap_mfree_overrun:
  assumes "wf_slots 0 swapent" and "length (segs swapent) + 1 = length swapent"
    and "0 < sz" and "addr \<noteq> 0" and "addr + sz < 2 ^ 32"
    and "\<forall>e\<in>set (segs swapent). addr + sz < m_addr e \<or> m_addr e + m_size e < addr"
  shows "mfree diag (swapmap swapent) sz addr = Stuck"
proof -
  from mfree_seek_start [OF assms(1), of addr] obtain pre bp rest where
    s: "mfree_seek [] swapent addr = Some (pre, bp # rest)" and arr: "swapent = pre @ bp # rest"
    and pre: "\<forall>e\<in>set pre. m_size e \<noteq> 0 \<and> m_addr e \<le> addr" and bp: "m_size bp = 0 \<or> addr < m_addr bp"
    by blast
  have segs: "segs swapent = pre @ segs (bp # rest)" using arr pre by (simp add: segs_append)
  have wfb: "m_size bp \<noteq> 0 \<longrightarrow> addr + sz < m_addr bp" using assms(6) bp segs by auto
  have left: "\<not> (pre \<noteq> [] \<and> add32 (m_addr (last pre)) (m_size (last pre)) \<ge> addr)"
  proof (cases pre rule: rev_cases)
    case (snoc p l)
    then have "m_addr l + m_size l < addr" using assms(6) segs pre by force
    then show ?thesis using snoc assms(5) by simp
  qed simp
  have "wf_slots 0 (pre @ bp # rest)" using assms(1) arr by simp
  then obtain lo where "wf_slots lo (bp # rest)" using pre wf_slots_suffix by blast
  from to_end_spec [OF this, of "[]"] obtain ss t beyond where e:
    "to_end [] (bp # rest) = Some (ss, t, beyond)" "bp # rest = ss @ t # beyond"
    "\<forall>e\<in>set ss. m_size e \<noteq> 0" "m_size t = 0" unfolding append_Nil by blast
  then have "segs (bp # rest) = ss" by (simp add: segs_append)
  with segs assms(2) arr e(2) have "beyond = []" by simp
  then have "mfree_insert (swapmap swapent) pre (bp # rest) sz addr = Stuck"
    using e(1,2) arr by (simp add: mfree_insert_def swapmap_def)
  then show ?thesis using s left wfb assms(3,4,5)
    by (auto simp: mfree_def mfree_right_def swapmap_def)
qed

theorem swapmap_mfree_overrun_witness:
  "mfree False (swapmap [\<lparr>m_size = 4, m_addr = 10\<rparr>, \<lparr>m_size = 0, m_addr = 0\<rparr>]) 2 20 = Stuck"
  by (rule swapmap_mfree_overrun) simp_all

end
