(* ===== verification/Clist.thy ===== *)
theory Clist
  imports Prelude
begin

text \<open>
  The character lists of \<^verbatim>\<open>sys/kern/tty_subr.c\<close>: queues of bytes in 32-byte blocks that share one
  pool. A pointer is its address; a block lies at a multiple of \<open>CBLOCK\<close>, its first four bytes
  are the link \<open>c_next\<close>, the other \<open>CBSIZE\<close> hold characters. The routines run at \<^verbatim>\<open>spltty\<close> from end to
  end, so each of them is one step. Each refines an operation on lists of bytes.
\<close>

section \<open>Data\<close>

record clist =
  c_cc :: int
  c_cf :: nat
  c_cl :: nat

text \<open>
  The links of the blocks and the bytes of memory, both by address; the pool; the flag
  \<open>cwaiting\<close>; and the number of times \<^verbatim>\<open>wakeup(&cwaiting)\<close> was called.
\<close>

record cpool =
  c_next :: "nat \<Rightarrow> nat"
  c_mem :: "nat \<Rightarrow> 8 word"
  cfreelist :: nat
  cfreecount :: int
  cwaiting :: bool
  c_wakeups :: nat

abbreviation CBLOCK :: nat where "CBLOCK \<equiv> 32"
abbreviation CBSIZE :: nat where "CBSIZE \<equiv> 28"
abbreviation LINKSIZE :: nat where "LINKSIZE \<equiv> 4"

text \<open>\<^verbatim>\<open>a & ~CROUND\<close>, and the address of \<^verbatim>\<open>bp->c_info\<close>.\<close>

definition blk :: "nat \<Rightarrow> nat" where
  "blk a = a - a mod CBLOCK"

definition c_info :: "nat \<Rightarrow> nat" where
  "c_info bp = bp + LINKSIZE"

text \<open>Put a block on the free list.\<close>

definition cblock_free :: "nat \<Rightarrow> cpool \<Rightarrow> cpool" where
  "cblock_free bp s = s\<lparr>c_next := (c_next s)(bp := cfreelist s), cfreelist := bp,
                        cfreecount := cfreecount s + int CBSIZE\<rparr>"

definition cwakeup :: "cpool \<Rightarrow> cpool" where
  "cwakeup s = (if cwaiting s then s\<lparr>cwaiting := False, c_wakeups := Suc (c_wakeups s)\<rparr> else s)"

text \<open>Take the first block of the free list, which is not empty.\<close>

definition cblock_take :: "cpool \<Rightarrow> cpool \<times> nat" where
  "cblock_take s = (let bp = cfreelist s in
     (s\<lparr>cfreelist := c_next s bp, cfreecount := cfreecount s - int CBSIZE,
        c_next := (c_next s)(bp := 0)\<rparr>, bp))"

section \<open>Taking characters from the front\<close>

text \<open>
  The common tail of \<open>getc\<close> and of a round of \<open>q_to_b\<close>, after \<open>c_cf\<close> and \<open>c_cc\<close> have moved past the
  characters: release the block when the list is empty or the block is used up.
\<close>

definition cl_advance :: "cpool \<Rightarrow> clist \<Rightarrow> cpool \<times> clist" where
  "cl_advance s q =
     (if c_cc q \<le> 0 then
        (cwakeup (cblock_free (blk (c_cf q - 1)) s), q\<lparr>c_cf := 0, c_cl := 0\<rparr>)
      else if c_cf q mod CBLOCK = 0 then
        (let bp = c_cf q - CBLOCK in
         (cwakeup (cblock_free bp s), q\<lparr>c_cf := c_info (c_next s bp)\<rparr>))
      else (s, q))"

definition getc :: "cpool \<Rightarrow> clist \<Rightarrow> (cpool \<times> clist) \<times> int" where
  "getc s p =
     (if c_cc p \<le> 0 then ((s, p\<lparr>c_cc := 0, c_cf := 0, c_cl := 0\<rparr>), - 1)
      else (cl_advance s (p\<lparr>c_cf := c_cf p + 1, c_cc := c_cc p - 1\<rparr>), uint (c_mem s (c_cf p))))"

definition bytes_at :: "cpool \<Rightarrow> nat \<Rightarrow> nat \<Rightarrow> 8 word list" where
  "bytes_at s a n = map (c_mem s) [a..<a + n]"

text \<open>The loop of \<open>q_to_b\<close>; \<open>out\<close> is what has been copied to the buffer.\<close>

function q_to_b_loop :: "cpool \<Rightarrow> clist \<Rightarrow> nat \<Rightarrow> 8 word list \<Rightarrow> (cpool \<times> clist) \<times> 8 word list" where
  "q_to_b_loop s q cc out =
     (if cc = 0 \<or> c_cc q \<le> 0 then ((s, q), out)
      else
        let nc = min (min (CBLOCK - c_cf q mod CBLOCK) cc) (nat (c_cc q));
            (s', q') = cl_advance s (q\<lparr>c_cf := c_cf q + nc, c_cc := c_cc q - int nc\<rparr>)
        in q_to_b_loop s' q' (cc - nc) (out @ bytes_at s (c_cf q) nc))"
  by pat_completeness auto
termination
proof (relation "measure (\<lambda>(s, q, cc, out). cc)", goal_cases)
  case (2 s q cc out nc)
  have "0 < CBLOCK - c_cf q mod CBLOCK" by simp
  then show ?case using 2 by auto
qed simp

declare q_to_b_loop.simps [simp del]

definition q_to_b :: "cpool \<Rightarrow> clist \<Rightarrow> int \<Rightarrow> (cpool \<times> clist) \<times> 8 word list" where
  "q_to_b s q cc =
     (if cc \<le> 0 then ((s, q), [])
      else if c_cc q \<le> 0 then ((s, q\<lparr>c_cc := 0, c_cf := 0, c_cl := 0\<rparr>), [])
      else q_to_b_loop s q (nat cc) [])"

section \<open>Looking at and flushing the front\<close>

definition ndqb :: "cpool \<Rightarrow> clist \<Rightarrow> 32 word \<Rightarrow> int" where
  "ndqb s q flag =
     (if c_cc q \<le> 0 then - c_cc q
      else
        let cc = int (blk (c_cf q + CBSIZE)) - int (c_cf q);
            cc = (if c_cc q < cc then c_cc q else cc)
        in if flag \<noteq> 0 then
             (case find (\<lambda>p. ucast (c_mem s p) AND flag \<noteq> 0) [c_cf q..<c_cf q + nat cc] of
                None \<Rightarrow> cc | Some p \<Rightarrow> int p - int (c_cf q))
           else cc)"

partial_function (option) ndflush_loop :: "cpool \<Rightarrow> clist \<Rightarrow> int \<Rightarrow> (cpool \<times> clist) option" where
  "ndflush_loop s q cc =
     (if 0 < cc \<and> c_cc q \<noteq> 0 then
        let bp = blk (c_cf q);
            endp = (if bp = blk (c_cl q - 1) then c_cl q else bp + CBLOCK);
            rem = int endp - int (c_cf q)
        in if rem \<le> cc then
             ndflush_loop (cwakeup (cblock_free bp s))
               (q\<lparr>c_cc := c_cc q - rem, c_cf := c_info (c_next s bp)\<rparr>) (cc - rem)
           else
             let q' = q\<lparr>c_cc := c_cc q - cc, c_cf := c_cf q + nat cc\<rparr>
             in Some (if c_cc q' \<le> 0 then cwakeup (cblock_free bp s) else s, q')
      else Some (s, q))"

definition ndflush :: "cpool \<Rightarrow> clist \<Rightarrow> int \<Rightarrow> (cpool \<times> clist) option" where
  "ndflush s q cc =
     (if c_cc q \<le> 0 then Some (s, q)
      else map_option (\<lambda>(s', q'). (s', if c_cc q' \<le> 0 then q'\<lparr>c_cf := 0, c_cl := 0, c_cc := 0\<rparr> else q'))
             (ndflush_loop s q cc))"

section \<open>Putting characters at the end\<close>

text \<open>Link a new block behind the full block that ends at \<open>cq\<close>; \<open>None\<close>: the pool is empty.\<close>

definition cl_extend :: "cpool \<Rightarrow> nat \<Rightarrow> cpool \<times> nat option" where
  "cl_extend s cq =
     (let s' = s\<lparr>c_next := (c_next s)(cq - CBLOCK := cfreelist s)\<rparr>
      in if cfreelist s = 0 then (s', None)
         else let (s'', bp) = cblock_take s' in (s'', Some (c_info bp)))"

definition putc :: "int \<Rightarrow> cpool \<Rightarrow> clist \<Rightarrow> (cpool \<times> clist) \<times> int" where
  "putc c s p =
     (let store = (\<lambda>s p cp. ((s\<lparr>c_mem := (c_mem s)(cp := word_of_int c)\<rparr>,
                              p\<lparr>c_cc := c_cc p + 1, c_cl := cp + 1\<rparr>), 0))
      in if c_cl p = 0 \<or> c_cc p < 0 then
           (if cfreelist s = 0 then ((s, p), - 1)
            else let (s', bp) = cblock_take s in store s' (p\<lparr>c_cf := c_info bp\<rparr>) (c_info bp))
         else if c_cl p mod CBLOCK = 0 then
           (case cl_extend s (c_cl p) of
              (s', None) \<Rightarrow> ((s', p), - 1)
            | (s', Some cp) \<Rightarrow> store s' p cp)
         else store s p (c_cl p))"

fun store_bytes :: "cpool \<Rightarrow> nat \<Rightarrow> 8 word list \<Rightarrow> cpool" where
  "store_bytes s a [] = s"
| "store_bytes s a (b # bs) = store_bytes (s\<lparr>c_mem := (c_mem s)(a := b)\<rparr>) (a + 1) bs"

text \<open>
  The loop of \<open>b_to_q\<close>: \<open>cp\<close> is the rest of the buffer. The result is the pool, the pointer \<open>cq\<close>
  and the bytes not transferred.
\<close>

function b_to_q_loop :: "cpool \<Rightarrow> nat \<Rightarrow> 8 word list \<Rightarrow> cpool \<times> nat \<times> nat" where
  "b_to_q_loop s cq cp =
     (if cp = [] then (s, cq, 0)
      else case (if cq mod CBLOCK = 0 then cl_extend s cq else (s, Some cq)) of
          (s', None) \<Rightarrow> (s', cq, length cp)
        | (s', Some cq') \<Rightarrow>
            let nc = min (length cp) (CBLOCK - cq' mod CBLOCK)
            in b_to_q_loop (store_bytes s' cq' (take nc cp)) (cq' + nc) (drop nc cp))"
  by pat_completeness auto
termination
proof (relation "measure (\<lambda>(s, cq, cp). length cp)", goal_cases)
  case (2 s cq cp s' res cq' nc)
  have "0 < CBLOCK - cq' mod CBLOCK" by simp
  moreover have "0 < length cp" using 2 by simp
  ultimately show ?case using 2 by auto
qed simp

declare b_to_q_loop.simps [simp del]

definition b_to_q :: "8 word list \<Rightarrow> cpool \<Rightarrow> clist \<Rightarrow> (cpool \<times> clist) \<times> nat" where
  "b_to_q cp s q =
     (if cp = [] then ((s, q), 0)
      else
        let fin = (\<lambda>q (s, cq, left). ((s, q\<lparr>c_cl := cq, c_cc := c_cc q + int (length cp - left)\<rparr>), left))
        in if c_cl q = 0 \<or> c_cc q < 0 then
             (if cfreelist s = 0 then fin q (s, c_cl q, length cp)
              else let (s', bp) = cblock_take s
                   in fin (q\<lparr>c_cf := c_info bp\<rparr>) (b_to_q_loop s' (c_info bp) cp))
           else fin q (b_to_q_loop s (c_cl q) cp))"

section \<open>Walking the list, and taking characters from the end\<close>

definition nextc :: "cpool \<Rightarrow> clist \<Rightarrow> nat \<Rightarrow> nat" where
  "nextc s p cp =
     (if c_cc p \<noteq> 0 \<and> cp + 1 \<noteq> c_cl p then
        (if (cp + 1) mod CBLOCK = 0 then c_info (c_next s (cp + 1 - CBLOCK)) else cp + 1)
      else 0)"

text \<open>The block whose link is \<open>target\<close>.\<close>

partial_function (option) unputc_seek :: "cpool \<Rightarrow> nat \<Rightarrow> nat \<Rightarrow> nat option" where
  "unputc_seek s target bp =
     (if c_next s bp \<noteq> target then unputc_seek s target (c_next s bp) else Some bp)"

definition unputc :: "cpool \<Rightarrow> clist \<Rightarrow> ((cpool \<times> clist) \<times> int) option" where
  "unputc s p =
     (if c_cc p \<le> 0 then Some ((s, p), - 1)
      else
        let cl = c_cl p - 1; c = uint (c_mem s cl); p' = p\<lparr>c_cl := cl, c_cc := c_cc p - 1\<rparr>
        in if c_cc p' \<le> 0 then Some ((cblock_free (blk cl) s, p'\<lparr>c_cl := 0, c_cf := 0\<rparr>), c)
           else if cl mod CBLOCK = LINKSIZE then
             (case unputc_seek s (blk cl) (blk (c_cf p)) of
                None \<Rightarrow> None
              | Some obp \<Rightarrow>
                  let s' = cblock_free (c_next s obp) s
                  in Some ((s'\<lparr>c_next := (c_next s')(obp := 0)\<rparr>, p'\<lparr>c_cl := obp + CBLOCK\<rparr>), c))
           else Some ((s, p'), c))"

section \<open>Concatenation\<close>

lemma cl_advance_cc: "cl_advance s q = (s', q') \<Longrightarrow> c_cc q' = c_cc q \<and> (0 < c_cc q \<longrightarrow> c_cl q' = c_cl q)"
  by (auto simp: cl_advance_def Let_def split: if_splits)

lemma q_to_b_loop_cc:
  "q_to_b_loop s q cc out = ((s', q'), r) \<Longrightarrow> c_cc q' \<le> c_cc q \<and> (0 < cc \<and> 0 < c_cc q \<longrightarrow> c_cc q' < c_cc q)
   \<and> (0 < c_cc q' \<longrightarrow> c_cl q' = c_cl q)"
proof (induction s q cc out rule: q_to_b_loop.induct)
  case (1 s q cc out)
  show ?case
  proof (cases "cc = 0 \<or> c_cc q \<le> 0")
    case True
    then show ?thesis using "1.prems" by (subst (asm) q_to_b_loop.simps) auto
  next
    case False
    define nc where "nc = min (min (CBLOCK - c_cf q mod CBLOCK) cc) (nat (c_cc q))"
    have nc: "0 < nc" using False by (simp add: nc_def)
    obtain s1 q1 where adv: "cl_advance s (q\<lparr>c_cf := c_cf q + nc, c_cc := c_cc q - int nc\<rparr>) = (s1, q1)" by fastforce
    have "q_to_b_loop s1 q1 (cc - nc) (out @ bytes_at s (c_cf q) nc) = ((s', q'), r)"
      using "1.prems" False adv unfolding nc_def by (subst (asm) q_to_b_loop.simps) (simp add: Let_def)
    from "1.IH" [OF False nc_def adv [symmetric] refl this] cl_advance_cc [OF adv] nc show ?thesis by auto
  qed
qed

lemma q_to_b_cc: "q_to_b s q cc = ((s', q'), r) \<Longrightarrow> 0 < cc \<Longrightarrow> 0 < c_cc q \<Longrightarrow> c_cc q' < c_cc q"
  using q_to_b_loop_cc [of s q "nat cc" "[]" s' q' r] by (auto simp: q_to_b_def split: if_splits)

lemma q_to_b_cl: "q_to_b s q cc = ((s', q'), r) \<Longrightarrow> 0 < c_cc q' \<Longrightarrow> c_cl q' = c_cl q"
  using q_to_b_loop_cc [of s q "nat cc" "[]" s' q' r] by (auto simp: q_to_b_def split: if_splits)

lemma b_to_q_cf: "b_to_q zs s q = ((s', q'), left) \<Longrightarrow> c_cl q \<noteq> 0 \<Longrightarrow> 0 \<le> c_cc q \<Longrightarrow> c_cf q' = c_cf q"
  by (auto simp: b_to_q_def Let_def split: if_splits prod.splits)

text \<open>The loop copies through a buffer of four blocks.\<close>

function catq_loop :: "cpool \<Rightarrow> clist \<Rightarrow> clist \<Rightarrow> cpool \<times> clist \<times> clist" where
  "catq_loop s from to =
     (if 0 < c_cc from then
        (case q_to_b s from (int (CBSIZE * 4)) of
           ((s', from'), bbuf) \<Rightarrow>
             (case b_to_q bbuf s' to of ((s'', to'), left) \<Rightarrow> catq_loop s'' from' to'))
      else (s, from, to))"
  by pat_completeness auto
termination
  by (relation "measure (\<lambda>(s, from, to). nat (c_cc from))", simp) (auto dest: q_to_b_cc [OF sym])

declare catq_loop.simps [simp del]

definition catq :: "cpool \<Rightarrow> clist \<Rightarrow> clist \<Rightarrow> cpool \<times> clist \<times> clist" where
  "catq s from to =
     (if c_cc to = 0 then (s, from\<lparr>c_cc := 0, c_cf := 0, c_cl := 0\<rparr>, from)
      else catq_loop s from to)"

section \<open>Representation\<close>

text \<open>
  A list's blocks \<open>bs\<close> are linked from the block of \<open>c_cf\<close> to that of \<open>c_cl\<close>, the last link being
  null; \<open>qaddrs\<close> are the addresses of its characters in order.
\<close>

fun qseg :: "(nat \<Rightarrow> nat) \<Rightarrow> nat \<Rightarrow> nat \<Rightarrow> nat list \<Rightarrow> bool" where
  "qseg nx cf cl [] = False"
| "qseg nx cf cl [b] = (b + LINKSIZE \<le> cf \<and> cf < cl \<and> cl \<le> b + CBLOCK \<and> nx b = 0)"
| "qseg nx cf cl (b # b' # bs) =
     (b + LINKSIZE \<le> cf \<and> cf < b + CBLOCK \<and> nx b = b' \<and> qseg nx (b' + LINKSIZE) cl (b' # bs))"

fun qaddrs :: "nat \<Rightarrow> nat \<Rightarrow> nat list \<Rightarrow> nat list" where
  "qaddrs cf cl [] = []"
| "qaddrs cf cl [b] = [cf..<cl]"
| "qaddrs cf cl (b # b' # bs) = [cf..<b + CBLOCK] @ qaddrs (b' + LINKSIZE) cl (b' # bs)"

definition block_ok :: "nat \<Rightarrow> bool" where
  "block_ok b \<longleftrightarrow> b mod CBLOCK = 0 \<and> 0 < b"

definition pool_ok :: "cpool \<Rightarrow> nat list \<Rightarrow> nat list \<Rightarrow> bool" where
  "pool_ok s fs bs \<longleftrightarrow> chain (c_next s) (cfreelist s) fs \<and> cfreecount s = int CBSIZE * int (length fs)
     \<and> distinct (fs @ bs) \<and> (\<forall>b\<in>set fs \<union> set bs. block_ok b)"

definition qrep :: "cpool \<Rightarrow> clist \<Rightarrow> nat list \<Rightarrow> 8 word list \<Rightarrow> bool" where
  "qrep s q bs xs \<longleftrightarrow>
     (if bs = [] then c_cc q = 0 \<and> c_cf q = 0 \<and> c_cl q = 0 else qseg (c_next s) (c_cf q) (c_cl q) bs)
   \<and> c_cc q = int (length xs) \<and> xs = map (c_mem s) (qaddrs (c_cf q) (c_cl q) bs)"

text \<open>An operation changes only the pool's blocks and those of its own list.\<close>

definition cframe :: "nat set \<Rightarrow> cpool \<Rightarrow> cpool \<Rightarrow> bool" where
  "cframe B s s' \<longleftrightarrow> (\<forall>b. b \<notin> B \<longrightarrow> c_next s' b = c_next s b) \<and> (\<forall>a. blk a \<notin> B \<longrightarrow> c_mem s' a = c_mem s a)"

lemma cframe_refl [simp]: "cframe B s s" by (simp add: cframe_def)

lemma cframe_trans: "cframe B s s' \<Longrightarrow> cframe B s' s'' \<Longrightarrow> cframe B s s''"
  by (simp add: cframe_def)

lemma blk_eq: "b mod CBLOCK = 0 \<Longrightarrow> b \<le> a \<Longrightarrow> a < b + CBLOCK \<Longrightarrow> blk a = b"
proof -
  assume b: "b mod CBLOCK = 0" "b \<le> a" "a < b + CBLOCK"
  then obtain k where "b = CBLOCK * k" by fastforce
  with b have "a mod CBLOCK = a - b"
    by (metis add.commute add_diff_inverse_nat less_diff_conv2 mod_less mod_mult_self2 not_less)
  then show "blk a = b" using b by (simp add: blk_def)
qed

lemma offset_eq: "b mod CBLOCK = 0 \<Longrightarrow> b \<le> a \<Longrightarrow> a < b + CBLOCK \<Longrightarrow> a mod CBLOCK = a - b"
  using blk_eq [of b a] by (auto simp: blk_def)

lemma boundary: "b mod CBLOCK = 0 \<Longrightarrow> b < a \<Longrightarrow> a \<le> b + CBLOCK \<Longrightarrow> a mod CBLOCK = 0 \<longleftrightarrow> a = b + CBLOCK"
  using offset_eq [of b a] by (cases "a = b + CBLOCK") auto

lemma qaddrs_in:
  "qseg nx cf cl bs \<Longrightarrow> \<forall>b\<in>set bs. block_ok b \<Longrightarrow> a \<in> set (qaddrs cf cl bs) \<Longrightarrow> blk a \<in> set bs"
proof (induction nx cf cl bs rule: qseg.induct)
  case (2 nx cf cl b)
  then show ?case using blk_eq [of b a] by (auto simp: block_ok_def)
next
  case (3 nx cf cl b b' bs)
  then show ?case using blk_eq [of b a] by (fastforce simp: block_ok_def)
qed simp

lemma qseg_cong: "(\<And>b. b \<in> set bs \<Longrightarrow> nx' b = nx b) \<Longrightarrow> qseg nx' cf cl bs = qseg nx cf cl bs"
  by (induction nx cf cl bs rule: qseg.induct) auto

lemma qseg_first: "qseg nx cf cl (b # bs) \<Longrightarrow> b + LINKSIZE \<le> cf \<and> cf < b + CBLOCK"
  by (cases bs) auto

lemma qaddrs_ne: "qseg nx cf cl bs \<Longrightarrow> qaddrs cf cl bs \<noteq> []"
  by (induction nx cf cl bs rule: qseg.induct) auto

text \<open>Moving \<open>n\<close> characters forward inside the first block.\<close>

lemma qseg_advance:
  assumes "qseg nx cf cl (b # bs)" "0 < n" "n \<le> length (qaddrs cf cl (b # bs))" "cf + n \<le> b + CBLOCK"
  shows "take n (qaddrs cf cl (b # bs)) = [cf..<cf + n]"
    and "length (qaddrs cf cl (b # bs)) = n \<Longrightarrow> bs = [] \<and> cf + n = cl"
    and "n < length (qaddrs cf cl (b # bs)) \<Longrightarrow> cf + n = b + CBLOCK \<Longrightarrow> \<exists>b' bs'. bs = b' # bs' \<and> nx b = b'
       \<and> qseg nx (b' + LINKSIZE) cl bs \<and> drop n (qaddrs cf cl (b # bs)) = qaddrs (b' + LINKSIZE) cl bs"
    and "n < length (qaddrs cf cl (b # bs)) \<Longrightarrow> cf + n < b + CBLOCK \<Longrightarrow> qseg nx (cf + n) cl (b # bs)
       \<and> drop n (qaddrs cf cl (b # bs)) = qaddrs (cf + n) cl (b # bs)"
proof -
  consider "bs = []" | b' bs' where "bs = b' # bs'" by (cases bs) auto
  note cs = this
  show "take n (qaddrs cf cl (b # bs)) = [cf..<cf + n]" using assms by (cases bs) (auto simp: take_upt)
  show "bs = [] \<and> cf + n = cl" if "length (qaddrs cf cl (b # bs)) = n"
    using cs
  proof cases
    case (2 b' bs')
    with assms(1) have "qaddrs (b' + LINKSIZE) cl (b' # bs') \<noteq> []" by (intro qaddrs_ne) auto
    then have "0 < length (qaddrs (b' + LINKSIZE) cl (b' # bs'))" by (rule length_greater_0_conv [THEN iffD2])
    moreover have "length (qaddrs (b' + LINKSIZE) cl (b' # bs')) + (b + CBLOCK - cf) = n"
      using that 2 by simp
    ultimately show ?thesis using assms(4) qseg_first [OF assms(1)] by linarith
  qed (use that assms in auto)
  show "\<exists>b' bs'. bs = b' # bs' \<and> nx b = b' \<and> qseg nx (b' + LINKSIZE) cl bs
      \<and> drop n (qaddrs cf cl (b # bs)) = qaddrs (b' + LINKSIZE) cl bs"
    if "n < length (qaddrs cf cl (b # bs))" "cf + n = b + CBLOCK"
    using cs by cases (use that assms in auto)
  show "qseg nx (cf + n) cl (b # bs) \<and> drop n (qaddrs cf cl (b # bs)) = qaddrs (cf + n) cl (b # bs)"
    if "n < length (qaddrs cf cl (b # bs))" "cf + n < b + CBLOCK"
    using cs by cases (use that assms in \<open>auto simp: drop_upt\<close>)
qed

section \<open>Taking characters\<close>

lemma pool_ok_free:
  assumes "pool_ok s fs (b # bs)"
  shows "pool_ok (cblock_free b s) (b # fs) bs" and "cframe (set fs \<union> set (b # bs)) s (cblock_free b s)"
    and "c_mem (cblock_free b s) = c_mem s" and "x \<noteq> b \<Longrightarrow> c_next (cblock_free b s) x = c_next s x"
  using assms by (auto simp: pool_ok_def cblock_free_def cframe_def block_ok_def)

lemma cwakeup_simps [simp]:
  "c_mem (cwakeup s) = c_mem s" "c_next (cwakeup s) = c_next s" "pool_ok (cwakeup s) fs bs = pool_ok s fs bs"
  "cframe B s' (cwakeup s) = cframe B s' s"
  by (auto simp: cwakeup_def pool_ok_def cframe_def)

lemma cl_advance_spec:
  assumes p: "pool_ok s fs bs" and q: "qrep s q bs xs" and n: "0 < n" "n \<le> length xs"
    and blk: "n \<le> CBLOCK - c_cf q mod CBLOCK"
    and adv: "cl_advance s (q\<lparr>c_cf := c_cf q + n, c_cc := c_cc q - int n\<rparr>) = (s', q')"
  shows "bytes_at s (c_cf q) n = take n xs
     \<and> (\<exists>fs' bs'. pool_ok s' fs' bs' \<and> qrep s' q' bs' (drop n xs) \<and> set fs' \<union> set bs' = set fs \<union> set bs
          \<and> cframe (set fs \<union> set bs) s s')"
proof -
  let ?A = "qaddrs (c_cf q) (c_cl q) bs"
  from q n obtain b bs0 where bs: "bs = b # bs0" by (cases bs) (auto simp: qrep_def)
  with q have seg: "qseg (c_next s) (c_cf q) (c_cl q) (b # bs0)" and xs: "xs = map (c_mem s) ?A"
    and cc: "c_cc q = int (length xs)" by (auto simp: qrep_def)
  from p bs have b: "b mod CBLOCK = 0" "0 < b" by (auto simp: pool_ok_def block_ok_def)
  note fst = qseg_first [OF seg]
  have le: "c_cf q + n \<le> b + CBLOCK" using blk offset_eq [OF b(1), of "c_cf q"] fst by simp
  have nA: "n \<le> length ?A" using n xs by simp
  note adv4 = qseg_advance [OF seg n(1) nA [unfolded bs] le]
  have bytes: "bytes_at s (c_cf q) n = take n xs"
    using adv4(1) xs bs by (simp add: bytes_at_def take_map)
  have bq: "blk (c_cf q + n - 1) = b" using fst le n by (intro blk_eq b) auto
  have bd: "(c_cf q + n) mod CBLOCK = 0 \<longleftrightarrow> c_cf q + n = b + CBLOCK" using fst le n by (intro boundary b) auto
  note pf = pool_ok_free [OF p [unfolded bs]]
  consider (all) "n = length xs" | (edge) "n < length xs" "c_cf q + n = b + CBLOCK"
    | (in_blk) "n < length xs" "c_cf q + n < b + CBLOCK" using n le by linarith
  then have "\<exists>fs' bs'. pool_ok s' fs' bs' \<and> qrep s' q' bs' (drop n xs) \<and> set fs' \<union> set bs' = set fs \<union> set bs
      \<and> cframe (set fs \<union> set bs) s s'"
  proof cases
    case all
    then have "bs0 = []" using adv4(2) xs bs by simp
    moreover have "s' = cwakeup (cblock_free b s)" "q' = q\<lparr>c_cf := 0, c_cc := 0, c_cl := 0\<rparr>"
      using adv all cc bq by (auto simp: cl_advance_def)
    ultimately show ?thesis using pf all bs
      by (intro exI [of _ "b # fs"] exI [of _ "[]"]) (auto simp: qrep_def)
  next
    case edge
    then obtain b' bs' where n': "bs0 = b' # bs'" "c_next s b = b'" "qseg (c_next s) (b' + LINKSIZE) (c_cl q) bs0"
      "drop n ?A = qaddrs (b' + LINKSIZE) (c_cl q) bs0" using adv4(3) xs bs by auto
    have s': "s' = cwakeup (cblock_free b s)"
      "q' = q\<lparr>c_cf := b' + LINKSIZE, c_cc := c_cc q - int n\<rparr>"
      using adv edge cc bd n'(2) by (auto simp: cl_advance_def Let_def c_info_def)
    have "b \<notin> set bs0" using p bs by (auto simp: pool_ok_def)
    then have "qseg (c_next s') (b' + LINKSIZE) (c_cl q) bs0"
      using n'(3) pf(4) s'(1) by (subst qseg_cong [where nx = "c_next s"]) (simp_all, metis)
    moreover have "c_cc q' = int (length (drop n xs))" using s' edge cc by (simp add: of_nat_diff)
    moreover have "drop n xs = map (c_mem s') (qaddrs (b' + LINKSIZE) (c_cl q) bs0)"
      using n'(4) xs pf(3) s'(1) by (simp add: drop_map)
    ultimately have "qrep s' q' bs0 (drop n xs)" using s'(2) n'(1) by (simp add: qrep_def)
    then show ?thesis using pf(1,2) s'(1) bs
      by (intro exI [of _ "b # fs"] exI [of _ bs0]) auto
  next
    case in_blk
    then have "s' = s" "q' = q\<lparr>c_cf := c_cf q + n, c_cc := c_cc q - int n\<rparr>"
      using adv cc bd by (auto simp: cl_advance_def)
    moreover have "c_cc q - int n = int (length (drop n xs))" using in_blk cc by (simp add: of_nat_diff)
    moreover have "drop n xs = map (c_mem s) (qaddrs (c_cf q + n) (c_cl q) bs)"
      using in_blk adv4(4) bs xs by (simp add: drop_map)
    moreover have "qseg (c_next s) (c_cf q + n) (c_cl q) bs" using in_blk adv4(4) bs xs by simp
    ultimately have "qrep s' q' bs (drop n xs)" using bs by (simp add: qrep_def del: length_drop)
    then show ?thesis using p \<open>s' = s\<close> by auto
  qed
  with bytes show ?thesis by simp
qed

lemma qrep_other:
  assumes "cframe B s s'" "qrep s r rs ys" "set rs \<inter> B = {}" "\<forall>b\<in>set rs. block_ok b"
  shows "qrep s' r rs ys"
proof (cases "rs = []")
  case False
  have "qseg (c_next s') (c_cf r) (c_cl r) rs = qseg (c_next s) (c_cf r) (c_cl r) rs"
    using assms(1,3) by (intro qseg_cong) (auto simp: cframe_def)
  moreover have "map (c_mem s') (qaddrs (c_cf r) (c_cl r) rs) = map (c_mem s) (qaddrs (c_cf r) (c_cl r) rs)"
    using assms False qaddrs_in [of "c_next s" "c_cf r" "c_cl r" rs]
    by (intro map_cong refl) (simp add: cframe_def qrep_def, blast)
  ultimately show ?thesis using assms(2) False by (auto simp: qrep_def)
qed (use assms in \<open>simp add: qrep_def\<close>)

lemma getc_spec:
  assumes p: "pool_ok s fs bs" and q: "qrep s q bs xs" and g: "getc s q = ((s', q'), c)"
  shows "\<exists>fs' bs'. pool_ok s' fs' bs' \<and> qrep s' q' bs' (tl xs) \<and> set fs' \<union> set bs' = set fs \<union> set bs
     \<and> cframe (set fs \<union> set bs) s s' \<and> c = (if xs = [] then - 1 else uint (hd xs))"
proof (cases "xs = []")
  case True
  with q have "bs = []" using qaddrs_ne by (auto simp: qrep_def split: if_splits)
  then have "s' = s" "q' = q" "c = - 1" using q g by (auto simp: getc_def qrep_def)
  with True p q show ?thesis by auto
next
  case False
  then have n: "1 \<le> length xs" by (cases xs) auto
  with q have "0 < c_cc q" by (auto simp: qrep_def)
  then have "cl_advance s (q\<lparr>c_cf := c_cf q + 1, c_cc := c_cc q - int 1\<rparr>) = (s', q')" "c = uint (c_mem s (c_cf q))"
    using g by (auto simp: getc_def)
  moreover from cl_advance_spec [OF p q _ n _ this(1)] obtain fs' bs' where *:
    "bytes_at s (c_cf q) 1 = take 1 xs" "pool_ok s' fs' bs'" "qrep s' q' bs' (drop 1 xs)"
    "set fs' \<union> set bs' = set fs \<union> set bs" "cframe (set fs \<union> set bs) s s'" by (auto simp: Suc_le_eq)
  moreover have "c_mem s (c_cf q) = hd xs" using *(1) False by (cases xs) (auto simp: bytes_at_def)
  ultimately show ?thesis using False by (auto simp: drop_Suc)
qed

lemma q_to_b_loop_spec:
  assumes "pool_ok s fs bs" "qrep s q bs xs"
  shows "\<exists>s' q' fs' bs'. q_to_b_loop s q cc out = ((s', q'), out @ take cc xs)
     \<and> pool_ok s' fs' bs' \<and> qrep s' q' bs' (drop cc xs) \<and> set fs' \<union> set bs' = set fs \<union> set bs
     \<and> cframe (set fs \<union> set bs) s s'"
  using assms
proof (induction s q cc out arbitrary: fs bs xs rule: q_to_b_loop.induct)
  case (1 s q cc out)
  have len: "c_cc q = int (length xs)" using "1.prems" by (simp add: qrep_def)
  show ?case
  proof (cases "cc = 0 \<or> xs = []")
    case True
    then have "q_to_b_loop s q cc out = ((s, q), out @ take cc xs)" "drop cc xs = xs"
      using len by (subst q_to_b_loop.simps, auto)
    then show ?thesis using "1.prems" cframe_refl by metis
  next
    case False
    define nc where "nc = min (min (CBLOCK - c_cf q mod CBLOCK) cc) (nat (c_cc q))"
    have nc: "0 < nc" "nc \<le> length xs" "nc \<le> CBLOCK - c_cf q mod CBLOCK" "nc \<le> cc"
      using False len by (auto simp: nc_def)
    obtain s1 q1 where adv: "cl_advance s (q\<lparr>c_cf := c_cf q + nc, c_cc := c_cc q - int nc\<rparr>) = (s1, q1)"
      by fastforce
    from cl_advance_spec [OF "1.prems" nc(1,2,3) adv] obtain fs1 bs1 where *:
      "bytes_at s (c_cf q) nc = take nc xs" "pool_ok s1 fs1 bs1" "qrep s1 q1 bs1 (drop nc xs)"
      "set fs1 \<union> set bs1 = set fs \<union> set bs" "cframe (set fs \<union> set bs) s s1" by blast
    have unf: "q_to_b_loop s q cc out = q_to_b_loop s1 q1 (cc - nc) (out @ bytes_at s (c_cf q) nc)"
      using False len adv unfolding nc_def by (subst q_to_b_loop.simps) (simp add: Let_def)
    have g: "\<not> (cc = 0 \<or> c_cc q \<le> 0)" using False len by auto
    from "1.IH" [OF g nc_def adv [symmetric] refl *(2,3)] obtain s' q' fs' bs' where r:
      "q_to_b_loop s1 q1 (cc - nc) (out @ bytes_at s (c_cf q) nc)
         = ((s', q'), (out @ bytes_at s (c_cf q) nc) @ take (cc - nc) (drop nc xs))"
      "pool_ok s' fs' bs'" "qrep s' q' bs' (drop (cc - nc) (drop nc xs))" "set fs' \<union> set bs' = set fs1 \<union> set bs1"
      "cframe (set fs1 \<union> set bs1) s1 s'" by blast
    have "take nc xs @ take (cc - nc) (drop nc xs) = take cc xs" using nc(4)
      by (metis le_add_diff_inverse take_add)
    then have "q_to_b_loop s q cc out = ((s', q'), out @ take cc xs)" using unf r(1) *(1) by simp
    moreover have "qrep s' q' bs' (drop cc xs)" using r(3) nc(4) by simp
    moreover have "cframe (set fs \<union> set bs) s s'" using cframe_trans *(4,5) r(5) by metis
    ultimately show ?thesis using r(2,4) *(4) by metis
  qed
qed

lemma q_to_b_spec:
  assumes "pool_ok s fs bs" "qrep s q bs xs"
  shows "\<exists>s' q' fs' bs'. q_to_b s q cc = ((s', q'), take (nat cc) xs)
     \<and> pool_ok s' fs' bs' \<and> qrep s' q' bs' (drop (nat cc) xs) \<and> set fs' \<union> set bs' = set fs \<union> set bs
     \<and> cframe (set fs \<union> set bs) s s'"
proof (cases "0 < cc \<and> xs = []")
  case True
  with assms(2) have "bs = []" using qaddrs_ne by (auto simp: qrep_def split: if_splits)
  then have "q_to_b s q cc = ((s, q), [])" using True assms(2) by (auto simp: q_to_b_def qrep_def)
  then show ?thesis using True assms
    by (metis cframe_refl drop_Nil take_Nil)
next
  case False
  show ?thesis
  proof (cases "0 < cc")
    case True
    have "q_to_b s q cc = q_to_b_loop s q (nat cc) []"
      using True False assms(2) by (auto simp: q_to_b_def qrep_def)
    then show ?thesis using q_to_b_loop_spec [OF assms, of "nat cc" "[]"] by simp
  next
    case False
    then have "q_to_b s q cc = ((s, q), take (nat cc) xs)" "drop (nat cc) xs = xs" by (auto simp: q_to_b_def)
    then show ?thesis using assms cframe_refl by metis
  qed
qed

section \<open>Putting characters\<close>

text \<open>As \<open>qseg\<close>, but the last block may be empty: the state between linking a block and storing into it.\<close>

fun qopen :: "(nat \<Rightarrow> nat) \<Rightarrow> nat \<Rightarrow> nat \<Rightarrow> nat list \<Rightarrow> bool" where
  "qopen nx cf cl [] = False"
| "qopen nx cf cl [b] = (b + LINKSIZE \<le> cf \<and> cf \<le> cl \<and> cl \<le> b + CBLOCK \<and> nx b = 0)"
| "qopen nx cf cl (b # b' # bs) =
     (b + LINKSIZE \<le> cf \<and> cf < b + CBLOCK \<and> nx b = b' \<and> qopen nx (b' + LINKSIZE) cl (b' # bs))"

lemma qseg_open: "qseg nx cf cl bs \<Longrightarrow> qopen nx cf cl bs"
  by (induction nx cf cl bs rule: qseg.induct) auto

lemma qopen_grow:
  "qopen nx cf cl bs \<Longrightarrow> cl < cl' \<Longrightarrow> cl' \<le> last bs + CBLOCK \<Longrightarrow>
   qseg nx cf cl' bs \<and> qaddrs cf cl' bs = qaddrs cf cl bs @ [cl..<cl']"
  by (induction nx cf cl bs rule: qopen.induct) (auto intro!: upt_split)

lemma qopen_last: "qopen nx cf cl bs \<Longrightarrow> last bs + LINKSIZE \<le> cl \<and> cl \<le> last bs + CBLOCK \<and> nx (last bs) = 0"
  by (induction nx cf cl bs rule: qopen.induct) auto

lemma qseg_last: "qseg nx cf cl bs \<Longrightarrow> last bs + LINKSIZE < cl"
  by (induction nx cf cl bs rule: qseg.induct) auto

lemma qopen_snoc:
  "qseg nx cf (last bs + CBLOCK) bs \<Longrightarrow> distinct (bs @ [b]) \<Longrightarrow>
   qopen (nx(last bs := b, b := 0)) cf (b + LINKSIZE) (bs @ [b])
   \<and> qaddrs cf (b + LINKSIZE) (bs @ [b]) = qaddrs cf (last bs + CBLOCK) bs"
proof (induction nx cf "last bs + CBLOCK" bs rule: qseg.induct)
  case (3 nx cf c b' bs)
  then show ?case by (cases bs) auto
qed auto

lemma qaddrs_below:
  "qopen nx cf cl bs \<Longrightarrow> distinct bs \<Longrightarrow> \<forall>b\<in>set bs. block_ok b \<Longrightarrow> a \<in> set (qaddrs cf cl bs) \<Longrightarrow>
   last bs \<le> a \<Longrightarrow> a < last bs + CBLOCK \<Longrightarrow> a < cl"
proof (induction nx cf cl bs rule: qopen.induct)
  case (3 nx cf cl b b' bs)
  show ?case
  proof (cases "a \<in> set (qaddrs (b' + LINKSIZE) cl (b' # bs))")
    case True
    with 3 show ?thesis by simp
  next
    case False
    with 3 have "cf \<le> a" "a < b + CBLOCK" by auto
    then have "blk a = b" using "3.prems" by (intro blk_eq) (auto simp: block_ok_def)
    moreover have "blk a = last (b' # bs)"
      using "3.prems" by (intro blk_eq) (auto simp: block_ok_def)
    moreover have "b \<noteq> last (b' # bs)" using "3.prems" by auto
    ultimately show ?thesis by simp
  qed
qed auto

lemma store_bytes_mem:
  "c_mem (store_bytes s a zs) x = (if a \<le> x \<and> x < a + length zs then zs ! (x - a) else c_mem s x)"
  by (induction zs arbitrary: s a) (auto simp: nth_Cons')

lemma store_bytes_simps [simp]:
  "c_next (store_bytes s a zs) = c_next s" "cfreelist (store_bytes s a zs) = cfreelist s"
  "cfreecount (store_bytes s a zs) = cfreecount s"
  by (induction zs arbitrary: s a) auto

lemma store_bytes_pool [simp]: "pool_ok (store_bytes s a zs) fs bs = pool_ok s fs bs"
  by (simp add: pool_ok_def)

lemma store_spec:
  assumes p: "pool_ok s fs bs" and o: "qopen (c_next s) cf cq bs" and zs: "zs \<noteq> []"
    and fit: "cq + length zs \<le> last bs + CBLOCK"
  shows "qseg (c_next s) cf (cq + length zs) bs"
    and "map (c_mem (store_bytes s cq zs)) (qaddrs cf (cq + length zs) bs) = map (c_mem s) (qaddrs cf cq bs) @ zs"
    and "cframe (set fs \<union> set bs) s (store_bytes s cq zs)"
proof -
  have bs: "bs \<noteq> []" using o by (cases bs) auto
  with p have lb: "block_ok (last bs)" "last bs \<in> set bs" by (auto simp: pool_ok_def)
  note g = qopen_grow [OF o _ fit]
  note ol = qopen_last [OF o]
  show "qseg (c_next s) cf (cq + length zs) bs" using g zs by simp
  have "a < cq \<or> cq + length zs \<le> a" if "a \<in> set (qaddrs cf cq bs)" for a
  proof (cases "last bs \<le> a \<and> a < last bs + CBLOCK")
    case True
    then show ?thesis using qaddrs_below [OF o, of a] p that by (auto simp: pool_ok_def)
  next
    case False
    then show ?thesis using ol fit by linarith
  qed
  then have "map (c_mem (store_bytes s cq zs)) (qaddrs cf cq bs) = map (c_mem s) (qaddrs cf cq bs)"
    by (intro map_cong refl) (fastforce simp: store_bytes_mem)
  moreover have "map (c_mem (store_bytes s cq zs)) [cq..<cq + length zs] = zs"
    by (auto simp: store_bytes_mem intro!: nth_equalityI)
  ultimately show "map (c_mem (store_bytes s cq zs)) (qaddrs cf (cq + length zs) bs)
      = map (c_mem s) (qaddrs cf cq bs) @ zs" using g zs by simp
  have "blk a = last bs" if "cq \<le> a" "a < cq + length zs" for a
    using that fit ol lb by (intro blk_eq) (auto simp: block_ok_def)
  with lb show "cframe (set fs \<union> set bs) s (store_bytes s cq zs)"
    by (auto simp: cframe_def store_bytes_mem)
qed

lemma pool_take:
  assumes "pool_ok s fs bs" "cfreelist s \<noteq> 0"
  obtains fs' where "fs = cfreelist s # fs'" "pool_ok (fst (cblock_take s)) fs' (bs @ [cfreelist s])"
proof -
  from assms obtain fs' where f: "fs = cfreelist s # fs'" "chain (c_next s) (c_next s (cfreelist s)) fs'"
    using chain_Cons_D [of "c_next s" "cfreelist s" fs] by (auto simp: pool_ok_def)
  with assms(1) have "pool_ok (fst (cblock_take s)) fs' (bs @ [cfreelist s])"
    by (auto simp: pool_ok_def cblock_take_def Let_def algebra_simps)
  with f(1) that show thesis by blast
qed

lemma cl_extend_spec:
  assumes p: "pool_ok s fs bs" and q: "qseg (c_next s) cf (last bs + CBLOCK) bs"
  shows "cfreelist s = 0 \<Longrightarrow> cl_extend s (last bs + CBLOCK) = (s, None)"
    and "cfreelist s \<noteq> 0 \<Longrightarrow> \<exists>s' b fs'. cl_extend s (last bs + CBLOCK) = (s', Some (b + LINKSIZE)) \<and> fs = b # fs'
       \<and> pool_ok s' fs' (bs @ [b]) \<and> qopen (c_next s') cf (b + LINKSIZE) (bs @ [b])
       \<and> qaddrs cf (b + LINKSIZE) (bs @ [b]) = qaddrs cf (last bs + CBLOCK) bs
       \<and> c_mem s' = c_mem s \<and> cframe (set fs \<union> set bs) s s'"
proof -
  have bs: "bs \<noteq> []" using q by (cases bs) auto
  have l0: "c_next s (last bs) = 0" using qopen_last [OF qseg_open [OF q]] by simp
  show "cl_extend s (last bs + CBLOCK) = (s, None)" if "cfreelist s = 0"
  proof -
    have "(c_next s)(last bs := 0) = c_next s" using l0 by auto
    then show ?thesis using that by (simp add: cl_extend_def Let_def)
  qed
  show "\<exists>s' b fs'. cl_extend s (last bs + CBLOCK) = (s', Some (b + LINKSIZE)) \<and> fs = b # fs'
       \<and> pool_ok s' fs' (bs @ [b]) \<and> qopen (c_next s') cf (b + LINKSIZE) (bs @ [b])
       \<and> qaddrs cf (b + LINKSIZE) (bs @ [b]) = qaddrs cf (last bs + CBLOCK) bs
       \<and> c_mem s' = c_mem s \<and> cframe (set fs \<union> set bs) s s'" if ne: "cfreelist s \<noteq> 0"
  proof -
    let ?b = "cfreelist s"
    let ?s = "s\<lparr>c_next := (c_next s)(last bs := ?b)\<rparr>"
    have lf: "last bs \<notin> set fs" "last bs \<in> set bs" using p bs by (auto simp: pool_ok_def)
    then have p': "pool_ok ?s fs bs" using p by (simp add: pool_ok_def)
    from pool_take [OF this] ne obtain fs' where f: "fs = ?b # fs'"
      "pool_ok (fst (cblock_take ?s)) fs' (bs @ [?b])" by auto
    have d: "distinct (bs @ [?b])" using p f(1) by (auto simp: pool_ok_def)
    have "cl_extend s (last bs + CBLOCK) = (fst (cblock_take ?s), Some (?b + LINKSIZE))"
      using ne by (simp add: cl_extend_def Let_def cblock_take_def c_info_def)
    moreover have "c_next (fst (cblock_take ?s)) = (c_next s)(last bs := ?b, ?b := 0)"
      "c_mem (fst (cblock_take ?s)) = c_mem s" by (auto simp: cblock_take_def Let_def)
    moreover have "cframe (set fs \<union> set bs) s (fst (cblock_take ?s))"
      using calculation(2,3) f(1) lf by (auto simp: cframe_def)
    ultimately show ?thesis using f qopen_snoc [OF q d] by auto
  qed
qed

text \<open>
  An insertion of \<open>zs\<close> takes some prefix of it (the rest is reported back), extends the list by that
  prefix, and takes all of it unless the pool runs out of blocks.
\<close>

definition put_result ::
  "cpool \<Rightarrow> clist \<Rightarrow> nat list \<Rightarrow> nat list \<Rightarrow> 8 word list \<Rightarrow> 8 word list \<Rightarrow> nat \<Rightarrow> cpool \<Rightarrow> clist \<Rightarrow> bool" where
  "put_result s q fs bs xs zs left s' q' \<longleftrightarrow> left \<le> length zs
     \<and> (\<exists>fs' bs'. pool_ok s' fs' bs' \<and> qrep s' q' bs' (xs @ take (length zs - left) zs)
          \<and> set fs' \<union> set bs' = set fs \<union> set bs \<and> cframe (set fs \<union> set bs) s s'
          \<and> (left \<noteq> 0 \<longrightarrow> fs' = [] \<and> (bs' = [] \<or> c_cl q' = last bs' + CBLOCK)))"

lemma put_all:
  "put_result s q fs bs xs zs 0 s' q' \<Longrightarrow> \<exists>fs' bs'. pool_ok s' fs' bs' \<and> qrep s' q' bs' (xs @ zs)
     \<and> set fs' \<union> set bs' = set fs \<union> set bs \<and> cframe (set fs \<union> set bs) s s'"
  by (auto simp: put_result_def)

lemma b_to_q_loop_spec:
  assumes "pool_ok s fs bs" "qopen (c_next s) cf cq bs" "ys = map (c_mem s) (qaddrs cf cq bs)"
    "last bs + LINKSIZE < cq \<and> qseg (c_next s) cf cq bs \<or> cp \<noteq> [] \<and> cq < last bs + CBLOCK"
    "b_to_q_loop s cq cp = (s', cq', left)"
  shows "left \<le> length cp \<and> (\<exists>fs' bs'. pool_ok s' fs' bs' \<and> qseg (c_next s') cf cq' bs'
     \<and> map (c_mem s') (qaddrs cf cq' bs') = ys @ take (length cp - left) cp
     \<and> set fs' \<union> set bs' = set fs \<union> set bs \<and> cframe (set fs \<union> set bs) s s' \<and> (left \<noteq> 0 \<longrightarrow> fs' = [] \<and> cq' = last bs' + CBLOCK))"
  using assms
proof (induction s cq cp arbitrary: fs bs ys rule: b_to_q_loop.induct)
  case (1 s cq cp)
  note p = "1.prems"(1) and o = "1.prems"(2) and ys = "1.prems"(3)
  have bs: "bs \<noteq> []" using o by (cases bs) auto
  with p have lb: "last bs mod CBLOCK = 0" by (auto simp: pool_ok_def block_ok_def)
  note ol = qopen_last [OF o]
  have edge: "cq mod CBLOCK = 0 \<longleftrightarrow> cq = last bs + CBLOCK" using ol by (intro boundary lb) auto
  show ?case
  proof (cases "cp = []")
    case True
    then have "s' = s" "cq' = cq" "left = 0" using "1.prems"(5) by (auto simp: b_to_q_loop.simps)
    then show ?thesis using True "1.prems"(1,3,4) by auto
  next
    case False
    show ?thesis
    proof (cases "cq = last bs + CBLOCK \<and> cfreelist s = 0")
      case True
      then have seg: "qseg (c_next s) cf (last bs + CBLOCK) bs" using "1.prems"(4) by auto
      from cl_extend_spec(1) [OF p seg] True False "1.prems"(5) edge
      have "s' = s" "cq' = cq" "left = length cp" by (auto simp: b_to_q_loop.simps)
      moreover have "fs = []" using p True by (simp add: pool_ok_def chain_null)
      ultimately show ?thesis using True seg p ys
        by (intro conjI, simp) (rule exI [of _ fs], rule exI [of _ bs], simp)
    next
      case nofail: False
      obtain s1 fs1 bs1 cq1 where st: "(if cq mod CBLOCK = 0 then cl_extend s cq else (s, Some cq)) = (s1, Some cq1)"
        "pool_ok s1 fs1 bs1" "qopen (c_next s1) cf cq1 bs1" "map (c_mem s1) (qaddrs cf cq1 bs1) = ys"
        "cq1 < last bs1 + CBLOCK" "set fs1 \<union> set bs1 = set fs \<union> set bs" "cframe (set fs \<union> set bs) s s1"
      proof (cases "cq = last bs + CBLOCK")
        case True
        then have seg: "qseg (c_next s) cf (last bs + CBLOCK) bs" using "1.prems"(4) by auto
        have "cfreelist s \<noteq> 0" using True nofail by simp
        from cl_extend_spec(2) [OF p seg this] obtain s' b fs' where e:
          "cl_extend s (last bs + CBLOCK) = (s', Some (b + LINKSIZE))" "fs = b # fs'" "pool_ok s' fs' (bs @ [b])"
          "qopen (c_next s') cf (b + LINKSIZE) (bs @ [b])"
          "qaddrs cf (b + LINKSIZE) (bs @ [b]) = qaddrs cf (last bs + CBLOCK) bs" "c_mem s' = c_mem s"
          "cframe (set fs \<union> set bs) s s'" by blast
        show thesis using that [of s' "b + LINKSIZE" fs' "bs @ [b]"] e True edge ys by auto
      next
        case False
        then show thesis using that [of s cq fs bs] p o ys ol edge by auto
      qed
      define nc where "nc = min (length cp) (CBLOCK - cq1 mod CBLOCK)"
      let ?zs = "take nc cp"
      have lb1: "last bs1 mod CBLOCK = 0" "bs1 \<noteq> []" using st(2,3) by (cases bs1; auto simp: pool_ok_def block_ok_def)+
      have off: "cq1 mod CBLOCK = cq1 - last bs1" using qopen_last [OF st(3)] st(5) by (intro offset_eq lb1) auto
      have zs: "?zs \<noteq> []" "length ?zs = nc" "cq1 + length ?zs \<le> last bs1 + CBLOCK"
        using False st(5) qopen_last [OF st(3)] by (auto simp: nc_def off)
      note S = store_spec [OF st(2,3) zs(1,3), unfolded zs(2) st(4)]
      have rec: "b_to_q_loop (store_bytes s1 cq1 ?zs) (cq1 + nc) (drop nc cp) = (s', cq', left)"
        using "1.prems"(5) False st(1) by (subst (asm) b_to_q_loop.simps) (simp add: nc_def Let_def)
      have p2: "pool_ok (store_bytes s1 cq1 ?zs) fs1 bs1" using st(2) by simp
      have o2: "qopen (c_next (store_bytes s1 cq1 ?zs)) cf (cq1 + nc) bs1" using qseg_open [OF S(1)] by simp
      have d2: "last bs1 + LINKSIZE < cq1 + nc \<and> qseg (c_next (store_bytes s1 cq1 ?zs)) cf (cq1 + nc) bs1"
        using qseg_last [OF S(1)] S(1) by simp
      from "1.IH" [OF False st(1) [symmetric] refl nc_def p2 o2 S(2) [symmetric] disjI1 [OF d2] rec]
      obtain fs' bs' where r: "left \<le> length (drop nc cp)" "pool_ok s' fs' bs'" "qseg (c_next s') cf cq' bs'"
        "map (c_mem s') (qaddrs cf cq' bs') = (ys @ ?zs) @ take (length (drop nc cp) - left) (drop nc cp)"
        "set fs' \<union> set bs' = set fs1 \<union> set bs1" "cframe (set fs1 \<union> set bs1) (store_bytes s1 cq1 ?zs) s'"
        "left \<noteq> 0 \<longrightarrow> fs' = [] \<and> cq' = last bs' + CBLOCK" by blast
      have "nc \<le> length cp" by (simp add: nc_def)
      then have "?zs @ take (length (drop nc cp) - left) (drop nc cp) = take (length cp - left) cp"
        using r(1) by (subst take_add [symmetric]) (simp add: algebra_simps)
      moreover have "cframe (set fs \<union> set bs) s s'" using st(6,7) S(3) r(6) cframe_trans by metis
      ultimately show ?thesis using r st(6) by auto
    qed
  qed
qed

lemma open_empty:
  assumes "pool_ok s fs []" "cfreelist s \<noteq> 0"
  obtains fs' where "fs = cfreelist s # fs'" "pool_ok (fst (cblock_take s)) fs' [cfreelist s]"
    "qopen (c_next (fst (cblock_take s))) (cfreelist s + LINKSIZE) (cfreelist s + LINKSIZE) [cfreelist s]"
    "cframe (set fs) s (fst (cblock_take s))"
proof -
  from pool_take [OF assms] obtain fs' where "fs = cfreelist s # fs'"
    "pool_ok (fst (cblock_take s)) fs' ([] @ [cfreelist s])" by blast
  then show thesis using that by (auto simp: cblock_take_def Let_def cframe_def)
qed

lemma b_to_q_spec:
  assumes p: "pool_ok s fs bs" and q: "qrep s q bs xs" and b: "b_to_q zs s q = ((s', q'), left)"
  shows "put_result s q fs bs xs zs left s' q'"
proof -
  have cc: "c_cc q = int (length xs)" using q by (simp add: qrep_def)
  consider (nil) "zs = []" | (none) "zs \<noteq> []" "bs = []" "cfreelist s = 0" | (new) "zs \<noteq> []" "bs = []" "cfreelist s \<noteq> 0"
    | (old) "zs \<noteq> []" "bs \<noteq> []" by blast
  then show ?thesis
  proof cases
    case nil
    then have "s' = s" "q' = q" "left = 0" using b by (auto simp: b_to_q_def)
    then show ?thesis using nil p q by (auto simp: put_result_def)
  next
    case none
    then have "fs = []" using p by (simp add: pool_ok_def chain_null)
    moreover have "s' = s" "q' = q" "left = length zs" using none q b by (auto simp: b_to_q_def qrep_def Let_def)
    ultimately show ?thesis using none p q by (auto simp: put_result_def)
  next
    case new
    let ?b = "cfreelist s" and ?s = "fst (cblock_take s)"
    from open_empty [OF p [unfolded new(2)] new(3)] obtain fs1 where f: "fs = ?b # fs1" "pool_ok ?s fs1 [?b]"
      "qopen (c_next ?s) (?b + LINKSIZE) (?b + LINKSIZE) [?b]" "cframe (set fs) s ?s" by blast
    obtain cq' where l: "b_to_q_loop ?s (?b + LINKSIZE) zs = (s', cq', left)"
      "q' = q\<lparr>c_cf := ?b + LINKSIZE, c_cl := cq', c_cc := int (length zs - left)\<rparr>"
      using b new q by (auto simp: b_to_q_def qrep_def Let_def cblock_take_def c_info_def split: prod.splits)
    from b_to_q_loop_spec [OF f(2,3) refl _ l(1)] new(1) obtain fs' bs' where r: "left \<le> length zs" "pool_ok s' fs' bs'"
      "qseg (c_next s') (?b + LINKSIZE) cq' bs'"
      "map (c_mem s') (qaddrs (?b + LINKSIZE) cq' bs') = take (length zs - left) zs"
      "set fs' \<union> set bs' = set fs1 \<union> {?b}" "cframe (set fs1 \<union> {?b}) ?s s'" "left \<noteq> 0 \<longrightarrow> fs' = [] \<and> cq' = last bs' + CBLOCK" by auto
    have "bs' \<noteq> []" using r(3) by (cases bs') auto
    then have "qrep s' q' bs' (take (length zs - left) zs)" using r(1,3,4) l(2) by (auto simp: qrep_def)
    moreover have "xs = []" using q new by (simp add: qrep_def)
    moreover have "cframe (set fs) s s'" using f(1,4) r(6) cframe_trans by (metis Un_insert_right list.simps(15) sup_bot_right)
    moreover have "c_cl q' = cq'" using l(2) by simp
    ultimately show ?thesis using r f(1) new by (auto simp: put_result_def)
  next
    case old
    have seg: "qseg (c_next s) (c_cf q) (c_cl q) bs" and xs: "xs = map (c_mem s) (qaddrs (c_cf q) (c_cl q) bs)"
      using q old by (auto simp: qrep_def)
    note ls = qseg_last [OF seg]
    obtain cq' where l: "b_to_q_loop s (c_cl q) zs = (s', cq', left)"
      "q' = q\<lparr>c_cl := cq', c_cc := c_cc q + int (length zs - left)\<rparr>"
      using b old ls cc by (auto simp: b_to_q_def Let_def split: prod.splits)
    from b_to_q_loop_spec [OF p qseg_open [OF seg] xs _ l(1)] ls seg obtain fs' bs' where r: "left \<le> length zs" "pool_ok s' fs' bs'"
      "qseg (c_next s') (c_cf q) cq' bs'"
      "map (c_mem s') (qaddrs (c_cf q) cq' bs') = xs @ take (length zs - left) zs"
      "set fs' \<union> set bs' = set fs \<union> set bs" "cframe (set fs \<union> set bs) s s'" "left \<noteq> 0 \<longrightarrow> fs' = [] \<and> cq' = last bs' + CBLOCK" by blast
    have "bs' \<noteq> []" using r(3) by (cases bs') auto
    then have "qrep s' q' bs' (xs @ take (length zs - left) zs)" using r(1,3,4) l(2) cc by (auto simp: qrep_def)
    moreover have "c_cl q' = cq'" using l(2) by simp
    ultimately show ?thesis using r by (auto simp: put_result_def)
  qed
qed

lemma b_to_q_loop_one:
  "b_to_q_loop s cq [z] = (case (if cq mod CBLOCK = 0 then cl_extend s cq else (s, Some cq)) of
       (s', None) \<Rightarrow> (s', cq, 1) | (s', Some cq') \<Rightarrow> (store_bytes s' cq' [z], cq' + 1, 0))"
proof -
  have nil: "b_to_q_loop s cq [] = (s, cq, 0)" for s cq by (subst b_to_q_loop.simps) simp
  have "CBLOCK - a mod CBLOCK \<ge> 1" for a by simp
  then have "min (length [z]) (CBLOCK - a mod CBLOCK) = 1" for a by (metis One_nat_def list.size(3,4) add_0 plus_1_eq_Suc min.absorb1)
  then show ?thesis by (subst b_to_q_loop.simps) (auto simp: nil split: prod.splits option.splits)
qed

text \<open>\<open>putc\<close> is \<open>b_to_q\<close> of one byte.\<close>

lemma putc_b_to_q:
  assumes "pool_ok s fs bs" "qrep s q bs xs"
  shows "putc c s q = (case b_to_q [word_of_int c] s q of (r, left) \<Rightarrow> (r, - int left))"
proof -
  have cc: "0 \<le> c_cc q" using assms(2) by (simp add: qrep_def)
  have b0: "(cfreelist s + LINKSIZE) mod CBLOCK = LINKSIZE" if "cfreelist s \<noteq> 0"
    using chain_Cons_D [of "c_next s" "cfreelist s" fs] assms(1) that
      offset_eq [of "cfreelist s" "cfreelist s + LINKSIZE"]
    by (auto simp: pool_ok_def block_ok_def)
  show ?thesis
  proof (cases "c_cl q = 0")
    case True
    then show ?thesis using b0
      by (simp add: putc_def b_to_q_def Let_def cblock_take_def c_info_def b_to_q_loop_one)
  next
    case False
    then show ?thesis using cc
      by (simp add: putc_def b_to_q_def Let_def b_to_q_loop_one split: prod.splits option.splits)
  qed
qed

lemma putc_spec:
  assumes "pool_ok s fs bs" "qrep s q bs xs" "putc c s q = ((s', q'), r)"
  shows "put_result s q fs bs xs [word_of_int c] (if r = 0 then 0 else 1) s' q' \<and> r \<in> {0, - 1}"
proof -
  obtain left where b: "b_to_q [word_of_int c] s q = ((s', q'), left)" "r = - int left"
    using assms(3) putc_b_to_q [OF assms(1,2), of c] by (auto split: prod.splits)
  note R = b_to_q_spec [OF assms(1,2) b(1)]
  then have "left \<le> 1" by (simp add: put_result_def)
  then have "left = 0 \<or> left = 1" by linarith
  then show ?thesis using R b(2) by auto
qed

section \<open>Taking characters from the end\<close>

lemma qseg_open_less: "qseg nx cf cl bs \<Longrightarrow> qopen nx cf (cl - 1) bs"
  by (induction nx cf cl bs rule: qseg.induct) auto

lemma qopen_seg: "qopen nx cf cl bs \<Longrightarrow> last bs + LINKSIZE < cl \<Longrightarrow> tl bs = [] \<longrightarrow> cf < cl \<Longrightarrow> qseg nx cf cl bs"
  by (induction nx cf cl bs rule: qopen.induct) (auto split: if_splits)

lemma qaddrs_snoc: "qseg nx cf cl bs \<Longrightarrow> qaddrs cf cl bs = qaddrs cf (cl - 1) bs @ [cl - 1]"
  using qopen_grow [OF qseg_open_less, of nx cf cl bs cl] qseg_last [of nx cf cl bs]
    qopen_last [OF qseg_open, of nx cf cl bs] by (cases cl) auto

lemma qopen_unsnoc:
  "qopen nx cf (b + LINKSIZE) (bs @ [b]) \<Longrightarrow> bs \<noteq> [] \<Longrightarrow> distinct (bs @ [b]) \<Longrightarrow>
   qseg (nx(b := x, last bs := 0)) cf (last bs + CBLOCK) bs \<and> nx (last bs) = b
   \<and> qaddrs cf (b + LINKSIZE) (bs @ [b]) = qaddrs cf (last bs + CBLOCK) bs"
proof (induction bs arbitrary: cf)
  case (Cons a bs)
  show ?case
  proof (cases bs)
    case (Cons c bs')
    with Cons.prems Cons.IH [of "c + LINKSIZE"] show ?thesis by auto
  qed (use Cons.prems in auto)
qed simp

lemma unputc_seek_spec:
  "qopen (c_next s) cf cl (bs @ [b]) \<Longrightarrow> bs \<noteq> [] \<Longrightarrow> distinct (bs @ [b]) \<Longrightarrow>
   unputc_seek s b (hd bs) = Some (last bs)"
proof (induction bs arbitrary: cf)
  case (Cons a bs)
  show ?case
  proof (cases bs)
    case (Cons c bs')
    with Cons.prems Cons.IH [of "c + LINKSIZE"] show ?thesis by (subst unputc_seek.simps) auto
  next
    case Nil
    with Cons.prems show ?thesis by (subst unputc_seek.simps) auto
  qed
qed simp

lemma pool_ok_rot: "pool_ok s fs (bs @ [b]) \<Longrightarrow> pool_ok s fs (b # bs)"
  by (auto simp: pool_ok_def)

lemma cframe_free_cut:
  "b \<in> B \<Longrightarrow> c \<in> B \<Longrightarrow> cframe B s ((cblock_free b s)\<lparr>c_next := (c_next (cblock_free b s))(c := x)\<rparr>)"
  by (auto simp: cframe_def cblock_free_def)

lemma qseg_single: "qseg nx cf cl bs \<Longrightarrow> length (qaddrs cf cl bs) = 1 \<Longrightarrow> \<exists>b. bs = [b]"
proof (induction nx cf cl bs rule: qseg.induct)
  case (3 nx cf cl b b' bs)
  then have "qaddrs (b' + LINKSIZE) cl (b' # bs) \<noteq> []" using qaddrs_ne by auto
  moreover have "length (qaddrs (b' + LINKSIZE) cl (b' # bs)) + (b + CBLOCK - cf) = 1" using 3 by simp
  ultimately show ?case using "3.prems" by (cases "qaddrs (b' + LINKSIZE) cl (b' # bs)") auto
qed auto

lemma unputc_spec:
  assumes p: "pool_ok s fs bs" and q: "qrep s q bs xs"
  shows "\<exists>s' q' fs' bs'. unputc s q = Some ((s', q'), if xs = [] then - 1 else uint (last xs))
     \<and> pool_ok s' fs' bs' \<and> qrep s' q' bs' (butlast xs) \<and> set fs' \<union> set bs' = set fs \<union> set bs
     \<and> cframe (set fs \<union> set bs) s s'"
proof (cases "xs = []")
  case True
  then have "unputc s q = Some ((s, q), - 1)" using q by (simp add: unputc_def qrep_def)
  then show ?thesis using True p q by (simp, blast)
next
  case False
  with q have ne: "bs \<noteq> []" by (auto simp: qrep_def)
  define cl where "cl = c_cl q - 1"
  from q ne have seg: "qseg (c_next s) (c_cf q) (c_cl q) bs" and cc: "c_cc q = int (length xs)"
    and xs: "xs = map (c_mem s) (qaddrs (c_cf q) cl bs) @ [c_mem s cl]"
    using qaddrs_snoc by (auto simp: qrep_def cl_def)
  note o = qseg_open_less [OF seg, folded cl_def]
  have lastin: "last bs \<in> set bs" and lb: "last bs mod CBLOCK = 0" using ne p by (auto simp: pool_ok_def block_ok_def)
  have rng: "last bs + LINKSIZE \<le> cl" "cl < last bs + CBLOCK"
    using qseg_last [OF seg] qopen_last [OF qseg_open [OF seg]] by (auto simp: cl_def)
  have bcl: "blk cl = last bs" and ocl: "cl mod CBLOCK = cl - last bs"
    using rng by (auto intro!: blk_eq offset_eq lb)
  have c: "uint (c_mem s cl) = uint (last xs)" and bl: "butlast xs = map (c_mem s) (qaddrs (c_cf q) cl bs)"
    using xs by auto
  consider (one) "length xs = 1" | (edge) "1 < length xs" "cl = last bs + LINKSIZE"
    | (mid) "1 < length xs" "last bs + LINKSIZE < cl" using False rng by (cases xs) force+
  then show ?thesis
  proof cases
    case one
    have "qaddrs (c_cf q) (c_cl q) bs = [cl]" using one xs qaddrs_snoc [OF seg] by (auto simp: cl_def)
    then obtain b where b: "bs = [b]" using qseg_single [OF seg] by force
    have "unputc s q = Some ((cblock_free b s, q\<lparr>c_cc := 0, c_cl := 0, c_cf := 0\<rparr>), uint (last xs))"
      using one cc b bcl c by (auto simp: unputc_def Let_def cl_def)
    moreover have "qrep (cblock_free b s) (q\<lparr>c_cc := 0, c_cl := 0, c_cf := 0\<rparr>) [] (butlast xs)"
      using one by (cases xs) (auto simp: qrep_def)
    ultimately show ?thesis using pool_ok_free [of s fs b "[]"] p b False by fastforce
  next
    case edge
    then obtain bs0 where bs0: "bs = bs0 @ [last bs]" "bs0 \<noteq> []"
    proof (cases bs rule: rev_cases)
      case (snoc bs0 b)
      show thesis
      proof (cases "bs0 = []")
        case True
        then show thesis using snoc seg edge xs o by auto
      qed (use snoc that in auto)
    qed (use ne in auto)
    let ?b = "last bs" and ?s = "cblock_free (last bs) s"
    let ?s' = "?s\<lparr>c_next := (c_next ?s)(last bs0 := 0)\<rparr>"
    have d: "distinct (bs0 @ [?b])" using p bs0(1) by (metis distinct_append pool_ok_def)
    have o': "qopen (c_next s) (c_cf q) (?b + LINKSIZE) (bs0 @ [?b])" using o edge bs0(1) by simp
    note U = qopen_unsnoc [OF o' bs0(2) d, of "cfreelist s"]
    have "hd bs = hd bs0" using bs0 by (metis hd_append2)
    moreover have "blk (c_cf q) = hd bs"
      using qseg_first [of "c_next s" "c_cf q" "c_cl q" "hd bs" "tl bs"] seg ne p
      by (intro blk_eq) (auto simp: pool_ok_def block_ok_def)
    ultimately have "unputc_seek s ?b (blk (c_cf q)) = Some (last bs0)"
      using unputc_seek_spec [OF o' bs0(2) d] by simp
    then have un: "unputc s q = Some ((?s', q\<lparr>c_cc := c_cc q - 1, c_cl := last bs0 + CBLOCK\<rparr>), uint (last xs))"
      using edge cc ocl bcl c U by (auto simp: unputc_def Let_def cl_def)
    have p1: "pool_ok s fs (?b # bs0)" using p bs0(1) pool_ok_rot by metis
    note F = pool_ok_free [OF p1]
    have lb0: "last bs0 \<in> set bs0" using bs0 by simp
    have p2: "pool_ok ?s' (?b # fs) bs0"
    proof -
      have "last bs0 \<notin> set (?b # fs)" using p1 lb0 by (auto simp: pool_ok_def)
      then show ?thesis using F(1) by (auto simp: pool_ok_def)
    qed
    have "c_cc q - 1 = int (length (butlast xs))" using edge cc by simp
    moreover have "butlast xs = map (c_mem s) (qaddrs (c_cf q) (last bs0 + CBLOCK) bs0)"
      using U bl edge bs0(1) by simp
    ultimately have qr: "qrep ?s' (q\<lparr>c_cc := c_cc q - 1, c_cl := last bs0 + CBLOCK\<rparr>) bs0 (butlast xs)"
      using U bs0(2) unfolding qrep_def by (simp add: cblock_free_def)
    have sb: "set bs = insert ?b (set bs0)"
      by (subst (1) bs0(1)) (simp only: set_append list.set Un_insert_right sup_bot_right)
    have "cframe (set fs \<union> set bs) s ?s'" using lb0 sb by (intro cframe_free_cut) auto
    moreover have "set (?b # fs) \<union> set bs0 = set fs \<union> set bs" using sb by auto
    ultimately show ?thesis unfolding un if_not_P [OF False] using p2 qr by blast
  next
    case mid
    have "tl bs = [] \<longrightarrow> c_cf q < cl"
    proof
      assume "tl bs = []"
      then obtain b where "bs = [b]" using ne by (cases bs) auto
      then show "c_cf q < cl" using mid(1) xs by auto
    qed
    with qopen_seg [OF o] mid have "qseg (c_next s) (c_cf q) cl bs" by blast
    moreover have "c_cc q - 1 = int (length (butlast xs))" using mid cc by simp
    ultimately have "qrep s (q\<lparr>c_cl := cl, c_cc := c_cc q - 1\<rparr>) bs (butlast xs)"
      using bl ne unfolding qrep_def by simp
    moreover have "unputc s q = Some ((s, q\<lparr>c_cl := cl, c_cc := c_cc q - 1\<rparr>), uint (last xs))"
      using mid cc ocl c by (auto simp: unputc_def Let_def cl_def)
    ultimately show ?thesis unfolding if_not_P [OF False] using p cframe_refl by blast
  qed
qed

section \<open>Flushing\<close>

lemma qrep_advance_in:
  assumes "qrep s q (b # bs) xs" "0 < n" "n < length xs" "c_cf q + n < b + CBLOCK"
  shows "qrep s (q\<lparr>c_cc := c_cc q - int n, c_cf := c_cf q + n\<rparr>) (b # bs) (drop n xs)"
proof -
  from assms(1) have q: "qseg (c_next s) (c_cf q) (c_cl q) (b # bs)" "c_cc q = int (length xs)"
    "xs = map (c_mem s) (qaddrs (c_cf q) (c_cl q) (b # bs))" by (auto simp: qrep_def)
  from q(3) assms(3) have l: "n < length (qaddrs (c_cf q) (c_cl q) (b # bs))" by simp
  note A = qseg_advance(4) [OF q(1) assms(2) less_imp_le [OF l] less_imp_le [OF assms(4)] l assms(4)]
  then have "drop n xs = map (c_mem s) (qaddrs (c_cf q + n) (c_cl q) (b # bs))" using q(3) by (simp add: drop_map)
  moreover have "c_cc q - int n = int (length (drop n xs))" using q(2) assms(3) by (simp add: of_nat_diff)
  ultimately show ?thesis using A unfolding qrep_def by simp
qed

lemma ndflush_loop_empty: "c_cc q = 0 \<Longrightarrow> ndflush_loop s q cc = Some (s, q)"
  by (subst ndflush_loop.simps) simp

lemma ndflush_loop_spec:
  assumes "pool_ok s fs bs" "qrep s q bs xs" "bs \<noteq> []"
  shows "\<exists>s' q' fs' bs'. ndflush_loop s q cc = Some (s', q') \<and> pool_ok s' fs' bs'
     \<and> set fs' \<union> set bs' = set fs \<union> set bs \<and> cframe (set fs \<union> set bs) s s'
     \<and> (if drop (nat cc) xs = [] then c_cc q' = 0 \<and> bs' = [] else qrep s' q' bs' (drop (nat cc) xs))"
  using assms
proof (induction bs arbitrary: s fs q xs cc)
  case (Cons b bs)
  note p = Cons.prems(1) and q = Cons.prems(2)
  let ?A = "qaddrs (c_cf q) (c_cl q) (b # bs)"
  from q have seg: "qseg (c_next s) (c_cf q) (c_cl q) (b # bs)" and xs: "xs = map (c_mem s) ?A"
    and len: "c_cc q = int (length xs)" by (auto simp: qrep_def)
  have ne: "0 < length xs" using qaddrs_ne [OF seg] xs by simp
  have bok: "b mod CBLOCK = 0" "block_ok (last (b # bs))" "b \<notin> set bs" using p by (auto simp: pool_ok_def block_ok_def)
  note fst = qseg_first [OF seg]
  have bcf: "blk (c_cf q) = b" using fst by (intro blk_eq bok) auto
  have bcl: "blk (c_cl q - 1) = last (b # bs)"
    using qseg_last [OF seg] qopen_last [OF qseg_open [OF seg]] bok(2) by (intro blk_eq) (auto simp: block_ok_def)
  have same: "b = last (b # bs) \<longleftrightarrow> bs = []" using bok(3) by (cases bs rule: rev_cases) auto
  define n where "n = (if bs = [] then c_cl q else b + CBLOCK) - c_cf q"
  have n: "0 < n \<and> n \<le> length xs \<and> c_cf q + n \<le> b + CBLOCK \<and> (bs = [] \<longleftrightarrow> n = length xs)
    \<and> int (if bs = [] then c_cl q else b + CBLOCK) - int (c_cf q) = int n"
  proof (cases bs)
    case Nil
    then show ?thesis using seg xs by (auto simp: n_def)
  next
    case (Cons c bs')
    obtain L where L: "L = length (qaddrs (c + LINKSIZE) (c_cl q) (c # bs'))" "0 < L"
      using seg Cons qaddrs_ne [of "c_next s" "c + LINKSIZE" "c_cl q" "c # bs'"] by simp
    have "length xs = (b + CBLOCK - c_cf q) + L"
      using xs Cons L(1) by simp
    moreover have "n = b + CBLOCK - c_cf q" "bs \<noteq> []" using Cons by (auto simp: n_def)
    ultimately show ?thesis using fst L(2) by auto
  qed
  then have n: "0 < n" "n \<le> length xs" "c_cf q + n \<le> b + CBLOCK" "bs = [] \<longleftrightarrow> n = length xs"
    "int (if bs = [] then c_cl q else b + CBLOCK) - int (c_cf q) = int n" by blast+
  have unf: "ndflush_loop s q cc = (if 0 < cc then
      if int n \<le> cc then ndflush_loop (cwakeup (cblock_free b s))
           (q\<lparr>c_cc := c_cc q - int n, c_cf := c_info (c_next s b)\<rparr>) (cc - int n)
      else Some (s, q\<lparr>c_cc := c_cc q - cc, c_cf := c_cf q + nat cc\<rparr>) else Some (s, q))"
    using ne len bcf bcl same n by (subst ndflush_loop.simps) (auto simp: Let_def)
  note pf = pool_ok_free [OF p]
  consider (nothing) "cc \<le> 0" | (part) "0 < cc" "cc < int n" | (all) "bs = []" "int n \<le> cc" "0 < cc"
    | (next_blk) "bs \<noteq> []" "int n \<le> cc" "0 < cc" using n(1) by linarith
  then show ?case
  proof cases
    case nothing
    then show ?thesis using unf p q ne
      by (intro exI [of _ s] exI [of _ q]) (rule exI [of _ fs], rule exI [of _ "b # bs"], simp)
  next
    case part
    then have "qrep s (q\<lparr>c_cc := c_cc q - int (nat cc), c_cf := c_cf q + nat cc\<rparr>) (b # bs) (drop (nat cc) xs)"
      using n by (intro qrep_advance_in q) auto
    moreover have "drop (nat cc) xs \<noteq> []" using part n by auto
    ultimately show ?thesis using unf part p
      by (intro exI [of _ s] exI [of _ "q\<lparr>c_cc := c_cc q - cc, c_cf := c_cf q + nat cc\<rparr>"])
        (rule exI [of _ fs], rule exI [of _ "b # bs"], simp)
  next
    case all
    then have "ndflush_loop s q cc = Some (cwakeup (cblock_free b s),
        q\<lparr>c_cc := 0, c_cf := c_info (c_next s b)\<rparr>)"
      using unf n len ndflush_loop_empty by simp
    moreover have "drop (nat cc) xs = []" using all n by auto
    ultimately show ?thesis using pf all by fastforce
  next
    case next_blk
    let ?s = "cwakeup (cblock_free b s)" and ?q = "q\<lparr>c_cc := c_cc q - int n, c_cf := c_info (c_next s b)\<rparr>"
    have "n < length xs" using next_blk n by auto
    then have l: "n < length ?A" using xs by simp
    obtain c where c: "bs = c # tl bs" using next_blk by (cases bs) auto
    have nx: "c_next s b = c" "c_cf q + n = b + CBLOCK"
      using seg c fst n_def next_blk(1) by (metis qseg.simps(3), simp)
    from qseg_advance(3) [OF seg n(1) less_imp_le [OF l] n(3) l nx(2)] nx(1) have a:
      "qseg (c_next s) (c + LINKSIZE) (c_cl q) bs" "drop n ?A = qaddrs (c + LINKSIZE) (c_cl q) bs" by auto
    have "qseg (c_next ?s) (c + LINKSIZE) (c_cl q) bs"
      using a(1) pf(4) bok(3) by (subst qseg_cong [where nx = "c_next s"]) (simp_all, metis)
    moreover have "drop n xs = map (c_mem ?s) (qaddrs (c + LINKSIZE) (c_cl q) bs)"
      using xs a(2) pf(3) by (simp add: drop_map)
    moreover have "c_cc ?q = int (length (drop n xs))" using len \<open>n < length xs\<close> by (simp add: of_nat_diff)
    ultimately have q': "qrep ?s ?q bs (drop n xs)" using next_blk nx by (simp add: qrep_def c_info_def)
    from Cons.IH [OF _ q' next_blk(1), of "b # fs" "cc - int n"] pf(1) obtain s' q'' fs' bs' where r:
      "ndflush_loop ?s ?q (cc - int n) = Some (s', q'')" "pool_ok s' fs' bs'"
      "set fs' \<union> set bs' = set (b # fs) \<union> set bs" "cframe (set (b # fs) \<union> set bs) ?s s'"
      "if drop (nat (cc - int n)) (drop n xs) = [] then c_cc q'' = 0 \<and> bs' = [] else qrep s' q'' bs' (drop (nat (cc - int n)) (drop n xs))"
      by auto
    have d: "drop (nat (cc - int n)) (drop n xs) = drop (nat cc) xs" using next_blk by (simp add: nat_diff_distrib')
    have e: "set (b # fs) \<union> set bs = set fs \<union> set (b # bs)" by auto
    have "cframe (set fs \<union> set (b # bs)) s ?s" using pf(2) by simp
    then have "cframe (set fs \<union> set (b # bs)) s s'" using r(4) cframe_trans e by metis
    moreover have "ndflush_loop s q cc = Some (s', q'')" using unf next_blk(2,3) r(1) by simp
    ultimately show ?thesis using r(2,3,5) unfolding d e by blast
  qed
qed simp

lemma ndflush_spec:
  assumes "pool_ok s fs bs" "qrep s q bs xs"
  shows "\<exists>s' q' fs' bs'. ndflush s q cc = Some (s', q') \<and> pool_ok s' fs' bs' \<and> qrep s' q' bs' (drop (nat cc) xs)
     \<and> set fs' \<union> set bs' = set fs \<union> set bs \<and> cframe (set fs \<union> set bs) s s'"
proof (cases "bs = []")
  case True
  then have "ndflush s q cc = Some (s, q)" "xs = []" using assms(2) by (auto simp: ndflush_def qrep_def)
  then show ?thesis using assms True by (metis cframe_refl drop_Nil)
next
  case False
  then have pos: "0 < c_cc q" using assms(2) qaddrs_ne by (auto simp: qrep_def)
  from ndflush_loop_spec [OF assms False, of cc] obtain s' q' fs' bs' where r:
    "ndflush_loop s q cc = Some (s', q')" "pool_ok s' fs' bs'"
    "set fs' \<union> set bs' = set fs \<union> set bs" "cframe (set fs \<union> set bs) s s'"
    "if drop (nat cc) xs = [] then c_cc q' = 0 \<and> bs' = [] else qrep s' q' bs' (drop (nat cc) xs)" by blast
  show ?thesis
  proof (cases "drop (nat cc) xs = []")
    case True
    then show ?thesis using r pos by (auto simp: ndflush_def qrep_def)
  next
    case ne: False
    then have "0 < c_cc q'" using r(5) by (auto simp: qrep_def)
    then show ?thesis using r pos ne by (auto simp: ndflush_def)
  qed
qed

section \<open>The contract of the character lists\<close>

text \<open>
  The whole state of the subsystem: the pool and the lists, by name. The characters of a list,
  read from memory by following \<open>nextc\<close>.
\<close>

fun cl_chars :: "cpool \<Rightarrow> clist \<Rightarrow> nat \<Rightarrow> nat \<Rightarrow> 8 word list" where
  "cl_chars s p cp 0 = []"
| "cl_chars s p cp (Suc n) = c_mem s cp # cl_chars s p (nextc s p cp) n"

definition chars :: "cpool \<Rightarrow> clist \<Rightarrow> 8 word list" where
  "chars s p = cl_chars s p (c_cf p) (nat (c_cc p))"

lemma cl_chars_seg:
  assumes "\<forall>b\<in>set bs. block_ok b" "distinct bs" "qseg (c_next s) cf (c_cl p) bs" "c_cc p \<noteq> 0"
  shows "cl_chars s p cf (length (qaddrs cf (c_cl p) bs)) = map (c_mem s) (qaddrs cf (c_cl p) bs)"
  using assms
proof (induction "length (qaddrs cf (c_cl p) bs)" arbitrary: cf bs)
  case (Suc k)
  obtain b bs0 where bs: "bs = b # bs0" using Suc.prems(3) by (cases bs) auto
  let ?A = "qaddrs cf (c_cl p) (b # bs0)"
  note seg = Suc.prems(3) [unfolded bs]
  note fst = qseg_first [OF seg]
  have b: "b mod CBLOCK = 0" using Suc.prems(1) bs by (simp add: block_ok_def)
  have bd: "(cf + 1) mod CBLOCK = 0 \<longleftrightarrow> cf + 1 = b + CBLOCK" using fst by (intro boundary b) auto
  have one: "0 < (1::nat)" "1 \<le> length ?A" "cf + 1 \<le> b + CBLOCK" using Suc.hyps(2) bs fst by auto
  note A = qseg_advance [OF seg one]
  have head: "?A = cf # drop 1 ?A" using A(1) append_take_drop_id [of 1 ?A] by simp
  have len: "length (drop 1 ?A) = k" using Suc.hyps(2) bs by simp
  have stop: "cf + 1 \<noteq> c_cl p" if "0 < k"
  proof
    assume e: "cf + 1 = c_cl p"
    have "blk cf = last bs" using qseg_last [OF Suc.prems(3)] qopen_last [OF qseg_open [OF Suc.prems(3)]] e Suc.prems(1) bs
      by (intro blk_eq) (auto simp: block_ok_def)
    moreover have "blk cf = b" using fst by (intro blk_eq b) auto
    ultimately have "bs0 = []" using Suc.prems(2) bs by (cases bs0 rule: rev_cases) auto
    then show False using e len that by simp
  qed
  consider (last) "k = 0" | (edge) "0 < k" "cf + 1 = b + CBLOCK" | (inner) "0 < k" "cf + 1 < b + CBLOCK"
    using one(3) by linarith
  then have "cl_chars s p (nextc s p cf) k = map (c_mem s) (drop 1 ?A)"
  proof cases
    case last
    then show ?thesis using len by simp
  next
    case edge
    then obtain b' bs' where e: "bs0 = b' # bs'" "c_next s b = b'" "qseg (c_next s) (b' + LINKSIZE) (c_cl p) bs0"
      "drop 1 ?A = qaddrs (b' + LINKSIZE) (c_cl p) bs0" using A(3) Suc.hyps(2) bs by auto
    have "nextc s p cf = b' + LINKSIZE" using stop edge bd Suc.prems(4) e(2) by (simp add: nextc_def c_info_def)
    moreover have k: "k = length (qaddrs (b' + LINKSIZE) (c_cl p) bs0)" using len e(4) by metis
    ultimately show ?thesis using Suc.hyps(1) [OF k _ _ e(3) Suc.prems(4)] Suc.prems(1,2) bs e(4) by simp
  next
    case inner
    have "nextc s p cf = cf + 1" using stop inner bd Suc.prems(4) by (simp add: nextc_def)
    moreover have "qseg (c_next s) (cf + 1) (c_cl p) bs" "drop 1 ?A = qaddrs (cf + 1) (c_cl p) bs"
      using A(4) inner len bs by auto
    ultimately show ?thesis using Suc.hyps(1) [of "cf + 1" bs] Suc.prems len by simp
  qed
  moreover have "cl_chars s p cf (length (qaddrs cf (c_cl p) bs)) = c_mem s cf # cl_chars s p (nextc s p cf) k"
    by (simp flip: Suc.hyps(2))
  ultimately show ?case by (metis bs head list.map(2))
qed (use qaddrs_ne in force)

lemma chars_qrep: "pool_ok s fs bs \<Longrightarrow> qrep s p bs xs \<Longrightarrow> chars s p = xs"
  using cl_chars_seg [of bs s "c_cf p" p]
  by (cases "bs = []") (auto simp: chars_def qrep_def pool_ok_def dest: qaddrs_ne)

text \<open>Counting blocks: a list of \<open>n\<close> blocks holds \<open>n * CBSIZE\<close> characters but for its two ends.\<close>

lemma qaddrs_count:
  "qopen nx cf cl bs \<Longrightarrow>
   length (qaddrs cf cl bs) + (cf - hd bs - LINKSIZE) + (last bs + CBLOCK - cl) = CBSIZE * length bs"
  by (induction nx cf cl bs rule: qopen.induct) auto

lemma qrep_count:
  assumes "pool_ok s fs bs" "qrep s q bs xs" "bs \<noteq> []"
  shows "length xs + (c_cf q mod CBLOCK - LINKSIZE) + (last bs + CBLOCK - c_cl q) = CBSIZE * length bs"
    and "c_cf q mod CBLOCK < CBLOCK"
proof -
  from assms(2,3) have seg: "qseg (c_next s) (c_cf q) (c_cl q) bs"
    and xs: "length xs = length (qaddrs (c_cf q) (c_cl q) bs)" by (auto simp: qrep_def)
  have "hd bs mod CBLOCK = 0" using assms(1,3) by (auto simp: pool_ok_def block_ok_def)
  moreover have "hd bs + LINKSIZE \<le> c_cf q \<and> c_cf q < hd bs + CBLOCK"
    using qseg_first [of "c_next s" "c_cf q" "c_cl q" "hd bs" "tl bs"] seg assms(3) by simp
  ultimately have "c_cf q mod CBLOCK = c_cf q - hd bs" by (intro offset_eq) auto
  then show "length xs + (c_cf q mod CBLOCK - LINKSIZE) + (last bs + CBLOCK - c_cl q) = CBSIZE * length bs"
    using qaddrs_count [OF qseg_open [OF seg]] xs by simp
qed simp

lemma pool_total:
  assumes "pool_ok s fs bs" "pool_ok s' fs' bs'" "set fs' \<union> set bs' = set fs \<union> set bs"
  shows "length fs' + length bs' = length fs + length bs"
proof -
  have "card (set fs' \<union> set bs') = length fs' + length bs'" "card (set fs \<union> set bs) = length fs + length bs"
    using assms(1,2) by (auto simp: pool_ok_def card_Un_disjoint distinct_card)
  with assms(3) show ?thesis by simp
qed

text \<open>Emptying a round's worth of characters frees enough blocks to hold them.\<close>

lemma q_to_b_frees:
  assumes p: "pool_ok s fs bs" and q: "qrep s q bs xs" and p': "pool_ok s' fs' bs'"
    and q': "qrep s' q' bs' (drop (CBSIZE * 4) xs)" and u: "set fs' \<union> set bs' = set fs \<union> set bs"
    and tail: "bs' \<noteq> [] \<longrightarrow> c_cl q' = c_cl q \<and> last bs' = last bs"
  shows "length (take (CBSIZE * 4) xs) \<le> CBSIZE * length fs'"
proof (cases "bs' = []")
  case True
  then have "length (drop (CBSIZE * 4) xs) = 0" using q' by (simp add: qrep_def)
  moreover have "length xs \<le> CBSIZE * length bs"
  proof (cases "bs = []")
    case False
    then show ?thesis using qrep_count(1) [OF p q] by simp
  qed (use q in \<open>simp add: qrep_def\<close>)
  ultimately show ?thesis using pool_total [OF p p' u] True by simp
next
  case False
  then have "drop (CBSIZE * 4) xs \<noteq> []" using q' qaddrs_ne by (auto simp: qrep_def)
  then have "CBSIZE * 4 < length xs" by simp
  moreover from this have "bs \<noteq> []" using q by (auto simp: qrep_def)
  ultimately show ?thesis
    using qrep_count [OF p q] qrep_count [OF p' q' False] pool_total [OF p p' u] tail False by simp
qed

lemma qrep_last:
  assumes "pool_ok s fs bs" "qrep s q bs xs" "bs \<noteq> []"
  shows "last bs = blk (c_cl q - 1)" and "c_cl q \<noteq> 0" and "c_cl q \<le> last bs + CBLOCK" and "xs \<noteq> []"
proof -
  from assms(2,3) have seg: "qseg (c_next s) (c_cf q) (c_cl q) bs" by (auto simp: qrep_def)
  have "last bs mod CBLOCK = 0" using assms(1,3) by (auto simp: pool_ok_def block_ok_def)
  with qseg_last [OF seg] qopen_last [OF qseg_open [OF seg]]
  show "last bs = blk (c_cl q - 1)" "c_cl q \<noteq> 0" "c_cl q \<le> last bs + CBLOCK" by (auto intro!: blk_eq [symmetric])
  show "xs \<noteq> []" using qaddrs_ne [OF seg] assms(2,3) by (auto simp: qrep_def)
qed

text \<open>With room for all of it in the pool, \<open>b_to_q\<close> transfers everything.\<close>

lemma b_to_q_fits:
  assumes p: "pool_ok s fs bs" and q: "qrep s q bs xs" and b: "b_to_q zs s q = ((s', q'), left)"
    and ne: "bs \<noteq> []" and room: "length zs \<le> CBSIZE * length fs"
  shows "left = 0"
proof (rule ccontr)
  assume l: "left \<noteq> 0"
  from b_to_q_spec [OF p q b] l obtain bs' where r: "left \<le> length zs" "pool_ok s' [] bs'"
    "qrep s' q' bs' (xs @ take (length zs - left) zs)" "set bs' = set fs \<union> set bs"
    "bs' = [] \<or> c_cl q' = last bs' + CBLOCK" by (auto simp: put_result_def)
  then have ne': "bs' \<noteq> []" using ne by auto
  have "c_cc q \<ge> 0" using q by (simp add: qrep_def)
  then have "c_cf q' = c_cf q" using b_to_q_cf [OF b] qrep_last(2) [OF p q ne] by simp
  moreover have "length bs' = length fs + length bs" using pool_total [OF p r(2)] r(4) by simp
  ultimately show False
    using qrep_count(1) [OF p q ne] qrep_count(1) [OF r(2,3) ne'] r(1,5) ne' room l by simp
qed

lemma pool_other:
  assumes "pool_ok s fs cs" "pool_ok s' fs' bs'" "set fs' \<union> set bs' = set fs \<union> set bs" "set bs \<inter> set cs = {}"
  shows "pool_ok s' fs' cs" and "set bs' \<inter> set cs = {}"
  using assms by (auto simp: pool_ok_def)

lemma catq_loop_spec:
  assumes "pool_ok s fs bs" "pool_ok s fs cs" "set bs \<inter> set cs = {}"
    "qrep s p bs xs" "qrep s q cs ys" "cs \<noteq> []"
  shows "\<exists>s' p' q' fs' cs'. catq_loop s p q = (s', p', q') \<and> pool_ok s' fs' cs'
     \<and> qrep s' p' [] [] \<and> qrep s' q' cs' (ys @ xs) \<and> set fs' \<union> set cs' = set fs \<union> set bs \<union> set cs
     \<and> cframe (set fs \<union> set bs \<union> set cs) s s'"
  using assms
proof (induction s p q arbitrary: fs bs cs xs ys rule: catq_loop.induct)
  case (1 s p q)
  note p1 = "1.prems"(1) and p2 = "1.prems"(2) and dj = "1.prems"(3) and qx = "1.prems"(4) and qy = "1.prems"(5)
  have len: "c_cc p = int (length xs)" using qx by (simp add: qrep_def)
  show ?case
  proof (cases "xs = []")
    case True
    then have "bs = []" using qx qaddrs_ne by (auto simp: qrep_def split: if_splits)
    moreover have "catq_loop s p q = (s, p, q)" using True len by (subst catq_loop.simps) simp
    ultimately show ?thesis using True p2 qx qy by (simp, blast)
  next
    case False
    let ?n = "CBSIZE * 4"
    from q_to_b_spec [OF p1 qx, of "int ?n"] obtain s1 pp fs1 bs1 where t:
      "q_to_b s p (int ?n) = ((s1, pp), take ?n xs)" "pool_ok s1 fs1 bs1" "qrep s1 pp bs1 (drop ?n xs)"
      "set fs1 \<union> set bs1 = set fs \<union> set bs" "cframe (set fs \<union> set bs) s s1" by auto
    note po = pool_other [OF p2 t(2,4) dj]
    have qy1: "qrep s1 q cs ys"
      using dj p2 by (intro qrep_other [OF t(5) qy]) (auto simp: pool_ok_def)
    have tail: "bs1 \<noteq> [] \<longrightarrow> c_cl pp = c_cl p \<and> last bs1 = last bs"
    proof
      assume ne: "bs1 \<noteq> []"
      then have "0 < c_cc pp" using qrep_last(4) [OF t(2,3)] t(3) by (simp add: qrep_def)
      with q_to_b_cl [OF t(1)] have c: "c_cl pp = c_cl p" by simp
      have "bs \<noteq> []" using qx False by (auto simp: qrep_def)
      with c qrep_last(1) [OF p1 qx] qrep_last(1) [OF t(2,3) ne] show "c_cl pp = c_cl p \<and> last bs1 = last bs" by simp
    qed
    obtain s2 q2 left where b: "b_to_q (take ?n xs) s1 q = ((s2, q2), left)" by (metis prod.collapse)
    have "left = 0"
      by (rule b_to_q_fits [OF po(1) qy1 b "1.prems"(6) q_to_b_frees [OF p1 qx t(2,3,4) tail]])
    then have "put_result s1 q fs1 cs ys (take ?n xs) 0 s2 q2" using b_to_q_spec [OF po(1) qy1 b] by simp
    from put_all [OF this] obtain fs2 cs2 where r: "pool_ok s2 fs2 cs2" "qrep s2 q2 cs2 (ys @ take ?n xs)"
      "set fs2 \<union> set cs2 = set fs1 \<union> set cs" "cframe (set fs1 \<union> set cs) s1 s2" by blast
    have dj2: "set cs \<inter> set bs1 = {}" using po(2) by auto
    note po2 = pool_other [OF t(2) r(1,3) dj2]
    have qx2: "qrep s2 pp bs1 (drop ?n xs)"
      using po2(2) dj2 t(2) by (intro qrep_other [OF r(4) t(3)]) (auto simp: pool_ok_def)
    have "set bs1 \<inter> set cs2 = {}" "cs2 \<noteq> []" using po2(2) r(2) False by (auto simp: qrep_def)
    from "1.IH" [OF _ t(1) [symmetric] refl b [symmetric] refl po2(1) r(1) this(1) qx2 r(2) this(2)] False len
    obtain s' p' q' fs' cs' where f: "catq_loop s2 pp q2 = (s', p', q')" "pool_ok s' fs' cs'" "qrep s' p' [] []"
      "qrep s' q' cs' ((ys @ take ?n xs) @ drop ?n xs)" "set fs' \<union> set cs' = set fs2 \<union> set bs1 \<union> set cs2"
      "cframe (set fs2 \<union> set bs1 \<union> set cs2) s2 s'" by auto
    let ?B = "set fs \<union> set bs \<union> set cs"
    have B: "set fs2 \<union> set bs1 \<union> set cs2 = ?B" using r(3) t(4) by auto
    have "cframe ?B s s1" "cframe ?B s1 s2" using t(4,5) r(4) by (auto simp: cframe_def)
    then have "cframe ?B s s'" using f(6) B cframe_trans by metis
    moreover have "catq_loop s p q = (s', p', q')" using f(1) t(1) b False len by (subst catq_loop.simps) simp
    ultimately show ?thesis using f(2-5) B by (metis append.assoc append_take_drop_id)
  qed
qed

section \<open>Contiguous characters\<close>

lemma ndqb_spec:
  assumes p: "pool_ok s fs bs" and q: "qrep s q bs xs" and ne: "xs \<noteq> []"
  shows "0 \<le> ndqb s q flag \<and> bytes_at s (c_cf q) (nat (ndqb s q flag)) = take (nat (ndqb s q flag)) xs
     \<and> list_all (\<lambda>x. ucast x AND flag = 0) (take (nat (ndqb s q flag)) xs) \<and> 0 < ndqb s q 0"
proof -
  from q ne obtain b bs0 where bs: "bs = b # bs0" by (cases bs) (auto simp: qrep_def)
  with q have seg: "qseg (c_next s) (c_cf q) (c_cl q) (b # bs0)"
    and xs: "xs = map (c_mem s) (qaddrs (c_cf q) (c_cl q) (b # bs0))" and cc: "c_cc q = int (length xs)"
    by (auto simp: qrep_def)
  from p bs have b: "b mod CBLOCK = 0" by (auto simp: pool_ok_def block_ok_def)
  note fst = qseg_first [OF seg]
  have b2: "(b + CBLOCK) mod CBLOCK = 0" using b by simp
  have e: "blk (c_cf q + CBSIZE) = b + CBLOCK" using fst by (intro blk_eq b2) auto
  define n where "n = min (b + CBLOCK - c_cf q) (length xs)"
  have n: "0 < n" "n \<le> length xs" "c_cf q + n \<le> b + CBLOCK" using fst ne by (auto simp: n_def)
  have nn: "(if c_cc q < int (blk (c_cf q + CBSIZE)) - int (c_cf q) then c_cc q
      else int (blk (c_cf q + CBSIZE)) - int (c_cf q)) = int n" using e fst cc by (auto simp: n_def)
  have "n \<le> length (qaddrs (c_cf q) (c_cl q) (b # bs0))" using n(2) xs by simp
  from qseg_advance(1) [OF seg n(1) this n(3)] have byt: "map (c_mem s) [c_cf q..<c_cf q + n] = take n xs"
    using xs by (simp add: take_map)
  have bytes: "bytes_at s (c_cf q) k = take k xs" if "k \<le> n" for k
  proof -
    have "take k (map (c_mem s) [c_cf q..<c_cf q + n]) = map (c_mem s) [c_cf q..<c_cf q + k]"
      using that by (simp add: take_map take_upt)
    then show ?thesis unfolding byt bytes_at_def using that by (simp add: min_def)
  qed
  have pos: "\<not> c_cc q \<le> 0" using cc ne by simp
  have z: "ndqb s q 0 = int n" using pos nn by (simp add: ndqb_def Let_def)
  show ?thesis
  proof (cases "find (\<lambda>p. ucast (c_mem s p) AND flag \<noteq> 0) [c_cf q..<c_cf q + n]")
    case None
    then have "ndqb s q flag = int n" using pos nn by (auto simp: ndqb_def Let_def)
    moreover have "list_all (\<lambda>x. ucast x AND flag = 0) (take n xs)"
      using None unfolding byt [symmetric] by (auto simp: find_None_iff list_all_iff)
    ultimately show ?thesis using bytes [of n] z n by simp
  next
    case (Some a)
    then obtain k where k: "k < n" "a = c_cf q + k" "\<forall>j<k. ucast (c_mem s (c_cf q + j)) AND flag = 0"
      "ucast (c_mem s a) AND flag \<noteq> 0" by (auto simp: find_Some_iff)
    then have "flag \<noteq> 0" by auto
    then have nd: "ndqb s q flag = int k" using pos nn Some k by (simp add: ndqb_def Let_def)
    have "list_all (\<lambda>x. ucast x AND flag = 0) (bytes_at s (c_cf q) k)"
      using k(3) by (auto simp: bytes_at_def list_all_iff) (metis add_diff_inverse_nat less_diff_conv2 not_less add.commute)
    then show ?thesis using bytes [of k] k(1) z nd n by simp
  qed
qed

end
