(* ===== verification/Clist_Sys.thy ===== *)
theory Clist_Sys
  imports Clist
begin

text \<open>
  Several character lists over one pool: the invariant of the whole subsystem, the list machine it
  refines, \<open>cinit\<close>, and the properties of \<^verbatim>\<open>sys/kern/tty_subr.c\<close>.
\<close>

section \<open>The subsystem\<close>

type_synonym csys = "cpool \<times> clist list"

definition sys_ok :: "cpool \<Rightarrow> nat list \<Rightarrow> clist list \<Rightarrow> nat list list \<Rightarrow> bool" where
  "sys_ok s fs qs bss \<longleftrightarrow> length bss = length qs \<and> pool_ok s fs []
     \<and> (\<forall>i<length qs. pool_ok s fs (bss ! i) \<and> qrep s (qs ! i) (bss ! i) (chars s (qs ! i)))
     \<and> (\<forall>i j. i < length qs \<and> j < length qs \<and> i \<noteq> j \<longrightarrow> set (bss ! i) \<inter> set (bss ! j) = {})"

definition csys_inv :: "csys \<Rightarrow> bool" where
  "csys_inv st \<longleftrightarrow> (\<exists>fs bss. sys_ok (fst st) fs (snd st) bss)"

definition contents :: "csys \<Rightarrow> 8 word list list" where
  "contents st = map (chars (fst st)) (snd st)"

lemma sys_step:
  assumes ok: "sys_ok s fs qs bss" and i: "i < length qs" and p': "pool_ok s' fs' bs'" and q': "qrep s' q' bs' xs'"
    and u: "set fs' \<union> set bs' = set fs \<union> set (bss ! i)" and fr: "cframe (set fs \<union> set (bss ! i)) s s'"
  shows "sys_ok s' fs' (qs[i := q']) (bss[i := bs'])" and "contents (s', qs[i := q']) = (contents (s, qs))[i := xs']"
proof -
  have j: "pool_ok s' fs' (bss ! j) \<and> qrep s' (qs ! j) (bss ! j) (chars s (qs ! j)) \<and> set bs' \<inter> set (bss ! j) = {}
     \<and> chars s' (qs ! j) = chars s (qs ! j)" if "j < length qs" "j \<noteq> i" for j
  proof -
    from ok that i have a: "pool_ok s fs (bss ! j)" "set (bss ! i) \<inter> set (bss ! j) = {}"
      "qrep s (qs ! j) (bss ! j) (chars s (qs ! j))" by (auto simp: sys_ok_def)
    note po = pool_other [OF a(1) p' u a(2)]
    moreover have "qrep s' (qs ! j) (bss ! j) (chars s (qs ! j))"
      using a by (intro qrep_other [OF fr a(3)]) (auto simp: pool_ok_def)
    ultimately show ?thesis using chars_qrep by blast
  qed
  have c: "chars s' q' = xs'" using chars_qrep [OF p' q'] .
  have len: "length bss = length qs" using ok by (simp add: sys_ok_def)
  show "contents (s', qs[i := q']) = (contents (s, qs))[i := xs']"
    using j c i by (auto simp: contents_def list_eq_iff_nth_eq nth_list_update)
  have "pool_ok s' fs' []" using p' by (auto simp: pool_ok_def)
  moreover have "pool_ok s' fs' (bss[i := bs'] ! k)
      \<and> qrep s' (qs[i := q'] ! k) (bss[i := bs'] ! k) (chars s' (qs[i := q'] ! k))" if "k < length qs" for k
    using that j [of k] c p' q' i len by (cases "k = i") auto
  moreover have "set (bss[i := bs'] ! k) \<inter> set (bss[i := bs'] ! l) = {}"
    if "k < length qs" "l < length qs" "k \<noteq> l" for k l
    using that j [of k] j [of l] i len ok by (cases "k = i"; cases "l = i") (auto simp: sys_ok_def)
  ultimately show "sys_ok s' fs' (qs[i := q']) (bss[i := bs'])" using len unfolding sys_ok_def by simp
qed

lemma sys_okI:
  assumes "length bss = length qs" "pool_ok s fs []"
    "\<And>k. k < length qs \<Longrightarrow> pool_ok s fs (bss ! k) \<and> qrep s (qs ! k) (bss ! k) (chars s (qs ! k))"
    "\<And>k l. k < length qs \<Longrightarrow> l < length qs \<Longrightarrow> k \<noteq> l \<Longrightarrow> set (bss ! k) \<inter> set (bss ! l) = {}"
  shows "sys_ok s fs qs bss"
  using assms by (simp add: sys_ok_def)

lemma sys_ok_disjoint:
  "sys_ok s fs qs bss \<Longrightarrow> k < length qs \<Longrightarrow> l < length qs \<Longrightarrow> k \<noteq> l \<Longrightarrow> set (bss ! k) \<inter> set (bss ! l) = {}"
  by (simp add: sys_ok_def)

lemma csys_step:
  assumes "sys_ok s fs qs bss" "i < length qs" "pool_ok s' fs' bs'" "qrep s' q' bs' xs'"
    "set fs' \<union> set bs' = set fs \<union> set (bss ! i)" "cframe (set fs \<union> set (bss ! i)) s s'"
  shows "csys_inv (s', qs[i := q']) \<and> contents (s', qs[i := q']) = (contents (s, qs))[i := xs']"
  using sys_step [OF assms] by (auto simp: csys_inv_def)

section \<open>Operations on the subsystem, and the lists of bytes they implement\<close>

datatype clop = Getc nat | Putc int nat | Unputc nat | Q_to_b nat int | B_to_q "8 word list" nat
  | Ndflush nat int | Catq nat nat

datatype clout = OInt int | OBytes "8 word list" | OUnit

fun cl_args :: "nat \<Rightarrow> clop \<Rightarrow> bool" where
  "cl_args n (Getc i) = (i < n)"
| "cl_args n (Putc c i) = (i < n)"
| "cl_args n (Unputc i) = (i < n)"
| "cl_args n (Q_to_b i cc) = (i < n)"
| "cl_args n (B_to_q zs i) = (i < n)"
| "cl_args n (Ndflush i cc) = (i < n)"
| "cl_args n (Catq i j) = (i < n \<and> j < n \<and> i \<noteq> j)"

text \<open>A call of the routine on the named list; \<open>None\<close> when it does not return.\<close>

fun cl_call :: "clop \<Rightarrow> csys \<Rightarrow> (csys \<times> clout) option" where
  "cl_call (Getc i) (s, qs) = (case getc s (qs ! i) of ((s', q'), c) \<Rightarrow> Some ((s', qs[i := q']), OInt c))"
| "cl_call (Putc c i) (s, qs) = (case putc c s (qs ! i) of ((s', q'), r) \<Rightarrow> Some ((s', qs[i := q']), OInt r))"
| "cl_call (Unputc i) (s, qs) = map_option (\<lambda>((s', q'), c). ((s', qs[i := q']), OInt c)) (unputc s (qs ! i))"
| "cl_call (Q_to_b i cc) (s, qs) = (case q_to_b s (qs ! i) cc of ((s', q'), bs) \<Rightarrow> Some ((s', qs[i := q']), OBytes bs))"
| "cl_call (B_to_q zs i) (s, qs) =
     (case b_to_q zs s (qs ! i) of ((s', q'), left) \<Rightarrow> Some ((s', qs[i := q']), OInt (int left)))"
| "cl_call (Ndflush i cc) (s, qs) = map_option (\<lambda>(s', q'). ((s', qs[i := q']), OUnit)) (ndflush s (qs ! i) cc)"
| "cl_call (Catq i j) (s, qs) =
     (case catq s (qs ! i) (qs ! j) of (s', p', q') \<Rightarrow> Some ((s', qs[i := p', j := q']), OUnit))"

text \<open>What each operation does to the lists of bytes; only the two insertions may fall short.\<close>

fun cl_spec :: "clop \<Rightarrow> 8 word list list \<Rightarrow> 8 word list list \<Rightarrow> clout \<Rightarrow> bool" where
  "cl_spec (Getc i) xs ys r = (ys = xs[i := tl (xs ! i)] \<and> r = OInt (if xs ! i = [] then - 1 else uint (hd (xs ! i))))"
| "cl_spec (Putc c i) xs ys r =
     (r = OInt 0 \<and> ys = xs[i := xs ! i @ [word_of_int c]] \<or> r = OInt (- 1) \<and> ys = xs)"
| "cl_spec (Unputc i) xs ys r = (ys = xs[i := butlast (xs ! i)] \<and> r = OInt (if xs ! i = [] then - 1 else uint (last (xs ! i))))"
| "cl_spec (Q_to_b i cc) xs ys r = (ys = xs[i := drop (nat cc) (xs ! i)] \<and> r = OBytes (take (nat cc) (xs ! i)))"
| "cl_spec (B_to_q zs i) xs ys r =
     (\<exists>left \<le> length zs. ys = xs[i := xs ! i @ take (length zs - left) zs] \<and> r = OInt (int left))"
| "cl_spec (Ndflush i cc) xs ys r = (ys = xs[i := drop (nat cc) (xs ! i)] \<and> r = OUnit)"
| "cl_spec (Catq i j) xs ys r = (ys = xs[i := [], j := xs ! j @ xs ! i] \<and> r = OUnit)"

lemma contents_nth: "i < length qs \<Longrightarrow> contents (s, qs) ! i = chars s (qs ! i)"
  by (simp add: contents_def)

lemma catq_call:
  assumes ok: "sys_ok s fs qs bss" and ij: "i < length qs" "j < length qs" "i \<noteq> j"
  shows "\<exists>st'. cl_call (Catq i j) (s, qs) = Some (st', OUnit) \<and> csys_inv st' \<and> length (snd st') = length qs
     \<and> contents st' = (contents (s, qs))[i := [], j := contents (s, qs) ! j @ contents (s, qs) ! i]"
proof -
  from ok ij have a: "pool_ok s fs (bss ! i)" "pool_ok s fs (bss ! j)" "set (bss ! i) \<inter> set (bss ! j) = {}"
    "qrep s (qs ! i) (bss ! i) (chars s (qs ! i))" "qrep s (qs ! j) (bss ! j) (chars s (qs ! j))"
    and len: "length bss = length qs" by (auto simp: sys_ok_def)
  show ?thesis
  proof (cases "bss ! j = []")
    case True
    let ?p = "qs ! i" and ?e = "(qs ! i)\<lparr>c_cc := 0, c_cf := 0, c_cl := 0\<rparr>"
    have cj: "chars s (qs ! j) = []" "c_cc (qs ! j) = 0" using a(5) True by (auto simp: qrep_def)
    have ei: "qrep s ?e [] []" by (simp add: qrep_def)
    have pe: "pool_ok s fs []" using ok by (simp add: sys_ok_def)
    have ce: "chars s ?e = []" by (simp add: chars_def)
    have cb: "qs[i := ?e, j := ?p] ! k = (if k = j then ?p else if k = i then ?e else qs ! k)" if "k < length qs" for k
      using that ij by (auto simp: nth_list_update)
    have bb: "bss[i := [], j := bss ! i] ! k = (if k = j then bss ! i else if k = i then [] else bss ! k)"
      if "k < length qs" for k using that ij len by (auto simp: nth_list_update)
    have "sys_ok s fs (qs[i := ?e, j := ?p]) (bss[i := [], j := bss ! i])"
    proof (rule sys_okI, goal_cases)
      case (3 k)
      then have "k < length qs" by simp
      then show ?case using ok a pe ei ce by (simp add: cb bb sys_ok_def)
    next
      case (4 k l)
      then have "k < length qs" "l < length qs" by auto
      then show ?case
        using 4(3) sys_ok_disjoint [OF ok, of k l] sys_ok_disjoint [OF ok, of i l] sys_ok_disjoint [OF ok, of k i] ij
        by (simp add: cb bb)
    qed (use len pe in auto)
    moreover have "contents (s, qs[i := ?e, j := ?p]) = (contents (s, qs))[i := [], j := contents (s, qs) ! j @ contents (s, qs) ! i]"
      using ij cj ce by (simp add: contents_def map_update)
    ultimately show ?thesis using cj by (auto simp: catq_def csys_inv_def)
  next
    case False
    from catq_loop_spec [OF a False] obtain s' p' q' fs' cs' where c: "catq_loop s (qs ! i) (qs ! j) = (s', p', q')"
      "pool_ok s' fs' cs'" "qrep s' p' [] []" "qrep s' q' cs' (chars s (qs ! j) @ chars s (qs ! i))"
      "set fs' \<union> set cs' = set fs \<union> set (bss ! i) \<union> set (bss ! j)"
      "cframe (set fs \<union> set (bss ! i) \<union> set (bss ! j)) s s'" by blast
    have "c_cc (qs ! j) \<noteq> 0" using a(5) qrep_last(4) [OF a(2,5) False] by (simp add: qrep_def)
    then have call: "cl_call (Catq i j) (s, qs) = Some ((s', qs[i := p', j := q']), OUnit)" using c(1) by (simp add: catq_def)
    have k: "pool_ok s' fs' (bss ! k) \<and> qrep s' (qs ! k) (bss ! k) (chars s (qs ! k)) \<and> set cs' \<inter> set (bss ! k) = {}
       \<and> chars s' (qs ! k) = chars s (qs ! k)" if "k < length qs" "k \<noteq> i" "k \<noteq> j" for k
    proof -
      from ok that ij have b: "pool_ok s fs (bss ! k)" "set (bss ! i @ bss ! j) \<inter> set (bss ! k) = {}"
        "qrep s (qs ! k) (bss ! k) (chars s (qs ! k))" by (auto simp: sys_ok_def)
      from c(5) have u: "set fs' \<union> set cs' = set fs \<union> set (bss ! i @ bss ! j)" by auto
      note po = pool_other [OF b(1) c(2) u b(2)]
      moreover have "qrep s' (qs ! k) (bss ! k) (chars s (qs ! k))"
        using b by (intro qrep_other [OF c(6) b(3)]) (auto simp: pool_ok_def)
      ultimately show ?thesis using chars_qrep by blast
    qed
    have pe: "pool_ok s' fs' []" using c(2) by (auto simp: pool_ok_def)
    have ch: "chars s' p' = []" "chars s' q' = chars s (qs ! j) @ chars s (qs ! i)"
      using chars_qrep [OF pe c(3)] chars_qrep [OF c(2,4)] by auto
    have cb: "qs[i := p', j := q'] ! k = (if k = j then q' else if k = i then p' else qs ! k)" if "k < length qs" for k
      using that ij by (auto simp: nth_list_update)
    have bb: "bss[i := [], j := cs'] ! k = (if k = j then cs' else if k = i then [] else bss ! k)"
      if "k < length qs" for k using that ij len by (auto simp: nth_list_update)
    have "sys_ok s' fs' (qs[i := p', j := q']) (bss[i := [], j := cs'])"
    proof (rule sys_okI, goal_cases)
      case (3 m)
      then have "m < length qs" by simp
      then show ?case using k pe c(2-4) ch by (simp add: cb bb)
    next
      case (4 m l)
      then have "m < length qs" "l < length qs" by auto
      then show ?case
        using 4(3) sys_ok_disjoint [OF ok, of m l] k [of m] k [of l] by (auto simp: cb bb)
    qed (use len pe in auto)
    moreover have "contents (s', qs[i := p', j := q']) = (contents (s, qs))[i := [], j := contents (s, qs) ! j @ contents (s, qs) ! i]"
    proof (rule nth_equalityI)
      fix m assume "m < length (contents (s', qs[i := p', j := q']))"
      then have m: "m < length qs" by (simp add: contents_def)
      then show "contents (s', qs[i := p', j := q']) ! m
          = (contents (s, qs))[i := [], j := contents (s, qs) ! j @ contents (s, qs) ! i] ! m"
        using ij ch k [OF m] by (cases "m = j"; cases "m = i") (simp_all add: contents_def cb [OF m])
    qed (simp add: contents_def)
    ultimately show ?thesis using call by (auto simp: csys_inv_def)
  qed
qed

lemma cl_call_refines:
  assumes inv: "csys_inv st" and args: "cl_args (length (snd st)) op"
  shows "\<exists>st' r. cl_call op st = Some (st', r) \<and> csys_inv st' \<and> length (snd st') = length (snd st)
     \<and> cl_spec op (contents st) (contents st') r"
proof -
  obtain s qs where st: "st = (s, qs)" by fastforce
  with inv obtain fs bss where ok: "sys_ok s fs qs bss" by (auto simp: csys_inv_def)
  have at: "pool_ok s fs (bss ! i)" "qrep s (qs ! i) (bss ! i) (chars s (qs ! i))" if "i < length qs" for i
    using ok that by (auto simp: sys_ok_def)
  note step = csys_step [OF ok]
  show ?thesis
  proof (cases op)
    case (Getc i)
    then have i: "i < length qs" using args st by simp
    obtain s' q' c where g: "getc s (qs ! i) = ((s', q'), c)" by (metis prod.collapse)
    from getc_spec [OF at [OF i] g] step [OF i] g Getc st i show ?thesis by (auto simp: contents_nth)
  next
    case (Putc c i)
    then have i: "i < length qs" using args st by simp
    obtain s' q' r where g: "putc c s (qs ! i) = ((s', q'), r)" by (metis prod.collapse)
    from putc_spec [OF at [OF i] g] obtain fs' bs' where r: "r \<in> {0, - 1}" "pool_ok s' fs' bs'"
      "qrep s' q' bs' (chars s (qs ! i) @ (if r = 0 then [word_of_int c] else []))"
      "set fs' \<union> set bs' = set fs \<union> set (bss ! i)" "cframe (set fs \<union> set (bss ! i)) s s'"
      by (auto simp: put_result_def split: if_splits)
    have "(contents (s, qs))[i := chars s (qs ! i)] = contents (s, qs)" using i contents_nth by (metis list_update_id)
    with step [OF i r(2-5)] r(1) g Putc st i show ?thesis by (auto simp: contents_nth)
  next
    case (Unputc i)
    then have i: "i < length qs" using args st by simp
    from unputc_spec [OF at [OF i]] step [OF i] Unputc st i show ?thesis by (fastforce simp: contents_nth)
  next
    case (Q_to_b i cc)
    then have i: "i < length qs" using args st by simp
    from q_to_b_spec [OF at [OF i], of cc] step [OF i] Q_to_b st i show ?thesis by (fastforce simp: contents_nth)
  next
    case (B_to_q zs i)
    then have i: "i < length qs" using args st by simp
    obtain s' q' r where g: "b_to_q zs s (qs ! i) = ((s', q'), r)" by (metis prod.collapse)
    from b_to_q_spec [OF at [OF i] g] step [OF i] g B_to_q st i show ?thesis
      by (fastforce simp: contents_nth put_result_def)
  next
    case (Ndflush i cc)
    then have i: "i < length qs" using args st by simp
    from ndflush_spec [OF at [OF i], of cc] step [OF i] Ndflush st i show ?thesis by (fastforce simp: contents_nth)
  next
    case (Catq i j)
    then show ?thesis using catq_call [OF ok, of i j] args st by auto
  qed
qed

section \<open>Start-up\<close>

text \<open>
  \<open>cinit\<close>: \<open>cfree\<close> is the address of the array, and the first block is its first multiple of
  \<open>CBLOCK\<close>; the loop frees every block that starts at or before \<^verbatim>\<open>&cfree[NCLIST-1]\<close>.
\<close>

definition cinit_blocks :: "nat \<Rightarrow> nat \<Rightarrow> nat list" where
  "cinit_blocks cfree nclist =
     (let ccp = blk (cfree + (CBLOCK - 1))
      in map (\<lambda>k. ccp + CBLOCK * k) [0..<(if ccp \<le> cfree + CBLOCK * (nclist - 1)
            then (cfree + CBLOCK * (nclist - 1) - ccp) div CBLOCK + 1 else 0)])"

definition cinit :: "nat \<Rightarrow> nat \<Rightarrow> cpool \<Rightarrow> cpool" where
  "cinit cfree nclist s = fold cblock_free (cinit_blocks cfree nclist) s"

lemma cinit_fold:
  "pool_ok s fs [] \<Longrightarrow> distinct bs \<Longrightarrow> set bs \<inter> set fs = {} \<Longrightarrow> \<forall>b\<in>set bs. block_ok b \<Longrightarrow>
   pool_ok (fold cblock_free bs s) (rev bs @ fs) []"
proof (induction bs arbitrary: s fs)
  case (Cons b bs)
  then have "pool_ok s fs [b]" by (auto simp: pool_ok_def)
  from pool_ok_free(1) [OF this] Cons show ?case by simp
qed simp

lemma cinit_blocks_ok: "0 < cfree \<Longrightarrow> distinct (cinit_blocks cfree n) \<and> (\<forall>b\<in>set (cinit_blocks cfree n). block_ok b)"
proof -
  assume c: "0 < cfree"
  let ?c = "blk (cfree + (CBLOCK - 1))"
  have "?c mod CBLOCK = 0" by (simp add: blk_def minus_mod_eq_mult_div)
  moreover have "0 < ?c" using c unfolding blk_def
    using mod_less_divisor [of CBLOCK "cfree + (CBLOCK - 1)"] by linarith
  ultimately show ?thesis by (auto simp: cinit_blocks_def Let_def distinct_map inj_on_def block_ok_def)
qed

interpretation cl: refines csys_inv contents "\<lambda>st. cl_args (length (snd st))" cl_call cl_spec
proof (unfold_locales, goal_cases)
  case (1 st op)
  with cl_call_refines [of st op] show ?case by metis
qed

text \<open>The state after start-up: \<open>n\<close> lists, all empty, over the blocks of \<open>cfree\<close>.\<close>

definition cpool0 :: cpool where
  "cpool0 = \<lparr>c_next = (\<lambda>_. 0), c_mem = (\<lambda>_. 0), cfreelist = 0, cfreecount = 0, cwaiting = False, c_wakeups = 0\<rparr>"

definition csys_boot :: "nat \<Rightarrow> nat \<Rightarrow> nat \<Rightarrow> csys" where
  "csys_boot cfree nclist n = (cinit cfree nclist cpool0, replicate n \<lparr>c_cc = 0, c_cf = 0, c_cl = 0\<rparr>)"

lemma csys_boot_inv:
  assumes "0 < cfree"
  shows "csys_inv (csys_boot cfree nclist n)" and "contents (csys_boot cfree nclist n) = replicate n []"
proof -
  let ?bs = "cinit_blocks cfree nclist" and ?s = "cinit cfree nclist cpool0"
  have "pool_ok cpool0 [] []" by (simp add: pool_ok_def cpool0_def)
  then have "pool_ok ?s (rev ?bs) []"
    using cinit_fold [of cpool0 "[]" ?bs] cinit_blocks_ok [OF assms, of nclist] by (simp add: cinit_def)
  moreover have "chars s \<lparr>c_cc = 0, c_cf = 0, c_cl = 0\<rparr> = []" for s by (simp add: chars_def)
  ultimately show "csys_inv (csys_boot cfree nclist n)" "contents (csys_boot cfree nclist n) = replicate n []"
    unfolding csys_inv_def
    by (auto simp: csys_boot_def contents_def qrep_def intro!: exI [of _ "rev ?bs"] exI [of _ "replicate n []"] sys_okI)
qed

section \<open>Properties of the character lists\<close>

text \<open>
  C6. From start-up on, any sequence of calls of \<open>getc\<close>, \<open>putc\<close>, \<open>unputc\<close>, \<open>q_to_b\<close>, \<open>b_to_q\<close>, \<open>ndflush\<close> and
  \<open>catq\<close> on the lists of the kernel returns, and the values returned and the characters the lists
  hold in the end are those of queues of bytes: the lists never mix, although they share the pool,
  and only an insertion may take less than it was given (\<open>catq\<close> loses nothing even when the pool is
  empty).
\<close>

theorem clists_refine_queues:
  assumes "0 < cfree" and "\<forall>op\<in>set ops. cl_args n op"
  shows "\<exists>st rs. run_ops cl_call ops (csys_boot cfree nclist n) = Some (st, rs) \<and> csys_inv st
     \<and> run_spec cl_spec ops (replicate n []) (contents st) rs"
proof -
  have "length (snd (csys_boot cfree nclist n)) = n" by (simp add: csys_boot_def)
  with cl.run_refines [OF csys_boot_inv(1) [OF assms(1)], of ops nclist n] assms(2) csys_boot_inv(2) [OF assms(1)]
  show ?thesis by auto
qed

theorem clists_refine_queues_witness:
  "\<exists>st rs. run_ops cl_call [Putc 65 0, B_to_q [66, 67] 1, Catq 0 1, Getc 1] (csys_boot 64 2 2) = Some (st, rs)
     \<and> csys_inv st \<and> run_spec cl_spec [Putc 65 0, B_to_q [66, 67] 1, Catq 0 1, Getc 1] [[], []] (contents st) rs"
  using clists_refine_queues [of 64 "[Putc 65 0, B_to_q [66, 67] 1, Catq 0 1, Getc 1]" 2 2]
  by (simp add: numeral_2_eq_2)

text \<open>
  A buffer that \<open>b_to_q\<close> transferred whole to an empty list comes back unchanged from \<open>q_to_b\<close>, the
  list is empty again, and the other lists are as they were before.
\<close>

theorem b_to_q_roundtrip:
  assumes "csys_inv (s, qs)" and "i < length qs" and "chars s (qs ! i) = []"
    and "b_to_q zs s (qs ! i) = ((s', q'), 0)" and "q_to_b s' q' (int (length zs)) = ((s'', q''), out)"
  shows "out = zs \<and> csys_inv (s'', qs[i := q'']) \<and> contents (s'', qs[i := q'']) = contents (s, qs)"
proof -
  let ?st = "(s', qs[i := q'])"
  have "cl_call (B_to_q zs i) (s, qs) = Some (?st, OInt 0)" using assms(4) by simp
  with cl.step_inv [OF assms(1), of "B_to_q zs i"] assms(2,3) have a: "csys_inv ?st"
    "contents ?st = (contents (s, qs))[i := zs]" by (auto simp: contents_nth)
  have l: "i < length (contents (s, qs))" using assms(2) by (simp add: contents_def)
  have "cl_call (Q_to_b i (int (length zs))) ?st = Some ((s'', qs[i := q'']), OBytes out)"
    using assms(2,5) by simp
  with cl.step_inv [OF a(1), of "Q_to_b i (int (length zs))"] assms(2) a(2)
  have "csys_inv (s'', qs[i := q''])" "out = zs" "contents (s'', qs[i := q'']) = (contents (s, qs))[i := []]"
    using l by (auto simp: a(2))
  moreover have "(contents (s, qs))[i := []] = contents (s, qs)"
    using assms(2,3) contents_nth by (metis list_update_id)
  ultimately show ?thesis by simp
qed

theorem b_to_q_roundtrip_witness:
  "\<exists>s' q' s'' q''. b_to_q [1, 2] (cinit 64 2 cpool0) \<lparr>c_cc = 0, c_cf = 0, c_cl = 0\<rparr> = ((s', q'), 0)
     \<and> q_to_b s' q' 2 = ((s'', q''), [1, 2]) \<and> csys_inv (s'', [q''])"
proof -
  let ?e = "\<lparr>c_cc = 0, c_cf = 0, c_cl = 0\<rparr>" and ?s = "cinit 64 2 cpool0"
  have inv: "csys_inv (?s, [?e])" using csys_boot_inv(1) [of 64 2 1] by (simp add: csys_boot_def)
  have free: "cfreelist ?s = 96"
    by (simp add: cinit_def cinit_blocks_def Let_def blk_def cblock_free_def cpool0_def)
  obtain s' q' left where b: "b_to_q [1, 2] ?s ?e = ((s', q'), left)" by (metis prod.collapse)
  have "left = 0"
    using b free by (auto simp: b_to_q_def Let_def cblock_take_def c_info_def b_to_q_loop.simps [of _ _ "_ # _"]
        b_to_q_loop.simps [of _ _ "[]"] min_def)
  moreover obtain s'' q'' out where "q_to_b s' q' (int (length [1, 2 :: 8 word])) = ((s'', q''), out)" by (metis prod.collapse)
  ultimately show ?thesis using b_to_q_roundtrip [of ?s "[?e]" 0 "[1, 2]" s' q' s'' q'' out] inv b
    by (auto simp: chars_def)
qed

text \<open>
  \<open>ndqb\<close> of a list that is not empty returns the length of a run of characters that lie
  contiguously at \<open>c_cf\<close>, are the next characters of the list, and none of which has the flag bits
  set; without a flag the run is not empty.
\<close>

theorem ndqb_contiguous:
  assumes "csys_inv (s, qs)" and "i < length qs" and "chars s (qs ! i) \<noteq> []"
  shows "0 \<le> ndqb s (qs ! i) flag
     \<and> bytes_at s (c_cf (qs ! i)) (nat (ndqb s (qs ! i) flag)) = take (nat (ndqb s (qs ! i) flag)) (chars s (qs ! i))
     \<and> list_all (\<lambda>x. ucast x AND flag = 0) (take (nat (ndqb s (qs ! i) flag)) (chars s (qs ! i)))
     \<and> 0 < ndqb s (qs ! i) 0"
proof -
  let ?q = "qs ! i" and ?xs = "chars s (qs ! i)"
  from assms(1,2) obtain fs bs where p: "pool_ok s fs bs" and q: "qrep s ?q bs ?xs"
    by (fastforce simp: csys_inv_def sys_ok_def)
  then show ?thesis using ndqb_spec [OF p q assms(3)] by blast
qed

theorem ndqb_contiguous_witness:
  "\<exists>s q. csys_inv (s, [q]) \<and> chars s q = [7] \<and> 0 < ndqb s q 0"
proof -
  let ?e = "\<lparr>c_cc = 0, c_cf = 0, c_cl = 0\<rparr>" and ?s = "cinit 64 2 cpool0"
  obtain s' q' r where b: "putc 7 ?s ?e = ((s', q'), r)" by (metis prod.collapse)
  have "cfreelist ?s = 96"
    by (simp add: cinit_def cinit_blocks_def Let_def blk_def cblock_free_def cpool0_def)
  then have "r = 0" using b by (auto simp: putc_def Let_def cblock_take_def)
  then have "cl_call (Putc 7 0) (?s, [?e]) = Some ((s', [q']), OInt 0)" using b by simp
  with cl.step_inv [of "(?s, [?e])" "Putc 7 0"] csys_boot_inv [of 64 2 1] have *: "csys_inv (s', [q'])" "chars s' q' = [7]"
    by (auto simp: csys_boot_def contents_def chars_def)
  with ndqb_contiguous [of s' "[q']" 0] have "0 < ndqb s' q' 0" by simp
  with * show ?thesis by blast
qed

end
