(* ===== verification/Kern_State.thy ===== *)
theory Kern_State
  imports Prelude
begin

text \<open>
  The kernel's global state as the process-oriented parts share it: the process table
  (\<^verbatim>\<open>sys/sys/proc.h\<close>), the u-area of the running process (\<^verbatim>\<open>sys/sys/user.h\<close>), the open-file table
  (\<^verbatim>\<open>sys/sys/file.h\<close>), the clock variables (\<^verbatim>\<open>sys/sys/kernel.h\<close>), and user memory with \<open>copyin\<close> and
  \<open>copyout\<close>. A pointer to a table entry is its index; a list linked through the table (\<open>allproc\<close>,
  the hash chains, the sleep queues, the run queue) is the list of the indices it runs through.
\<close>

section \<open>Error numbers\<close>

abbreviation (input) EPERM :: int where "EPERM \<equiv> 1"
abbreviation (input) ESRCH :: int where "ESRCH \<equiv> 3"
abbreviation (input) EINTR :: int where "EINTR \<equiv> 4"
abbreviation (input) ENXIO :: int where "ENXIO \<equiv> 6"
abbreviation (input) EBADF :: int where "EBADF \<equiv> 9"
abbreviation (input) ENOMEM :: int where "ENOMEM \<equiv> 12"
abbreviation (input) EACCES :: int where "EACCES \<equiv> 13"
abbreviation (input) EFAULT :: int where "EFAULT \<equiv> 14"
abbreviation (input) EBUSY :: int where "EBUSY \<equiv> 16"
abbreviation (input) ENODEV :: int where "ENODEV \<equiv> 19"
abbreviation (input) EISDIR :: int where "EISDIR \<equiv> 21"
abbreviation (input) EINVAL :: int where "EINVAL \<equiv> 22"
abbreviation (input) ENFILE :: int where "ENFILE \<equiv> 23"
abbreviation (input) EMFILE :: int where "EMFILE \<equiv> 24"
abbreviation (input) EFBIG :: int where "EFBIG \<equiv> 27"
abbreviation (input) ENOSPC :: int where "ENOSPC \<equiv> 28"
abbreviation (input) EROFS :: int where "EROFS \<equiv> 30"
abbreviation (input) EWOULDBLOCK :: int where "EWOULDBLOCK \<equiv> 35"
abbreviation (input) EOPNOTSUPP :: int where "EOPNOTSUPP \<equiv> 45"
abbreviation (input) ERESTART :: int where "ERESTART \<equiv> - 1"

section \<open>Constants of \<^verbatim>\<open>param.h\<close>\<close>

abbreviation (input) NOFILE :: nat where "NOFILE \<equiv> 30"
abbreviation (input) NGROUPS :: nat where "NGROUPS \<equiv> 16"
abbreviation (input) NOGROUP :: "32 word" where "NOGROUP \<equiv> 65535"
abbreviation (input) PZERO :: int where "PZERO \<equiv> 25"
abbreviation (input) PPAUSE :: int where "PPAUSE \<equiv> 40"
abbreviation (input) PUSER :: int where "PUSER \<equiv> 50"
abbreviation (input) NZERO :: int where "NZERO \<equiv> 0"
abbreviation (input) NSIG :: nat where "NSIG \<equiv> 32"

section \<open>Process table\<close>

datatype pstat = SNULL | SSLEEP | SWAIT | SRUN | SIDL | SZOMB | SSTOP

abbreviation (input) SLOAD :: "16 word" where "SLOAD \<equiv> 0x0001"
abbreviation (input) SSYS :: "16 word" where "SSYS \<equiv> 0x0002"
abbreviation (input) SSWAP :: "16 word" where "SSWAP \<equiv> 0x0008"
abbreviation (input) P_TRACED :: "16 word" where "P_TRACED \<equiv> 0x0010"
abbreviation (input) P_WAITED :: "16 word" where "P_WAITED \<equiv> 0x0020"
abbreviation (input) P_SINTR :: "16 word" where "P_SINTR \<equiv> 0x0080"
abbreviation (input) SVFORK :: "16 word" where "SVFORK \<equiv> 0x0100"
abbreviation (input) P_TIMEOUT :: "16 word" where "P_TIMEOUT \<equiv> 0x1000"
abbreviation (input) P_NOCLDSTOP :: "16 word" where "P_NOCLDSTOP \<equiv> 0x2000"

record k_itimerval =
  it_interval :: int
  it_value :: int

record k_rusage =
  ru_utime :: int
  ru_stime :: int
  ru_nswap :: int
  ru_inblock :: int
  ru_oublock :: int
  ru_msgsnd :: int
  ru_msgrcv :: int
  ru_nsignals :: int
  ru_nvcsw :: int
  ru_nivcsw :: int

text \<open>
  A slot of the process table. \<open>p_ruid\<close> stands for the real user id in the u-area of the process,
  which \<open>fill_from_u\<close> reads when the process is not the running one. The event \<open>p_wchan\<close> is an
  address, 0 for none.
\<close>

record proc =
  p_pptr :: nat
  p_flag :: "16 word"
  p_uid :: "16 word"
  p_pid :: "16 word"
  p_ppid :: "16 word"
  p_sig :: "32 word"
  p_stat :: pstat
  p_pri :: int
  p_cpu :: "8 word"
  p_time :: int
  p_nice :: int
  p_slptime :: int
  p_ptracesig :: int
  p_sigmask :: "32 word"
  p_sigignore :: "32 word"
  p_sigcatch :: "32 word"
  p_pgrp :: "16 word"
  p_wchan :: nat
  p_realtimer :: k_itimerval
  p_ruid :: "32 word"

section \<open>The u-area\<close>

record rlimit =
  rlim_cur :: int
  rlim_max :: int

record sigaltstack_t =
  ss_base :: "32 word"
  ss_size :: "32 word"
  ss_flags :: "32 word"

record uprof =
  pr_base :: nat
  pr_size :: nat
  pr_off :: nat
  pr_scale :: nat

record user =
  u_procp :: nat
  u_rval :: int
  u_error :: int
  u_uid :: "32 word"
  u_svuid :: "32 word"
  u_ruid :: "32 word"
  u_svgid :: "32 word"
  u_rgid :: "32 word"
  u_groups :: "32 word list"
  u_signal :: "nat \<Rightarrow> 32 word"
  u_sigmask :: "nat \<Rightarrow> 32 word"
  u_sigonstack :: "32 word"
  u_sigintr :: "32 word"
  u_oldmask :: "32 word"
  u_psflags :: "32 word"
  u_sigstk :: sigaltstack_t
  u_sigtramp :: "32 word"
  u_ofile :: "nat \<Rightarrow> nat option"
  u_pofile :: "nat \<Rightarrow> 8 word"
  u_lastfile :: int
  u_ru :: k_rusage
  u_cru :: k_rusage
  u_timer :: "nat \<Rightarrow> k_itimerval"
  u_dupfd :: int
  u_prof :: uprof
  u_rlimit :: "nat \<Rightarrow> rlimit"

section \<open>Open files, callouts, time\<close>

record filent =
  f_flag :: "32 word"
  f_type :: int
  f_count :: nat
  f_data :: nat
  f_offset :: int

text \<open>A callout; \<open>c_func\<close> identifies the routine, \<open>c_arg\<close> its argument.\<close>

record callout =
  c_time :: int
  c_arg :: nat
  c_func :: nat

record timeval =
  tv_sec :: int
  tv_usec :: int

record timezone =
  tz_minuteswest :: int
  tz_dsttime :: int

section \<open>Inodes\<close>

text \<open>
  The in-core inode (\<^verbatim>\<open>sys/sys/inode.h\<close>); \<open>i_fs\<close> identifies its file system. \<open>i_addr\<close> are the seven block
  addresses; \<open>i_rdev\<close>, the device of a special file, shares the place of the second.
\<close>

record inode =
  i_flag :: "32 word"
  i_count :: nat
  i_dev :: int
  i_number :: nat
  i_fs :: nat
  i_shlockc :: "16 word"
  i_exlockc :: "16 word"
  i_addr :: "int list"
  i_mode :: "32 word"
  i_nlink :: nat
  i_uid :: "32 word"
  i_gid :: "32 word"
  i_size :: int
  i_flags :: "32 word"
  i_lastr :: int
  i_atime :: int
  i_mtime :: int
  i_ctime :: int

section \<open>The whole state\<close>

text \<open>The kernel variables whose addresses serve as events to sleep on.\<close>

datatype ksym = Sym_lbolt | Sym_runin | Sym_runout | Sym_u | Sym_u_signal | Sym_proc nat | Sym_shlockc nat

text \<open>
  \<open>diagnostic\<close> tells whether the kernel is built with \<^verbatim>\<open>DIAGNOSTIC\<close>; \<open>addr\<close> is the address the linker gave
  to a kernel variable; \<open>char_signed\<close> tells whether the compiler's plain \<^verbatim>\<open>char\<close> is signed (it is on pic32, it
  is not on stm32 and gba). \<open>ubad\<close> is the machine's \<^verbatim>\<open>baduaddr\<close>, \<open>umem\<close> the bytes of user memory. \<open>rtc\<close> is the time last pushed
  down to the real-time clock by \<open>resettodr\<close>, when it was called.
\<close>

record kern =
  u :: user
  procs :: "nat \<Rightarrow> proc"
  allproc :: "nat list"
  freeproc :: "nat list"
  zombproc :: "nat list"
  pidhash :: "nat \<Rightarrow> nat list"
  slpque :: "nat \<Rightarrow> nat list"
  qs :: "nat list"
  runrun :: int
  curpri :: int
  noproc :: bool
  runin :: int
  runout :: int
  panicstr :: bool
  files :: "nat \<Rightarrow> filent"
  lastf :: nat
  calltodo :: "callout list"
  callfree :: "callout list"
  boottime :: timeval
  time :: timeval
  tz :: timezone
  adjdelta :: int
  hz :: int
  usechz :: int
  lbolt :: int
  securelevel :: int
  rtc :: "timeval option"
  inodes :: "nat \<Rightarrow> inode"
  fs_ronly :: "nat \<Rightarrow> bool"
  diagnostic :: bool
  char_signed :: bool
  addr :: "ksym \<Rightarrow> nat"
  umem :: "nat \<Rightarrow> 8 word"
  ubad :: "nat \<Rightarrow> bool"

abbreviation set_error :: "int \<Rightarrow> kern \<Rightarrow> kern" where
  "set_error e k \<equiv> k\<lparr>u := (u k)\<lparr>u_error := e\<rparr>\<rparr>"

abbreviation set_rval :: "int \<Rightarrow> kern \<Rightarrow> kern" where
  "set_rval v k \<equiv> k\<lparr>u := (u k)\<lparr>u_rval := v\<rparr>\<rparr>"

abbreviation curproc :: "kern \<Rightarrow> proc" where
  "curproc k \<equiv> procs k (u_procp (u k))"

definition upd_proc :: "nat \<Rightarrow> (proc \<Rightarrow> proc) \<Rightarrow> kern \<Rightarrow> kern" where
  "upd_proc p f k = k\<lparr>procs := (procs k)(p := f (procs k p))\<rparr>"

lemma upd_proc_simps [simp]:
  "u (upd_proc p f k) = u k" "procs (upd_proc p f k) q = (if q = p then f (procs k p) else procs k q)"
  "allproc (upd_proc p f k) = allproc k" "slpque (upd_proc p f k) = slpque k" "qs (upd_proc p f k) = qs k"
  "runrun (upd_proc p f k) = runrun k" "curpri (upd_proc p f k) = curpri k" "runout (upd_proc p f k) = runout k"
  "runin (upd_proc p f k) = runin k" "pidhash (upd_proc p f k) = pidhash k" "panicstr (upd_proc p f k) = panicstr k"
  "calltodo (upd_proc p f k) = calltodo k" "callfree (upd_proc p f k) = callfree k" "hz (upd_proc p f k) = hz k"
  "umem (upd_proc p f k) = umem k" "ubad (upd_proc p f k) = ubad k" "noproc (upd_proc p f k) = noproc k"
  "files (upd_proc p f k) = files k" "inodes (upd_proc p f k) = inodes k" "diagnostic (upd_proc p f k) = diagnostic k"
  "char_signed (upd_proc p f k) = char_signed k"
  "addr (upd_proc p f k) = addr k" "zombproc (upd_proc p f k) = zombproc k" "lbolt (upd_proc p f k) = lbolt k"
  "time (upd_proc p f k) = time k" "adjdelta (upd_proc p f k) = adjdelta k"
  by (auto simp: upd_proc_def)

text \<open>The value read back from a plain \<^verbatim>\<open>char\<close> that \<open>n\<close> was stored into.\<close>

definition to_char :: "kern \<Rightarrow> int \<Rightarrow> int" where
  "to_char k n = (if char_signed k then sint (word_of_int n :: 8 word) else uint (word_of_int n :: 8 word))"

lemma to_char_id: "0 \<le> n \<Longrightarrow> n < 128 \<Longrightarrow> to_char k n = n"
  by (simp add: to_char_def int_word_sint uint_word_of_int)

lemma to_char_signed: "char_signed k \<Longrightarrow> -128 \<le> n \<Longrightarrow> n < 128 \<Longrightarrow> to_char k n = n"
  by (simp add: to_char_def int_word_sint)

lemma to_char_unsigned: "\<not> char_signed k \<Longrightarrow> -128 \<le> n \<Longrightarrow> n < 0 \<Longrightarrow> to_char k n = n + 256"
proof -
  assume a: "\<not> char_signed k" "-128 \<le> n" "n < 0"
  have "(n + 256) mod 256 = n + 256" using a by (intro mod_pos_pos_trivial) auto
  then have "n mod 256 = n + 256" by simp
  with a show ?thesis by (simp add: to_char_def uint_word_of_int)
qed

section \<open>User memory\<close>

text \<open>A structure crosses the boundary as the 32-bit words of its fields, least significant byte first.\<close>

definition byte_of :: "32 word \<Rightarrow> nat \<Rightarrow> 8 word" where
  "byte_of w i = ucast (drop_bit (8 * i) w)"

definition word_at :: "(nat \<Rightarrow> 8 word) \<Rightarrow> nat \<Rightarrow> 32 word" where
  "word_at m a = ucast (m a) OR push_bit 8 (ucast (m (a + 1))) OR push_bit 16 (ucast (m (a + 2)))
     OR push_bit 24 (ucast (m (a + 3)))"

fun store_words :: "(nat \<Rightarrow> 8 word) \<Rightarrow> nat \<Rightarrow> 32 word list \<Rightarrow> nat \<Rightarrow> 8 word" where
  "store_words m a [] = m"
| "store_words m a (w # ws) =
     store_words (m(a := byte_of w 0, a + 1 := byte_of w 1, a + 2 := byte_of w 2, a + 3 := byte_of w 3)) (a + 4) ws"

definition load_words :: "(nat \<Rightarrow> 8 word) \<Rightarrow> nat \<Rightarrow> nat \<Rightarrow> 32 word list" where
  "load_words m a n = map (\<lambda>i. word_at m (a + 4 * i)) [0..<n]"

text \<open>The last byte of \<open>n\<close> bytes at \<open>a\<close>: \<^verbatim>\<open>a + n - 1\<close>, in 32 bits.\<close>

definition last_byte :: "nat \<Rightarrow> nat \<Rightarrow> nat" where
  "last_byte a n = (a + n + (2 ^ 32 - 1)) mod 2 ^ 32"

definition copyout :: "32 word list \<Rightarrow> nat \<Rightarrow> kern \<Rightarrow> kern \<times> int" where
  "copyout ws to k =
     (if ubad k to \<or> ubad k (last_byte to (4 * length ws)) then (k, EFAULT)
      else (k\<lparr>umem := store_words (umem k) to ws\<rparr>, 0))"

definition copyin :: "nat \<Rightarrow> nat \<Rightarrow> kern \<Rightarrow> 32 word list + int" where
  "copyin from n k =
     (if ubad k from \<or> ubad k (last_byte from (4 * n)) then Inr EFAULT
      else Inl (load_words (umem k) from n))"

lemma word_of_bytes:
  fixes w :: "32 word"
  shows "ucast (byte_of w 0) OR push_bit 8 (ucast (byte_of w 1)) OR push_bit 16 (ucast (byte_of w 2))
     OR push_bit 24 (ucast (byte_of w 3)) = w"
proof (rule bit_word_eqI)
  fix n assume "n < LENGTH(32)"
  then have "n < 8 \<or> 8 \<le> n \<and> n < 16 \<or> 16 \<le> n \<and> n < 24 \<or> 24 \<le> n \<and> n < 32" by auto
  then show "bit (ucast (byte_of w 0) OR push_bit 8 (ucast (byte_of w 1)) OR push_bit 16 (ucast (byte_of w 2))
     OR push_bit 24 (ucast (byte_of w 3)) :: 32 word) n = bit w n"
    by (elim disjE) (auto simp: byte_of_def bit_simps)
qed

lemma store_words_outside: "x < a \<or> a + 4 * length ws \<le> x \<Longrightarrow> store_words m a ws x = m x"
  by (induction ws arbitrary: m a) auto

lemma word_at_store: "word_at (store_words m a (w # ws)) a = w"
  using word_of_bytes [of w] by (simp add: word_at_def store_words_outside)

text \<open>What is stored is what is loaded.\<close>

lemma load_store: "load_words (store_words m a ws) a (length ws) = ws"
proof (induction ws arbitrary: m a)
  case (Cons w ws)
  have "load_words (store_words m a (w # ws)) a (length (w # ws))
      = word_at (store_words m a (w # ws)) a
        # load_words (store_words m a (w # ws)) (a + 4) (length ws)"
    by (simp add: load_words_def upt_rec [of 0] map_Suc_upt [symmetric] del: store_words.simps upt_Suc)
      (simp add: algebra_simps)
  moreover have "load_words (store_words m a (w # ws)) (a + 4) (length ws) = ws" using Cons.IH by simp
  ultimately show ?case using word_at_store by metis
qed (simp add: load_words_def)

text \<open>\<open>copyin\<close> reads back what \<open>copyout\<close> wrote; neither touches anything but user memory.\<close>

lemma copyout_copyin:
  assumes "copyout ws a k = (k', 0)"
  shows "copyin a (length ws) k' = Inl ws" and "\<exists>m. k' = k\<lparr>umem := m\<rparr>"
  using assms by (auto simp: copyout_def copyin_def load_store split: if_splits)

lemma copyout_fault: "copyout ws a k = (k', e) \<Longrightarrow> e \<noteq> 0 \<Longrightarrow> k' = k \<and> e = EFAULT"
  by (auto simp: copyout_def split: if_splits)

lemma copyin_frame [simp]: "copyin a n (k\<lparr>u := x\<rparr>) = copyin a n k" "copyin a n (upd_proc p f k) = copyin a n k"
  by (simp_all add: copyin_def)

lemma copyin_length: "copyin a n k = Inl ws \<Longrightarrow> length ws = n"
  by (auto simp: copyin_def load_words_def split: if_splits)

end
