(* ===== verification/Prot.thy ===== *)
theory Prot
  imports Kern_State
begin

text \<open>
  Identity and protection: \<^verbatim>\<open>sys/kern/kern_prot.c\<close>, \<^verbatim>\<open>sys/kern/kern_prot2.c\<close>, \<^verbatim>\<open>sys/kern/kern_proc.c\<close>
  and \<open>suser\<close> of \<^verbatim>\<open>sys/kern/ufs_fio.c\<close>. A system call takes its arguments (the fields of \<^verbatim>\<open>uap\<close>) and
  returns the kernel state; results and errors are in the u-area, as in the code.
\<close>

section \<open>Finding processes\<close>

abbreviation (input) PIDHSZ :: nat where "PIDHSZ \<equiv> 16"

text \<open>\<^verbatim>\<open>pid & (PIDHSZ - 1)\<close>\<close>

definition PIDHASH :: "int \<Rightarrow> nat" where
  "PIDHASH pid = nat (pid mod int PIDHSZ)"

definition pfind :: "int \<Rightarrow> kern \<Rightarrow> nat option" where
  "pfind pid k = find (\<lambda>p. sint (p_pid (procs k p)) = pid) (pidhash k (PIDHASH pid))"

text \<open>Whether \<open>p\<close> descends from the running process; \<open>None\<close> if the parent links never end.\<close>

partial_function (option) inferior :: "nat \<Rightarrow> kern \<Rightarrow> bool option" where
  "inferior p k =
     (if p = u_procp (u k) then Some True
      else if p_ppid (procs k p) = 0 then Some False
      else inferior (p_pptr (procs k p)) k)"

definition pqinit :: "nat \<Rightarrow> kern \<Rightarrow> kern" where
  "pqinit nproc k = k\<lparr>freeproc := [1..<nproc], allproc := [0], zombproc := []\<rparr>"

section \<open>Reading identities\<close>

definition suser :: "kern \<Rightarrow> kern \<times> bool" where
  "suser k = (if u_uid (u k) = 0 then (k, True) else (set_error EPERM k, False))"

definition getpid :: "kern \<Rightarrow> kern" where
  "getpid k = set_rval (sint (p_pid (curproc k))) k"

definition getppid :: "kern \<Rightarrow> kern" where
  "getppid k = set_rval (sint (p_ppid (curproc k))) k"

definition getpgrp :: "int \<Rightarrow> kern \<Rightarrow> kern" where
  "getpgrp pid k =
     (let pid = (if pid = 0 then sint (p_pid (curproc k)) else pid)
      in case pfind pid k of
           None \<Rightarrow> set_error ESRCH k
         | Some p \<Rightarrow> set_rval (sint (p_pgrp (procs k p))) k)"

definition getuid :: "kern \<Rightarrow> kern" where
  "getuid k = set_rval (sint (u_ruid (u k))) k"

definition geteuid :: "kern \<Rightarrow> kern" where
  "geteuid k = set_rval (sint (u_uid (u k))) k"

definition getgid :: "kern \<Rightarrow> kern" where
  "getgid k = set_rval (sint (u_rgid (u k))) k"

definition getegid :: "kern \<Rightarrow> kern" where
  "getegid k = set_rval (sint (u_groups (u k) ! 0)) k"

text \<open>The number of entries up to the last that is not \<open>NOGROUP\<close>.\<close>

definition ngroups_used :: "32 word list \<Rightarrow> nat" where
  "ngroups_used gs = length (rev (dropWhile (\<lambda>g. g = NOGROUP) (rev gs)))"

definition getgroups :: "nat \<Rightarrow> nat \<Rightarrow> kern \<Rightarrow> kern" where
  "getgroups gidsetsize gidset k =
     (let n = ngroups_used (u_groups (u k))
      in if gidsetsize < n then set_error EINVAL k
         else let (k', e) = copyout (take n (u_groups (u k))) gidset k;
                  k' = set_error e k'
              in if e \<noteq> 0 then k' else set_rval (int n) k')"

definition groupmember :: "32 word \<Rightarrow> kern \<Rightarrow> bool" where
  "groupmember gid k = (gid \<in> set (takeWhile (\<lambda>g. g \<noteq> NOGROUP) (take NGROUPS (u_groups (u k)))))"

section \<open>Changing identities\<close>

definition setpgrp :: "int \<Rightarrow> int \<Rightarrow> kern \<Rightarrow> kern option" where
  "setpgrp pid pgrp k =
     (let pid = (if pid = 0 then sint (p_pid (curproc k)) else pid)
      in case pfind pid k of
           None \<Rightarrow> Some (set_error ESRCH k)
         | Some p \<Rightarrow>
             (let grant = upd_proc p (\<lambda>q. q\<lparr>p_pgrp := word_of_int pgrp\<rparr>) k
              in if scast (p_uid (procs k p)) \<noteq> u_uid (u k) \<and> u_uid (u k) \<noteq> 0 then
                   map_option (\<lambda>inf. if inf then grant else set_error EPERM k) (inferior p k)
                 else Some grant))"

definition setgroups :: "nat \<Rightarrow> nat \<Rightarrow> kern \<Rightarrow> kern" where
  "setgroups gidsetsize gidset k =
     (let (k, ok) = suser k
      in if \<not> ok then k
         else if gidsetsize > NGROUPS then set_error EINVAL k
         else case copyin gidset gidsetsize k of
                Inr e \<Rightarrow> set_error e k
              | Inl gs \<Rightarrow> k\<lparr>u := (u k)\<lparr>u_error := 0,
                             u_groups := gs @ replicate (NGROUPS - gidsetsize) NOGROUP\<rparr>\<rparr>)"

definition setuid :: "32 word \<Rightarrow> kern \<Rightarrow> kern" where
  "setuid uid k =
     (let (k', ok) = (if uid \<noteq> u_ruid (u k) then suser k else (k, True))
      in if \<not> ok then k'
         else let k' = upd_proc (u_procp (u k')) (\<lambda>p. p\<lparr>p_uid := ucast uid\<rparr>) k'
              in k'\<lparr>u := (u k')\<lparr>u_uid := uid, u_ruid := uid, u_svuid := uid, u_error := 0\<rparr>\<rparr>)"

definition seteuid :: "32 word \<Rightarrow> kern \<Rightarrow> kern" where
  "seteuid euid k =
     (let (k', ok) = (if euid \<noteq> u_ruid (u k) \<and> euid \<noteq> u_svuid (u k) then suser k else (k, True))
      in if \<not> ok then k' else k'\<lparr>u := (u k')\<lparr>u_uid := euid, u_error := 0\<rparr>\<rparr>)"

definition setgid :: "32 word \<Rightarrow> kern \<Rightarrow> kern" where
  "setgid gid k =
     (let (k', ok) = (if gid \<noteq> u_rgid (u k) then suser k else (k, True))
      in if \<not> ok then k'
         else k'\<lparr>u := (u k')\<lparr>u_groups := (u_groups (u k'))[0 := gid], u_rgid := gid, u_svgid := gid,
                             u_error := 0\<rparr>\<rparr>)"

definition setegid :: "32 word \<Rightarrow> kern \<Rightarrow> kern" where
  "setegid egid k =
     (let (k', ok) = (if egid \<noteq> u_rgid (u k) \<and> egid \<noteq> u_svgid (u k) then suser k else (k, True))
      in if \<not> ok then k' else k'\<lparr>u := (u k')\<lparr>u_groups := (u_groups (u k'))[0 := egid], u_error := 0\<rparr>\<rparr>)"

section \<open>Lemmas\<close>

lemma suser_simps [simp]:
  "u_uid (u k) = 0 \<Longrightarrow> suser k = (k, True)" "u_uid (u k) \<noteq> 0 \<Longrightarrow> suser k = (set_error EPERM k, False)"
  by (auto simp: suser_def)

text \<open>The calls that change the credentials of the running process.\<close>

datatype cred_op = Setuid "32 word" | Seteuid "32 word" | Setgid "32 word" | Setegid "32 word" | Setgroups nat nat

fun cred_call :: "cred_op \<Rightarrow> kern \<Rightarrow> kern" where
  "cred_call (Setuid w) k = setuid w k"
| "cred_call (Seteuid w) k = seteuid w k"
| "cred_call (Setgid w) k = setgid w k"
| "cred_call (Setegid w) k = setegid w k"
| "cred_call (Setgroups n a) k = setgroups n a k"

definition uids :: "kern \<Rightarrow> (32 word) set" where
  "uids k = {u_uid (u k), u_ruid (u k), u_svuid (u k)}"

definition gids :: "kern \<Rightarrow> (32 word) set" where
  "gids k = {u_groups (u k) ! 0, u_rgid (u k), u_svgid (u k)}"

lemma cred_call_unprivileged:
  assumes "0 \<notin> uids k"
  shows "uids (cred_call op k) \<subseteq> uids k" and "u_groups (u k) \<noteq> [] \<Longrightarrow> gids (cred_call op k) \<subseteq> gids k"
    and "tl (u_groups (u (cred_call op k))) = tl (u_groups (u k))"
  using assms
  by (cases op; cases "u_groups (u k)";
      auto simp: uids_def gids_def setuid_def seteuid_def setgid_def setegid_def setgroups_def Let_def split: if_splits)+

lemma cred_calls_unprivileged:
  assumes "0 \<notin> uids k"
  shows "uids (fold cred_call ops k) \<subseteq> uids k" and "u_groups (u k) \<noteq> [] \<Longrightarrow> gids (fold cred_call ops k) \<subseteq> gids k"
    and "tl (u_groups (u (fold cred_call ops k))) = tl (u_groups (u k))"
proof -
  have "uids (fold cred_call ops k) \<subseteq> uids k
      \<and> (u_groups (u k) \<noteq> [] \<longrightarrow> gids (fold cred_call ops k) \<subseteq> gids k \<and> u_groups (u (fold cred_call ops k)) \<noteq> [])
      \<and> tl (u_groups (u (fold cred_call ops k))) = tl (u_groups (u k))"
    using assms
  proof (induction ops arbitrary: k)
    case (Cons op ops)
    note s = cred_call_unprivileged [OF Cons.prems, of op]
    have ne: "u_groups (u (cred_call op k)) \<noteq> []" if "u_groups (u k) \<noteq> []"
      using that Cons.prems
      by (cases op) (auto simp: uids_def setuid_def seteuid_def setgid_def setegid_def setgroups_def Let_def)
    from s(1) Cons.prems have "0 \<notin> uids (cred_call op k)" by blast
    from Cons.IH [OF this] s ne show ?case by auto
  qed simp
  then show "uids (fold cred_call ops k) \<subseteq> uids k" "u_groups (u k) \<noteq> [] \<Longrightarrow> gids (fold cred_call ops k) \<subseteq> gids k"
    "tl (u_groups (u (fold cred_call ops k))) = tl (u_groups (u k))" by blast+
qed

text \<open>The process table and its hash chains: every live process is on the chain of its id, once.\<close>

definition pid_inv :: "kern \<Rightarrow> bool" where
  "pid_inv k \<longleftrightarrow> (\<forall>h. set (pidhash k h) = {p \<in> set (allproc k) \<union> set (zombproc k). PIDHASH (sint (p_pid (procs k p))) = h})
     \<and> inj_on (\<lambda>p. p_pid (procs k p)) (set (allproc k) \<union> set (zombproc k))"

lemma pfind_iff:
  assumes "pid_inv k"
  shows "pfind pid k = Some p \<longleftrightarrow> p \<in> set (allproc k) \<union> set (zombproc k) \<and> sint (p_pid (procs k p)) = pid"
proof -
  let ?live = "set (allproc k) \<union> set (zombproc k)"
  have uniq: "p = q" if "p \<in> ?live" "q \<in> ?live" "sint (p_pid (procs k p)) = sint (p_pid (procs k q))" for p q
    using assms that by (auto simp: pid_inv_def inj_on_def signed_word_eqI)
  have chain: "q \<in> set (pidhash k (PIDHASH pid)) \<longleftrightarrow> q \<in> ?live \<and> PIDHASH (sint (p_pid (procs k q))) = PIDHASH pid" for q
    using assms by (auto simp: pid_inv_def)
  show ?thesis
  proof
    assume "pfind pid k = Some p"
    then have "p \<in> set (pidhash k (PIDHASH pid))" "sint (p_pid (procs k p)) = pid"
      by (auto simp: pfind_def find_Some_iff)
    then show "p \<in> ?live \<and> sint (p_pid (procs k p)) = pid" using chain by blast
  next
    assume a: "p \<in> ?live \<and> sint (p_pid (procs k p)) = pid"
    then have "p \<in> set (pidhash k (PIDHASH pid))" using chain by simp
    then obtain q where q: "pfind pid k = Some q"
      using a by (cases "pfind pid k") (auto simp: pfind_def find_None_iff)
    then have "q \<in> set (pidhash k (PIDHASH pid))" "sint (p_pid (procs k q)) = pid"
      by (auto simp: pfind_def find_Some_iff)
    with uniq a chain q show "pfind pid k = Some p" by metis
  qed
qed

lemma ngroups_used_snoc: "g \<noteq> NOGROUP \<Longrightarrow> ngroups_used (gs @ [g] @ replicate n NOGROUP) = length gs + 1"
  by (simp add: ngroups_used_def dropWhile_append)

section \<open>Properties\<close>

text \<open>
  C20. No privilege escalation: a process none of whose effective, real and saved user ids is 0
  cannot, by any sequence of \<open>setuid\<close>, \<open>seteuid\<close>, \<open>setgid\<close>, \<open>setegid\<close> and \<open>setgroups\<close> calls, come to hold a
  user or group id it did not hold before, and its supplementary groups stay what they were.
\<close>

theorem credentials_never_grow:
  assumes "0 \<notin> uids k" and "u_groups (u k) \<noteq> []"
  shows "uids (fold cred_call ops k) \<subseteq> uids k \<and> gids (fold cred_call ops k) \<subseteq> gids k
     \<and> tl (u_groups (u (fold cred_call ops k))) = tl (u_groups (u k))"
  using cred_calls_unprivileged [OF assms(1), of ops] assms(2) by blast

theorem credentials_never_grow_witness:
  "\<exists>k. 0 \<notin> uids k \<and> uids (fold cred_call [Seteuid 7, Setuid 0, Setgroups 1 64] k) \<subseteq> {5, 7}
     \<and> tl (u_groups (u (fold cred_call [Seteuid 7, Setuid 0, Setgroups 1 64] k))) = [65535]"
proof -
  define k :: kern where "k = undefined\<lparr>u := undefined\<lparr>u_uid := 5, u_ruid := 5, u_svuid := 7, u_groups := [10, 65535]\<rparr>\<rparr>"
  have "0 \<notin> uids k" "u_groups (u k) \<noteq> []" "uids k = {5, 7}" "tl (u_groups (u k)) = [65535]"
    by (auto simp: uids_def k_def)
  with credentials_never_grow [of k "[Seteuid 7, Setuid 0, Setgroups 1 64]"] show ?thesis by metis
qed

text \<open>
  Under the invariant that every process on \<open>allproc\<close> or \<open>zombproc\<close> is on the hash chain of its id and
  that ids are unique, \<open>pfind\<close> finds exactly the process with the id asked for, and nothing when
  there is none.
\<close>

theorem pfind_correct:
  assumes "pid_inv k"
  shows "(pfind pid k = Some p \<longleftrightarrow> p \<in> set (allproc k) \<union> set (zombproc k) \<and> sint (p_pid (procs k p)) = pid)
     \<and> (pfind pid k = None \<longleftrightarrow> pid \<notin> (\<lambda>p. sint (p_pid (procs k p))) ` (set (allproc k) \<union> set (zombproc k)))"
proof (intro conjI)
  show "pfind pid k = None \<longleftrightarrow> pid \<notin> (\<lambda>p. sint (p_pid (procs k p))) ` (set (allproc k) \<union> set (zombproc k))"
    using pfind_iff [OF assms, of pid] by (metis (no_types, lifting) image_iff not_None_eq)
qed (rule pfind_iff [OF assms])

theorem pfind_correct_witness:
  "\<exists>k. pid_inv k \<and> pfind 5 k = Some 0 \<and> pfind 6 k = None"
proof -
  define k :: kern where "k = undefined\<lparr>allproc := [0], zombproc := [], procs := (\<lambda>_. undefined\<lparr>p_pid := 5\<rparr>),
    pidhash := (\<lambda>h. if h = 5 then [0] else [])\<rparr>"
  have inv: "pid_inv k" by (auto simp: pid_inv_def k_def PIDHASH_def)
  have "pfind 5 k = Some 0" using pfind_correct [OF inv, of 5 0] by (auto simp: k_def)
  moreover have "pfind 6 k = None" using pfind_correct [OF inv, of 6] by (auto simp: k_def)
  ultimately show ?thesis using inv by blast
qed

text \<open>
  Group set round trip: the group ids that the super-user installs with \<open>setgroups\<close> from user
  memory are those \<open>getgroups\<close> stores back, with their number as its result, when the last of them is
  not the end marker.
\<close>

theorem groups_roundtrip:
  assumes "u_uid (u k) = 0" and "n \<le> NGROUPS" and "copyin gidset n k = Inl gs" and "gs \<noteq> []"
    and "last gs \<noteq> NOGROUP" and "n \<le> m" and "\<not> ubad k buf" and "\<not> ubad k (last_byte buf (4 * n))"
  shows "u_rval (u (getgroups m buf (setgroups n gidset k))) = int n
     \<and> u_error (u (getgroups m buf (setgroups n gidset k))) = 0
     \<and> copyin buf n (getgroups m buf (setgroups n gidset k)) = Inl gs"
proof -
  let ?k = "setgroups n gidset k"
  have len: "length gs = n" using assms(3) by (auto simp: copyin_def load_words_def split: if_splits)
  have k': "u_groups (u ?k) = gs @ replicate (NGROUPS - n) NOGROUP" "ubad ?k = ubad k"
    using assms(1-3) by (auto simp: setgroups_def)
  obtain hs g where gs: "gs = hs @ [g]" using assms(4) by (cases gs rule: rev_cases) auto
  then have used: "ngroups_used (u_groups (u ?k)) = n"
    using ngroups_used_snoc [of g hs "NGROUPS - n"] assms(5) k'(1) len by simp
  obtain k2 e where c: "copyout gs buf ?k = (k2, e)" by fastforce
  with assms(7,8) k'(2) len have "e = 0" by (auto simp: copyout_def split: if_splits)
  moreover have "getgroups m buf ?k = (if e \<noteq> 0 then set_error e k2 else set_rval (int n) (set_error e k2))"
    using used assms(6) c len k'(1) by (simp add: getgroups_def Let_def)
  ultimately have g: "getgroups m buf ?k = set_rval (int n) (set_error 0 k2)" by simp
  have "copyin buf n k2 = Inl gs" using copyout_copyin(1) c \<open>e = 0\<close> len by blast
  with g show ?thesis by simp
qed

theorem groups_roundtrip_witness:
  "\<exists>k. u_rval (u (getgroups 16 64 (setgroups 1 32 k))) = 1 \<and> copyin 64 1 (getgroups 16 64 (setgroups 1 32 k)) = Inl [0]"
proof -
  define k :: kern where "k = undefined\<lparr>u := undefined\<lparr>u_uid := 0\<rparr>, umem := (\<lambda>_. 0), ubad := (\<lambda>_. False)\<rparr>"
  have "copyin 32 1 k = Inl [0]" by (simp add: copyin_def load_words_def word_at_def k_def)
  with groups_roundtrip [of k 1 32 "[0]" 16 64] show ?thesis by (auto simp: k_def)
qed

end
