(* ===== verification/Resource.thy ===== *)
theory Resource
  imports Prot
begin

text \<open>
  Scheduling priorities, resource limits and resource accounting: \<^verbatim>\<open>sys/kern/kern_resource.c\<close>.
\<close>

abbreviation (input) PRIO_MIN :: int where "PRIO_MIN \<equiv> - 20"
abbreviation (input) PRIO_MAX :: int where "PRIO_MAX \<equiv> 20"
abbreviation (input) PRIO_PROCESS :: int where "PRIO_PROCESS \<equiv> 0"
abbreviation (input) PRIO_PGRP :: int where "PRIO_PGRP \<equiv> 1"
abbreviation (input) PRIO_USER :: int where "PRIO_USER \<equiv> 2"
abbreviation (input) RLIM_NLIMITS :: nat where "RLIM_NLIMITS \<equiv> 6"
abbreviation (input) RLIMIT_CPU :: nat where "RLIMIT_CPU \<equiv> 0"
abbreviation (input) RLIM_INFINITY :: int where "RLIM_INFINITY \<equiv> 0x7fffffff"

text \<open>The processes a \<open>which\<close>/\<open>who\<close> pair selects; \<open>None\<close> for a bad \<open>which\<close>.\<close>

definition prio_targets :: "int \<Rightarrow> int \<Rightarrow> kern \<Rightarrow> nat list option" where
  "prio_targets which who k =
     (if which = PRIO_PROCESS then
        Some (if who = 0 then [u_procp (u k)] else case pfind who k of None \<Rightarrow> [] | Some p \<Rightarrow> [p])
      else if which = PRIO_PGRP then
        (let who = (if who = 0 then sint (p_pgrp (curproc k)) else who)
         in Some (filter (\<lambda>p. sint (p_pgrp (procs k p)) = who) (allproc k)))
      else if which = PRIO_USER then
        (let who = (if who = 0 then sint (u_uid (u k)) else who)
         in Some (filter (\<lambda>p. sint (p_uid (procs k p)) = who) (allproc k)))
      else None)"

definition getpriority :: "int \<Rightarrow> int \<Rightarrow> kern \<Rightarrow> kern" where
  "getpriority which who k =
     (case prio_targets which who k of
        None \<Rightarrow> set_error EINVAL k
      | Some ps \<Rightarrow>
          (let low = (if which = PRIO_PROCESS
                      then (case ps of [] \<Rightarrow> PRIO_MAX + 1 | p # _ \<Rightarrow> p_nice (procs k p))
                      else fold (\<lambda>p low. if p_nice (procs k p) < low then p_nice (procs k p) else low) ps (PRIO_MAX + 1))
           in if low = PRIO_MAX + 1 then set_error ESRCH k else set_rval low k))"

definition donice :: "int \<Rightarrow> nat \<Rightarrow> kern \<Rightarrow> kern" where
  "donice n p k =
     (if u_uid (u k) \<noteq> 0 \<and> u_ruid (u k) \<noteq> 0
         \<and> u_uid (u k) \<noteq> scast (p_uid (procs k p)) \<and> u_ruid (u k) \<noteq> scast (p_uid (procs k p))
      then set_error EPERM k
      else
        let n = (if n > PRIO_MAX then PRIO_MAX else n);
            n = (if n < PRIO_MIN then PRIO_MIN else n);
            (k', ok) = (if n < p_nice (procs k p) then suser k else (k, True))
        in if \<not> ok then set_error EACCES k'
           else upd_proc p (\<lambda>q. q\<lparr>p_nice := to_char k n\<rparr>) k')"

definition setpriority :: "int \<Rightarrow> int \<Rightarrow> int \<Rightarrow> kern \<Rightarrow> kern" where
  "setpriority which who prio k =
     (case prio_targets which who k of
        None \<Rightarrow> set_error EINVAL k
      | Some ps \<Rightarrow> (let k' = fold (donice prio) ps k in if ps = [] then set_error ESRCH k' else k'))"

section \<open>Limits\<close>

text \<open>\<^verbatim>\<open>long\<close> arithmetic is 32 bits wide.\<close>

definition long :: "int \<Rightarrow> int" where
  "long x = sint (word_of_int x :: 32 word)"

text \<open>CPU limits are kept in ticks.\<close>

definition cpu_ticks :: "int \<Rightarrow> kern \<Rightarrow> int" where
  "cpu_ticks x k = (if x \<ge> c_div RLIM_INFINITY (hz k) then RLIM_INFINITY else long (x * hz k))"

definition cpu_secs :: "int \<Rightarrow> kern \<Rightarrow> int" where
  "cpu_secs x k = (if x \<noteq> RLIM_INFINITY then c_div x (hz k) else x)"

definition setrlimit :: "nat \<Rightarrow> nat \<Rightarrow> kern \<Rightarrow> kern" where
  "setrlimit which lim k =
     (if which \<ge> RLIM_NLIMITS then set_error EINVAL k
      else case copyin lim 2 k of
        Inr e \<Rightarrow> set_error e k
      | Inl ws \<Rightarrow>
          let k = set_error 0 k;
              old = u_rlimit (u k) which;
              cur = sint (ws ! 0); mx = sint (ws ! 1);
              alim = (if which = RLIMIT_CPU
                      then \<lparr>rlim_cur = cpu_ticks cur k, rlim_max = cpu_ticks mx k\<rparr>
                      else \<lparr>rlim_cur = cur, rlim_max = mx\<rparr>);
              (k', ok) = (if rlim_cur alim > rlim_max old \<or> rlim_max alim > rlim_max old
                          then suser k else (k, True))
          in if \<not> ok then k'
             else k'\<lparr>u := (u k')\<lparr>u_rlimit := (u_rlimit (u k'))(which := alim)\<rparr>\<rparr>)"

definition getrlimit :: "nat \<Rightarrow> nat \<Rightarrow> kern \<Rightarrow> kern" where
  "getrlimit which rlp k =
     (if which \<ge> RLIM_NLIMITS then set_error EINVAL k
      else
        let l = u_rlimit (u k) which;
            (k', e) = (if which = RLIMIT_CPU
                       then copyout [word_of_int (cpu_secs (rlim_cur l) k), word_of_int (cpu_secs (rlim_max l) k)] rlp k
                       else copyout [word_of_int (rlim_cur l), word_of_int (rlim_max l)] rlp k)
        in set_error e k')"

section \<open>Accounting\<close>

record rusage =
  r_utime :: timeval
  r_stime :: timeval
  r_maxrss :: int
  r_ixrss :: int
  r_idrss :: int
  r_isrss :: int
  r_minflt :: int
  r_majflt :: int
  r_nswap :: int
  r_inblock :: int
  r_oublock :: int
  r_msgsnd :: int
  r_msgrcv :: int
  r_nsignals :: int
  r_nvcsw :: int
  r_nivcsw :: int

definition tick_time :: "int \<Rightarrow> kern \<Rightarrow> timeval" where
  "tick_time t k = \<lparr>tv_sec = c_div t (hz k), tv_usec = long (c_mod t (hz k) * usechz k)\<rparr>"

definition rucvt :: "k_rusage \<Rightarrow> kern \<Rightarrow> rusage" where
  "rucvt kr k =
     \<lparr>r_utime = tick_time (ru_utime kr) k, r_stime = tick_time (ru_stime kr) k,
      r_maxrss = 0, r_ixrss = 0, r_idrss = 0, r_isrss = 0, r_minflt = 0, r_majflt = 0,
      r_nswap = ru_nswap kr, r_inblock = ru_inblock kr, r_oublock = ru_oublock kr,
      r_msgsnd = ru_msgsnd kr, r_msgrcv = ru_msgrcv kr, r_nsignals = ru_nsignals kr,
      r_nvcsw = ru_nvcsw kr, r_nivcsw = ru_nivcsw kr\<rparr>"

definition rusage_words :: "rusage \<Rightarrow> 32 word list" where
  "rusage_words r = map word_of_int
     [tv_sec (r_utime r), tv_usec (r_utime r), tv_sec (r_stime r), tv_usec (r_stime r),
      r_maxrss r, r_ixrss r, r_idrss r, r_isrss r, r_minflt r, r_majflt r, r_nswap r, r_inblock r,
      r_oublock r, r_msgsnd r, r_msgrcv r, r_nsignals r, r_nvcsw r, r_nivcsw r]"

definition getrusage :: "int \<Rightarrow> nat \<Rightarrow> kern \<Rightarrow> kern" where
  "getrusage who rusage k =
     (if who \<noteq> 0 \<and> who \<noteq> - 1 then set_error EINVAL k
      else
        let rup = (if who = 0 then u_ru (u k) else u_cru (u k));
            (k', e) = copyout (rusage_words (rucvt rup k)) rusage k
        in set_error e k')"

definition ruadd :: "k_rusage \<Rightarrow> k_rusage \<Rightarrow> k_rusage" where
  "ruadd r s =
     \<lparr>ru_utime = long (ru_utime r + ru_utime s), ru_stime = long (ru_stime r + ru_stime s),
      ru_nswap = long (ru_nswap r + ru_nswap s), ru_inblock = long (ru_inblock r + ru_inblock s),
      ru_oublock = long (ru_oublock r + ru_oublock s), ru_msgsnd = long (ru_msgsnd r + ru_msgsnd s),
      ru_msgrcv = long (ru_msgrcv r + ru_msgrcv s), ru_nsignals = long (ru_nsignals r + ru_nsignals s),
      ru_nvcsw = long (ru_nvcsw r + ru_nvcsw s), ru_nivcsw = long (ru_nivcsw r + ru_nivcsw s)\<rparr>"

section \<open>Lemmas\<close>

lemma long_id: "- (2 ^ 31) \<le> x \<Longrightarrow> x < 2 ^ 31 \<Longrightarrow> long x = x"
  unfolding long_def int_word_sint by simp

lemma long_range: "- (2 ^ 31) \<le> long x \<and> long x < 2 ^ 31"
  unfolding long_def using sint_range_size [of "word_of_int x :: 32 word"] by (simp add: word_size)

lemma div_by_le: "0 < h \<Longrightarrow> 0 \<le> a \<Longrightarrow> a div h \<le> (a :: int)"
  using zdiv_mono2 [of a 1 h] by simp

lemma word_of_sint [simp]: "word_of_int (sint (w :: 'a::len word)) = w"
  by simp

text \<open>Sums may be wrapped once, at the end.\<close>

lemma long_add [simp]: "long (long a + b) = long (a + b)" "long (a + long b) = long (a + b)" "long (long a) = long a"
  "(word_of_int (long a) :: 32 word) = word_of_int a"
  by (simp_all add: long_def)

text \<open>A process the running one may act on, and what \<open>donice\<close> does to it.\<close>

definition may_nice :: "kern \<Rightarrow> nat \<Rightarrow> bool" where
  "may_nice k p \<longleftrightarrow> u_uid (u k) = 0 \<or> u_ruid (u k) = 0 \<or> u_uid (u k) = scast (p_uid (procs k p))
     \<or> u_ruid (u k) = scast (p_uid (procs k p))"

definition clamp_nice :: "int \<Rightarrow> int" where
  "clamp_nice n = max PRIO_MIN (min PRIO_MAX n)"

text \<open>The identities that decide about permission are not touched by \<open>donice\<close>.\<close>

definition nice_frame :: "kern \<Rightarrow> kern \<Rightarrow> bool" where
  "nice_frame k k' \<longleftrightarrow> char_signed k' = char_signed k \<and> u_uid (u k') = u_uid (u k) \<and> u_ruid (u k') = u_ruid (u k)
     \<and> (\<forall>q. p_uid (procs k' q) = p_uid (procs k q))"

lemma donice_frame: "nice_frame k (donice n p k)"
  by (auto simp: nice_frame_def donice_def Let_def suser_def)

lemma donice_nice:
  "p_nice (procs (donice n p k) q) =
     (if q = p \<and> may_nice k p \<and> (u_uid (u k) = 0 \<or> p_nice (procs k p) \<le> clamp_nice n) then to_char k (clamp_nice n)
      else p_nice (procs k q))"
  by (auto simp: donice_def may_nice_def clamp_nice_def Let_def suser_def)

text \<open>A nice value stored in a \<^verbatim>\<open>char\<close> comes back as it is, or larger.\<close>

lemma clamp_char: "to_char k (clamp_nice n) \<le> clamp_nice n \<Longrightarrow> to_char k (clamp_nice n) = clamp_nice n"
proof -
  have r: "- 20 \<le> clamp_nice n" "clamp_nice n \<le> 20" by (auto simp: clamp_nice_def)
  assume "to_char k (clamp_nice n) \<le> clamp_nice n"
  with r to_char_id [of "clamp_nice n" k] to_char_signed [of k "clamp_nice n"] to_char_unsigned [of k "clamp_nice n"]
  show ?thesis by (cases "clamp_nice n < 0"; cases "char_signed k") auto
qed

lemma donice_fold:
  "nice_frame k (fold (donice n) ps k)
   \<and> p_nice (procs (fold (donice n) ps k) q) =
     (if q \<in> set ps \<and> may_nice k q \<and> (u_uid (u k) = 0 \<or> p_nice (procs k q) \<le> clamp_nice n) then to_char k (clamp_nice n)
      else p_nice (procs k q))"
proof (induction ps arbitrary: k)
  case (Cons p ps)
  let ?k = "donice n p k"
  have f: "nice_frame k ?k" by (rule donice_frame)
  then have tc: "to_char ?k = to_char k" by (simp add: nice_frame_def to_char_def fun_eq_iff)
  from f have m: "may_nice ?k q = may_nice k q" "u_uid (u ?k) = u_uid (u k)" for q by (auto simp: may_nice_def nice_frame_def)
  from Cons.IH [of ?k] have "nice_frame ?k (fold (donice n) ps ?k)" by blast
  with f have "nice_frame k (fold (donice n) ps ?k)" by (simp add: nice_frame_def)
  moreover have "p_nice (procs (fold (donice n) ps ?k) q) =
     (if q \<in> set (p # ps) \<and> may_nice k q \<and> (u_uid (u k) = 0 \<or> p_nice (procs k q) \<le> clamp_nice n) then to_char k (clamp_nice n)
      else p_nice (procs k q))"
    using Cons.IH [of ?k] m donice_nice [of n p k q] tc clamp_char [of k n] by auto
  ultimately show ?case by simp
qed (simp add: nice_frame_def)

section \<open>Properties\<close>

text \<open>
  \<open>setpriority\<close> stores into the nice value of every selected process the caller may act on the
  requested value clamped to [-20, 20] (as the plain \<^verbatim>\<open>char\<close> it is kept in represents it), except that a caller that is not the super-user cannot
  lower it; all other processes keep theirs.
\<close>

theorem setpriority_effect:
  assumes "prio_targets which who k = Some ps"
  shows "p_nice (procs (setpriority which who prio k) q) =
     (if q \<in> set ps \<and> may_nice k q \<and> (u_uid (u k) = 0 \<or> p_nice (procs k q) \<le> clamp_nice prio)
      then to_char k (clamp_nice prio) else p_nice (procs k q))"
  using donice_fold [where k = k and ps = ps and n = prio and q = q] assms by (auto simp: setpriority_def Let_def)

theorem setpriority_effect_witness:
  "\<exists>k. prio_targets 0 0 k = Some [3] \<and> u_uid (u k) = 9 \<and> p_nice (procs (setpriority 0 0 (- 5) k) 3) = 0
     \<and> p_nice (procs (setpriority 0 0 30 k) 3) = 20"
proof -
  define k :: kern where "k = undefined\<lparr>u := undefined\<lparr>u_uid := 9, u_ruid := 9, u_procp := 3\<rparr>,
    procs := (\<lambda>_. undefined\<lparr>p_uid := 9, p_nice := 0\<rparr>)\<rparr>"
  have t: "prio_targets 0 0 k = Some [3]" by (simp add: prio_targets_def k_def)
  show ?thesis using setpriority_effect [OF t, of "- 5" 3] setpriority_effect [OF t, of 30 3] t
    by (intro exI [of _ k]) (simp add: may_nice_def clamp_nice_def to_char_id k_def)
qed

text \<open>
  C21. A process that is not the super-user can neither raise a hard limit nor set a soft limit above
  its hard limit, whatever it asks for and whichever limit it names.
\<close>

theorem setrlimit_hard_limit:
  assumes "u_uid (u k) \<noteq> 0" and "\<forall>r. rlim_cur (u_rlimit (u k) r) \<le> rlim_max (u_rlimit (u k) r)"
  shows "rlim_max (u_rlimit (u (setrlimit which lim k)) r) \<le> rlim_max (u_rlimit (u k) r)
     \<and> rlim_cur (u_rlimit (u (setrlimit which lim k)) r) \<le> rlim_max (u_rlimit (u k) r)"
  using assms by (auto simp: setrlimit_def Let_def split: sum.splits if_splits)

theorem setrlimit_hard_limit_witness:
  "\<exists>k. u_uid (u k) = 7 \<and> rlim_max (u_rlimit (u (setrlimit 2 64 k)) 2) \<le> 10"
proof -
  define k :: kern where "k = undefined\<lparr>u := undefined\<lparr>u_uid := 7, u_rlimit := (\<lambda>_. \<lparr>rlim_cur = 5, rlim_max = 10\<rparr>)\<rparr>\<rparr>"
  have "u_uid (u k) \<noteq> 0" "\<forall>r. rlim_cur (u_rlimit (u k) r) \<le> rlim_max (u_rlimit (u k) r)"
    by (simp_all add: k_def)
  from setrlimit_hard_limit [OF this, of 2 64 2] show ?thesis by (intro exI [of _ k]) (simp add: k_def)
qed

text \<open>
  Limit round trip: what a permitted \<open>setrlimit\<close> reads from user memory, \<open>getrlimit\<close> stores back
  unchanged, for every limit; for the CPU limit, which is kept in ticks, this holds for values that
  fit after the conversion and for the value that means no limit.
\<close>

theorem rlimit_roundtrip:
  assumes "which < RLIM_NLIMITS" and "0 < hz k" and "hz k \<le> RLIM_INFINITY" and "copyin lim 2 k = Inl [wc, wm]"
    and "u_uid (u k) = 0" and "\<not> ubad k rlp" and "\<not> ubad k (last_byte rlp 8)"
    and "which = RLIMIT_CPU \<longrightarrow> (\<forall>w\<in>{wc, wm}. sint w = RLIM_INFINITY \<or> 0 \<le> sint w \<and> sint w < RLIM_INFINITY div hz k)"
  shows "copyin rlp 2 (getrlimit which rlp (setrlimit which lim k)) = Inl [wc, wm]"
proof -
  let ?k = "setrlimit which lim k"
  define l where "l = (if which = RLIMIT_CPU then \<lparr>rlim_cur = cpu_ticks (sint wc) k, rlim_max = cpu_ticks (sint wm) k\<rparr>
     else \<lparr>rlim_cur = sint wc, rlim_max = sint wm\<rparr>)"
  have k': "setrlimit which lim k = k\<lparr>u := (u k)\<lparr>u_error := 0, u_rlimit := (u_rlimit (u k))(which := l)\<rparr>\<rparr>"
    using assms(1,4,5) by (simp add: setrlimit_def Let_def l_def cpu_ticks_def)
  have conv: "word_of_int (cpu_secs (cpu_ticks (sint w) k) k) = w"
    if "sint w = RLIM_INFINITY \<or> 0 \<le> sint w \<and> sint w < RLIM_INFINITY div hz k" for w :: "32 word"
  proof (cases "sint w = RLIM_INFINITY")
    case True
    have "RLIM_INFINITY \<ge> c_div RLIM_INFINITY (hz k)" using assms(2)
      by (simp add: c_div_nonneg div_by_le)
    then have a: "cpu_ticks (sint w) k = RLIM_INFINITY" using True by (simp add: cpu_ticks_def)
    have b: "cpu_secs RLIM_INFINITY k = sint w" using True by (simp add: cpu_secs_def)
    show ?thesis unfolding a b by (rule word_of_sint)
  next
    case False
    with that have b: "0 \<le> sint w" "sint w < RLIM_INFINITY div hz k" by auto
    have "sint w * hz k \<le> (RLIM_INFINITY div hz k - 1) * hz k" using b(2) assms(2) by (intro mult_right_mono) auto
    also have "\<dots> = RLIM_INFINITY div hz k * hz k - hz k" by (simp add: algebra_simps)
    also have "\<dots> \<le> RLIM_INFINITY - hz k" using div_mult_mod_eq [of RLIM_INFINITY "hz k"] pos_mod_sign [OF assms(2), of RLIM_INFINITY] by linarith
    finally have m: "sint w * hz k < RLIM_INFINITY" using assms(2) by linarith
    have m0: "0 \<le> sint w * hz k" using b(1) assms(2) by simp
    have lg: "long (sint w * hz k) = sint w * hz k" using m m0 by (intro long_id) auto
    have "cpu_ticks (sint w) k = sint w * hz k" using b(2) assms(2) lg by (simp add: cpu_ticks_def c_div_nonneg)
    moreover have "cpu_secs (sint w * hz k) k = sint w" using m m0 assms(2) by (simp add: cpu_secs_def c_div_nonneg)
    ultimately show ?thesis by simp
  qed
  have out: "getrlimit which rlp ?k = (let (k2, e) = copyout [wc, wm] rlp ?k in set_error e k2)"
  proof (cases "which = RLIMIT_CPU")
    case True
    then have "l = \<lparr>rlim_cur = cpu_ticks (sint wc) k, rlim_max = cpu_ticks (sint wm) k\<rparr>" by (simp add: l_def)
    then have l': "u_rlimit (u ?k) which = l" "hz ?k = hz k" "l = \<lparr>rlim_cur = cpu_ticks (sint wc) k, rlim_max = cpu_ticks (sint wm) k\<rparr>"
      unfolding k' by simp_all
    have "cpu_secs x ?k = cpu_secs x k" for x by (simp add: cpu_secs_def l'(2))
    with True conv assms(1,8) l' show ?thesis by (simp add: getrlimit_def Let_def)
  next
    case False
    with assms(1) show ?thesis by (simp add: getrlimit_def Let_def k' l_def)
  qed
  obtain k2 e where c: "copyout [wc, wm] rlp ?k = (k2, e)" by fastforce
  with assms(6,7) k' have "e = 0" by (auto simp: copyout_def split: if_splits)
  with c copyout_copyin(1) [of "[wc, wm]" rlp ?k k2] out show ?thesis by (simp add: numeral_2_eq_2)
qed

theorem rlimit_roundtrip_witness:
  "\<exists>k. u_uid (u k) = 0 \<and> copyin 64 2 (getrlimit 0 64 (setrlimit 0 32 k)) = Inl [0, 0]"
proof -
  define k :: kern where "k = undefined\<lparr>u := undefined\<lparr>u_uid := 0\<rparr>, hz := 1000, umem := (\<lambda>_. 0), ubad := (\<lambda>_. False)\<rparr>"
  have "copyin 32 2 k = Inl [0, 0]" by (simp add: copyin_def load_words_def word_at_def k_def numeral_2_eq_2)
  with rlimit_roundtrip [of 0 k 32 0 0 64] show ?thesis by (intro exI [of _ k]) (simp add: k_def)
qed

text \<open>
  Accounting: for a usage counter of \<open>t\<close> ticks, \<open>rucvt\<close> reports a time whose microseconds are less
  than a second, and which is \<open>t\<close> ticks exactly; and \<open>ruadd\<close> of two usages adds their times as long as
  the sums fit in a \<^verbatim>\<open>long\<close>.
\<close>

theorem rusage_time_exact:
  assumes "0 < hz k" and "hz k * usechz k \<le> 1000000" and "0 < usechz k" and "0 \<le> ru_utime r" and "0 \<le> ru_utime s"
    and "ru_utime r + ru_utime s < 2 ^ 31"
  shows "(let t = r_utime (rucvt (ruadd r s) k) in 0 \<le> tv_usec t \<and> tv_usec t < 1000000
     \<and> tv_sec t * hz k * usechz k + tv_usec t = (ru_utime r + ru_utime s) * usechz k)"
proof -
  let ?t = "ru_utime r + ru_utime s"
  have t: "ru_utime (ruadd r s) = ?t" using assms(4-6) by (simp add: ruadd_def long_id)
  have m: "c_mod ?t (hz k) = ?t mod hz k" "c_div ?t (hz k) = ?t div hz k"
    using assms(1,4,5) by (auto simp: c_mod_nonneg c_div_nonneg)
  have rng: "0 \<le> ?t mod hz k" "?t mod hz k < hz k" using assms(1) by auto
  have b: "?t mod hz k * usechz k < hz k * usechz k" using rng(2) assms(3) by simp
  have l: "long (?t mod hz k * usechz k) = ?t mod hz k * usechz k"
  proof (rule long_id)
    show "- (2 ^ 31) \<le> ?t mod hz k * usechz k" using mult_nonneg_nonneg [OF rng(1) less_imp_le [OF assms(3)]] by simp
    show "?t mod hz k * usechz k < 2 ^ 31" using less_le_trans [OF b assms(2)] by simp
  qed
  have "?t div hz k * hz k * usechz k + ?t mod hz k * usechz k = ?t * usechz k"
    by (metis distrib_right div_mult_mod_eq)
  then show ?thesis using t m l less_le_trans [OF b assms(2)] rng(1) assms(3) by (simp add: rucvt_def tick_time_def Let_def)
qed

theorem rusage_time_exact_witness:
  "\<exists>k r s. let t = r_utime (rucvt (ruadd r s) k) in tv_usec t < 1000000 \<and> tv_sec t * 1000 * 1000 + tv_usec t = 2500 * 1000"
proof -
  define k :: kern where "k = undefined\<lparr>hz := 1000, usechz := 1000\<rparr>"
  define r :: k_rusage where "r = undefined\<lparr>ru_utime := 1250\<rparr>"
  from rusage_time_exact [of k r r] show ?thesis
    by (intro exI [of _ k] exI [of _ r]) (simp add: k_def r_def Let_def)
qed

end
