(* ===== verification/Ktime.thy ===== *)
theory Ktime
  imports Resource
begin

text \<open>
  Time of day and interval timers: \<^verbatim>\<open>sys/kern/kern_time.c\<close>. The clock is \<open>time\<close> (seconds) and \<open>lbolt\<close>
  (ticks within the second).
\<close>

abbreviation (input) ITIMER_REAL :: nat where "ITIMER_REAL \<equiv> 0"
abbreviation (input) ITIMER_VIRTUAL :: nat where "ITIMER_VIRTUAL \<equiv> 1"
abbreviation (input) ITIMER_PROF :: nat where "ITIMER_PROF \<equiv> 2"

definition tv_words :: "timeval \<Rightarrow> 32 word list" where
  "tv_words t = [word_of_int (tv_sec t), word_of_int (tv_usec t)]"

definition words_tv :: "32 word list \<Rightarrow> timeval" where
  "words_tv ws = \<lparr>tv_sec = sint (ws ! 0), tv_usec = sint (ws ! 1)\<rparr>"

record itimerval =
  itv_interval :: timeval
  itv_value :: timeval

definition itv_words :: "itimerval \<Rightarrow> 32 word list" where
  "itv_words t = tv_words (itv_interval t) @ tv_words (itv_value t)"

definition words_itv :: "32 word list \<Rightarrow> itimerval" where
  "words_itv ws = \<lparr>itv_interval = words_tv (take 2 ws), itv_value = words_tv (drop 2 ws)\<rparr>"

section \<open>The time of day\<close>

definition setthetime :: "timeval \<Rightarrow> kern \<Rightarrow> kern" where
  "setthetime tv k =
     (let (k, ok) = suser k
      in if \<not> ok then k
         else k\<lparr>boottime := (boottime k)\<lparr>tv_sec := long (tv_sec (boottime k) + (tv_sec tv - tv_sec (time k)))\<rparr>,
                time := tv, lbolt := c_div (tv_usec tv) (usechz k), rtc := Some tv\<rparr>)"

definition gettimeofday :: "nat \<Rightarrow> nat \<Rightarrow> kern \<Rightarrow> kern" where
  "gettimeofday tp tzp k =
     (let zone = (\<lambda>k. if tzp = 0 then k
                  else let (k', e) = copyout [word_of_int (tz_minuteswest (tz k)), word_of_int (tz_dsttime (tz k))] tzp k
                       in set_error e k')
      in if tp = 0 then zone k
         else let (k', e) = copyout (tv_words ((time k)\<lparr>tv_usec := long (lbolt k * usechz k)\<rparr>)) tp k;
                  k' = set_error e k'
              in if e \<noteq> 0 then k' else zone k')"

definition settimeofday :: "nat \<Rightarrow> nat \<Rightarrow> kern \<Rightarrow> kern" where
  "settimeofday tv tzp k =
     (let zone = (\<lambda>k. if tzp = 0 then k
                  else let (k', ok) = suser k
                       in if \<not> ok then k'
                          else case copyin tzp 2 k' of
                                 Inr e \<Rightarrow> set_error e k'
                               | Inl ws \<Rightarrow> (set_error 0 k')\<lparr>tz := \<lparr>tz_minuteswest = sint (ws ! 0), tz_dsttime = sint (ws ! 1)\<rparr>\<rparr>)
      in if tv = 0 then zone k
         else case copyin tv 2 k of
                Inr e \<Rightarrow> set_error e k
              | Inl ws \<Rightarrow> (let k' = setthetime (words_tv ws) (set_error 0 k)
                          in if u_error (u k') \<noteq> 0 then k' else zone k'))"

text \<open>The loop \<^verbatim>\<open>while (lbolt >= hz)\<close>; it ends only when \<open>hz\<close> is positive or \<open>lbolt\<close> is below it.\<close>

partial_function (option) adj_carry :: "int \<Rightarrow> int \<Rightarrow> int \<Rightarrow> (int \<times> int) option" where
  "adj_carry h lb sec = (if lb \<ge> h then adj_carry h (long (lb - h)) (long (sec + 1)) else Some (lb, sec))"

definition adjtime :: "nat \<Rightarrow> nat \<Rightarrow> kern \<Rightarrow> kern option" where
  "adjtime delta olddelta k =
     (let (k, ok) = suser k
      in if \<not> ok then Some k
         else case copyin delta 2 k of
           Inr e \<Rightarrow> Some (set_error e k)
         | Inl ws \<Rightarrow>
             let k = set_error 0 k;
                 atv = words_tv ws;
                 adjust = long (tv_sec atv * hz k + c_div (tv_usec atv) (usechz k));
                 out = (\<lambda>atv k. let (k', e) = copyout (tv_words atv) olddelta k in set_error e k')
             in if adjust > 0x7fff \<or> adjust < 0x8000 then
                  (case adj_carry (hz k) (long (lbolt k + c_div (tv_usec atv) (usechz k))) (long (tv_sec (time k) + tv_sec atv)) of
                     None \<Rightarrow> None
                   | Some (lb, sec) \<Rightarrow>
                       let k' = k\<lparr>time := (time k)\<lparr>tv_sec := sec\<rparr>, lbolt := lb\<rparr>
                       in Some (if olddelta = 0 then k' else out \<lparr>tv_sec = 0, tv_usec = 0\<rparr> k'))
                else if olddelta = 0 then Some (k\<lparr>adjdelta := adjust\<rparr>)
                else let old = \<lparr>tv_sec = c_div (adjdelta k) (hz k), tv_usec = long (c_mod (adjdelta k) (hz k) * usechz k)\<rparr>
                     in Some (out old (k\<lparr>adjdelta := adjust\<rparr>)))"

section \<open>Interval timers\<close>

definition getitimer :: "nat \<Rightarrow> nat \<Rightarrow> kern \<Rightarrow> kern" where
  "getitimer which itv k =
     (if which > ITIMER_PROF then set_error EINVAL k
      else
        let secs = (\<lambda>s. \<lparr>tv_sec = s, tv_usec = 0\<rparr>);
            aitv = (if which = ITIMER_REAL
                    then let t = p_realtimer (curproc k)
                         in \<lparr>itv_interval = secs (it_interval t), itv_value = secs (it_value t)\<rparr>
                    else let t = u_timer (u k) (which - 1)
                         in \<lparr>itv_interval = secs (c_div (it_interval t) (hz k)), itv_value = secs (c_div (it_value t) (hz k))\<rparr>);
            (k', e) = copyout (itv_words aitv) itv k
        in set_error e k')"

text \<open>A time rounded up to whole seconds.\<close>

definition ceil_sec :: "timeval \<Rightarrow> int" where
  "ceil_sec t = (if tv_usec t \<noteq> 0 then tv_sec t + 1 else tv_sec t)"

definition setitimer :: "nat \<Rightarrow> nat \<Rightarrow> nat \<Rightarrow> kern \<Rightarrow> kern" where
  "setitimer which itv oitv k =
     (if which > ITIMER_PROF then set_error EINVAL k
      else
        let k = (if oitv \<noteq> 0 then getitimer which oitv k else k)
        in if itv = 0 then k
           else case copyin itv 4 k of
             Inr e \<Rightarrow> set_error e k
           | Inl ws \<Rightarrow>
               let k = set_error 0 k; aitv = words_itv ws
               in if which = ITIMER_REAL
                  then upd_proc (u_procp (u k)) (\<lambda>p. p\<lparr>p_realtimer :=
                         \<lparr>it_interval = long (ceil_sec (itv_interval aitv)), it_value = long (ceil_sec (itv_value aitv))\<rparr>\<rparr>) k
                  else k\<lparr>u := (u k)\<lparr>u_timer := (u_timer (u k))(which - 1 :=
                         \<lparr>it_interval = long (ceil_sec (itv_interval aitv) * hz k),
                          it_value = long (ceil_sec (itv_value aitv) * hz k)\<rparr>)\<rparr>\<rparr>)"

definition itimerfix :: "timeval \<Rightarrow> kern \<Rightarrow> timeval \<times> int" where
  "itimerfix tv k =
     (if tv_sec tv < 0 \<or> tv_sec tv > 100000000 \<or> tv_usec tv < 0 \<or> tv_usec tv \<ge> 1000000 then (tv, EINVAL)
      else if tv_sec tv = 0 \<and> tv_usec tv \<noteq> 0 \<and> tv_usec tv < c_div 1000 (hz k)
      then (tv\<lparr>tv_usec := c_div 1000 (hz k)\<rparr>, 0)
      else (tv, 0))"

definition tvfix :: "timeval \<Rightarrow> timeval" where
  "tvfix t =
     (let t = (if tv_usec t < 0 then t\<lparr>tv_sec := long (tv_sec t - 1), tv_usec := tv_usec t + 1000000\<rparr> else t)
      in if tv_usec t \<ge> 1000000 then t\<lparr>tv_sec := long (tv_sec t + 1), tv_usec := tv_usec t - 1000000\<rparr> else t)"

definition timevaladd :: "timeval \<Rightarrow> timeval \<Rightarrow> timeval" where
  "timevaladd t1 t2 = tvfix (t1\<lparr>tv_sec := long (tv_sec t1 + tv_sec t2), tv_usec := long (tv_usec t1 + tv_usec t2)\<rparr>)"

section \<open>Lemmas\<close>

lemma adj_carry_spec:
  assumes "0 < h" and "lb < 2 ^ 31"
  shows "adj_carry h lb (long sec) = Some (if lb < h then lb else lb mod h, long (sec + (if lb < h then 0 else lb div h)))"
  using assms(2)
proof (induction "nat lb" arbitrary: lb sec rule: less_induct)
  case less
  show ?case
  proof (cases "lb \<ge> h")
    case True
    have w: "long (lb - h) = lb - h" using True assms(1) less.prems by (intro long_id) auto
    have ih: "adj_carry h (lb - h) (long (sec + 1)) = Some (if lb - h < h then lb - h else (lb - h) mod h,
        long (sec + 1 + (if lb - h < h then 0 else (lb - h) div h)))"
      using True assms(1) less.prems by (intro less) auto
    have d: "(lb - h) mod h = lb mod h" "(lb - h) div h = lb div h - 1"
      using assms(1) div_add_self2 [of h "lb - h"] by simp_all
    have s: "lb mod h = lb - h" "lb div h = 1" if "lb - h < h"
    proof -
      have "(lb - h) mod h = lb - h" by (rule mod_pos_pos_trivial) (use that True in auto)
      moreover have "(lb - h) div h = 0" by (rule div_pos_pos_trivial) (use that True in auto)
      ultimately show "lb mod h = lb - h" "lb div h = 1" unfolding d by simp_all
    qed
    show ?thesis using True ih w d s by (subst adj_carry.simps) simp
  next
    case False
    then show ?thesis by (subst adj_carry.simps) simp
  qed
qed

lemma words_tv_words: "tv_sec (words_tv [a, b]) = sint a" "tv_usec (words_tv [a, b]) = sint b"
  by (auto simp: words_tv_def)

lemma sint_zero_iff: "sint (w :: 'a::len word) = 0 \<longleftrightarrow> w = 0"
  by (metis signed_0 signed_word_eqI)

lemma step_always: "adjust > 0x7fff \<or> adjust < (0x8000 :: int)"
  by linarith

section \<open>Properties\<close>

text \<open>
  Adding two normalised times gives the normalised time of their sum, when its seconds fit.
\<close>

theorem timevaladd_exact:
  assumes "0 \<le> tv_usec a" and "tv_usec a < 1000000" and "0 \<le> tv_usec b" and "tv_usec b < 1000000"
    and "- (2 ^ 31) \<le> tv_sec a + tv_sec b" and "tv_sec a + tv_sec b + 1 < 2 ^ 31"
  shows "0 \<le> tv_usec (timevaladd a b) \<and> tv_usec (timevaladd a b) < 1000000
     \<and> tv_sec (timevaladd a b) * 1000000 + tv_usec (timevaladd a b)
       = (tv_sec a * 1000000 + tv_usec a) + (tv_sec b * 1000000 + tv_usec b)"
proof -
  have "long (tv_usec a + tv_usec b) = tv_usec a + tv_usec b" "long (tv_sec a + tv_sec b) = tv_sec a + tv_sec b"
    "long (tv_sec a + tv_sec b + 1) = tv_sec a + tv_sec b + 1"
    using assms by (auto intro!: long_id)
  then show ?thesis using assms by (auto simp: timevaladd_def tvfix_def Let_def)
qed

theorem timevaladd_exact_witness:
  "tv_sec (timevaladd \<lparr>tv_sec = 1, tv_usec = 900000\<rparr> \<lparr>tv_sec = 2, tv_usec = 300000\<rparr>) * 1000000
     + tv_usec (timevaladd \<lparr>tv_sec = 1, tv_usec = 900000\<rparr> \<lparr>tv_sec = 2, tv_usec = 300000\<rparr>) = 4200000"
  using timevaladd_exact [of "\<lparr>tv_sec = 1, tv_usec = 900000\<rparr>" "\<lparr>tv_sec = 2, tv_usec = 300000\<rparr>"] by simp

text \<open>
  C22. \<open>adjtime\<close> never slews: its test for an adjustment too large to store holds for every adjustment,
  so a call with a readable delta always steps the clock at once, by the seconds and the ticks of the delta, and leaves
  \<open>adjdelta\<close>, which \<open>hardclock\<close> would use to slew, as it was. Ticks beyond a second are carried into the seconds; a
  negative delta is not borrowed from them, so that it may leave \<open>lbolt\<close> negative. The seconds and the ticks wrap at 32 bits.
\<close>

theorem adjtime_always_steps:
  assumes "u_uid (u k) = 0" and "copyin delta 2 k = Inl [ws, wu]" and "0 < hz k"
  shows "let lb = long (lbolt k + c_div (sint wu) (usechz k))
     in \<exists>k'. adjtime delta olddelta k = Some k' \<and> adjdelta k' = adjdelta k
          \<and> lbolt k' = (if lb < hz k then lb else lb mod hz k)
          \<and> tv_sec (time k') = long (tv_sec (time k) + sint ws + (if lb < hz k then 0 else lb div hz k))"
proof -
  define lb where "lb = long (lbolt k + c_div (sint wu) (usechz k))"
  let ?sec = "long (tv_sec (time k) + sint ws + (if lb < hz k then 0 else lb div hz k))"
  let ?lb = "if lb < hz k then lb else lb mod hz k"
  have "lb < 2 ^ 31" unfolding lb_def by (rule long_range [THEN conjunct2])
  then have c: "adj_carry (hz k) lb (long (tv_sec (time k) + sint ws)) = Some (?lb, ?sec)"
    by (rule adj_carry_spec [OF assms(3)])
  define k1 where "k1 = (set_error 0 k)\<lparr>time := (time k)\<lparr>tv_sec := ?sec\<rparr>, lbolt := ?lb\<rparr>"
  obtain k2 e where o: "copyout (tv_words \<lparr>tv_sec = 0, tv_usec = 0\<rparr>) olddelta k1 = (k2, e)" by fastforce
  then have fr: "adjdelta k2 = adjdelta k1" "time k2 = time k1" "lbolt k2 = lbolt k1"
    by (auto simp: copyout_def split: if_splits)
  have "adjtime delta olddelta k = Some (if olddelta = 0 then k1 else set_error e k2)"
    using assms(1,2) c o step_always by (simp add: adjtime_def Let_def words_tv_words k1_def lb_def [symmetric])
  then show ?thesis using fr by (simp add: k1_def lb_def [symmetric])
qed

theorem adjtime_always_steps_witness:
  "\<exists>k k'. copyin 32 2 k = Inl [257, - 5000] \<and> hz k = 1000 \<and> tv_sec (time k) = 7 \<and> lbolt k = 100
     \<and> adjtime 32 0 k = Some k' \<and> adjdelta k' = adjdelta k \<and> tv_sec (time k') = 264 \<and> lbolt k' = 95"
proof -
  define k :: kern where "k = undefined\<lparr>u := undefined\<lparr>u_uid := 0\<rparr>, hz := 1000, usechz := 1000, lbolt := 100,
    time := \<lparr>tv_sec = 7, tv_usec = 0\<rparr>, umem := store_words (\<lambda>_. 0) 32 [257, - 5000], ubad := (\<lambda>_. False)\<rparr>"
  have f: "u_uid (u k) = 0" "hz k = 1000" "usechz k = 1000" "lbolt k = 100" "tv_sec (time k) = 7" by (simp_all add: k_def)
  have c: "copyin 32 2 k = Inl [257, - 5000]"
    using load_store [of "\<lambda>_. 0" 32 "[257, - 5000]"] by (simp add: copyin_def k_def numeral_2_eq_2 del: store_words.simps)
  have l: "long 95 = 95" "long 264 = 264" "sint (- 5000 :: 32 word) = - 5000" "sint (257 :: 32 word) = 257" "c_div (- 5000) 1000 = - 5"
    by (simp_all add: long_def c_div_def)
  from adjtime_always_steps [OF f(1) c, of 0] obtain k' where
    "adjtime 32 0 k = Some k'" "adjdelta k' = adjdelta k" "lbolt k' = 95" "tv_sec (time k') = 264"
    unfolding f l by (auto simp: l)
  with f c show ?thesis by blast
qed

text \<open>
  An interval timer never expires early: the value and the interval that \<open>setitimer\<close> installs, read
  back by \<open>getitimer\<close>, are the requested times rounded up to whole seconds.
\<close>

theorem itimer_roundtrip:
  assumes "which \<le> ITIMER_PROF" and "0 < hz k" and "itv \<noteq> 0" and "copyin itv 4 k = Inl [is, iu, vs, vu]"
    and "0 \<le> sint is" and "(sint is + 1) * hz k < 2 ^ 31" and "0 \<le> sint vs" and "(sint vs + 1) * hz k < 2 ^ 31"
    and "\<not> ubad k buf" and "\<not> ubad k (last_byte buf 16)"
  shows "copyin buf 4 (getitimer which buf (setitimer which itv 0 k))
     = Inl [if iu = 0 then is else is + 1, 0, if vu = 0 then vs else vs + 1, 0]"
proof -
  have ceil: "ceil_sec (words_tv [a, b]) = (if b = 0 then sint a else sint a + 1)" for a b
    by (auto simp: ceil_sec_def words_tv_words sint_zero_iff)
  have unw: "word_of_int (if b = 0 then sint a else sint a + 1) = (if b = 0 then a else a + 1)"
    for a b :: "32 word" by simp
  have tick: "c_div (long ((if b = 0 then sint a else sint a + 1) * hz k)) (hz k) = (if b = 0 then sint a else sint a + 1)"
    if "(sint a + 1) * hz k < 2 ^ 31" "0 \<le> sint a" for a b :: "32 word"
  proof -
    let ?c = "if b = 0 then sint a else sint a + 1"
    have "?c * hz k \<le> (sint a + 1) * hz k" "0 \<le> ?c * hz k" using that assms(2) by (auto intro: mult_right_mono)
    then have "long (?c * hz k) = ?c * hz k" using that by (intro long_id) linarith+
    then show ?thesis using assms(2) that by (simp add: c_div_nonneg)
  qed
  let ?out = "[if iu = 0 then is else is + 1, 0, if vu = 0 then vs else vs + 1, 0]"
  let ?k = "setitimer which itv 0 k"
  have ub: "ubad ?k = ubad k" using assms(1,3,4) by (auto simp: setitimer_def Let_def)
  have "getitimer which buf ?k = (let (k', e) = copyout ?out buf ?k in set_error e k')"
  proof (cases "which = ITIMER_REAL")
    case True
    then show ?thesis using assms(1,3,4) ceil
      by (simp add: getitimer_def setitimer_def Let_def words_itv_def itv_words_def tv_words_def unw numeral_2_eq_2 del: of_int_add)
  next
    case False
    then show ?thesis using assms(1,3,4) ceil tick [OF assms(6,5)] tick [OF assms(8,7)]
      by (simp add: getitimer_def setitimer_def Let_def words_itv_def itv_words_def tv_words_def unw numeral_2_eq_2)
  qed
  moreover obtain k2 e where c: "copyout ?out buf ?k = (k2, e)" by fastforce
  moreover from c assms(9,10) ub have "e = 0" by (auto simp: copyout_def split: if_splits)
  ultimately show ?thesis using copyout_copyin(1) [of ?out buf ?k k2] by (simp add: eval_nat_numeral)
qed

theorem itimer_roundtrip_witness:
  "\<exists>k. copyin 32 4 k = Inl [0, 0, 0, 0] \<and> copyin 64 4 (getitimer 1 64 (setitimer 1 32 0 k)) = Inl [0, 0, 0, 0]"
proof -
  define k :: kern where "k = undefined\<lparr>hz := 1000, umem := (\<lambda>_. 0), ubad := (\<lambda>_. False)\<rparr>"
  have c: "copyin 32 4 k = Inl [0, 0, 0, 0]" by (simp add: copyin_def load_words_def word_at_def k_def upt_rec)
  with itimer_roundtrip [of 1 k 32 0 0 0 0 64] show ?thesis
    by - (rule exI [of _ k], simp add: k_def)
qed

text \<open>
  \<open>setitimer\<close> reports success although it could not store the old value: the error \<open>getitimer\<close> left
  for a bad \<open>oitv\<close> is overwritten by the result of the \<open>copyin\<close> that follows, and the new timer is set.
\<close>

theorem setitimer_hides_fault:
  assumes "which \<le> ITIMER_PROF" and "oitv \<noteq> 0" and "ubad k oitv" and "itv \<noteq> 0" and "copyin itv 4 k = Inl ws"
  shows "u_error (u (getitimer which oitv k)) = EFAULT \<and> u_error (u (setitimer which itv oitv k)) = 0"
  using assms by (auto simp: setitimer_def getitimer_def copyout_def Let_def)

theorem setitimer_hides_fault_witness:
  "\<exists>k. u_error (u (getitimer 0 8 k)) = EFAULT \<and> u_error (u (setitimer 0 32 8 k)) = 0"
proof -
  define k :: kern where "k = undefined\<lparr>umem := (\<lambda>_. 0), ubad := (\<lambda>a. a = 8)\<rparr>"
  have "copyin 32 4 k = Inl (load_words (umem k) 32 4)" by (simp add: copyin_def last_byte_def k_def)
  with setitimer_hides_fault [of 0 8 k 32] show ?thesis by - (rule exI [of _ k], simp add: k_def)
qed

text \<open>
  Time round trip: the time the super-user sets is what \<open>gettimeofday\<close> reports, to the resolution of
  the clock tick, and it is pushed down to the real-time clock.
\<close>

theorem settime_roundtrip:
  assumes "u_uid (u k) = 0" and "tv \<noteq> 0" and "copyin tv 2 k = Inl [ws, wu]" and "0 \<le> sint wu" and "sint wu < 1000000"
    and "0 < usechz k" and "tp \<noteq> 0" and "\<not> ubad k tp" and "\<not> ubad k (last_byte tp 8)"
  shows "copyin tp 2 (gettimeofday tp 0 (settimeofday tv 0 k)) = Inl [ws, word_of_int (sint wu - sint wu mod usechz k)]
     \<and> rtc (settimeofday tv 0 k) = Some \<lparr>tv_sec = sint ws, tv_usec = sint wu\<rparr>"
proof -
  let ?k = "settimeofday tv 0 k"
  let ?out = "[ws, word_of_int (sint wu - sint wu mod usechz k)]"
  have tv: "words_tv [ws, wu] = \<lparr>tv_sec = sint ws, tv_usec = sint wu\<rparr>" by (simp add: words_tv_def)
  have k': "time ?k = \<lparr>tv_sec = sint ws, tv_usec = sint wu\<rparr>" "lbolt ?k = sint wu div usechz k" "usechz ?k = usechz k"
    "ubad ?k = ubad k" "rtc ?k = Some \<lparr>tv_sec = sint ws, tv_usec = sint wu\<rparr>"
    using assms(1-6) by (auto simp: settimeofday_def setthetime_def Let_def tv c_div_nonneg)
  have eq: "sint wu div usechz k * usechz k = sint wu - sint wu mod usechz k"
    by (simp add: minus_mod_eq_div_mult)
  have "0 \<le> sint wu - sint wu mod usechz k" "sint wu - sint wu mod usechz k \<le> sint wu"
    using assms(4,6) by (simp_all add: zmod_le_nonneg_dividend)
  then have l: "long (sint wu div usechz k * usechz k) = sint wu - sint wu mod usechz k"
    unfolding eq using assms(5) by (intro long_id) auto
  obtain k2 e where c: "copyout ?out tp ?k = (k2, e)" by fastforce
  with assms(8,9) k'(4) have "e = 0" by (auto simp: copyout_def split: if_splits)
  moreover have "gettimeofday tp 0 ?k = set_error e k2"
    using assms(7) c k' l by (simp add: gettimeofday_def Let_def tv_words_def)
  ultimately show ?thesis using copyout_copyin(1) [of ?out tp ?k k2] c k'(5) by (simp add: eval_nat_numeral)
qed

theorem settime_roundtrip_witness:
  "\<exists>k. copyin 64 2 (gettimeofday 64 0 (settimeofday 32 0 k)) = Inl [0, 0]"
proof -
  define k :: kern where "k = undefined\<lparr>u := undefined\<lparr>u_uid := 0\<rparr>, usechz := 1000, umem := (\<lambda>_. 0), ubad := (\<lambda>_. False)\<rparr>"
  have c: "copyin 32 2 k = Inl [0, 0]" by (simp add: copyin_def load_words_def word_at_def k_def upt_rec)
  with settime_roundtrip [of k 32 0 0 64] show ?thesis by - (rule exI [of _ k], simp add: k_def)
qed

end
