(* ===== verification/Sched.thy ===== *)
theory Sched
  imports Kern_State
begin

text \<open>
  Sleeping, waking and choosing processes: \<^verbatim>\<open>sys/kern/kern_synch.c\<close>. The sleep queues and the run queue
  are linked through \<^verbatim>\<open>p_link\<close> in the code; here each is the list of the processes on it. The routines
  run at \<^verbatim>\<open>splhigh\<close> or \<^verbatim>\<open>splclock\<close>, so each is one step.
\<close>

abbreviation (input) SQSIZE :: nat where "SQSIZE \<equiv> 16"

definition HASH :: "nat \<Rightarrow> nat" where
  "HASH x = (x div 32) mod SQSIZE"

section \<open>Priorities\<close>

text \<open>The priority of a process; the flag \<open>runrun\<close> asks for rescheduling.\<close>

definition setpri :: "nat \<Rightarrow> kern \<Rightarrow> kern \<times> int" where
  "setpri pp k =
     (let p = int (unat (p_cpu (procs k pp)) div 16) + (PUSER + p_nice (procs k pp));
          p = (if p > 127 then 127 else p);
          k' = (if p < curpri k then k\<lparr>runrun := runrun k + 1\<rparr> else k)
      in (upd_proc pp (\<lambda>q. q\<lparr>p_pri := p\<rparr>) k', p))"

text \<open>
  The decay loop of \<open>updatepri\<close>. \<open>SCHMAG\<close> is the text \<^verbatim>\<open>8/10\<close>, so \<^verbatim>\<open>SCHMAG * a\<close> is \<^verbatim>\<open>8/10 * a\<close>, which C
  reads as \<open>(8 / 10) * a\<close>.
\<close>

function updatepri_loop :: "nat \<Rightarrow> int \<Rightarrow> nat \<times> int" where
  "updatepri_loop a slptime =
     (if a \<noteq> 0 then
        (if slptime - 1 \<noteq> 0 then updatepri_loop (8 div 10 * a) (slptime - 1) else (a, slptime - 1))
      else (a, slptime))"
  by pat_completeness auto
termination by (relation "measure fst") auto

declare updatepri_loop.simps [simp del]

definition updatepri :: "nat \<Rightarrow> kern \<Rightarrow> kern" where
  "updatepri p k =
     (let (a, slp) = updatepri_loop (unat (p_cpu (procs k p))) (p_slptime (procs k p) - 1);
          a = (if a > 255 then 255 else a)
      in fst (setpri p (upd_proc p (\<lambda>q. q\<lparr>p_slptime := slp, p_cpu := of_nat a\<rparr>) k)))"

section \<open>The run queue\<close>

definition setrq :: "nat \<Rightarrow> kern \<Rightarrow> kern cres" where
  "setrq p k = (if diagnostic k \<and> p \<in> set (qs k) then Panic ''setrq'' else Ok (k\<lparr>qs := p # qs k\<rparr>))"

definition remrq :: "nat \<Rightarrow> kern \<Rightarrow> kern cres" where
  "remrq p k = (if p \<in> set (qs k) then Ok (k\<lparr>qs := remove1 p (qs k)\<rparr>) else Panic ''remrq'')"

text \<open>
  One search of the loop of \<open>swtch\<close>: the best candidate so far and its priority. \<open>None\<close> means that no
  process can run: \<open>swtch\<close> idles and searches again.
\<close>

fun swtch_search :: "(nat \<Rightarrow> proc) \<Rightarrow> nat list \<Rightarrow> nat option \<Rightarrow> int \<Rightarrow> nat option \<times> int" where
  "swtch_search pr [] pp n = (pp, n)"
| "swtch_search pr (p # ps) pp n =
     (if p_flag (pr p) AND SLOAD \<noteq> 0 \<and> p_pri (pr p) < n then swtch_search pr ps (Some p) (p_pri (pr p))
      else swtch_search pr ps pp n)"

text \<open>
  The switch in the context of process 0: the process that is resumed, whether it resumes at \<open>u_ssave\<close>
  (it was swapped) or \<open>u_rsave\<close>, and the state it finds.
\<close>

definition swtch_select :: "kern \<Rightarrow> (kern \<times> (nat \<times> bool) option) cres" where
  "swtch_select k =
     (let k = k\<lparr>noproc := False, runrun := 0\<rparr>
      in if diagnostic k \<and> (\<exists>p\<in>set (qs k). p_stat (procs k p) \<noteq> SRUN) then Panic ''swtch SRUN''
         else case swtch_search (procs k) (qs k) None 128 of
                (None, n) \<Rightarrow> Ok (k, None)
              | (Some p, n) \<Rightarrow>
                  (let swapped = (p_flag (procs k p) AND SSWAP \<noteq> 0);
                       k = k\<lparr>qs := remove1 p (qs k), curpri := n\<rparr>
                   in Ok (upd_proc p (\<lambda>q. q\<lparr>p_flag := p_flag q AND NOT SSWAP\<rparr>) k, Some (p, swapped))))"

section \<open>Sleep queues\<close>

definition unsleep :: "nat \<Rightarrow> kern \<Rightarrow> kern cres" where
  "unsleep p k =
     (let ch = p_wchan (procs k p); h = HASH ch
      in if ch = 0 then Ok k
         else if p \<in> set (slpque k h)
         then Ok (upd_proc p (\<lambda>q. q\<lparr>p_wchan := 0\<rparr>) (k\<lparr>slpque := (slpque k)(h := remove1 p (slpque k h))\<rparr>))
         else Stuck)"

text \<open>
  A walk of \<open>wakeup\<close> down one queue: \<open>pre\<close> has been passed. It ends at the end of the queue or at a
  sleeping process, already taken off the queue, that is to be made runnable.
\<close>

fun wakeup_walk :: "nat \<Rightarrow> nat list \<Rightarrow> nat list \<Rightarrow> kern \<Rightarrow> (kern \<times> nat option) cres" where
  "wakeup_walk chan pre [] k = Ok (k, None)"
| "wakeup_walk chan pre (p # rest) k =
     (if p_stat (procs k p) \<noteq> SSLEEP \<and> p_stat (procs k p) \<noteq> SSTOP then Panic ''wakeup''
      else if p_wchan (procs k p) = chan then
        (let k' = upd_proc p (\<lambda>q. q\<lparr>p_wchan := 0\<rparr>) (k\<lparr>slpque := (slpque k)(HASH chan := pre @ rest)\<rparr>)
         in if p_stat (procs k p) = SSLEEP then Ok (k', Some p)
            else wakeup_walk chan pre rest (upd_proc p (\<lambda>q. q\<lparr>p_slptime := 0\<rparr>) k'))
      else wakeup_walk chan (pre @ [p]) rest k)"

text \<open>The inline expansion of \<open>setrun\<close> in \<open>wakeup\<close>, up to the swapper's wakeup.\<close>

definition wakeup_run :: "nat \<Rightarrow> kern \<Rightarrow> kern cres" where
  "wakeup_run p k =
     (let k = (if p_slptime (procs k p) > 1 then updatepri p k else k);
          k = upd_proc p (\<lambda>q. q\<lparr>p_slptime := 0, p_stat := SRUN\<rparr>) k
      in bind_cres (if p_flag (procs k p) AND SLOAD \<noteq> 0 then setrq p k else Ok k)
           (\<lambda>k. Ok (k\<lparr>runrun := runrun k + 1\<rparr>)))"

text \<open>
  The loop of \<open>wakeup\<close>, restarted after each process made runnable. \<open>swapper\<close> is what is done when a
  process that is not in core became runnable. Each round takes a process off the queue, so the
  length of the queue is enough fuel.
\<close>

fun wakeup_loop :: "(kern \<Rightarrow> kern cres) \<Rightarrow> nat \<Rightarrow> nat \<Rightarrow> kern \<Rightarrow> kern cres" where
  "wakeup_loop swapper chan 0 k = Stuck"
| "wakeup_loop swapper chan (Suc fuel) k =
     bind_cres (wakeup_walk chan [] (slpque k (HASH chan)) k) (\<lambda>(k, res).
       case res of
         None \<Rightarrow> Ok k
       | Some p \<Rightarrow>
           bind_cres (wakeup_run p k) (\<lambda>k.
             bind_cres (if p_flag (procs k p) AND SLOAD = 0 then swapper k else Ok k)
               (wakeup_loop swapper chan fuel)))"

text \<open>
  \<open>runout\<close> is cleared before the swapper is woken, so the inner \<open>wakeup\<close> never wakes it again: the
  recursion of the code is two calls deep.
\<close>

definition wakeup_with :: "(kern \<Rightarrow> kern cres) \<Rightarrow> nat \<Rightarrow> kern \<Rightarrow> kern cres" where
  "wakeup_with inner chan k =
     wakeup_loop (\<lambda>k. if runout k \<noteq> 0 then inner (k\<lparr>runout := 0\<rparr>) else Ok k) chan
       (Suc (length (slpque k (HASH chan)))) k"

definition wakeup :: "nat \<Rightarrow> kern \<Rightarrow> kern cres" where
  "wakeup chan k = wakeup_with (\<lambda>k. wakeup_with Ok (addr k Sym_runout) k) chan k"

section \<open>setrun\<close>

definition setrun :: "nat \<Rightarrow> kern \<Rightarrow> kern cres" where
  "setrun p k =
     bind_cres (case p_stat (procs k p) of
                  SSTOP \<Rightarrow> unsleep p k | SSLEEP \<Rightarrow> unsleep p k | SIDL \<Rightarrow> Ok k | _ \<Rightarrow> Panic ''setrun'')
       (\<lambda>k. let k = (if p_slptime (procs k p) > 1 then updatepri p k else k);
                k = upd_proc p (\<lambda>q. q\<lparr>p_stat := SRUN\<rparr>) k
            in bind_cres (if p_flag (procs k p) AND SLOAD \<noteq> 0 then setrq p k else Ok k)
                 (\<lambda>k. let k = (if p_pri (procs k p) < curpri k then k\<lparr>runrun := runrun k + 1\<rparr> else k)
                      in if p_flag (procs k p) AND SLOAD = 0 \<and> runout k \<noteq> 0
                         then wakeup (addr k Sym_runout) (k\<lparr>runout := 0\<rparr>) else Ok k))"

definition endtsleep :: "nat \<Rightarrow> kern \<Rightarrow> kern cres" where
  "endtsleep p k =
     (if p_wchan (procs k p) = 0 then Ok k
      else bind_cres (if p_stat (procs k p) = SSLEEP then setrun p k else unsleep p k)
             (\<lambda>k. Ok (upd_proc p (\<lambda>q. q\<lparr>p_flag := p_flag q OR P_TIMEOUT\<rparr>) k)))"

section \<open>Invariant\<close>

text \<open>
  A process waits on an event exactly when it is on the sleep queue of that event, and then it is
  asleep or stopped; the processes on the run queue are runnable and in core.
\<close>

definition slp_ok :: "kern \<Rightarrow> bool" where
  "slp_ok k \<longleftrightarrow> (\<forall>h. distinct (slpque k h) \<and> (\<forall>p\<in>set (slpque k h). p_wchan (procs k p) \<noteq> 0
        \<and> HASH (p_wchan (procs k p)) = h \<and> p_stat (procs k p) \<in> {SSLEEP, SSTOP}))
     \<and> (\<forall>p. p_wchan (procs k p) \<noteq> 0 \<longrightarrow> p \<in> set (slpque k (HASH (p_wchan (procs k p)))))"

definition run_ok :: "kern \<Rightarrow> bool" where
  "run_ok k \<longleftrightarrow> distinct (qs k) \<and> (\<forall>p\<in>set (qs k). p_stat (procs k p) = SRUN \<and> p_flag (procs k p) AND SLOAD \<noteq> 0)"

definition sched_inv :: "kern \<Rightarrow> bool" where
  "sched_inv k \<longleftrightarrow> slp_ok k \<and> run_ok k"

text \<open>What a wakeup of the events \<open>C\<close> may do to a process and to the queues.\<close>

definition prel :: "nat set \<Rightarrow> kern \<Rightarrow> kern \<Rightarrow> nat \<Rightarrow> bool" where
  "prel C k k' p \<longleftrightarrow> p_flag (procs k' p) = p_flag (procs k p)
     \<and> (p_wchan (procs k' p) = p_wchan (procs k p) \<and> p_stat (procs k' p) = p_stat (procs k p)
        \<or> p_wchan (procs k p) \<in> C \<and> p_wchan (procs k' p) = 0
          \<and> p_stat (procs k' p) = (if p_stat (procs k p) = SSLEEP then SRUN else p_stat (procs k p))
          \<and> (p_stat (procs k p) = SSLEEP \<and> p_flag (procs k p) AND SLOAD \<noteq> 0 \<longrightarrow> p \<in> set (qs k')))"

definition wk_rel :: "nat set \<Rightarrow> kern \<Rightarrow> kern \<Rightarrow> bool" where
  "wk_rel C k k' \<longleftrightarrow> (\<forall>p. prel C k k' p) \<and> set (qs k) \<subseteq> set (qs k') \<and> addr k' = addr k \<and> diagnostic k' = diagnostic k
     \<and> (\<forall>h. length (slpque k' h) \<le> length (slpque k h))"

lemma wk_rel_refl [simp]: "wk_rel C k k" by (auto simp: wk_rel_def prel_def)

lemma wk_rel_trans: "0 \<notin> C \<Longrightarrow> wk_rel C k k' \<Longrightarrow> wk_rel C k' k'' \<Longrightarrow> wk_rel C k k''"
  unfolding wk_rel_def prel_def by (smt (verit, best) order_trans subset_iff)

lemma prel_mono: "prel C k k' p \<Longrightarrow> C \<subseteq> D \<Longrightarrow> prel D k k' p"
  unfolding prel_def by blast

lemma wk_rel_mono: "wk_rel C k k' \<Longrightarrow> C \<subseteq> D \<Longrightarrow> wk_rel D k k'"
  unfolding wk_rel_def using prel_mono by blast

lemma slp_okD:
  assumes "slp_ok k" "p \<in> set (slpque k h)"
  shows "p_wchan (procs k p) \<noteq> 0" "HASH (p_wchan (procs k p)) = h" "p_stat (procs k p) \<in> {SSLEEP, SSTOP}"
  using assms unfolding slp_ok_def by blast+

lemma slp_ok_queued: "slp_ok k \<Longrightarrow> p_wchan (procs k p) \<noteq> 0 \<Longrightarrow> p \<in> set (slpque k (HASH (p_wchan (procs k p))))"
  unfolding slp_ok_def by blast

text \<open>A process taken off its queue, whatever becomes of it.\<close>

lemma slp_ok_remove:
  assumes ok: "slp_ok k" and h: "slpque k h = pre @ p # rest"
    and pr: "\<And>q. q \<noteq> p \<Longrightarrow> p_wchan (procs k' q) = p_wchan (procs k q) \<and> p_stat (procs k' q) = p_stat (procs k q)"
    and p: "p_wchan (procs k' p) = 0" and sq: "slpque k' = (slpque k)(h := pre @ rest)"
  shows "slp_ok k'"
proof -
  have d: "distinct (pre @ p # rest)" using ok h unfolding slp_ok_def by metis
  have hp: "HASH (p_wchan (procs k p)) = h" using slp_okD(2) [OF ok] h by simp
  have pi: "i = h" if "p \<in> set (slpque k i)" for i using slp_okD(2) [OF ok that] hp by simp
  have sub: "set (slpque k' i) = set (slpque k i) - {p}" for i
    using d h pi [of i] by (cases "i = h") (auto simp: sq)
  have "distinct (slpque k' i)" for i using ok d by (simp add: sq slp_ok_def)
  moreover have "p_wchan (procs k' q) \<noteq> 0 \<and> HASH (p_wchan (procs k' q)) = i \<and> p_stat (procs k' q) \<in> {SSLEEP, SSTOP}"
    if "q \<in> set (slpque k' i)" for q i
    using that sub pr [of q] slp_okD [OF ok, of q i] by simp
  moreover have "q \<in> set (slpque k' (HASH (p_wchan (procs k' q))))" if "p_wchan (procs k' q) \<noteq> 0" for q
    using that sub pr [of q] p slp_ok_queued [OF ok, of q] by (cases "q = p") auto
  ultimately show ?thesis unfolding slp_ok_def by blast
qed

text \<open>Nothing about the queues or the processes on them changes.\<close>

lemma slp_ok_frame:
  assumes "slp_ok k" "slpque k' = slpque k" "\<And>q. p_wchan (procs k' q) = p_wchan (procs k q)"
    "\<And>q. p_wchan (procs k q) \<noteq> 0 \<Longrightarrow> p_stat (procs k' q) \<in> {SSLEEP, SSTOP}"
  shows "slp_ok k'"
  using assms unfolding slp_ok_def by metis

text \<open>The part of the state the scheduler's structure lives in.\<close>

definition sched_same :: "kern \<Rightarrow> kern \<Rightarrow> bool" where
  "sched_same k k' \<longleftrightarrow> (\<forall>p. p_wchan (procs k' p) = p_wchan (procs k p) \<and> p_stat (procs k' p) = p_stat (procs k p)
       \<and> p_flag (procs k' p) = p_flag (procs k p))
     \<and> qs k' = qs k \<and> slpque k' = slpque k \<and> addr k' = addr k \<and> diagnostic k' = diagnostic k"

lemma sched_same_inv: "sched_same k k' \<Longrightarrow> sched_inv k' = sched_inv k"
  by (simp add: sched_same_def sched_inv_def slp_ok_def run_ok_def)

lemma sched_same_wk: "sched_same k k' \<Longrightarrow> wk_rel C k k'"
  by (simp add: sched_same_def wk_rel_def prel_def)

lemma updatepri_same: "sched_same k (updatepri p k)"
  by (auto simp: updatepri_def setpri_def sched_same_def Let_def split: prod.splits)

lemma updatepri_runout [simp]: "runout (updatepri p k) = runout k"
  by (simp add: updatepri_def setpri_def Let_def split: prod.splits)

section \<open>Waking up\<close>

text \<open>The state in the middle of a walk: the queue of \<open>chan\<close> is \<open>pre @ rest\<close>.\<close>

lemma wakeup_walk_spec:
  assumes "sched_inv k" "chan \<noteq> 0" "slpque k (HASH chan) = pre @ rest" "\<forall>p\<in>set pre. p_wchan (procs k p) \<noteq> chan"
  shows "\<exists>k' r. wakeup_walk chan pre rest k = Ok (k', r) \<and> sched_inv k' \<and> runout k' = runout k
     \<and> (case r of
          None \<Rightarrow> wk_rel {chan} k k' \<and> (\<forall>p. p_wchan (procs k' p) \<noteq> chan)
        | Some p \<Rightarrow> (\<forall>q. q \<noteq> p \<longrightarrow> prel {chan} k k' q) \<and> p_wchan (procs k p) = chan \<and> p_stat (procs k p) = SSLEEP
            \<and> p_wchan (procs k' p) = 0 \<and> p_stat (procs k' p) = SSLEEP \<and> p_flag (procs k' p) = p_flag (procs k p)
            \<and> qs k' = qs k \<and> addr k' = addr k \<and> diagnostic k' = diagnostic k
            \<and> (\<forall>h. length (slpque k' h) \<le> length (slpque k h))
            \<and> length (slpque k' (HASH chan)) < length (slpque k (HASH chan)))"
  using assms
proof (induction rest arbitrary: pre k)
  case Nil
  then have "\<forall>p. p_wchan (procs k p) \<noteq> chan" by (auto simp: sched_inv_def slp_ok_def)
  with Nil.prems show ?case by simp
next
  case (Cons p rest)
  have pin: "p \<in> set (slpque k (HASH chan))" using Cons.prems(3) by simp
  have "p_stat (procs k p) \<in> {SSLEEP, SSTOP} \<and> distinct (slpque k (HASH chan))"
    using Cons.prems(1) pin unfolding sched_inv_def slp_ok_def by blast
  then have st: "p_stat (procs k p) \<in> {SSLEEP, SSTOP}" and d: "distinct (pre @ p # rest)"
    unfolding Cons.prems(3) by blast+
  let ?k = "upd_proc p (\<lambda>q. q\<lparr>p_wchan := 0\<rparr>) (k\<lparr>slpque := (slpque k)(HASH chan := pre @ rest)\<rparr>)"
  show ?case
  proof (cases "p_wchan (procs k p) = chan")
    case False
    with Cons.IH [of k "pre @ [p]"] Cons.prems st show ?thesis by auto
  next
    case True
    have "slp_ok ?k"
      by (rule slp_ok_remove [OF _ Cons.prems(3)]) (use Cons.prems(1) in \<open>auto simp: sched_inv_def\<close>)
    moreover have "run_ok ?k" using Cons.prems(1) by (auto simp: sched_inv_def run_ok_def)
    ultimately have inv: "sched_inv ?k" by (simp add: sched_inv_def)
    have len: "length (pre @ rest) < length (slpque k (HASH chan))" using Cons.prems(3) by simp
    show ?thesis
    proof (cases "p_stat (procs k p) = SSLEEP")
      case s: True
      then have "wakeup_walk chan pre (p # rest) k = Ok (?k, Some p)" using True by (simp add: Let_def)
      moreover have "\<forall>q. q \<noteq> p \<longrightarrow> prel {chan} k ?k q" by (simp add: prel_def)
      ultimately show ?thesis using inv True s len by (auto simp: less_imp_le)
    next
      case s: False
      let ?k' = "upd_proc p (\<lambda>q. q\<lparr>p_slptime := 0\<rparr>) ?k"
      have same: "sched_same ?k ?k'" by (simp add: sched_same_def)
      have inv': "sched_inv ?k'" using inv sched_same_inv [OF same] by simp
      have pre': "\<forall>q\<in>set pre. p_wchan (procs ?k' q) \<noteq> chan" using Cons.prems(2,4) d by auto
      have sq: "slpque ?k' (HASH chan) = pre @ rest" by simp
      have w: "wakeup_walk chan pre (p # rest) k = wakeup_walk chan pre rest ?k'" using True s st by (simp add: Let_def)
      have r0: "wk_rel {chan} k ?k'" using True s st len by (auto simp: wk_rel_def prel_def less_imp_le)
      from Cons.IH [OF inv' Cons.prems(2) sq pre'] obtain k' r where r:
        "wakeup_walk chan pre rest ?k' = Ok (k', r)" "sched_inv k'" "runout k' = runout ?k'"
        "case r of None \<Rightarrow> wk_rel {chan} ?k' k' \<and> (\<forall>p. p_wchan (procs k' p) \<noteq> chan)
        | Some p \<Rightarrow> (\<forall>q. q \<noteq> p \<longrightarrow> prel {chan} ?k' k' q) \<and> p_wchan (procs ?k' p) = chan \<and> p_stat (procs ?k' p) = SSLEEP
            \<and> p_wchan (procs k' p) = 0 \<and> p_stat (procs k' p) = SSLEEP \<and> p_flag (procs k' p) = p_flag (procs ?k' p)
            \<and> qs k' = qs ?k' \<and> addr k' = addr ?k' \<and> diagnostic k' = diagnostic ?k'
            \<and> (\<forall>h. length (slpque k' h) \<le> length (slpque ?k' h))
            \<and> length (slpque k' (HASH chan)) < length (slpque ?k' (HASH chan))" by blast
      show ?thesis
      proof (cases r)
        case None
        with r(4) have "wk_rel {chan} ?k' k'" "\<forall>p. p_wchan (procs k' p) \<noteq> chan" by auto
        with r0 wk_rel_trans [of "{chan}" k ?k' k'] Cons.prems(2) have "wk_rel {chan} k k'" by simp
        then show ?thesis using w r None \<open>\<forall>p. p_wchan (procs k' p) \<noteq> chan\<close> by auto
      next
        case (Some q)
        with r(4) have q: "\<forall>x. x \<noteq> q \<longrightarrow> prel {chan} ?k' k' x" "p_wchan (procs ?k' q) = chan" "p_stat (procs ?k' q) = SSLEEP"
          "p_wchan (procs k' q) = 0" "p_stat (procs k' q) = SSLEEP" "p_flag (procs k' q) = p_flag (procs ?k' q)"
          "qs k' = qs ?k'" "addr k' = addr ?k'" "diagnostic k' = diagnostic ?k'"
          "\<forall>h. length (slpque k' h) \<le> length (slpque ?k' h)"
          "length (slpque k' (HASH chan)) < length (slpque ?k' (HASH chan))" by auto
        have qp: "q \<noteq> p" using q(2) Cons.prems(2) by auto
        have "prel {chan} k k' x" if "x \<noteq> q" for x
          using q(1) that True s st Cons.prems(2) by (cases "x = p") (auto simp: prel_def)
        moreover have "length (slpque k' h) \<le> length (slpque k h)" for h
          using q(10) [rule_format, of h] len by (cases "h = HASH chan") auto
        moreover have "length (slpque k' (HASH chan)) < length (slpque k (HASH chan))" using q(11) len by simp
        ultimately show ?thesis using w r(1-3) Some q(2-9) qp by auto
      qed
    qed
  qed
qed

lemma wakeup_run_spec:
  assumes inv: "sched_inv k" and w: "p_wchan (procs k p) = 0" and st: "p_stat (procs k p) = SSLEEP"
  shows "\<exists>k'. wakeup_run p k = Ok k' \<and> sched_inv k' \<and> runout k' = runout k \<and> slpque k' = slpque k \<and> addr k' = addr k
     \<and> diagnostic k' = diagnostic k \<and> p_stat (procs k' p) = SRUN \<and> p_wchan (procs k' p) = 0
     \<and> p_flag (procs k' p) = p_flag (procs k p)
     \<and> (\<forall>q. q \<noteq> p \<longrightarrow> p_wchan (procs k' q) = p_wchan (procs k q) \<and> p_stat (procs k' q) = p_stat (procs k q)
          \<and> p_flag (procs k' q) = p_flag (procs k q))
     \<and> set (qs k') = set (qs k) \<union> (if p_flag (procs k p) AND SLOAD \<noteq> 0 then {p} else {})"
proof -
  define k1 where "k1 = (if p_slptime (procs k p) > 1 then updatepri p k else k)"
  have same: "sched_same k k1" using updatepri_same by (simp add: k1_def sched_same_def)
  have ro: "runout k1 = runout k" by (simp add: k1_def)
  define k2 where "k2 = upd_proc p (\<lambda>q. q\<lparr>p_slptime := 0, p_stat := SRUN\<rparr>) k1"
  have nq: "p \<notin> set (qs k)" using inv st by (auto simp: sched_inv_def run_ok_def)
  have q2: "qs k2 = qs k" "slpque k2 = slpque k" "addr k2 = addr k" "diagnostic k2 = diagnostic k"
    "p_flag (procs k2 p) = p_flag (procs k p)" "runout k2 = runout k"
    using same ro by (auto simp: k2_def sched_same_def)
  let ?k3 = "(if p_flag (procs k p) AND SLOAD \<noteq> 0 then k2\<lparr>qs := p # qs k2\<rparr> else k2)\<lparr>runrun := runrun k2 + 1\<rparr>"
  have "wakeup_run p k = Ok ?k3"
    using q2 nq same unfolding wakeup_run_def sched_same_def k1_def [symmetric] by (simp add: Let_def k2_def [symmetric] setrq_def)
  moreover have "sched_inv ?k3"
  proof -
    have "slp_ok ?k3"
    proof (rule slp_ok_frame)
      show ok: "slp_ok k" using inv by (simp add: sched_inv_def)
      show "p_stat (procs ?k3 q) \<in> {SSLEEP, SSTOP}" if "p_wchan (procs k q) \<noteq> 0" for q
        using slp_okD(3) [OF ok slp_ok_queued [OF ok that]] that w same by (auto simp: k2_def sched_same_def)
    qed (use same q2 in \<open>auto simp: k2_def sched_same_def\<close>)
    moreover have "run_ok ?k3" using inv same nq q2 by (auto simp: sched_inv_def run_ok_def k2_def sched_same_def)
    ultimately show ?thesis by (simp add: sched_inv_def)
  qed
  ultimately show ?thesis using q2 same w by (auto simp: k2_def sched_same_def)
qed

lemma wakeup_loop_spec:
  assumes sw: "\<And>k. sched_inv k \<Longrightarrow> addr k = a \<Longrightarrow> \<exists>k'. swapper k = Ok k' \<and> sched_inv k' \<and> wk_rel D k k'"
    and inv: "sched_inv k" "addr k = a" and ch: "chan \<noteq> 0" "0 \<notin> D" and fuel: "length (slpque k (HASH chan)) < fuel"
  shows "\<exists>k'. wakeup_loop swapper chan fuel k = Ok k' \<and> sched_inv k' \<and> wk_rel (insert chan D) k k'
     \<and> (\<forall>p. p_wchan (procs k' p) \<noteq> chan)"
  using inv fuel
proof (induction fuel arbitrary: k)
  case (Suc fuel)
  from wakeup_walk_spec [OF Suc.prems(1) ch(1), of "[]" "slpque k (HASH chan)"] obtain k1 r where
    w: "wakeup_walk chan [] (slpque k (HASH chan)) k = Ok (k1, r)" "sched_inv k1"
    "case r of None \<Rightarrow> wk_rel {chan} k k1 \<and> (\<forall>p. p_wchan (procs k1 p) \<noteq> chan)
        | Some p \<Rightarrow> (\<forall>q. q \<noteq> p \<longrightarrow> prel {chan} k k1 q) \<and> p_wchan (procs k p) = chan \<and> p_stat (procs k p) = SSLEEP
            \<and> p_wchan (procs k1 p) = 0 \<and> p_stat (procs k1 p) = SSLEEP \<and> p_flag (procs k1 p) = p_flag (procs k p)
            \<and> qs k1 = qs k \<and> addr k1 = addr k \<and> diagnostic k1 = diagnostic k
            \<and> (\<forall>h. length (slpque k1 h) \<le> length (slpque k h))
            \<and> length (slpque k1 (HASH chan)) < length (slpque k (HASH chan))" by auto
  show ?case
  proof (cases r)
    case None
    then show ?thesis using w wk_rel_mono [of "{chan}" k k1 "insert chan D"] by auto
  next
    case (Some p)
    with w(3) have s: "\<forall>q. q \<noteq> p \<longrightarrow> prel {chan} k k1 q" "p_wchan (procs k p) = chan" "p_stat (procs k p) = SSLEEP"
      "p_wchan (procs k1 p) = 0" "p_stat (procs k1 p) = SSLEEP" "p_flag (procs k1 p) = p_flag (procs k p)"
      "qs k1 = qs k" "addr k1 = addr k" "diagnostic k1 = diagnostic k"
      "\<forall>h. length (slpque k1 h) \<le> length (slpque k h)"
      "length (slpque k1 (HASH chan)) < length (slpque k (HASH chan))" by auto
    from wakeup_run_spec [OF w(2) s(4,5)] obtain k2 where r: "wakeup_run p k1 = Ok k2" "sched_inv k2"
      "slpque k2 = slpque k1" "addr k2 = addr k1" "diagnostic k2 = diagnostic k1" "p_stat (procs k2 p) = SRUN"
      "p_wchan (procs k2 p) = 0" "p_flag (procs k2 p) = p_flag (procs k1 p)"
      "\<forall>q. q \<noteq> p \<longrightarrow> p_wchan (procs k2 q) = p_wchan (procs k1 q) \<and> p_stat (procs k2 q) = p_stat (procs k1 q)
          \<and> p_flag (procs k2 q) = p_flag (procs k1 q)"
      "set (qs k2) = set (qs k1) \<union> (if p_flag (procs k1 p) AND SLOAD \<noteq> 0 then {p} else {})" by blast
    have "prel {chan} k k2 q" for q
      using s(1-6) r(6-10) s(7) by (cases "q = p") (auto simp: prel_def split: if_splits)
    then have k2: "wk_rel {chan} k k2" using s(7-10) r(3-5,10) by (auto simp: wk_rel_def)
    obtain k3 where t: "(if p_flag (procs k2 p) AND SLOAD = 0 then swapper k2 else Ok k2) = Ok k3" "sched_inv k3"
      "wk_rel D k2 k3" using sw [OF r(2)] r(2,4) s(8) Suc.prems(2) wk_rel_refl by (metis (full_types))
    have "length (slpque k3 (HASH chan)) < fuel"
    proof -
      have "length (slpque k3 (HASH chan)) \<le> length (slpque k1 (HASH chan))" using t(3) r(3) by (simp add: wk_rel_def)
      then show ?thesis using s(11) Suc.prems(3) by simp
    qed
    moreover have "addr k3 = a" using t(3) r(4) s(8) Suc.prems(2) by (simp add: wk_rel_def)
    ultimately obtain k' where f: "wakeup_loop swapper chan fuel k3 = Ok k'" "sched_inv k'"
      "wk_rel (insert chan D) k3 k'" "\<forall>p. p_wchan (procs k' p) \<noteq> chan" using Suc.IH [OF t(2)] by blast
    have z: "0 \<notin> insert chan D" using ch by simp
    have "wk_rel (insert chan D) k k2" "wk_rel (insert chan D) k2 k3"
      using k2 t(3) wk_rel_mono by (metis empty_subsetI insert_mono, metis subset_insertI)
    then have "wk_rel (insert chan D) k k'" using f(3) wk_rel_trans [OF z] by metis
    then show ?thesis using w(1) Some r(1) t(1) f by simp
  qed
qed simp


lemma wakeup_with_spec:
  assumes inner: "\<And>k. sched_inv k \<Longrightarrow> addr k = a \<Longrightarrow> \<exists>k'. inner k = Ok k' \<and> sched_inv k' \<and> wk_rel D k k'"
    and k: "sched_inv k" "addr k = a" and ch: "chan \<noteq> 0" "0 \<notin> D"
  shows "\<exists>k'. wakeup_with inner chan k = Ok k' \<and> sched_inv k' \<and> wk_rel (insert chan D) k k'
     \<and> (\<forall>p. p_wchan (procs k' p) \<noteq> chan)"
  unfolding wakeup_with_def
proof (rule wakeup_loop_spec [OF _ k ch])
  fix j assume j: "sched_inv j" "addr j = a"
  have same: "sched_same j (j\<lparr>runout := 0\<rparr>)" by (simp add: sched_same_def)
  from inner [of "j\<lparr>runout := 0\<rparr>"] sched_same_inv [OF same] j obtain k' where
    "inner (j\<lparr>runout := 0\<rparr>) = Ok k'" "sched_inv k'" "wk_rel D (j\<lparr>runout := 0\<rparr>) k'" by auto
  with j wk_rel_trans [OF ch(2) sched_same_wk [OF same]]
  show "\<exists>k'. (if runout j \<noteq> 0 then inner (j\<lparr>runout := 0\<rparr>) else Ok j) = Ok k' \<and> sched_inv k' \<and> wk_rel D j k'" by auto
qed simp

lemma wakeup_spec:
  assumes "sched_inv k" "chan \<noteq> 0" "addr k Sym_runout \<noteq> 0"
  shows "\<exists>k'. wakeup chan k = Ok k' \<and> sched_inv k' \<and> wk_rel {chan, addr k Sym_runout} k k'
     \<and> (\<forall>p. p_wchan (procs k' p) \<noteq> chan)"
proof -
  have "\<exists>k'. wakeup_with Ok (addr j Sym_runout) j = Ok k' \<and> sched_inv k' \<and> wk_rel {addr k Sym_runout} j k'"
    if "sched_inv j" "addr j = addr k" for j
    using wakeup_with_spec [where inner = Ok and D = "{}" and a = "addr k" and k = j and chan = "addr k Sym_runout"]
      that assms(3) by auto
  from wakeup_with_spec [where a = "addr k" and inner = "\<lambda>k. wakeup_with Ok (addr k Sym_runout) k"
      and D = "{addr k Sym_runout}" and k = k and chan = chan, OF this] assms
  show ?thesis by (auto simp: wakeup_def)
qed

text \<open>
  C23. \<open>wakeup\<close> terminates without a panic and wakes everyone: no process is left waiting on the event,
  every process that was asleep on it is runnable and, if it is in core, on the run queue, and a
  process that was stopped stays stopped. The queues stay well formed, and a process waiting on
  another event (other than the swapper, which may be asked to bring a process in) is left alone.
\<close>

theorem wakeup_wakes_all:
  assumes "sched_inv k" "chan \<noteq> 0" "addr k Sym_runout \<noteq> 0"
  shows "\<exists>k'. wakeup chan k = Ok k' \<and> sched_inv k' \<and> (\<forall>p. p_wchan (procs k' p) \<noteq> chan)
     \<and> (\<forall>p. p_wchan (procs k p) = chan \<and> p_stat (procs k p) = SSLEEP \<longrightarrow>
          p_stat (procs k' p) = SRUN \<and> p_wchan (procs k' p) = 0 \<and> (p_flag (procs k p) AND SLOAD \<noteq> 0 \<longrightarrow> p \<in> set (qs k')))
     \<and> (\<forall>p. p_stat (procs k p) = SSTOP \<longrightarrow> p_stat (procs k' p) = SSTOP)
     \<and> (\<forall>p. p_wchan (procs k p) \<notin> {chan, addr k Sym_runout} \<longrightarrow>
          p_wchan (procs k' p) = p_wchan (procs k p) \<and> p_stat (procs k' p) = p_stat (procs k p))
     \<and> set (qs k) \<subseteq> set (qs k')"
proof -
  from wakeup_spec [OF assms] obtain k' where k': "wakeup chan k = Ok k'" "sched_inv k'"
    "\<forall>p. prel {chan, addr k Sym_runout} k k' p" "set (qs k) \<subseteq> set (qs k')" "\<forall>p. p_wchan (procs k' p) \<noteq> chan"
    unfolding wk_rel_def by blast
  have "p_stat (procs k' p) = SRUN \<and> p_wchan (procs k' p) = 0 \<and> (p_flag (procs k p) AND SLOAD \<noteq> 0 \<longrightarrow> p \<in> set (qs k'))"
    if "p_wchan (procs k p) = chan \<and> p_stat (procs k p) = SSLEEP" for p
    using k'(3) [rule_format, of p] k'(5) that unfolding prel_def by auto
  moreover have "p_stat (procs k' p) = SSTOP" if "p_stat (procs k p) = SSTOP" for p
    using k'(3) [rule_format, of p] that unfolding prel_def by auto
  moreover have "p_wchan (procs k' p) = p_wchan (procs k p) \<and> p_stat (procs k' p) = p_stat (procs k p)"
    if "p_wchan (procs k p) \<notin> {chan, addr k Sym_runout}" for p
    using k'(3) [rule_format, of p] that unfolding prel_def by auto
  ultimately show ?thesis using k' by blast
qed

theorem wakeup_wakes_all_witness:
  "\<exists>k k'. wakeup 64 k = Ok k' \<and> p_stat (procs k 1) = SSLEEP \<and> p_stat (procs k' 1) = SRUN \<and> 1 \<in> set (qs k')
     \<and> p_stat (procs k' 2) = SSTOP \<and> p_stat (procs k' 3) = SSLEEP"
proof -
  define k :: kern where "k = undefined\<lparr>procs := (\<lambda>p. undefined\<lparr>p_wchan := if p = 1 \<or> p = 2 then 64 else if p = 3 then 576 else 0,
      p_stat := if p = 1 \<or> p = 3 then SSLEEP else if p = 2 then SSTOP else SRUN, p_flag := 1\<rparr>),
      slpque := (\<lambda>h. if h = 2 then [2, 3, 1] else []), qs := [], addr := (\<lambda>_. 1024)\<rparr>"
  have h: "HASH 64 = 2" "HASH 576 = 2" by (simp_all add: HASH_def)
  have inv: "sched_inv k" by (auto simp: sched_inv_def slp_ok_def run_ok_def k_def h)
  have ps: "p_stat (procs k 1) = SSLEEP" "p_stat (procs k 2) = SSTOP" "p_stat (procs k 3) = SSLEEP"
    "p_wchan (procs k 1) = 64" "p_wchan (procs k 3) = 576" "p_flag (procs k 1) AND SLOAD \<noteq> 0" "addr k Sym_runout = 1024"
    by (simp_all add: k_def)
  from wakeup_wakes_all [OF inv, of 64] ps obtain k' where k': "wakeup 64 k = Ok k'" "p_stat (procs k' 1) = SRUN"
    "1 \<in> set (qs k')" "p_stat (procs k' 2) = SSTOP" "p_stat (procs k' 3) = SSLEEP" by auto
  show ?thesis by (rule exI [of _ k], rule exI [of _ k']) (use k' ps in simp)
qed

section \<open>Making a process runnable\<close>

lemma unsleep_spec:
  assumes inv: "sched_inv k"
  shows "\<exists>k'. unsleep p k = Ok k' \<and> sched_inv k' \<and> p_wchan (procs k' p) = 0 \<and> procs k' = (procs k)(p := (procs k p)\<lparr>p_wchan := 0\<rparr>)
     \<and> k' = k\<lparr>procs := procs k', slpque := slpque k'\<rparr>"
proof (cases "p_wchan (procs k p) = 0")
  case True
  then have "(procs k p)\<lparr>p_wchan := 0\<rparr> = procs k p" by simp
  with True inv show ?thesis by (auto simp: unsleep_def Let_def fun_upd_idem)
next
  case False
  have ok: "slp_ok k" using inv by (simp add: sched_inv_def)
  from slp_ok_queued [OF ok False] obtain pre rest where
    h: "slpque k (HASH (p_wchan (procs k p))) = pre @ p # rest" by (meson split_list)
  have "distinct (pre @ p # rest)" using ok h unfolding slp_ok_def by metis
  then have rm: "remove1 p (slpque k (HASH (p_wchan (procs k p)))) = pre @ rest" by (simp add: h remove1_append)
  let ?k = "upd_proc p (\<lambda>q. q\<lparr>p_wchan := 0\<rparr>) (k\<lparr>slpque := (slpque k)(HASH (p_wchan (procs k p)) := pre @ rest)\<rparr>)"
  have e: "unsleep p k = Ok ?k" using False h rm by (simp add: unsleep_def Let_def)
  have "slp_ok ?k" by (rule slp_ok_remove [OF ok h]) auto
  moreover have "run_ok ?k" using inv by (auto simp: sched_inv_def run_ok_def)
  ultimately show ?thesis using e by (auto simp: sched_inv_def upd_proc_def)
qed


lemma wk_rel_other:
  assumes "wk_rel C k k'" "p_wchan (procs k p) \<notin> C"
  shows "p_wchan (procs k' p) = p_wchan (procs k p) \<and> p_stat (procs k' p) = p_stat (procs k p)"
  using assms unfolding wk_rel_def prel_def by metis

lemma wk_rel_run:
  assumes "wk_rel C k k'" "p_wchan (procs k p) = 0" "0 \<notin> C"
  shows "p_wchan (procs k' p) = 0" "p_stat (procs k' p) = p_stat (procs k p)" "p_flag (procs k' p) = p_flag (procs k p)"
  using assms unfolding wk_rel_def prel_def by metis+

lemma setrun_spec:
  assumes inv: "sched_inv k" and ro: "addr k Sym_runout \<noteq> 0"
  shows "if p_stat (procs k p) \<in> {SSTOP, SSLEEP, SIDL}
     then \<exists>k'. setrun p k = Ok k' \<and> sched_inv k' \<and> p_stat (procs k' p) = SRUN \<and> p_wchan (procs k' p) = 0
            \<and> (p \<in> set (qs k') \<longleftrightarrow> p_flag (procs k p) AND SLOAD \<noteq> 0)
            \<and> (\<forall>q. q \<noteq> p \<longrightarrow> p_wchan (procs k q) \<noteq> addr k Sym_runout \<longrightarrow>
                 p_wchan (procs k' q) = p_wchan (procs k q) \<and> p_stat (procs k' q) = p_stat (procs k q))
     else setrun p k = Panic ''setrun''"
proof (cases "p_stat (procs k p) \<in> {SSTOP, SSLEEP, SIDL}")
  case False
  then show ?thesis by (cases "p_stat (procs k p)") (auto simp: setrun_def)
next
  case True
  from unsleep_spec [OF inv, of p] obtain k1 where u1: "unsleep p k = Ok k1" "sched_inv k1" "p_wchan (procs k1 p) = 0"
    "procs k1 = (procs k)(p := (procs k p)\<lparr>p_wchan := 0\<rparr>)" "k1 = k\<lparr>procs := procs k1, slpque := slpque k1\<rparr>" by blast
  have idl: "k1 = k" if "p_stat (procs k p) = SIDL"
  proof -
    have "p_wchan (procs k p) = 0"
      using inv that slp_okD(3) [of k p] slp_ok_queued [of k p] by (force simp: sched_inv_def)
    then show ?thesis using u1(1) by (simp add: unsleep_def)
  qed
  have first: "(case p_stat (procs k p) of SSTOP \<Rightarrow> unsleep p k | SSLEEP \<Rightarrow> unsleep p k | SIDL \<Rightarrow> Ok k | _ \<Rightarrow> Panic ''setrun'') = Ok k1"
    using True u1(1) idl by (cases "p_stat (procs k p)") auto
  have st: "p_stat (procs k1 p) = p_stat (procs k p)" "p_flag (procs k1 p) = p_flag (procs k p)" "qs k1 = qs k" "addr k1 = addr k"
    using u1(4) arg_cong [OF u1(5), of qs] arg_cong [OF u1(5), of addr] by simp_all
  define k2 where "k2 = (if p_slptime (procs k1 p) > 1 then updatepri p k1 else k1)"
  have same: "sched_same k1 k2" using updatepri_same by (simp add: k2_def sched_same_def)
  define k3 where "k3 = upd_proc p (\<lambda>q. q\<lparr>p_stat := SRUN\<rparr>) k2"
  have nq: "p \<notin> set (qs k2)" using inv True st same by (auto simp: sched_inv_def run_ok_def sched_same_def)
  define k4 where "k4 = (if p_flag (procs k p) AND SLOAD \<noteq> 0 then k3\<lparr>qs := p # qs k3\<rparr> else k3)"
  have f3: "p_flag (procs k3 p) = p_flag (procs k p)" "qs k3 = qs k2" using st same by (auto simp: k3_def sched_same_def)
  have rq: "(if p_flag (procs k3 p) AND SLOAD \<noteq> 0 then setrq p k3 else Ok k3) = Ok k4"
    using f3 nq by (auto simp: k4_def setrq_def)
  have k4: "p_flag (procs k4 p) = p_flag (procs k p)" "p_stat (procs k4 p) = SRUN" "p_wchan (procs k4 p) = 0" "addr k4 = addr k"
    "p \<in> set (qs k4) \<longleftrightarrow> p_flag (procs k p) AND SLOAD \<noteq> 0"
    using f3 st same u1(3) nq by (auto simp: k4_def k3_def sched_same_def)
  have inv4: "sched_inv k4"
  proof -
    have ok: "slp_ok k1" using u1(2) by (simp add: sched_inv_def)
    have "slp_ok k4"
    proof (rule slp_ok_frame [OF ok])
      show "p_stat (procs k4 q) \<in> {SSLEEP, SSTOP}" if "p_wchan (procs k1 q) \<noteq> 0" for q
        using slp_okD(3) [OF ok slp_ok_queued [OF ok that]] that u1(3) same by (auto simp: k4_def k3_def sched_same_def)
    qed (use same in \<open>auto simp: k4_def k3_def sched_same_def\<close>)
    moreover have "run_ok k4" using u1(2) same nq f3 by (auto simp: sched_inv_def run_ok_def k4_def k3_def sched_same_def)
    ultimately show ?thesis by (simp add: sched_inv_def)
  qed
  define k5 where "k5 = (if p_pri (procs k4 p) < curpri k4 then k4\<lparr>runrun := runrun k4 + 1\<rparr> else k4)"
  have s5: "sched_same k4 k5" by (simp add: k5_def sched_same_def)
  then have inv5: "sched_inv k5" and w5: "wk_rel {} k4 k5" using inv4 sched_same_inv sched_same_wk by blast+
  have sr: "setrun p k = (if p_flag (procs k5 p) AND SLOAD = 0 \<and> runout k5 \<noteq> 0
      then wakeup (addr k5 Sym_runout) (k5\<lparr>runout := 0\<rparr>) else Ok k5)"
    unfolding setrun_def first bind_cres.simps Let_def k2_def [symmetric] k3_def [symmetric] rq k5_def [symmetric] by simp
  have "\<exists>k'. setrun p k = Ok k' \<and> sched_inv k' \<and> wk_rel {addr k Sym_runout} k5 k'
    \<and> (p_flag (procs k p) AND SLOAD \<noteq> 0 \<or> k' = k5 \<or> run_ok k')"
    using sr wakeup_spec [of "k5\<lparr>runout := 0\<rparr>" "addr k Sym_runout"] inv5 s5 k4(1,4) ro
      sched_same_inv [of k5 "k5\<lparr>runout := 0\<rparr>"] wk_rel_trans [of "{addr k Sym_runout}" k5 "k5\<lparr>runout := 0\<rparr>"]
      sched_same_wk [of k5 "k5\<lparr>runout := 0\<rparr>"]
    by (auto simp: sched_same_def sched_inv_def)
  then obtain k' where k': "setrun p k = Ok k'" "sched_inv k'" "wk_rel {addr k Sym_runout} k5 k'" by blast
  have p5: "p_wchan (procs k5 p) = 0" "p_stat (procs k5 p) = SRUN" "p_flag (procs k5 p) = p_flag (procs k p)" "qs k5 = qs k4"
    using s5 k4 by (auto simp: sched_same_def)
  have p': "p_wchan (procs k' p) = 0" "p_stat (procs k' p) = SRUN" "p_flag (procs k' p) = p_flag (procs k p)"
    using wk_rel_run [OF k'(3) p5(1)] p5 ro by auto
  have "p \<in> set (qs k') \<longleftrightarrow> p_flag (procs k p) AND SLOAD \<noteq> 0"
    using k'(2,3) k4(5) p5(4) p'(3) unfolding sched_inv_def run_ok_def wk_rel_def by (metis subsetD)
  moreover have "p_wchan (procs k' q) = p_wchan (procs k q) \<and> p_stat (procs k' q) = p_stat (procs k q)"
    if q: "q \<noteq> p" "p_wchan (procs k q) \<noteq> addr k Sym_runout" for q
  proof -
    have "p_wchan (procs k5 q) = p_wchan (procs k q) \<and> p_stat (procs k5 q) = p_stat (procs k q)"
      using q(1) s5 same u1(4) by (auto simp: sched_same_def k4_def k3_def)
    then show ?thesis using wk_rel_other [OF k'(3), of q] q(2) by simp
  qed
  ultimately show ?thesis using k' p' True by auto
qed

text \<open>
  C24. \<open>setrun\<close> makes a stopped, sleeping or new process runnable without a panic: it waits on nothing, is
  on the run queue if it is in core, and the queues stay well formed; a process in any other state
  is a panic.
\<close>

theorem setrun_makes_runnable:
  assumes "sched_inv k" "addr k Sym_runout \<noteq> 0"
  shows "if p_stat (procs k p) \<in> {SSTOP, SSLEEP, SIDL}
     then \<exists>k'. setrun p k = Ok k' \<and> sched_inv k' \<and> p_stat (procs k' p) = SRUN \<and> p_wchan (procs k' p) = 0
            \<and> (p \<in> set (qs k') \<longleftrightarrow> p_flag (procs k p) AND SLOAD \<noteq> 0)
     else setrun p k = Panic ''setrun''"
  using setrun_spec [OF assms, of p] by (auto split: if_splits)

theorem setrun_makes_runnable_witness:
  "\<exists>k k'. p_stat (procs k 1) = SSTOP \<and> setrun 1 k = Ok k' \<and> p_stat (procs k' 1) = SRUN \<and> p_wchan (procs k' 1) = 0
     \<and> 1 \<in> set (qs k')"
proof -
  define k :: kern where "k = undefined\<lparr>procs := (\<lambda>p. undefined\<lparr>p_wchan := if p = 1 then 64 else 0,
      p_stat := if p = 1 then SSTOP else SRUN, p_flag := 1\<rparr>),
      slpque := (\<lambda>h. if h = 2 then [1] else []), qs := [2], addr := (\<lambda>_. 1024)\<rparr>"
  have inv: "sched_inv k" by (auto simp: sched_inv_def slp_ok_def run_ok_def k_def HASH_def)
  have "p_stat (procs k 1) = SSTOP" "p_flag (procs k 1) AND SLOAD \<noteq> 0" "addr k Sym_runout = 1024" by (simp_all add: k_def)
  with setrun_makes_runnable [OF inv, of 1] show ?thesis by auto
qed

section \<open>Choosing a process\<close>

text \<open>The search keeps the first process with the least priority number below the bound.\<close>

lemma swtch_search_spec:
  "swtch_search pr ps pp n = (r, m) \<Longrightarrow>
     (case List.find (\<lambda>p. p_flag (pr p) AND SLOAD \<noteq> 0 \<and> p_pri (pr p) < n \<and>
          (\<forall>q\<in>set ps. p_flag (pr q) AND SLOAD \<noteq> 0 \<longrightarrow> p_pri (pr p) \<le> p_pri (pr q))) ps of
        None \<Rightarrow> r = pp \<and> m = n \<and> (\<forall>q\<in>set ps. p_flag (pr q) AND SLOAD \<noteq> 0 \<longrightarrow> n \<le> p_pri (pr q))
      | Some p \<Rightarrow> r = Some p \<and> m = p_pri (pr p))"
proof (induction ps arbitrary: pp n)
  case (Cons x ps)
  let ?l = "\<lambda>p. p_flag (pr p) AND SLOAD \<noteq> 0"
  let ?F = "\<lambda>xs n. List.find (\<lambda>p. ?l p \<and> p_pri (pr p) < n \<and> (\<forall>q\<in>set xs. ?l q \<longrightarrow> p_pri (pr p) \<le> p_pri (pr q)))"
  show ?case
  proof (cases "?l x \<and> p_pri (pr x) < n")
    case False
    then have "?F (x # ps) n (x # ps) = ?F (x # ps) n ps" by auto
    also have "\<dots> = ?F ps n ps" using False by (auto intro!: find_cong)
    finally have e: "?F (x # ps) n (x # ps) = ?F ps n ps" .
    have s: "swtch_search pr ps pp n = (r, m)" using Cons.prems False by (simp split: if_splits)
    show ?thesis unfolding e
      by (cases "?F ps n ps") (use Cons.IH [OF s] False in \<open>auto simp: not_less\<close>)
  next
    case True
    then have s: "swtch_search pr ps (Some x) (p_pri (pr x)) = (r, m)" using Cons.prems by simp
    show ?thesis
    proof (cases "\<forall>q\<in>set ps. ?l q \<longrightarrow> p_pri (pr x) \<le> p_pri (pr q)")
      case le: True
      then have "?F ps (p_pri (pr x)) ps = None" by (auto simp: find_None_iff not_less)
      with Cons.IH [OF s] le True show ?thesis by simp
    next
      case lt: False
      then have "?F (x # ps) n (x # ps) = ?F (x # ps) n ps" by auto
      also have "\<dots> = ?F ps (p_pri (pr x)) ps"
        using lt True by (auto intro!: find_cong)
      finally have e: "?F (x # ps) n (x # ps) = ?F ps (p_pri (pr x)) ps" .
      show ?thesis
      proof (cases "?F ps (p_pri (pr x)) ps")
        case None
        with Cons.IH [OF s] lt show ?thesis by auto
      next
        case (Some p)
        show ?thesis unfolding e using Cons.IH [OF s] Some by simp
      qed
    qed
  qed
qed simp

text \<open>
  \<open>swtch\<close> resumes the process of the run queue with the best (numerically least) priority among those in
  core, the one nearest the front when several tie; it takes exactly that process off the queue,
  records its priority in \<open>curpri\<close> and clears the rescheduling flag. It idles exactly when no process in
  core with a priority below 128 is on the queue. The queues stay well formed, and the panic of a
  diagnostic kernel cannot occur.
\<close>

theorem swtch_picks_best:
  assumes inv: "sched_inv k"
  shows "\<exists>k' res. swtch_select k = Ok (k', res) \<and> sched_inv k' \<and> runrun k' = 0
     \<and> (case res of
          None \<Rightarrow> qs k' = qs k \<and> (\<forall>q\<in>set (qs k). 128 \<le> p_pri (procs k q))
        | Some (p, swapped) \<Rightarrow>
            (\<exists>pre post. qs k = pre @ p # post \<and> qs k' = pre @ post
               \<and> (\<forall>q\<in>set pre. p_pri (procs k p) < p_pri (procs k q)) \<and> (\<forall>q\<in>set post. p_pri (procs k p) \<le> p_pri (procs k q)))
            \<and> p_pri (procs k p) < 128 \<and> curpri k' = p_pri (procs k p)
            \<and> swapped = (p_flag (procs k p) AND SSWAP \<noteq> 0) \<and> p_flag (procs k' p) AND SSWAP = 0)"
proof -
  have ld: "p_flag (procs k q) AND SLOAD \<noteq> 0" "p_stat (procs k q) = SRUN" if "q \<in> set (qs k)" for q
    using inv that by (auto simp: sched_inv_def run_ok_def)
  have dist: "distinct (qs k)" using inv by (simp add: sched_inv_def run_ok_def)
  obtain r m where s: "swtch_search (procs k) (qs k) None 128 = (r, m)" by fastforce
  let ?P = "\<lambda>p. p_flag (procs k p) AND SLOAD \<noteq> 0 \<and> p_pri (procs k p) < 128
    \<and> (\<forall>q\<in>set (qs k). p_flag (procs k q) AND SLOAD \<noteq> 0 \<longrightarrow> p_pri (procs k p) \<le> p_pri (procs k q))"
  note spec = swtch_search_spec [OF s]
  show ?thesis
  proof (cases "List.find ?P (qs k)")
    case None
    with spec have "r = None" "\<forall>q\<in>set (qs k). 128 \<le> p_pri (procs k q)" using ld by auto
    moreover have "sched_inv (k\<lparr>noproc := False, runrun := 0\<rparr>)"
      using inv sched_same_inv [of k "k\<lparr>noproc := False, runrun := 0\<rparr>"] by (simp add: sched_same_def)
    ultimately show ?thesis using s ld by (auto simp: swtch_select_def Let_def)
  next
    case (Some p)
    with spec have r: "r = Some p" "m = p_pri (procs k p)" by auto
    from Some obtain i where i: "i < length (qs k)" "p = qs k ! i" "?P p" "\<forall>j<i. \<not> ?P (qs k ! j)"
      unfolding find_Some_iff by blast
    let ?pre = "take i (qs k)" and ?post = "drop (Suc i) (qs k)"
    have q: "qs k = ?pre @ p # ?post" using i(1,2) by (simp add: id_take_nth_drop)
    have rm: "remove1 p (qs k) = ?pre @ ?post"
      using dist by (subst q, subst (asm) q) (simp add: remove1_append)
    have pre: "p_pri (procs k p) < p_pri (procs k x)" if "x \<in> set ?pre" for x
    proof -
      from that obtain j where j: "j < i" "x = qs k ! j" using i(1) by (auto simp: in_set_conv_nth)
      with i(4) have n: "\<not> ?P x" by blast
      have xin: "x \<in> set (qs k)" using that by (meson in_set_takeD)
      show ?thesis
      proof (rule ccontr)
        assume "\<not> ?thesis"
        then have "?P x" using i(3) ld xin by force
        with n show False by blast
      qed
    qed
    have post: "p_pri (procs k p) \<le> p_pri (procs k x)" if "x \<in> set ?post" for x
      using that i(3) ld by (meson in_set_dropD)
    let ?k = "upd_proc p (\<lambda>q. q\<lparr>p_flag := p_flag q AND NOT SSWAP\<rparr>)
      (k\<lparr>noproc := False, runrun := 0, qs := remove1 p (qs k), curpri := m\<rparr>)"
    have e: "swtch_select k = Ok (?k, Some (p, p_flag (procs k p) AND SSWAP \<noteq> 0))"
      using s r ld by (auto simp: swtch_select_def Let_def)
    have fl: "p_flag (procs k p) AND NOT SSWAP AND SSWAP = 0" by (simp add: and.assoc)
    have fl': "p_flag (procs k q) AND NOT SSWAP AND SLOAD = p_flag (procs k q) AND SLOAD" for q
      by (simp add: and.assoc)
    have "sched_inv ?k"
    proof -
      have "slp_ok ?k" using inv by (auto simp: sched_inv_def slp_ok_def)
      moreover have "run_ok ?k" using inv fl' dist by (auto simp: sched_inv_def run_ok_def)
      ultimately show ?thesis by (simp add: sched_inv_def)
    qed
    then show ?thesis using e q rm pre post i(3) r fl
      by (intro exI conjI) (assumption | auto simp: and.assoc)+
  qed
qed

theorem swtch_picks_best_witness:
  "\<exists>k k'. sched_inv k \<and> qs k = [4, 2, 7] \<and> swtch_select k = Ok (k', Some (2, False)) \<and> qs k' = [4, 7]"
proof -
  define k :: kern where "k = undefined\<lparr>procs := (\<lambda>p. undefined\<lparr>p_wchan := 0, p_stat := SRUN, p_flag := 1,
      p_pri := if p = 4 then 60 else 51\<rparr>), slpque := (\<lambda>_. []), qs := [4, 2, 7]\<rparr>"
  have inv: "sched_inv k" by (auto simp: sched_inv_def slp_ok_def run_ok_def k_def)
  have "swtch_search (procs k) (qs k) None 128 = (Some 2, 51)" by (simp add: k_def)
  then obtain k' where e: "swtch_select k = Ok (k', Some (2, False))"
    by (auto simp: swtch_select_def Let_def k_def)
  with swtch_picks_best [OF inv] have "\<exists>pre post. qs k = pre @ 2 # post \<and> qs k' = pre @ post
     \<and> (\<forall>q\<in>set pre. p_pri (procs k 2) < p_pri (procs k q))" by auto
  then obtain pre post where pp: "[4, 2, 7] = pre @ 2 # post" "qs k' = pre @ post" by (auto simp: k_def)
  then have "pre = [4] \<and> post = [7]" by (auto simp: Cons_eq_append_conv)
  with pp inv e show ?thesis by (intro exI [of _ k] exI [of _ k']) (simp add: k_def)
qed

section \<open>Decay of the processor usage\<close>

text \<open>
  Recomputing the priority of a process that slept: its processor usage is kept after two seconds of
  sleep and is forgotten after three or more (where the constant \<open>SCHMAG\<close>, 8/10, means a decay), and its
  priority follows from the usage left and its nice value; with a nice value in the legal range the
  priority stays within the user priorities 30 to 85.
\<close>

theorem updatepri_usage:
  assumes "p_slptime (procs k p) > 1"
  shows "p_cpu (procs (updatepri p k) p) = (if p_slptime (procs k p) = 2 then p_cpu (procs k p) else 0)
     \<and> p_pri (procs (updatepri p k) p)
       = min 127 (int (unat (p_cpu (procs (updatepri p k) p)) div 16) + PUSER + p_nice (procs k p))
     \<and> (p_nice (procs k p) \<in> {-20..20} \<longrightarrow> p_pri (procs (updatepri p k) p) \<in> {30..85})"
proof -
  let ?a = "unat (p_cpu (procs k p))" and ?s = "p_slptime (procs k p)"
  have lt: "unat x < 256" for x :: "8 word" using unsigned_less [of x, where ?'a = nat] by simp
  have z: "updatepri_loop 0 t = (0, t)" for t by (subst updatepri_loop.simps) simp
  have l: "fst (updatepri_loop ?a (?s - 1)) = (if ?s = 2 then ?a else 0)"
    using assms by (subst updatepri_loop.simps) (auto simp: z)
  then have c: "p_cpu (procs (updatepri p k) p) = (if ?s = 2 then p_cpu (procs k p) else 0)"
    using lt [of "p_cpu (procs k p)"]
    by (cases "updatepri_loop ?a (?s - 1)") (auto simp: updatepri_def setpri_def Let_def split: if_splits)
  have pri: "p_pri (procs (updatepri p k) p)
       = min 127 (int (unat (p_cpu (procs (updatepri p k) p)) div 16) + PUSER + p_nice (procs k p))"
    by (auto simp: updatepri_def setpri_def Let_def min_def split: prod.splits)
  have "unat (p_cpu (procs (updatepri p k) p)) div 16 \<le> 15" using lt [of "p_cpu (procs (updatepri p k) p)"] by simp
  then have "p_nice (procs k p) \<in> {-20..20} \<longrightarrow> p_pri (procs (updatepri p k) p) \<in> {30..85}"
    unfolding pri by (auto simp: min_def)
  with c pri show ?thesis by blast
qed

theorem updatepri_usage_witness:
  "\<exists>k. p_slptime (procs k 1) = 3 \<and> p_cpu (procs k 1) = 200 \<and> p_cpu (procs (updatepri 1 k) 1) = 0
     \<and> p_pri (procs (updatepri 1 k) 1) = 50 \<and> p_pri (procs (updatepri 1 k) 1) \<in> {30..85}"
proof -
  define k :: kern where "k = undefined\<lparr>procs := (\<lambda>_. undefined\<lparr>p_slptime := 3, p_cpu := 200, p_nice := 0\<rparr>)\<rparr>"
  have "p_slptime (procs k 1) = 3" "p_cpu (procs k 1) = 200" "p_nice (procs k 1) = 0" by (simp_all add: k_def)
  with updatepri_usage [of k 1] show ?thesis by (intro exI [of _ k]) auto
qed

end
