(* ===== verification/Signal.thy ===== *)
theory Signal
  imports Sched Resource
begin

text \<open>
  Signals: \<^verbatim>\<open>sys/kern/kern_sig.c\<close> and \<^verbatim>\<open>sys/kern/kern_sig2.c\<close>, with the tables of \<^verbatim>\<open>sys/sys/signalvar.h\<close>. Posting a
  signal, permission to signal, the signal system calls and the choice of the signal to take.
\<close>

section \<open>Signal numbers, masks and properties\<close>

abbreviation (input) SIGILL :: nat where "SIGILL \<equiv> 4"
abbreviation (input) SIGKILL :: nat where "SIGKILL \<equiv> 9"
abbreviation (input) SIGSYS :: nat where "SIGSYS \<equiv> 12"
abbreviation (input) SIGALRM :: nat where "SIGALRM \<equiv> 14"
abbreviation (input) SIGSTOP :: nat where "SIGSTOP \<equiv> 17"
abbreviation (input) SIGTSTP :: nat where "SIGTSTP \<equiv> 18"
abbreviation (input) SIGCONT :: nat where "SIGCONT \<equiv> 19"
abbreviation (input) SIGCHLD :: nat where "SIGCHLD \<equiv> 20"
abbreviation (input) SIGTTIN :: nat where "SIGTTIN \<equiv> 21"
abbreviation (input) SIGTTOU :: nat where "SIGTTOU \<equiv> 22"
abbreviation (input) SIGXCPU :: nat where "SIGXCPU \<equiv> 24"
abbreviation (input) SIGVTALRM :: nat where "SIGVTALRM \<equiv> 26"
abbreviation (input) SIGPROF :: nat where "SIGPROF \<equiv> 27"

abbreviation (input) SIG_DFL :: "32 word" where "SIG_DFL \<equiv> 0"
abbreviation (input) SIG_IGN :: "32 word" where "SIG_IGN \<equiv> 1"
abbreviation (input) SIG_CATCH :: "32 word" where "SIG_CATCH \<equiv> 2"
abbreviation (input) SIG_HOLD :: "32 word" where "SIG_HOLD \<equiv> 3"

abbreviation (input) SA_KILL :: "8 word" where "SA_KILL \<equiv> 0x01"
abbreviation (input) SA_CORE :: "8 word" where "SA_CORE \<equiv> 0x02"
abbreviation (input) SA_STOP :: "8 word" where "SA_STOP \<equiv> 0x04"
abbreviation (input) SA_TTYSTOP :: "8 word" where "SA_TTYSTOP \<equiv> 0x08"
abbreviation (input) SA_IGNORE :: "8 word" where "SA_IGNORE \<equiv> 0x10"
abbreviation (input) SA_CONT :: "8 word" where "SA_CONT \<equiv> 0x20"

abbreviation (input) SA_ONSTACK :: "32 word" where "SA_ONSTACK \<equiv> 0x1"
abbreviation (input) SA_RESTART :: "32 word" where "SA_RESTART \<equiv> 0x2"
abbreviation (input) SA_DISABLE :: "32 word" where "SA_DISABLE \<equiv> 0x4"
abbreviation (input) SA_NOCLDSTOP :: "32 word" where "SA_NOCLDSTOP \<equiv> 0x8"
abbreviation (input) SAS_OLDMASK :: "32 word" where "SAS_OLDMASK \<equiv> 0x01"
abbreviation (input) SAS_ALTSTACK :: "32 word" where "SAS_ALTSTACK \<equiv> 0x02"
abbreviation (input) MINSIGSTKSZ :: int where "MINSIGSTKSZ \<equiv> 128"

text \<open>\<^verbatim>\<open>1L << (m - 1)\<close>\<close>

definition sigmask :: "nat \<Rightarrow> 32 word" where
  "sigmask m = push_bit (m - 1) 1"

text \<open>The table by signal number: nothing, kill, kill with core, stop, tty stop, ignore, continue.\<close>

definition sigprop :: "8 word list" where
  "sigprop =
     [0, 0x01, 0x01, 0x03, 0x03, 0x03, 0x03, 0x03, 0x03, 0x01, 0x03, 0x03, 0x03, 0x01, 0x01, 0x01,
      0x10, 0x04, 0x0c, 0x30, 0x10, 0x0c, 0x0c, 0x10, 0x01, 0x01, 0x01, 0x01, 0x10, 0x10, 0x01, 0x01, 0]"

definition contsigmask :: "32 word" where
  "contsigmask = sigmask SIGCONT"

definition stopsigmask :: "32 word" where
  "stopsigmask = sigmask SIGSTOP OR sigmask SIGTSTP OR sigmask SIGTTIN OR sigmask SIGTTOU"

definition sigcantmask :: "32 word" where
  "sigcantmask = sigmask SIGKILL OR sigmask SIGSTOP"

text \<open>The number of the lowest bit set, counted from 1; 0 if there is none.\<close>

definition ffs :: "32 word \<Rightarrow> nat" where
  "ffs w = (case List.find (\<lambda>i. bit w i) [0..<32] of None \<Rightarrow> 0 | Some i \<Rightarrow> Suc i)"

section \<open>Posting a signal\<close>

definition stop :: "nat \<Rightarrow> kern \<Rightarrow> kern cres" where
  "stop p k =
     (let k = upd_proc p (\<lambda>q. q\<lparr>p_stat := SSTOP, p_flag := p_flag q AND NOT P_WAITED\<rparr>) k
      in wakeup (addr k (Sym_proc (p_pptr (procs k p)))) k)"

text \<open>The label \<open>run\<close> of \<open>psignal\<close>.\<close>

definition psignal_run :: "nat \<Rightarrow> kern \<Rightarrow> kern cres" where
  "psignal_run p k =
     setrun p (if p_pri (procs k p) > PUSER then upd_proc p (\<lambda>q. q\<lparr>p_pri := PUSER\<rparr>) k else k)"

text \<open>What is to be done about the signal.\<close>

definition psignal_action :: "nat \<Rightarrow> nat \<Rightarrow> kern \<Rightarrow> 32 word" where
  "psignal_action p sig k =
     (if p_flag (procs k p) AND P_TRACED \<noteq> 0 then SIG_DFL
      else if p_sigmask (procs k p) AND sigmask sig \<noteq> 0 then SIG_HOLD
      else if p_sigcatch (procs k p) AND sigmask sig \<noteq> 0 then SIG_CATCH
      else SIG_DFL)"

text \<open>A process about to be killed is not kept waiting; a continue signal takes back stop signals.\<close>

definition psignal_prepare :: "nat \<Rightarrow> nat \<Rightarrow> kern \<Rightarrow> kern" where
  "psignal_prepare p sig k =
     (let prop = sigprop ! sig;
          k = (if p_nice (procs k p) > NZERO \<and> psignal_action p sig k = SIG_DFL \<and> prop AND SA_KILL \<noteq> 0
                  \<and> p_flag (procs k p) AND P_TRACED = 0
               then upd_proc p (\<lambda>q. q\<lparr>p_nice := NZERO\<rparr>) k else k)
      in if prop AND SA_CONT \<noteq> 0 then upd_proc p (\<lambda>q. q\<lparr>p_sig := p_sig q AND NOT stopsigmask\<rparr>) k else k)"

text \<open>A stop signal takes back a continue signal; the signal is marked pending.\<close>

definition psignal_pend :: "nat \<Rightarrow> nat \<Rightarrow> kern \<Rightarrow> kern" where
  "psignal_pend p sig k =
     upd_proc p (\<lambda>q. q\<lparr>p_sig := (if sigprop ! sig AND SA_STOP \<noteq> 0 then p_sig q AND NOT contsigmask else p_sig q)
                               OR sigmask sig\<rparr>) k"

text \<open>The case of a stopped process.\<close>

definition psignal_stopped :: "nat \<Rightarrow> nat \<Rightarrow> 32 word \<Rightarrow> kern \<Rightarrow> kern cres" where
  "psignal_stopped p sig action k =
     (let mask = sigmask sig; prop = sigprop ! sig
      in if p_flag (procs k p) AND P_TRACED \<noteq> 0 then Ok k
         else if sig = SIGKILL then psignal_run p k
         else if prop AND SA_CONT \<noteq> 0 then
           (let k = (if action = SIG_DFL then upd_proc p (\<lambda>q. q\<lparr>p_sig := p_sig q AND NOT mask\<rparr>) k else k)
            in if action = SIG_CATCH \<or> p_wchan (procs k p) = 0 then psignal_run p k
               else Ok (upd_proc p (\<lambda>q. q\<lparr>p_stat := SSLEEP\<rparr>) k))
         else if prop AND SA_STOP \<noteq> 0 then Ok (upd_proc p (\<lambda>q. q\<lparr>p_sig := p_sig q AND NOT mask\<rparr>) k)
         else if p_wchan (procs k p) \<noteq> 0 \<and> p_flag (procs k p) AND P_SINTR \<noteq> 0 then unsleep p k
         else Ok k)"

text \<open>
  Posting a signal. The recursion posts \<open>SIGCHLD\<close> to the parent of a process that stops, which is no stop
  signal itself.
\<close>

function psignal :: "nat \<Rightarrow> nat \<Rightarrow> kern \<Rightarrow> kern cres" where
  "psignal p sig k =
     (if p_flag (procs k p) AND P_TRACED = 0 \<and> p_sigignore (procs k p) AND sigmask sig \<noteq> 0 then Ok k
      else
        let prop = sigprop ! sig; action = psignal_action p sig k; k = psignal_prepare p sig k
        in if prop AND SA_STOP \<noteq> 0 \<and> prop AND SA_TTYSTOP \<noteq> 0 \<and> p_pptr (procs k p) = 1 \<and> action = SIG_DFL then Ok k
        else
          let k = psignal_pend p sig k
          in if action = SIG_HOLD \<and> (prop AND SA_CONT = 0 \<or> p_stat (procs k p) \<noteq> SSTOP) then Ok k
          else if p_stat (procs k p) = SSLEEP then
            (if p_flag (procs k p) AND P_SINTR = 0 then Ok k
             else if p_flag (procs k p) AND P_TRACED \<noteq> 0 then psignal_run p k
             else if prop AND SA_CONT \<noteq> 0 \<and> action = SIG_DFL
               then Ok (upd_proc p (\<lambda>q. q\<lparr>p_sig := p_sig q AND NOT (sigmask sig)\<rparr>) k)
             else if prop AND SA_STOP \<noteq> 0 then
               (if action \<noteq> SIG_DFL then psignal_run p k
                else if p_flag (procs k p) AND SVFORK \<noteq> 0 then Ok k
                else
                  let k = upd_proc p (\<lambda>q. q\<lparr>p_sig := p_sig q AND NOT (sigmask sig), p_ptracesig := int sig\<rparr>) k
                  in bind_cres (if p_flag (procs k (p_pptr (procs k p))) AND P_NOCLDSTOP = 0
                                then psignal (p_pptr (procs k p)) SIGCHLD k else Ok k)
                       (stop p))
             else psignal_run p k)
          else if p_stat (procs k p) = SSTOP then psignal_stopped p sig action k
          else Ok k)"
  by pat_completeness auto
termination
  by (relation "measure (\<lambda>(p, sig, k). if sigprop ! sig AND SA_STOP \<noteq> 0 then 1 else 0)") (auto simp: sigprop_def)

declare psignal.simps [simp del]

text \<open>All processes of a process group.\<close>

fun gsignal_loop :: "nat list \<Rightarrow> int \<Rightarrow> nat \<Rightarrow> kern \<Rightarrow> kern cres" where
  "gsignal_loop [] pgrp sig k = Ok k"
| "gsignal_loop (p # ps) pgrp sig k =
     bind_cres (if sint (p_pgrp (procs k p)) = pgrp then psignal p sig k else Ok k) (gsignal_loop ps pgrp sig)"

definition gsignal :: "int \<Rightarrow> nat \<Rightarrow> kern \<Rightarrow> kern cres" where
  "gsignal pgrp sig k = (if pgrp = 0 then Ok k else gsignal_loop (allproc k) pgrp sig k)"

section \<open>Permission to signal, and kill\<close>

text \<open>
  The real user id as \<open>fill_from_u\<close> finds it: from the u-area, which for a process that is swapped out is
  read back from the swap device (assumed to succeed).
\<close>

definition fill_from_u :: "nat \<Rightarrow> kern \<Rightarrow> 32 word" where
  "fill_from_u p k =
     (if p_stat (procs k p) = SZOMB then - 2
      else if p = u_procp (u k) then u_ruid (u k) else p_ruid (procs k p))"

definition cansignal :: "nat \<Rightarrow> nat \<Rightarrow> kern \<Rightarrow> bool cres" where
  "cansignal q signum k =
     (let ruid = fill_from_u q k; curp = curproc k
      in if p_uid curp = 0 \<or> u_ruid (u k) = ruid \<or> scast (p_uid curp) = ruid
            \<or> u_ruid (u k) = scast (p_uid (procs k q)) \<or> p_uid curp = p_uid (procs k q) then Ok True
         else if signum = SIGCONT then of_opt (inferior q k) else Ok False)"

text \<open>The loop of \<open>killpg1\<close>: \<open>f\<close> counts the processes signalled.\<close>

fun killpg1_loop :: "nat list \<Rightarrow> nat \<Rightarrow> int \<Rightarrow> bool \<Rightarrow> nat \<Rightarrow> int \<Rightarrow> kern \<Rightarrow> (kern \<times> int) cres" where
  "killpg1_loop [] signo pgrp every f error k = Ok (k, if error \<noteq> 0 then error else if f = 0 then ESRCH else 0)"
| "killpg1_loop (p # ps) signo pgrp every f error k =
     (if sint (p_pgrp (procs k p)) \<noteq> pgrp \<and> \<not> every \<or> p_ppid (procs k p) = 0 \<or> p_flag (procs k p) AND SSYS \<noteq> 0
         \<or> every \<and> p = u_procp (u k)
      then killpg1_loop ps signo pgrp every f error k
      else bind_cres (cansignal p signo k) (\<lambda>may.
        if \<not> may then killpg1_loop ps signo pgrp every f (if \<not> every then EPERM else error) k
        else bind_cres (if signo \<noteq> 0 then psignal p signo k else Ok k)
               (killpg1_loop ps signo pgrp every (Suc f) error)))"

definition killpg1 :: "nat \<Rightarrow> int \<Rightarrow> bool \<Rightarrow> kern \<Rightarrow> (kern \<times> int) cres" where
  "killpg1 signo pgrp every k =
     (let own = (\<not> every \<and> pgrp = 0); pgrp = (if own then sint (p_pgrp (curproc k)) else pgrp)
      in if own \<and> pgrp = 0 then Ok (k, ESRCH)
         else killpg1_loop (allproc k) signo pgrp every 0 0 k)"

definition kill :: "int \<Rightarrow> int \<Rightarrow> kern \<Rightarrow> kern cres" where
  "kill pid signo k =
     bind_cres
       (if signo < 0 \<or> signo \<ge> int NSIG then Ok (k, EINVAL)
        else if pid > 0 then
          (case pfind pid k of
             None \<Rightarrow> Ok (k, ESRCH)
           | Some p \<Rightarrow>
               bind_cres (cansignal p (nat signo) k) (\<lambda>may.
                 if \<not> may then Ok (k, EPERM)
                 else if signo \<noteq> 0 then bind_cres (psignal p (nat signo) k) (\<lambda>k. Ok (k, 0))
                 else Ok (k, 0)))
        else if pid = - 1 then killpg1 (nat signo) 0 True k
        else if pid = 0 then killpg1 (nat signo) 0 False k
        else killpg1 (nat signo) (- pid) False k)
       (\<lambda>(k, error). Ok (set_error error k))"

definition killpg :: "int \<Rightarrow> int \<Rightarrow> kern \<Rightarrow> kern cres" where
  "killpg pgrp signo k =
     bind_cres (if signo < 0 \<or> signo \<ge> int NSIG then Ok (k, EINVAL) else killpg1 (nat signo) pgrp False k)
       (\<lambda>(k, error). Ok (set_error error k))"


section \<open>Dispositions and masks\<close>

record sigaction_t =
  sa_handler :: "32 word"
  sa_mask :: "32 word"
  sa_flags :: "32 word"

definition sa_words :: "sigaction_t \<Rightarrow> 32 word list" where
  "sa_words sa = [sa_handler sa, sa_mask sa, sa_flags sa]"

definition words_sa :: "32 word list \<Rightarrow> sigaction_t" where
  "words_sa ws = \<lparr>sa_handler = ws ! 0, sa_mask = ws ! 1, sa_flags = ws ! 2\<rparr>"

definition setsigvec :: "nat \<Rightarrow> sigaction_t \<Rightarrow> kern \<Rightarrow> kern" where
  "setsigvec signum sa k =
     (let b = sigmask signum; p = u_procp (u k);
          k = k\<lparr>u := (u k)\<lparr>u_signal := (u_signal (u k))(signum := sa_handler sa),
                           u_sigmask := (u_sigmask (u k))(signum := sa_mask sa AND NOT sigcantmask),
                           u_sigintr := (if sa_flags sa AND SA_RESTART = 0 then u_sigintr (u k) OR b else u_sigintr (u k) AND NOT b),
                           u_sigonstack := (if sa_flags sa AND SA_ONSTACK \<noteq> 0 then u_sigonstack (u k) OR b
                                            else u_sigonstack (u k) AND NOT b)\<rparr>\<rparr>;
          k = (if signum = SIGCHLD then
                 upd_proc p (\<lambda>q. q\<lparr>p_flag := (if sa_flags sa AND SA_NOCLDSTOP \<noteq> 0 then p_flag q OR P_NOCLDSTOP
                                            else p_flag q AND NOT P_NOCLDSTOP)\<rparr>) k
               else k)
      in if sa_handler sa = SIG_IGN \<or> sigprop ! signum AND SA_IGNORE \<noteq> 0 \<and> sa_handler sa = SIG_DFL then
           upd_proc p (\<lambda>q. q\<lparr>p_sig := p_sig q AND NOT b,
                            p_sigignore := (if signum \<noteq> SIGCONT then p_sigignore q OR b else p_sigignore q),
                            p_sigcatch := p_sigcatch q AND NOT b\<rparr>) k
         else
           upd_proc p (\<lambda>q. q\<lparr>p_sigignore := p_sigignore q AND NOT b,
                            p_sigcatch := (if sa_handler sa = SIG_DFL then p_sigcatch q AND NOT b else p_sigcatch q OR b)\<rparr>) k)"

text \<open>The current disposition of a signal, as \<open>sigaction\<close> reports it.\<close>

definition getsigvec :: "nat \<Rightarrow> kern \<Rightarrow> sigaction_t" where
  "getsigvec signum k =
     \<lparr>sa_handler = u_signal (u k) signum, sa_mask = u_sigmask (u k) signum,
      sa_flags = (if u_sigonstack (u k) AND sigmask signum \<noteq> 0 then SA_ONSTACK else 0)
        OR (if u_sigintr (u k) AND sigmask signum = 0 then SA_RESTART else 0)
        OR (if p_flag (curproc k) AND P_NOCLDSTOP \<noteq> 0 then SA_NOCLDSTOP else 0)\<rparr>"

definition sigaction :: "int \<Rightarrow> nat \<Rightarrow> nat \<Rightarrow> 32 word \<Rightarrow> kern \<Rightarrow> kern" where
  "sigaction signum nsa osa sigtramp k =
     (let k = k\<lparr>u := (u k)\<lparr>u_sigtramp := sigtramp\<rparr>\<rparr>
      in if signum \<le> 0 \<or> signum \<ge> int NSIG then set_error EINVAL k
      else if nsa \<noteq> 0 \<and> (signum = int SIGKILL \<or> signum = int SIGSTOP) then set_error EINVAL k
      else
        let (k, error) = (if osa \<noteq> 0 then copyout (sa_words (getsigvec (nat signum) k)) osa k else (k, 0))
        in if error \<noteq> 0 then set_error error k
        else if nsa \<noteq> 0 then
          (case copyin nsa 3 k of
             Inr error \<Rightarrow> set_error error k
           | Inl ws \<Rightarrow> set_error 0 (setsigvec (nat signum) (words_sa ws) k))
        else set_error 0 k)"

definition fatalsig :: "nat \<Rightarrow> kern \<Rightarrow> kern cres" where
  "fatalsig signum k =
     (let mask = sigmask signum; p = u_procp (u k);
          k = k\<lparr>u := (u k)\<lparr>u_signal := (u_signal (u k))(signum := SIG_DFL)\<rparr>\<rparr>
      in psignal p signum
           (upd_proc p (\<lambda>q. q\<lparr>p_sigignore := p_sigignore q AND NOT mask, p_sigcatch := p_sigcatch q AND NOT mask,
                            p_sigmask := p_sigmask q AND NOT mask\<rparr>) k))"

definition siginit :: "nat \<Rightarrow> kern \<Rightarrow> kern" where
  "siginit p k =
     fold (\<lambda>i. if sigprop ! i AND SA_IGNORE \<noteq> 0 \<and> i \<noteq> SIGCONT
               then upd_proc p (\<lambda>q. q\<lparr>p_sigignore := p_sigignore q OR sigmask i\<rparr>) else id) [0..<NSIG] k"

definition sigprocmask :: "int \<Rightarrow> nat \<Rightarrow> nat \<Rightarrow> kern \<Rightarrow> kern" where
  "sigprocmask how nset oset k =
     (let p = u_procp (u k); oldmask = p_sigmask (procs k p);
          (k, error) =
            (if nset = 0 then (k, 0)
             else case copyin nset 1 k of
               Inr error \<Rightarrow> (k, error)
             | Inl ws \<Rightarrow>
                 let newmask = ws ! 0
                 in if how = 1 then (upd_proc p (\<lambda>q. q\<lparr>p_sigmask := p_sigmask q OR (newmask AND NOT sigcantmask)\<rparr>) k, 0)
                    else if how = 2 then (upd_proc p (\<lambda>q. q\<lparr>p_sigmask := p_sigmask q AND NOT newmask\<rparr>) k, 0)
                    else if how = 3 then (upd_proc p (\<lambda>q. q\<lparr>p_sigmask := newmask AND NOT sigcantmask\<rparr>) k, 0)
                    else (k, EINVAL));
          (k, error) = (if error = 0 \<and> oset \<noteq> 0 then copyout [oldmask] oset k else (k, error))
      in set_error error k)"

definition sigpending :: "nat \<Rightarrow> kern \<Rightarrow> kern" where
  "sigpending nset k =
     (let (k, error) = (if nset \<noteq> 0 then copyout [p_sig (curproc k)] nset k else (k, EINVAL))
      in set_error error k)"

definition sigaltstack :: "nat \<Rightarrow> nat \<Rightarrow> kern \<Rightarrow> kern" where
  "sigaltstack nss oss k =
     (let k = (if u_psflags (u k) AND SAS_ALTSTACK = 0
               then k\<lparr>u := (u k)\<lparr>u_sigstk := (u_sigstk (u k))\<lparr>ss_flags := ss_flags (u_sigstk (u k)) OR SA_DISABLE\<rparr>\<rparr>\<rparr> else k);
          st = u_sigstk (u k);
          (k, error) = (if oss \<noteq> 0 then copyout [ss_base st, ss_size st, ss_flags st] oss k else (k, 0))
      in if error \<noteq> 0 \<or> nss = 0 then set_error error k
      else case copyin nss 3 k of
        Inr error \<Rightarrow> set_error error k
      | Inl ws \<Rightarrow>
          let ss = \<lparr>ss_base = ws ! 0, ss_size = ws ! 1, ss_flags = ws ! 2\<rparr>
          in if ss_flags ss AND SA_DISABLE \<noteq> 0 then
               (if ss_flags (u_sigstk (u k)) AND SA_ONSTACK \<noteq> 0 then set_error EINVAL k
                else set_error 0 (k\<lparr>u := (u k)\<lparr>u_psflags := u_psflags (u k) AND NOT SAS_ALTSTACK,
                                                u_sigstk := (u_sigstk (u k))\<lparr>ss_flags := ss_flags ss\<rparr>\<rparr>\<rparr>))
             else if sint (ss_size ss) < MINSIGSTKSZ then set_error ENOMEM k
             else set_error 0 (k\<lparr>u := (u k)\<lparr>u_psflags := u_psflags (u k) OR SAS_ALTSTACK, u_sigstk := ss\<rparr>\<rparr>))"

definition sigstack :: "nat \<Rightarrow> nat \<Rightarrow> kern \<Rightarrow> kern" where
  "sigstack nss oss k =
     (let (k, error) = (if oss \<noteq> 0 then copyout [ss_base (u_sigstk (u k)), ss_flags (u_sigstk (u k)) AND SA_ONSTACK] oss k
                        else (k, 0))
      in if error \<noteq> 0 then set_error error k
      else if nss \<noteq> 0 then
        (case copyin nss 2 k of
           Inr error \<Rightarrow> set_error error k
         | Inl ws \<Rightarrow>
             set_error 0 (k\<lparr>u := (u k)\<lparr>u_sigstk := \<lparr>ss_base = ws ! 0, ss_size = 0,
                 ss_flags = ss_flags (u_sigstk (u k)) OR (ws ! 1 AND SA_ONSTACK)\<rparr>,
               u_psflags := u_psflags (u k) OR SAS_ALTSTACK\<rparr>\<rparr>))
      else set_error 0 k)"

text \<open>The loop of \<open>execsigs\<close>, one turn per caught signal; there are at most 32.\<close>

definition execsigs_one :: "nat \<Rightarrow> nat \<Rightarrow> kern \<Rightarrow> kern" where
  "execsigs_one p nc k =
     (let mask = sigmask nc;
          k = upd_proc p (\<lambda>q. q\<lparr>p_sigcatch := p_sigcatch q AND NOT mask\<rparr>) k;
          k = (if sigprop ! nc AND SA_IGNORE \<noteq> 0
               then upd_proc p (\<lambda>q. q\<lparr>p_sigignore := (if nc \<noteq> SIGCONT then p_sigignore q OR mask else p_sigignore q),
                                    p_sig := p_sig q AND NOT mask\<rparr>) k
               else k)
      in k\<lparr>u := (u k)\<lparr>u_signal := (u_signal (u k))(nc := SIG_DFL)\<rparr>\<rparr>)"

fun execsigs_loop :: "nat \<Rightarrow> nat \<Rightarrow> kern \<Rightarrow> kern cres" where
  "execsigs_loop 0 p k = Stuck"
| "execsigs_loop (Suc n) p k =
     (if p_sigcatch (procs k p) \<noteq> 0 then execsigs_loop n p (execsigs_one p (ffs (p_sigcatch (procs k p))) k) else Ok k)"

definition execsigs :: "nat \<Rightarrow> kern \<Rightarrow> kern cres" where
  "execsigs p k =
     bind_cres (execsigs_loop 33 p k) (\<lambda>k.
       Ok (k\<lparr>u := (u k)\<lparr>u_sigstk := \<lparr>ss_base = 0, ss_size = 0, ss_flags = SA_DISABLE\<rparr>, u_psflags := 0\<rparr>\<rparr>))"

definition nosys :: "kern \<Rightarrow> kern cres" where
  "nosys k =
     psignal (u_procp (u k)) SIGSYS
       (if u_signal (u k) SIGSYS = SIG_IGN \<or> u_signal (u k) SIGSYS = SIG_HOLD then set_error EINVAL k else k)"

section \<open>Taking a signal\<close>

text \<open>
  Other processes run while this one is stopped: \<open>env n k\<close> is the state in which it is resumed when it left
  the processor in state \<open>k\<close> with \<open>n\<close> turns to go, and \<open>procxmt\<close> carries out the request of a tracing parent.
\<close>

fun trace_stop :: "(nat \<Rightarrow> kern \<Rightarrow> kern) \<Rightarrow> (kern \<Rightarrow> kern \<times> bool) \<Rightarrow> nat \<Rightarrow> nat \<Rightarrow> kern \<Rightarrow> kern cres" where
  "trace_stop env procxmt 0 p k = Stuck"
| "trace_stop env procxmt (Suc n) p k =
     bind_cres (stop p k) (\<lambda>k.
       let (k, r) = procxmt (env n k)
       in if \<not> r \<and> p_flag (procs k p) AND P_TRACED \<noteq> 0 then trace_stop env procxmt n p k else Ok k)"

text \<open>The stop for the tracing parent in \<open>issignal\<close>; \<open>None\<close>: look for signals again.\<close>

definition issignal_traced ::
  "(nat \<Rightarrow> kern \<Rightarrow> kern) \<Rightarrow> (kern \<Rightarrow> kern \<times> bool) \<Rightarrow> nat \<Rightarrow> nat \<Rightarrow> nat \<Rightarrow> kern \<Rightarrow> (kern \<times> nat option) cres" where
  "issignal_traced env procxmt n p sig k =
     (let k = upd_proc p (\<lambda>q. q\<lparr>p_sig := p_sig q AND NOT (sigmask sig), p_ptracesig := int sig\<rparr>) k
      in bind_cres (psignal (p_pptr (procs k p)) SIGCHLD k) (\<lambda>k.
           bind_cres (trace_stop env procxmt n p k) (\<lambda>k.
             let sig = nat (p_ptracesig (procs k p))
             in if sig = 0 then Ok (k, None)
                else
                  let mask = sigmask sig; k = upd_proc p (\<lambda>q. q\<lparr>p_sig := p_sig q OR mask\<rparr>) k
                  in if p_sigmask (procs k p) AND mask \<noteq> 0 then Ok (k, None)
                     else if p_flag (procs k p) AND P_TRACED = 0 then Ok (k, None)
                     else Ok (k, Some sig))))"

text \<open>The switch on the disposition: the new state, and whether the signal is to be taken.\<close>

definition issignal_action :: "(nat \<Rightarrow> kern \<Rightarrow> kern) \<Rightarrow> nat \<Rightarrow> nat \<Rightarrow> nat \<Rightarrow> kern \<Rightarrow> (kern \<times> bool) cres" where
  "issignal_action env n p sig k =
     (let prop = sigprop ! sig
      in if u_signal (u k) sig = SIG_DFL then
           (if sint (p_pid (procs k p)) \<le> 1 then Ok (k, False)
            else if prop AND SA_STOP \<noteq> 0 then
              (if p_flag (procs k p) AND P_TRACED \<noteq> 0 \<or> p_pptr (procs k p) = 1 \<and> prop AND SA_TTYSTOP \<noteq> 0 then Ok (k, False)
               else
                 let k = upd_proc p (\<lambda>q. q\<lparr>p_ptracesig := int sig\<rparr>) k
                 in bind_cres (if p_flag (procs k (p_pptr (procs k p))) AND P_NOCLDSTOP = 0
                               then psignal (p_pptr (procs k p)) SIGCHLD k else Ok k)
                      (\<lambda>k. bind_cres (stop p k) (\<lambda>k. Ok (env n k, False))))
            else if prop AND SA_IGNORE \<noteq> 0 then Ok (k, False)
            else Ok (k, True))
         else if u_signal (u k) sig = SIG_IGN then Ok (k, False)
         else Ok (k, True))"

fun issignal ::
  "(nat \<Rightarrow> kern \<Rightarrow> kern) \<Rightarrow> (kern \<Rightarrow> kern \<times> bool) \<Rightarrow> nat \<Rightarrow> nat \<Rightarrow> kern \<Rightarrow> (kern \<times> nat) cres" where
  "issignal env procxmt 0 p k = Stuck"
| "issignal env procxmt (Suc n) p k =
     (let mask = p_sig (procs k p) AND NOT (p_sigmask (procs k p));
          mask = (if p_flag (procs k p) AND SVFORK \<noteq> 0 then mask AND NOT stopsigmask else mask)
      in if mask = 0 then Ok (k, 0)
      else
        let sig = ffs mask
        in if sigmask sig AND p_sigignore (procs k p) \<noteq> 0 \<and> p_flag (procs k p) AND P_TRACED = 0
           then issignal env procxmt n p (upd_proc p (\<lambda>q. q\<lparr>p_sig := p_sig q AND NOT (sigmask sig)\<rparr>) k)
           else bind_cres (if p_flag (procs k p) AND P_TRACED \<noteq> 0 \<and> p_flag (procs k p) AND SVFORK = 0
                           then issignal_traced env procxmt n p sig k else Ok (k, Some sig))
             (\<lambda>(k, res). case res of
                None \<Rightarrow> issignal env procxmt n p k
              | Some sig \<Rightarrow>
                  bind_cres (issignal_action env n p sig k) (\<lambda>(k, take).
                    if take then Ok (k, sig)
                    else issignal env procxmt n p (upd_proc p (\<lambda>q. q\<lparr>p_sig := p_sig q AND NOT (sigmask sig)\<rparr>) k))))"

definition CURSIG ::
  "(nat \<Rightarrow> kern \<Rightarrow> kern) \<Rightarrow> (kern \<Rightarrow> kern \<times> bool) \<Rightarrow> nat \<Rightarrow> nat \<Rightarrow> kern \<Rightarrow> (kern \<times> nat) cres" where
  "CURSIG env procxmt n p k =
     (if p_sig (procs k p) = 0 \<or> p_flag (procs k p) AND P_TRACED = 0 \<and> p_sig (procs k p) AND NOT (p_sigmask (procs k p)) = 0
      then Ok (k, 0) else issignal env procxmt n p k)"

text \<open>
  What \<open>postsig\<close> ends in: a handler is called with the mask to return to, or the process exits with a
  status. \<open>core\<close> writes the core image and tells whether it did.
\<close>

datatype sig_outcome = Sendsig "32 word" nat "32 word" | Exit int

definition postsig :: "(kern \<Rightarrow> kern \<times> bool) \<Rightarrow> nat \<Rightarrow> kern \<Rightarrow> (kern \<times> sig_outcome) cres" where
  "postsig core sig k =
     (let p = u_procp (u k); mask = sigmask sig;
          k = upd_proc p (\<lambda>q. q\<lparr>p_sig := p_sig q AND NOT mask\<rparr>) k;
          action = u_signal (u k) sig
      in if action \<noteq> SIG_DFL then
           (if diagnostic k \<and> (action = SIG_IGN \<or> p_sigmask (procs k p) AND mask \<noteq> 0) then Panic ''postsig action''
            else
              let k = set_error 0 k;
                  old = (u_psflags (u k) AND SAS_OLDMASK \<noteq> 0);
                  returnmask = (if old then u_oldmask (u k) else p_sigmask (procs k p));
                  k = (if old then k\<lparr>u := (u k)\<lparr>u_psflags := u_psflags (u k) AND NOT SAS_OLDMASK\<rparr>\<rparr> else k);
                  k = upd_proc p (\<lambda>q. q\<lparr>p_sigmask := p_sigmask q OR (u_sigmask (u k) sig OR mask)\<rparr>) k;
                  k = k\<lparr>u := (u k)\<lparr>u_ru := (u_ru (u k))\<lparr>ru_nsignals := ru_nsignals (u_ru (u k)) + 1\<rparr>\<rparr>\<rparr>
              in Ok (k, Sendsig action sig returnmask))
         else
           let (k, dumped) = (if sigprop ! sig AND SA_CORE \<noteq> 0 then core k else (k, False))
           in Ok (k, Exit (if dumped then int (sig OR 0x80) else int sig)))"

end
