(* ===== verification/Sched_Frame.thy ===== *)
theory Sched_Frame
  imports Sched
begin

text \<open>
  What the scheduling routines leave alone: \<open>kcore\<close> blanks out the part of the state that sleeping, waking
  and making runnable may change, so that one equation says that everything else is as before.
\<close>

definition core_of :: "proc \<Rightarrow> proc" where
  "core_of q = q\<lparr>p_wchan := 0, p_stat := SNULL, p_slptime := 0, p_cpu := 0, p_pri := 0\<rparr>"

definition kcore :: "kern \<Rightarrow> kern" where
  "kcore k = k\<lparr>procs := (\<lambda>p. core_of (procs k p)), slpque := (\<lambda>_. []), qs := [], runrun := 0, runout := 0\<rparr>"

lemma core_of_upd [simp]:
  "core_of (q\<lparr>p_wchan := a\<rparr>) = core_of q" "core_of (q\<lparr>p_stat := b\<rparr>) = core_of q"
  "core_of (q\<lparr>p_slptime := c\<rparr>) = core_of q" "core_of (q\<lparr>p_cpu := d\<rparr>) = core_of q" "core_of (q\<lparr>p_pri := e\<rparr>) = core_of q"
  by (simp_all add: core_of_def)

lemma kcore_upd [simp]:
  "kcore (k\<lparr>slpque := a\<rparr>) = kcore k" "kcore (k\<lparr>qs := b\<rparr>) = kcore k" "kcore (k\<lparr>runrun := c\<rparr>) = kcore k"
  "kcore (k\<lparr>runout := d\<rparr>) = kcore k"
  by (simp_all add: kcore_def)

lemma kcore_upd_proc: "(\<And>q. core_of (f q) = core_of q) \<Longrightarrow> kcore (upd_proc p f k) = kcore k"
  by (auto simp: kcore_def upd_proc_def fun_eq_iff)

lemma kcore_D:
  assumes "kcore k' = kcore k"
  shows "u k' = u k" "addr k' = addr k" "allproc k' = allproc k" "diagnostic k' = diagnostic k" "calltodo k' = calltodo k"
    "callfree k' = callfree k" "umem k' = umem k" "ubad k' = ubad k" "char_signed k' = char_signed k" "hz k' = hz k"
    "panicstr k' = panicstr k" "lbolt k' = lbolt k" "time k' = time k" "core_of (procs k' p) = core_of (procs k p)"
    "files k' = files k" "inodes k' = inodes k"
  using arg_cong [OF assms, of u] arg_cong [OF assms, of addr] arg_cong [OF assms, of allproc]
    arg_cong [OF assms, of diagnostic] arg_cong [OF assms, of calltodo] arg_cong [OF assms, of callfree]
    arg_cong [OF assms, of umem] arg_cong [OF assms, of ubad] arg_cong [OF assms, of char_signed]
    arg_cong [OF assms, of hz] arg_cong [OF assms, of panicstr] arg_cong [OF assms, of lbolt] arg_cong [OF assms, of time]
    arg_cong [OF assms, of "\<lambda>k. procs k p"] arg_cong [OF assms, of files] arg_cong [OF assms, of inodes]
  by (simp_all add: kcore_def)

lemma core_of_D:
  assumes "core_of q' = core_of q"
  shows "p_sig q' = p_sig q" "p_sigmask q' = p_sigmask q" "p_sigignore q' = p_sigignore q" "p_sigcatch q' = p_sigcatch q"
    "p_pptr q' = p_pptr q" "p_pid q' = p_pid q" "p_ppid q' = p_ppid q" "p_uid q' = p_uid q" "p_pgrp q' = p_pgrp q"
    "p_flag q' = p_flag q" "p_nice q' = p_nice q" "p_ruid q' = p_ruid q" "p_ptracesig q' = p_ptracesig q"
  using arg_cong [OF assms, of p_sig] arg_cong [OF assms, of p_sigmask] arg_cong [OF assms, of p_sigignore]
    arg_cong [OF assms, of p_sigcatch] arg_cong [OF assms, of p_pptr] arg_cong [OF assms, of p_pid]
    arg_cong [OF assms, of p_ppid] arg_cong [OF assms, of p_uid] arg_cong [OF assms, of p_pgrp]
    arg_cong [OF assms, of p_flag] arg_cong [OF assms, of p_nice] arg_cong [OF assms, of p_ruid]
    arg_cong [OF assms, of p_ptracesig]
  by (simp_all add: core_of_def)

lemmas kcore_proc = core_of_D [OF kcore_D(14)]

section \<open>Every routine keeps the core\<close>

lemma setpri_core [simp]: "kcore (fst (setpri p k)) = kcore k"
  by (simp add: setpri_def Let_def kcore_upd_proc)

lemma updatepri_core [simp]: "kcore (updatepri p k) = kcore k"
  by (simp add: updatepri_def Let_def kcore_upd_proc split: prod.splits)

lemma setrq_core: "setrq p k = Ok k' \<Longrightarrow> kcore k' = kcore k"
  by (auto simp: setrq_def split: if_splits)

lemma unsleep_core: "unsleep p k = Ok k' \<Longrightarrow> kcore k' = kcore k"
  by (auto simp: unsleep_def Let_def kcore_upd_proc split: if_splits)

lemma wakeup_walk_core: "wakeup_walk chan pre rest k = Ok (k', r) \<Longrightarrow> kcore k' = kcore k"
  by (induction chan pre rest k rule: wakeup_walk.induct) (auto simp: Let_def kcore_upd_proc split: if_splits)

lemma wakeup_run_core: "wakeup_run p k = Ok k' \<Longrightarrow> kcore k' = kcore k"
  by (auto simp: wakeup_run_def Let_def kcore_upd_proc dest!: setrq_core split: if_splits)

lemma wakeup_loop_core:
  assumes "\<And>k k'. swapper k = Ok k' \<Longrightarrow> kcore k' = kcore k"
  shows "wakeup_loop swapper chan n k = Ok k' \<Longrightarrow> kcore k' = kcore k"
proof (induction n arbitrary: k)
  case (Suc n)
  then show ?case
    by (auto split: option.splits if_splits dest!: wakeup_walk_core wakeup_run_core assms)
qed simp

lemma wakeup_with_core:
  assumes inner: "\<And>k k'. inner k = Ok k' \<Longrightarrow> kcore k' = kcore k" and w: "wakeup_with inner chan k = Ok k'"
  shows "kcore k' = kcore k"
proof (rule wakeup_loop_core [OF _ w [unfolded wakeup_with_def]])
  fix j j' assume "(if runout j \<noteq> 0 then inner (j\<lparr>runout := 0\<rparr>) else Ok j) = Ok j'"
  then show "kcore j' = kcore j" using inner [of "j\<lparr>runout := 0\<rparr>" j'] by (simp split: if_splits)
qed

lemma wakeup_core:
  assumes "wakeup chan k = Ok k'"
  shows "kcore k' = kcore k"
proof (rule wakeup_with_core [OF _ assms [unfolded wakeup_def]])
  fix j j' assume "wakeup_with Ok (addr j Sym_runout) j = Ok j'"
  then show "kcore j' = kcore j" by (rule wakeup_with_core [rotated]) simp
qed

lemma setrun_core:
  assumes "setrun p k = Ok k'"
  shows "kcore k' = kcore k"
proof -
  from assms obtain k1 where k1: "(case p_stat (procs k p) of
      SSTOP \<Rightarrow> unsleep p k | SSLEEP \<Rightarrow> unsleep p k | SIDL \<Rightarrow> Ok k | _ \<Rightarrow> Panic ''setrun'') = Ok k1"
    and r: "bind_cres (let k = upd_proc p (\<lambda>q. q\<lparr>p_stat := SRUN\<rparr>) (if p_slptime (procs k1 p) > 1 then updatepri p k1 else k1)
        in if p_flag (procs k p) AND SLOAD \<noteq> 0 then setrq p k else Ok k)
      (\<lambda>k. let k = (if p_pri (procs k p) < curpri k then k\<lparr>runrun := runrun k + 1\<rparr> else k)
           in if p_flag (procs k p) AND SLOAD = 0 \<and> runout k \<noteq> 0
              then wakeup (addr k Sym_runout) (k\<lparr>runout := 0\<rparr>) else Ok k) = Ok k'"
    unfolding setrun_def Let_def by auto
  have c1: "kcore k1 = kcore k" using k1 unsleep_core by (auto split: pstat.splits)
  define k2 where "k2 = upd_proc p (\<lambda>q. q\<lparr>p_stat := SRUN\<rparr>) (if p_slptime (procs k1 p) > 1 then updatepri p k1 else k1)"
  have c2: "kcore k2 = kcore k" unfolding k2_def using c1 by (simp add: kcore_upd_proc)
  from r [unfolded Let_def, folded k2_def] obtain k3 where
    k3: "(if p_flag (procs k2 p) AND SLOAD \<noteq> 0 then setrq p k2 else Ok k2) = Ok k3"
    and r3: "(let k = (if p_pri (procs k3 p) < curpri k3 then k3\<lparr>runrun := runrun k3 + 1\<rparr> else k3)
           in if p_flag (procs k p) AND SLOAD = 0 \<and> runout k \<noteq> 0
              then wakeup (addr k Sym_runout) (k\<lparr>runout := 0\<rparr>) else Ok k) = Ok k'"
    unfolding bind_cres_eq_Ok by (auto simp: Let_def)
  have c3: "kcore k3 = kcore k" using k3 setrq_core c2 by (metis cres.inject(1))
  define k4 where "k4 = (if p_pri (procs k3 p) < curpri k3 then k3\<lparr>runrun := runrun k3 + 1\<rparr> else k3)"
  have c4: "kcore k4 = kcore k" using c3 by (simp add: k4_def)
  have "kcore k' = kcore k4"
    using r3 [unfolded Let_def, folded k4_def] wakeup_core [of "addr k4 Sym_runout" "k4\<lparr>runout := 0\<rparr>" k'] by (auto split: if_splits)
  with c4 show ?thesis by simp
qed

section \<open>Updates the invariant does not see\<close>

lemma sched_inv_upd_proc:
  assumes "\<And>q. p_wchan (f q) = p_wchan q \<and> p_stat (f q) = p_stat q \<and> p_flag (f q) = p_flag q"
  shows "sched_inv (upd_proc p f k) = sched_inv k"
  by (rule sched_same_inv) (simp add: sched_same_def assms)

lemma sched_inv_u [simp]: "sched_inv (k\<lparr>u := x\<rparr>) = sched_inv k"
  by (rule sched_same_inv) (simp add: sched_same_def)

text \<open>A sleeping process that is stopped stays on its sleep queue, and the other way round.\<close>

lemma sched_inv_stat:
  assumes inv: "sched_inv k" and p: "p \<notin> set (qs k)" and s: "s \<in> {SSLEEP, SSTOP}"
    and f: "\<And>q. p_wchan (f q) = p_wchan q \<and> p_stat (f q) = s"
  shows "sched_inv (upd_proc p f k)"
  using inv p s f unfolding sched_inv_def slp_ok_def run_ok_def by auto

end
