(* ===== verification/Signal_Inv.thy ===== *)
theory Signal_Inv
  imports Signal Sched_Frame
begin

text \<open>
  Posting signals: what \<open>psignal\<close> keeps invariant, and how it reaches a process that is stopped or asleep.
\<close>

section \<open>Masks\<close>

lemma bit_sigmask: "bit (sigmask s) i \<longleftrightarrow> i = s - 1 \<and> i < 32"
  by (auto simp: sigmask_def bit_simps)

lemma word_and_zero: "w AND m = 0 \<longleftrightarrow> (\<forall>i. \<not> (bit w i \<and> bit m i))" for w m :: "32 word"
proof
  assume "w AND m = 0"
  then show "\<forall>i. \<not> (bit w i \<and> bit m i)" using bit_and_iff [of w m] by simp
next
  assume "\<forall>i. \<not> (bit w i \<and> bit m i)"
  then show "w AND m = 0" by (intro bit_word_eqI) (auto simp: bit_simps)
qed

lemma sigmask_and: "w AND sigmask s \<noteq> 0 \<longleftrightarrow> s - 1 < 32 \<and> bit w (s - 1)"
  unfolding word_and_zero by (auto simp: bit_sigmask)

lemma bit_stopsigmask: "bit stopsigmask i \<longleftrightarrow> i \<in> {16, 17, 20, 21}"
  by (auto simp: stopsigmask_def bit_simps bit_sigmask)

lemma bit_contsigmask: "bit contsigmask i \<longleftrightarrow> i = 18"
  by (auto simp: contsigmask_def bit_sigmask)

lemma bit_sigcantmask: "bit sigcantmask i \<longleftrightarrow> i = 8 \<or> i = 16"
  by (auto simp: sigcantmask_def bit_simps bit_sigmask)

lemma stopsigmask_and: "w AND stopsigmask = 0 \<longleftrightarrow> \<not> bit w 16 \<and> \<not> bit w 17 \<and> \<not> bit w 20 \<and> \<not> bit w 21"
  unfolding word_and_zero by (auto simp: bit_stopsigmask)

lemmas sig_bits = bit_sigmask bit_stopsigmask bit_contsigmask bit_sigcantmask

text \<open>The stop signals and the continue signal, by the table.\<close>

lemma sig_cases:
  assumes "0 < sig" "sig < NSIG"
  shows "(sigprop ! sig AND SA_STOP \<noteq> 0 \<longleftrightarrow> sig \<in> {17, 18, 21, 22}) \<and> (sigprop ! sig AND SA_CONT \<noteq> 0 \<longleftrightarrow> sig = 19)
     \<and> (sigprop ! sig AND SA_IGNORE \<noteq> 0 \<longleftrightarrow> sig \<in> {16, 19, 20, 23, 28, 29})"
proof -
  have "\<forall>sig\<in>set [1..<32]. (sigprop ! sig AND SA_STOP \<noteq> 0 \<longleftrightarrow> sig \<in> {17, 18, 21, 22}) \<and> (sigprop ! sig AND SA_CONT \<noteq> 0 \<longleftrightarrow> sig = 19)
     \<and> (sigprop ! sig AND SA_IGNORE \<noteq> 0 \<longleftrightarrow> sig \<in> {16, 19, 20, 23, 28, 29})"
    unfolding sigprop_def by code_simp
  then show ?thesis using assms by auto
qed

section \<open>Stop and continue exclude each other\<close>

definition excl :: "32 word \<Rightarrow> bool" where
  "excl w \<longleftrightarrow> \<not> bit w 18 \<or> \<not> (bit w 16 \<or> bit w 17 \<or> bit w 20 \<or> bit w 21)"

definition sig_excl :: "kern \<Rightarrow> bool" where
  "sig_excl k \<longleftrightarrow> (\<forall>p. excl (p_sig (procs k p)))"

lemma excl_sub: "excl w \<Longrightarrow> excl (w AND v)"
  by (auto simp: excl_def bit_simps)

lemma excl_pend:
  assumes "0 < sig" "sig < NSIG" "excl w"
  shows "excl ((if sigprop ! sig AND SA_STOP \<noteq> 0
                then (if sigprop ! sig AND SA_CONT \<noteq> 0 then w AND NOT stopsigmask else w) AND NOT contsigmask
                else (if sigprop ! sig AND SA_CONT \<noteq> 0 then w AND NOT stopsigmask else w)) OR sigmask sig)"
proof (cases "sig \<in> {17, 18, 21, 22}")
  case True
  then have "sigprop ! sig AND SA_STOP \<noteq> 0" "\<not> sigprop ! sig AND SA_CONT \<noteq> 0" using sig_cases [OF assms(1,2)] by auto
  then show ?thesis using True by (auto simp: excl_def bit_simps sig_bits)
next
  case False
  then have ns: "\<not> sigprop ! sig AND SA_STOP \<noteq> 0" using sig_cases [OF assms(1,2)] by auto
  show ?thesis
  proof (cases "sig = 19")
    case c: True
    then have "sigprop ! sig AND SA_CONT \<noteq> 0" using sig_cases [OF assms(1,2)] by auto
    then show ?thesis using ns c by (auto simp: excl_def bit_simps sig_bits)
  next
    case nc: False
    then have "\<not> sigprop ! sig AND SA_CONT \<noteq> 0" using sig_cases [OF assms(1,2)] by auto
    then show ?thesis using ns nc False assms(3) by (simp add: excl_def bit_simps sig_bits) auto
  qed
qed

section \<open>Posting a signal\<close>

text \<open>What a posting to \<open>p\<close> may do: the outcome and the invariants, and that other processes are left alone.\<close>

definition others_same :: "nat set \<Rightarrow> kern \<Rightarrow> kern \<Rightarrow> bool" where
  "others_same P k k' \<longleftrightarrow> addr k' = addr k \<and> (\<forall>q. q \<notin> P \<longrightarrow> p_wchan (procs k q) \<noteq> addr k Sym_runout \<longrightarrow>
     p_wchan (procs k' q) = p_wchan (procs k q) \<and> p_stat (procs k' q) = p_stat (procs k q))"

definition post_ok :: "nat set \<Rightarrow> kern \<Rightarrow> kern cres \<Rightarrow> bool" where
  "post_ok P k r \<longleftrightarrow> (\<exists>k'. r = Ok k' \<and> sched_inv k' \<and> sig_excl k' \<and> others_same P k k')"

lemma post_okI: "r = Ok k' \<Longrightarrow> sched_inv k' \<Longrightarrow> sig_excl k' \<Longrightarrow> others_same P k k' \<Longrightarrow> post_ok P k r"
  by (auto simp: post_ok_def)

lemma others_same_trans: "others_same P k k' \<Longrightarrow> others_same P k' k'' \<Longrightarrow> others_same P k k''"
  by (auto simp: others_same_def)

lemma others_same_mono: "others_same P k k' \<Longrightarrow> P \<subseteq> Q \<Longrightarrow> others_same Q k k'"
  by (auto simp: others_same_def)

lemma others_same_upd: "p \<in> P \<Longrightarrow> others_same P k (upd_proc p f k)"
  by (auto simp: others_same_def)

lemma others_same_refl [simp]: "others_same P k k"
  by (simp add: others_same_def)

lemma post_ok_trans: "others_same P k k1 \<Longrightarrow> post_ok P k1 r \<Longrightarrow> post_ok P k r"
  unfolding post_ok_def using others_same_trans by blast

lemma sig_excl_core:
  assumes "kcore k' = kcore k"
  shows "sig_excl k' = sig_excl k"
proof -
  have "p_sig (procs k' p) = p_sig (procs k p)" for p by (rule kcore_proc(1) [OF assms])
  then show ?thesis by (simp add: sig_excl_def)
qed

lemma sig_excl_upd: "sig_excl k \<Longrightarrow> excl (p_sig (f (procs k p))) \<Longrightarrow> sig_excl (upd_proc p f k)"
  by (simp add: sig_excl_def)

lemma psignal_run_ok:
  assumes "sched_inv k" "sig_excl k" "addr k Sym_runout \<noteq> 0" "p_stat (procs k p) \<in> {SSLEEP, SSTOP}"
  shows "post_ok {p} k (psignal_run p k)"
proof -
  define k1 where "k1 = (if p_pri (procs k p) > PUSER then upd_proc p (\<lambda>q. q\<lparr>p_pri := PUSER\<rparr>) k else k)"
  have k1: "sched_inv k1" "sig_excl k1" "addr k1 = addr k" "p_stat (procs k1 p) = p_stat (procs k p)" "others_same {p} k k1"
    using assms by (auto simp: k1_def sched_inv_upd_proc others_same_upd sig_excl_def)
  from setrun_spec [of k1 p] k1 assms obtain k' where
    k': "setrun p k1 = Ok k'" "sched_inv k'" "\<forall>q. q \<noteq> p \<longrightarrow> p_wchan (procs k1 q) \<noteq> addr k1 Sym_runout \<longrightarrow>
                 p_wchan (procs k' q) = p_wchan (procs k1 q) \<and> p_stat (procs k' q) = p_stat (procs k1 q)"
    by auto
  have "others_same {p} k1 k'" using k'(3) kcore_D(2) [OF setrun_core [OF k'(1)]] by (auto simp: others_same_def)
  with k1(5) have o: "others_same {p} k k'" by (rule others_same_trans)
  have e: "psignal_run p k = Ok k'" using k'(1) by (simp add: psignal_run_def k1_def)
  have "sig_excl k'" using k1(2) sig_excl_core [OF setrun_core [OF k'(1)]] by simp
  with e k'(2) show ?thesis using o by (rule post_okI)
qed

lemma stop_ok:
  assumes inv: "sched_inv k" "sig_excl k" and ro: "\<And>x. addr k x \<noteq> 0" and p: "p \<notin> set (qs k)"
  shows "\<exists>k'. stop p k = Ok k' \<and> sched_inv k' \<and> sig_excl k' \<and> p_stat (procs k' p) = SSTOP"
proof -
  let ?k = "upd_proc p (\<lambda>q. q\<lparr>p_stat := SSTOP, p_flag := p_flag q AND NOT P_WAITED\<rparr>) k"
  let ?c = "addr k (Sym_proc (p_pptr (procs k p)))"
  have i: "sched_inv ?k" by (rule sched_inv_stat [OF inv(1) p, of SSTOP]) auto
  have x: "sig_excl ?k" using inv(2) by (simp add: sig_excl_def)
  from wakeup_spec [OF i, of ?c] ro obtain k' where k': "wakeup ?c ?k = Ok k'" "sched_inv k'"
    "wk_rel {?c, addr k Sym_runout} ?k k'" by auto
  have "prel {?c, addr k Sym_runout} ?k k' p" using k'(3) by (simp add: wk_rel_def)
  then have "p_stat (procs k' p) = SSTOP" by (auto simp: prel_def)
  then show ?thesis using k' sig_excl_core [OF wakeup_core [OF k'(1)]] x by (simp add: stop_def Let_def)
qed


lemma post_ok_Ok [simp]: "post_ok P k (Ok k') \<longleftrightarrow> sched_inv k' \<and> sig_excl k' \<and> others_same P k k'"
  by (auto simp: post_ok_def)

text \<open>Changes of the signal fields of a process.\<close>

lemma post_upd_sig:
  assumes "sched_inv k" "sig_excl k" "p \<in> P" "excl (p_sig (f (procs k p)))"
    "\<And>q. p_wchan (f q) = p_wchan q \<and> p_stat (f q) = p_stat q \<and> p_flag (f q) = p_flag q"
  shows "post_ok P k (Ok (upd_proc p f k))"
  using assms by (simp add: sched_inv_upd_proc sig_excl_upd others_same_upd)

lemma unsleep_ok:
  assumes "sched_inv k" "sig_excl k"
  shows "post_ok {p} k (unsleep p k)"
proof -
  from unsleep_spec [OF assms(1), of p] obtain k' where k': "unsleep p k = Ok k'" "sched_inv k'"
    "procs k' = (procs k)(p := (procs k p)\<lparr>p_wchan := 0\<rparr>)" by blast
  have "others_same {p} k k'" using k'(3) kcore_D(2) [OF unsleep_core [OF k'(1)]] by (simp add: others_same_def)
  then show ?thesis using k' sig_excl_core [OF unsleep_core [OF k'(1)]] assms(2) by simp
qed

lemma psignal_stopped_ok:
  assumes inv: "sched_inv k" "sig_excl k" "addr k Sym_runout \<noteq> 0" and st: "p_stat (procs k p) = SSTOP"
  shows "post_ok {p} k (psignal_stopped p sig action k)"
proof -
  let ?k = "upd_proc p (\<lambda>q. q\<lparr>p_sig := p_sig q AND NOT (sigmask sig)\<rparr>) k"
  have ex: "excl (p_sig (procs k p) AND v)" for v using inv(2) excl_sub by (simp add: sig_excl_def)
  have k: "post_ok {p} k (Ok ?k)" by (rule post_upd_sig) (use inv ex in auto)
  define k1 where "k1 = (if action = SIG_DFL then ?k else k)"
  have k1: "sched_inv k1" "sig_excl k1" "others_same {p} k k1" "p_stat (procs k1 p) = SSTOP" "addr k1 = addr k"
    using k inv st by (auto simp: k1_def)
  have run: "post_ok {p} k (psignal_run p k)" by (rule psignal_run_ok) (use inv st in auto)
  have run1: "post_ok {p} k (psignal_run p k1)"
    by (rule post_ok_trans [OF k1(3) psignal_run_ok]) (use inv k1 in auto)
  have nq: "p \<notin> set (qs k1)" using k1 by (auto simp: sched_inv_def run_ok_def)
  have "sched_inv (upd_proc p (\<lambda>q. q\<lparr>p_stat := SSLEEP\<rparr>) k1)" by (rule sched_inv_stat [OF k1(1) nq, of SSLEEP]) auto
  moreover have "sig_excl (upd_proc p (\<lambda>q. q\<lparr>p_stat := SSLEEP\<rparr>) k1)" using k1(2) by (simp add: sig_excl_def)
  ultimately have slp: "post_ok {p} k (Ok (upd_proc p (\<lambda>q. q\<lparr>p_stat := SSLEEP\<rparr>) k1))"
    using others_same_trans [OF k1(3) others_same_upd [of p "{p}"]] by simp
  have id: "post_ok {p} k (Ok k)" using inv by simp
  show ?thesis
    unfolding psignal_stopped_def Let_def k1_def [symmetric]
    using run run1 slp k id unsleep_ok [OF inv(1,2)] by (auto simp del: post_ok_Ok)
qed

text \<open>The state when the signal has been marked pending.\<close>

lemma psignal_prepare_simps [simp]:
  "p_stat (procs (psignal_prepare p sig k) q) = p_stat (procs k q)" "p_wchan (procs (psignal_prepare p sig k) q) = p_wchan (procs k q)"
  "p_flag (procs (psignal_prepare p sig k) q) = p_flag (procs k q)" "p_pptr (procs (psignal_prepare p sig k) q) = p_pptr (procs k q)"
  "p_sig (procs (psignal_prepare p sig k) p) =
     (if sigprop ! sig AND SA_CONT \<noteq> 0 then p_sig (procs k p) AND NOT stopsigmask else p_sig (procs k p))"
  "addr (psignal_prepare p sig k) = addr k"
  by (auto simp: psignal_prepare_def Let_def)

lemma psignal_pend_simps [simp]:
  "p_stat (procs (psignal_pend p sig k) q) = p_stat (procs k q)" "p_wchan (procs (psignal_pend p sig k) q) = p_wchan (procs k q)"
  "p_flag (procs (psignal_pend p sig k) q) = p_flag (procs k q)" "p_pptr (procs (psignal_pend p sig k) q) = p_pptr (procs k q)"
  "p_sig (procs (psignal_pend p sig k) p) =
     (if sigprop ! sig AND SA_STOP \<noteq> 0 then p_sig (procs k p) AND NOT contsigmask else p_sig (procs k p)) OR sigmask sig"
  "addr (psignal_pend p sig k) = addr k"
  by (auto simp: psignal_pend_def)

lemma psignal_prepare_ok:
  assumes "sched_inv k" "sig_excl k"
  shows "post_ok {p} k (Ok (psignal_prepare p sig k))"
proof -
  define k1 where "k1 = (if p_nice (procs k p) > NZERO \<and> psignal_action p sig k = SIG_DFL \<and> sigprop ! sig AND SA_KILL \<noteq> 0
                  \<and> p_flag (procs k p) AND P_TRACED = 0
               then upd_proc p (\<lambda>q. q\<lparr>p_nice := NZERO\<rparr>) k else k)"
  have k1: "sched_inv k1" "sig_excl k1" "others_same {p} k k1" "p_sig (procs k1 p) = p_sig (procs k p)"
    using assms by (auto simp: k1_def sched_inv_upd_proc others_same_upd sig_excl_def)
  have "excl (p_sig (procs k1 p) AND NOT stopsigmask)" using k1(2) excl_sub by (simp add: sig_excl_def)
  with k1 have "post_ok {p} k1 (Ok (upd_proc p (\<lambda>q. q\<lparr>p_sig := p_sig q AND NOT stopsigmask\<rparr>) k1))"
    by (intro post_upd_sig) auto
  from post_ok_trans [OF k1(3) this] k1 show ?thesis
    unfolding psignal_prepare_def Let_def k1_def [symmetric] by simp
qed

lemma psignal_pend_ok:
  assumes "sched_inv k" "sig_excl k" "0 < sig" "sig < NSIG"
  shows "post_ok {p} k (Ok (psignal_pend p sig (psignal_prepare p sig k)))"
proof -
  let ?k = "psignal_prepare p sig k"
  have ok: "sched_inv ?k" "sig_excl ?k" "others_same {p} k ?k" using psignal_prepare_ok [OF assms(1,2), of p sig] by auto
  have "excl (p_sig (procs k p))" using assms(2) by (simp add: sig_excl_def)
  note ex = excl_pend [OF assms(3,4) this]
  have "post_ok {p} ?k (Ok (psignal_pend p sig ?k))" unfolding psignal_pend_def
    by (rule post_upd_sig [OF ok(1,2)]) (use ex in \<open>auto split: if_splits\<close>)
  then show ?thesis by (rule post_ok_trans [OF ok(3)])
qed

lemma psignal_nonstop_ok:
  assumes inv: "sched_inv k" "sig_excl k" and ro: "addr k Sym_runout \<noteq> 0" and sig: "0 < sig" "sig < NSIG"
    and ns: "sigprop ! sig AND SA_STOP = 0"
  shows "post_ok {p} k (psignal p sig k)"
proof -
  define k1 where "k1 = psignal_pend p sig (psignal_prepare p sig k)"
  have ok: "post_ok {p} k (Ok k1)" unfolding k1_def by (rule psignal_pend_ok [OF inv sig])
  then have k1: "sched_inv k1" "sig_excl k1" "others_same {p} k k1" by auto
  then have ro1: "addr k1 Sym_runout \<noteq> 0" using ro by (simp add: others_same_def)
  have ex: "excl (p_sig (procs k1 p) AND v)" for v using k1(2) excl_sub by (simp add: sig_excl_def)
  have upd: "post_ok {p} k (Ok (upd_proc p (\<lambda>q. q\<lparr>p_sig := p_sig q AND NOT (sigmask sig)\<rparr>) k1))"
    by (rule post_ok_trans [OF k1(3) post_upd_sig]) (use k1 ex in auto)
  have run: "post_ok {p} k (psignal_run p k1)" if "p_stat (procs k1 p) = SSLEEP"
    by (rule post_ok_trans [OF k1(3) psignal_run_ok [OF k1(1,2) ro1]]) (use that in auto)
  have stp: "post_ok {p} k (psignal_stopped p sig a k1)" if "p_stat (procs k1 p) = SSTOP" for a
    by (rule post_ok_trans [OF k1(3) psignal_stopped_ok [OF k1(1,2) ro1 that]])
  have id: "post_ok {p} k (Ok k)" using inv by simp
  show ?thesis
    by (subst psignal.simps) (use ns ok upd run stp id in \<open>auto simp: Let_def k1_def [symmetric] simp del: post_ok_Ok\<close>)
qed


text \<open>Stopping a sleeping process: the parent is told, then the process stops.\<close>

lemma psignal_stop_ok:
  assumes inv: "sched_inv k" "sig_excl k" and ad: "\<And>x. addr k x \<noteq> 0" and st: "p_stat (procs k p) = SSLEEP"
    and np: "p_pptr (procs k p) \<noteq> p" "p_wchan (procs k p) \<noteq> addr k Sym_runout"
  shows "\<exists>k'. bind_cres (if p_flag (procs k (p_pptr (procs k p))) AND P_NOCLDSTOP = 0
             then psignal (p_pptr (procs k p)) SIGCHLD k else Ok k) (stop p) = Ok k'
     \<and> sched_inv k' \<and> sig_excl k' \<and> p_stat (procs k' p) = SSTOP"
proof -
  let ?pp = "p_pptr (procs k p)"
  have chld: "post_ok {?pp} k (psignal ?pp SIGCHLD k)"
    by (rule psignal_nonstop_ok [OF inv ad]) (auto simp: sigprop_def)
  define r where "r = (if p_flag (procs k ?pp) AND P_NOCLDSTOP = 0 then psignal ?pp SIGCHLD k else Ok k)"
  have "post_ok {?pp} k r" unfolding r_def using chld inv by auto
  then obtain k1 where k1: "r = Ok k1" "sched_inv k1" "sig_excl k1" "others_same {?pp} k k1" by (auto simp: post_ok_def)
  have "p_stat (procs k1 p) = SSLEEP" "addr k1 = addr k" using k1(4) np st by (auto simp: others_same_def)
  then have "p \<notin> set (qs k1)" using k1(2) by (auto simp: sched_inv_def run_ok_def)
  from stop_ok [OF k1(2,3) _ this] ad \<open>addr k1 = addr k\<close> obtain k' where
    "stop p k1 = Ok k'" "sched_inv k'" "sig_excl k'" "p_stat (procs k' p) = SSTOP" by auto
  then show ?thesis unfolding r_def [symmetric] using k1(1) by auto
qed

lemma psignal_ok:
  assumes inv: "sched_inv k" "sig_excl k" and ad: "\<And>x. addr k x \<noteq> 0" and sig: "0 < sig" "sig < NSIG"
    and np: "p_pptr (procs k p) \<noteq> p" "p_wchan (procs k p) \<noteq> addr k Sym_runout"
  shows "\<exists>k'. psignal p sig k = Ok k' \<and> sched_inv k' \<and> sig_excl k'"
proof (cases "sigprop ! sig AND SA_STOP = 0")
  case True
  from psignal_nonstop_ok [OF inv ad sig True, of p] show ?thesis by (auto simp: post_ok_def)
next
  case False
  define k1 where "k1 = psignal_pend p sig (psignal_prepare p sig k)"
  have k0: "sched_inv (psignal_prepare p sig k)" "sig_excl (psignal_prepare p sig k)"
    using psignal_prepare_ok [OF inv, of p sig] by auto
  have k1: "sched_inv k1" "sig_excl k1" "addr k1 = addr k" "p_wchan (procs k1 p) = p_wchan (procs k p)"
    "p_pptr (procs k1 p) = p_pptr (procs k p)"
    using psignal_pend_ok [OF inv sig, of p] by (auto simp: k1_def others_same_def)
  let ?Q = "\<lambda>r. \<exists>k'. r = Ok k' \<and> sched_inv k' \<and> sig_excl k'"
  have ex: "excl (p_sig (procs k1 p) AND v)" for v using k1(2) excl_sub by (simp add: sig_excl_def)
  have upd: "sched_inv (upd_proc p (\<lambda>q. q\<lparr>p_sig := p_sig q AND NOT (sigmask sig)\<rparr>) k1)"
    "sig_excl (upd_proc p (\<lambda>q. q\<lparr>p_sig := p_sig q AND NOT (sigmask sig)\<rparr>) k1)"
    using k1 ex by (auto simp: sched_inv_upd_proc intro: sig_excl_upd)
  define k2 where "k2 = upd_proc p (\<lambda>q. q\<lparr>p_sig := p_sig q AND NOT (sigmask sig), p_ptracesig := int sig\<rparr>) k1"
  have k2: "sched_inv k2" "sig_excl k2" "addr k2 = addr k" "p_wchan (procs k2 p) = p_wchan (procs k p)"
    "p_pptr (procs k2 p) = p_pptr (procs k p)" "p_stat (procs k2 p) = p_stat (procs k1 p)"
    using k1 ex by (auto simp: k2_def sched_inv_upd_proc intro: sig_excl_upd)
  have run: "?Q (psignal_run p k1)" if "p_stat (procs k1 p) = SSLEEP"
    using psignal_run_ok [OF k1(1,2), of p] that k1(3) ad by (auto simp: post_ok_def)
  have stp: "?Q (psignal_stopped p sig a k1)" if "p_stat (procs k1 p) = SSTOP" for a
    using psignal_stopped_ok [OF k1(1,2) _ that, of sig a] k1(3) ad by (auto simp: post_ok_def)
  have stop: "?Q (bind_cres (if p_flag (procs k2 (p_pptr (procs k2 p))) AND P_NOCLDSTOP = 0
             then psignal (p_pptr (procs k2 p)) SIGCHLD k2 else Ok k2) (stop p))" if "p_stat (procs k1 p) = SSLEEP"
    using psignal_stop_ok [OF k2(1,2), of p] k2 that ad np by auto
  show ?thesis
    unfolding psignal.simps [of p sig k] Let_def k1_def [symmetric] k2_def [symmetric]
    using inv k0 k1 upd run stp stop False by (auto simp del: bind_cres_eq_Ok)
qed

text \<open>
  C27. Posting a signal never panics: whatever the state of the process, \<open>psignal\<close> returns, the sleep queues and the run queue
  stay well formed, and no process ever has a continue signal and a stop signal pending together. The
  process is not its own parent and does not sleep on the swapper's event.
\<close>

theorem psignal_keeps_invariants:
  assumes "sched_inv k" "sig_excl k" "\<forall>x. addr k x \<noteq> 0" "0 < sig \<and> sig < NSIG"
    "p_pptr (procs k p) \<noteq> p" "p_wchan (procs k p) \<noteq> addr k Sym_runout"
  shows "\<exists>k'. psignal p sig k = Ok k' \<and> sched_inv k' \<and> sig_excl k'"
  using psignal_ok [of k sig p] assms by blast

theorem psignal_keeps_invariants_witness:
  "\<exists>k k'. psignal 2 18 k = Ok k' \<and> p_stat (procs k 2) = SSLEEP \<and> sched_inv k' \<and> sig_excl k'"
proof -
  define k :: kern where "k = undefined\<lparr>procs := (\<lambda>p. undefined\<lparr>p_wchan := if p = 2 then 64 else 0,
      p_stat := if p = 2 then SSLEEP else SRUN, p_flag := 0x81, p_sig := 0, p_pptr := 0\<rparr>),
      slpque := (\<lambda>h. if h = 2 then [2] else []), qs := [], addr := (\<lambda>_. 1024)\<rparr>"
  have inv: "sched_inv k" by (auto simp: sched_inv_def slp_ok_def run_ok_def k_def HASH_def)
  have "sig_excl k" "\<forall>x. addr k x \<noteq> 0" "p_pptr (procs k 2) \<noteq> 2" "p_wchan (procs k 2) \<noteq> addr k Sym_runout" "p_stat (procs k 2) = SSLEEP"
    by (simp_all add: sig_excl_def excl_def k_def)
  with psignal_keeps_invariants [OF inv, of 18 2] have "p_stat (procs k 2) = SSLEEP \<and> (\<exists>k'. psignal 2 18 k = Ok k' \<and> sched_inv k' \<and> sig_excl k')"
    by simp
  then show ?thesis by blast
qed


section \<open>Signals that cannot be escaped\<close>

lemma psignal_run_result:
  assumes "sched_inv k" "addr k Sym_runout \<noteq> 0" "p_stat (procs k p) \<in> {SSLEEP, SSTOP}"
  shows "\<exists>k'. psignal_run p k = Ok k' \<and> p_stat (procs k' p) = SRUN \<and> p_wchan (procs k' p) = 0
     \<and> (p \<in> set (qs k') \<longleftrightarrow> p_flag (procs k p) AND SLOAD \<noteq> 0) \<and> p_sig (procs k' p) = p_sig (procs k p)"
proof -
  define k1 where "k1 = (if p_pri (procs k p) > PUSER then upd_proc p (\<lambda>q. q\<lparr>p_pri := PUSER\<rparr>) k else k)"
  have k1: "sched_inv k1" "addr k1 = addr k" "p_stat (procs k1 p) = p_stat (procs k p)"
    "p_flag (procs k1 p) = p_flag (procs k p)" "p_sig (procs k1 p) = p_sig (procs k p)"
    using assms by (auto simp: k1_def sched_inv_upd_proc)
  from setrun_spec [of k1 p] k1 assms obtain k' where k': "setrun p k1 = Ok k'" "p_stat (procs k' p) = SRUN"
    "p_wchan (procs k' p) = 0" "p \<in> set (qs k') \<longleftrightarrow> p_flag (procs k1 p) AND SLOAD \<noteq> 0" by auto
  then show ?thesis using k1 kcore_proc(1) [OF setrun_core [OF k'(1)], of p] by (simp add: psignal_run_def k1_def [symmetric])
qed

lemma psignal_pend_inv:
  assumes "sched_inv k"
  shows "sched_inv (psignal_pend p sig (psignal_prepare p sig k))"
  using assms by (auto simp: psignal_pend_def psignal_prepare_def Let_def sched_inv_upd_proc)

text \<open>
  C28. A kill signal that is neither held nor ignored reaches its process wherever it waits: a stopped process, and one asleep
  where signals may interrupt it, is runnable afterwards, waits on nothing, is on the run queue if it
  is in core, and has the signal pending. A continue signal restarts a stopped process, which runs at once if it
  waited on nothing or catches the signal and goes on sleeping otherwise, and takes back every stop
  signal that was pending.
\<close>

theorem psignal_kill_and_continue:
  assumes inv: "sched_inv k" and ro: "addr k Sym_runout \<noteq> 0" and tr: "p_flag (procs k p) AND P_TRACED = 0"
    and sig: "sig \<in> {SIGKILL, SIGCONT}"
    and ign: "p_sigignore (procs k p) AND sigmask sig = 0" "p_sigmask (procs k p) AND sigmask sig = 0"
    and st: "p_stat (procs k p) = SSTOP \<or> sig = SIGKILL \<and> p_stat (procs k p) = SSLEEP \<and> p_flag (procs k p) AND P_SINTR \<noteq> 0"
  shows "\<exists>k'. psignal p sig k = Ok k'
     \<and> (if sig = SIGKILL \<or> p_sigcatch (procs k p) AND sigmask sig \<noteq> 0 \<or> p_wchan (procs k p) = 0
        then p_stat (procs k' p) = SRUN \<and> p_wchan (procs k' p) = 0 \<and> (p \<in> set (qs k') \<longleftrightarrow> p_flag (procs k p) AND SLOAD \<noteq> 0)
        else p_stat (procs k' p) = SSLEEP \<and> p_wchan (procs k' p) = p_wchan (procs k p))
     \<and> (sig = SIGKILL \<longrightarrow> p_sig (procs k' p) AND sigmask SIGKILL \<noteq> 0)
     \<and> (sig = SIGCONT \<longrightarrow> p_sig (procs k' p) AND stopsigmask = 0)"
proof -
  define k1 where "k1 = psignal_pend p sig (psignal_prepare p sig k)"
  have k1: "sched_inv k1" "addr k1 = addr k" "p_stat (procs k1 p) = p_stat (procs k p)" "p_flag (procs k1 p) = p_flag (procs k p)"
    "p_wchan (procs k1 p) = p_wchan (procs k p)"
    using psignal_pend_inv [OF inv, of p sig] by (auto simp: k1_def)
  show ?thesis
  proof (cases "sig = SIGKILL")
    case True
    have pr: "sigprop ! SIGKILL = 1" by (simp add: sigprop_def)
    have f1: "psignal_pend p SIGKILL (psignal_prepare p SIGKILL k) = k1" using True by (simp add: k1_def)
    have "p_stat (procs k1 p) \<in> {SSLEEP, SSTOP}" using st k1(3) by auto
    from psignal_run_result [OF k1(1) _ this] k1 ro obtain k' where k': "psignal_run p k1 = Ok k'" "p_stat (procs k' p) = SRUN"
      "p_wchan (procs k' p) = 0" "p \<in> set (qs k') \<longleftrightarrow> p_flag (procs k p) AND SLOAD \<noteq> 0" "p_sig (procs k' p) = p_sig (procs k1 p)"
      by auto
    have "psignal p SIGKILL k = psignal_run p k1"
      unfolding psignal.simps [of p SIGKILL k] Let_def f1
      using True tr ign st k1 pr by (auto simp: psignal_action_def psignal_stopped_def)
    moreover have "p_sig (procs k1 p) AND sigmask SIGKILL \<noteq> 0"
      unfolding sigmask_and using True pr by (simp add: k1_def bit_simps sig_bits)
    ultimately show ?thesis using k' True by auto
  next
    case False
    then have s: "sig = SIGCONT" "p_stat (procs k p) = SSTOP" using sig st by auto
    have pr: "sigprop ! SIGCONT = 0x30" by (simp add: sigprop_def)
    have f1: "psignal_pend p SIGCONT (psignal_prepare p SIGCONT k) = k1" using s by (simp add: k1_def)
    define a where "a = psignal_action p SIGCONT k"
    have a: "a = (if p_sigcatch (procs k p) AND sigmask SIGCONT \<noteq> 0 then SIG_CATCH else SIG_DFL)"
      using tr ign s by (simp add: a_def psignal_action_def)
    define k2 where "k2 = (if a = SIG_DFL then upd_proc p (\<lambda>q. q\<lparr>p_sig := p_sig q AND NOT (sigmask SIGCONT)\<rparr>) k1 else k1)"
    have k2: "sched_inv k2" "addr k2 = addr k" "p_stat (procs k2 p) = SSTOP" "p_flag (procs k2 p) = p_flag (procs k p)"
      "p_wchan (procs k2 p) = p_wchan (procs k p)" using k1 s(2) by (auto simp: k2_def sched_inv_upd_proc)
    have n0: "p_sig (procs k1 p) AND stopsigmask = 0"
      unfolding stopsigmask_and using s(1) pr by (simp add: k1_def bit_simps sig_bits)
    have nostop: "p_sig (procs k2 p) AND stopsigmask = 0"
      using n0 unfolding stopsigmask_and by (simp add: k2_def bit_simps)
    have e: "psignal p SIGCONT k = (if a = SIG_CATCH \<or> p_wchan (procs k2 p) = 0 then psignal_run p k2
        else Ok (upd_proc p (\<lambda>q. q\<lparr>p_stat := SSLEEP\<rparr>) k2))"
      unfolding psignal.simps [of p SIGCONT k] Let_def a_def [symmetric] f1
      using s tr ign k1 pr a by (auto simp: psignal_stopped_def Let_def k2_def)
    have "p_stat (procs k2 p) \<in> {SSLEEP, SSTOP}" using k2 by simp
    from psignal_run_result [OF k2(1) _ this] k2 ro obtain k' where k': "psignal_run p k2 = Ok k'" "p_stat (procs k' p) = SRUN"
      "p_wchan (procs k' p) = 0" "p \<in> set (qs k') \<longleftrightarrow> p_flag (procs k p) AND SLOAD \<noteq> 0" "p_sig (procs k' p) = p_sig (procs k2 p)"
      by auto
    show ?thesis
      by (cases "a = SIG_CATCH \<or> p_wchan (procs k p) = 0") (use s e k' k2 a nostop in \<open>auto split: if_splits\<close>)
  qed
qed

theorem psignal_kill_and_continue_witness:
  "\<exists>k k'. p_stat (procs k 2) = SSTOP \<and> psignal 2 9 k = Ok k' \<and> p_stat (procs k' 2) = SRUN \<and> p_sig (procs k' 2) AND sigmask 9 \<noteq> 0"
proof -
  define k :: kern where "k = undefined\<lparr>procs := (\<lambda>p. undefined\<lparr>p_wchan := if p = 2 then 64 else 0,
      p_stat := if p = 2 then SSTOP else SRUN, p_flag := 1, p_sig := 0, p_sigignore := 0, p_sigmask := 0\<rparr>),
      slpque := (\<lambda>h. if h = 2 then [2] else []), qs := [], addr := (\<lambda>_. 1024)\<rparr>"
  have inv: "sched_inv k" by (auto simp: sched_inv_def slp_ok_def run_ok_def k_def HASH_def)
  have st: "p_stat (procs k 2) = SSTOP" by (simp add: k_def)
  have "\<exists>k'. psignal 2 9 k = Ok k' \<and> p_stat (procs k' 2) = SRUN \<and> p_sig (procs k' 2) AND sigmask 9 \<noteq> 0"
    using psignal_kill_and_continue [OF inv, of 2 9] st by (auto simp: k_def)
  with st show ?thesis by blast
qed

end
