(* ===== verification/Signal_Disp.thy ===== *)
theory Signal_Disp
  imports Signal_Inv
begin

text \<open>
  Dispositions and masks of the running process: the bit sets in the process table agree with the
  handlers in the u-area, the signals that cannot be caught stay that way, and \<open>issignal\<close> picks the signal
  to take.
\<close>

section \<open>The lowest bit\<close>

lemma ffs_spec:
  assumes "w \<noteq> 0"
  shows "\<exists>i<32. ffs w = Suc i \<and> bit w i \<and> (\<forall>j<i. \<not> bit w j)"
proof -
  from assms obtain i where i: "bit w i" by (auto simp: bit_eq_iff)
  then have "i < 32" using bit_imp_le_length [OF i] by simp
  with i have "List.find (\<lambda>i. bit w i) [0..<32] \<noteq> None" by (auto simp: find_None_iff)
  then obtain j where j: "List.find (\<lambda>i. bit w i) [0..<32] = Some j" by blast
  then have "j < 32" "bit w j" "\<forall>i<j. \<not> bit w i" by (auto simp: find_Some_iff)
  then show ?thesis using j by (auto simp: ffs_def)
qed

section \<open>The invariant\<close>

definition disp_at :: "32 word \<Rightarrow> 32 word \<Rightarrow> 32 word \<Rightarrow> nat \<Rightarrow> bool" where
  "disp_at catch ign h s \<longleftrightarrow>
     (bit catch (s - 1) \<longleftrightarrow> h \<noteq> SIG_DFL \<and> h \<noteq> SIG_IGN)
   \<and> (bit ign (s - 1) \<longleftrightarrow> s \<noteq> SIGCONT \<and> (h = SIG_IGN \<or> h = SIG_DFL \<and> sigprop ! s AND SA_IGNORE \<noteq> 0))"

definition disp_ok :: "kern \<Rightarrow> bool" where
  "disp_ok k \<longleftrightarrow>
     (\<forall>s. 0 < s \<and> s < NSIG \<longrightarrow> disp_at (p_sigcatch (curproc k)) (p_sigignore (curproc k)) (u_signal (u k) s) s)
   \<and> u_signal (u k) SIGKILL = SIG_DFL \<and> u_signal (u k) SIGSTOP = SIG_DFL
   \<and> \<not> bit (p_sigcatch (curproc k)) 31
   \<and> p_sigmask (curproc k) AND sigcantmask = 0 \<and> u_oldmask (u k) AND sigcantmask = 0
   \<and> (\<forall>s. u_sigmask (u k) s AND sigcantmask = 0)"

lemma sigcantmask_and: "w AND sigcantmask = 0 \<longleftrightarrow> \<not> bit w 8 \<and> \<not> bit w 16"
  unfolding word_and_zero by (auto simp: bit_sigcantmask)

lemma disp_ok_cong:
  assumes "disp_ok k" "u_procp (u k') = u_procp (u k)" "p_sigcatch (curproc k') = p_sigcatch (curproc k)"
    "p_sigignore (curproc k') = p_sigignore (curproc k)" "p_sigmask (curproc k') AND sigcantmask = 0"
    "u_oldmask (u k') AND sigcantmask = 0" "u_signal (u k') = u_signal (u k)" "u_sigmask (u k') = u_sigmask (u k)"
  shows "disp_ok k'"
  using assms unfolding disp_ok_def by metis

lemma setsigvec_disp:
  assumes ok: "disp_ok k" and s: "0 < signum" "signum < NSIG" "signum \<noteq> SIGKILL" "signum \<noteq> SIGSTOP"
  shows "disp_ok (setsigvec signum sa k)"
proof -
  let ?k = "setsigvec signum sa k" and ?h = "sa_handler sa"
  have u: "u_procp (u ?k) = u_procp (u k)" "u_signal (u ?k) = (u_signal (u k))(signum := ?h)"
    "u_sigmask (u ?k) = (u_sigmask (u k))(signum := sa_mask sa AND NOT sigcantmask)" "u_oldmask (u ?k) = u_oldmask (u k)"
    "p_sigmask (curproc ?k) = p_sigmask (curproc k)"
    by (auto simp: setsigvec_def Let_def)
  have d: "disp_at (p_sigcatch (curproc ?k)) (p_sigignore (curproc ?k)) (u_signal (u ?k) s) s" if "0 < s" "s < NSIG" for s
  proof -
    have o: "disp_at (p_sigcatch (curproc k)) (p_sigignore (curproc k)) (u_signal (u k) s) s" using ok that by (simp add: disp_ok_def)
    show ?thesis
    proof (cases "s = signum")
      case True
      with o that show ?thesis by (auto simp: disp_at_def setsigvec_def Let_def bit_simps bit_sigmask)
    next
      case False
      then have "s - 1 \<noteq> signum - 1" using that s by arith
      with o that False show ?thesis by (auto simp: disp_at_def setsigvec_def Let_def bit_simps bit_sigmask)
    qed
  qed
  have "\<not> bit (p_sigcatch (curproc ?k)) 31" using ok s by (auto simp: disp_ok_def setsigvec_def Let_def bit_simps bit_sigmask)
  with d u ok s show ?thesis unfolding disp_ok_def by (auto simp: sigcantmask_and bit_simps bit_sigcantmask)
qed

lemma copyout_u: "copyout ws a k = (k', e) \<Longrightarrow> u k' = u k \<and> procs k' = procs k"
  by (auto simp: copyout_def split: if_splits)

lemma disp_ok_frame: "u k' = (u k)\<lparr>u_error := e\<rparr> \<Longrightarrow> procs k' = procs k \<Longrightarrow> disp_ok k' = disp_ok k"
  by (simp add: disp_ok_def)

lemma sigaction_disp:
  assumes ok: "disp_ok k"
  shows "disp_ok (sigaction signum nsa osa tramp k)"
proof -
  let ?k = "k\<lparr>u := (u k)\<lparr>u_sigtramp := tramp\<rparr>\<rparr>"
  have k0: "disp_ok ?k" using ok by (simp add: disp_ok_def)
  have err: "disp_ok (set_error e j)" if "disp_ok j" for e j using that by (simp add: disp_ok_def)
  obtain k1 e where c: "(if osa \<noteq> 0 then copyout (sa_words (getsigvec (nat signum) ?k)) osa ?k else (?k, 0)) = (k1, e)" by fastforce
  then have "u k1 = u ?k" "procs k1 = procs ?k" by (auto split: if_splits dest: copyout_u)
  with k0 have k1: "disp_ok k1" by (simp add: disp_ok_def)
  show ?thesis
  proof (cases "signum \<le> 0 \<or> signum \<ge> int NSIG \<or> nsa \<noteq> 0 \<and> (signum = int SIGKILL \<or> signum = int SIGSTOP)")
    case True
    then show ?thesis using err [OF k0] by (auto simp: sigaction_def Let_def)
  next
    case False
    then have s: "0 < nat signum" "nat signum < NSIG" "nsa \<noteq> 0 \<longrightarrow> nat signum \<noteq> SIGKILL \<and> nat signum \<noteq> SIGSTOP" by auto
    have v: "disp_ok (set_error 0 (setsigvec (nat signum) sa k1))" if "nsa \<noteq> 0" for sa
      using err [OF setsigvec_disp [OF k1 s(1,2)]] s(3) that by auto
    show ?thesis
      unfolding sigaction_def Let_def c prod.case using False k1 err v by (auto split: sum.splits)
  qed
qed

lemma sigprocmask_disp:
  assumes ok: "disp_ok k"
  shows "disp_ok (sigprocmask how nset oset k)"
proof -
  have m: "p_sigmask (curproc k) AND sigcantmask = 0" using ok by (simp add: disp_ok_def)
  have upd: "disp_ok (upd_proc (u_procp (u k)) (\<lambda>q. q\<lparr>p_sigmask := f q\<rparr>) k)" if "f (curproc k) AND sigcantmask = 0" for f
    using ok that by (simp add: disp_ok_def)
  define r where "r = (if nset = 0 then (k, 0)
             else case copyin nset 1 k of
               Inr error \<Rightarrow> (k, error)
             | Inl ws \<Rightarrow>
                 let newmask = ws ! 0
                 in if how = 1 then (upd_proc (u_procp (u k)) (\<lambda>q. q\<lparr>p_sigmask := p_sigmask q OR (newmask AND NOT sigcantmask)\<rparr>) k, 0)
                    else if how = 2 then (upd_proc (u_procp (u k)) (\<lambda>q. q\<lparr>p_sigmask := p_sigmask q AND NOT newmask\<rparr>) k, 0)
                    else if how = 3 then (upd_proc (u_procp (u k)) (\<lambda>q. q\<lparr>p_sigmask := newmask AND NOT sigcantmask\<rparr>) k, 0)
                    else (k, EINVAL))"
  have "disp_ok (fst r)"
    unfolding r_def Let_def using ok m by (auto split: sum.splits intro!: upd simp: sigcantmask_and bit_simps bit_sigcantmask)
  moreover obtain k1 e where r: "r = (k1, e)" by fastforce
  ultimately have k1: "disp_ok k1" by simp
  obtain k2 e2 where c: "(if e = 0 \<and> oset \<noteq> 0 then copyout [p_sigmask (curproc k)] oset k1 else (k1, e)) = (k2, e2)" by fastforce
  then have "u k2 = u k1" "procs k2 = procs k1" by (auto split: if_splits dest: copyout_u)
  with k1 have "disp_ok (set_error e2 k2)" by (simp add: disp_ok_def)
  then show ?thesis unfolding sigprocmask_def Let_def r_def [unfolded Let_def, symmetric] r c prod.case by simp
qed


section \<open>exec and delivery\<close>

lemma execsigs_one_disp:
  assumes ok: "disp_ok k" and p: "p = u_procp (u k)" and nc: "0 < nc" "nc < NSIG" "bit (p_sigcatch (curproc k)) (nc - 1)"
  shows "disp_ok (execsigs_one p nc k)"
proof -
  let ?k = "execsigs_one p nc k"
  have at: "disp_at (p_sigcatch (curproc k)) (p_sigignore (curproc k)) (u_signal (u k) s) s" if "0 < s" "s < NSIG" for s
    using ok that by (simp add: disp_ok_def)
  have ni: "\<not> bit (p_sigignore (curproc k)) (nc - 1)" using at [OF nc(1,2)] nc(3) by (auto simp: disp_at_def)
  have "disp_at (p_sigcatch (curproc ?k)) (p_sigignore (curproc ?k)) (u_signal (u ?k) s) s" if s: "0 < s" "s < NSIG" for s
  proof (cases "s = nc")
    case True
    then show ?thesis using s p ni by (auto simp: disp_at_def execsigs_one_def Let_def bit_simps bit_sigmask)
  next
    case False
    then have "s - 1 \<noteq> nc - 1" using s nc by arith
    then show ?thesis using at [OF s] s p False by (auto simp: disp_at_def execsigs_one_def Let_def bit_simps bit_sigmask)
  qed
  then show ?thesis using ok p unfolding disp_ok_def
    by (auto simp: execsigs_one_def Let_def bit_simps)
qed

lemma execsigs_loop_disp:
  assumes "disp_ok k" "p = u_procp (u k)" "card {i. bit (p_sigcatch (procs k p)) i} < n"
  shows "\<exists>k'. execsigs_loop n p k = Ok k' \<and> disp_ok k' \<and> u_procp (u k') = p \<and> p_sigcatch (procs k' p) = 0"
  using assms
proof (induction n arbitrary: k)
  case (Suc n)
  show ?case
  proof (cases "p_sigcatch (procs k p) = 0")
    case True
    then show ?thesis using Suc.prems by simp
  next
    case False
    from ffs_spec [OF this] obtain i where i: "i < 32" "ffs (p_sigcatch (procs k p)) = Suc i" "bit (p_sigcatch (procs k p)) i" by auto
    have "i \<noteq> 31" using i(3) Suc.prems by (auto simp: disp_ok_def)
    with i have nc: "0 < Suc i" "Suc i < NSIG" "bit (p_sigcatch (curproc k)) (Suc i - 1)" using Suc.prems by auto
    let ?k = "execsigs_one p (Suc i) k"
    have d: "disp_ok ?k" by (rule execsigs_one_disp [OF Suc.prems(1,2) nc])
    have b: "{j. bit (p_sigcatch (procs ?k p)) j} = {j. bit (p_sigcatch (procs k p)) j} - {i}"
      using i(1) by (auto simp: execsigs_one_def Let_def bit_simps bit_sigmask dest: bit_imp_le_length)
    have "finite {j. bit (p_sigcatch (procs k p)) j}"
      by (rule finite_subset [of _ "{..<32}"]) (auto dest: bit_imp_le_length)
    then have "card ({j. bit (p_sigcatch (procs k p)) j} - {i}) < card {j. bit (p_sigcatch (procs k p)) j}"
      by (rule card_Diff1_less) (use i(3) in simp)
    then have "card {j. bit (p_sigcatch (procs ?k p)) j} < n" unfolding b using Suc.prems(3) by simp
    moreover have "p = u_procp (u ?k)" using Suc.prems(2) by (simp add: execsigs_one_def Let_def)
    ultimately show ?thesis using Suc.IH [OF d] False i(2) by simp
  qed
qed simp

lemma execsigs_disp:
  assumes "disp_ok k"
  shows "\<exists>k'. execsigs (u_procp (u k)) k = Ok k' \<and> disp_ok k' \<and> p_sigcatch (curproc k') = 0"
proof -
  have "card {i. bit (p_sigcatch (curproc k)) i} \<le> card {..<32::nat}"
    by (rule card_mono) (auto dest: bit_imp_le_length)
  then have "card {i. bit (p_sigcatch (curproc k)) i} < 33" by simp
  from execsigs_loop_disp [OF assms refl this] show ?thesis
    by (auto simp: execsigs_def disp_ok_def)
qed

text \<open>A caught signal that is not held is delivered to its handler.\<close>

lemma postsig_disp:
  assumes ok: "disp_ok k" and sig: "0 < sig" "sig < NSIG" and h: "u_signal (u k) sig \<noteq> SIG_DFL" "u_signal (u k) sig \<noteq> SIG_IGN"
    and m: "p_sigmask (curproc k) AND sigmask sig = 0"
  shows "\<exists>k' r. postsig core sig k = Ok (k', Sendsig (u_signal (u k) sig) sig r) \<and> disp_ok k' \<and> r AND sigcantmask = 0
     \<and> p_sigmask (curproc k') AND sigmask sig \<noteq> 0 \<and> p_sig (curproc k') AND sigmask sig = 0"
proof -
  have nk: "sig \<noteq> SIGKILL" "sig \<noteq> SIGSTOP" using ok h by (auto simp: disp_ok_def)
  define p where "p = u_procp (u k)"
  define r where "r = (if u_psflags (u k) AND SAS_OLDMASK \<noteq> 0 then u_oldmask (u k) else p_sigmask (procs k p))"
  obtain k' where e: "postsig core sig k = Ok (k', Sendsig (u_signal (u k) sig) sig r)"
    and k': "u_procp (u k') = p" "u_signal (u k') = u_signal (u k)" "u_sigmask (u k') = u_sigmask (u k)" "u_oldmask (u k') = u_oldmask (u k)"
      "p_sigcatch (procs k' p) = p_sigcatch (procs k p)" "p_sigignore (procs k' p) = p_sigignore (procs k p)"
      "p_sigmask (procs k' p) = p_sigmask (procs k p) OR (u_sigmask (u k) sig OR sigmask sig)"
      "p_sig (procs k' p) = p_sig (procs k p) AND NOT (sigmask sig)"
    using h m by (auto simp: postsig_def Let_def p_def r_def split: if_splits)
  have sm: "p_sigmask (procs k' p) AND sigcantmask = 0"
    using ok nk sig unfolding disp_ok_def k'(7) sigcantmask_and by (auto simp: p_def bit_simps bit_sigmask)
  have "disp_ok k'" by (rule disp_ok_cong [OF ok]) (use k' sm ok in \<open>auto simp: p_def disp_ok_def\<close>)
  moreover have "r AND sigcantmask = 0" using ok by (simp add: r_def p_def disp_ok_def)
  moreover have "p_sigmask (curproc k') AND sigmask sig \<noteq> 0" unfolding sigmask_and using k'(1,7) sig by (auto simp: bit_simps bit_sigmask)
  moreover have "p_sig (curproc k') AND sigmask sig = 0" using k'(1,8) by (simp add: and.assoc)
  ultimately show ?thesis using e by blast
qed

section \<open>Property\<close>

datatype sig_op = SAction int nat nat "32 word" | SProcmask int nat nat | SExec | SPost nat

fun sig_call :: "sig_op \<Rightarrow> kern \<Rightarrow> kern cres" where
  "sig_call (SAction signum nsa osa tramp) k = Ok (sigaction signum nsa osa tramp k)"
| "sig_call (SProcmask how nset oset) k = Ok (sigprocmask how nset oset k)"
| "sig_call SExec k = execsigs (u_procp (u k)) k"
| "sig_call (SPost sig) k =
     (if 0 < sig \<and> sig < NSIG \<and> u_signal (u k) sig \<noteq> SIG_DFL \<and> u_signal (u k) sig \<noteq> SIG_IGN \<and> p_sigmask (curproc k) AND sigmask sig = 0
      then bind_cres (postsig (\<lambda>k. (k, False)) sig k) (\<lambda>(k, _). Ok k) else Ok k)"

lemma sig_call_disp:
  assumes "disp_ok k"
  shows "\<exists>k'. sig_call op k = Ok k' \<and> disp_ok k'"
proof (cases op)
  case SExec
  then show ?thesis using execsigs_disp [OF assms] by auto
next
  case (SPost sig)
  then show ?thesis using postsig_disp [OF assms, of sig "\<lambda>k. (k, False)"] assms by auto
qed (use assms sigaction_disp sigprocmask_disp in auto)

interpretation sd: safe_component disp_ok "\<lambda>_. True" sig_call
  by unfold_locales (use sig_call_disp in auto)

text \<open>
  C29. The kill and the stop signal cannot be caught, ignored or held, by any sequence of \<open>sigaction\<close>,
  \<open>sigprocmask\<close>, \<open>execsigs\<close> and deliveries of caught signals; and after each the sets of caught and of ignored signals in the process
  table agree with the handlers in the u-area, signal by signal.
\<close>

theorem sigkill_uncatchable:
  assumes "disp_ok k"
  shows "\<exists>k'. run_calls sig_call ops k = Ok k' \<and> disp_ok k'
     \<and> p_sigcatch (curproc k') AND sigcantmask = 0 \<and> p_sigignore (curproc k') AND sigcantmask = 0
     \<and> p_sigmask (curproc k') AND sigcantmask = 0"
proof -
  from sd.run_safe [OF assms, of ops] obtain k' where k': "run_calls sig_call ops k = Ok k'" "disp_ok k'" by auto
  have at: "disp_at (p_sigcatch (curproc k')) (p_sigignore (curproc k')) (u_signal (u k') s) s" if "0 < s" "s < NSIG" for s
    using k'(2) that by (simp add: disp_ok_def)
  have d: "u_signal (u k') 9 = SIG_DFL" "u_signal (u k') 17 = SIG_DFL" using k'(2) by (simp_all add: disp_ok_def)
  have p: "sigprop ! 9 AND SA_IGNORE = 0" "sigprop ! 17 AND SA_IGNORE = 0" by (simp_all add: sigprop_def)
  from at [of 9] at [of 17] d p k' show ?thesis by (simp add: sigcantmask_and disp_at_def disp_ok_def)
qed

theorem sigkill_uncatchable_witness:
  "\<exists>k k'. disp_ok k \<and> run_calls sig_call [SProcmask 3 64 0, SAction 9 64 0 0, SExec] k = Ok k' \<and> p_sigmask (curproc k') AND sigcantmask = 0"
proof -
  define k :: kern where "k = undefined\<lparr>u := undefined\<lparr>u_procp := 1, u_signal := (\<lambda>_. 0), u_sigmask := (\<lambda>_. 0), u_oldmask := 0\<rparr>,
     procs := (\<lambda>_. undefined\<lparr>p_sigcatch := 0, p_sigmask := 0,
       p_sigignore := sigmask 16 OR sigmask 20 OR sigmask 23 OR sigmask 28 OR sigmask 29\<rparr>)\<rparr>"
  have "disp_at 0 (sigmask 16 OR sigmask 20 OR sigmask 23 OR sigmask 28 OR sigmask 29) 0 s" if "0 < s" "s < 32" for s
  proof -
    have c: "sigprop ! s AND SA_IGNORE \<noteq> 0 \<longleftrightarrow> s \<in> {16, 19, 20, 23, 28, 29}" using sig_cases [OF that] by blast
    have n: "bit (sigmask n) (s - 1) \<longleftrightarrow> s = n" if "n \<in> {16, 20, 23, 28, 29}" for n
      unfolding bit_sigmask using that \<open>0 < s\<close> \<open>s < 32\<close> by auto
    show ?thesis unfolding disp_at_def c bit_or_iff using n [of 16] n [of 20] n [of 23] n [of 28] n [of 29] by auto
  qed
  then have ok: "disp_ok k" by (simp add: disp_ok_def k_def)
  from sigkill_uncatchable [OF ok, of "[SProcmask 3 64 0, SAction 9 64 0 0, SExec]"] ok show ?thesis by blast
qed


section \<open>The signal to take\<close>

text \<open>The pending signals that are not held; a process that holds its parent's memory does not stop.\<close>

definition eligible :: "kern \<Rightarrow> nat \<Rightarrow> 32 word" where
  "eligible k p =
     (if p_flag (procs k p) AND SVFORK \<noteq> 0 then (p_sig (procs k p) AND NOT (p_sigmask (procs k p))) AND NOT stopsigmask
      else p_sig (procs k p) AND NOT (p_sigmask (procs k p)))"

text \<open>The signal is to be acted on: it is caught, or its default is to kill a process other than init.\<close>

definition acts :: "kern \<Rightarrow> nat \<Rightarrow> nat \<Rightarrow> bool" where
  "acts k p s \<longleftrightarrow> \<not> bit (p_sigignore (procs k p)) (s - 1) \<and> u_signal (u k) s \<noteq> SIG_IGN
     \<and> (u_signal (u k) s = SIG_DFL \<longrightarrow> sint (p_pid (procs k p)) > 1 \<and> sigprop ! s AND SA_IGNORE = 0)"

definition first_sig :: "kern \<Rightarrow> nat \<Rightarrow> nat" where
  "first_sig k p = (case List.find (\<lambda>s. bit (eligible k p) (s - 1) \<and> acts k p s) [1..<33] of None \<Rightarrow> 0 | Some s \<Rightarrow> s)"

lemma find_append: "List.find P (xs @ ys) = (case List.find P xs of None \<Rightarrow> List.find P ys | Some x \<Rightarrow> Some x)"
  by (induction xs) auto

lemma find_drop:
  assumes "\<And>x. x \<in> set xs \<Longrightarrow> P x \<longleftrightarrow> Q x"
  shows "List.find P xs = List.find Q xs"
  using assms by (induction xs) auto

lemma first_sig_lowest:
  assumes "bit (eligible k p) i" "\<forall>j<i. \<not> bit (eligible k p) j" "acts k p (Suc i)"
  shows "first_sig k p = Suc i"
proof -
  have i: "i < 32" using bit_imp_le_length [OF assms(1)] by simp
  let ?P = "\<lambda>s. bit (eligible k p) (s - 1) \<and> acts k p s"
  have "[1..<33] = [1..<Suc i] @ Suc i # [Suc (Suc i)..<33]" using i upt_split [of 1 "Suc i" 33] upt_conv_Cons [of "Suc i" 33] by simp
  moreover have "List.find ?P [1..<Suc i] = None" using assms(2) by (auto simp: find_None_iff)
  ultimately have "List.find ?P [1..<33] = Some (Suc i)" using assms by (simp add: find_append)
  then show ?thesis by (simp add: first_sig_def)
qed

lemma first_sig_clear:
  fixes i p k
  defines "k1 \<equiv> upd_proc p (\<lambda>q. q\<lparr>p_sig := p_sig q AND NOT (sigmask (Suc i))\<rparr>) k"
  assumes "\<not> acts k p (Suc i)" "i < 32"
  shows "first_sig k1 p = first_sig k p" "bit (eligible k1 p) j \<longleftrightarrow> bit (eligible k p) j \<and> j \<noteq> i"
    "bit (p_sig (procs k1 p)) j \<longleftrightarrow> bit (p_sig (procs k p)) j \<and> j \<noteq> i" "p_flag (procs k1 p) = p_flag (procs k p)"
proof -
  have e: "bit (eligible k1 p) j \<longleftrightarrow> bit (eligible k p) j \<and> j \<noteq> i" for j
    using assms(3) by (auto simp: k1_def eligible_def bit_simps bit_sigmask)
  show "bit (eligible k1 p) j \<longleftrightarrow> bit (eligible k p) j \<and> j \<noteq> i" by (rule e)
  show "bit (p_sig (procs k1 p)) j \<longleftrightarrow> bit (p_sig (procs k p)) j \<and> j \<noteq> i"
    using assms(3) by (auto simp: k1_def bit_simps bit_sigmask dest: bit_imp_le_length)
  show "p_flag (procs k1 p) = p_flag (procs k p)" by (simp add: k1_def)
  have a: "acts k1 p s = acts k p s" for s by (simp add: acts_def k1_def)
  have "bit (eligible k1 p) (s - 1) \<and> acts k1 p s \<longleftrightarrow> bit (eligible k p) (s - 1) \<and> acts k p s" if "s \<in> set [1..<33]" for s
  proof (cases "s - 1 = i")
    case True
    then have "s = Suc i" using that by auto
    with assms(2) a show ?thesis by simp
  qed (use e a in auto)
  then show "first_sig k1 p = first_sig k p" unfolding first_sig_def using find_drop by (metis (no_types, lifting))
qed

lemma issignal_spec:
  assumes "p_flag (procs k p) AND P_TRACED = 0" "eligible k p AND stopsigmask = 0" "card {i. bit (eligible k p) i} < n"
  shows "\<exists>k'. issignal env procxmt n p k = Ok (k', first_sig k p)
     \<and> (\<forall>i. bit (p_sig (procs k' p)) i \<longleftrightarrow> bit (p_sig (procs k p)) i
            \<and> \<not> (bit (eligible k p) i \<and> (first_sig k p = 0 \<or> Suc i < first_sig k p)))"
  using assms
proof (induction n arbitrary: k)
  case (Suc n)
  have el: "(let mask = p_sig (procs k p) AND NOT (p_sigmask (procs k p))
      in if p_flag (procs k p) AND SVFORK \<noteq> 0 then mask AND NOT stopsigmask else mask) = eligible k p"
    by (simp add: eligible_def Let_def)
  show ?case
  proof (cases "eligible k p = 0")
    case True
    have "issignal env procxmt (Suc n) p k = Ok (k, 0)" using True el by (simp add: Let_def)
    moreover have "List.find (\<lambda>s. bit (eligible k p) (s - 1) \<and> acts k p s) [1..<33] = None" using True by (simp add: find_None_iff)
    then have "first_sig k p = 0" by (simp add: first_sig_def)
    ultimately show ?thesis using True by simp
  next
    case False
    from ffs_spec [OF this] obtain i where i: "i < 32" "ffs (eligible k p) = Suc i" "bit (eligible k p) i"
      "\<forall>j<i. \<not> bit (eligible k p) j" by auto
    let ?k = "upd_proc p (\<lambda>q. q\<lparr>p_sig := p_sig q AND NOT (sigmask (Suc i))\<rparr>) k"
    have ig: "sigmask (Suc i) AND p_sigignore (procs k p) \<noteq> 0 \<longleftrightarrow> bit (p_sigignore (procs k p)) i"
      using i(1) sigmask_and [of "p_sigignore (procs k p)" "Suc i"] by (simp add: and.commute)
    have nostop: "sigprop ! Suc i AND SA_STOP = 0"
    proof -
      have "i \<notin> {16, 17, 20, 21}" using Suc.prems(2) i(3) unfolding stopsigmask_and by auto
      then show ?thesis using sig_cases [of "Suc i"] i(1) by (cases "i = 31") (auto simp: sigprop_def)
    qed
    have act: "issignal_action env n p (Suc i) k = Ok (k, acts k p (Suc i))" if "\<not> bit (p_sigignore (procs k p)) i"
      using nostop that by (auto simp: issignal_action_def Let_def acts_def)
    have step: "issignal env procxmt (Suc n) p k = (if acts k p (Suc i) then Ok (k, Suc i) else issignal env procxmt n p ?k)"
    proof (cases "bit (p_sigignore (procs k p)) i")
      case True
      then have "\<not> acts k p (Suc i)" by (simp add: acts_def)
      then show ?thesis using True ig el i(2) False Suc.prems(1) by (simp add: Let_def)
    next
      case nig: False
      show ?thesis using nig ig el i(2) False Suc.prems(1) act [OF nig] by (simp add: Let_def)
    qed
    show ?thesis
    proof (cases "acts k p (Suc i)")
      case True
      have f: "first_sig k p = Suc i" by (rule first_sig_lowest [OF i(3,4) True])
      show ?thesis using step True i(4) by (auto simp: f)
    next
      case na: False
      note c = first_sig_clear [OF na i(1)]
      have b: "{j. bit (eligible ?k p) j} = {j. bit (eligible k p) j} - {i}" using c(2) by auto
      have "finite {j. bit (eligible k p) j}"
        by (rule finite_subset [of _ "{..<32}"]) (auto dest: bit_imp_le_length)
      then have "card ({j. bit (eligible k p) j} - {i}) < card {j. bit (eligible k p) j}"
        by (rule card_Diff1_less) (use i(3) in simp)
      then have card: "card {j. bit (eligible ?k p) j} < n" unfolding b using Suc.prems(3) by simp
      have "eligible ?k p AND stopsigmask = 0" using Suc.prems(2) c(2) unfolding stopsigmask_and by simp
      from Suc.IH [OF _ this card] c(4) Suc.prems(1) obtain k' where k': "issignal env procxmt n p ?k = Ok (k', first_sig ?k p)"
        "\<forall>j. bit (p_sig (procs k' p)) j \<longleftrightarrow> bit (p_sig (procs ?k p)) j
            \<and> \<not> (bit (eligible ?k p) j \<and> (first_sig ?k p = 0 \<or> Suc j < first_sig ?k p))" by auto
      have low: "first_sig k p = 0 \<or> Suc i < first_sig k p"
      proof (rule ccontr)
        assume "\<not> ?thesis"
        then obtain s where s: "List.find (\<lambda>s. bit (eligible k p) (s - 1) \<and> acts k p s) [1..<33] = Some s" "s \<le> Suc i"
          by (auto simp: first_sig_def split: option.splits)
        then have "bit (eligible k p) (s - 1)" "acts k p s" "0 < s" by (auto simp: find_Some_iff)
        moreover have "s \<noteq> Suc i" using na \<open>acts k p s\<close> by auto
        ultimately show False using i(4) s(2) by auto
      qed
      have "bit (p_sig (procs k' p)) j \<longleftrightarrow> bit (p_sig (procs k p)) j
            \<and> \<not> (bit (eligible k p) j \<and> (first_sig k p = 0 \<or> Suc j < first_sig k p))" for j
        using k'(2) [rule_format, of j] c(2,3) [of j] low i(3) unfolding c(1) by (cases "j = i") auto
      then show ?thesis using step na k'(1) c(1) by simp
    qed
  qed
qed simp

text \<open>
  C30. For a process that is not traced and has no stop signal to act on, \<open>issignal\<close> ends within 33 turns of its loop: it
  returns the lowest-numbered signal that is pending, not held and to be acted on (0 if there is
  none), and takes away exactly the pending signals below it that are ignored or have no effect.
\<close>

theorem issignal_takes_lowest:
  assumes "p_flag (procs k p) AND P_TRACED = 0" "eligible k p AND stopsigmask = 0" "n \<ge> 33"
  shows "\<exists>k'. issignal env procxmt n p k = Ok (k', first_sig k p)
     \<and> (\<forall>i. bit (p_sig (procs k' p)) i \<longleftrightarrow> bit (p_sig (procs k p)) i
            \<and> \<not> (bit (eligible k p) i \<and> (first_sig k p = 0 \<or> Suc i < first_sig k p)))"
proof -
  have "card {i. bit (eligible k p) i} \<le> card {..<32::nat}"
    by (rule card_mono) (auto dest: bit_imp_le_length)
  then have "card {i. bit (eligible k p) i} < n" using assms(3) by simp
  from issignal_spec [OF assms(1,2) this] show ?thesis .
qed

theorem issignal_takes_lowest_witness:
  "\<exists>k k'. p_sig (procs k 2) = sigmask 20 OR sigmask 15 OR sigmask 2 \<and> issignal (\<lambda>_ k. k) (\<lambda>k. (k, True)) 33 2 k = Ok (k', 15)"
proof -
  define k :: kern where "k = undefined\<lparr>u := undefined\<lparr>u_signal := (\<lambda>_. 0)\<rparr>, procs := (\<lambda>_. undefined\<lparr>p_flag := 0,
     p_sig := sigmask 20 OR sigmask 15 OR sigmask 2, p_sigmask := 0, p_sigignore := sigmask 2, p_pid := 5\<rparr>)\<rparr>"
  have e: "eligible k 2 = sigmask 20 OR sigmask 15 OR sigmask 2" by (simp add: eligible_def k_def)
  have "eligible k 2 AND stopsigmask = 0" unfolding stopsigmask_and e by (simp add: bit_simps bit_sigmask)
  from issignal_takes_lowest [OF _ this, of 33 "\<lambda>_ k. k" "\<lambda>k. (k, True)"] obtain k' where
    k': "issignal (\<lambda>_ k. k) (\<lambda>k. (k, True)) 33 2 k = Ok (k', first_sig k 2)" by (auto simp: k_def)
  have "first_sig k 2 = 15"
    unfolding first_sig_def e by (simp add: upt_rec bit_or_iff bit_sigmask acts_def k_def sigprop_def)
  with k' show ?thesis by (intro exI [of _ k] exI [of _ k']) (simp add: k_def)
qed

end
