(* ===== verification/Callout.thy ===== *)
theory Callout
  imports Kern_State
begin

text \<open>
  The callout queue of \<^verbatim>\<open>sys/kern/kern_clock.c\<close>. \<open>calltodo\<close> is the list of the pending events, each with the time
  from the event before it; \<open>callfree\<close> holds the unused table entries. The routines run at \<^verbatim>\<open>splclock\<close> or
  \<^verbatim>\<open>splhigh\<close>, so each is one step. The
  times are integers here: an event is entered for an \<^verbatim>\<open>int\<close> of ticks, the differences of two due times are as small, and
  theory Clock_Events shows that the count-down of late events leaves the range of an \<^verbatim>\<open>int\<close> only after 2 to the 31 ticks.
\<close>

section \<open>Operations\<close>

text \<open>The table has \<^verbatim>\<open>NCALL\<close> entries, a number the configuration sets; they start out zero.\<close>

definition coutinit :: "nat \<Rightarrow> kern \<Rightarrow> kern" where
  "coutinit NCALL k = k\<lparr>callfree := replicate NCALL \<lparr>c_time = 0, c_arg = 0, c_func = 0\<rparr>\<rparr>"

text \<open>The search loop of \<open>timeout\<close> and the insertion of the new entry.\<close>

fun timeout_insert :: "callout \<Rightarrow> int \<Rightarrow> callout list \<Rightarrow> callout list" where
  "timeout_insert pnew t [] = [pnew\<lparr>c_time := t\<rparr>]"
| "timeout_insert pnew t (p2 # rest) =
     (if c_time p2 < t
      then p2 # timeout_insert pnew (if c_time p2 > 0 then t - c_time p2 else t) rest
      else pnew\<lparr>c_time := t\<rparr> # p2\<lparr>c_time := c_time p2 - t\<rparr> # rest)"

definition timeout :: "nat \<Rightarrow> nat \<Rightarrow> int \<Rightarrow> kern \<Rightarrow> kern cres" where
  "timeout fn arg t k =
     (let t = (if t \<le> 0 then 1 else t)
      in case callfree k of
           [] \<Rightarrow> Panic ''timeout table overflow''
         | pnew # free \<Rightarrow>
             Ok (k\<lparr>callfree := free,
                   calltodo := timeout_insert (pnew\<lparr>c_arg := arg, c_func := fn\<rparr>) t (calltodo k)\<rparr>))"

text \<open>The loop of \<open>untimeout\<close>: the queue it leaves and the entry taken out of it.\<close>

fun untimeout_remove :: "nat \<Rightarrow> nat \<Rightarrow> callout list \<Rightarrow> callout list \<times> callout option" where
  "untimeout_remove fn arg [] = ([], None)"
| "untimeout_remove fn arg (p2 # rest) =
     (if c_func p2 = fn \<and> c_arg p2 = arg
      then (case rest of
              n # rest' \<Rightarrow> if c_time p2 > 0 then n\<lparr>c_time := c_time n + c_time p2\<rparr> # rest' else rest
            | [] \<Rightarrow> [], Some p2)
      else let (q, r) = untimeout_remove fn arg rest in (p2 # q, r))"

definition untimeout :: "nat \<Rightarrow> nat \<Rightarrow> kern \<Rightarrow> kern" where
  "untimeout fn arg k =
     (case untimeout_remove fn arg (calltodo k) of
        (q, None) \<Rightarrow> k\<lparr>calltodo := q\<rparr>
      | (q, Some p) \<Rightarrow> k\<lparr>calltodo := q, callfree := p # callfree k\<rparr>)"

text \<open>The first loop of \<open>hardclock\<close>: the queue after a tick, and whether an event is due.\<close>

fun callout_tick :: "callout list \<Rightarrow> callout list \<times> bool" where
  "callout_tick [] = ([], False)"
| "callout_tick (p1 # rest) =
     (let p1 = p1\<lparr>c_time := c_time p1 - 1\<rparr>
      in if c_time p1 > 0 then (p1 # rest, False)
         else if c_time p1 = 0 then (p1 # rest, True)
         else (p1 # fst (callout_tick rest), True))"

text \<open>One turn of the loop of \<open>softclock\<close>: take the event at the front off the queue if it is due.\<close>

definition softclock_next :: "kern \<Rightarrow> (kern \<times> callout) option" where
  "softclock_next k =
     (case calltodo k of
        [] \<Rightarrow> None
      | p1 # rest \<Rightarrow> if c_time p1 > 0 then None else Some (k\<lparr>calltodo := rest, callfree := p1 # callfree k\<rparr>, p1))"

definition profil :: "nat \<Rightarrow> nat \<Rightarrow> nat \<Rightarrow> nat \<Rightarrow> kern \<Rightarrow> kern" where
  "profil bufbase bufsize pcoffset pcscale k =
     k\<lparr>u := (u k)\<lparr>u_prof := \<lparr>pr_base = bufbase, pr_size = bufsize, pr_off = pcoffset, pr_scale = pcscale\<rparr>\<rparr>\<rparr>"

section \<open>The schedule a queue stands for\<close>

text \<open>
  The events of a queue with the ticks left until each is due (0 or less when it is due already):
  an event is due the sum of the positive entries before it later than its own entry says.
\<close>

fun sched_of :: "int \<Rightarrow> callout list \<Rightarrow> (int \<times> nat \<times> nat) list" where
  "sched_of b [] = []"
| "sched_of b (c # cs) = (b + c_time c, c_func c, c_arg c) # sched_of (b + max 0 (c_time c)) cs"

abbreviation schedule :: "kern \<Rightarrow> (int \<times> nat \<times> nat) list" where
  "schedule k \<equiv> sched_of 0 (calltodo k)"

text \<open>Behind the first event that is not due, no entry is negative.\<close>

fun callout_wf :: "int \<Rightarrow> callout list \<Rightarrow> bool" where
  "callout_wf b [] = True"
| "callout_wf b (c # cs) = ((0 < b \<longrightarrow> 0 \<le> c_time c) \<and> callout_wf (b + max 0 (c_time c)) cs)"

lemma sched_of_shift: "sched_of (b + d) cs = map (\<lambda>(r, e). (r + d, e)) (sched_of b cs)"
proof (induction cs arbitrary: b)
  case (Cons c cs)
  from Cons [of "b + max 0 (c_time c)"] show ?case by (simp add: algebra_simps)
qed simp

lemma sched_of_mono: "callout_wf b cs \<Longrightarrow> 0 < b \<Longrightarrow> (r, e) \<in> set (sched_of b cs) \<Longrightarrow> b \<le> r"
  by (induction cs arbitrary: b) fastforce+

lemma callout_wf_le: "callout_wf b cs \<Longrightarrow> 0 \<le> b' \<Longrightarrow> b' \<le> b \<Longrightarrow> callout_wf b' cs"
proof (induction cs arbitrary: b b')
  case (Cons c cs)
  from Cons.prems have "0 < b' \<longrightarrow> 0 \<le> c_time c" by auto
  moreover have "callout_wf (b' + max 0 (c_time c)) cs"
    using Cons.IH [of "b + max 0 (c_time c)" "b' + max 0 (c_time c)"] Cons.prems by auto
  ultimately show ?case by simp
qed simp

lemma timeout_insert_sched:
  assumes "callout_wf b cs" "0 < t" "0 \<le> b"
  shows "sched_of b (timeout_insert p t cs) =
      takeWhile (\<lambda>(r, _). r < b + t) (sched_of b cs) @ (b + t, c_func p, c_arg p) # dropWhile (\<lambda>(r, _). r < b + t) (sched_of b cs)
    \<and> callout_wf b (timeout_insert p t cs)"
  using assms
proof (induction cs arbitrary: b t)
  case (Cons c cs)
  show ?case
  proof (cases "c_time c < t")
    case True
    define t' where "t' = (if c_time c > 0 then t - c_time c else t)"
    have t': "0 < t'" "b + max 0 (c_time c) + t' = b + t" using True Cons.prems(2) by (auto simp: t'_def)
    from Cons.IH [of "b + max 0 (c_time c)" t'] Cons.prems t' True show ?thesis by (simp add: t'_def)
  next
    case False
    then have m: "max 0 (c_time c) = c_time c" "max 0 t = t" "max 0 (c_time c - t) = c_time c - t" using Cons.prems(2) by auto
    then show ?thesis using False Cons.prems by simp
  qed
qed auto

lemma timeout_schedule:
  assumes "callout_wf 0 (calltodo k)" "timeout fn arg t k = Ok k'"
  shows "set (schedule k') = insert (max 1 t, fn, arg) (set (schedule k))" "callout_wf 0 (calltodo k')"
proof -
  obtain c free where c: "callfree k = c # free" using assms(2) by (auto simp: timeout_def Let_def split: list.splits)
  let ?t = "max 1 t" and ?p = "c\<lparr>c_arg := arg, c_func := fn\<rparr>"
  have q: "calltodo k' = timeout_insert ?p ?t (calltodo k)" using assms(2) c by (auto simp: timeout_def Let_def max_def)
  have m: "set (takeWhile P xs) \<union> set (dropWhile P xs) = set xs" for P and xs :: "(int \<times> nat \<times> nat) list"
    by (metis set_append takeWhile_dropWhile_id)
  note s = timeout_insert_sched [OF assms(1), of ?t ?p]
  show "set (schedule k') = insert (?t, fn, arg) (set (schedule k))"
    unfolding q using s m [of "\<lambda>(r, _). r < ?t" "schedule k"] by auto
  show "callout_wf 0 (calltodo k')" unfolding q using s by auto
qed

lemma untimeout_remove_sched:
  assumes "callout_wf b cs" "0 \<le> b"
  shows "sched_of b (fst (untimeout_remove fn arg cs)) =
      takeWhile (\<lambda>(_, e). e \<noteq> (fn, arg)) (sched_of b cs) @ tl (dropWhile (\<lambda>(_, e). e \<noteq> (fn, arg)) (sched_of b cs))
    \<and> callout_wf b (fst (untimeout_remove fn arg cs))"
  using assms
proof (induction cs arbitrary: b)
  case (Cons c cs)
  show ?case
  proof (cases "c_func c = fn \<and> c_arg c = arg")
    case False
    with Cons.IH [of "b + max 0 (c_time c)"] Cons.prems show ?thesis by (auto simp: case_prod_beta)
  next
    case True
    show ?thesis
    proof (cases cs)
      case Nil
      with True show ?thesis by simp
    next
      case (Cons n rest)
      show ?thesis
      proof (cases "0 < c_time c")
        case pos: True
        with Cons Cons.prems have n: "0 \<le> c_time n" by auto
        then have m: "max 0 (c_time n) = c_time n" "max 0 (c_time n + c_time c) = c_time n + c_time c"
          "max 0 (c_time c) = c_time c" using pos by auto
        with True Cons Cons.prems n pos show ?thesis by (simp add: algebra_simps)
      next
        case False
        with True Cons Cons.prems show ?thesis by simp
      qed
    qed
  qed
qed simp

lemma callout_tick_sched:
  assumes "callout_wf 0 cs"
  shows "sched_of 0 (fst (callout_tick cs)) = map (\<lambda>(r, e). (r - 1, e)) (sched_of 0 cs)
     \<and> callout_wf 0 (fst (callout_tick cs)) \<and> snd (callout_tick cs) = (\<exists>(r, e)\<in>set (sched_of 0 (fst (callout_tick cs))). r \<le> 0)"
  using assms
proof (induction cs)
  case (Cons c cs)
  consider "c_time c > 1" | "c_time c = 1" | "c_time c < 1" by linarith
  then show ?case
  proof cases
    case 1
    then have m: "max 0 (c_time c) = c_time c" "max 0 (c_time c - 1) = c_time c - 1" by auto
    have s: "sched_of (c_time c - 1) cs = map (\<lambda>(r, e). (r - 1, e)) (sched_of (c_time c) cs)"
      using sched_of_shift [of "c_time c" "- 1" cs] by simp
    have wf: "callout_wf (c_time c - 1) cs" using Cons.prems 1 callout_wf_le [of "c_time c" cs "c_time c - 1"] m by simp
    have "0 < r" if "(r, e) \<in> set (sched_of (c_time c - 1) cs)" for r e
      using sched_of_mono [OF wf _ that] 1 by simp
    then have "\<not> (\<exists>(r, e)\<in>set (sched_of (c_time c - 1) cs). r \<le> 0)" by fastforce
    with 1 m s wf show ?thesis by simp
  next
    case 2
    have "sched_of 0 cs = map (\<lambda>(r, e). (r - 1, e)) (sched_of 1 cs)" using sched_of_shift [of 1 "- 1" cs] by simp
    with 2 Cons.prems callout_wf_le [of 1 cs 0] show ?thesis by (simp add: Let_def)
  next
    case 3
    then have "max 0 (c_time c) = 0" "max 0 (c_time c - 1) = 0" by auto
    with Cons.IH Cons.prems 3 show ?thesis by (simp add: Let_def)
  qed
qed simp


section \<open>Running the events that are due\<close>

text \<open>The events taken off by \<open>softclock\<close> when the routines it calls leave the queue alone.\<close>

function run_due :: "kern \<Rightarrow> kern \<times> (nat \<times> nat) list" where
  "run_due k =
     (case softclock_next k of
        None \<Rightarrow> (k, [])
      | Some (k', p) \<Rightarrow> let (k'', evs) = run_due k' in (k'', (c_func p, c_arg p) # evs))"
  by pat_completeness auto
termination
  by (relation "measure (\<lambda>k. length (calltodo k))") (auto simp: softclock_next_def split: list.splits if_splits)

declare run_due.simps [simp del]

lemma run_due_sched:
  assumes "callout_wf 0 (calltodo k)"
  shows "schedule (fst (run_due k)) = dropWhile (\<lambda>(r, _). r \<le> 0) (schedule k)
     \<and> snd (run_due k) = map snd (takeWhile (\<lambda>(r, _). r \<le> 0) (schedule k)) \<and> callout_wf 0 (calltodo (fst (run_due k)))
     \<and> length (callfree (fst (run_due k))) = length (callfree k) + length (snd (run_due k))"
  using assms
proof (induction k rule: run_due.induct)
  case (1 k)
  show ?case
  proof (cases "calltodo k")
    case Nil
    then have "run_due k = (k, [])" by (subst run_due.simps) (simp add: softclock_next_def)
    with Nil show ?thesis by simp
  next
    case (Cons p rest)
    show ?thesis
    proof (cases "0 < c_time p")
      case True
      then have "run_due k = (k, [])" using Cons by (subst run_due.simps) (simp add: softclock_next_def)
      with True Cons "1.prems" show ?thesis by simp
    next
      case False
      let ?k = "k\<lparr>calltodo := rest, callfree := p # callfree k\<rparr>"
      have nx: "softclock_next k = Some (?k, p)" using Cons False by (simp add: softclock_next_def)
      then have e: "run_due k = (fst (run_due ?k), (c_func p, c_arg p) # snd (run_due ?k))"
        by (subst run_due.simps) (simp add: case_prod_beta)
      have "callout_wf 0 (calltodo ?k)" using "1.prems" Cons False by simp
      with "1.IH" [OF nx refl] e Cons False show ?thesis by simp
    qed
  qed
qed

text \<open>Once the due events are gone, every event lies in the future.\<close>

lemma sched_due_prefix:
  assumes "callout_wf 0 cs" "(r, e) \<in> set (dropWhile (\<lambda>(r, _). r \<le> 0) (sched_of 0 cs))"
  shows "0 < r"
  using assms
proof (induction cs)
  case (Cons c cs)
  show ?case
  proof (cases "c_time c \<le> 0")
    case True
    with Cons show ?thesis by simp
  next
    case False
    with Cons.prems sched_of_mono [of "c_time c" cs r e] show ?thesis by auto
  qed
qed simp

lemma sched_due_iff:
  assumes "callout_wf 0 cs"
  shows "(r, e) \<in> set (takeWhile (\<lambda>(r, _). r \<le> 0) (sched_of 0 cs)) \<longleftrightarrow> (r, e) \<in> set (sched_of 0 cs) \<and> r \<le> 0"
    and "(r, e) \<in> set (dropWhile (\<lambda>(r, _). r \<le> 0) (sched_of 0 cs)) \<longleftrightarrow> (r, e) \<in> set (sched_of 0 cs) \<and> 0 < r"
proof -
  let ?P = "\<lambda>(r, _). r \<le> 0"
  have "set (takeWhile ?P (sched_of 0 cs)) \<union> set (dropWhile ?P (sched_of 0 cs)) = set (sched_of 0 cs)"
    by (metis set_append takeWhile_dropWhile_id)
  moreover have "r \<le> 0" if "(r, e) \<in> set (takeWhile ?P (sched_of 0 cs))" using set_takeWhileD [OF that] by simp
  moreover have "0 < r" if "(r, e) \<in> set (dropWhile ?P (sched_of 0 cs))" by (rule sched_due_prefix [OF assms that])
  ultimately show "(r, e) \<in> set (takeWhile ?P (sched_of 0 cs)) \<longleftrightarrow> (r, e) \<in> set (sched_of 0 cs) \<and> r \<le> 0"
    "(r, e) \<in> set (dropWhile ?P (sched_of 0 cs)) \<longleftrightarrow> (r, e) \<in> set (sched_of 0 cs) \<and> 0 < r" by force+
qed

section \<open>The callout queue as a component\<close>

datatype call_op = Timeout nat nat int | Untimeout nat nat | Tick

datatype call_res = CDone | CPanic | CFired "(nat \<times> nat) list"

text \<open>A clock tick followed by the run of the events that are due.\<close>

definition clock_tick :: "kern \<Rightarrow> kern \<times> (nat \<times> nat) list" where
  "clock_tick k = run_due (k\<lparr>calltodo := fst (callout_tick (calltodo k))\<rparr>)"

fun call_step :: "call_op \<Rightarrow> kern \<Rightarrow> (kern \<times> call_res) option" where
  "call_step (Timeout fn arg t) k = (case timeout fn arg t k of Ok k' \<Rightarrow> Some (k', CDone) | Panic _ \<Rightarrow> Some (k, CPanic) | Stuck \<Rightarrow> None)"
| "call_step (Untimeout fn arg) k = Some (untimeout fn arg k, CDone)"
| "call_step Tick k = Some (fst (clock_tick k), CFired (snd (clock_tick k)))"

text \<open>What is promised: a schedule of events and the number of unused entries.\<close>

fun call_spec :: "call_op \<Rightarrow> (int \<times> nat \<times> nat) list \<times> nat \<Rightarrow> (int \<times> nat \<times> nat) list \<times> nat \<Rightarrow> call_res \<Rightarrow> bool" where
  "call_spec (Timeout fn arg t) (S, n) S' r =
     (if n = 0 then S' = (S, n) \<and> r = CPanic
      else S' = (takeWhile (\<lambda>(r, _). r < max 1 t) S @ (max 1 t, fn, arg) # dropWhile (\<lambda>(r, _). r < max 1 t) S, n - 1) \<and> r = CDone)"
| "call_spec (Untimeout fn arg) (S, n) S' r =
     (S' = (takeWhile (\<lambda>(_, e). e \<noteq> (fn, arg)) S @ tl (dropWhile (\<lambda>(_, e). e \<noteq> (fn, arg)) S),
            if (fn, arg) \<in> snd ` set S then n + 1 else n) \<and> r = CDone)"
| "call_spec Tick (S, n) S' r =
     (let S1 = map (\<lambda>(r, e). (r - 1, e)) S; due = takeWhile (\<lambda>(r, _). r \<le> 0) S1
      in S' = (dropWhile (\<lambda>(r, _). r \<le> 0) S1, n + length due) \<and> r = CFired (map snd due))"

abbreviation call_abs :: "kern \<Rightarrow> (int \<times> nat \<times> nat) list \<times> nat" where
  "call_abs k \<equiv> (schedule k, length (callfree k))"

abbreviation call_inv :: "kern \<Rightarrow> bool" where
  "call_inv k \<equiv> callout_wf 0 (calltodo k)"

lemma untimeout_found: "(snd (untimeout_remove fn arg cs) = None) = ((fn, arg) \<notin> snd ` set (sched_of b cs))"
  by (induction cs arbitrary: b) (auto simp: case_prod_beta image_iff split: list.splits)

lemma call_step_refines:
  "call_inv k \<Longrightarrow> \<exists>k' r. call_step op k = Some (k', r) \<and> call_inv k' \<and> call_spec op (call_abs k) (call_abs k') r"
proof (cases op)
  case (Timeout fn arg t)
  assume "call_inv k"
  with Timeout show ?thesis
    using timeout_insert_sched [of 0 "calltodo k" "max 1 t"]
    by (cases "callfree k") (auto simp: timeout_def Let_def max_def)
next
  case (Untimeout fn arg)
  assume "call_inv k"
  with Untimeout show ?thesis
    using untimeout_remove_sched [of 0 "calltodo k" fn arg] untimeout_found [of fn arg "calltodo k" 0]
    by (auto simp: untimeout_def split: prod.splits option.splits)
next
  case Tick
  assume "call_inv k"
  with Tick show ?thesis
    using callout_tick_sched [of "calltodo k"] run_due_sched [of "k\<lparr>calltodo := fst (callout_tick (calltodo k))\<rparr>"]
    by (simp add: clock_tick_def Let_def)
qed

interpretation co: refines call_inv call_abs "\<lambda>_ _. True" call_step call_spec
  by unfold_locales (use call_step_refines in auto)

text \<open>
  C25. The callout table implements a schedule: after any sequence of \<open>timeout\<close>, \<open>untimeout\<close> and clock ticks,
  starting from the table \<open>coutinit\<close> makes, the linked deltas stand for the events with their due times that
  these calls describe. An event is entered at its time without moving any other, at most the table's
  number of events is pending (one more is the overflow panic), removing one leaves the times of the others, and a
  tick runs exactly the events that have become due, in the order of their times.
\<close>

theorem callouts_refine_schedule:
  assumes "calltodo k = []"
  shows "\<exists>k' rs. run_ops call_step ops (coutinit n k) = Some (k', rs) \<and> callout_wf 0 (calltodo k')
     \<and> run_spec call_spec ops ([], n) (schedule k', length (callfree k')) rs"
  using co.run_refines [of "coutinit n k" ops] assms by (auto simp: coutinit_def)

theorem callouts_refine_schedule_witness:
  "\<exists>k k' rs. run_ops call_step [Timeout 7 1 2, Timeout 8 0 1, Tick, Untimeout 7 1] (coutinit 20 k) = Some (k', rs)
     \<and> run_spec call_spec [Timeout 7 1 2, Timeout 8 0 1, Tick, Untimeout 7 1] ([], 20) (schedule k', length (callfree k')) rs"
proof -
  have "calltodo (undefined\<lparr>calltodo := []\<rparr> :: kern) = []" by simp
  from callouts_refine_schedule [OF this] show ?thesis by blast
qed

end
