(* ===== verification/Sleep.thy ===== *)
theory Sleep
  imports Signal_Inv Callout
begin

text \<open>
  Giving up the processor: \<open>tsleep\<close> and \<open>sleep\<close> of \<^verbatim>\<open>sys/kern/kern_synch.c\<close>, the system calls that wait for a signal
  (\<open>sigsuspend\<close>, \<open>sigwait\<close> of \<^verbatim>\<open>sys/kern/kern_sig2.c\<close>) and the return to user mode (\<open>userret\<close> of \<^verbatim>\<open>sys/kern/kern_sig.c\<close>).
  As in the theory of signals, \<open>env n k\<close> is the state in which the process is resumed when it gave up the
  processor in state \<open>k\<close>.
\<close>

abbreviation (input) PRIMASK :: nat where "PRIMASK \<equiv> 0xff"
abbreviation (input) PCATCH :: nat where "PCATCH \<equiv> 0x100"

text \<open>The callout routine that ends a sleep, as a table entry names it.\<close>

abbreviation (input) FN_endtsleep :: nat where "FN_endtsleep \<equiv> 1"

section \<open>tsleep\<close>

text \<open>Onto the sleep queue of the event.\<close>

definition tsleep_enqueue :: "nat \<Rightarrow> nat \<Rightarrow> kern \<Rightarrow> kern" where
  "tsleep_enqueue ident priority k =
     (let p = u_procp (u k);
          k = upd_proc p (\<lambda>q. q\<lparr>p_wchan := ident, p_slptime := 0, p_pri := int (priority AND PRIMASK)\<rparr>) k
      in k\<lparr>slpque := (slpque k)(HASH ident := p # slpque k (HASH ident))\<rparr>)"

text \<open>Asleep until the process is resumed.\<close>

definition tsleep_switch :: "(nat \<Rightarrow> kern \<Rightarrow> kern) \<Rightarrow> nat \<Rightarrow> kern \<Rightarrow> kern cres" where
  "tsleep_switch env n k =
     (let p = u_procp (u k); k = upd_proc p (\<lambda>q. q\<lparr>p_stat := SSLEEP\<rparr>) k
      in bind_cres (if p \<noteq> 0 then wakeup (addr k Sym_runin) k else Ok k) (\<lambda>k.
           Ok (env n (k\<lparr>u := (u k)\<lparr>u_ru := (u_ru (u k))\<lparr>ru_nvcsw := ru_nvcsw (u_ru (u k)) + 1\<rparr>\<rparr>\<rparr>))))"

text \<open>The label \<open>resume\<close>: \<open>sig\<close> is the signal seen before the sleep, \<open>catch\<close> whether to look for one after it.\<close>

definition tsleep_resume ::
  "(nat \<Rightarrow> kern \<Rightarrow> kern) \<Rightarrow> (kern \<Rightarrow> kern \<times> bool) \<Rightarrow> nat \<Rightarrow> nat \<Rightarrow> bool \<Rightarrow> nat \<Rightarrow> kern \<Rightarrow> (kern \<times> int) cres" where
  "tsleep_resume env procxmt n timo catch sig k =
     (let p = u_procp (u k);
          timed = (p_flag (procs k p) AND P_TIMEOUT \<noteq> 0);
          k = upd_proc p (\<lambda>q. q\<lparr>p_flag := p_flag q AND NOT P_SINTR AND NOT P_TIMEOUT\<rparr>) k;
          k = (if \<not> timed \<and> timo \<noteq> 0 then untimeout FN_endtsleep p k else k)
      in if timed \<and> sig = 0 then Ok (k, EWOULDBLOCK)
         else if \<not> catch then Ok (k, 0)
         else bind_cres (if sig \<noteq> 0 then Ok (k, sig) else CURSIG env procxmt n p k) (\<lambda>(k, sig).
           if sig = 0 then Ok (k, 0)
           else if u_sigintr (u k) AND sigmask sig \<noteq> 0 then Ok (k, EINTR) else Ok (k, ERESTART)))"

definition tsleep ::
  "(nat \<Rightarrow> kern \<Rightarrow> kern) \<Rightarrow> (kern \<Rightarrow> kern \<times> bool) \<Rightarrow> nat \<Rightarrow> nat \<Rightarrow> nat \<Rightarrow> nat \<Rightarrow> kern \<Rightarrow> (kern \<times> int) cres" where
  "tsleep env procxmt n ident priority timo k =
     (let p = u_procp (u k); catch = (priority AND PCATCH \<noteq> 0)
      in if panicstr k then Ok (k, 0)
      else if diagnostic k \<and> (ident = 0 \<or> p_stat (procs k p) \<noteq> SRUN) then Panic ''tsleep''
      else
        let k = tsleep_enqueue ident priority k
        in bind_cres (if timo \<noteq> 0 then timeout FN_endtsleep p (long (int timo)) k else Ok k) (\<lambda>k.
          if catch then
            bind_cres (CURSIG env procxmt n p (upd_proc p (\<lambda>q. q\<lparr>p_flag := p_flag q OR P_SINTR\<rparr>) k)) (\<lambda>(k, sig).
              if sig \<noteq> 0 then
                bind_cres (if p_wchan (procs k p) \<noteq> 0 then unsleep p k else Ok k) (\<lambda>k.
                  tsleep_resume env procxmt n timo True sig (upd_proc p (\<lambda>q. q\<lparr>p_stat := SRUN\<rparr>) k))
              else if p_wchan (procs k p) = 0 then tsleep_resume env procxmt n timo False 0 k
              else bind_cres (tsleep_switch env n k) (tsleep_resume env procxmt n timo True 0))
          else bind_cres (tsleep_switch env n k) (tsleep_resume env procxmt n timo False 0)))"

text \<open>\<open>sleep\<close> returns, or jumps back to the start of the system call: \<open>True\<close> in the result.\<close>

definition sleep ::
  "(nat \<Rightarrow> kern \<Rightarrow> kern) \<Rightarrow> (kern \<Rightarrow> kern \<times> bool) \<Rightarrow> nat \<Rightarrow> nat \<Rightarrow> int \<Rightarrow> kern \<Rightarrow> (kern \<times> bool) cres" where
  "sleep env procxmt n chan pri k =
     (let priority = (if pri > PZERO then nat pri OR PCATCH else nat pri)
      in bind_cres (tsleep env procxmt n chan priority 0 k) (\<lambda>(k, e).
           Ok (set_error e k, \<not> (priority AND PCATCH = 0 \<or> e = 0))))"

section \<open>System calls that wait for a signal\<close>

fun sigsuspend_loop :: "(nat \<Rightarrow> kern \<Rightarrow> kern) \<Rightarrow> (kern \<Rightarrow> kern \<times> bool) \<Rightarrow> nat \<Rightarrow> kern \<Rightarrow> kern cres" where
  "sigsuspend_loop env procxmt 0 k = Stuck"
| "sigsuspend_loop env procxmt (Suc n) k =
     bind_cres (tsleep env procxmt n (addr k Sym_u) (40 OR PCATCH) 0 k) (\<lambda>(k, e).
       if e = 0 then sigsuspend_loop env procxmt n k else Ok k)"

definition sigsuspend :: "(nat \<Rightarrow> kern \<Rightarrow> kern) \<Rightarrow> (kern \<Rightarrow> kern \<times> bool) \<Rightarrow> nat \<Rightarrow> nat \<Rightarrow> kern \<Rightarrow> kern cres" where
  "sigsuspend env procxmt n nset k =
     (let p = u_procp (u k);
          nmask = (if nset \<noteq> 0 then (case copyin nset 1 k of Inl ws \<Rightarrow> ws ! 0 | Inr e \<Rightarrow> 0) else 0);
          k = k\<lparr>u := (u k)\<lparr>u_oldmask := p_sigmask (procs k p), u_psflags := u_psflags (u k) OR SAS_OLDMASK\<rparr>\<rparr>;
          k = upd_proc p (\<lambda>q. q\<lparr>p_sigmask := nmask AND NOT sigcantmask\<rparr>) k
      in bind_cres (sigsuspend_loop env procxmt n k) (\<lambda>k. Ok (set_error EINTR k)))"

fun sigwait_loop :: "(nat \<Rightarrow> kern \<Rightarrow> kern) \<Rightarrow> (kern \<Rightarrow> kern \<times> bool) \<Rightarrow> nat \<Rightarrow> 32 word \<Rightarrow> kern \<Rightarrow> kern cres" where
  "sigwait_loop env procxmt 0 wanted k = Stuck"
| "sigwait_loop env procxmt (Suc n) wanted k =
     (if wanted AND p_sig (curproc k) = 0 then
        bind_cres (tsleep env procxmt n (addr k Sym_u_signal) (40 OR PCATCH) 0 k) (\<lambda>(k, e). sigwait_loop env procxmt n wanted k)
      else Ok k)"

definition sigwait :: "(nat \<Rightarrow> kern \<Rightarrow> kern) \<Rightarrow> (kern \<Rightarrow> kern \<times> bool) \<Rightarrow> nat \<Rightarrow> nat \<Rightarrow> nat \<Rightarrow> kern \<Rightarrow> kern cres" where
  "sigwait env procxmt n nset sigp k =
     (if nset = 0 \<or> sigp = 0 then Ok (set_error EINVAL k)
      else case copyin nset 1 k of
        Inr e \<Rightarrow> Ok (set_error e k)
      | Inl ws \<Rightarrow>
          let wanted = ws ! 0 OR sigcantmask
          in bind_cres (sigwait_loop env procxmt n wanted k) (\<lambda>k.
               let avail = wanted AND p_sig (curproc k)
               in if avail AND sigcantmask \<noteq> 0 then Ok (set_error EINTR k)
                  else
                    let signo = ffs avail;
                        k = upd_proc (u_procp (u k)) (\<lambda>q. q\<lparr>p_sig := p_sig q AND NOT (sigmask signo)\<rparr>) k;
                        (k, e) = copyout [of_nat signo] sigp k
                    in Ok (set_error e k)))"

section \<open>Return to user mode\<close>

text \<open>Increment a profiling counter of the user.\<close>

definition addupc :: "nat \<Rightarrow> int \<Rightarrow> kern \<Rightarrow> kern" where
  "addupc pc ticks k =
     (let pb = u_prof (u k)
      in if pc < pr_off pb then k
         else
           let indx = ((pc - pr_off pb) * pr_scale pb mod 2 ^ 32) div 2 ^ 16; a = pr_base pb + 4 * indx
           in if indx \<ge> pr_size pb then k
              else k\<lparr>umem := store_words (umem k) a [word_at (umem k) a + word_of_int ticks]\<rparr>)"

text \<open>The signals taken on the way: \<open>sendsig\<close> sets up the handler's frame; an exit ends the process.\<close>

fun userret_sigs ::
  "(nat \<Rightarrow> kern \<Rightarrow> kern) \<Rightarrow> (kern \<Rightarrow> kern \<times> bool) \<Rightarrow> (kern \<Rightarrow> kern \<times> bool) \<Rightarrow> (sig_outcome \<Rightarrow> kern \<Rightarrow> kern) \<Rightarrow> nat
     \<Rightarrow> kern \<Rightarrow> (kern \<times> int option) cres" where
  "userret_sigs env procxmt core sendsig 0 k = Stuck"
| "userret_sigs env procxmt core sendsig (Suc n) k =
     bind_cres (CURSIG env procxmt n (u_procp (u k)) k) (\<lambda>(k, psig).
       if psig = 0 then Ok (k, None)
       else bind_cres (postsig core psig k) (\<lambda>(k, res). case res of
         Exit st \<Rightarrow> Ok (k, Some st)
       | Sendsig h s m \<Rightarrow> userret_sigs env procxmt core sendsig n (sendsig res k)))"

definition userret ::
  "(nat \<Rightarrow> kern \<Rightarrow> kern) \<Rightarrow> (kern \<Rightarrow> kern \<times> bool) \<Rightarrow> (kern \<Rightarrow> kern \<times> bool) \<Rightarrow> (sig_outcome \<Rightarrow> kern \<Rightarrow> kern) \<Rightarrow> nat
     \<Rightarrow> nat \<Rightarrow> int \<Rightarrow> kern \<Rightarrow> (kern \<times> int option) cres" where
  "userret env procxmt core sendsig n pc syst k =
     bind_cres (userret_sigs env procxmt core sendsig n k) (\<lambda>(k, ex).
       case ex of Some st \<Rightarrow> Ok (k, Some st)
       | None \<Rightarrow>
           let (k, pri) = setpri (u_procp (u k)) k; k = k\<lparr>curpri := pri\<rparr>
           in bind_cres
                (if runrun k \<noteq> 0
                 then bind_cres (setrq (u_procp (u k)) k) (\<lambda>k.
                   Ok (env n (k\<lparr>u := (u k)\<lparr>u_ru := (u_ru (u k))\<lparr>ru_nivcsw := ru_nivcsw (u_ru (u k)) + 1\<rparr>\<rparr>\<rparr>)))
                 else Ok k)
                (\<lambda>k. Ok (if pr_scale (u_prof (u k)) \<noteq> 0 then addupc pc (ru_stime (u_ru (u k)) - syst) k else k, None)))"

section \<open>Sleeping without catching signals\<close>

lemma tsleep_enqueue_inv:
  assumes inv: "sched_inv k" and p: "p = u_procp (u k)" "p_stat (procs k p) = SRUN" "p \<notin> set (qs k)" "p_wchan (procs k p) = 0"
    and id: "ident \<noteq> 0"
  shows "sched_inv (upd_proc p (\<lambda>q. q\<lparr>p_stat := SSLEEP\<rparr>) (tsleep_enqueue ident pri k))"
proof -
  let ?k = "upd_proc p (\<lambda>q. q\<lparr>p_stat := SSLEEP\<rparr>) (tsleep_enqueue ident pri k)"
  have ok: "slp_ok k" using inv by (simp add: sched_inv_def)
  have np: "p \<notin> set (slpque k h)" for h using slp_okD(1) [OF ok, of p h] p(4) by auto
  have pr: "p_wchan (procs ?k q) = (if q = p then ident else p_wchan (procs k q))"
    "p_stat (procs ?k q) = (if q = p then SSLEEP else p_stat (procs k q))"
    "slpque ?k = (slpque k)(HASH ident := p # slpque k (HASH ident))" for q
    using p(1) by (auto simp: tsleep_enqueue_def Let_def)
  have "slp_ok ?k" using ok np id unfolding slp_ok_def pr by (auto, metis)
  moreover have "run_ok ?k"
    using inv p by (auto simp: sched_inv_def run_ok_def tsleep_enqueue_def Let_def)
  ultimately show ?thesis by (simp add: sched_inv_def)
qed

lemma untimeout_remove_gone:
  assumes "length (filter (\<lambda>c. c_func c = fn \<and> c_arg c = arg) cs) \<le> 1"
  shows "\<forall>c\<in>set (fst (untimeout_remove fn arg cs)). \<not> (c_func c = fn \<and> c_arg c = arg)"
  using assms
proof (induction cs)
  case (Cons c cs)
  show ?case
  proof (cases "c_func c = fn \<and> c_arg c = arg")
    case True
    with Cons.prems have "\<forall>x\<in>set cs. \<not> (c_func x = fn \<and> c_arg x = arg)" by (simp add: filter_empty_conv)
    with True show ?thesis by (cases cs) simp_all
  next
    case False
    then have "length (filter (\<lambda>c. c_func c = fn \<and> c_arg c = arg) cs) \<le> 1" using Cons.prems by (auto split: if_splits)
    then have "\<forall>x\<in>set (fst (untimeout_remove fn arg cs)). \<not> (c_func x = fn \<and> c_arg x = arg)" by (rule Cons.IH)
    moreover have "fst (untimeout_remove fn arg (c # cs)) = c # fst (untimeout_remove fn arg cs)"
      by (simp only: untimeout_remove.simps False if_False Let_def case_prod_beta fst_conv)
    ultimately show ?thesis using False by (metis set_ConsD)
  qed
qed simp

text \<open>Entering the timeout of a sleep touches nothing but the callout table.\<close>

lemma tsleep_timeout:
  assumes "callout_wf 0 (calltodo k)" "timo \<noteq> 0 \<longrightarrow> callfree k \<noteq> []"
  shows "\<exists>q f. (if timo \<noteq> 0 then timeout FN_endtsleep p (long (int timo)) k else Ok k) = Ok (k\<lparr>calltodo := q, callfree := f\<rparr>)
     \<and> callout_wf 0 q
     \<and> set (sched_of 0 q) = (if timo = 0 then set (schedule k) else insert (max 1 (long (int timo)), FN_endtsleep, p) (set (schedule k)))"
proof (cases "timo = 0")
  case True
  moreover have "k\<lparr>calltodo := calltodo k, callfree := callfree k\<rparr> = k" by simp
  ultimately show ?thesis using assms(1) by metis
next
  case False
  then obtain c free where c: "callfree k = c # free" using assms(2) by (cases "callfree k") auto
  let ?q = "timeout_insert (c\<lparr>c_arg := p, c_func := FN_endtsleep\<rparr>) (max 1 (long (int timo))) (calltodo k)"
  have m: "(if x \<le> 0 then 1 else x) = max 1 x" for x :: int by simp
  have t: "timeout FN_endtsleep p (long (int timo)) k = Ok (k\<lparr>calltodo := ?q, callfree := free\<rparr>)"
    unfolding timeout_def Let_def m c by simp
  with timeout_schedule [OF assms(1) t] False show ?thesis by (intro exI [of _ ?q] exI [of _ free]) simp
qed

text \<open>
  C31. A sleep that does not catch signals cannot lose a wakeup: when the process gives up the processor it is asleep,
  on the sleep queue of its event, and the queues are well formed, so that a \<open>wakeup\<close> of the event, whenever it
  comes, makes it runnable; if a timeout was asked for, the event that ends the sleep is on the schedule for that many ticks
  (one when the count is 0 or less as an \<open>int\<close>), besides the events that were there, and that event makes the process runnable and
  marks it as timed out. When the process is resumed, the sleep returns 0, or \<open>EWOULDBLOCK\<close> exactly when the timeout had
  expired, and leaves the timeout flag and the interruptible flag clear; a timeout that has not expired is taken off the
  schedule.
\<close>

theorem tsleep_no_lost_wakeup:
  assumes inv: "sched_inv k" and p: "p = u_procp (u k)" "p_stat (procs k p) = SRUN" "p \<notin> set (qs k)" "p_wchan (procs k p) = 0"
    and id: "ident \<noteq> 0" "ident \<noteq> addr k Sym_runin" "ident \<noteq> addr k Sym_runout" "addr k Sym_runin \<noteq> 0" "addr k Sym_runout \<noteq> 0"
    and np: "\<not> panicstr k" "priority AND PCATCH = 0"
    and co: "callout_wf 0 (calltodo k)" "timo \<noteq> 0 \<longrightarrow> callfree k \<noteq> []"
    and env: "\<And>n j. u_procp (u (env n j)) = u_procp (u j)"
  shows "\<exists>k1 k2 e. tsleep env procxmt n ident priority timo k = Ok (k2, e)
     \<and> sched_inv k1 \<and> p_stat (procs k1 p) = SSLEEP \<and> p_wchan (procs k1 p) = ident
     \<and> (\<exists>k3. wakeup ident k1 = Ok k3 \<and> p_stat (procs k3 p) = SRUN)
     \<and> callout_wf 0 (calltodo k1)
     \<and> set (schedule k1) = (if timo = 0 then set (schedule k) else insert (max 1 (long (int timo)), FN_endtsleep, p) (set (schedule k)))
     \<and> (\<exists>k4. endtsleep p k1 = Ok k4 \<and> p_stat (procs k4 p) = SRUN \<and> p_flag (procs k4 p) AND P_TIMEOUT \<noteq> 0)
     \<and> e = (if p_flag (procs (env n k1) p) AND P_TIMEOUT \<noteq> 0 then EWOULDBLOCK else 0)
     \<and> p_flag (procs k2 p) = p_flag (procs (env n k1) p) AND NOT P_SINTR AND NOT P_TIMEOUT
     \<and> calltodo k2 = (if timo \<noteq> 0 \<and> e = 0 then calltodo (untimeout FN_endtsleep p (env n k1)) else calltodo (env n k1))
     \<and> (timo \<noteq> 0 \<and> e = 0 \<and> length (filter (\<lambda>c. c_func c = FN_endtsleep \<and> c_arg c = p) (calltodo (env n k1))) \<le> 1 \<longrightarrow>
          (\<forall>c\<in>set (calltodo k2). \<not> (c_func c = FN_endtsleep \<and> c_arg c = p)))"
proof -
  define ke where "ke = tsleep_enqueue ident priority k"
  have ke: "calltodo ke = calltodo k" "callfree ke = callfree k" "u_procp (u ke) = p"
    using p(1) by (simp_all add: ke_def tsleep_enqueue_def Let_def)
  obtain q f where q: "(if timo \<noteq> 0 then timeout FN_endtsleep p (long (int timo)) ke else Ok ke) = Ok (ke\<lparr>calltodo := q, callfree := f\<rparr>)"
    "callout_wf 0 q" "set (sched_of 0 q) = (if timo = 0 then set (schedule k) else insert (max 1 (long (int timo)), FN_endtsleep, p) (set (schedule k)))"
    using tsleep_timeout [of ke timo p] co unfolding ke by blast
  define k0 where "k0 = upd_proc p (\<lambda>q. q\<lparr>p_stat := SSLEEP\<rparr>) (ke\<lparr>calltodo := q, callfree := f\<rparr>)"
  have "sched_same (upd_proc p (\<lambda>q. q\<lparr>p_stat := SSLEEP\<rparr>) ke) k0" by (simp add: sched_same_def k0_def)
  then have i0: "sched_inv k0" using tsleep_enqueue_inv [OF inv p id(1), of priority] sched_same_inv unfolding ke_def by blast
  have k0: "p_stat (procs k0 p) = SSLEEP" "p_wchan (procs k0 p) = ident" "addr k0 = addr k" "u k0 = u k" "calltodo k0 = q"
    using p(1) by (auto simp: k0_def ke_def tsleep_enqueue_def Let_def)
  obtain k1' where w: "(if p \<noteq> 0 then wakeup (addr k0 Sym_runin) k0 else Ok k0) = Ok k1'" "sched_inv k1'" "addr k1' = addr k"
    "p_stat (procs k1' p) = SSLEEP" "p_wchan (procs k1' p) = ident" "u k1' = u k" "calltodo k1' = q"
  proof (cases "p = 0")
    case True
    then show thesis using that [of k0] i0 k0 by simp
  next
    case False
    from wakeup_spec [OF i0, of "addr k0 Sym_runin"] k0 id obtain k1 where
      "wakeup (addr k0 Sym_runin) k0 = Ok k1" "sched_inv k1" "wk_rel {addr k0 Sym_runin, addr k0 Sym_runout} k0 k1" by auto
    then show thesis using that [of k1] False k0 id wk_rel_other [of _ k0 k1 p] kcore_D(1,2,5) [OF wakeup_core, of "addr k0 Sym_runin" k0 k1] by auto
  qed
  define k1 where "k1 = k1'\<lparr>u := (u k1')\<lparr>u_ru := (u_ru (u k1'))\<lparr>ru_nvcsw := ru_nvcsw (u_ru (u k1')) + 1\<rparr>\<rparr>\<rparr>"
  have k1: "sched_inv k1" "p_stat (procs k1 p) = SSLEEP" "p_wchan (procs k1 p) = ident" "addr k1 = addr k" "u_procp (u k1) = p" "calltodo k1 = q"
    using w p(1) by (auto simp: k1_def)
  from wakeup_spec [OF k1(1) id(1)] k1(4) id(5) obtain k3 where k3: "wakeup ident k1 = Ok k3"
    "wk_rel {ident, addr k1 Sym_runout} k1 k3" "\<forall>p. p_wchan (procs k3 p) \<noteq> ident" by auto
  have "prel {ident, addr k1 Sym_runout} k1 k3 p" using k3(2) by (simp add: wk_rel_def)
  then have s3: "p_stat (procs k3 p) = SRUN" using k3(3) k1 by (auto simp: prel_def)
  obtain k4 where "setrun p k1 = Ok k4" "p_stat (procs k4 p) = SRUN" using setrun_spec [OF k1(1), of p] k1(2,4) id(5) by auto
  then have k4: "\<exists>k4. endtsleep p k1 = Ok k4 \<and> p_stat (procs k4 p) = SRUN \<and> p_flag (procs k4 p) AND P_TIMEOUT \<noteq> 0"
    using k1(2,3) id(1) by (simp add: endtsleep_def bit.conj_disj_distrib2)
  have sw: "tsleep_switch env n (ke\<lparr>calltodo := q, callfree := f\<rparr>) = Ok (env n k1)"
  proof -
    have "u_procp (u (ke\<lparr>calltodo := q, callfree := f\<rparr>)) = p" using ke(3) by simp
    then show ?thesis unfolding tsleep_switch_def Let_def k0_def [symmetric] by (simp only: k0_def [symmetric] w(1) bind_cres.simps k1_def)
  qed
  have up: "u_procp (u (env n k1)) = p" using env k1(5) by simp
  let ?t = "p_flag (procs (env n k1) p) AND P_TIMEOUT \<noteq> 0"
  define kr where "kr = upd_proc p (\<lambda>q. q\<lparr>p_flag := p_flag q AND NOT P_SINTR AND NOT P_TIMEOUT\<rparr>) (env n k1)"
  define k2 where "k2 = (if \<not> ?t \<and> timo \<noteq> 0 then untimeout FN_endtsleep p kr else kr)"
  have un: "procs (untimeout fn a j) = procs j" "calltodo (untimeout fn a j) = fst (untimeout_remove fn a (calltodo j))" for fn a j
    by (auto simp: untimeout_def split: prod.splits option.splits)
  have ts: "tsleep env procxmt n ident priority timo k = Ok (k2, if ?t then EWOULDBLOCK else 0)"
  proof -
    have "tsleep env procxmt n ident priority timo k = bind_cres (if timo \<noteq> 0 then timeout FN_endtsleep p (long (int timo)) ke else Ok ke)
        (\<lambda>k. bind_cres (tsleep_switch env n k) (tsleep_resume env procxmt n timo False 0))"
      unfolding ke_def using np p(1,2) id(1) by (simp add: tsleep_def Let_def)
    also have "\<dots> = tsleep_resume env procxmt n timo False 0 (env n k1)" unfolding q(1) bind_cres.simps sw by simp
    finally show ?thesis using up by (simp add: tsleep_resume_def Let_def k2_def kr_def)
  qed
  let ?e = "if ?t then EWOULDBLOCK else 0"
  have cd: "calltodo k2 = (if timo \<noteq> 0 \<and> ?e = 0 then calltodo (untimeout FN_endtsleep p (env n k1)) else calltodo (env n k1))"
    by (simp add: k2_def un kr_def)
  have gone: "\<forall>c\<in>set (calltodo k2). \<not> (c_func c = FN_endtsleep \<and> c_arg c = p)"
    if "timo \<noteq> 0 \<and> ?e = 0 \<and> length (filter (\<lambda>c. c_func c = FN_endtsleep \<and> c_arg c = p) (calltodo (env n k1))) \<le> 1"
    using untimeout_remove_gone [of FN_endtsleep p "calltodo (env n k1)"] that cd unfolding un by presburger
  have fl: "p_flag (procs k2 p) = p_flag (procs (env n k1) p) AND NOT P_SINTR AND NOT P_TIMEOUT" by (simp add: k2_def un kr_def)
  have wk: "\<exists>k3. wakeup ident k1 = Ok k3 \<and> p_stat (procs k3 p) = SRUN" using k3(1) s3 by blast
  show ?thesis
    by (rule exI [of _ k1], rule exI [of _ k2], rule exI [of _ ?e])
      (intro conjI ts k1(1-3) wk k4 refl fl cd q(2,3) [folded k1(6)], rule impI, erule gone)
qed

theorem tsleep_no_lost_wakeup_witness:
  "\<exists>k k1 k2 e. tsleep (\<lambda>_ k. k) (\<lambda>k. (k, True)) 5 64 20 7 k = Ok (k2, e) \<and> p_stat (procs k1 1) = SSLEEP
     \<and> (\<exists>k3. wakeup 64 k1 = Ok k3 \<and> p_stat (procs k3 1) = SRUN) \<and> (7, FN_endtsleep, 1) \<in> set (schedule k1)
     \<and> (\<exists>k4. endtsleep 1 k1 = Ok k4 \<and> p_stat (procs k4 1) = SRUN)"
proof -
  define k :: kern where "k = undefined\<lparr>u := undefined\<lparr>u_procp := 1\<rparr>, procs := (\<lambda>_. undefined\<lparr>p_wchan := 0, p_stat := SRUN, p_flag := 1\<rparr>),
      slpque := (\<lambda>_. []), qs := [], addr := (\<lambda>x. if x = Sym_runin then 1024 else 2048), panicstr := False, calltodo := [], callfree := [undefined]\<rparr>"
  have inv: "sched_inv k" by (auto simp: sched_inv_def slp_ok_def run_ok_def k_def)
  have a: "(20::nat) AND 256 = 0" "max 1 (long 7) = 7" by (simp_all add: long_def)
  have k: "u_procp (u k) = 1" "p_stat (procs k 1) = SRUN" "1 \<notin> set (qs k)" "p_wchan (procs k 1) = 0" "addr k Sym_runin = 1024" "addr k Sym_runout = 2048"
    "\<not> panicstr k" "calltodo k = []" "callfree k \<noteq> []" by (simp_all add: k_def)
  from tsleep_no_lost_wakeup [OF inv, of 1 64 20 7 "\<lambda>_ k. k" "\<lambda>k. (k, True)" 5] a k
  obtain k1 k2 e where t: "tsleep (\<lambda>_ k. k) (\<lambda>k. (k, True)) 5 64 20 7 k = Ok (k2, e)" "p_stat (procs k1 1) = SSLEEP"
    "\<exists>k3. wakeup 64 k1 = Ok k3 \<and> p_stat (procs k3 1) = SRUN" "(7, FN_endtsleep, 1) \<in> set (schedule k1)"
    "\<exists>k4. endtsleep 1 k1 = Ok k4 \<and> p_stat (procs k4 1) = SRUN" by auto
  then show ?thesis by blast
qed

end
