(* ===== verification/Clock.thy ===== *)
theory Clock
  imports Sleep
begin

text \<open>
  The clock: \<open>hardclock\<close> and \<open>softclock\<close> of \<^verbatim>\<open>sys/kern/kern_clock.c\<close>, the once-a-second \<open>schedcpu\<close> of \<^verbatim>\<open>sys/kern/kern_synch.c\<close>,
  and \<open>hzto\<close>. Whether the processor was in user mode (\<open>USERMODE\<close>) and at the base priority level (\<open>BASEPRI\<close>) is an argument.
\<close>

text \<open>The callout routine that runs the scheduler's clock.\<close>

abbreviation (input) FN_schedcpu :: nat where "FN_schedcpu \<equiv> 2"

section \<open>softclock\<close>

text \<open>\<open>call fn arg\<close> runs an event; the loop ends when no event is due, and \<open>n\<close> bounds its turns.\<close>

fun softclock_loop :: "(nat \<Rightarrow> nat \<Rightarrow> kern \<Rightarrow> kern cres) \<Rightarrow> nat \<Rightarrow> kern \<Rightarrow> kern cres" where
  "softclock_loop call 0 k = Stuck"
| "softclock_loop call (Suc n) k =
     (case softclock_next k of
        None \<Rightarrow> Ok k
      | Some (k, p1) \<Rightarrow> bind_cres (call (c_func p1) (c_arg p1) k) (softclock_loop call n))"

text \<open>After the events: profiling, and the lower priority of a process that has run for ten minutes.\<close>

definition softclock_user :: "nat \<Rightarrow> bool \<Rightarrow> kern \<Rightarrow> kern" where
  "softclock_user pc usermode k =
     (if usermode then
        (let p = u_procp (u k); k = (if pr_scale (u_prof (u k)) \<noteq> 0 then addupc pc 1 k else k)
         in if p_uid (procs k p) \<noteq> 0 \<and> p_nice (procs k p) = NZERO \<and> ru_utime (u_ru (u k)) > long (10 * 60 * hz k)
            then fst (setpri p (upd_proc p (\<lambda>q. q\<lparr>p_nice := NZERO + 4\<rparr>) k)) else k)
      else k)"

definition softclock :: "(nat \<Rightarrow> nat \<Rightarrow> kern \<Rightarrow> kern cres) \<Rightarrow> nat \<Rightarrow> nat \<Rightarrow> bool \<Rightarrow> kern \<Rightarrow> kern cres" where
  "softclock call n pc usermode k = bind_cres (softclock_loop call n k) (\<lambda>k. Ok (softclock_user pc usermode k))"

section \<open>hardclock\<close>

text \<open>An interval timer of the u-area: one tick less; when it expires the signal is posted and it is reloaded.\<close>

definition itimer_tick :: "nat \<Rightarrow> nat \<Rightarrow> kern \<Rightarrow> kern cres" where
  "itimer_tick which sig k =
     (let t = u_timer (u k) which
      in if it_value t = 0 then Ok k
         else
           let k = k\<lparr>u := (u k)\<lparr>u_timer := (u_timer (u k))(which := t\<lparr>it_value := long (it_value t - 1)\<rparr>)\<rparr>\<rparr>
           in if long (it_value t - 1) \<noteq> 0 then Ok k
              else bind_cres (psignal (u_procp (u k)) sig k) (\<lambda>k.
                let t = u_timer (u k) which
                in Ok (k\<lparr>u := (u k)\<lparr>u_timer := (u_timer (u k))(which := t\<lparr>it_value := it_interval t\<rparr>)\<rparr>\<rparr>)))"

text \<open>Charging the tick to the running process.\<close>

definition hardclock_user :: "kern \<Rightarrow> kern cres" where
  "hardclock_user k =
     itimer_tick 0 SIGVTALRM (k\<lparr>u := (u k)\<lparr>u_ru := (u_ru (u k))\<lparr>ru_utime := long (ru_utime (u_ru (u k)) + 1)\<rparr>\<rparr>\<rparr>)"

definition hardclock_charge :: "kern \<Rightarrow> kern cres" where
  "hardclock_charge k =
     (let p = u_procp (u k);
          k = upd_proc p (\<lambda>q. q\<lparr>p_cpu := (if p_cpu q + 1 = 0 then p_cpu q else p_cpu q + 1)\<rparr>) k
      in bind_cres
           (if long (ru_utime (u_ru (u k)) + ru_stime (u_ru (u k)) + 1) > rlim_cur (u_rlimit (u k) 0)
            then bind_cres (psignal p SIGXCPU k) (\<lambda>k.
              let r = u_rlimit (u k) 0
              in Ok (if rlim_cur r < rlim_max r
                     then k\<lparr>u := (u k)\<lparr>u_rlimit := (u_rlimit (u k))(0 := r\<lparr>rlim_cur := long (rlim_cur r + 5 * hz k)\<rparr>)\<rparr>\<rparr> else k))
            else Ok k)
           (itimer_tick 1 SIGPROF))"

text \<open>The time of day.\<close>

definition hardclock_time :: "kern \<Rightarrow> kern" where
  "hardclock_time k =
     (let k = (if adjdelta k > 0 then k\<lparr>lbolt := long (lbolt k + 1), adjdelta := adjdelta k - 1\<rparr>
               else if adjdelta k < 0 then k\<lparr>lbolt := long (lbolt k - 1), adjdelta := adjdelta k + 1\<rparr> else k);
          k = k\<lparr>lbolt := long (lbolt k + 1)\<rparr>
      in if lbolt k \<ge> hz k
         then k\<lparr>lbolt := long (lbolt k - hz k), time := (time k)\<lparr>tv_sec := long (tv_sec (time k) + 1)\<rparr>\<rparr> else k)"

text \<open>Everything \<open>hardclock\<close> does at its own priority: the new state, and whether \<open>softclock\<close> has work.\<close>

definition hardclock_tick :: "bool \<Rightarrow> kern \<Rightarrow> (kern \<times> bool) cres" where
  "hardclock_tick usermode k =
     (let (q, due) = callout_tick (calltodo k); k = k\<lparr>calltodo := q\<rparr>;
          needsoft = (due \<or> usermode \<and> pr_scale (u_prof (u k)) \<noteq> 0)
      in bind_cres
           (if usermode then hardclock_user k
            else Ok (if noproc k then k else k\<lparr>u := (u k)\<lparr>u_ru := (u_ru (u k))\<lparr>ru_stime := long (ru_stime (u_ru (u k)) + 1)\<rparr>\<rparr>\<rparr>))
           (\<lambda>k. bind_cres (if \<not> noproc k then hardclock_charge k else Ok k)
                  (\<lambda>k. Ok (hardclock_time k, needsoft))))"

definition hardclock :: "(nat \<Rightarrow> nat \<Rightarrow> kern \<Rightarrow> kern cres) \<Rightarrow> nat \<Rightarrow> nat \<Rightarrow> bool \<Rightarrow> bool \<Rightarrow> kern \<Rightarrow> kern cres" where
  "hardclock call n pc usermode basepri k =
     bind_cres (hardclock_tick usermode k) (\<lambda>(k, needsoft).
       if needsoft \<and> basepri then softclock call n pc usermode k else Ok k)"

section \<open>schedcpu\<close>

definition schedcpu_proc :: "nat \<Rightarrow> kern \<Rightarrow> kern cres" where
  "schedcpu_proc p k =
     (let k = (if p_time (procs k p) \<noteq> 127 then upd_proc p (\<lambda>q. q\<lparr>p_time := p_time q + 1\<rparr>) k else k);
          rt = p_realtimer (procs k p);
          k1 = upd_proc p (\<lambda>q. q\<lparr>p_realtimer := rt\<lparr>it_value := long (it_value rt - 1)\<rparr>\<rparr>) k
      in bind_cres
           (if it_value rt = 0 then Ok k
            else if long (it_value rt - 1) \<noteq> 0 then Ok k1
            else bind_cres (psignal p SIGALRM k1) (\<lambda>k.
              Ok (upd_proc p (\<lambda>q. q\<lparr>p_realtimer := (p_realtimer q)\<lparr>it_value := it_interval (p_realtimer q)\<rparr>\<rparr>) k)))
           (\<lambda>k. let k = (if p_stat (procs k p) \<in> {SSLEEP, SSTOP} \<and> p_slptime (procs k p) \<noteq> 127
                         then upd_proc p (\<lambda>q. q\<lparr>p_slptime := p_slptime q + 1\<rparr>) k else k)
                in if p_slptime (procs k p) > 1 then Ok k
                   else
                     let a = int (unat (p_cpu (procs k p)) * 8 div 10) + p_nice (procs k p);
                         a = (if a < 0 then 0 else a); a = (if a > 255 then 255 else a);
                         k = upd_proc p (\<lambda>q. q\<lparr>p_cpu := word_of_int a\<rparr>) k
                     in Ok (if p_pri (procs k p) \<ge> PUSER then fst (setpri p k) else k)))"

fun schedcpu_loop :: "nat list \<Rightarrow> kern \<Rightarrow> kern cres" where
  "schedcpu_loop [] k = Ok k"
| "schedcpu_loop (p # ps) k = bind_cres (schedcpu_proc p k) (schedcpu_loop ps)"

text \<open>\<open>vmmeter\<close> keeps statistics that nothing else here reads.\<close>

definition schedcpu :: "(kern \<Rightarrow> kern) \<Rightarrow> kern \<Rightarrow> kern cres" where
  "schedcpu vmmeter k =
     bind_cres (wakeup (addr k Sym_lbolt) k) (\<lambda>k.
       bind_cres (schedcpu_loop (allproc k) k) (\<lambda>k.
         let k = vmmeter k
         in bind_cres (if runin k \<noteq> 0 then wakeup (addr k Sym_runin) (k\<lparr>runin := 0\<rparr>) else Ok k) (\<lambda>k.
              timeout FN_schedcpu 0 (hz k) (k\<lparr>runrun := runrun k + 1\<rparr>))))"

section \<open>hzto\<close>

definition hzto :: "timeval \<Rightarrow> kern \<Rightarrow> int" where
  "hzto tv k =
     (let sec = long (tv_sec tv - tv_sec (time k))
      in if sec \<le> 0x7fffffff div 1000 - 1000
         then c_div (long (long (sec * 1000) + c_div (long (tv_usec tv - tv_usec (time k))) 1000)) (c_div 1000 (hz k))
         else if sec \<le> c_div 0x7fffffff (hz k) then long (sec * hz k)
         else 0x7fffffff)"

section \<open>What posting a signal leaves alone\<close>

text \<open>Everything but the process table and the scheduler's queues and flags.\<close>

definition ktab :: "kern \<Rightarrow> kern" where
  "ktab k = k\<lparr>procs := (\<lambda>_. undefined), slpque := (\<lambda>_. []), qs := [], runrun := 0, runout := 0\<rparr>"

lemma ktab_upd [simp]: "ktab (upd_proc p f k) = ktab k"
  by (simp add: ktab_def upd_proc_def)

lemma ktab_core: "kcore k' = kcore k \<Longrightarrow> ktab k' = ktab k"
proof -
  assume a: "kcore k' = kcore k"
  have "ktab j = ktab (kcore j)" for j by (simp add: ktab_def kcore_def)
  then show ?thesis using a by metis
qed

lemma ktab_D:
  assumes "ktab k' = ktab k"
  shows "u k' = u k" "addr k' = addr k" "calltodo k' = calltodo k" "callfree k' = callfree k" "hz k' = hz k" "lbolt k' = lbolt k"
    "time k' = time k" "adjdelta k' = adjdelta k" "noproc k' = noproc k"
  using arg_cong [OF assms, of u] arg_cong [OF assms, of addr] arg_cong [OF assms, of calltodo] arg_cong [OF assms, of callfree]
    arg_cong [OF assms, of hz] arg_cong [OF assms, of lbolt] arg_cong [OF assms, of time] arg_cong [OF assms, of adjdelta]
    arg_cong [OF assms, of noproc]
  by (simp_all add: ktab_def)

lemma psignal_run_ktab: "psignal_run p k = Ok k' \<Longrightarrow> ktab k' = ktab k"
  by (auto simp: psignal_run_def dest!: setrun_core ktab_core split: if_splits)

lemma stop_ktab: "stop p k = Ok k' \<Longrightarrow> ktab k' = ktab k"
  by (auto simp: stop_def Let_def dest!: wakeup_core ktab_core)

lemma psignal_stopped_ktab: "psignal_stopped p sig a k = Ok k' \<Longrightarrow> ktab k' = ktab k"
  by (auto simp: psignal_stopped_def Let_def dest!: psignal_run_ktab unsleep_core ktab_core split: if_splits)

lemma psignal_pend_ktab [simp]: "ktab (psignal_pend p sig k) = ktab k" "ktab (psignal_prepare p sig k) = ktab k"
  by (simp_all add: psignal_pend_def psignal_prepare_def Let_def)


lemma psignal_nonstop_ktab:
  assumes ns: "sigprop ! sig AND SA_STOP = 0" and ps: "psignal p sig k = Ok k'"
  shows "ktab k' = ktab k"
proof -
  define k1 where "k1 = psignal_pend p sig (psignal_prepare p sig k)"
  have k1: "ktab k1 = ktab k" by (simp add: k1_def)
  from ps ns k1 show ?thesis
    unfolding psignal.simps [of p sig k] Let_def k1_def [symmetric]
    by (auto split: if_splits dest: psignal_run_ktab psignal_stopped_ktab)
qed

text \<open>Posting one of the clock's signals: it works, and the clock's variables stay.\<close>

definition tick_ok :: "kern \<Rightarrow> bool" where
  "tick_ok k \<longleftrightarrow> sched_inv k \<and> sig_excl k \<and> (\<forall>s. addr k s \<noteq> 0)"

definition clock_same :: "kern \<Rightarrow> kern \<Rightarrow> bool" where
  "clock_same k k' \<longleftrightarrow> calltodo k' = calltodo k \<and> callfree k' = callfree k \<and> hz k' = hz k \<and> lbolt k' = lbolt k \<and> time k' = time k \<and> adjdelta k' = adjdelta k
     \<and> noproc k' = noproc k"

lemma clock_same_trans: "clock_same k k' \<Longrightarrow> clock_same k' k'' \<Longrightarrow> clock_same k k''"
  by (simp add: clock_same_def)

lemma tick_ok_u [simp]: "tick_ok (k\<lparr>u := x\<rparr>) = tick_ok k"
  by (simp add: tick_ok_def sig_excl_def)

lemma clock_same_u [simp]: "clock_same k (k'\<lparr>u := x\<rparr>) = clock_same k k'" "clock_same (k\<lparr>u := x\<rparr>) k' = clock_same k k'" "clock_same k k"
  by (simp_all add: clock_same_def)

lemma psignal_tick:
  assumes "tick_ok k" "sig \<in> {SIGVTALRM, SIGXCPU, SIGPROF, SIGALRM}"
  shows "\<exists>k'. psignal p sig k = Ok k' \<and> tick_ok k' \<and> clock_same k k' \<and> u k' = u k"
proof -
  have ns: "sigprop ! sig AND SA_STOP = 0" using assms(2) by (auto simp: sigprop_def)
  have "post_ok {p} k (psignal p sig k)"
    by (rule psignal_nonstop_ok [OF _ _ _ _ _ ns]) (use assms in \<open>auto simp: tick_ok_def\<close>)
  then obtain k' where k': "psignal p sig k = Ok k'" "sched_inv k'" "sig_excl k'" "others_same {p} k k'" by (auto simp: post_ok_def)
  note t = ktab_D [OF psignal_nonstop_ktab [OF ns k'(1)]]
  show ?thesis using k' t assms(1) by (simp add: tick_ok_def clock_same_def)
qed

lemma itimer_tick_ok:
  assumes "tick_ok k" "sig \<in> {SIGVTALRM, SIGXCPU, SIGPROF, SIGALRM}"
  shows "\<exists>k'. itimer_tick which sig k = Ok k' \<and> tick_ok k' \<and> clock_same k k'"
proof -
  define k1 where "k1 = k\<lparr>u := (u k)\<lparr>u_timer := (u_timer (u k))(which := (u_timer (u k) which)\<lparr>it_value := long (it_value (u_timer (u k) which) - 1)\<rparr>)\<rparr>\<rparr>"
  have "tick_ok k1" "clock_same k k1" using assms by (auto simp: k1_def)
  from psignal_tick [OF this(1) assms(2), of "u_procp (u k1)"] obtain k2 where
    "psignal (u_procp (u k1)) sig k1 = Ok k2" "tick_ok k2" "clock_same k1 k2" by blast
  then show ?thesis using \<open>tick_ok k1\<close> \<open>clock_same k k1\<close> assms(1) clock_same_trans [of k k1 k2]
    unfolding itimer_tick_def Let_def k1_def [symmetric] by auto
qed

lemma hardclock_charge_ok:
  assumes "tick_ok k"
  shows "\<exists>k'. hardclock_charge k = Ok k' \<and> tick_ok k' \<and> clock_same k k'"
proof -
  define k1 where "k1 = upd_proc (u_procp (u k)) (\<lambda>q. q\<lparr>p_cpu := (if p_cpu q + 1 = 0 then p_cpu q else p_cpu q + 1)\<rparr>) k"
  have "tick_ok k1" using assms by (simp add: k1_def tick_ok_def sched_inv_upd_proc sig_excl_def)
  moreover have "clock_same k k1" by (simp add: k1_def clock_same_def)
  moreover obtain k2 where k2: "psignal (u_procp (u k)) SIGXCPU k1 = Ok k2" "tick_ok k2" "clock_same k1 k2"
    using psignal_tick [OF \<open>tick_ok k1\<close>, of SIGXCPU] by auto
  ultimately show ?thesis
  proof (cases "long (ru_utime (u_ru (u k1)) + ru_stime (u_ru (u k1)) + 1) > rlim_cur (u_rlimit (u k1) 0)")
    case True
    define k3 where "k3 = (if rlim_cur (u_rlimit (u k2) 0) < rlim_max (u_rlimit (u k2) 0)
      then k2\<lparr>u := (u k2)\<lparr>u_rlimit := (u_rlimit (u k2))(0 := (u_rlimit (u k2) 0)\<lparr>rlim_cur := long (rlim_cur (u_rlimit (u k2) 0) + 5 * hz k2)\<rparr>)\<rparr>\<rparr> else k2)"
    have k3: "tick_ok k3" "clock_same k1 k3" using k2 by (auto simp: k3_def)
    have "hardclock_charge k = itimer_tick 1 SIGPROF k3"
      unfolding hardclock_charge_def Let_def k1_def [symmetric] using True k2(1) by (simp add: k3_def Let_def)
    with itimer_tick_ok [OF k3(1), of SIGPROF 1] k3(2) \<open>clock_same k k1\<close> show ?thesis by (auto intro: clock_same_trans)
  next
    case False
    have "hardclock_charge k = itimer_tick 1 SIGPROF k1"
      unfolding hardclock_charge_def Let_def k1_def [symmetric] using False by simp
    with itimer_tick_ok [OF \<open>tick_ok k1\<close>, of SIGPROF 1] \<open>clock_same k k1\<close> show ?thesis by (auto intro: clock_same_trans)
  qed
qed

text \<open>The work at the clock's own priority always completes; it counts the queue down and advances the time.\<close>

lemma hardclock_tick_ok:
  assumes "tick_ok k"
  shows "\<exists>k3. hardclock_tick usermode k = Ok (hardclock_time k3, snd (callout_tick (calltodo k)) \<or> usermode \<and> pr_scale (u_prof (u k)) \<noteq> 0)
     \<and> tick_ok k3 \<and> clock_same (k\<lparr>calltodo := fst (callout_tick (calltodo k))\<rparr>) k3"
proof -
  define k1 where "k1 = k\<lparr>calltodo := fst (callout_tick (calltodo k))\<rparr>"
  have "sched_same k k1" by (simp add: sched_same_def k1_def)
  then have t1: "tick_ok k1" using assms sched_same_inv [of k k1] by (simp add: tick_ok_def k1_def sig_excl_def)
  have ut: "tick_ok (k1\<lparr>u := (u k1)\<lparr>u_ru := (u_ru (u k1))\<lparr>ru_utime := long (ru_utime (u_ru (u k1)) + 1)\<rparr>\<rparr>\<rparr>)" using t1 by simp
  let ?sys = "if usermode then hardclock_user k1
            else Ok (if noproc k1 then k1 else k1\<lparr>u := (u k1)\<lparr>u_ru := (u_ru (u k1))\<lparr>ru_stime := long (ru_stime (u_ru (u k1)) + 1)\<rparr>\<rparr>\<rparr>)"
  have "\<exists>k2. ?sys = Ok k2 \<and> tick_ok k2 \<and> clock_same k1 k2"
    using itimer_tick_ok [OF ut, of SIGVTALRM 0] t1 by (auto simp: hardclock_user_def)
  then obtain k2 where k2: "?sys = Ok k2" "tick_ok k2" "clock_same k1 k2" by blast
  from hardclock_charge_ok [OF k2(2)] k2(2) obtain k3 where k3: "(if \<not> noproc k2 then hardclock_charge k2 else Ok k2) = Ok k3"
      "tick_ok k3" "clock_same k2 k3" by (metis clock_same_u(3))
  have "hardclock_tick usermode k = Ok (hardclock_time k3, snd (callout_tick (calltodo k)) \<or> usermode \<and> pr_scale (u_prof (u k1)) \<noteq> 0)"
    unfolding hardclock_tick_def Let_def case_prod_beta k1_def [symmetric] k2(1) bind_cres.simps k3(1) by simp
  moreover have "u k1 = u k" by (simp add: k1_def)
  ultimately show ?thesis using k3(2) clock_same_trans [OF k2(3) k3(3)] unfolding k1_def by auto
qed

lemma hardclock_time_frame:
  "tick_ok (hardclock_time k) = tick_ok k" "calltodo (hardclock_time k) = calltodo k" "callfree (hardclock_time k) = callfree k"
  "hz (hardclock_time k) = hz k" "adjdelta (hardclock_time k) = adjdelta k - sgn (adjdelta k)"
proof -
  have same: "sched_same k (hardclock_time k)" "procs (hardclock_time k) = procs k" "addr (hardclock_time k) = addr k"
    by (simp_all add: sched_same_def hardclock_time_def Let_def)
  show "tick_ok (hardclock_time k) = tick_ok k" using sched_same_inv [OF same(1)] same(2,3) by (simp add: tick_ok_def sig_excl_def)
  show "adjdelta (hardclock_time k) = adjdelta k - sgn (adjdelta k)" by (simp add: hardclock_time_def Let_def)
qed (simp_all add: hardclock_time_def Let_def)

text \<open>One tick, one more or one less while an adjustment is under way; a full second is carried.\<close>

lemma hardclock_time_adds:
  assumes "1 < hz k" "hz k < 2 ^ 30" "0 \<le> lbolt k" "lbolt k < hz k"
  shows "let l = lbolt k + 1 + sgn (adjdelta k)
     in lbolt (hardclock_time k) = (if l \<ge> hz k then l - hz k else l)
        \<and> tv_sec (time (hardclock_time k)) = (if l \<ge> hz k then long (tv_sec (time k) + 1) else tv_sec (time k))"
proof -
  have l: "long (lbolt k + d) = lbolt k + d" if "- 2 \<le> d" "d \<le> 2" for d using that assms by (intro long_id) auto
  have h: "long (lbolt k + d - hz k) = lbolt k + d - hz k" if "- 2 \<le> d" "d \<le> 2" for d using that assms by (intro long_id) auto
  consider "adjdelta k > 0" | "adjdelta k = 0" | "adjdelta k < 0" by linarith
  then show ?thesis
    using l [of 0] l [of 1] l [of 2] l [of "- 1"] h [of 0] h [of 1] h [of 2]
    by cases (simp_all add: hardclock_time_def Let_def algebra_simps)
qed

end
