(* ===== verification/Clock_Events.thy ===== *)
theory Clock_Events
  imports Clock
begin

text \<open>
  The clock interrupt as a whole: \<open>hardclock\<close> with the events \<open>softclock\<close> runs at its end (\<^verbatim>\<open>sys/kern/kern_clock.c\<close>).
  A routine that is called as an event keeps to a contract; the two routines of the kernel proper that are entered as events,
  \<open>endtsleep\<close> and \<open>schedcpu\<close> of \<^verbatim>\<open>sys/kern/kern_synch.c\<close>, are shown to keep to it.
\<close>

section \<open>Events\<close>

text \<open>The call through the table entry: the routines of the kernel proper, and those of the drivers.\<close>

definition clock_call :: "(kern \<Rightarrow> kern) \<Rightarrow> (nat \<Rightarrow> nat \<Rightarrow> kern \<Rightarrow> kern cres) \<Rightarrow> nat \<Rightarrow> nat \<Rightarrow> kern \<Rightarrow> kern cres" where
  "clock_call vmmeter other fn arg k =
     (if fn = FN_endtsleep then endtsleep arg k else if fn = FN_schedcpu then schedcpu vmmeter k else other fn arg k)"

text \<open>The events at the front of the queue that are due, and the run of one of them: it is taken off the queue and called.\<close>

definition due_events :: "kern \<Rightarrow> callout list" where
  "due_events k = takeWhile (\<lambda>c. c_time c \<le> 0) (calltodo k)"

definition run_event :: "(nat \<Rightarrow> nat \<Rightarrow> kern \<Rightarrow> kern cres) \<Rightarrow> callout \<Rightarrow> kern \<Rightarrow> kern cres" where
  "run_event call c k = call (c_func c) (c_arg c) (k\<lparr>calltodo := tl (calltodo k), callfree := c # callfree k\<rparr>)"

text \<open>
  \<open>c_time\<close> is an \<^verbatim>\<open>int\<close>: \<open>m\<close> ticks can be counted down without an entry of the queue leaving its range.
\<close>

definition ticks_fit :: "int \<Rightarrow> callout list \<Rightarrow> bool" where
  "ticks_fit m cs \<longleftrightarrow> (\<forall>c\<in>set cs. m - 2 ^ 31 \<le> c_time c \<and> c_time c < 2 ^ 31)"

text \<open>
  What an event may do: anything that keeps the scheduler's invariants, but not to the clock's variables, and to the callout
  queue nothing but enter further events, at times in the range of an \<^verbatim>\<open>int\<close>, in the table's unused entries.
\<close>

definition event_keeps :: "kern \<Rightarrow> kern \<Rightarrow> bool" where
  "event_keeps k k' \<longleftrightarrow> tick_ok k' \<and> callout_wf 0 (calltodo k') \<and> hz k' = hz k \<and> lbolt k' = lbolt k \<and> time k' = time k
     \<and> adjdelta k' = adjdelta k \<and> due_events k' = due_events k \<and> set (schedule k) \<subseteq> set (schedule k')
     \<and> (\<forall>m\<le>2 ^ 31. ticks_fit m (calltodo k) \<longrightarrow> ticks_fit m (calltodo k'))
     \<and> length (calltodo k') + length (callfree k') = length (calltodo k) + length (callfree k)"

definition event_ok :: "(nat \<Rightarrow> nat \<Rightarrow> kern \<Rightarrow> kern cres) \<Rightarrow> bool" where
  "event_ok call \<longleftrightarrow> (\<forall>fn arg k. tick_ok k \<longrightarrow> callout_wf 0 (calltodo k) \<longrightarrow> callfree k \<noteq> [] \<longrightarrow> hz k < 2 ^ 31 \<longrightarrow>
     (\<exists>k'. call fn arg k = Ok k' \<and> event_keeps k k'))"

lemma event_keeps_same: "tick_ok k' \<Longrightarrow> callout_wf 0 (calltodo k) \<Longrightarrow> clock_same k k' \<Longrightarrow> event_keeps k k'"
  by (simp add: event_keeps_def clock_same_def due_events_def)

lemma event_keeps_trans: "event_keeps k k' \<Longrightarrow> event_keeps k' k'' \<Longrightarrow> event_keeps k k''"
  unfolding event_keeps_def by auto

section \<open>The events of the kernel proper\<close>

lemma tick_ok_upd:
  assumes "\<And>q. p_wchan (f q) = p_wchan q \<and> p_stat (f q) = p_stat q \<and> p_flag (f q) = p_flag q \<and> p_sig (f q) = p_sig q"
  shows "tick_ok (upd_proc p f k) = tick_ok k"
proof -
  have "sched_inv (upd_proc p f k) = sched_inv k" by (rule sched_inv_upd_proc) (use assms in blast)
  moreover have "p_sig (procs (upd_proc p f k) q) = p_sig (procs k q)" for q using assms by simp
  ultimately show ?thesis by (simp add: tick_ok_def sig_excl_def)
qed

lemma clock_same_upd [simp]: "clock_same k (upd_proc p f k') = clock_same k k'"
  by (simp add: clock_same_def)

lemma tick_ok_runrun [simp]: "tick_ok (k\<lparr>runrun := x\<rparr>) = tick_ok k" "tick_ok (k\<lparr>runin := x\<rparr>) = tick_ok k"
  "tick_ok (k\<lparr>umem := m\<rparr>) = tick_ok k" "tick_ok (k\<lparr>calltodo := q, callfree := q'\<rparr>) = tick_ok k"
proof -
  have "sched_same k (k\<lparr>runrun := x\<rparr>)" "sched_same k (k\<lparr>runin := x\<rparr>)" "sched_same k (k\<lparr>umem := m\<rparr>)" "sched_same k (k\<lparr>calltodo := q, callfree := q'\<rparr>)"
    by (simp_all add: sched_same_def)
  note s = this [THEN sched_same_inv]
  show "tick_ok (k\<lparr>runrun := x\<rparr>) = tick_ok k" "tick_ok (k\<lparr>runin := x\<rparr>) = tick_ok k"
    "tick_ok (k\<lparr>umem := m\<rparr>) = tick_ok k" "tick_ok (k\<lparr>calltodo := q, callfree := q'\<rparr>) = tick_ok k"
    unfolding tick_ok_def s by (simp_all add: sig_excl_def)
qed

lemma clock_same_runrun [simp]: "clock_same k (k'\<lparr>runrun := x\<rparr>) = clock_same k k'" "clock_same k (k'\<lparr>runin := y\<rparr>) = clock_same k k'"
  "clock_same k (k'\<lparr>umem := m\<rparr>) = clock_same k k'"
  by (simp_all add: clock_same_def)

lemma setpri_tick [simp]: "tick_ok (fst (setpri p k)) = tick_ok k" "clock_same j (fst (setpri p k)) = clock_same j k"
  by (simp_all add: setpri_def Let_def tick_ok_upd)

lemma softclock_user_tick: "tick_ok k \<Longrightarrow> tick_ok (softclock_user pc usermode k)" "clock_same k (softclock_user pc usermode k)"
  by (simp_all add: softclock_user_def addupc_def Let_def tick_ok_upd)

lemma core_tick: "kcore k' = kcore k \<Longrightarrow> sched_inv k' \<Longrightarrow> tick_ok k \<Longrightarrow> tick_ok k' \<and> clock_same k k'"
  using ktab_D [OF ktab_core, of k' k] sig_excl_core [of k' k] by (simp add: tick_ok_def clock_same_def)

lemma wakeup_tick: "tick_ok k \<Longrightarrow> chan \<noteq> 0 \<Longrightarrow> \<exists>k'. wakeup chan k = Ok k' \<and> tick_ok k' \<and> clock_same k k'"
  using wakeup_spec [of k chan] wakeup_core [of chan k] core_tick by (metis tick_ok_def)

lemma sched_inv_flag:
  assumes "\<And>q. p_wchan (f q) = p_wchan q \<and> p_stat (f q) = p_stat q \<and> (p_flag q AND SLOAD \<noteq> 0 \<longrightarrow> p_flag (f q) AND SLOAD \<noteq> 0)"
  shows "sched_inv k \<Longrightarrow> sched_inv (upd_proc p f k)"
  using assms by (simp add: sched_inv_def slp_ok_def run_ok_def)

lemma endtsleep_tick:
  assumes "tick_ok k"
  shows "\<exists>k'. endtsleep p k = Ok k' \<and> tick_ok k' \<and> clock_same k k'"
proof (cases "p_wchan (procs k p) = 0")
  case True
  then show ?thesis using assms by (simp add: endtsleep_def)
next
  case False
  have inv: "sched_inv k" "addr k Sym_runout \<noteq> 0" using assms by (simp_all add: tick_ok_def)
  have "\<exists>k1. (if p_stat (procs k p) = SSLEEP then setrun p k else unsleep p k) = Ok k1 \<and> sched_inv k1 \<and> kcore k1 = kcore k"
    using setrun_spec [OF inv, of p] unsleep_spec [OF inv(1), of p] setrun_core [of p k] unsleep_core [of p k] by auto
  then obtain k1 where k1: "(if p_stat (procs k p) = SSLEEP then setrun p k else unsleep p k) = Ok k1" "sched_inv k1" "kcore k1 = kcore k" by blast
  let ?k = "upd_proc p (\<lambda>q. q\<lparr>p_flag := p_flag q OR P_TIMEOUT\<rparr>) k1"
  have "sched_inv ?k" by (rule sched_inv_flag [OF _ k1(2)]) (simp add: bit.conj_disj_distrib2)
  then have "tick_ok ?k" using core_tick [OF k1(3,2) assms] by (simp add: tick_ok_def sig_excl_def)
  then show ?thesis using False k1(1) core_tick [OF k1(3,2) assms] by (simp add: endtsleep_def)
qed

lemma schedcpu_proc_tick:
  assumes "tick_ok k"
  shows "\<exists>k'. schedcpu_proc p k = Ok k' \<and> tick_ok k' \<and> clock_same k k'"
proof -
  define k0 where "k0 = (if p_time (procs k p) \<noteq> 127 then upd_proc p (\<lambda>q. q\<lparr>p_time := p_time q + 1\<rparr>) k else k)"
  have k0: "tick_ok k0" "clock_same k k0" using assms by (simp_all add: k0_def tick_ok_upd)
  let ?rt = "p_realtimer (procs k0 p)"
  define k1 where "k1 = upd_proc p (\<lambda>q. q\<lparr>p_realtimer := ?rt\<lparr>it_value := long (it_value ?rt - 1)\<rparr>\<rparr>) k0"
  have k1: "tick_ok k1" "clock_same k k1" using k0 by (simp_all add: k1_def tick_ok_upd)
  obtain k2 where k2: "psignal p SIGALRM k1 = Ok k2" "tick_ok k2" "clock_same k1 k2" using psignal_tick [OF k1(1), of SIGALRM p] by auto
  have "\<exists>k3. (if it_value ?rt = 0 then Ok k0 else if long (it_value ?rt - 1) \<noteq> 0 then Ok k1
        else bind_cres (psignal p SIGALRM k1) (\<lambda>k. Ok (upd_proc p (\<lambda>q. q\<lparr>p_realtimer := (p_realtimer q)\<lparr>it_value := it_interval (p_realtimer q)\<rparr>\<rparr>) k)))
      = Ok k3 \<and> tick_ok k3 \<and> clock_same k k3"
    using k0 k1 k2 clock_same_trans [of k k1 k2] by (simp add: tick_ok_upd)
  then obtain k3 where k3: "(if it_value ?rt = 0 then Ok k0 else if long (it_value ?rt - 1) \<noteq> 0 then Ok k1
        else bind_cres (psignal p SIGALRM k1) (\<lambda>k. Ok (upd_proc p (\<lambda>q. q\<lparr>p_realtimer := (p_realtimer q)\<lparr>it_value := it_interval (p_realtimer q)\<rparr>\<rparr>) k)))
      = Ok k3" "tick_ok k3" "clock_same k k3" by blast
  show ?thesis
    unfolding schedcpu_proc_def Let_def k0_def [symmetric] k1_def [symmetric] k3(1) bind_cres.simps
    using k3(2,3) by (simp add: tick_ok_upd)
qed

lemma schedcpu_loop_tick: "tick_ok k \<Longrightarrow> \<exists>k'. schedcpu_loop ps k = Ok k' \<and> tick_ok k' \<and> clock_same k k'"
proof (induction ps arbitrary: k)
  case (Cons p ps)
  from schedcpu_proc_tick [OF Cons.prems, of p] obtain k1 where k1: "schedcpu_proc p k = Ok k1" "tick_ok k1" "clock_same k k1" by blast
  with Cons.IH [OF k1(2)] show ?case by (auto intro: clock_same_trans)
qed simp

lemma timeout_due:
  "0 < t \<Longrightarrow> takeWhile (\<lambda>c. c_time c \<le> 0) (timeout_insert p t cs) = takeWhile (\<lambda>c. c_time c \<le> 0) cs"
  by (induction cs arbitrary: t) auto

lemma ticks_fit_simps [simp]:
  "ticks_fit m []" "ticks_fit m (c # cs) \<longleftrightarrow> m - 2 ^ 31 \<le> c_time c \<and> c_time c < 2 ^ 31 \<and> ticks_fit m cs"
  by (simp_all add: ticks_fit_def)

lemma ticks_fit_le: "ticks_fit m cs \<Longrightarrow> m' \<le> m \<Longrightarrow> ticks_fit m' cs"
  by (induction cs) auto

lemma timeout_insert_fit: "0 < t \<Longrightarrow> t < 2 ^ 31 \<Longrightarrow> m \<le> 2 ^ 31 \<Longrightarrow> ticks_fit m cs \<Longrightarrow> ticks_fit m (timeout_insert p t cs)"
  by (induction p t cs rule: timeout_insert.induct) simp_all

lemma callout_tick_fit: "ticks_fit (m + 1) cs \<Longrightarrow> ticks_fit m (fst (callout_tick cs))"
  by (induction cs rule: callout_tick.induct) (use ticks_fit_le in \<open>fastforce simp: Let_def\<close>)+

lemma timeout_insert_length: "length (timeout_insert p t cs) = Suc (length cs)"
  by (induction p t cs rule: timeout_insert.induct) auto

lemma timeout_event:
  assumes "tick_ok k" "callout_wf 0 (calltodo k)" "callfree k \<noteq> []" "t < 2 ^ 31"
  shows "\<exists>k'. timeout fn arg t k = Ok k' \<and> event_keeps k k'"
proof -
  obtain c free where c: "callfree k = c # free" using assms(3) by (cases "callfree k") auto
  define k' where "k' = k\<lparr>callfree := free, calltodo := timeout_insert (c\<lparr>c_arg := arg, c_func := fn\<rparr>) (max 1 t) (calltodo k)\<rparr>"
  have k': "timeout fn arg t k = Ok k'" using c by (auto simp: timeout_def Let_def k'_def max_def)
  have e: "k' = k\<lparr>calltodo := timeout_insert (c\<lparr>c_arg := arg, c_func := fn\<rparr>) (max 1 t) (calltodo k), callfree := free\<rparr>" by (simp add: k'_def)
  have "tick_ok k'" unfolding e using assms(1) by simp
  moreover have "due_events k' = due_events k" by (simp add: due_events_def k'_def timeout_due)
  moreover have "length (calltodo k') + length (callfree k') = length (calltodo k) + length (callfree k)"
    by (simp add: k'_def timeout_insert_length c)
  moreover have "hz k' = hz k" "lbolt k' = lbolt k" "time k' = time k" "adjdelta k' = adjdelta k" by (simp_all add: k'_def)
  moreover have "ticks_fit m (calltodo k')" if "m \<le> 2 ^ 31" "ticks_fit m (calltodo k)" for m
    using timeout_insert_fit [OF _ _ that, of "max 1 t"] assms(4) by (simp add: k'_def)
  ultimately show ?thesis using k' timeout_schedule [OF assms(2) k'] unfolding event_keeps_def by blast
qed

lemma schedcpu_event:
  assumes "tick_ok k" "callout_wf 0 (calltodo k)" "callfree k \<noteq> []" "hz k < 2 ^ 31" and vm: "\<And>k. tick_ok k \<Longrightarrow> tick_ok (vmmeter k) \<and> clock_same k (vmmeter k)"
  shows "\<exists>k'. schedcpu vmmeter k = Ok k' \<and> event_keeps k k'"
proof -
  have nz: "addr j s \<noteq> 0" if "tick_ok j" for j s using that by (simp add: tick_ok_def)
  obtain k1 where k1: "wakeup (addr k Sym_lbolt) k = Ok k1" "tick_ok k1" "clock_same k k1" using wakeup_tick [OF assms(1)] nz [OF assms(1)] by blast
  obtain k2 where k2: "schedcpu_loop (allproc k1) k1 = Ok k2" "tick_ok k2" "clock_same k1 k2" using schedcpu_loop_tick [OF k1(2)] by blast
  define k3 where "k3 = vmmeter k2"
  have k3: "tick_ok k3" "clock_same k2 k3" using vm [OF k2(2)] by (auto simp: k3_def)
  obtain k4' where w: "wakeup (addr k3 Sym_runin) (k3\<lparr>runin := 0\<rparr>) = Ok k4'" "tick_ok k4'" "clock_same (k3\<lparr>runin := 0\<rparr>) k4'"
    using wakeup_tick [of "k3\<lparr>runin := 0\<rparr>" "addr k3 Sym_runin"] k3(1) nz by auto
  then have "clock_same k3 k4'" by (simp add: clock_same_def)
  then obtain k4 where k4: "(if runin k3 \<noteq> 0 then wakeup (addr k3 Sym_runin) (k3\<lparr>runin := 0\<rparr>) else Ok k3) = Ok k4" "tick_ok k4" "clock_same k3 k4"
    using w k3 by (cases "runin k3 \<noteq> 0") auto
  have c: "clock_same k k4" using k1(3) k2(3) k3(2) k4(3) by (simp add: clock_same_def)
  define k5 where "k5 = k4\<lparr>runrun := runrun k4 + 1\<rparr>"
  have k5: "tick_ok k5" "clock_same k k5" using k4(2) c by (simp_all add: k5_def)
  have kp: "event_keeps k k5" by (rule event_keeps_same [OF k5(1) assms(2) k5(2)])
  have "hz k4 < 2 ^ 31" using c assms(4) by (simp add: clock_same_def)
  moreover have "callfree k5 \<noteq> []" using k5(2) assms(3) by (simp add: clock_same_def)
  moreover have "callout_wf 0 (calltodo k5)" using kp by (simp add: event_keeps_def)
  ultimately obtain k6 where k6: "timeout FN_schedcpu 0 (hz k4) k5 = Ok k6" "event_keeps k5 k6" using timeout_event [OF k5(1)] by blast
  have "schedcpu vmmeter k = Ok k6"
    unfolding schedcpu_def k1(1) k2(1) bind_cres.simps Let_def k3_def [symmetric] k4(1) using k6(1) by (simp add: k5_def)
  then show ?thesis using event_keeps_trans [OF kp k6(2)] by blast
qed

lemma clock_call_ok:
  assumes "event_ok other" and "\<And>k. tick_ok k \<Longrightarrow> tick_ok (vmmeter k) \<and> clock_same k (vmmeter k)"
  shows "event_ok (clock_call vmmeter other)"
  unfolding event_ok_def
proof (intro allI impI)
  fix fn arg k
  assume k: "tick_ok k" "callout_wf 0 (calltodo k)" "callfree k \<noteq> []" "hz k < 2 ^ 31"
  consider "fn = FN_endtsleep" | "fn = FN_schedcpu" | "fn \<noteq> FN_endtsleep" "fn \<noteq> FN_schedcpu" by blast
  then show "\<exists>k'. clock_call vmmeter other fn arg k = Ok k' \<and> event_keeps k k'"
  proof cases
    case 1
    then show ?thesis using endtsleep_tick [OF k(1), of arg] event_keeps_same [OF _ k(2)] by (auto simp: clock_call_def)
  next
    case 2
    then show ?thesis using schedcpu_event [OF k assms(2)] by (auto simp: clock_call_def)
  next
    case 3
    then show ?thesis using assms(1) k by (auto simp: clock_call_def event_ok_def)
  qed
qed

section \<open>The clock interrupt with its events\<close>

lemma due_schedule: "map (\<lambda>c. (c_func c, c_arg c)) (takeWhile (\<lambda>c. c_time c \<le> 0) cs) = map snd (takeWhile (\<lambda>(r, _). r \<le> 0) (sched_of 0 cs))"
  by (induction cs) auto

lemma softclock_user_frame:
  "tick_ok k \<Longrightarrow> tick_ok (softclock_user pc usermode k)" "calltodo (softclock_user pc usermode k) = calltodo k"
  "callfree (softclock_user pc usermode k) = callfree k" "hz (softclock_user pc usermode k) = hz k"
  "lbolt (softclock_user pc usermode k) = lbolt k" "time (softclock_user pc usermode k) = time k"
  "adjdelta (softclock_user pc usermode k) = adjdelta k"
  using softclock_user_tick [of k pc usermode] by (simp_all add: clock_same_def)

text \<open>The routines \<open>softclock\<close> may call.\<close>

locale clock_events =
  fixes call :: "nat \<Rightarrow> nat \<Rightarrow> kern \<Rightarrow> kern cres"
  assumes event_returns: "event_ok call"
begin

text \<open>\<open>softclock\<close> runs the events that are due, in the order of the queue, and ends.\<close>

lemma softclock_loop_runs:
  assumes "tick_ok k" "callout_wf 0 (calltodo k)" "length (due_events k) < n" "hz k < 2 ^ 31"
  shows "\<exists>k'. softclock_loop call n k = Ok k' \<and> run_calls (run_event call) (due_events k) k = Ok k' \<and> tick_ok k'
     \<and> callout_wf 0 (calltodo k') \<and> hz k' = hz k \<and> lbolt k' = lbolt k \<and> time k' = time k \<and> adjdelta k' = adjdelta k
     \<and> due_events k' = [] \<and> (\<forall>m\<le>2 ^ 31. ticks_fit m (calltodo k) \<longrightarrow> ticks_fit m (calltodo k')) \<and> (\<forall>r e. (r, e) \<in> set (schedule k) \<and> 0 < r \<longrightarrow> (r, e) \<in> set (schedule k'))
     \<and> length (calltodo k') + length (callfree k') = length (calltodo k) + length (callfree k)"
  using assms
proof (induction n arbitrary: k)
  case (Suc n)
  show ?case
  proof (cases "due_events k")
    case Nil
    then have "softclock_next k = None" by (cases "calltodo k") (auto simp: due_events_def softclock_next_def split: if_splits)
    with Nil Suc.prems show ?thesis by simp
  next
    case (Cons c cs)
    then obtain rest where q: "calltodo k = c # rest" "c_time c \<le> 0"
      by (cases "calltodo k") (auto simp: due_events_def split: if_splits)
    define k0 where "k0 = k\<lparr>calltodo := rest, callfree := c # callfree k\<rparr>"
    have nx: "softclock_next k = Some (k0, c)" using q by (simp add: softclock_next_def k0_def)
    have k0: "tick_ok k0" "callout_wf 0 (calltodo k0)" "callfree k0 \<noteq> []" "due_events k0 = cs" "hz k0 < 2 ^ 31" using Suc.prems q Cons by (simp_all add: k0_def due_events_def)
    obtain k1 where k1: "call (c_func c) (c_arg c) k0 = Ok k1" "event_keeps k0 k1" using event_returns k0 unfolding event_ok_def by blast
    have k1': "tick_ok k1" "callout_wf 0 (calltodo k1)" "due_events k1 = cs" "hz k1 < 2 ^ 31" using k1(2) k0(4,5) by (simp_all add: event_keeps_def)
    obtain k' where k': "softclock_loop call n k1 = Ok k'" "run_calls (run_event call) cs k1 = Ok k'" "tick_ok k'"
      "callout_wf 0 (calltodo k')" "hz k' = hz k1" "lbolt k' = lbolt k1" "time k' = time k1" "adjdelta k' = adjdelta k1"
      "due_events k' = []" "\<forall>r e. (r, e) \<in> set (schedule k1) \<and> 0 < r \<longrightarrow> (r, e) \<in> set (schedule k')"
      "length (calltodo k') + length (callfree k') = length (calltodo k1) + length (callfree k1)"
      "\<forall>m\<le>2 ^ 31. ticks_fit m (calltodo k1) \<longrightarrow> ticks_fit m (calltodo k')"
      using Suc.IH [OF k1'(1,2)] k1'(3,4) Suc.prems(3) Cons by auto
    have "run_calls (run_event call) (due_events k) k = Ok k'" using Cons q k1(1) k'(2) by (simp add: run_event_def k0_def)
    moreover have "softclock_loop call (Suc n) k = Ok k'" using nx k1(1) k'(1) by simp
    moreover have "(r, e) \<in> set (schedule k')" if "(r, e) \<in> set (schedule k)" "0 < r" for r e
    proof -
      have "(r, e) \<in> set (schedule k0)" using that q by (auto simp: k0_def)
      then have "(r, e) \<in> set (schedule k1)" using k1(2) unfolding event_keeps_def by blast
      then show ?thesis using k'(10) that(2) by blast
    qed
    moreover have "ticks_fit m (calltodo k')" if "m \<le> 2 ^ 31" "ticks_fit m (calltodo k)" for m
    proof -
      have "ticks_fit m (calltodo k0)" using that(2) q by (simp add: ticks_fit_def k0_def)
      then show ?thesis using that(1) k1(2) k'(12) unfolding event_keeps_def by blast
    qed
    moreover have "hz k0 = hz k" "lbolt k0 = lbolt k" "time k0 = time k" "adjdelta k0 = adjdelta k"
      "length (calltodo k0) + length (callfree k0) = length (calltodo k) + length (callfree k)" using q by (simp_all add: k0_def)
    ultimately show ?thesis using k' k1(2) unfolding event_keeps_def by auto
  qed
qed simp

text \<open>A whole interrupt: the state \<open>k1\<close> after the work at the clock's own priority, and the events run from there.\<close>

lemma hardclock_runs:
  assumes t: "tick_ok k" and wf: "callout_wf 0 (calltodo k)" and n: "length (calltodo k) < n" and hz: "hz k < 2 ^ 31"
  shows "\<exists>k1 soft k'. hardclock_tick usermode k = Ok (k1, soft) \<and> schedule k1 = map (\<lambda>(r, e). (r - 1, e)) (schedule k)
     \<and> run_calls (run_event call) (if basepri then due_events k1 else []) k1 = Ok k'
     \<and> hardclock call n pc usermode basepri k = Ok (if soft \<and> basepri then softclock_user pc usermode k' else k')
     \<and> tick_ok k' \<and> callout_wf 0 (calltodo k') \<and> hz k' = hz k1 \<and> lbolt k' = lbolt k1 \<and> time k' = time k1 \<and> adjdelta k' = adjdelta k1
     \<and> (\<forall>r e. (r, e) \<in> set (schedule k1) \<and> (0 < r \<or> \<not> basepri) \<longrightarrow> (r, e) \<in> set (schedule k'))
     \<and> length (calltodo k') + length (callfree k') = length (calltodo k) + length (callfree k)
     \<and> (\<forall>m\<le>2 ^ 31. ticks_fit (m + 1) (calltodo k) \<longrightarrow> ticks_fit m (calltodo k')) \<and> hz k1 = hz k
     \<and> (\<exists>k3. k1 = hardclock_time k3 \<and> clock_same (k\<lparr>calltodo := fst (callout_tick (calltodo k))\<rparr>) k3)"
proof -
  let ?soft = "snd (callout_tick (calltodo k)) \<or> usermode \<and> pr_scale (u_prof (u k)) \<noteq> 0"
  obtain k3 where k3: "hardclock_tick usermode k = Ok (hardclock_time k3, ?soft)" "tick_ok k3"
    "clock_same (k\<lparr>calltodo := fst (callout_tick (calltodo k))\<rparr>) k3" using hardclock_tick_ok [OF t, of usermode] by blast
  define k1 where "k1 = hardclock_time k3"
  note fr = hardclock_time_frame [of k3, folded k1_def]
  have q: "calltodo k1 = fst (callout_tick (calltodo k))" "callfree k1 = callfree k" using k3(3) fr by (simp_all add: clock_same_def)
  note ct = callout_tick_sched [OF wf]
  have len: "length (fst (callout_tick cs)) = length cs" for cs by (induction cs rule: callout_tick.induct) (auto simp: Let_def)
  have k1: "tick_ok k1" "callout_wf 0 (calltodo k1)" "schedule k1 = map (\<lambda>(r, e). (r - 1, e)) (schedule k)"
    using fr(1) k3(2) ct unfolding q by auto
  have due: "due_events k1 = []" if "\<not> ?soft"
  proof -
    have "\<not> (\<exists>(r, e)\<in>set (schedule k1). r \<le> 0)" using that ct unfolding q by blast
    then have "takeWhile (\<lambda>(r, _). r \<le> 0) (schedule k1) = []" by (cases "schedule k1") auto
    then have "map (\<lambda>c. (c_func c, c_arg c)) (due_events k1) = []" unfolding due_events_def due_schedule by simp
    then show ?thesis by simp
  qed
  have "length (due_events k1) < n" using n len [of "calltodo k"] length_takeWhile_le [of "\<lambda>c. c_time c \<le> 0" "calltodo k1"] unfolding q due_events_def by linarith
  then have l: "length (due_events k1) < n" .
  have hz1: "hz k1 = hz k" using k3(3) fr by (simp add: clock_same_def)
  then have hz2: "hz k1 < 2 ^ 31" using hz by simp
  obtain k2 where k2: "softclock_loop call n k1 = Ok k2" "run_calls (run_event call) (due_events k1) k1 = Ok k2"
    "tick_ok k2" "callout_wf 0 (calltodo k2)" "hz k2 = hz k1" "lbolt k2 = lbolt k1" "time k2 = time k1" "adjdelta k2 = adjdelta k1"
    "\<forall>r e. (r, e) \<in> set (schedule k1) \<and> 0 < r \<longrightarrow> (r, e) \<in> set (schedule k2)"
    "length (calltodo k2) + length (callfree k2) = length (calltodo k1) + length (callfree k1)"
    "\<forall>m\<le>2 ^ 31. ticks_fit m (calltodo k1) \<longrightarrow> ticks_fit m (calltodo k2)" using softclock_loop_runs [OF k1(1,2) l hz2] by blast
  have cons: "length (calltodo k1) + length (callfree k1) = length (calltodo k) + length (callfree k)" using len unfolding q by simp
  define k' where "k' = (if basepri then k2 else k1)"
  have "run_calls (run_event call) (if basepri then due_events k1 else []) k1 = Ok k'" using k2(2) by (simp add: k'_def)
  moreover have "hardclock call n pc usermode basepri k = Ok (if ?soft \<and> basepri then softclock_user pc usermode k' else k')"
    using k3(1) k2(1,2) due by (auto simp: hardclock_def softclock_def k1_def [symmetric] k'_def)
  moreover have "tick_ok k' \<and> callout_wf 0 (calltodo k') \<and> hz k' = hz k1 \<and> lbolt k' = lbolt k1 \<and> time k' = time k1 \<and> adjdelta k' = adjdelta k1
     \<and> (\<forall>r e. (r, e) \<in> set (schedule k1) \<and> (0 < r \<or> \<not> basepri) \<longrightarrow> (r, e) \<in> set (schedule k'))
     \<and> length (calltodo k') + length (callfree k') = length (calltodo k) + length (callfree k)"
    using k2 k1 cons by (simp add: k'_def)
  moreover have "ticks_fit m (calltodo k')" if "m \<le> 2 ^ 31" "ticks_fit (m + 1) (calltodo k)" for m
  proof -
    have "ticks_fit m (calltodo k1)" unfolding q by (rule callout_tick_fit [OF that(2)])
    then show ?thesis using k2(11) that(1) by (simp add: k'_def)
  qed
  ultimately show ?thesis using k3 k1(3) hz1 unfolding k1_def by blast
qed

end

context clock_events
begin

text \<open>An event stays pending, one tick nearer at each interrupt, until an interrupt at the base priority finds it due.\<close>

lemma hardclocks_pending:
  assumes "tick_ok k" "callout_wf 0 (calltodo k)" "length (calltodo k) + length (callfree k) < n" "(r, e) \<in> set (schedule k)"
    "\<forall>i<length is. snd (snd (is ! i)) \<longrightarrow> int i + 1 < r" "hz k < 2 ^ 31"
    "0 \<le> m" "int (length is) + m \<le> 2 ^ 31" "ticks_fit (int (length is) + m) (calltodo k)"
  shows "\<exists>k'. run_calls (\<lambda>(pc, usermode, basepri). hardclock call n pc usermode basepri) is k = Ok k' \<and> tick_ok k'
     \<and> callout_wf 0 (calltodo k') \<and> length (calltodo k') + length (callfree k') < n \<and> (r - int (length is), e) \<in> set (schedule k')
     \<and> hz k' < 2 ^ 31 \<and> ticks_fit m (calltodo k')"
  using assms
proof (induction "is" arbitrary: k r)
  case (Cons i "is")
  obtain pc usermode basepri where i: "i = (pc, usermode, basepri)" by (cases i)
  have n: "length (calltodo k) < n" using Cons.prems(3) by simp
  obtain k1 soft k2 where h: "schedule k1 = map (\<lambda>(r, e). (r - 1, e)) (schedule k)"
      "hardclock call n pc usermode basepri k = Ok (if soft \<and> basepri then softclock_user pc usermode k2 else k2)"
      "tick_ok k2" "callout_wf 0 (calltodo k2)"
      "\<forall>r e. (r, e) \<in> set (schedule k1) \<and> (0 < r \<or> \<not> basepri) \<longrightarrow> (r, e) \<in> set (schedule k2)"
      "length (calltodo k2) + length (callfree k2) = length (calltodo k) + length (callfree k)"
      "\<forall>m\<le>2 ^ 31. ticks_fit (m + 1) (calltodo k) \<longrightarrow> ticks_fit m (calltodo k2)" "hz k2 = hz k"
    using hardclock_runs [OF Cons.prems(1,2) n Cons.prems(6), of usermode basepri pc] by metis
  define k' where "k' = (if soft \<and> basepri then softclock_user pc usermode k2 else k2)"
  have k': "tick_ok k'" "calltodo k' = calltodo k2" "callfree k' = callfree k2" "hz k' = hz k"
    using h(3,8) softclock_user_frame(1) [of k2 pc usermode] softclock_user_frame(2-) [of pc usermode k2] by (simp_all add: k'_def)
  have "basepri \<longrightarrow> 1 < r" using Cons.prems(5) [rule_format, of 0] i by simp
  then have "(r - 1, e) \<in> set (schedule k')"
    using Cons.prems(4) h(5) [rule_format, of "r - 1" e] unfolding h(1) k'(2) by force
  moreover have "\<forall>j<length is. snd (snd (is ! j)) \<longrightarrow> int j + 1 < r - 1"
    using Cons.prems(5) by (auto dest: spec [where x = "Suc _"])
  moreover have "ticks_fit (int (length is) + m) (calltodo k')"
    using h(7) [rule_format, of "int (length is) + m"] Cons.prems(8,9) unfolding k'(2) by (simp add: algebra_simps)
  ultimately obtain k'' where "run_calls (\<lambda>(pc, usermode, basepri). hardclock call n pc usermode basepri) is k' = Ok k''" "tick_ok k''"
     "callout_wf 0 (calltodo k'')" "length (calltodo k'') + length (callfree k'') < n" "(r - 1 - int (length is), e) \<in> set (schedule k'')"
     "hz k'' < 2 ^ 31" "ticks_fit m (calltodo k'')"
    using Cons.IH [of k' "r - 1"] k' h(4,6) Cons.prems(3,6,7,8) by auto
  then show ?case using h(2) i by (auto simp: k'_def algebra_simps)
qed simp

end

text \<open>The events of the kernel proper; statistics are not part of the state.\<close>

interpretation kernel: clock_events "clock_call (\<lambda>k. k) (\<lambda>_ _. Ok)"
proof
  have "event_ok (\<lambda>_ _. Ok)" by (auto simp: event_ok_def intro: event_keeps_same)
  then show "event_ok (clock_call (\<lambda>k. k) (\<lambda>_ _. Ok))" by (rule clock_call_ok) simp
qed

section \<open>Properties\<close>

text \<open>
  C32. A clock interrupt, from the count-down of the callout queue to the last event \<open>softclock\<close> runs for it, always completes
  when the events it may run keep to the contract of events and \<open>softclock\<close> may take more turns than there are pending
  events, none of them late by the range of an \<^verbatim>\<open>int\<close>. It posts the signals of timers and limits without a panic, keeps the scheduler's queues, the exclusion of stop and
  continue signals, the order of the callout queue and the range of its entries, moves every event it does not run one tick nearer, and advances
  the time of day by exactly one tick, one more or one less while an adjustment is under way, which it brings one tick
  nearer to its end. The ticks within the second stay below the ticks per second, and a full second is carried into the
  seconds, which wrap at 32 bits.
\<close>

theorem hardclock_keeps_time:
  assumes "event_ok call" and "sched_inv k" "sig_excl k" "\<forall>s. addr k s \<noteq> 0" and "callout_wf 0 (calltodo k)" "length (calltodo k) < n"
    and "ticks_fit 1 (calltodo k)" and "1 < hz k" "hz k < 2 ^ 30" "0 \<le> lbolt k" "lbolt k < hz k"
  shows "\<exists>k'. hardclock call n pc usermode basepri k = Ok k' \<and> sched_inv k' \<and> sig_excl k' \<and> callout_wf 0 (calltodo k') \<and> ticks_fit 0 (calltodo k')
     \<and> (\<forall>r e. (r, e) \<in> set (schedule k) \<and> (1 < r \<or> \<not> basepri) \<longrightarrow> (r - 1, e) \<in> set (schedule k'))
     \<and> 0 \<le> lbolt k' \<and> lbolt k' < hz k' \<and> hz k' = hz k
     \<and> (if hz k \<le> lbolt k + 1 + sgn (adjdelta k)
        then lbolt k' = lbolt k + 1 + sgn (adjdelta k) - hz k \<and> tv_sec (time k') = long (tv_sec (time k) + 1)
        else lbolt k' = lbolt k + 1 + sgn (adjdelta k) \<and> tv_sec (time k') = tv_sec (time k))
     \<and> adjdelta k' = adjdelta k - sgn (adjdelta k)"
proof -
  have t: "tick_ok k" using assms(2-4) by (simp add: tick_ok_def)
  have hz: "hz k < 2 ^ 31" using assms(9) by simp
  obtain k1 soft k2 k3 where h: "schedule k1 = map (\<lambda>(r, e). (r - 1, e)) (schedule k)"
      "hardclock call n pc usermode basepri k = Ok (if soft \<and> basepri then softclock_user pc usermode k2 else k2)"
      "tick_ok k2" "callout_wf 0 (calltodo k2)" "hz k2 = hz k1" "lbolt k2 = lbolt k1" "time k2 = time k1" "adjdelta k2 = adjdelta k1"
      "\<forall>r e. (r, e) \<in> set (schedule k1) \<and> (0 < r \<or> \<not> basepri) \<longrightarrow> (r, e) \<in> set (schedule k2)"
      "k1 = hardclock_time k3" "clock_same (k\<lparr>calltodo := fst (callout_tick (calltodo k))\<rparr>) k3"
      "\<forall>m\<le>2 ^ 31. ticks_fit (m + 1) (calltodo k) \<longrightarrow> ticks_fit m (calltodo k2)"
    using clock_events.hardclock_runs [OF clock_events.intro [OF assms(1)] t assms(5,6) hz, of usermode basepri pc] by blast
  define k' where "k' = (if soft \<and> basepri then softclock_user pc usermode k2 else k2)"
  have k': "tick_ok k'" "calltodo k' = calltodo k2" "hz k' = hz k1" "lbolt k' = lbolt k1" "time k' = time k1" "adjdelta k' = adjdelta k1"
    using h softclock_user_frame(1) [of k2 pc usermode] softclock_user_frame(2-) [of pc usermode k2] by (simp_all add: k'_def)
  have c: "hz k3 = hz k" "lbolt k3 = lbolt k" "time k3 = time k" "adjdelta k3 = adjdelta k" using h(11) by (simp_all add: clock_same_def)
  let ?l = "lbolt k + 1 + sgn (adjdelta k)"
  have "lbolt k' = (if hz k \<le> ?l then ?l - hz k else ?l) \<and> tv_sec (time k') = (if hz k \<le> ?l then long (tv_sec (time k) + 1) else tv_sec (time k))"
    using hardclock_time_adds [of k3] assms(8-11) unfolding c k' h(10) Let_def by simp
  moreover have "0 \<le> ?l" "?l - hz k < hz k" using assms(8-11) by (auto simp: sgn_if)
  moreover have "hz k' = hz k" "adjdelta k' = adjdelta k - sgn (adjdelta k)" using k' hardclock_time_frame(4,5) [of k3] c unfolding h(10) by simp_all
  moreover have "(r - 1, e) \<in> set (schedule k')" if "(r, e) \<in> set (schedule k)" "1 < r \<or> \<not> basepri" for r e
    using that h(9) [rule_format, of "r - 1" e] unfolding h(1) k'(2) by force
  moreover have "ticks_fit 0 (calltodo k')" using h(12) [rule_format, of 0] assms(7) unfolding k'(2) by simp
  ultimately show ?thesis using h(2,4) k'(1,2) unfolding k'_def [symmetric] tick_ok_def by auto
qed

text \<open>A state for examples: nothing is pending, and process 3 is about to sleep.\<close>

definition clock_example :: kern where
  "clock_example = undefined\<lparr>u := undefined\<lparr>u_procp := 3\<rparr>, procs := (\<lambda>_. undefined\<lparr>p_wchan := 0, p_stat := SRUN, p_sig := 0\<rparr>), slpque := (\<lambda>_. []), qs := [],
     addr := (\<lambda>_. 1024), hz := 1000, lbolt := 999, time := \<lparr>tv_sec = 0x7fffffff, tv_usec = 0\<rparr>, adjdelta := 0, calltodo := [],
     callfree := [\<lparr>c_time = 0, c_arg = 0, c_func = 0\<rparr>]\<rparr>"

lemma clock_example_ok:
  "sched_inv clock_example" "sig_excl clock_example" "\<forall>s. addr clock_example s \<noteq> 0" "calltodo clock_example = []"
  "length (callfree clock_example) = 1" "hz clock_example = 1000" "lbolt clock_example = 999" "adjdelta clock_example = 0"
  "tv_sec (time clock_example) = 0x7fffffff"
  by (auto simp: sched_inv_def slp_ok_def run_ok_def sig_excl_def excl_def clock_example_def)

theorem hardclock_keeps_time_witness:
  "\<exists>k'. hardclock (clock_call (\<lambda>k. k) (\<lambda>_ _. Ok)) 2 0 True True clock_example = Ok k' \<and> lbolt k' = 0
     \<and> tv_sec (time k') = - 0x80000000"
proof -
  have l: "long 0x80000000 = - 0x80000000" by (simp add: long_def)
  from hardclock_keeps_time [OF kernel.event_returns clock_example_ok(1-3), of 2 0 True True] show ?thesis
    by (auto simp: clock_example_ok l)
qed

text \<open>
  C26. An event entered with \<open>timeout\<close> for \<open>t\<close> ticks (one when \<open>t\<close> is not positive) runs at the first clock interrupt from
  the \<open>t\<close>-th on that finds the processor at the base priority, at whatever priority the interrupts before it come: as long as no
  such interrupt has come, every interrupt completes and leaves the event pending, with the ticks that are left (0 or
  less when it is late), and one that comes then runs the events that are due, this one among them, in the order of the queue. The
  events in between keep to the contract of events; the turns \<open>softclock\<close> may take exceed the size of the table; and so many interrupts can be
  counted down from the entries of the queue, which are of type \<^verbatim>\<open>int\<close>: they stay in its range.
\<close>

theorem timeout_fires_on_time:
  assumes "event_ok call" and "sched_inv k" "sig_excl k" "\<forall>s. addr k s \<noteq> 0" and "callout_wf 0 (calltodo k)"
    and "length (calltodo k) + length (callfree k) < n" and "timeout fn arg t k = Ok k1"
    and "\<forall>i<length is. snd (snd (is ! i)) \<longrightarrow> int i + 1 < max 1 t"
    and "hz k < 2 ^ 31" "t < 2 ^ 31" "int (length is) < 2 ^ 31" "ticks_fit (int (length is) + 1) (calltodo k)"
  shows "\<exists>k2. run_calls (\<lambda>(pc, usermode, basepri). hardclock call n pc usermode basepri) is k1 = Ok k2
     \<and> (max 1 t - int (length is), fn, arg) \<in> set (schedule k2) \<and> ticks_fit 1 (calltodo k2)
     \<and> (max 1 t \<le> int (length is) + 1 \<longrightarrow>
          (\<exists>k3 k4. hardclock_tick usermode k2 = Ok (k3, True)
             \<and> (\<exists>c\<in>set (due_events k3). c_func c = fn \<and> c_arg c = arg)
             \<and> run_calls (run_event call) (due_events k3) k3 = Ok k4
             \<and> hardclock call n pc usermode True k2 = Ok (softclock_user pc usermode k4)))"
proof -
  note ce = clock_events.intro [OF assms(1)]
  have t: "tick_ok k" using assms(2-4) by (simp add: tick_ok_def)
  have "callfree k \<noteq> []" using assms(7) by (auto simp: timeout_def Let_def)
  with timeout_event [OF t assms(5) _ assms(10), of fn arg] assms(7) have kp: "event_keeps k k1" by auto
  have k1: "tick_ok k1" "length (calltodo k1) + length (callfree k1) < n" "hz k1 < 2 ^ 31" "ticks_fit (int (length is) + 1) (calltodo k1)"
    using kp assms(6,9,11,12) by (simp_all add: event_keeps_def)
  note s1 = timeout_schedule [OF assms(5,7)]
  have p1: "(max 1 t, fn, arg) \<in> set (schedule k1)" using s1(1) by simp
  obtain k2 where k2: "run_calls (\<lambda>(pc, usermode, basepri). hardclock call n pc usermode basepri) is k1 = Ok k2" "tick_ok k2"
     "callout_wf 0 (calltodo k2)" "length (calltodo k2) + length (callfree k2) < n" "(max 1 t - int (length is), fn, arg) \<in> set (schedule k2)"
     "hz k2 < 2 ^ 31" "ticks_fit 1 (calltodo k2)"
    using clock_events.hardclocks_pending [OF ce k1(1) s1(2) k1(2) p1 assms(8) k1(3) _ _ k1(4)] assms(11) by auto
  have n: "length (calltodo k2) < n" using k2(4) by simp
  obtain k3 soft k4 where h: "hardclock_tick usermode k2 = Ok (k3, soft)" "schedule k3 = map (\<lambda>(r, e). (r - 1, e)) (schedule k2)"
      "run_calls (run_event call) (due_events k3) k3 = Ok k4"
      "hardclock call n pc usermode True k2 = Ok (if soft then softclock_user pc usermode k4 else k4)"
    using clock_events.hardclock_runs [OF ce k2(2,3) n k2(6), of usermode True pc] by auto
  have "\<exists>c\<in>set (due_events k3). c_func c = fn \<and> c_arg c = arg" "soft" if late: "max 1 t \<le> int (length is) + 1"
  proof -
    let ?r = "max 1 t - int (length is) - 1"
    obtain k3' where e: "hardclock_tick usermode k2 = Ok (hardclock_time k3', snd (callout_tick (calltodo k2)) \<or> usermode \<and> pr_scale (u_prof (u k2)) \<noteq> 0)"
      "clock_same (k2\<lparr>calltodo := fst (callout_tick (calltodo k2))\<rparr>) k3'" using hardclock_tick_ok [OF k2(2), of usermode] by blast
    then have q: "calltodo k3 = fst (callout_tick (calltodo k2))" using h(1) hardclock_time_frame(2) [of k3'] by (simp add: clock_same_def)
    have m: "(?r, fn, arg) \<in> set (schedule k3)" unfolding h(2) using k2(5) by force
    have r: "?r \<le> 0" using late by simp
    note ct = callout_tick_sched [OF k2(3)]
    have "snd (callout_tick (calltodo k2))" using ct m r unfolding q by blast
    then show "soft" using h(1) e(1) by simp
    have wf: "callout_wf 0 (calltodo k3)" using ct unfolding q by blast
    have "(?r, fn, arg) \<in> set (takeWhile (\<lambda>(r, _). r \<le> 0) (schedule k3))" using sched_due_iff(1) [OF wf] m r by blast
    then have "(fn, arg) \<in> set (map (\<lambda>c. (c_func c, c_arg c)) (due_events k3))" unfolding due_events_def due_schedule by force
    then show "\<exists>c\<in>set (due_events k3). c_func c = fn \<and> c_arg c = arg" by auto
  qed
  then show ?thesis using k2(1,5,7) h(1,3,4) by auto
qed

theorem timeout_fires_on_time_witness:
  "\<exists>k1 k2 k3 k4. timeout FN_endtsleep 3 2 clock_example = Ok k1
     \<and> run_calls (\<lambda>(pc, usermode, basepri). hardclock (clock_call (\<lambda>k. k) (\<lambda>_ _. Ok)) 2 pc usermode basepri) [(0, True, True), (0, False, False)] k1 = Ok k2
     \<and> (0, FN_endtsleep, 3) \<in> set (schedule k2) \<and> hardclock_tick False k2 = Ok (k3, True)
     \<and> (\<exists>c\<in>set (due_events k3). c_func c = FN_endtsleep \<and> c_arg c = 3)
     \<and> hardclock (clock_call (\<lambda>k. k) (\<lambda>_ _. Ok)) 2 0 False True k2 = Ok (softclock_user 0 False k4)"
proof -
  obtain k1 where k1: "timeout FN_endtsleep 3 2 clock_example = Ok k1" by (simp add: timeout_def clock_example_def)
  have b: "\<forall>i<length [(0::nat, True, True), (0, False, False)]. snd (snd ([(0::nat, True, True), (0, False, False)] ! i)) \<longrightarrow> int i + 1 < max 1 2"
    by (auto simp: less_Suc_eq numeral_2_eq_2)
  have "length (calltodo clock_example) + length (callfree clock_example) < 2" "callout_wf 0 (calltodo clock_example)" by (simp_all add: clock_example_ok)
  from timeout_fires_on_time [OF kernel.event_returns clock_example_ok(1-3) this(2,1) k1 b, of False 0] k1 show ?thesis
    by (auto simp: clock_example_ok)
qed

end
