(* ===== verification/Descrip.thy ===== *)
theory Descrip
  imports Sleep
begin

text \<open>
  File descriptors: \<^verbatim>\<open>sys/kern/kern_descrip.c\<close>, the advisory locks \<open>ino_lock\<close> and \<open>ino_unlock\<close> and the status of an inode from
  \<^verbatim>\<open>sys/kern/sys_inode.c\<close>. A pointer to a \<^verbatim>\<open>struct file\<close> is its index in the table; an inode pointer is a
  number, 0 for the null pointer. The operations of a file type are called through the table \<open>Fops\<close>, which is an
  argument.
\<close>

section \<open>Constants\<close>

abbreviation (input) NFILE :: nat where "NFILE \<equiv> 24"

abbreviation (input) FREAD :: "32 word" where "FREAD \<equiv> 0x1"
abbreviation (input) FWRITE :: "32 word" where "FWRITE \<equiv> 0x2"
abbreviation (input) FNONBLOCK :: "32 word" where "FNONBLOCK \<equiv> 0x4"
abbreviation (input) FAPPEND :: "32 word" where "FAPPEND \<equiv> 0x8"
abbreviation (input) FSHLOCK :: "32 word" where "FSHLOCK \<equiv> 0x10"
abbreviation (input) FEXLOCK :: "32 word" where "FEXLOCK \<equiv> 0x20"
abbreviation (input) FASYNC :: "32 word" where "FASYNC \<equiv> 0x40"
abbreviation (input) FFSYNC :: "32 word" where "FFSYNC \<equiv> 0x80"
abbreviation (input) FMASK :: "32 word" where "FMASK \<equiv> 0xcf"
abbreviation (input) FCNTLFLAGS :: "32 word" where "FCNTLFLAGS \<equiv> 0xcc"
abbreviation (input) UF_EXCLOSE :: "8 word" where "UF_EXCLOSE \<equiv> 1"

abbreviation (input) DTYPE_INODE :: int where "DTYPE_INODE \<equiv> 1"
abbreviation (input) DTYPE_PIPE :: int where "DTYPE_PIPE \<equiv> 3"

abbreviation (input) LOCK_SH :: "32 word" where "LOCK_SH \<equiv> 1"
abbreviation (input) LOCK_EX :: "32 word" where "LOCK_EX \<equiv> 2"
abbreviation (input) LOCK_NB :: "32 word" where "LOCK_NB \<equiv> 4"
abbreviation (input) LOCK_UN :: "32 word" where "LOCK_UN \<equiv> 8"

abbreviation (input) IUPD :: "32 word" where "IUPD \<equiv> 0x2"
abbreviation (input) IACC :: "32 word" where "IACC \<equiv> 0x4"
abbreviation (input) ICHG :: "32 word" where "ICHG \<equiv> 0x40"
abbreviation (input) ISHLOCK :: "32 word" where "ISHLOCK \<equiv> 0x80"
abbreviation (input) IEXLOCK :: "32 word" where "IEXLOCK \<equiv> 0x100"
abbreviation (input) ILWAIT :: "32 word" where "ILWAIT \<equiv> 0x200"
abbreviation (input) IMOD :: "32 word" where "IMOD \<equiv> 0x400"

abbreviation (input) FIONBIO :: "32 word" where "FIONBIO \<equiv> 0x80046660"
abbreviation (input) FIOASYNC :: "32 word" where "FIOASYNC \<equiv> 0x8004665f"
abbreviation (input) TIOCGPGRP :: "32 word" where "TIOCGPGRP \<equiv> 0x40047477"
abbreviation (input) TIOCSPGRP :: "32 word" where "TIOCSPGRP \<equiv> 0x80047476"

definition upd_file :: "nat \<Rightarrow> (filent \<Rightarrow> filent) \<Rightarrow> kern \<Rightarrow> kern" where
  "upd_file f g k = k\<lparr>files := (files k)(f := g (files k f))\<rparr>"

definition upd_inode :: "nat \<Rightarrow> (inode \<Rightarrow> inode) \<Rightarrow> kern \<Rightarrow> kern" where
  "upd_inode i g k = k\<lparr>inodes := (inodes k)(i := g (inodes k i))\<rparr>"

text \<open>
  The operations of a file type that this component calls; an integer passed to \<open>fo_ioctl\<close> by reference is an argument and
  the last component of the result.
\<close>

record fileops =
  fo_ioctl :: "nat \<Rightarrow> 32 word \<Rightarrow> int \<Rightarrow> kern \<Rightarrow> (kern \<times> int \<times> int) cres"
  fo_close :: "nat \<Rightarrow> kern \<Rightarrow> (kern \<times> int) cres"

section \<open>Advisory locks\<close>

definition ino_unlock_sh :: "nat \<Rightarrow> nat \<Rightarrow> 32 word \<Rightarrow> kern \<Rightarrow> kern cres" where
  "ino_unlock_sh fp ip flags k =
     (let k = upd_inode ip (\<lambda>i. i\<lparr>i_shlockc := i_shlockc i - 1\<rparr>) k
      in bind_cres
           (if i_shlockc (inodes k ip) = 0 then
              (let k = upd_inode ip (\<lambda>i. i\<lparr>i_flag := i_flag i AND NOT ISHLOCK\<rparr>) k
               in if flags AND ILWAIT \<noteq> 0 then wakeup (addr k (Sym_shlockc ip)) k else Ok k)
            else Ok k)
           (\<lambda>k. Ok (upd_file fp (\<lambda>f. f\<lparr>f_flag := f_flag f AND NOT FSHLOCK\<rparr>) k)))"

definition ino_unlock_ex :: "nat \<Rightarrow> nat \<Rightarrow> 32 word \<Rightarrow> kern \<Rightarrow> kern cres" where
  "ino_unlock_ex fp ip flags k =
     (let k = upd_inode ip (\<lambda>i. i\<lparr>i_exlockc := i_exlockc i - 1\<rparr>) k
      in bind_cres
           (if i_exlockc (inodes k ip) = 0 then
              (let k = upd_inode ip (\<lambda>i. i\<lparr>i_flag := i_flag i AND NOT (IEXLOCK OR ILWAIT)\<rparr>) k
               in if flags AND ILWAIT \<noteq> 0 then wakeup (addr k (Sym_shlockc ip)) k else Ok k)
            else Ok k)
           (\<lambda>k. Ok (upd_file fp (\<lambda>f. f\<lparr>f_flag := f_flag f AND NOT FEXLOCK\<rparr>) k)))"

definition ino_unlock :: "nat \<Rightarrow> 32 word \<Rightarrow> kern \<Rightarrow> kern cres" where
  "ino_unlock fp kind0 k =
     (let ip = f_data (files k fp); kind = kind0 AND f_flag (files k fp); flags = i_flag (inodes k ip)
      in if ip = 0 \<or> kind = 0 then Ok k
         else bind_cres (if kind AND FSHLOCK \<noteq> 0 then ino_unlock_sh fp ip flags k else Ok k)
                (\<lambda>k. if kind AND FEXLOCK \<noteq> 0 then ino_unlock_ex fp ip flags k else Ok k))"

text \<open>Both waiting loops of \<open>ino_lock\<close>; \<open>n\<close> bounds the turns. The result 0 means that the lock can be granted.\<close>

fun ino_lock_wait ::
  "(nat \<Rightarrow> kern \<Rightarrow> kern) \<Rightarrow> (kern \<Rightarrow> kern \<times> bool) \<Rightarrow> nat \<Rightarrow> nat \<Rightarrow> nat \<Rightarrow> 32 word \<Rightarrow> kern \<Rightarrow> (kern \<times> int) cres" where
  "ino_lock_wait env procxmt 0 fp ip cmd k = Stuck"
| "ino_lock_wait env procxmt (Suc n) fp ip cmd k =
     (let wait = (\<lambda>priority k. bind_cres
            (tsleep env procxmt n (addr k (Sym_shlockc ip)) (priority OR PCATCH) 0
              (upd_inode ip (\<lambda>i. i\<lparr>i_flag := i_flag i OR ILWAIT\<rparr>) k))
            (\<lambda>(k, e). if e \<noteq> 0 then Ok (k, e) else ino_lock_wait env procxmt n fp ip cmd k))
      in if i_flag (inodes k ip) AND IEXLOCK \<noteq> 0 then
           (if f_flag (files k fp) AND FEXLOCK \<noteq> 0
            then bind_cres (ino_unlock fp FEXLOCK k) (ino_lock_wait env procxmt n fp ip cmd)
            else if cmd AND LOCK_NB \<noteq> 0 then Ok (k, EWOULDBLOCK)
            else wait (if cmd AND LOCK_EX = 0 then 39 else 35) k)
         else if cmd AND LOCK_EX \<noteq> 0 \<and> i_flag (inodes k ip) AND ISHLOCK \<noteq> 0 then
           (if f_flag (files k fp) AND FSHLOCK \<noteq> 0
            then bind_cres (ino_unlock fp FSHLOCK k) (ino_lock_wait env procxmt n fp ip cmd)
            else if cmd AND LOCK_NB \<noteq> 0 then Ok (k, EWOULDBLOCK)
            else wait 35 k)
         else Ok (k, 0))"

definition ino_lock_grant :: "nat \<Rightarrow> nat \<Rightarrow> 32 word \<Rightarrow> kern \<Rightarrow> kern" where
  "ino_lock_grant fp ip cmd k =
     (if cmd AND LOCK_EX \<noteq> 0 then
        upd_file fp (\<lambda>f. f\<lparr>f_flag := f_flag f OR FEXLOCK\<rparr>)
          (upd_inode ip (\<lambda>i. i\<lparr>i_exlockc := i_exlockc i + 1, i_flag := i_flag i OR IEXLOCK\<rparr>) k)
      else if cmd AND LOCK_SH \<noteq> 0 \<and> f_flag (files k fp) AND FSHLOCK = 0 then
        upd_file fp (\<lambda>f. f\<lparr>f_flag := f_flag f OR FSHLOCK\<rparr>)
          (upd_inode ip (\<lambda>i. i\<lparr>i_shlockc := i_shlockc i + 1, i_flag := i_flag i OR ISHLOCK\<rparr>) k)
      else k)"

definition ino_lock ::
  "(nat \<Rightarrow> kern \<Rightarrow> kern) \<Rightarrow> (kern \<Rightarrow> kern \<times> bool) \<Rightarrow> nat \<Rightarrow> nat \<Rightarrow> 32 word \<Rightarrow> kern \<Rightarrow> (kern \<times> int) cres" where
  "ino_lock env procxmt n fp cmd k =
     (let ip = f_data (files k fp)
      in if ip = 0 then Stuck
         else bind_cres (ino_lock_wait env procxmt n fp ip cmd k) (\<lambda>(k, e).
           if e \<noteq> 0 then Ok (k, e) else Ok (ino_lock_grant fp ip cmd k, 0)))"

section \<open>Descriptors\<close>

definition ufalloc :: "nat \<Rightarrow> kern \<Rightarrow> kern \<times> nat option" where
  "ufalloc i k =
     (case List.find (\<lambda>i. u_ofile (u k) i = None) [i..<NOFILE] of
        Some i \<Rightarrow> (k\<lparr>u := (u k)\<lparr>u_rval := int i, u_pofile := (u_pofile (u k))(i := 0),
                                 u_lastfile := max (u_lastfile (u k)) (int i)\<rparr>\<rparr>, Some i)
      | None \<Rightarrow> (set_error EMFILE k, None))"

definition getdtablesize :: "kern \<Rightarrow> kern" where
  "getdtablesize k = set_rval (int NOFILE) k"

definition dupit :: "nat \<Rightarrow> nat \<Rightarrow> 8 word \<Rightarrow> kern \<Rightarrow> kern" where
  "dupit fd fp flags k =
     upd_file fp (\<lambda>f. f\<lparr>f_count := f_count f + 1\<rparr>)
       (k\<lparr>u := (u k)\<lparr>u_ofile := (u_ofile (u k))(fd := Some fp), u_pofile := (u_pofile (u k))(fd := flags),
                      u_lastfile := max (u_lastfile (u k)) (int fd)\<rparr>\<rparr>)"

text \<open>\<open>getf\<close> and the macro \<open>GETF\<close>.\<close>

definition getf :: "int \<Rightarrow> kern \<Rightarrow> kern \<times> nat option" where
  "getf f k =
     (if f < 0 \<or> f \<ge> int NOFILE then (set_error EBADF k, None)
      else case u_ofile (u k) (nat f) of None \<Rightarrow> (set_error EBADF k, None) | Some fp \<Rightarrow> (k, Some fp))"

definition closef :: "(int \<Rightarrow> fileops) \<Rightarrow> nat \<Rightarrow> kern \<Rightarrow> (kern \<times> int) cres" where
  "closef Fops fp k =
     (if f_count (files k fp) > 1 then Ok (upd_file fp (\<lambda>f. f\<lparr>f_count := f_count f - 1\<rparr>) k, 0)
      else bind_cres
        (if f_flag (files k fp) AND (FSHLOCK OR FEXLOCK) \<noteq> 0 \<and> f_type (files k fp) = DTYPE_INODE
         then ino_unlock fp (FSHLOCK OR FEXLOCK) k else Ok k)
        (\<lambda>k. bind_cres (fo_close (Fops (f_type (files k fp))) fp k)
          (\<lambda>(k, error). Ok (upd_file fp (\<lambda>f. f\<lparr>f_count := 0\<rparr>) k, error))))"

definition dup2 :: "(int \<Rightarrow> fileops) \<Rightarrow> int \<Rightarrow> int \<Rightarrow> kern \<Rightarrow> kern cres" where
  "dup2 Fops i j k =
     (case getf i k of
        (k, None) \<Rightarrow> Ok k
      | (k, Some fp) \<Rightarrow>
          if j < 0 \<or> j \<ge> int NOFILE then Ok (set_error EBADF k)
          else
            let k = set_rval j k
            in if i = j then Ok k
               else bind_cres
                 (case u_ofile (u k) (nat j) of
                    Some fp' \<Rightarrow> bind_cres (closef Fops fp' k) (\<lambda>(k, e). Ok k) | None \<Rightarrow> Ok k)
                 (\<lambda>k. Ok (dupit (nat j) fp (u_pofile (u k) (nat i) AND NOT UF_EXCLOSE) k)))"

definition dup :: "(int \<Rightarrow> fileops) \<Rightarrow> int \<Rightarrow> int \<Rightarrow> kern \<Rightarrow> kern cres" where
  "dup Fops i j k =
     (if i AND NOT 63 \<noteq> 0 then dup2 Fops (i AND 63) j k
      else case getf i k of
        (k, None) \<Rightarrow> Ok k
      | (k, Some fp) \<Rightarrow>
          (case ufalloc 0 k of
             (k, None) \<Rightarrow> Ok k
           | (k, Some j) \<Rightarrow> Ok (dupit j fp (u_pofile (u k) (nat i) AND NOT UF_EXCLOSE) k)))"

section \<open>fcntl\<close>

definition FFLAGS :: "32 word \<Rightarrow> 32 word" where "FFLAGS oflags = oflags + 1"
definition OFLAGS :: "32 word \<Rightarrow> 32 word" where "OFLAGS fflags = fflags - 1"

definition fioctl :: "(int \<Rightarrow> fileops) \<Rightarrow> nat \<Rightarrow> 32 word \<Rightarrow> int \<Rightarrow> kern \<Rightarrow> (kern \<times> int \<times> int) cres" where
  "fioctl Fops fp cmd val k = fo_ioctl (Fops (f_type (files k fp))) fp cmd val k"

definition fset :: "(int \<Rightarrow> fileops) \<Rightarrow> nat \<Rightarrow> 32 word \<Rightarrow> 32 word \<Rightarrow> kern \<Rightarrow> (kern \<times> int) cres" where
  "fset Fops fp b val k =
     bind_cres
       (fioctl Fops fp (if b = FNONBLOCK then FIONBIO else FIOASYNC) (sint val)
         (upd_file fp (\<lambda>f. f\<lparr>f_flag := (if val \<noteq> 0 then f_flag f OR b else f_flag f AND NOT b)\<rparr>) k))
       (\<lambda>(k, e, v). Ok (k, e))"

text \<open>Result: the error and the value stored.\<close>

definition fgetown :: "(int \<Rightarrow> fileops) \<Rightarrow> nat \<Rightarrow> int \<Rightarrow> kern \<Rightarrow> (kern \<times> int \<times> int) cres" where
  "fgetown Fops fp v k = bind_cres (fioctl Fops fp TIOCGPGRP v k) (\<lambda>(k, e, v). Ok (k, e, - v))"

definition fsetown :: "(int \<Rightarrow> fileops) \<Rightarrow> nat \<Rightarrow> int \<Rightarrow> kern \<Rightarrow> (kern \<times> int) cres" where
  "fsetown Fops fp val k =
     (if val > 0 then
        (case pfind val k of
           None \<Rightarrow> Ok (k, ESRCH)
         | Some p \<Rightarrow> bind_cres (fioctl Fops fp TIOCSPGRP (sint (p_pgrp (procs k p))) k) (\<lambda>(k, e, v). Ok (k, e)))
      else bind_cres (fioctl Fops fp TIOCSPGRP (- val) k) (\<lambda>(k, e, v). Ok (k, e)))"

definition fcntl_setfl :: "(int \<Rightarrow> fileops) \<Rightarrow> nat \<Rightarrow> 32 word \<Rightarrow> kern \<Rightarrow> kern cres" where
  "fcntl_setfl Fops fp arg k =
     (let k = upd_file fp (\<lambda>f. f\<lparr>f_flag := (f_flag f AND NOT FCNTLFLAGS) OR (FFLAGS arg AND FCNTLFLAGS)\<rparr>) k
      in bind_cres (fset Fops fp FNONBLOCK (f_flag (files k fp) AND FNONBLOCK) k) (\<lambda>(k, e).
           if e \<noteq> 0 then Ok (set_error e k)
           else bind_cres (fset Fops fp FASYNC (f_flag (files k fp) AND FASYNC) (set_error 0 k)) (\<lambda>(k, e).
             if e \<noteq> 0 then bind_cres (fset Fops fp FNONBLOCK 0 (set_error e k)) (\<lambda>(k, e'). Ok k)
             else Ok (set_error 0 k))))"

definition fcntl :: "(int \<Rightarrow> fileops) \<Rightarrow> int \<Rightarrow> int \<Rightarrow> int \<Rightarrow> kern \<Rightarrow> kern cres" where
  "fcntl Fops fdes cmd arg k =
     (case getf fdes k of
        (k, None) \<Rightarrow> Ok k
      | (k, Some fp) \<Rightarrow>
          let pop = u_pofile (u k) (nat fdes)
          in if cmd = 0 then
               (if arg < 0 \<or> arg \<ge> int NOFILE then Ok (set_error EINVAL k)
                else case ufalloc (nat arg) k of
                  (k, None) \<Rightarrow> Ok k
                | (k, Some i) \<Rightarrow> Ok (dupit i fp (u_pofile (u k) (nat fdes) AND NOT UF_EXCLOSE) k))
             else if cmd = 1 then Ok (set_rval (uint (pop AND 1)) k)
             else if cmd = 2 then
               Ok (k\<lparr>u := (u k)\<lparr>u_pofile := (u_pofile (u k))(nat fdes := (pop AND NOT 1) OR (word_of_int arg AND 1))\<rparr>\<rparr>)
             else if cmd = 3 then Ok (set_rval (sint (OFLAGS (f_flag (files k fp)))) k)
             else if cmd = 4 then fcntl_setfl Fops fp (word_of_int arg) k
             else if cmd = 5 then
               bind_cres (fgetown Fops fp (u_rval (u k)) k) (\<lambda>(k, e, v). Ok (set_error e (set_rval v k)))
             else if cmd = 6 then bind_cres (fsetown Fops fp arg k) (\<lambda>(k, e). Ok (set_error e k))
             else Ok (set_error EINVAL k))"

section \<open>close, fstat, falloc, flock\<close>

text \<open>\<open>close_last ofile n\<close>: the last open descriptor below \<open>n\<close>, or -1.\<close>

fun close_last :: "(nat \<Rightarrow> nat option) \<Rightarrow> nat \<Rightarrow> int" where
  "close_last ofile 0 = - 1"
| "close_last ofile (Suc n) = (if ofile n = None then close_last ofile n else int n)"

definition close :: "(int \<Rightarrow> fileops) \<Rightarrow> int \<Rightarrow> kern \<Rightarrow> kern cres" where
  "close Fops i k =
     (case getf i k of
        (k, None) \<Rightarrow> Ok k
      | (k, Some fp) \<Rightarrow>
          let ofile = (u_ofile (u k))(nat i := None);
              k = k\<lparr>u := (u k)\<lparr>u_ofile := ofile, u_lastfile := close_last ofile (nat (u_lastfile (u k) + 1))\<rparr>\<rparr>
          in bind_cres (closef Fops fp k) (\<lambda>(k, error). Ok (set_error error k)))"

text \<open>The status of an inode; pending time stamps are brought up to date first.\<close>

definition itimes :: "nat \<Rightarrow> kern \<Rightarrow> kern" where
  "itimes ip k =
     (let fl = i_flag (inodes k ip); t = tv_sec (time k)
      in if fl AND (IUPD OR IACC OR ICHG) \<noteq> 0 then
           upd_inode ip (\<lambda>i. i\<lparr>i_atime := (if fl AND IACC \<noteq> 0 then t else i_atime i),
                              i_mtime := (if fl AND IUPD \<noteq> 0 then t else i_mtime i),
                              i_ctime := (if fl AND ICHG \<noteq> 0 then t else i_ctime i),
                              i_flag := (fl OR IMOD) AND NOT (IUPD OR IACC OR ICHG)\<rparr>) k
         else k)"

record stat =
  st_dev :: int
  st_ino :: nat
  st_mode :: "32 word"
  st_nlink :: nat
  st_uid :: "32 word"
  st_gid :: "32 word"
  st_rdev :: int
  st_size :: int
  st_atime :: int
  st_mtime :: int
  st_ctime :: int
  st_blksize :: int
  st_blocks :: int
  st_flags :: "32 word"

definition ino_stat :: "nat \<Rightarrow> kern \<Rightarrow> kern \<times> stat" where
  "ino_stat ip k =
     (let k = itimes ip k; i = inodes k ip
      in (k, \<lparr>st_dev = i_dev i, st_ino = i_number i, st_mode = i_mode i, st_nlink = i_nlink i, st_uid = i_uid i,
              st_gid = i_gid i, st_rdev = i_addr i ! 1, st_size = i_size i, st_atime = i_atime i, st_mtime = i_mtime i,
              st_ctime = i_ctime i, st_blksize = 1024, st_blocks = (i_size i + 1023) div 1024, st_flags = i_flags i\<rparr>))"

definition stat_words :: "stat \<Rightarrow> 32 word list" where
  "stat_words s = [word_of_int (st_dev s), of_nat (st_ino s), st_mode s, of_nat (st_nlink s), st_uid s, st_gid s,
     word_of_int (st_rdev s), word_of_int (st_size s), word_of_int (st_atime s), word_of_int (st_mtime s),
     word_of_int (st_ctime s), word_of_int (st_blksize s), word_of_int (st_blocks s), st_flags s]"

definition fstat :: "int \<Rightarrow> nat \<Rightarrow> kern \<Rightarrow> kern" where
  "fstat fdes sb k =
     (case getf fdes k of
        (k, None) \<Rightarrow> k
      | (k, Some fp) \<Rightarrow>
          let fl = files k fp
          in if f_type fl = DTYPE_PIPE \<or> f_type fl = DTYPE_INODE then
               (let (k, ub) = ino_stat (f_data fl) k;
                    ub = (if f_type fl = DTYPE_PIPE then ub\<lparr>st_size := st_size ub - f_offset fl\<rparr> else ub);
                    (k, e) = copyout (stat_words ub) sb k
                in set_error e k)
             else set_error EINVAL k)"

definition falloc :: "kern \<Rightarrow> kern \<times> nat option" where
  "falloc k =
     (case ufalloc 0 k of
        (k, None) \<Rightarrow> (k, None)
      | (k, Some i) \<Rightarrow>
          (case List.find (\<lambda>fp. f_count (files k fp) = 0) ([lastf k..<NFILE] @ [0..<lastf k]) of
             None \<Rightarrow> (set_error ENFILE k, None)
           | Some fp \<Rightarrow>
               (upd_file fp (\<lambda>f. f\<lparr>f_count := 1, f_data := 0, f_offset := 0\<rparr>)
                  (k\<lparr>u := (u k)\<lparr>u_ofile := (u_ofile (u k))(i := Some fp)\<rparr>, lastf := fp + 1\<rparr>), Some fp)))"

definition flock ::
  "(nat \<Rightarrow> kern \<Rightarrow> kern) \<Rightarrow> (kern \<Rightarrow> kern \<times> bool) \<Rightarrow> nat \<Rightarrow> int \<Rightarrow> 32 word \<Rightarrow> kern \<Rightarrow> kern cres" where
  "flock env procxmt n fd how k =
     (case getf fd k of
        (k, None) \<Rightarrow> Ok k
      | (k, Some fp) \<Rightarrow>
          if f_type (files k fp) \<noteq> DTYPE_INODE then Ok (set_error EOPNOTSUPP k)
          else if how AND LOCK_UN \<noteq> 0 then ino_unlock fp (FSHLOCK OR FEXLOCK) k
          else if how AND (LOCK_SH OR LOCK_EX) = 0 then Ok k
          else
            let how = (if how AND LOCK_EX \<noteq> 0 then how AND NOT LOCK_SH else how); fl = f_flag (files k fp)
            in if fl AND FEXLOCK \<noteq> 0 \<and> how AND LOCK_EX \<noteq> 0 then Ok k
               else if fl AND FSHLOCK \<noteq> 0 \<and> how AND LOCK_SH \<noteq> 0 then Ok k
               else bind_cres (ino_lock env procxmt n fp how k) (\<lambda>(k, e). Ok (set_error e k)))"

section \<open>The /dev/fd driver and open\<close>

definition fdopen :: "int \<Rightarrow> kern \<Rightarrow> kern \<times> int" where
  "fdopen dev k = (k\<lparr>u := (u k)\<lparr>u_dupfd := dev AND 255\<rparr>\<rparr>, ENODEV)"

definition dupfdopen :: "nat \<Rightarrow> nat \<Rightarrow> 32 word \<Rightarrow> int \<Rightarrow> kern \<Rightarrow> kern \<times> int" where
  "dupfdopen indx dfd mode error k =
     (let fp = u_ofile (u k) indx
      in if dfd \<ge> NOFILE \<or> u_ofile (u k) dfd = None \<or> fp = u_ofile (u k) dfd then (k, EBADF)
         else if error = ENODEV then
           (let wfp = the (u_ofile (u k) dfd)
            in if (mode AND (FREAD OR FWRITE)) OR f_flag (files k wfp) \<noteq> f_flag (files k wfp) then (k, EACCES)
               else (upd_file wfp (\<lambda>f. f\<lparr>f_count := f_count f + 1\<rparr>)
                       (k\<lparr>u := (u k)\<lparr>u_ofile := (u_ofile (u k))(indx := Some wfp),
                                      u_pofile := (u_pofile (u k))(indx := u_pofile (u k) dfd),
                                      u_lastfile := max (u_lastfile (u k)) (int indx)\<rparr>\<rparr>), 0))
         else (k, error))"

text \<open>
  \<open>vn_open flags cmode fname\<close> finds or makes the inode and calls the driver; its result is an error or 0, and the inode.
\<close>

definition copen ::
  "(int \<Rightarrow> fileops) \<Rightarrow> (32 word \<Rightarrow> 32 word \<Rightarrow> nat \<Rightarrow> kern \<Rightarrow> (kern \<times> int \<times> nat) cres) \<Rightarrow> (nat \<Rightarrow> kern \<Rightarrow> kern)
     \<Rightarrow> (kern \<Rightarrow> kern \<times> bool) \<Rightarrow> nat \<Rightarrow> 32 word \<Rightarrow> 32 word \<Rightarrow> nat \<Rightarrow> kern \<Rightarrow> (kern \<times> int) cres" where
  "copen Fops vn_open env procxmt n mode cmode fname k =
     (case falloc k of
        (k, None) \<Rightarrow> Ok (k, u_error (u k))
      | (k, Some fp) \<Rightarrow>
          let flags = FFLAGS mode;
              k = upd_file fp (\<lambda>f. f\<lparr>f_flag := flags AND FMASK, f_type := DTYPE_INODE\<rparr>) k;
              indx = nat (u_rval (u k));
              k = k\<lparr>u := (u k)\<lparr>u_dupfd := - int indx - 1\<rparr>\<rparr>
          in bind_cres (vn_open flags (cmode AND 0x7dff) fname k) (\<lambda>(k, error, ip).
               if error \<noteq> 0 then
                 (let k = upd_file fp (\<lambda>f. f\<lparr>f_count := 0\<rparr>) k;
                      (k, error) =
                        (if (error = ENODEV \<or> error = ENXIO) \<and> u_dupfd (u k) \<ge> 0
                         then case dupfdopen indx (nat (u_dupfd (u k))) flags error k of (k, e) \<Rightarrow> (k, if e = 0 then (1, True) else (0, False))
                         else (k, (error, False)))
                  in if snd error then Ok (set_rval (int indx) k, 0)
                     else Ok (k\<lparr>u := (u k)\<lparr>u_ofile := (u_ofile (u k))(indx := None)\<rparr>\<rparr>, fst error))
               else
                 let k = upd_file fp (\<lambda>f. f\<lparr>f_data := ip\<rparr>) (k\<lparr>u := (u k)\<lparr>u_dupfd := 0\<rparr>\<rparr>)
                 in if flags AND (FEXLOCK OR FSHLOCK) \<noteq> 0 then
                      (let type = (if flags AND FEXLOCK \<noteq> 0 then LOCK_EX else LOCK_SH)
                                    OR (if flags AND FNONBLOCK \<noteq> 0 then LOCK_NB else 0)
                       in bind_cres (ino_lock env procxmt n fp type k) (\<lambda>(k, error).
                            if error \<noteq> 0 then
                              bind_cres (closef Fops fp k) (\<lambda>(k, e).
                                Ok (k\<lparr>u := (u k)\<lparr>u_ofile := (u_ofile (u k))(indx := None)\<rparr>\<rparr>, error))
                            else Ok (k, error)))
                    else Ok (k, error)))"

definition open_call ::
  "(int \<Rightarrow> fileops) \<Rightarrow> (32 word \<Rightarrow> 32 word \<Rightarrow> nat \<Rightarrow> kern \<Rightarrow> (kern \<times> int \<times> nat) cres) \<Rightarrow> (nat \<Rightarrow> kern \<Rightarrow> kern)
     \<Rightarrow> (kern \<Rightarrow> kern \<times> bool) \<Rightarrow> nat \<Rightarrow> nat \<Rightarrow> 32 word \<Rightarrow> 32 word \<Rightarrow> kern \<Rightarrow> kern cres" where
  "open_call Fops vn_open env procxmt n fname mode crtmode k =
     bind_cres (copen Fops vn_open env procxmt n mode crtmode fname k) (\<lambda>(k, e). Ok (set_error e k))"

end
