(* ===== verification/Descrip_Inv.thy ===== *)
theory Descrip_Inv
  imports Descrip
begin

text \<open>
  Reference counts and the descriptor table: every descriptor of the process refers to an entry of the file table, the reference
  count of an entry is the number of descriptors on it, those of this process and those of others, and
  \<open>u_lastfile\<close> bounds the open descriptors. All calls on descriptors keep this.
\<close>

section \<open>Frames\<close>

lemma upd_file_simps [simp]:
  "u (upd_file f g k) = u k" "procs (upd_file f g k) = procs k" "inodes (upd_file f g k) = inodes k" "lastf (upd_file f g k) = lastf k"
  "addr (upd_file f g k) = addr k" "files (upd_file f g k) h = (if h = f then g (files k f) else files k h)"
  "slpque (upd_file f g k) = slpque k" "qs (upd_file f g k) = qs k" "diagnostic (upd_file f g k) = diagnostic k"
  by (auto simp: upd_file_def)

lemma upd_inode_simps [simp]:
  "u (upd_inode i g k) = u k" "procs (upd_inode i g k) = procs k" "files (upd_inode i g k) = files k" "lastf (upd_inode i g k) = lastf k"
  "addr (upd_inode i g k) = addr k" "inodes (upd_inode i g k) j = (if j = i then g (inodes k i) else inodes k j)"
  "slpque (upd_inode i g k) = slpque k" "qs (upd_inode i g k) = qs k" "diagnostic (upd_inode i g k) = diagnostic k"
  by (auto simp: upd_inode_def)

lemma sched_inv_file [simp]: "sched_inv (upd_file f g k) = sched_inv k"
  by (rule sched_same_inv) (simp add: sched_same_def)

lemma sched_inv_inode [simp]: "sched_inv (upd_inode i g k) = sched_inv k"
  by (rule sched_same_inv) (simp add: sched_same_def)

lemma sched_inv_lastf [simp]: "sched_inv (k\<lparr>lastf := x\<rparr>) = sched_inv k"
  by (rule sched_same_inv) (simp add: sched_same_def)

text \<open>Nothing about descriptors has changed except reference counts.\<close>

definition fd_same :: "kern \<Rightarrow> kern \<Rightarrow> bool" where
  "fd_same k k' \<longleftrightarrow> u_ofile (u k') = u_ofile (u k) \<and> u_lastfile (u k') = u_lastfile (u k) \<and> lastf k' = lastf k \<and> addr k' = addr k"

definition counts_same :: "kern \<Rightarrow> kern \<Rightarrow> bool" where
  "counts_same k k' \<longleftrightarrow> (\<forall>f. f_count (files k' f) = f_count (files k f))"

definition wake_ok :: "kern \<Rightarrow> bool" where
  "wake_ok k \<longleftrightarrow> sched_inv k \<and> addr k Sym_runout \<noteq> 0 \<and> (\<forall>i. addr k (Sym_shlockc i) \<noteq> 0)"

text \<open>What is expected of the routines of a file type: they return and leave the descriptor tables alone.\<close>

definition fops_ok :: "(int \<Rightarrow> fileops) \<Rightarrow> bool" where
  "fops_ok Fops \<longleftrightarrow>
     (\<forall>ty fp k. wake_ok k \<longrightarrow> (\<exists>k' e. fo_close (Fops ty) fp k = Ok (k', e) \<and> wake_ok k' \<and> fd_same k k' \<and> counts_same k k'))
   \<and> (\<forall>ty fp c v k. wake_ok k \<longrightarrow> (\<exists>k' e v'. fo_ioctl (Fops ty) fp c v k = Ok (k', e, v') \<and> wake_ok k' \<and> fd_same k k' \<and> counts_same k k'))"

definition quiet :: "kern \<Rightarrow> kern \<Rightarrow> bool" where
  "quiet k k' \<longleftrightarrow> wake_ok k' \<and> fd_same k k' \<and> counts_same k k'"

lemma quiet_refl: "wake_ok k \<Longrightarrow> quiet k k"
  by (simp add: quiet_def fd_same_def counts_same_def)

lemma quiet_trans: "quiet k k' \<Longrightarrow> quiet k' k'' \<Longrightarrow> quiet k k''"
  by (simp add: quiet_def fd_same_def counts_same_def)

lemma wake_ok_upd [simp]:
  "wake_ok (upd_file f g k) = wake_ok k" "wake_ok (upd_inode i h k) = wake_ok k" "wake_ok (k\<lparr>u := v\<rparr>) = wake_ok k"
  "wake_ok (k\<lparr>lastf := x\<rparr>) = wake_ok k"
  by (simp_all add: wake_ok_def)

lemma quiet_file [simp]: "(\<And>f. f_count (g f) = f_count f) \<Longrightarrow> quiet k (upd_file fp g k') = quiet k k'"
  by (auto simp: quiet_def fd_same_def counts_same_def)

lemma quiet_inode [simp]: "quiet k (upd_inode ip g k') = quiet k k'"
  by (simp add: quiet_def fd_same_def counts_same_def)

lemma quiet_u [simp]: "u_ofile v = u_ofile (u k') \<Longrightarrow> u_lastfile v = u_lastfile (u k') \<Longrightarrow> quiet k (k'\<lparr>u := v\<rparr>) = quiet k k'"
  by (simp add: quiet_def fd_same_def counts_same_def)

lemma quiet_wake: "quiet k k' \<Longrightarrow> wake_ok k'"
  by (simp add: quiet_def)

lemma lastf_core: "kcore k' = kcore k \<Longrightarrow> lastf k' = lastf k"
  by (drule arg_cong [of _ _ lastf]) (simp add: kcore_def)

lemma quiet_core: "wake_ok k \<Longrightarrow> sched_inv k' \<Longrightarrow> kcore k' = kcore k \<Longrightarrow> quiet k k'"
  using kcore_D(1,2,15) [of k' k] lastf_core [of k' k] by (simp add: quiet_def fd_same_def counts_same_def wake_ok_def)

text \<open>A wakeup on a lock.\<close>

lemma wakeup_quiet:
  assumes "wake_ok k" and "chan = addr k (Sym_shlockc ip)"
  shows "\<exists>k'. wakeup chan k = Ok k' \<and> quiet k k' \<and> files k' = files k \<and> inodes k' = inodes k"
proof -
  from assms wakeup_spec [of k chan] obtain k' where w: "wakeup chan k = Ok k'" "sched_inv k'"
    by (auto simp: wake_ok_def)
  with wakeup_core [OF w(1)] quiet_core [OF assms(1) w(2)] kcore_D(15,16) [OF wakeup_core [OF w(1)]] show ?thesis by simp
qed


section \<open>Closing a file\<close>

lemma ino_unlock_sh_quiet: "wake_ok k \<Longrightarrow> \<exists>k'. ino_unlock_sh fp ip fl k = Ok k' \<and> quiet k k'"
proof -
  assume a: "wake_ok k"
  let ?k1 = "upd_inode ip (\<lambda>i. i\<lparr>i_shlockc := i_shlockc i - 1\<rparr>) k"
  let ?k2 = "upd_inode ip (\<lambda>i. i\<lparr>i_flag := i_flag i AND NOT ISHLOCK\<rparr>) ?k1"
  have q: "quiet k ?k1" "quiet k ?k2" using a by (simp_all add: quiet_refl)
  from wakeup_quiet [OF quiet_wake [OF q(2)] refl, of ip] obtain k3 where
    k3: "wakeup (addr ?k2 (Sym_shlockc ip)) ?k2 = Ok k3" "quiet ?k2 k3" by blast
  from quiet_trans [OF q(2) k3(2)] k3(1) q show ?thesis
    by (auto simp: ino_unlock_sh_def Let_def intro: quiet_refl)
qed

lemma ino_unlock_ex_quiet: "wake_ok k \<Longrightarrow> \<exists>k'. ino_unlock_ex fp ip fl k = Ok k' \<and> quiet k k'"
proof -
  assume a: "wake_ok k"
  let ?k1 = "upd_inode ip (\<lambda>i. i\<lparr>i_exlockc := i_exlockc i - 1\<rparr>) k"
  let ?k2 = "upd_inode ip (\<lambda>i. i\<lparr>i_flag := i_flag i AND NOT (IEXLOCK OR ILWAIT)\<rparr>) ?k1"
  have q: "quiet k ?k1" "quiet k ?k2" using a by (simp_all add: quiet_refl)
  from wakeup_quiet [OF quiet_wake [OF q(2)] refl, of ip] obtain k3 where
    k3: "wakeup (addr ?k2 (Sym_shlockc ip)) ?k2 = Ok k3" "quiet ?k2 k3" by blast
  from quiet_trans [OF q(2) k3(2)] k3(1) q show ?thesis
    by (auto simp: ino_unlock_ex_def Let_def intro: quiet_trans)
qed

lemma ino_unlock_quiet:
  assumes a: "wake_ok k"
  shows "\<exists>k'. ino_unlock fp kind k = Ok k' \<and> quiet k k'"
proof -
  let ?ip = "f_data (files k fp)" and ?fl = "i_flag (inodes k (f_data (files k fp)))"
  let ?sh = "if (kind AND f_flag (files k fp)) AND FSHLOCK \<noteq> 0 then ino_unlock_sh fp ?ip ?fl k else Ok k"
  have "\<exists>k1. ?sh = Ok k1 \<and> quiet k k1"
    using ino_unlock_sh_quiet [OF a, of fp ?ip ?fl] quiet_refl [OF a] by auto
  then obtain k1 where k1: "?sh = Ok k1" "quiet k k1" by blast
  with ino_unlock_ex_quiet [OF quiet_wake [OF k1(2)], of fp ?ip ?fl] quiet_refl [OF a]
  show ?thesis unfolding ino_unlock_def Let_def k1(1) using k1(2) by (auto intro: quiet_trans)
qed

text \<open>\<open>closef\<close> returns and takes one reference away from the file; nothing else about the tables changes.\<close>

lemma closef_spec:
  assumes a: "wake_ok k" and fops: "fops_ok Fops"
  shows "\<exists>k' e. closef Fops fp k = Ok (k', e) \<and> wake_ok k' \<and> fd_same k k'
     \<and> (\<forall>f. f_count (files k' f) = f_count (files k f) - (if f = fp then 1 else 0))"
proof (cases "f_count (files k fp) > 1")
  case True
  then show ?thesis using a by (simp add: closef_def fd_same_def)
next
  case False
  let ?l = "if f_flag (files k fp) AND (FSHLOCK OR FEXLOCK) \<noteq> 0 \<and> f_type (files k fp) = DTYPE_INODE
         then ino_unlock fp (FSHLOCK OR FEXLOCK) k else Ok k"
  have "\<exists>k1. ?l = Ok k1 \<and> quiet k k1"
    using ino_unlock_quiet [OF a, of fp "FSHLOCK OR FEXLOCK"] quiet_refl [OF a] by auto
  then obtain k1 where k1: "?l = Ok k1" "quiet k k1" by blast
  from fops quiet_wake [OF k1(2)] obtain k2 e where
    k2: "fo_close (Fops (f_type (files k1 fp))) fp k1 = Ok (k2, e)" "quiet k1 k2"
    unfolding fops_ok_def quiet_def by blast
  from quiet_trans [OF k1(2) k2(2)] have q: "quiet k k2" .
  have "closef Fops fp k = Ok (upd_file fp (\<lambda>f. f\<lparr>f_count := 0\<rparr>) k2, e)"
    using False k1(1) k2(1) by (simp add: closef_def)
  then show ?thesis using q False by (auto simp: quiet_def fd_same_def counts_same_def)
qed

section \<open>The invariant\<close>

text \<open>The number of descriptors on file \<open>f\<close>.\<close>

definition refs :: "(nat \<Rightarrow> nat option) \<Rightarrow> nat \<Rightarrow> nat" where
  "refs ofile f = card {fd. fd < NOFILE \<and> ofile fd = Some f}"

definition fd_inv :: "(nat \<Rightarrow> nat) \<Rightarrow> kern \<Rightarrow> bool" where
  "fd_inv others k \<longleftrightarrow> (\<forall>f. f_count (files k f) = refs (u_ofile (u k)) f + others f)
     \<and> (\<forall>fd f. fd < NOFILE \<longrightarrow> u_ofile (u k) fd = Some f \<longrightarrow> f < NFILE \<and> int fd \<le> u_lastfile (u k))
     \<and> u_lastfile (u k) < int NOFILE \<and> lastf k \<le> NFILE \<and> wake_ok k"

lemma refs_set:
  assumes "ofile fd = None" "fd < NOFILE"
  shows "refs (ofile(fd := Some g)) f = refs ofile f + (if f = g then 1 else 0)"
proof -
  have "{i. i < NOFILE \<and> (ofile(fd := Some g)) i = Some f}
      = (if f = g then insert fd {i. i < NOFILE \<and> ofile i = Some f} else {i. i < NOFILE \<and> ofile i = Some f})"
    using assms by auto
  then show ?thesis using assms by (simp add: refs_def)
qed

lemma refs_clear:
  assumes "ofile fd = Some g" "fd < NOFILE"
  shows "refs ofile f = refs (ofile(fd := None)) f + (if f = g then 1 else 0)"
proof -
  have "ofile = (ofile(fd := None))(fd := Some g)" using assms by auto
  then show ?thesis using refs_set [of "ofile(fd := None)" fd g f] assms by simp
qed

lemma refs_replace:
  assumes "ofile fd = Some g'" "fd < NOFILE"
  shows "refs (ofile(fd := Some g)) f + (if f = g' then 1 else 0) = refs ofile f + (if f = g then 1 else 0)"
  using refs_clear [of ofile fd g' f] refs_set [of "ofile(fd := None)" fd g f] assms by simp

lemma fd_inv_quiet: "fd_inv others k \<Longrightarrow> quiet k k' \<Longrightarrow> fd_inv others k'"
  by (simp add: fd_inv_def quiet_def fd_same_def counts_same_def)

lemma getf_cases:
  obtains (bad) "getf fd k = (set_error EBADF k, None)"
  | (ok) fp where "getf fd k = (k, Some fp)" "0 \<le> fd" "nat fd < NOFILE" "u_ofile (u k) (nat fd) = Some fp"
  by (cases "fd < 0 \<or> fd \<ge> int NOFILE"; cases "u_ofile (u k) (nat fd)") (auto simp: getf_def)

lemma ufalloc_cases:
  obtains (full) "ufalloc i k = (set_error EMFILE k, None)" "\<forall>j. i \<le> j \<and> j < NOFILE \<longrightarrow> u_ofile (u k) j \<noteq> None"
  | (got) j where "ufalloc i k = (k\<lparr>u := (u k)\<lparr>u_rval := int j, u_pofile := (u_pofile (u k))(j := 0),
        u_lastfile := max (u_lastfile (u k)) (int j)\<rparr>\<rparr>, Some j)"
      "i \<le> j" "j < NOFILE" "u_ofile (u k) j = None" "\<forall>l. i \<le> l \<and> l < j \<longrightarrow> u_ofile (u k) l \<noteq> None"
proof (cases "List.find (\<lambda>i. u_ofile (u k) i = None) [i..<NOFILE]")
  case None
  then have "ufalloc i k = (set_error EMFILE k, None)" by (simp add: ufalloc_def)
  moreover have "\<forall>j. i \<le> j \<and> j < NOFILE \<longrightarrow> u_ofile (u k) j \<noteq> None" using None by (auto simp: find_None_iff)
  ultimately show thesis by (rule full)
next
  case (Some j)
  then obtain n where n: "n < length [i..<NOFILE]" "u_ofile (u k) ([i..<NOFILE] ! n) = None" "j = [i..<NOFILE] ! n"
    "\<forall>m<n. u_ofile (u k) ([i..<NOFILE] ! m) \<noteq> None" by (auto simp: find_Some_iff)
  then have j: "j = i + n" "j < NOFILE" by auto
  have "u_ofile (u k) l \<noteq> None" if "i \<le> l" "l < j" for l
    using n(4) [rule_format, of "l - i"] that j n(1) by auto
  then show thesis using got [of j] Some n j by (auto simp: ufalloc_def)
qed

lemma dupit_counts:
  assumes c: "\<And>f. f_count (files k f) + (if f = fp then 1 else 0) = refs ((u_ofile (u k))(fd := Some fp)) f + others f"
    and t: "\<forall>fd f. fd < NOFILE \<longrightarrow> u_ofile (u k) fd = Some f \<longrightarrow> f < NFILE \<and> int fd \<le> u_lastfile (u k)"
    and b: "u_lastfile (u k) < int NOFILE" "lastf k \<le> NFILE" "wake_ok k" "fd < NOFILE" "fp < NFILE"
  shows "fd_inv others (dupit fd fp fl k)"
proof -
  have "f_count (files (dupit fd fp fl k) f) = refs (u_ofile (u (dupit fd fp fl k))) f + others f" for f
    using c [of f] by (auto simp: dupit_def split: if_splits)
  moreover have "f < NFILE \<and> int l \<le> u_lastfile (u (dupit fd fp fl k))"
    if "l < NOFILE" "u_ofile (u (dupit fd fp fl k)) l = Some f" for l f
    using that t b by (cases "l = fd") (force simp: dupit_def)+
  ultimately show ?thesis using b by (simp add: fd_inv_def dupit_def)
qed

lemma dupit_inv:
  assumes inv: "fd_inv others k" and fd: "u_ofile (u k) fd = None" "fd < NOFILE" "fp < NFILE"
  shows "fd_inv others (dupit fd fp fl k)"
proof (rule dupit_counts)
  show "f_count (files k f) + (if f = fp then 1 else 0) = refs ((u_ofile (u k))(fd := Some fp)) f + others f" for f
    using inv refs_set [of "u_ofile (u k)" fd fp f] fd by (simp add: fd_inv_def)
qed (use inv fd in \<open>auto simp: fd_inv_def\<close>)

section \<open>The calls keep the invariant\<close>

lemma ufalloc_inv: "fd_inv others k \<Longrightarrow> j < NOFILE \<Longrightarrow> fd_inv others (k\<lparr>u := (u k)\<lparr>u_rval := r, u_pofile := p,
    u_lastfile := max (u_lastfile (u k)) (int j)\<rparr>\<rparr>)"
  by (force simp: fd_inv_def)

lemma fd_inv_file: "fd_inv others k \<Longrightarrow> fd < NOFILE \<Longrightarrow> u_ofile (u k) fd = Some fp \<Longrightarrow> fp < NFILE"
  by (auto simp: fd_inv_def)

lemma fd_inv_wake: "fd_inv others k \<Longrightarrow> wake_ok k"
  by (simp add: fd_inv_def)

lemma fd_inv_u [simp]:
  "u_ofile v = u_ofile (u k) \<Longrightarrow> u_lastfile v = u_lastfile (u k) \<Longrightarrow> fd_inv others (k\<lparr>u := v\<rparr>) = fd_inv others k"
  by (simp add: fd_inv_def)

lemma dup2_inv:
  assumes inv: "fd_inv others k" and fops: "fops_ok Fops"
  shows "\<exists>k'. dup2 Fops i j k = Ok k' \<and> fd_inv others k'"
proof (cases rule: getf_cases [of i k])
  case bad
  then show ?thesis using inv by (simp add: dup2_def)
next
  case (ok fp)
  have fp: "fp < NFILE" by (rule fd_inv_file [OF inv ok(3,4)])
  consider "j < 0 \<or> j \<ge> int NOFILE \<or> i = j" | "0 \<le> j" "j < int NOFILE" "i \<noteq> j" "u_ofile (u k) (nat j) = None"
    | fp' where "0 \<le> j" "j < int NOFILE" "i \<noteq> j" "u_ofile (u k) (nat j) = Some fp'" by fastforce
  then show ?thesis
  proof cases
    case 1
    then show ?thesis using ok inv by (auto simp: dup2_def)
  next
    case 2
    then show ?thesis using ok inv fp dupit_inv [of others "set_rval j k" "nat j" fp] by (simp add: dup2_def)
  next
    case 3
    let ?k = "set_rval j k"
    from closef_spec [OF _ fops, of ?k fp'] fd_inv_wake [OF inv] obtain k1 e where
      k1: "closef Fops fp' ?k = Ok (k1, e)" "wake_ok k1" "fd_same ?k k1"
        "\<forall>f. f_count (files k1 f) = f_count (files k f) - (if f = fp' then 1 else 0)" by auto
    have j: "nat j < NOFILE" using 3 by simp
    have c: "f_count (files k1 f) + (if f = fp then 1 else 0) = refs ((u_ofile (u k))(nat j := Some fp)) f + others f" for f
      using refs_replace [of "u_ofile (u k)" "nat j" fp' fp f] refs_clear [of "u_ofile (u k)" "nat j" fp' f] 3(4) j inv k1(4)
      by (auto simp: fd_inv_def)
    have "fd_inv others (dupit (nat j) fp fl k1)" for fl
    proof (rule dupit_counts)
      show "f_count (files k1 f) + (if f = fp then 1 else 0) = refs ((u_ofile (u k1))(nat j := Some fp)) f + others f" for f
        using c [of f] k1(3) by (simp add: fd_same_def)
    qed (use inv fp k1(2,3) j in \<open>auto simp: fd_inv_def fd_same_def\<close>)
    then show ?thesis using 3 ok k1(1) by (simp add: dup2_def)
  qed
qed

lemma dup_inv:
  assumes inv: "fd_inv others k" and fops: "fops_ok Fops"
  shows "\<exists>k'. dup Fops i j k = Ok k' \<and> fd_inv others k'"
proof (cases "i AND NOT 63 = 0")
  case False
  then show ?thesis using dup2_inv [OF inv fops] by (simp add: dup_def)
next
  case True
  then show ?thesis
  proof (cases rule: getf_cases [of i k])
    case bad
    then show ?thesis using inv True by (simp add: dup_def)
  next
    case (ok fp)
    show ?thesis
    proof (cases rule: ufalloc_cases [of 0 k])
      case full
      then show ?thesis using inv ok True by (simp add: dup_def)
    next
      case (got l)
      then show ?thesis using ok True dupit_inv [OF ufalloc_inv [OF inv got(3)] _ got(3) fd_inv_file [OF inv ok(3,4)]]
        by (simp add: dup_def)
    qed
  qed
qed

lemma fioctl_quiet:
  assumes "quiet k0 k" and fops: "fops_ok Fops"
  shows "\<exists>k' e v'. fioctl Fops fp c v k = Ok (k', e, v') \<and> quiet k0 k'"
proof -
  from fops quiet_wake [OF assms(1)] obtain k' e v' where
    "fo_ioctl (Fops (f_type (files k fp))) fp c v k = Ok (k', e, v')" "quiet k k'"
    unfolding fops_ok_def quiet_def by blast
  with quiet_trans [OF assms(1)] show ?thesis by (auto simp: fioctl_def)
qed

lemma fset_quiet:
  assumes "quiet k0 k" and fops: "fops_ok Fops"
  shows "\<exists>k' e. fset Fops fp b v k = Ok (k', e) \<and> quiet k0 k'"
  using fioctl_quiet [OF _ fops, of k0 "upd_file fp (\<lambda>f. f\<lparr>f_flag := (if v \<noteq> 0 then f_flag f OR b else f_flag f AND NOT b)\<rparr>) k"
      fp "if b = FNONBLOCK then FIONBIO else FIOASYNC" "sint v"] assms(1)
  by (auto simp: fset_def)

lemma fcntl_setfl_quiet:
  assumes a: "wake_ok k" and fops: "fops_ok Fops"
  shows "\<exists>k'. fcntl_setfl Fops fp arg k = Ok k' \<and> quiet k k'"
proof -
  define k0 where "k0 = upd_file fp (\<lambda>f. f\<lparr>f_flag := (f_flag f AND NOT FCNTLFLAGS) OR (FFLAGS arg AND FCNTLFLAGS)\<rparr>) k"
  have q0: "quiet k k0" using a by (simp add: k0_def quiet_refl)
  from fset_quiet [OF q0 fops] obtain k1 e where
    k1: "fset Fops fp FNONBLOCK (f_flag (files k0 fp) AND FNONBLOCK) k0 = Ok (k1, e)" "quiet k k1" by blast
  from fset_quiet [OF _ fops, of k "set_error 0 k1" fp FASYNC "f_flag (files k1 fp) AND FASYNC"] k1(2) obtain k2 e2 where
    k2: "fset Fops fp FASYNC (f_flag (files k1 fp) AND FASYNC) (set_error 0 k1) = Ok (k2, e2)" "quiet k k2" by auto
  from fset_quiet [OF _ fops, of k "set_error e2 k2" fp FNONBLOCK 0] k2(2) obtain k3 e3 where
    k3: "fset Fops fp FNONBLOCK 0 (set_error e2 k2) = Ok (k3, e3)" "quiet k k3" by auto
  show ?thesis using k1 k2 k3 unfolding fcntl_setfl_def Let_def k0_def [symmetric] by simp
qed

lemma fsetown_quiet:
  assumes a: "wake_ok k" and fops: "fops_ok Fops"
  shows "\<exists>k' e. fsetown Fops fp v k = Ok (k', e) \<and> quiet k k'"
proof -
  have "\<exists>k' e. bind_cres (fioctl Fops fp TIOCSPGRP w k) (\<lambda>(k, e, v). Ok (k, e)) = Ok (k', e) \<and> quiet k k'" for w
    using fioctl_quiet [OF quiet_refl [OF a] fops, of fp TIOCSPGRP w] by auto
  with quiet_refl [OF a] show ?thesis unfolding fsetown_def by (auto split: option.splits simp del: bind_cres_eq_Ok)
qed

lemma fcntl_inv:
  assumes inv: "fd_inv others k" and fops: "fops_ok Fops"
  shows "\<exists>k'. fcntl Fops fdes cmd arg k = Ok k' \<and> fd_inv others k'"
proof (cases rule: getf_cases [of fdes k])
  case bad
  then show ?thesis using inv by (simp add: fcntl_def)
next
  case (ok fp)
  note w = fd_inv_wake [OF inv] and q = fd_inv_quiet [OF inv]
  consider "cmd = 0" "0 \<le> arg" "arg < int NOFILE" | "cmd = 4" | "cmd = 5" | "cmd = 6"
    | "cmd \<notin> {0, 4, 5, 6} \<or> cmd = 0 \<and> (arg < 0 \<or> arg \<ge> int NOFILE)" by fastforce
  then show ?thesis
  proof cases
    case 1
    show ?thesis
    proof (cases rule: ufalloc_cases [of "nat arg" k])
      case full
      then show ?thesis using inv ok 1 by (simp add: fcntl_def)
    next
      case (got l)
      then show ?thesis using ok 1 dupit_inv [OF ufalloc_inv [OF inv got(3)] _ got(3) fd_inv_file [OF inv ok(3,4)]]
        by (simp add: fcntl_def)
    qed
  next
    case 2
    then show ?thesis using ok fcntl_setfl_quiet [OF w fops, of fp "word_of_int arg"] q by (auto simp: fcntl_def)
  next
    case 3
    from fioctl_quiet [OF quiet_refl [OF w] fops, of fp TIOCGPGRP "u_rval (u k)"] 3 ok q show ?thesis
      by (auto simp: fcntl_def fgetown_def)
  next
    case 4
    from fsetown_quiet [OF w fops, of fp arg] 4 ok q show ?thesis by (auto simp: fcntl_def)
  next
    case 5
    then show ?thesis using ok inv by (auto simp: fcntl_def Let_def)
  qed
qed

text \<open>The last open descriptor.\<close>

lemma close_last_bound: "close_last ofile n < int n"
  by (induction n) auto

lemma close_last_above: "fd < n \<Longrightarrow> ofile fd \<noteq> None \<Longrightarrow> int fd \<le> close_last ofile n"
  by (induction n) (auto simp: less_Suc_eq)

lemma close_last_open: "close_last ofile n = int fd \<Longrightarrow> ofile fd \<noteq> None"
  by (induction n) (auto split: if_splits)

lemma close_inv:
  assumes inv: "fd_inv others k" and fops: "fops_ok Fops"
  shows "\<exists>k'. close Fops i k = Ok k' \<and> fd_inv others k'"
proof (cases rule: getf_cases [of i k])
  case bad
  then show ?thesis using inv by (simp add: close_def)
next
  case (ok fp)
  define ofile where "ofile = (u_ofile (u k))(nat i := None)"
  define k1 where "k1 = k\<lparr>u := (u k)\<lparr>u_ofile := ofile, u_lastfile := close_last ofile (nat (u_lastfile (u k) + 1))\<rparr>\<rparr>"
  from closef_spec [OF _ fops, of k1 fp] fd_inv_wake [OF inv] obtain k2 e where
    k2: "closef Fops fp k1 = Ok (k2, e)" "wake_ok k2" "fd_same k1 k2"
      "\<forall>f. f_count (files k2 f) = f_count (files k1 f) - (if f = fp then 1 else 0)" by (auto simp: k1_def)
  have c: "f_count (files k2 f) = refs ofile f + others f" for f
    using refs_clear [of "u_ofile (u k)" "nat i" fp f] ok inv k2(4) by (auto simp: fd_inv_def k1_def ofile_def)
  have t: "f < NFILE \<and> int fd \<le> close_last ofile (nat (u_lastfile (u k) + 1))" if "fd < NOFILE" "ofile fd = Some f" for fd f
  proof -
    from that inv have "f < NFILE" "int fd \<le> u_lastfile (u k)" by (auto simp: ofile_def fd_inv_def split: if_splits)
    then show ?thesis using close_last_above [of fd "nat (u_lastfile (u k) + 1)" ofile] that by simp
  qed
  have "close_last ofile (nat (u_lastfile (u k) + 1)) < int NOFILE"
    using close_last_bound [of ofile "nat (u_lastfile (u k) + 1)"] inv by (simp add: fd_inv_def split: if_splits)
  then have "fd_inv others k2" using c t k2(2,3) inv by (auto simp: fd_inv_def fd_same_def k1_def)
  then show ?thesis using ok k2(1) unfolding close_def k1_def ofile_def Let_def by simp
qed

text \<open>\<open>falloc\<close>: the lowest free descriptor and a free entry of the file table, or an error.\<close>

lemma find_Some_set: "List.find P xs = Some x \<Longrightarrow> P x \<and> x \<in> set xs"
  by (induction xs) (auto split: if_splits)

lemma falloc_spec:
  assumes inv: "fd_inv others k"
  obtains (nofd) "falloc k = (set_error EMFILE k, None)" "\<forall>j<NOFILE. u_ofile (u k) j \<noteq> None"
  | (nofile) k' where "falloc k = (k', None)" "u_error (u k') = ENFILE" "u_ofile (u k') = u_ofile (u k)" "fd_inv others k'"
      "files k' = files k" "\<forall>f<NFILE. f_count (files k f) \<noteq> 0"
  | (got) k' fd fp where "falloc k = (k', Some fp)" "fd_inv others k'" "fd < NOFILE" "u_ofile (u k) fd = None"
      "\<forall>l<fd. u_ofile (u k) l \<noteq> None" "u_rval (u k') = int fd" "u_ofile (u k') = (u_ofile (u k))(fd := Some fp)"
      "fp < NFILE" "f_count (files k fp) = 0" "f_count (files k' fp) = 1" "f_data (files k' fp) = 0" "f_offset (files k' fp) = 0"
      "\<forall>f. f \<noteq> fp \<longrightarrow> files k' f = files k f" "u_pofile (u k') fd = 0"
proof (cases rule: ufalloc_cases [of 0 k])
  case full
  then show thesis using nofd by (simp add: falloc_def)
next
  case (got fd)
  define k1 where "k1 = k\<lparr>u := (u k)\<lparr>u_rval := int fd, u_pofile := (u_pofile (u k))(fd := 0),
        u_lastfile := max (u_lastfile (u k)) (int fd)\<rparr>\<rparr>"
  have i1: "fd_inv others k1" unfolding k1_def by (rule ufalloc_inv [OF inv got(3)])
  have b: "lastf k \<le> NFILE" using inv by (simp add: fd_inv_def)
  show thesis
  proof (cases "List.find (\<lambda>fp. f_count (files k fp) = 0) ([lastf k..<NFILE] @ [0..<lastf k])")
    case None
    then have "f_count (files k f) \<noteq> 0" if "f < NFILE" for f
      using that by (cases "f < lastf k") (auto simp: find_None_iff)
    moreover have "fd_inv others (set_error ENFILE k1)" using i1 by simp
    ultimately show thesis using nofile [of "set_error ENFILE k1"] None got by (simp add: falloc_def k1_def)
  next
    case (Some fp)
    then have fp: "fp < NFILE" "f_count (files k fp) = 0" using b find_Some_set [OF Some] by auto
    define k2 where "k2 = upd_file fp (\<lambda>f. f\<lparr>f_count := 1, f_data := 0, f_offset := 0\<rparr>)
        (k1\<lparr>u := (u k1)\<lparr>u_ofile := (u_ofile (u k1))(fd := Some fp)\<rparr>, lastf := fp + 1\<rparr>)"
    have r: "falloc k = (k2, Some fp)" using Some got by (simp add: falloc_def k2_def k1_def)
    have "refs (u_ofile (u k)) fp = 0" "others fp = 0" using inv fp(2) by (auto simp: fd_inv_def)
    then have "f_count (files k2 f) = refs (u_ofile (u k2)) f + others f" for f
      using refs_set [of "u_ofile (u k)" fd fp f] got(3,4) inv by (auto simp: k2_def k1_def fd_inv_def)
    moreover have "f < NFILE \<and> int l \<le> u_lastfile (u k2)" if "l < NOFILE" "u_ofile (u k2) l = Some f" for l f
      using that i1 fp by (cases "l = fd") (auto simp: k2_def k1_def fd_inv_def)
    ultimately have "fd_inv others k2" using i1 fp by (simp add: k2_def fd_inv_def)
    moreover have "\<forall>l<fd. u_ofile (u k) l \<noteq> None" using got(5) by simp
    ultimately show thesis using that(3) [OF r _ got(3,4)] fp by (simp add: k2_def k1_def)
  qed
qed

lemma falloc_inv: "fd_inv others k \<Longrightarrow> fd_inv others (fst (falloc k))"
  by (rule falloc_spec [of others k]) auto

section \<open>The component\<close>

datatype fd_op = Dup int int | Dup2 int int | Fcntl int int int | Close int | Falloc

fun fd_call :: "(int \<Rightarrow> fileops) \<Rightarrow> fd_op \<Rightarrow> kern \<Rightarrow> kern cres" where
  "fd_call Fops (Dup i j) k = dup Fops i j k"
| "fd_call Fops (Dup2 i j) k = dup2 Fops i j k"
| "fd_call Fops (Fcntl fd c a) k = fcntl Fops fd c a k"
| "fd_call Fops (Close i) k = close Fops i k"
| "fd_call Fops Falloc k = Ok (fst (falloc k))"

interpretation fd: safe_component "\<lambda>k. fops_ok Fops \<and> fd_inv others k" "\<lambda>_. True" "fd_call Fops" for Fops others
proof
  fix k op assume a: "fops_ok Fops \<and> fd_inv others k"
  then show "\<exists>k'. fd_call Fops op k = Ok k' \<and> fops_ok Fops \<and> fd_inv others k'"
    by (cases op) (auto intro: dup_inv dup2_inv fcntl_inv close_inv falloc_inv)
qed

text \<open>
  C35. Reference counting of open files is exact. Let every descriptor of the process refer to an entry of the file table whose
  reference count is the number of its descriptors in this process plus those held elsewhere. Then any
  sequence of \<open>dup\<close>, \<open>dup2\<close>, \<open>fcntl\<close>, \<open>close\<close> and \<open>falloc\<close> returns without a panic and leaves this true: no entry is freed while
  a descriptor refers to it, none is leaked, and no descriptor lies beyond \<open>u_lastfile\<close>. The routines of the file
  types are only expected to return and to leave the descriptor tables alone.
\<close>

theorem file_references_exact:
  assumes "fops_ok Fops" "fd_inv others k"
  shows "\<exists>k'. run_calls (fd_call Fops) ops k = Ok k'
     \<and> (\<forall>f. f_count (files k' f) = refs (u_ofile (u k')) f + others f)
     \<and> (\<forall>fd<NOFILE. \<forall>f. u_ofile (u k') fd = Some f \<longrightarrow> f < NFILE \<and> f_count (files k' f) > 0 \<and> int fd \<le> u_lastfile (u k'))"
proof -
  from fd.run_safe [of Fops others k ops] assms obtain k' where
    r: "run_calls (fd_call Fops) ops k = Ok k'" "fd_inv others k'" by auto
  have "f_count (files k' f) > 0" if "fd < NOFILE" "u_ofile (u k') fd = Some f" for fd f
    using r(2) refs_clear [of "u_ofile (u k')" fd f f] that by (simp add: fd_inv_def)
  with r show ?thesis by (auto simp: fd_inv_def)
qed

theorem file_references_exact_witness:
  "\<exists>Fops k k'. fd_inv (\<lambda>_. 0) k \<and> u_ofile (u k) 0 = Some 3 \<and> f_count (files k 3) = 1
     \<and> run_calls (fd_call Fops) [Dup 0 0, Close 0, Falloc] k = Ok k' \<and> (\<forall>f. f_count (files k' f) = refs (u_ofile (u k')) f)"
proof -
  define Fops :: "int \<Rightarrow> fileops" where "Fops = (\<lambda>_. \<lparr>fo_ioctl = (\<lambda>_ _ v k. Ok (k, 0, v)), fo_close = (\<lambda>_ k. Ok (k, 0))\<rparr>)"
  define k :: kern where "k = undefined\<lparr>u := undefined\<lparr>u_ofile := (\<lambda>fd. if fd = 0 then Some 3 else None), u_lastfile := 0\<rparr>,
     procs := (\<lambda>_. undefined\<lparr>p_wchan := 0, p_stat := SSLEEP\<rparr>), files := (\<lambda>f. undefined\<lparr>f_count := if f = 3 then 1 else 0\<rparr>),
     lastf := 0, addr := (\<lambda>_. 1), slpque := (\<lambda>_. []), qs := []\<rparr>"
  have f: "fops_ok Fops" by (simp add: fops_ok_def Fops_def fd_same_def counts_same_def)
  have "{fd. fd < NOFILE \<and> (if fd = 0 then Some 3 else None) = Some f} = (if f = 3 then {0} else {})" for f :: nat by auto
  then have r: "refs (u_ofile (u k)) f = (if f = 3 then 1 else 0)" for f by (simp add: refs_def k_def)
  have "sched_inv k" by (simp add: k_def sched_inv_def slp_ok_def run_ok_def)
  then have i: "fd_inv (\<lambda>_. 0) k" unfolding fd_inv_def r wake_ok_def by (simp add: k_def split: if_splits)
  from file_references_exact [OF f i, of "[Dup 0 0, Close 0, Falloc]"] obtain k' where
    k': "run_calls (fd_call Fops) [Dup 0 0, Close 0, Falloc] k = Ok k'" "\<forall>f. f_count (files k' f) = refs (u_ofile (u k')) f" by auto
  show ?thesis by (rule exI [of _ Fops], rule exI [of _ k], rule exI [of _ k']) (use k' i in \<open>simp add: k_def\<close>)
qed



section \<open>Opening /dev/fd/N\<close>

lemma falloc_got:
  assumes "fd_inv others k" "falloc k = (k1, Some fp)"
  shows "\<exists>fd<NOFILE. u_rval (u k1) = int fd \<and> u_ofile (u k) fd = None \<and> u_ofile (u k1) = (u_ofile (u k))(fd := Some fp)"
  using assms(1) by (cases rule: falloc_spec) (use assms(2) in auto)

text \<open>
  C39. Opening \<^verbatim>\<open>/dev/fd/N\<close> for a descriptor \<open>N\<close> that is not open reports success although nothing was opened: when the driver
  \<open>fdopen\<close> has asked for the duplication of a descriptor that is not open, \<open>open\<close> returns without an error
  and with the number of a descriptor, and that descriptor is closed. (\<open>copen\<close> stores the outcome of the comparison of \<open>dupfdopen\<close>'s
  result with 0 instead of the result.)
\<close>

theorem open_devfd_false_success:
  assumes inv: "fd_inv others k" and fa: "falloc k = (k1, Some fp)"
    and d: "nat (dev AND 255) \<ge> NOFILE \<or> u_ofile (u k) (nat (dev AND 255)) = None"
    and vn: "\<And>fl cm j. vn_open fl cm fname j = Ok (fst (fdopen dev j), snd (fdopen dev j), ip)"
  shows "\<exists>k' fd. open_call Fops vn_open env procxmt n fname mode crtmode k = Ok k'
     \<and> u_error (u k') = 0 \<and> u_rval (u k') = int fd \<and> fd < NOFILE \<and> u_ofile (u k') fd = None"
proof -
  from falloc_got [OF inv fa] obtain fd where fd: "fd < NOFILE" "u_rval (u k1) = int fd" "u_ofile (u k) fd = None"
    "u_ofile (u k1) = (u_ofile (u k))(fd := Some fp)" by blast
  define k2 where "k2 = upd_file fp (\<lambda>f. f\<lparr>f_flag := FFLAGS mode AND FMASK, f_type := DTYPE_INODE\<rparr>) k1"
  define k3 where "k3 = upd_file fp (\<lambda>f. f\<lparr>f_count := 0\<rparr>) (fst (fdopen dev (k2\<lparr>u := (u k2)\<lparr>u_dupfd := - int fd - 1\<rparr>\<rparr>)))"
  have k3: "u_dupfd (u k3) = dev AND 255" "u_ofile (u k3) = (u_ofile (u k))(fd := Some fp)" "u_rval (u k3) = int fd"
    using fd by (simp_all add: k3_def k2_def fdopen_def)
  have "0 \<le> dev AND 255" by simp
  moreover have "dupfdopen fd (nat (dev AND 255)) m ENODEV k3 = (k3, EBADF)" for m
    using d fd k3 by (auto simp: dupfdopen_def)
  ultimately have "copen Fops vn_open env procxmt n mode crtmode fname k
      = Ok (k3\<lparr>u := (u k3)\<lparr>u_ofile := (u_ofile (u k3))(fd := None)\<rparr>\<rparr>, 0)"
    using fa fd vn k3(1) by (simp add: copen_def Let_def k3_def k2_def fdopen_def)
  then show ?thesis using fd k3 by (auto simp: open_call_def)
qed

theorem open_devfd_false_success_witness:
  "\<exists>k k' fd. open_call (\<lambda>_. undefined) (\<lambda>_ _ _ j. Ok (fst (fdopen 5 j), snd (fdopen 5 j), 0)) (\<lambda>_ j. j) (\<lambda>j. (j, True)) 0 1000 0 0 k = Ok k'
     \<and> u_error (u k') = 0 \<and> u_rval (u k') = int fd \<and> u_ofile (u k') fd = None"
proof -
  define k :: kern where "k = undefined\<lparr>u := undefined\<lparr>u_ofile := (\<lambda>_. None), u_lastfile := - 1\<rparr>,
     procs := (\<lambda>_. undefined\<lparr>p_wchan := 0, p_stat := SSLEEP\<rparr>), files := (\<lambda>_. undefined\<lparr>f_count := 0\<rparr>),
     lastf := 0, addr := (\<lambda>_. 1), slpque := (\<lambda>_. []), qs := []\<rparr>"
  have i: "fd_inv (\<lambda>_. 0) k" by (simp add: fd_inv_def k_def refs_def wake_ok_def sched_inv_def slp_ok_def run_ok_def)
  have "(0::nat) < NOFILE" "(0::nat) < NFILE" "u_ofile (u k) 0 = None" "f_count (files k 0) = 0" by (simp_all add: k_def)
  with i obtain k1 fp where "falloc k = (k1, Some fp)" by (cases rule: falloc_spec) blast+
  from open_devfd_false_success [OF i this, of 5 "\<lambda>_ _ _ j. Ok (fst (fdopen 5 j), snd (fdopen 5 j), 0)" 1000 0
      "\<lambda>_. undefined" "\<lambda>_ j. j" "\<lambda>j. (j, True)" 0 0 0]
  show ?thesis by (auto simp: k_def)
qed

end
