(* ===== verification/Flock.thy ===== *)
theory Flock
  imports Descrip_Inv
begin

text \<open>
  Advisory locks exclude each other: the counts and flags of an inode agree with the lock flags of the files open on it, an
  exclusive lock has one holder and excludes shared ones. The processes that run while \<open>flock\<close> sleeps are only expected to
  keep this, too.
\<close>

section \<open>Signals do not touch files and inodes\<close>

definition io :: "kern \<Rightarrow> (nat \<Rightarrow> filent) \<times> (nat \<Rightarrow> inode)" where
  "io k = (files k, inodes k)"

lemma io_upd [simp]: "io (upd_proc p f k) = io k" "io (k\<lparr>u := v\<rparr>) = io k" "io (k\<lparr>slpque := s\<rparr>) = io k"
  "io (k\<lparr>calltodo := a\<rparr>) = io k" "io (k\<lparr>callfree := b\<rparr>) = io k"
  by (simp_all add: io_def)

lemma io_core: "kcore k' = kcore k \<Longrightarrow> io k' = io k"
  using kcore_D(15,16) [of k' k] by (simp add: io_def)

lemmas wakeup_io = io_core [OF wakeup_core]
  and setrun_io = io_core [OF setrun_core]
  and unsleep_io = io_core [OF unsleep_core]

lemma stop_io: "stop p k = Ok k' \<Longrightarrow> io k' = io k"
  by (auto simp: stop_def Let_def dest!: wakeup_io)

lemma psignal_run_io: "psignal_run p k = Ok k' \<Longrightarrow> io k' = io k"
  by (auto simp: psignal_run_def dest!: setrun_io split: if_splits)

lemma psignal_stopped_io: "psignal_stopped p sig a k = Ok k' \<Longrightarrow> io k' = io k"
  by (auto simp: psignal_stopped_def Let_def dest!: psignal_run_io unsleep_io split: if_splits)

lemma psignal_prepare_io [simp]: "io (psignal_prepare p sig k) = io k"
  by (simp add: psignal_prepare_def Let_def)

lemma psignal_pend_io [simp]: "io (psignal_pend p sig k) = io k"
  by (simp add: psignal_pend_def)

lemma psignal_nonstop_io: "sigprop ! sig AND SA_STOP = 0 \<Longrightarrow> psignal p sig k = Ok k' \<Longrightarrow> io k' = io k"
  unfolding psignal.simps [of p sig k] Let_def
  by (auto dest!: psignal_run_io psignal_stopped_io split: if_splits)

lemma psignal_io: "psignal p sig k = Ok k' \<Longrightarrow> io k' = io k"
proof -
  have c: "sigprop ! SIGCHLD AND SA_STOP = 0" by (simp add: sigprop_def)
  assume "psignal p sig k = Ok k'"
  then show ?thesis
    unfolding psignal.simps [of p sig k] Let_def
    by (auto dest!: psignal_run_io psignal_stopped_io stop_io psignal_nonstop_io [OF c] split: if_splits)
qed

text \<open>A fact about files and inodes that the rest of the system keeps survives the choice of a signal and a sleep.\<close>

definition keeps ::
  "((nat \<Rightarrow> filent) \<times> (nat \<Rightarrow> inode) \<Rightarrow> bool) \<Rightarrow> (nat \<Rightarrow> kern \<Rightarrow> kern) \<Rightarrow> (kern \<Rightarrow> kern \<times> bool) \<Rightarrow> bool" where
  "keeps P env procxmt \<longleftrightarrow> (\<forall>n j. P (io j) \<longrightarrow> P (io (env n j))) \<and> (\<forall>j. P (io j) \<longrightarrow> P (io (fst (procxmt j))))"

lemma trace_stop_io:
  assumes "keeps P env procxmt"
  shows "trace_stop env procxmt n p k = Ok k' \<Longrightarrow> P (io k) \<Longrightarrow> P (io k')"
proof (induction n arbitrary: k)
  case (Suc n)
  then obtain k1 where k1: "stop p k = Ok k1" "(let (k, r) = procxmt (env n k1)
       in if \<not> r \<and> p_flag (procs k p) AND P_TRACED \<noteq> 0 then trace_stop env procxmt n p k else Ok k) = Ok k'" by auto
  have "P (io k1)" using stop_io [OF k1(1)] Suc.prems by simp
  then have "P (io (fst (procxmt (env n k1))))" using assms by (simp add: keeps_def)
  then show ?case using k1(2) Suc.IH [of "fst (procxmt (env n k1))"] by (auto simp: Let_def split: prod.splits if_splits)
qed simp

lemma issignal_traced_io:
  assumes "keeps P env procxmt" "issignal_traced env procxmt n p sig k = Ok (k', r)" "P (io k)"
  shows "P (io k')"
  using assms(2,3) by (auto simp: issignal_traced_def Let_def dest!: psignal_io trace_stop_io [OF assms(1)] split: if_splits)

lemma issignal_action_io:
  assumes "keeps P env procxmt" "issignal_action env n p sig k = Ok (k', r)" "P (io k)"
  shows "P (io k')"
proof -
  have e: "P (io j) \<Longrightarrow> P (io (env n j))" for j using assms(1) by (simp add: keeps_def)
  show ?thesis using assms(2,3)
    by (auto simp: issignal_action_def Let_def intro!: e dest!: psignal_io stop_io split: if_splits)
qed

lemma issignal_io:
  assumes "keeps P env procxmt"
  shows "issignal env procxmt n p k = Ok (k', r) \<Longrightarrow> P (io k) \<Longrightarrow> P (io k')"
proof (induction n arbitrary: k)
  case (Suc n)
  show ?case
    using Suc.prems
    by (auto simp: Let_def split: if_splits option.splits dest!: Suc.IH issignal_action_io [OF assms] issignal_traced_io [OF assms])
qed simp

lemma CURSIG_io:
  "keeps P env procxmt \<Longrightarrow> CURSIG env procxmt n p k = Ok (k', r) \<Longrightarrow> P (io k) \<Longrightarrow> P (io k')"
  by (auto simp: CURSIG_def dest: issignal_io split: if_splits)

lemma untimeout_io [simp]: "io (untimeout f a k) = io k"
  by (simp add: untimeout_def io_def Let_def split: prod.splits option.splits)

lemma tsleep_resume_io:
  assumes "keeps P env procxmt" "tsleep_resume env procxmt n t c sig k = Ok (k', e)" "P (io k)"
  shows "P (io k')"
  using assms(2,3) by (auto simp: tsleep_resume_def Let_def dest!: CURSIG_io [OF assms(1)] split: if_splits)

lemma tsleep_switch_io:
  assumes "keeps P env procxmt" "tsleep_switch env n k = Ok k'" "P (io k)"
  shows "P (io k')"
proof -
  have e: "P (io j) \<Longrightarrow> P (io (env n j))" for j using assms(1) by (simp add: keeps_def)
  show ?thesis using assms(2,3) by (auto simp: tsleep_switch_def Let_def intro!: e dest!: wakeup_io split: if_splits)
qed

lemma tsleep_enqueue_io [simp]: "io (tsleep_enqueue i pri k) = io k"
  by (simp add: tsleep_enqueue_def Let_def)

lemma tsleep_io:
  assumes ke: "keeps P env procxmt" and "tsleep env procxmt n ident pri 0 k = Ok (k', e)" "P (io k)"
  shows "P (io k')"
  using assms(2,3)
  by (auto simp: tsleep_def Let_def dest!: CURSIG_io [OF ke] unsleep_io tsleep_resume_io [OF ke] tsleep_switch_io [OF ke] split: if_splits)

section \<open>The locks of an inode\<close>

lemma flag_bits:
  fixes w :: "32 word"
  shows "w AND FSHLOCK = 0 \<longleftrightarrow> \<not> bit w 4" "w AND FEXLOCK = 0 \<longleftrightarrow> \<not> bit w 5" "w AND ISHLOCK = 0 \<longleftrightarrow> \<not> bit w 7"
    "w AND IEXLOCK = 0 \<longleftrightarrow> \<not> bit w 8"
  using and_exp_eq_0_iff_not_bit [of w 4] and_exp_eq_0_iff_not_bit [of w 5] and_exp_eq_0_iff_not_bit [of w 7]
    and_exp_eq_0_iff_not_bit [of w 8] by simp_all

text \<open>The files on inode \<open>ip\<close> with the lock flag in bit \<open>b\<close> set: 4 for shared locks, 5 for exclusive ones.\<close>

definition holders :: "nat \<Rightarrow> (nat \<Rightarrow> filent) \<Rightarrow> nat \<Rightarrow> nat set" where
  "holders b fs ip = {f. f < NFILE \<and> bit (f_flag (fs f)) b \<and> f_data (fs f) = ip}"

definition ilock_ok :: "nat set \<Rightarrow> nat set \<Rightarrow> inode \<Rightarrow> bool" where
  "ilock_ok S E i \<longleftrightarrow> unat (i_shlockc i) = card S \<and> unat (i_exlockc i) = card E \<and> (bit (i_flag i) 7 \<longleftrightarrow> S \<noteq> {})
     \<and> (bit (i_flag i) 8 \<longleftrightarrow> E \<noteq> {}) \<and> card E \<le> 1 \<and> (E \<noteq> {} \<longrightarrow> S = {})"

definition lock_ok :: "(nat \<Rightarrow> filent) \<times> (nat \<Rightarrow> inode) \<Rightarrow> bool" where
  "lock_ok = (\<lambda>(fs, is). \<forall>ip. ip \<noteq> 0 \<longrightarrow> ilock_ok (holders 4 fs ip) (holders 5 fs ip) (is ip))"

lemma lock_okD: "lock_ok (io k) \<Longrightarrow> ip \<noteq> 0 \<Longrightarrow> ilock_ok (holders 4 (files k) ip) (holders 5 (files k) ip) (inodes k ip)"
  by (simp add: lock_ok_def io_def)

lemma holders_finite [simp]: "finite (holders b fs ip)"
  by (simp add: holders_def)

lemma holders_card: "card (holders b fs ip) \<le> NFILE"
  using card_mono [of "{..<NFILE}" "holders b fs ip"] by (auto simp: holders_def)

lemma holders_upd:
  assumes "fp < NFILE"
  shows "holders b (fs(fp := (fs fp)\<lparr>f_flag := w\<rparr>)) ip =
    (if f_data (fs fp) = ip then (if bit w b then insert fp (holders b fs ip) else holders b fs ip - {fp}) else holders b fs ip)"
  using assms by (auto simp: holders_def)

text \<open>One file and its inode change.\<close>

lemma lock_ok_upd:
  assumes ok: "lock_ok (fs, is)" and fp: "fp < NFILE" "f_data (fs fp) = ip" "ip \<noteq> 0"
    and i: "ilock_ok (if bit w 4 then insert fp (holders 4 fs ip) else holders 4 fs ip - {fp})
      (if bit w 5 then insert fp (holders 5 fs ip) else holders 5 fs ip - {fp}) i"
  shows "lock_ok (fs(fp := (fs fp)\<lparr>f_flag := w\<rparr>), is(ip := i))"
  using assms by (auto simp: lock_ok_def holders_upd)

lemma unlock_sh_ok:
  assumes "ilock_ok S E i" "finite S" "fp \<in> S"
  shows "ilock_ok (S - {fp}) E (i\<lparr>i_shlockc := i_shlockc i - 1,
      i_flag := (if i_shlockc i - 1 = 0 then i_flag i AND NOT ISHLOCK else i_flag i)\<rparr>)"
proof -
  have c: "unat (i_shlockc i) = card S" "card S > 0" using assms by (auto simp: ilock_ok_def card_gt_0_iff)
  then have "i_shlockc i \<noteq> 0" by auto
  then have u: "unat (i_shlockc i - 1) = card (S - {fp})" using c assms by (simp add: unat_minus_one)
  then have z: "i_shlockc i - 1 = 0 \<longleftrightarrow> S - {fp} = {}"
    using assms(2) by (metis card_eq_0_iff card.empty finite_Diff unat_eq_zero)
  show ?thesis using assms u z by (auto simp: ilock_ok_def bit_simps)
qed

lemma unlock_ex_ok:
  assumes "ilock_ok S E i" "finite E" "fp \<in> E"
  shows "ilock_ok S (E - {fp}) (i\<lparr>i_exlockc := i_exlockc i - 1,
      i_flag := (if i_exlockc i - 1 = 0 then i_flag i AND NOT (IEXLOCK OR ILWAIT) else i_flag i)\<rparr>)"
proof -
  have c: "unat (i_exlockc i) = card E" "card E > 0" using assms by (auto simp: ilock_ok_def card_gt_0_iff)
  then have "i_exlockc i \<noteq> 0" by auto
  then have u: "unat (i_exlockc i - 1) = card (E - {fp})" using c assms by (simp add: unat_minus_one)
  then have z: "i_exlockc i - 1 = 0 \<longleftrightarrow> E - {fp} = {}"
    using assms(2) by (metis card_eq_0_iff card.empty finite_Diff unat_eq_zero)
  have "card E = 1" using assms c(2) by (simp add: ilock_ok_def)
  then obtain x where "E = {x}" by (rule card_1_singletonE)
  then have E: "E = {fp}" using assms by simp
  have "\<not> bit (i_flag i AND NOT (IEXLOCK OR ILWAIT)) 8" "bit (i_flag i AND NOT (IEXLOCK OR ILWAIT)) 7 = bit (i_flag i) 7"
    by (simp_all add: bit_simps)
  with assms u z show ?thesis unfolding E by (simp add: ilock_ok_def)
qed

lemma grant_sh_ok:
  assumes "ilock_ok S {} i" "fp \<notin> S" "finite S" "card S \<le> NFILE"
  shows "ilock_ok (insert fp S) {} (i\<lparr>i_shlockc := i_shlockc i + 1, i_flag := i_flag i OR ISHLOCK\<rparr>)"
proof -
  have c: "unat (i_shlockc i) = card S" using assms by (simp add: ilock_ok_def)
  have "unat (i_shlockc i + 1) = card S + 1" using c assms(4) by (subst unat_add_lem [THEN iffD1]) auto
  then show ?thesis using assms by (simp add: ilock_ok_def bit_simps)
qed

lemma grant_ex_ok:
  assumes "ilock_ok {} {} i"
  shows "ilock_ok {} {fp} (i\<lparr>i_exlockc := i_exlockc i + 1, i_flag := i_flag i OR IEXLOCK\<rparr>)"
proof -
  have "unat (i_exlockc i) = 0" using assms by (simp add: ilock_ok_def)
  then have "i_exlockc i = 0" by (simp add: unat_eq_zero)
  then show ?thesis using assms by (simp add: ilock_ok_def bit_simps)
qed

section \<open>Releasing a lock\<close>

text \<open>The effect on files and inodes.\<close>

lemma ino_unlock_sh_io:
  assumes "ino_unlock_sh fp ip fl k = Ok k'"
  shows "files k' = (files k)(fp := (files k fp)\<lparr>f_flag := f_flag (files k fp) AND NOT FSHLOCK\<rparr>)"
    "inodes k' = (inodes k)(ip := (inodes k ip)\<lparr>i_shlockc := i_shlockc (inodes k ip) - 1,
          i_flag := (if i_shlockc (inodes k ip) - 1 = 0 then i_flag (inodes k ip) AND NOT ISHLOCK else i_flag (inodes k ip))\<rparr>)"
  using assms by (auto simp: ino_unlock_sh_def Let_def upd_file_def upd_inode_def io_def dest!: wakeup_io split: if_splits)

lemma ino_unlock_ex_io:
  assumes "ino_unlock_ex fp ip fl k = Ok k'"
  shows "files k' = (files k)(fp := (files k fp)\<lparr>f_flag := f_flag (files k fp) AND NOT FEXLOCK\<rparr>)"
    "inodes k' = (inodes k)(ip := (inodes k ip)\<lparr>i_exlockc := i_exlockc (inodes k ip) - 1,
          i_flag := (if i_exlockc (inodes k ip) - 1 = 0 then i_flag (inodes k ip) AND NOT (IEXLOCK OR ILWAIT) else i_flag (inodes k ip))\<rparr>)"
  using assms by (auto simp: ino_unlock_ex_def Let_def upd_file_def upd_inode_def io_def dest!: wakeup_io split: if_splits)

text \<open>The files as they are after the locks in \<open>kind\<close> are released.\<close>

definition released :: "32 word \<Rightarrow> nat \<Rightarrow> (nat \<Rightarrow> filent) \<Rightarrow> (nat \<Rightarrow> filent) \<Rightarrow> bool" where
  "released kind fp fs fs' \<longleftrightarrow> (\<forall>f. f \<noteq> fp \<longrightarrow> fs' f = fs f) \<and> f_data (fs' fp) = f_data (fs fp) \<and> f_type (fs' fp) = f_type (fs fp)
     \<and> (\<forall>b\<in>{4, 5}. bit (f_flag (fs' fp)) b \<longleftrightarrow> bit (f_flag (fs fp)) b \<and> \<not> (f_data (fs fp) \<noteq> 0 \<and> bit kind b))"

lemma ino_unlock_sh_lock:
  assumes r: "ino_unlock_sh fp ip fl k = Ok k'" and ok: "lock_ok (io k)"
    and fp: "fp < NFILE" "f_data (files k fp) = ip" "ip \<noteq> 0" "bit (f_flag (files k fp)) 4"
  shows "lock_ok (io k') \<and> released FSHLOCK fp (files k) (files k')"
proof -
  let ?w = "f_flag (files k fp) AND NOT FSHLOCK"
  note k' = ino_unlock_sh_io [OF r]
  have h: "fp \<in> holders 4 (files k) ip" "fp \<in> holders 5 (files k) ip \<longleftrightarrow> bit (f_flag (files k fp)) 5"
    using fp by (auto simp: holders_def)
  have b: "\<not> bit ?w 4" "bit ?w 5 \<longleftrightarrow> bit (f_flag (files k fp)) 5" by (auto simp: bit_simps)
  have "ilock_ok (holders 4 (files k) ip - {fp}) (holders 5 (files k) ip) (inodes k' ip)"
    unfolding k'(2) fun_upd_same by (rule unlock_sh_ok [OF lock_okD [OF ok fp(3)] _ h(1)]) simp
  then have "lock_ok (files k', inodes k')" unfolding k'
    using ok fp b h by (intro lock_ok_upd) (auto simp: io_def insert_absorb)
  then show ?thesis using fp by (auto simp: io_def released_def k' bit_simps)
qed

lemma ino_unlock_ex_lock:
  assumes r: "ino_unlock_ex fp ip fl k = Ok k'" and ok: "lock_ok (io k)"
    and fp: "fp < NFILE" "f_data (files k fp) = ip" "ip \<noteq> 0" "bit (f_flag (files k fp)) 5"
  shows "lock_ok (io k') \<and> released FEXLOCK fp (files k) (files k')"
proof -
  let ?w = "f_flag (files k fp) AND NOT FEXLOCK"
  note k' = ino_unlock_ex_io [OF r]
  have h: "fp \<in> holders 5 (files k) ip" "fp \<in> holders 4 (files k) ip \<longleftrightarrow> bit (f_flag (files k fp)) 4"
    using fp by (auto simp: holders_def)
  have b: "\<not> bit ?w 5" "bit ?w 4 \<longleftrightarrow> bit (f_flag (files k fp)) 4" by (auto simp: bit_simps)
  have "ilock_ok (holders 4 (files k) ip) (holders 5 (files k) ip - {fp}) (inodes k' ip)"
    unfolding k'(2) fun_upd_same by (rule unlock_ex_ok [OF lock_okD [OF ok fp(3)] _ h(1)]) simp
  then have "lock_ok (files k', inodes k')" unfolding k'
    using ok fp b h by (intro lock_ok_upd) (auto simp: io_def insert_absorb)
  then show ?thesis using fp by (auto simp: io_def released_def k' bit_simps)
qed

lemma ino_unlock_lock:
  assumes r: "ino_unlock fp kind k = Ok k'" and ok: "lock_ok (io k)" and fp: "fp < NFILE"
  shows "lock_ok (io k') \<and> released kind fp (files k) (files k')"
proof -
  let ?ip = "f_data (files k fp)" and ?fl = "i_flag (inodes k (f_data (files k fp)))" and ?w = "f_flag (files k fp)"
  show ?thesis
  proof (cases "?ip = 0 \<or> kind AND ?w = 0")
    case True
    have "\<not> (bit kind b \<and> bit ?w b)" if "kind AND ?w = 0" for b using that by (metis bit_and_iff bit_0_eq bot_apply bot_bool_def)
    with True have "released kind fp (files k) (files k)" by (auto simp: released_def)
    then show ?thesis using True r ok by (auto simp: ino_unlock_def Let_def)
  next
    case False
    then obtain k1 where k1: "(if (kind AND ?w) AND FSHLOCK \<noteq> 0 then ino_unlock_sh fp ?ip ?fl k else Ok k) = Ok k1"
      "(if (kind AND ?w) AND FEXLOCK \<noteq> 0 then ino_unlock_ex fp ?ip ?fl k1 else Ok k1) = Ok k'"
      using r unfolding ino_unlock_def Let_def by auto
    have s: "lock_ok (io k1) \<and> released (kind AND FSHLOCK) fp (files k) (files k1)"
      using k1(1) ino_unlock_sh_lock [OF _ ok fp refl, of ?fl k1] False ok
      by (auto simp: flag_bits bit_simps released_def split: if_splits)
    then have d: "f_data (files k1 fp) = ?ip" "bit (f_flag (files k1 fp)) 5 = bit ?w 5" by (auto simp: released_def bit_simps)
    have "lock_ok (io k') \<and> released (kind AND FEXLOCK) fp (files k1) (files k')"
      using k1(2) ino_unlock_ex_lock [OF _ _ fp d(1), of ?fl k'] False d s
      by (auto simp: flag_bits bit_simps released_def split: if_splits)
    with s show ?thesis using False by (auto simp: released_def bit_simps)
  qed
qed

section \<open>Waiting for a lock\<close>

definition lock_at :: "nat \<Rightarrow> nat \<Rightarrow> (nat \<Rightarrow> filent) \<times> (nat \<Rightarrow> inode) \<Rightarrow> bool" where
  "lock_at fp ip x \<longleftrightarrow> lock_ok x \<and> f_data (fst x fp) = ip"

lemma lock_at_wait:
  assumes "lock_at fp ip (io k)"
  shows "lock_at fp ip (io (upd_inode ip (\<lambda>i. i\<lparr>i_flag := i_flag i OR ILWAIT\<rparr>) k))"
  using assms by (auto simp: lock_at_def lock_ok_def io_def ilock_ok_def bit_simps)

lemma lock_at_unlock:
  assumes "ino_unlock fp kind k = Ok k'" "lock_at fp ip (io k)" "fp < NFILE"
  shows "lock_at fp ip (io k')"
  using ino_unlock_lock [OF assms(1) _ assms(3)] assms(2) by (auto simp: lock_at_def released_def io_def)

text \<open>When the loops end without an error the lock can be granted.\<close>

lemma ino_lock_wait_ok:
  assumes ke: "keeps (lock_at fp ip) env procxmt" and fp: "fp < NFILE"
  shows "ino_lock_wait env procxmt n fp ip cmd k = Ok (k', e) \<Longrightarrow> lock_at fp ip (io k) \<Longrightarrow>
    lock_at fp ip (io k') \<and> (e = 0 \<longrightarrow> \<not> bit (i_flag (inodes k' ip)) 8 \<and> (cmd AND LOCK_EX \<noteq> 0 \<longrightarrow> \<not> bit (i_flag (inodes k' ip)) 7))"
proof (induction n arbitrary: k)
  case (Suc n)
  define wait where "wait = (\<lambda>priority k. bind_cres
      (tsleep env procxmt n (addr k (Sym_shlockc ip)) (priority OR PCATCH) 0 (upd_inode ip (\<lambda>i. i\<lparr>i_flag := i_flag i OR ILWAIT\<rparr>) k))
      (\<lambda>(k, e). if e \<noteq> 0 then Ok (k, e) else ino_lock_wait env procxmt n fp ip cmd k))"
  let ?C = "lock_at fp ip (io k') \<and> (e = 0 \<longrightarrow> \<not> bit (i_flag (inodes k' ip)) 8 \<and> (cmd AND LOCK_EX \<noteq> 0 \<longrightarrow> \<not> bit (i_flag (inodes k' ip)) 7))"
  have w: ?C if "wait pri k = Ok (k', e)" for pri
  proof -
    from that obtain k1 e1 where k1: "tsleep env procxmt n (addr k (Sym_shlockc ip)) (pri OR PCATCH) 0
        (upd_inode ip (\<lambda>i. i\<lparr>i_flag := i_flag i OR ILWAIT\<rparr>) k) = Ok (k1, e1)"
      "(if e1 \<noteq> 0 then Ok (k1, e1) else ino_lock_wait env procxmt n fp ip cmd k1) = Ok (k', e)"
      by (auto simp: wait_def)
    have "lock_at fp ip (io k1)" by (rule tsleep_io [OF ke k1(1) lock_at_wait [OF Suc.prems(2)]])
    then show ?thesis using k1(2) Suc.IH [of k1] by (auto split: if_splits)
  qed
  have ul: "bind_cres (ino_unlock fp kind k) (ino_lock_wait env procxmt n fp ip cmd) = Ok (k', e) \<Longrightarrow> ?C" for kind
    using Suc.IH lock_at_unlock [OF _ Suc.prems(2) fp] by auto
  show ?case
    using Suc.prems(1) w ul Suc.prems(2) unfolding ino_lock_wait.simps Let_def wait_def [symmetric]
    by (auto simp: flag_bits split: if_splits)
qed simp

lemma ino_lock_grant_ok:
  assumes at: "lock_at fp ip (io k)" and fp: "fp < NFILE" "ip \<noteq> 0"
    and free: "\<not> bit (i_flag (inodes k ip)) 8" "cmd AND LOCK_EX \<noteq> 0 \<longrightarrow> \<not> bit (i_flag (inodes k ip)) 7"
  shows "lock_ok (io (ino_lock_grant fp ip cmd k)) \<and> (cmd AND LOCK_EX \<noteq> 0 \<longrightarrow> fp \<in> holders 5 (files (ino_lock_grant fp ip cmd k)) ip)
     \<and> (cmd AND LOCK_EX = 0 \<and> cmd AND LOCK_SH \<noteq> 0 \<longrightarrow> fp \<in> holders 4 (files (ino_lock_grant fp ip cmd k)) ip)"
proof -
  let ?S = "holders 4 (files k) ip" and ?E = "holders 5 (files k) ip" and ?w = "f_flag (files k fp)"
  have ok: "lock_ok (files k, inodes k)" "f_data (files k fp) = ip" using at by (auto simp: lock_at_def io_def)
  have i: "ilock_ok ?S ?E (inodes k ip)" using lock_okD [of k ip] at fp by (simp add: lock_at_def)
  then have E: "?E = {}" using free by (simp add: ilock_ok_def)
  then have b5: "\<not> bit ?w 5" using ok(2) fp by (auto simp: holders_def)
  have b4: "bit ?w 4 \<longleftrightarrow> fp \<in> ?S" using ok(2) fp by (auto simp: holders_def)
  consider (ex) "cmd AND LOCK_EX \<noteq> 0" | (sh) "cmd AND LOCK_EX = 0" "cmd AND LOCK_SH \<noteq> 0" "fp \<notin> ?S"
    | (none) "cmd AND LOCK_EX = 0" "cmd AND LOCK_SH = 0 \<or> fp \<in> ?S" by blast
  then show ?thesis
  proof cases
    case ex
    have S: "?S = {}" using i free ex by (simp add: ilock_ok_def)
    let ?k = "ino_lock_grant fp ip cmd k"
    have k: "files ?k = (files k)(fp := (files k fp)\<lparr>f_flag := ?w OR FEXLOCK\<rparr>)"
      "inodes ?k = (inodes k)(ip := (inodes k ip)\<lparr>i_exlockc := i_exlockc (inodes k ip) + 1, i_flag := i_flag (inodes k ip) OR IEXLOCK\<rparr>)"
      using ex by (simp_all add: ino_lock_grant_def upd_file_def upd_inode_def)
    have "bit (?w OR FEXLOCK) 5" "bit (?w OR FEXLOCK) 4 = bit ?w 4" by (auto simp: bit_simps)
    then have "lock_ok (io ?k)" unfolding io_def k
      using grant_ex_ok [of "inodes k ip" fp] i S E b4 by (intro lock_ok_upd [OF ok(1) fp(1) ok(2) fp(2)]) simp
    moreover have "fp \<in> holders 5 (files ?k) ip" using ok(2) fp by (simp add: holders_def k bit_simps)
    ultimately show ?thesis using ex by simp
  next
    case sh
    let ?k = "ino_lock_grant fp ip cmd k"
    have k: "files ?k = (files k)(fp := (files k fp)\<lparr>f_flag := ?w OR FSHLOCK\<rparr>)"
      "inodes ?k = (inodes k)(ip := (inodes k ip)\<lparr>i_shlockc := i_shlockc (inodes k ip) + 1, i_flag := i_flag (inodes k ip) OR ISHLOCK\<rparr>)"
      using sh b4 by (simp_all add: ino_lock_grant_def upd_file_def upd_inode_def flag_bits)
    have "bit (?w OR FSHLOCK) 4" "bit (?w OR FSHLOCK) 5 = bit ?w 5" by (auto simp: bit_simps)
    then have "lock_ok (io ?k)" unfolding io_def k
      using grant_sh_ok [of ?S "inodes k ip" fp] i E b5 sh holders_card [of 4 "files k" ip]
      by (intro lock_ok_upd [OF ok(1) fp(1) ok(2) fp(2)]) simp
    moreover have "fp \<in> holders 4 (files ?k) ip" using ok(2) fp by (simp add: holders_def k bit_simps)
    ultimately show ?thesis using sh by simp
  next
    case none
    then have "ino_lock_grant fp ip cmd k = k" using b4 by (auto simp: ino_lock_grant_def flag_bits)
    then show ?thesis using none at by (auto simp: lock_at_def)
  qed
qed

lemma ino_lock_ok:
  assumes "ino_lock env procxmt n fp cmd k = Ok (k', e)" "lock_ok (io k)" "fp < NFILE" "keeps (lock_at fp (f_data (files k fp))) env procxmt"
  shows "lock_ok (io k') \<and> (e = 0 \<longrightarrow> (cmd AND LOCK_EX \<noteq> 0 \<longrightarrow> fp \<in> holders 5 (files k') (f_data (files k fp)))
     \<and> (cmd AND LOCK_EX = 0 \<and> cmd AND LOCK_SH \<noteq> 0 \<longrightarrow> fp \<in> holders 4 (files k') (f_data (files k fp))))"
proof -
  let ?ip = "f_data (files k fp)"
  from assms(1) obtain k1 e1 where k1: "?ip \<noteq> 0" "ino_lock_wait env procxmt n fp ?ip cmd k = Ok (k1, e1)"
    "(if e1 \<noteq> 0 then Ok (k1, e1) else Ok (ino_lock_grant fp ?ip cmd k1, 0)) = Ok (k', e)"
    by (auto simp: ino_lock_def Let_def split: if_splits)
  have "lock_at fp ?ip (io k)" using assms(2) by (simp add: lock_at_def io_def)
  note w = ino_lock_wait_ok [OF assms(4,3) k1(2) this]
  show ?thesis
  proof (cases "e1 = 0")
    case True
    then have "k' = ino_lock_grant fp ?ip cmd k1" "e = 0" using k1(3) by auto
    then show ?thesis using ino_lock_grant_ok [of fp ?ip k1 cmd] w assms(3) k1(1) True by auto
  next
    case False
    then have "k' = k1" "e = e1" using k1(3) by auto
    then show ?thesis using w False by (simp add: lock_at_def)
  qed
qed

section \<open>flock\<close>

lemma how_bits:
  fixes w :: "32 word"
  shows "w AND LOCK_EX = 0 \<longleftrightarrow> \<not> bit w 1" "w AND LOCK_SH = 0 \<longleftrightarrow> \<not> bit w 0" "w AND LOCK_NB = 0 \<longleftrightarrow> \<not> bit w 2"
    "w AND LOCK_UN = 0 \<longleftrightarrow> \<not> bit w 3"
  using and_exp_eq_0_iff_not_bit [of w 1] and_exp_eq_0_iff_not_bit [of w 0] and_exp_eq_0_iff_not_bit [of w 2]
    and_exp_eq_0_iff_not_bit [of w 3] by simp_all

lemma how_ex: "(how AND NOT LOCK_SH) AND w = how AND w" if "\<not> bit w 0" for how w :: "32 word"
proof (rule bit_word_eqI)
  fix n assume "n < LENGTH(32)"
  then show "bit ((how AND NOT LOCK_SH) AND w) n = bit (how AND w) n"
    using that by (cases "n = 0") (auto simp: bit_simps)
qed

lemma how_none: "how AND (LOCK_SH OR LOCK_EX) = 0 \<longleftrightarrow> \<not> bit how 0 \<and> \<not> bit how 1" for how :: "32 word"
proof -
  have "how AND (LOCK_SH OR LOCK_EX) = (how AND LOCK_SH) OR (how AND LOCK_EX)"
    by (rule bit.conj_disj_distrib)
  then show ?thesis using how_bits(1,2) [of how] by (simp only: or_eq_0_iff)
qed

lemma lock_ok_excl:
  assumes "lock_ok (io k)" "ip \<noteq> 0" "f \<in> holders 5 (files k) ip" "g \<in> holders 4 (files k) ip \<union> holders 5 (files k) ip"
  shows "g = f"
proof -
  from lock_okD [OF assms(1,2)] assms(3) have "holders 4 (files k) ip = {}" "card (holders 5 (files k) ip) = 1"
    by (auto simp: ilock_ok_def card_gt_0_iff order_le_less)
  moreover obtain x where "holders 5 (files k) ip = {x}" using card_1_singletonE [OF calculation(2)] .
  ultimately show ?thesis using assms(3,4) by auto
qed

text \<open>Without waiting the loops end after at most two turns.\<close>

lemma released_holders:
  assumes "released kind fp fs fs'" "b = 4 \<or> b = 5" "fp < NFILE" "f_data (fs fp) = ip" "ip \<noteq> 0"
  shows "holders b fs' ip = (if bit kind b then holders b fs ip - {fp} else holders b fs ip)"
proof (rule set_eqI)
  fix f show "f \<in> holders b fs' ip \<longleftrightarrow> f \<in> (if bit kind b then holders b fs ip - {fp} else holders b fs ip)"
    using assms by (cases "f = fp") (auto simp: holders_def released_def)
qed

definition conflict :: "nat \<Rightarrow> 32 word \<Rightarrow> nat \<Rightarrow> (nat \<Rightarrow> filent) \<Rightarrow> bool" where
  "conflict fp cmd ip fs \<longleftrightarrow> (\<exists>g. g \<noteq> fp \<and> (g \<in> holders 5 fs ip \<or> cmd AND LOCK_EX \<noteq> 0 \<and> g \<in> holders 4 fs ip))"

lemma ino_lock_wait_nb:
  assumes w: "wake_ok k" and ok: "lock_ok (io k)" and fp: "fp < NFILE" "f_data (files k fp) = ip" "ip \<noteq> 0" and nb: "cmd AND LOCK_NB \<noteq> 0"
  shows "\<exists>k'. ino_lock_wait env procxmt (Suc (Suc n)) fp ip cmd k = Ok (k', if conflict fp cmd ip (files k) then EWOULDBLOCK else 0)
     \<and> lock_at fp ip (io k') \<and> (conflict fp cmd ip (files k) \<longrightarrow> fp \<notin> holders 5 (files k') ip \<and> (cmd AND LOCK_EX \<noteq> 0 \<longrightarrow> fp \<notin> holders 4 (files k') ip))
     \<and> (\<not> conflict fp cmd ip (files k) \<longrightarrow> \<not> bit (i_flag (inodes k' ip)) 8 \<and> (cmd AND LOCK_EX \<noteq> 0 \<longrightarrow> \<not> bit (i_flag (inodes k' ip)) 7))"
proof -
  let ?S = "\<lambda>k. holders 4 (files k) ip" and ?E = "\<lambda>k. holders 5 (files k) ip"
  have fl: "bit (i_flag (inodes j ip)) 7 \<longleftrightarrow> ?S j \<noteq> {}" "bit (i_flag (inodes j ip)) 8 \<longleftrightarrow> ?E j \<noteq> {}" "?E j \<noteq> {} \<longrightarrow> ?S j = {}"
    if "lock_ok (io j)" for j using lock_okD [OF that fp(3)] by (auto simp: ilock_ok_def)
  have mem: "bit (f_flag (files k fp)) 5 \<longleftrightarrow> fp \<in> ?E k" "bit (f_flag (files k fp)) 4 \<longleftrightarrow> fp \<in> ?S k" using fp by (auto simp: holders_def)
  have un: "\<exists>k1. ino_unlock fp kind k = Ok k1 \<and> lock_at fp ip (io k1) \<and> released kind fp (files k) (files k1)" for kind
    using ino_unlock_quiet [OF w, of fp kind] ino_unlock_lock [OF _ ok fp(1), of kind] fp(2) by (auto simp: lock_at_def released_def io_def)
  have at: "lock_at fp ip (io k)" using ok fp by (simp add: lock_at_def io_def)
  have ex: "?E k = {fp}" if "fp \<in> ?E k" using lock_ok_excl [OF ok fp(3) that] that by auto
  consider (a) "fp \<in> ?E k" | (b) "?E k \<noteq> {}" "fp \<notin> ?E k"
    | (c) "?E k = {}" "cmd AND LOCK_EX \<noteq> 0" "fp \<in> ?S k" | (d) "?E k = {}" "cmd AND LOCK_EX \<noteq> 0" "?S k \<noteq> {}" "fp \<notin> ?S k"
    | (e) "?E k = {}" "cmd AND LOCK_EX = 0 \<or> ?S k = {}" by blast
  then show ?thesis
  proof cases
    case a
    from un [of FEXLOCK] obtain k1 where k1: "ino_unlock fp FEXLOCK k = Ok k1" "lock_at fp ip (io k1)" "released FEXLOCK fp (files k) (files k1)" by blast
    have z: "?E k1 = {}" "?S k1 = {}"
      using released_holders [OF k1(3) _ fp, of 5] released_holders [OF k1(3) _ fp, of 4] ex [OF a] fl(3) [OF ok] by auto
    then have "\<not> bit (i_flag (inodes k1 ip)) 8" "\<not> bit (i_flag (inodes k1 ip)) 7" using fl [of k1] k1(2) by (auto simp: lock_at_def)
    moreover have "\<not> conflict fp cmd ip (files k)" using ex [OF a] fl(3) [OF ok] by (auto simp: conflict_def)
    ultimately show ?thesis using a k1 mem fl(2) [OF ok] by (auto simp: flag_bits)
  next
    case b
    then have "conflict fp cmd ip (files k)" by (auto simp: conflict_def)
    then show ?thesis using b nb mem fl [OF ok] at by (auto simp: flag_bits)
  next
    case c
    from un [of FSHLOCK] obtain k1 where k1: "ino_unlock fp FSHLOCK k = Ok k1" "lock_at fp ip (io k1)" "released FSHLOCK fp (files k) (files k1)" by blast
    have z: "?E k1 = {}" "?S k1 = ?S k - {fp}"
      using released_holders [OF k1(3) _ fp, of 5] released_holders [OF k1(3) _ fp, of 4] c by auto
    then have f1: "\<not> bit (i_flag (inodes k1 ip)) 8" "bit (i_flag (inodes k1 ip)) 7 \<longleftrightarrow> ?S k - {fp} \<noteq> {}"
      "\<not> bit (f_flag (files k1 fp)) 4"
      using fl [of k1] k1(2) fp by (auto simp: lock_at_def holders_def io_def)
    have "conflict fp cmd ip (files k) \<longleftrightarrow> ?S k - {fp} \<noteq> {}" using c by (auto simp: conflict_def)
    then show ?thesis using c k1 f1 z nb mem fl [OF ok] by (auto simp: flag_bits)
  next
    case d
    then have "conflict fp cmd ip (files k)" by (auto simp: conflict_def)
    then show ?thesis using d nb mem fl [OF ok] at by (auto simp: flag_bits)
  next
    case e
    then have "\<not> conflict fp cmd ip (files k)" by (auto simp: conflict_def)
    then show ?thesis using e mem fl [OF ok] at by (auto simp: flag_bits)
  qed
qed

text \<open>The cases of \<open>flock\<close> on an open inode; \<open>flock_cmd\<close> is the operation with the shared bit dropped from an exclusive request.\<close>

definition flock_cmd :: "32 word \<Rightarrow> 32 word" where
  "flock_cmd how = (if how AND LOCK_EX \<noteq> 0 then how AND NOT LOCK_SH else how)"

lemma flock_cmd_bits:
  "flock_cmd how AND LOCK_EX = how AND LOCK_EX" "flock_cmd how AND LOCK_NB = how AND LOCK_NB"
  "how AND LOCK_EX = 0 \<Longrightarrow> flock_cmd how = how" "how AND LOCK_EX \<noteq> 0 \<Longrightarrow> flock_cmd how AND LOCK_SH = 0"
  using how_ex [of LOCK_EX how] how_ex [of LOCK_NB how] by (simp_all add: flock_cmd_def how_bits bit_simps)

lemma flock_eq:
  assumes "getf fd k = (k, Some fp)" "f_type (files k fp) = DTYPE_INODE"
  shows "flock env procxmt n fd how k =
    (if how AND LOCK_UN \<noteq> 0 then ino_unlock fp (FSHLOCK OR FEXLOCK) k
     else if how AND (LOCK_SH OR LOCK_EX) = 0 then Ok k
     else if f_flag (files k fp) AND FEXLOCK \<noteq> 0 \<and> flock_cmd how AND LOCK_EX \<noteq> 0 then Ok k
     else if f_flag (files k fp) AND FSHLOCK \<noteq> 0 \<and> flock_cmd how AND LOCK_SH \<noteq> 0 then Ok k
     else bind_cres (ino_lock env procxmt n fp (flock_cmd how) k) (\<lambda>(k, e). Ok (set_error e k)))"
  unfolding flock_def Let_def flock_cmd_def by (simp only: assms prod.case option.case simp_thms if_False)

lemma flock_nb_spec:
  assumes w: "wake_ok k" and ok: "lock_ok (io k)"
    and fd: "getf fd k = (k, Some fp)" "fp < NFILE" "f_type (files k fp) = DTYPE_INODE" "f_data (files k fp) = ip" "ip \<noteq> 0"
    and how: "how AND LOCK_NB \<noteq> 0" "how AND LOCK_UN = 0" "how AND (LOCK_SH OR LOCK_EX) \<noteq> 0"
  shows "\<exists>k'. flock env procxmt (Suc (Suc n)) fd how k = Ok k' \<and> lock_ok (io k')
     \<and> (if conflict fp how ip (files k)
        then u_error (u k') = EWOULDBLOCK \<and> fp \<notin> holders 5 (files k') ip \<and> (how AND LOCK_EX \<noteq> 0 \<longrightarrow> fp \<notin> holders 4 (files k') ip)
        else fp \<in> holders (if how AND LOCK_EX \<noteq> 0 then 5 else 4) (files k') ip
          \<and> u_error (u k') = (if fp \<in> holders (if how AND LOCK_EX \<noteq> 0 then 5 else 4) (files k) ip then u_error (u k) else 0))"
proof -
  let ?H = "flock_cmd how" and ?w = "f_flag (files k fp)"
  have mem: "?w AND FEXLOCK \<noteq> 0 \<longleftrightarrow> fp \<in> holders 5 (files k) ip" "?w AND FSHLOCK \<noteq> 0 \<longleftrightarrow> fp \<in> holders 4 (files k) ip"
    using fd by (auto simp: holders_def flag_bits)
  have c: "conflict fp ?H ip (files k) = conflict fp how ip (files k)" by (simp add: conflict_def flock_cmd_bits)
  have sh: "how AND LOCK_EX = 0 \<Longrightarrow> ?H AND LOCK_SH \<noteq> 0" using how(3) how_none [of how] flock_cmd_bits(3) [of how] by (simp add: how_bits)
  consider (ex) "fp \<in> holders 5 (files k) ip" "how AND LOCK_EX \<noteq> 0" | (sh) "fp \<in> holders 4 (files k) ip" "how AND LOCK_EX = 0"
    | (lock) "\<not> (?w AND FEXLOCK \<noteq> 0 \<and> ?H AND LOCK_EX \<noteq> 0)" "\<not> (?w AND FSHLOCK \<noteq> 0 \<and> ?H AND LOCK_SH \<noteq> 0)"
    using flock_cmd_bits(4) [of how] unfolding mem flock_cmd_bits(1) by blast
  then show ?thesis
  proof cases
    case ex
    then have "\<not> conflict fp how ip (files k)" using lock_ok_excl [OF ok fd(5) ex(1)] by (auto simp: conflict_def)
    then show ?thesis using ex ok how mem unfolding flock_eq [OF fd(1,3)] by (simp add: flock_cmd_bits)
  next
    case sh
    have "\<not> conflict fp how ip (files k)" using lock_okD [OF ok fd(5)] sh by (auto simp: conflict_def ilock_ok_def)
    then show ?thesis using sh \<open>how AND LOCK_EX = 0 \<Longrightarrow> ?H AND LOCK_SH \<noteq> 0\<close> ok how mem unfolding flock_eq [OF fd(1,3)] by simp
  next
    case lock
    have nb: "?H AND LOCK_NB \<noteq> 0" using how(1) by (simp add: flock_cmd_bits)
    from ino_lock_wait_nb [OF w ok fd(2,4,5) nb, of env procxmt n, unfolded c flock_cmd_bits(1)] obtain k1 where
      k1: "ino_lock_wait env procxmt (Suc (Suc n)) fp ip ?H k = Ok (k1, if conflict fp how ip (files k) then EWOULDBLOCK else 0)"
        "lock_at fp ip (io k1)"
        "conflict fp how ip (files k) \<longrightarrow> fp \<notin> holders 5 (files k1) ip \<and> (how AND LOCK_EX \<noteq> 0 \<longrightarrow> fp \<notin> holders 4 (files k1) ip)"
        "\<not> conflict fp how ip (files k) \<longrightarrow> \<not> bit (i_flag (inodes k1 ip)) 8 \<and> (how AND LOCK_EX \<noteq> 0 \<longrightarrow> \<not> bit (i_flag (inodes k1 ip)) 7)"
      by blast
    have fl: "flock env procxmt (Suc (Suc n)) fd how k =
        bind_cres (ino_lock env procxmt (Suc (Suc n)) fp ?H k) (\<lambda>(k, e). Ok (set_error e k))"
      using how(2,3) lock unfolding flock_eq [OF fd(1,3)] by (simp only: if_False simp_thms)
    show ?thesis
    proof (cases "conflict fp how ip (files k)")
      case True
      then have "flock env procxmt (Suc (Suc n)) fd how k = Ok (set_error EWOULDBLOCK k1)"
        unfolding fl ino_lock_def Let_def fd(4) k1(1) using fd(5) by simp
      then show ?thesis using True k1(2,3) by (simp add: lock_at_def)
    next
      case False
      then have "flock env procxmt (Suc (Suc n)) fd how k = Ok (set_error 0 (ino_lock_grant fp ip ?H k1))"
        unfolding fl ino_lock_def Let_def fd(4) k1(1) using fd(5) by simp
      moreover have "lock_ok (io (ino_lock_grant fp ip ?H k1)) \<and> fp \<in> holders (if how AND LOCK_EX \<noteq> 0 then 5 else 4) (files (ino_lock_grant fp ip ?H k1)) ip"
        using ino_lock_grant_ok [OF k1(2) fd(2,5), of ?H] k1(4) False \<open>how AND LOCK_EX = 0 \<Longrightarrow> ?H AND LOCK_SH \<noteq> 0\<close>
        unfolding flock_cmd_bits(1) by auto
      moreover have "fp \<notin> holders (if how AND LOCK_EX \<noteq> 0 then 5 else 4) (files k) ip"
        using lock \<open>how AND LOCK_EX = 0 \<Longrightarrow> ?H AND LOCK_SH \<noteq> 0\<close> unfolding mem flock_cmd_bits(1) by auto
      ultimately show ?thesis using False by simp
    qed
  qed
qed

text \<open>
  C36. Advisory locks exclude each other, whatever other processes do to them while a caller waits, as long as those keep to the same
  discipline: whenever \<open>flock\<close> returns, a file with an exclusive lock is the only one with a lock on its inode, and the counts and
  flags in the inode agree with the lock flags of the files. If it returns without an error, the file has
  the lock that was asked for, or none after an unlock.
\<close>

theorem flock_excludes:
  assumes ok: "lock_ok (io k)" and fd: "getf fd k = (k, Some fp)" "fp < NFILE" "f_type (files k fp) = DTYPE_INODE" "f_data (files k fp) = ip" "ip \<noteq> 0"
    and ke: "keeps (lock_at fp ip) env procxmt" and r: "flock env procxmt n fd how k = Ok k'"
  shows "lock_ok (io k')
     \<and> (\<forall>jp f g. jp \<noteq> 0 \<longrightarrow> f \<in> holders 5 (files k') jp \<longrightarrow> g \<in> holders 4 (files k') jp \<union> holders 5 (files k') jp \<longrightarrow> g = f)
     \<and> (how AND LOCK_UN \<noteq> 0 \<longrightarrow> fp \<notin> holders 4 (files k') ip \<union> holders 5 (files k') ip)
     \<and> (how AND LOCK_UN = 0 \<and> u_error (u k') = 0 \<longrightarrow> (how AND LOCK_EX \<noteq> 0 \<longrightarrow> fp \<in> holders 5 (files k') ip)
          \<and> (how AND LOCK_EX = 0 \<and> how AND LOCK_SH \<noteq> 0 \<longrightarrow> fp \<in> holders 4 (files k') ip))"
proof -
  let ?H = "flock_cmd how" and ?w = "f_flag (files k fp)"
  note h = flock_cmd_bits(1) [of how] and h' = flock_cmd_bits(3,4) [of how]
  have hold: "bit ?w 5 \<Longrightarrow> fp \<in> holders 5 (files k) ip" "bit ?w 4 \<Longrightarrow> fp \<in> holders 4 (files k) ip" using fd by (auto simp: holders_def)
  from r [unfolded flock_eq [OF fd(1,3)]] consider (un) "how AND LOCK_UN \<noteq> 0" "ino_unlock fp (FSHLOCK OR FEXLOCK) k = Ok k'"
    | (none) "how AND LOCK_UN = 0" "how AND (LOCK_SH OR LOCK_EX) = 0" "k' = k"
    | (held) "how AND LOCK_UN = 0" "?w AND FEXLOCK \<noteq> 0 \<and> ?H AND LOCK_EX \<noteq> 0 \<or> ?w AND FSHLOCK \<noteq> 0 \<and> ?H AND LOCK_SH \<noteq> 0" "k' = k"
    | (lock) k1 e where "how AND LOCK_UN = 0" "ino_lock env procxmt n fp ?H k = Ok (k1, e)" "k' = set_error e k1"
    by (auto split: if_splits)
  then have "lock_ok (io k') \<and> (how AND LOCK_UN \<noteq> 0 \<longrightarrow> fp \<notin> holders 4 (files k') ip \<union> holders 5 (files k') ip)
     \<and> (how AND LOCK_UN = 0 \<and> u_error (u k') = 0 \<longrightarrow> (how AND LOCK_EX \<noteq> 0 \<longrightarrow> fp \<in> holders 5 (files k') ip)
          \<and> (how AND LOCK_EX = 0 \<and> how AND LOCK_SH \<noteq> 0 \<longrightarrow> fp \<in> holders 4 (files k') ip))"
  proof cases
    case un
    have "bit (FSHLOCK OR FEXLOCK) 4" "bit (FSHLOCK OR FEXLOCK) 5" by (simp_all add: bit_simps)
    with ino_unlock_lock [OF un(2) ok fd(2)] un fd show ?thesis by (auto simp: released_def holders_def)
  next
    case none
    then show ?thesis using ok how_none [of how] by (simp add: how_bits)
  next
    case held
    then show ?thesis using ok hold h h' by (auto simp: flag_bits)
  next
    case lock
    from ino_lock_ok [OF lock(2) ok fd(2)] ke fd(4) have "lock_ok (io k1) \<and> (e = 0 \<longrightarrow> (how AND LOCK_EX \<noteq> 0 \<longrightarrow> fp \<in> holders 5 (files k1) ip)
      \<and> (how AND LOCK_EX = 0 \<and> ?H AND LOCK_SH \<noteq> 0 \<longrightarrow> fp \<in> holders 4 (files k1) ip))" unfolding h by simp
    then show ?thesis using lock h'(1) by auto
  qed
  with lock_ok_excl [of k'] show ?thesis by blast
qed

text \<open>A state for examples: files 1 and 2 are open on inode 5, file 2 with a shared lock.\<close>

definition flock_example :: kern where
  "flock_example = undefined\<lparr>u := undefined\<lparr>u_ofile := (\<lambda>fd. if fd = 0 then Some 1 else None), u_error := 0\<rparr>,
     procs := (\<lambda>_. undefined\<lparr>p_wchan := 0, p_stat := SSLEEP\<rparr>), addr := (\<lambda>_. 1), slpque := (\<lambda>_. []), qs := [],
     files := (\<lambda>f. \<lparr>f_flag = (if f = 2 then FSHLOCK else 0), f_type = DTYPE_INODE, f_count = 1, f_data = (if f = 1 \<or> f = 2 then 5 else 0), f_offset = 0\<rparr>),
     inodes := (\<lambda>i. undefined\<lparr>i_flag := (if i = 5 then ISHLOCK else 0), i_shlockc := (if i = 5 then 1 else 0), i_exlockc := 0\<rparr>)\<rparr>"

lemma flock_example_ok:
  "wake_ok flock_example" "lock_ok (io flock_example)" "getf 0 flock_example = (flock_example, Some 1)"
  "f_type (files flock_example 1) = DTYPE_INODE" "f_data (files flock_example 1) = 5"
  "holders 4 (files flock_example) ip = (if ip = 5 then {2} else {})" "holders 5 (files flock_example) ip = {}"
proof -
  show h: "holders 4 (files flock_example) ip = (if ip = 5 then {2} else {})" "holders 5 (files flock_example) ip = {}" for ip
    by (auto simp: holders_def flock_example_def split: if_splits)
  show "lock_ok (io flock_example)" unfolding lock_ok_def io_def prod.case h by (auto simp: ilock_ok_def flock_example_def)
  show "wake_ok flock_example" by (simp add: wake_ok_def flock_example_def sched_inv_def slp_ok_def run_ok_def)
qed (simp_all add: getf_def flock_example_def)

theorem flock_excludes_witness:
  "\<exists>k'. flock (\<lambda>_ j. j) (\<lambda>j. (j, True)) 2 0 5 flock_example = Ok k' \<and> 1 \<in> holders 4 (files k') 5 \<and> lock_ok (io k')"
proof -
  note ex = flock_example_ok
  have "\<not> conflict 1 5 5 (files flock_example)" by (simp add: conflict_def ex)
  with flock_nb_spec [OF ex(1-3) _ ex(4,5), of 5 "\<lambda>_ j. j" "\<lambda>j. (j, True)" 0] obtain k' where
    k': "flock (\<lambda>_ j. j) (\<lambda>j. (j, True)) (Suc (Suc 0)) 0 5 flock_example = Ok k'" by auto
  have ke: "keeps (lock_at 1 5) (\<lambda>_ j. j) (\<lambda>j. (j, True))" by (simp add: keeps_def)
  from flock_excludes [OF ex(2,3) _ ex(4,5) _ ke k'] have
    "lock_ok (io k')" "u_error (u k') = 0 \<longrightarrow> 1 \<in> holders 4 (files k') 5" by auto
  moreover have "u_error (u k') = 0"
    using k' [unfolded flock_eq [OF ex(3,4)]]
    by (auto simp: flock_cmd_def ino_lock_def Let_def flock_example_def split: if_splits prod.splits)
  ultimately show ?thesis using k' by (auto simp: numeral_2_eq_2)
qed

text \<open>
  C37. A request that must not block always returns, after at most two turns of the waiting loop. It fails with \<open>EWOULDBLOCK\<close> exactly
  when another file has an exclusive lock on the inode, or any lock when an exclusive lock is asked for; then the file has no
  exclusive lock, and after a failed exclusive request it has lost a shared lock it had. Otherwise it has the lock, and the error
  is 0, or what it was before the call when the file had the lock already and nothing is done: a system call starts with 0.
\<close>

theorem flock_nonblocking:
  assumes "wake_ok k" "lock_ok (io k)" "getf fd k = (k, Some fp)" "fp < NFILE" "f_type (files k fp) = DTYPE_INODE"
    "f_data (files k fp) = ip" "ip \<noteq> 0" "how AND LOCK_NB \<noteq> 0" "how AND LOCK_UN = 0" "how AND (LOCK_SH OR LOCK_EX) \<noteq> 0"
  shows "\<exists>k'. flock env procxmt (Suc (Suc n)) fd how k = Ok k' \<and> lock_ok (io k')
     \<and> (if \<exists>g. g \<noteq> fp \<and> (g \<in> holders 5 (files k) ip \<or> how AND LOCK_EX \<noteq> 0 \<and> g \<in> holders 4 (files k) ip)
        then u_error (u k') = EWOULDBLOCK \<and> fp \<notin> holders 5 (files k') ip \<and> (how AND LOCK_EX \<noteq> 0 \<longrightarrow> fp \<notin> holders 4 (files k') ip)
        else fp \<in> holders (if how AND LOCK_EX \<noteq> 0 then 5 else 4) (files k') ip
          \<and> u_error (u k') = (if fp \<in> holders (if how AND LOCK_EX \<noteq> 0 then 5 else 4) (files k) ip then u_error (u k) else 0))"
  using flock_nb_spec [OF assms, of env procxmt n] unfolding conflict_def .

theorem flock_nonblocking_witness:
  "(\<exists>k'. flock (\<lambda>_ j. j) (\<lambda>j. (j, True)) (Suc (Suc 0)) 0 6 flock_example = Ok k' \<and> u_error (u k') = EWOULDBLOCK)
   \<and> (\<exists>k'. flock (\<lambda>_ j. j) (\<lambda>j. (j, True)) (Suc (Suc 0)) 0 5 flock_example = Ok k' \<and> u_error (u k') = 0 \<and> 1 \<in> holders 4 (files k') 5)"
proof -
  note ex = flock_example_ok
  have "\<exists>g. g \<noteq> 1 \<and> (g \<in> holders 5 (files flock_example) 5 \<or> (6 :: 32 word) AND LOCK_EX \<noteq> 0 \<and> g \<in> holders 4 (files flock_example) 5)"
    unfolding ex by (intro exI [of _ 2]) simp
  with flock_nonblocking [OF ex(1-3) _ ex(4,5), of 6 "\<lambda>_ j. j" "\<lambda>j. (j, True)" 0]
  have "\<exists>k'. flock (\<lambda>_ j. j) (\<lambda>j. (j, True)) (Suc (Suc 0)) 0 6 flock_example = Ok k' \<and> u_error (u k') = EWOULDBLOCK" by auto
  moreover have "\<not> (\<exists>g. g \<noteq> 1 \<and> (g \<in> holders 5 (files flock_example) 5 \<or> (5 :: 32 word) AND LOCK_EX \<noteq> 0 \<and> g \<in> holders 4 (files flock_example) 5))"
    unfolding ex by simp
  with flock_nonblocking [OF ex(1-3) _ ex(4,5), of 5 "\<lambda>_ j. j" "\<lambda>j. (j, True)" 0]
  have "\<exists>k'. flock (\<lambda>_ j. j) (\<lambda>j. (j, True)) (Suc (Suc 0)) 0 5 flock_example = Ok k' \<and> u_error (u k') = 0 \<and> 1 \<in> holders 4 (files k') 5"
    by (auto simp: ex)
  ultimately show ?thesis by blast
qed

end
