(* ===== verification/Uio.thy ===== *)
theory Uio
  imports Descrip
begin

text \<open>
  Moving data between kernel and user: \<^verbatim>\<open>sys/kern/kern_subr.c\<close>, the read and write system calls of \<^verbatim>\<open>sys/kern/sys_generic.c\<close>, and the
  global memory area of \<^verbatim>\<open>sys/kern/kern_glob.c\<close>. The pointer \<open>uio_iov\<close> into an array of vectors is the list of the
  vectors from it on; reading beyond the last is \<open>Stuck\<close>. Kernel memory is a function from addresses to bytes.
\<close>

datatype uio_dir = UIO_READ | UIO_WRITE

record iovec =
  iov_base :: nat
  iov_len :: nat

record uio =
  uio_iov :: "iovec list"
  uio_iovcnt :: int
  uio_offset :: int
  uio_resid :: nat
  uio_rw :: uio_dir

type_synonym mem = "nat \<Rightarrow> 8 word"

text \<open>\<^verbatim>\<open>bcopy(from, to, n)\<close> from one memory to another.\<close>

definition bcopy :: "mem \<Rightarrow> nat \<Rightarrow> mem \<Rightarrow> nat \<Rightarrow> nat \<Rightarrow> mem" where
  "bcopy src from dst to n = (\<lambda>a. if to \<le> a \<and> a < to + n then src (from + (a - to)) else dst a)"

text \<open>\<open>uio_resid\<close> and \<open>uio_offset\<close> are 32 bits wide, the offset signed.\<close>

definition sub32 :: "nat \<Rightarrow> nat \<Rightarrow> nat" where
  "sub32 a b = (a + (2 ^ 32 - b mod 2 ^ 32)) mod 2 ^ 32"

function uiomove :: "nat \<Rightarrow> nat \<Rightarrow> mem \<Rightarrow> mem \<Rightarrow> uio \<Rightarrow> (mem \<times> mem \<times> uio) cres" where
  "uiomove cp n km um uio =
     (if n = 0 \<or> uio_resid uio = 0 then Ok (km, um, uio)
      else case uio_iov uio of
        [] \<Rightarrow> Stuck
      | iov # rest \<Rightarrow>
          if iov_len iov = 0 then uiomove cp n km um (uio\<lparr>uio_iov := rest, uio_iovcnt := uio_iovcnt uio - 1\<rparr>)
          else
            let cnt = (if iov_len iov > n then n else iov_len iov);
                (km, um) = (if uio_rw uio = UIO_READ then (km, bcopy km cp um (iov_base iov) cnt)
                                else (bcopy um (iov_base iov) km cp cnt, um));
                uio = uio\<lparr>uio_iov := iov\<lparr>iov_base := iov_base iov + cnt, iov_len := iov_len iov - cnt\<rparr> # rest,
                          uio_resid := sub32 (uio_resid uio) cnt, uio_offset := long (uio_offset uio + int cnt)\<rparr>
            in uiomove (cp + cnt) (n - cnt) km um uio)"
  by pat_completeness auto
termination
  by (relation "measure (\<lambda>(cp, n, km, um, uio). n + length (uio_iov uio))") (auto split: if_splits)

declare uiomove.simps [simp del]

text \<open>The next character to the user; the loop \<open>again\<close> runs over the vectors.\<close>

fun ureadc_next :: "iovec list \<Rightarrow> uio \<Rightarrow> (iovec \<times> iovec list \<times> uio) cres" where
  "ureadc_next iovs uio =
     (if uio_iovcnt uio = 0 then Panic ''ureadc''
      else case iovs of
        [] \<Rightarrow> Stuck
      | iov # rest \<Rightarrow>
          if iov_len iov = 0 \<or> uio_resid uio = 0 then ureadc_next rest (uio\<lparr>uio_iovcnt := uio_iovcnt uio - 1\<rparr>)
          else Ok (iov, rest, uio))"

declare ureadc_next.simps [simp del]

definition ureadc :: "8 word \<Rightarrow> mem \<Rightarrow> uio \<Rightarrow> (mem \<times> uio) cres" where
  "ureadc c um uio =
     bind_cres (ureadc_next (uio_iov uio) uio) (\<lambda>(iov, rest, uio).
       Ok (um(iov_base iov := c),
           uio\<lparr>uio_iov := iov\<lparr>iov_base := iov_base iov + 1, iov_len := iov_len iov - 1\<rparr> # rest,
               uio_resid := sub32 (uio_resid uio) 1, uio_offset := long (uio_offset uio + 1)\<rparr>))"

text \<open>The next character from the user; \<open>None\<close> is the result -1.\<close>

fun uwritec_next :: "iovec list \<Rightarrow> uio \<Rightarrow> ((iovec \<times> iovec list) option \<times> uio) cres" where
  "uwritec_next iovs uio =
     (if uio_iovcnt uio \<le> 0 then Panic ''uwritec''
      else case iovs of
        [] \<Rightarrow> Stuck
      | iov # rest \<Rightarrow>
          if iov_len iov = 0 then
            (let uio = uio\<lparr>uio_iov := rest, uio_iovcnt := uio_iovcnt uio - 1\<rparr>
             in if uio_iovcnt uio = 0 then Ok (None, uio) else uwritec_next rest uio)
          else Ok (Some (iov, rest), uio))"

declare uwritec_next.simps [simp del]

definition uwritec :: "mem \<Rightarrow> uio \<Rightarrow> (8 word option \<times> uio) cres" where
  "uwritec um uio =
     (if uio_resid uio = 0 then Ok (None, uio)
      else bind_cres (uwritec_next (uio_iov uio) uio) (\<lambda>(r, uio). case r of
        None \<Rightarrow> Ok (None, uio)
      | Some (iov, rest) \<Rightarrow>
          Ok (Some (um (iov_base iov)),
              uio\<lparr>uio_iov := iov\<lparr>iov_base := iov_base iov + 1, iov_len := iov_len iov - 1\<rparr> # rest,
                  uio_resid := sub32 (uio_resid uio) 1, uio_offset := long (uio_offset uio + 1)\<rparr>)))"

definition uiofmove :: "nat \<Rightarrow> nat \<Rightarrow> mem \<Rightarrow> mem \<Rightarrow> uio \<Rightarrow> iovec \<Rightarrow> mem \<times> mem" where
  "uiofmove cp n km um uio iov =
     (if uio_rw uio = UIO_READ then (km, bcopy km cp um (iov_base iov) n)
      else (bcopy um (iov_base iov) km cp n, um))"

section \<open>Read and write\<close>

text \<open>
  The file type's routine either returns an error number or is interrupted by a signal, in which case \<open>sleep\<close> jumps back
  with \<open>u_error\<close> set.
\<close>

datatype rw_outcome = Returned int | Interrupted

type_synonym fo_rw = "int \<Rightarrow> nat \<Rightarrow> uio \<Rightarrow> kern \<Rightarrow> (kern \<times> uio \<times> rw_outcome) cres"

text \<open>The sum of the lengths, in 32 bits.\<close>

definition iov_total :: "iovec list \<Rightarrow> nat" where
  "iov_total iovs = sum_list (map iov_len iovs) mod 2 ^ 32"

definition rwuio :: "fo_rw \<Rightarrow> int \<Rightarrow> uio \<Rightarrow> kern \<Rightarrow> kern cres" where
  "rwuio fo_rw fdes uio k =
     (case getf fdes k of
        (k, None) \<Rightarrow> Ok k
      | (k, Some fp) \<Rightarrow>
          if f_flag (files k fp) AND (if uio_rw uio = UIO_READ then FREAD else FWRITE) = 0 then Ok (set_error EBADF k)
          else
            let total = iov_total (take (nat (uio_iovcnt uio)) (uio_iov uio)); uio = uio\<lparr>uio_resid := total\<rparr>
            in if uio_resid uio \<noteq> total then Ok (set_error EINVAL k)
               else
                 let count = uio_resid uio
                 in bind_cres (fo_rw (f_type (files k fp)) fp uio k) (\<lambda>(k, uio, out).
                      case out of
                        Interrupted \<Rightarrow>
                          (if uio_resid uio = count then Ok k
                           else Ok (set_rval (int (sub32 count (uio_resid uio))) (set_error 0 k)))
                      | Returned e \<Rightarrow> Ok (set_rval (int (sub32 count (uio_resid uio))) (set_error e k))))"

text \<open>The offset of the new \<open>uio\<close> is set by the file type's routine; \<open>off0\<close> is what the stack held.\<close>

definition read :: "fo_rw \<Rightarrow> int \<Rightarrow> int \<Rightarrow> nat \<Rightarrow> nat \<Rightarrow> kern \<Rightarrow> kern cres" where
  "read fo_rw off0 fdes cbuf count k =
     rwuio fo_rw fdes \<lparr>uio_iov = [\<lparr>iov_base = cbuf, iov_len = count\<rparr>], uio_iovcnt = 1, uio_offset = off0, uio_resid = 0, uio_rw = UIO_READ\<rparr> k"

definition write_call :: "fo_rw \<Rightarrow> int \<Rightarrow> int \<Rightarrow> nat \<Rightarrow> nat \<Rightarrow> kern \<Rightarrow> kern cres" where
  "write_call fo_rw off0 fdes cbuf count k =
     rwuio fo_rw fdes \<lparr>uio_iov = [\<lparr>iov_base = cbuf, iov_len = count\<rparr>], uio_iovcnt = 1, uio_offset = off0, uio_resid = 0, uio_rw = UIO_WRITE\<rparr> k"

text \<open>A vector of vectors as it lies in user memory: base and length, two words each.\<close>

fun words_iovs :: "32 word list \<Rightarrow> iovec list" where
  "words_iovs (b # l # ws) = \<lparr>iov_base = unat b, iov_len = unat l\<rparr> # words_iovs ws"
| "words_iovs _ = []"

definition rwv :: "uio_dir \<Rightarrow> fo_rw \<Rightarrow> int \<Rightarrow> int \<Rightarrow> nat \<Rightarrow> nat \<Rightarrow> kern \<Rightarrow> kern cres" where
  "rwv dir fo_rw off0 fdes iovp iovcnt k =
     (if iovcnt > 16 then Ok (set_error EINVAL k)
      else case copyin iovp (2 * iovcnt) k of
        Inr e \<Rightarrow> Ok (set_error e k)
      | Inl ws \<Rightarrow>
          rwuio fo_rw fdes \<lparr>uio_iov = words_iovs ws, uio_iovcnt = int iovcnt, uio_offset = off0, uio_resid = 0, uio_rw = dir\<rparr>
            (set_error 0 k))"

definition readv :: "fo_rw \<Rightarrow> int \<Rightarrow> int \<Rightarrow> nat \<Rightarrow> nat \<Rightarrow> kern \<Rightarrow> kern cres" where
  "readv = rwv UIO_READ"

definition writev :: "fo_rw \<Rightarrow> int \<Rightarrow> int \<Rightarrow> nat \<Rightarrow> nat \<Rightarrow> kern \<Rightarrow> kern cres" where
  "writev = rwv UIO_WRITE"

section \<open>ioctl\<close>

definition ioctl_bad :: "32 word \<Rightarrow> nat \<Rightarrow> kern \<Rightarrow> bool" where
  "ioctl_bad com cmarg k \<longleftrightarrow> com AND 0xc0000000 \<noteq> 0
     \<and> (ubad k cmarg \<or> ubad k (last_byte cmarg (unat (drop_bit 16 (com AND NOT 0xe0000000)))))"

text \<open>
  \<open>fo_ioctl_u\<close> is the type's routine called with the user's address itself; \<open>Fops\<close> has the calls with a kernel variable
  that \<open>fset\<close>, \<open>fsetown\<close> and \<open>fgetown\<close> make.
\<close>

definition ioctl ::
  "(int \<Rightarrow> fileops) \<Rightarrow> (int \<Rightarrow> nat \<Rightarrow> 32 word \<Rightarrow> nat \<Rightarrow> kern \<Rightarrow> (kern \<times> int) cres) \<Rightarrow> int \<Rightarrow> 32 word \<Rightarrow> nat \<Rightarrow> kern \<Rightarrow> kern cres" where
  "ioctl Fops fo_ioctl_u fdes com cmarg k =
     (case getf fdes k of
        (k, None) \<Rightarrow> Ok k
      | (k, Some fp) \<Rightarrow>
          let pop = u_pofile (u k) (nat fdes); arg = word_at (umem k) cmarg;
              err = (\<lambda>r. bind_cres r (\<lambda>(k, e). Ok (set_error e k)))
          in if f_flag (files k fp) AND (FREAD OR FWRITE) = 0 then Ok (set_error EBADF k)
             else if ioctl_bad com cmarg k then Ok (set_error EFAULT k)
             else if com = 0x20006601 then Ok (k\<lparr>u := (u k)\<lparr>u_pofile := (u_pofile (u k))(nat fdes := pop OR UF_EXCLOSE)\<rparr>\<rparr>)
             else if com = 0x20006602 then Ok (k\<lparr>u := (u k)\<lparr>u_pofile := (u_pofile (u k))(nat fdes := pop AND NOT UF_EXCLOSE)\<rparr>\<rparr>)
             else if com = FIONBIO then err (fset Fops fp FNONBLOCK arg k)
             else if com = FIOASYNC then err (fset Fops fp FASYNC arg k)
             else if com = 0x8004665e then err (fsetown Fops fp (sint arg) k)
             else if com = 0x4004665d then
               bind_cres (fgetown Fops fp (sint arg) k) (\<lambda>(k, e, v).
                 Ok (set_error e (k\<lparr>umem := store_words (umem k) cmarg [word_of_int v]\<rparr>)))
             else err (fo_ioctl_u (f_type (files k fp)) fp com cmarg k))"

section \<open>The global memory area\<close>

abbreviation (input) GLOBSZ :: nat where "GLOBSZ \<equiv> 256"

text \<open>\<open>global_segment\<close> has \<open>GLOBSZ\<close> bytes; an access outside it is \<open>Stuck\<close>.\<close>

definition rdglob :: "int \<Rightarrow> 8 word list \<Rightarrow> kern \<Rightarrow> kern cres" where
  "rdglob adr global_segment k =
     (if u_uid (u k) \<noteq> 0 then Ok (set_rval (- 1) k)
      else if adr \<ge> int GLOBSZ then Ok (set_rval (- 1) k)
      else if adr < 0 then Stuck
      else Ok (set_rval (uint (global_segment ! nat adr)) k))"

definition wrglob :: "int \<Rightarrow> 8 word \<Rightarrow> 8 word list \<Rightarrow> kern \<Rightarrow> (kern \<times> 8 word list) cres" where
  "wrglob adr val global_segment k =
     (if u_uid (u k) \<noteq> 0 then Ok (set_rval (- 1) k, global_segment)
      else if adr \<ge> int GLOBSZ then Ok (set_rval (- 1) k, global_segment)
      else if adr < 0 then Stuck
      else Ok (set_rval 0 k, global_segment[nat adr := val]))"


section \<open>uiomove moves a prefix\<close>

text \<open>The user's addresses in the order in which they are used.\<close>

definition uaddrs :: "iovec list \<Rightarrow> nat list" where
  "uaddrs iovs = concat (map (\<lambda>iov. [iov_base iov..<iov_base iov + iov_len iov]) iovs)"

lemma uaddrs_Cons: "uaddrs (iov # iovs) = [iov_base iov..<iov_base iov + iov_len iov] @ uaddrs iovs"
  by (simp add: uaddrs_def)

lemma uaddrs_Nil [simp]: "uaddrs [] = []"
  by (simp add: uaddrs_def)

text \<open>A \<open>uio\<close> whose residual count is that of its vectors.\<close>

definition uio_ok :: "uio \<Rightarrow> bool" where
  "uio_ok uio \<longleftrightarrow> uio_resid uio = length (uaddrs (uio_iov uio)) \<and> uio_resid uio < 2 ^ 32"

lemma sub32_id: "b \<le> a \<Longrightarrow> a < 2 ^ 32 \<Longrightarrow> sub32 a b = a - b"
proof -
  assume a: "b \<le> a" "a < 2 ^ 32"
  then have "a + (2 ^ 32 - b mod 2 ^ 32) = (a - b) + 2 ^ 32" by simp
  then show ?thesis using a unfolding sub32_def by (simp only: mod_add_self2) simp
qed

text \<open>Bytes to a list of addresses, one after the other; bytes gathered from one.\<close>

definition scatter :: "mem \<Rightarrow> nat list \<Rightarrow> 8 word list \<Rightarrow> mem" where
  "scatter um as bs = fold (\<lambda>(a, b) m. m(a := b)) (zip as bs) um"

definition bytes :: "mem \<Rightarrow> nat \<Rightarrow> nat \<Rightarrow> 8 word list" where
  "bytes m a n = map m [a..<a + n]"

lemma length_bytes [simp]: "length (bytes m a n) = n"
  by (simp add: bytes_def)

lemma bytes_append: "bytes m a (n + l) = bytes m a n @ bytes m (a + n) l"
  using upt_split [of a "a + n" "a + (n + l)"] by (simp add: bytes_def add.assoc)

lemma scatter_append: "length as = length bs \<Longrightarrow> scatter um (as @ as') (bs @ bs') = scatter (scatter um as bs) as' bs'"
  by (simp add: scatter_def)

lemma scatter_Cons: "scatter um (a # as) (b # bs) = scatter (um(a := b)) as bs"
  by (simp add: scatter_def)

lemma bcopy_scatter: "bcopy km cp um a n = scatter um [a..<a + n] (bytes km cp n)"
proof (induction n)
  case (Suc n)
  have "scatter um [a..<a + Suc n] (bytes km cp (Suc n)) = scatter (scatter um [a..<a + n] (bytes km cp n)) [a + n] [km (cp + n)]"
    using scatter_append [of "[a..<a + n]" "bytes km cp n" um "[a + n]" "[km (cp + n)]"] by (simp add: bytes_def)
  also have "\<dots> = (bcopy km cp um a n)(a + n := km (cp + n))" unfolding Suc [symmetric] by (simp add: scatter_def)
  also have "\<dots> = bcopy km cp um a (Suc n)" by (auto simp: bcopy_def fun_eq_iff)
  finally show ?case by simp
qed (auto simp: scatter_def bcopy_def bytes_def fun_eq_iff)

text \<open>What a transfer of the first \<open>m\<close> bytes does to both memories.\<close>

definition transfer :: "uio_dir \<Rightarrow> nat \<Rightarrow> nat \<Rightarrow> nat list \<Rightarrow> mem \<Rightarrow> mem \<Rightarrow> mem \<times> mem" where
  "transfer dir cp m as km um =
     (if dir = UIO_READ then (km, scatter um (take m as) (bytes km cp m)) else (scatter km [cp..<cp + m] (map um (take m as)), um))"

lemma transfer_0 [simp]: "transfer dir cp 0 as km um = (km, um)"
  by (simp add: transfer_def scatter_def bytes_def)

lemma transfer_add:
  assumes "transfer dir cp c as km um = (km1, um1)" "c + m \<le> length as"
  shows "transfer dir (cp + c) m (drop c as) km1 um1 = transfer dir cp (c + m) as km um"
proof -
  have t: "take (c + m) as = take c as @ take m (drop c as)" by (rule take_add)
  have u: "[cp..<cp + (c + m)] = [cp..<cp + c] @ [cp + c..<cp + c + m]" using upt_split [of cp "cp + c" "cp + (c + m)"] by (simp add: add.assoc)
  show ?thesis using assms
    by (auto simp: transfer_def t u bytes_append scatter_append split: if_splits)
qed

text \<open>The offset after \<open>m\<close> bytes; below 2 gigabytes it does not wrap.\<close>

definition offset_after :: "int \<Rightarrow> nat \<Rightarrow> int" where
  "offset_after off m = (if m = 0 then off else long (off + int m))"

lemma offset_after_id: "0 \<le> off \<Longrightarrow> off + int m < 2 ^ 31 \<Longrightarrow> offset_after off m = off + int m"
  using long_id [of "off + int m"] by (simp add: offset_after_def)

lemma offset_after_0 [simp]: "offset_after off 0 = off"
  by (simp add: offset_after_def)

lemma uiomove_spec:
  "uio_ok uio \<Longrightarrow> \<exists>km' um' uio'. uiomove cp n km um uio = Ok (km', um', uio')
     \<and> transfer (uio_rw uio) cp (min n (uio_resid uio)) (uaddrs (uio_iov uio)) km um = (km', um')
     \<and> uio_ok uio' \<and> uaddrs (uio_iov uio') = drop (min n (uio_resid uio)) (uaddrs (uio_iov uio))
     \<and> uio_offset uio' = offset_after (uio_offset uio) (min n (uio_resid uio)) \<and> uio_rw uio' = uio_rw uio"
proof (induction cp n km um uio rule: uiomove.induct)
  case (1 cp n km um uio)
  let ?as = "uaddrs (uio_iov uio)"
  have ok: "uio_resid uio = length ?as" "uio_resid uio < 2 ^ 32" using 1(3) by (auto simp: uio_ok_def)
  consider (fin) "n = 0 \<or> uio_resid uio = 0" | (skip) iov rest where "n \<noteq> 0" "uio_resid uio \<noteq> 0" "uio_iov uio = iov # rest" "iov_len iov = 0"
    | (move) iov rest where "n \<noteq> 0" "uio_resid uio \<noteq> 0" "uio_iov uio = iov # rest" "iov_len iov \<noteq> 0"
    using ok by (cases "uio_iov uio") auto
  then show ?case
  proof cases
    case fin
    then show ?thesis using 1(3) by (auto simp: uiomove.simps [of cp n km um uio])
  next
    case skip
    have "uio_ok (uio\<lparr>uio_iov := rest, uio_iovcnt := uio_iovcnt uio - 1\<rparr>)" using ok skip by (simp add: uio_ok_def uaddrs_Cons)
    from 1(1) [OF _ skip(3) skip(4) this] skip ok show ?thesis
      unfolding uiomove.simps [of cp n km um uio] by (simp add: uaddrs_Cons)
  next
    case move
    define c where "c = (if iov_len iov > n then n else iov_len iov)"
    define uio1 where "uio1 = uio\<lparr>uio_iov := iov\<lparr>iov_base := iov_base iov + c, iov_len := iov_len iov - c\<rparr> # rest,
        uio_resid := sub32 (uio_resid uio) c, uio_offset := long (uio_offset uio + int c)\<rparr>"
    define kmum where "kmum = (if uio_rw uio = UIO_READ then (km, bcopy km cp um (iov_base iov) c) else (bcopy um (iov_base iov) km cp c, um))"
    obtain km1 um1 where km1: "kmum = (km1, um1)" by fastforce
    have c: "0 < c" "c \<le> n" "c \<le> iov_len iov" "c \<le> length ?as" using move by (auto simp: c_def uaddrs_Cons)
    have as1: "uaddrs (uio_iov uio1) = drop c ?as" "uio_resid uio1 = uio_resid uio - c"
      using c move ok sub32_id [of c "uio_resid uio"] by (auto simp: uio1_def uaddrs_Cons)
    have ok1: "uio_ok uio1" using as1 ok by (simp add: uio_ok_def)
    have tr: "transfer (uio_rw uio) cp c ?as km um = (km1, um1)"
    proof -
      have "take c ?as = [iov_base iov..<iov_base iov + c]" using c move by (simp add: uaddrs_Cons)
      then show ?thesis using km1 by (auto simp: transfer_def kmum_def bcopy_scatter bytes_def split: if_splits)
    qed
    have rec: "uiomove cp n km um uio = uiomove (cp + c) (n - c) km1 um1 uio1"
      using move km1 unfolding uiomove.simps [of cp n km um uio] by (simp add: Let_def c_def [symmetric] kmum_def [symmetric] uio1_def)
    define l where "l = min (n - c) (uio_resid uio1)"
    have m: "min n (uio_resid uio) = c + l" using c ok as1 by (auto simp: l_def)
    from 1(2) [OF _ move(3,4) c_def kmum_def km1 [symmetric] uio1_def ok1] move obtain km' um' uio' where
      r: "uiomove (cp + c) (n - c) km1 um1 uio1 = Ok (km', um', uio')"
      "transfer (uio_rw uio1) (cp + c) l (uaddrs (uio_iov uio1)) km1 um1 = (km', um')" "uio_ok uio'"
      "uaddrs (uio_iov uio') = drop l (uaddrs (uio_iov uio1))" "uio_offset uio' = offset_after (uio_offset uio1) l" "uio_rw uio' = uio_rw uio1"
      unfolding l_def by auto
    have "c + l \<le> length ?as" using m ok by simp
    moreover have "uio_rw uio1 = uio_rw uio" by (simp add: uio1_def)
    ultimately have "transfer (uio_rw uio) cp (c + l) ?as km um = (km', um')"
      using transfer_add [OF tr] r(2) by (simp add: as1)
    moreover have "uaddrs (uio_iov uio') = drop (c + l) ?as" using r(4) by (simp add: as1 add.commute)
    moreover have "uio_offset uio' = offset_after (uio_offset uio) (c + l)" "uio_rw uio' = uio_rw uio"
      using r(5,6) c(1) by (simp_all add: uio1_def offset_after_def add.assoc)
    ultimately show ?thesis unfolding rec m using r(1,3) by blast
  qed
qed

lemma scatter_other: "a \<notin> set as \<Longrightarrow> scatter um as bs a = um a"
proof (induction as arbitrary: bs um)
  case (Cons x as)
  then show ?case by (cases bs) (auto simp: scatter_Cons, simp add: scatter_def)
qed (simp add: scatter_def)

lemma scatter_nth: "distinct as \<Longrightarrow> length as = length bs \<Longrightarrow> i < length as \<Longrightarrow> scatter um as bs (as ! i) = bs ! i"
proof (induction as arbitrary: bs um i)
  case (Cons x as)
  then obtain b bs' where b: "bs = b # bs'" by (cases bs) auto
  show ?case using Cons by (cases i) (auto simp: b scatter_Cons scatter_other)
qed simp

text \<open>
  C40. \<open>uiomove\<close> moves the next bytes between kernel and user, as many as are asked for but no more than remain, in the order of the
  user's vectors: a write gathers the bytes at the user's addresses into consecutive kernel bytes, a read scatters consecutive kernel
  bytes to them (here for vectors that do not overlap), and no other byte changes. What remains and the count are advanced by exactly
  the bytes moved, and so is the offset, which wraps at 32 bits as a signed number: it is exact while it stays below 2 gigabytes. The
  vectors and the kernel's bytes lie within the 32-bit address space.
\<close>

theorem uiomove_moves_prefix:
  assumes ok: "uio_ok uio" and as: "as = uaddrs (uio_iov uio)" and m: "m = min n (uio_resid uio)"
    and sp: "\<forall>iov\<in>set (uio_iov uio). iov_base iov + iov_len iov \<le> 2 ^ 32" "cp + n \<le> 2 ^ 32"
  shows "\<exists>km' um' uio'. uiomove cp n km um uio = Ok (km', um', uio')
     \<and> (uio_rw uio = UIO_WRITE \<longrightarrow> um' = um \<and> (\<forall>i<m. km' (cp + i) = um (as ! i)) \<and> (\<forall>a. a < cp \<or> cp + m \<le> a \<longrightarrow> km' a = km a))
     \<and> (uio_rw uio = UIO_READ \<longrightarrow> km' = km \<and> (distinct as \<longrightarrow> (\<forall>i<m. um' (as ! i) = km (cp + i))) \<and> (\<forall>a. a \<notin> set (take m as) \<longrightarrow> um' a = um a))
     \<and> uio_ok uio' \<and> uaddrs (uio_iov uio') = drop m as \<and> uio_resid uio' = uio_resid uio - m
     \<and> uio_offset uio' = (if m = 0 then uio_offset uio else long (uio_offset uio + int m))
     \<and> (0 \<le> uio_offset uio \<and> uio_offset uio + int m < 2 ^ 31 \<longrightarrow> uio_offset uio' = uio_offset uio + int m)"
proof -
  from uiomove_spec [OF ok, of cp n km um] obtain km' um' uio' where r: "uiomove cp n km um uio = Ok (km', um', uio')"
    "transfer (uio_rw uio) cp m as km um = (km', um')" "uio_ok uio'" "uaddrs (uio_iov uio') = drop m as"
    "uio_offset uio' = offset_after (uio_offset uio) m" unfolding as m by blast
  have l: "m \<le> length as" using ok by (simp add: m as uio_ok_def)
  have "um' = um \<and> (\<forall>i<m. km' (cp + i) = um (as ! i)) \<and> (\<forall>a. a < cp \<or> cp + m \<le> a \<longrightarrow> km' a = km a)" if "uio_rw uio = UIO_WRITE"
    using r(2) that l scatter_nth [of "[cp..<cp + m]" "map um (take m as)" _ km] scatter_other [of _ "[cp..<cp + m]" km "map um (take m as)"]
    by (auto simp: transfer_def)
  moreover have "km' = km \<and> (distinct as \<longrightarrow> (\<forall>i<m. um' (as ! i) = km (cp + i))) \<and> (\<forall>a. a \<notin> set (take m as) \<longrightarrow> um' a = um a)" if "uio_rw uio = UIO_READ"
    using r(2) that l scatter_nth [of "take m as" "bytes km cp m" _ um] scatter_other [of _ "take m as" um "bytes km cp m"]
    by (auto simp: transfer_def bytes_def)
  moreover have "uio_resid uio' = uio_resid uio - m" using r(3,4) ok by (simp add: uio_ok_def as)
  moreover have "uio_offset uio' = uio_offset uio + int m" if "0 \<le> uio_offset uio \<and> uio_offset uio + int m < 2 ^ 31"
    using r(5) that offset_after_id [of "uio_offset uio" m] by simp
  ultimately show ?thesis using r(1,3,4) r(5) [unfolded offset_after_def] by blast
qed

theorem uiomove_moves_prefix_witness:
  "\<exists>km' um' uio'. uiomove 100 3 (\<lambda>a. of_nat a) (\<lambda>_. 0)
       \<lparr>uio_iov = [\<lparr>iov_base = 10, iov_len = 2\<rparr>, \<lparr>iov_base = 20, iov_len = 4\<rparr>], uio_iovcnt = 2, uio_offset = 0x7ffffffe, uio_resid = 6, uio_rw = UIO_READ\<rparr>
     = Ok (km', um', uio') \<and> um' 10 = 100 \<and> um' 11 = 101 \<and> um' 20 = 102 \<and> um' 21 = 0 \<and> uio_resid uio' = 3 \<and> uio_offset uio' = - 0x7fffffff"
proof -
  let ?u = "\<lparr>uio_iov = [\<lparr>iov_base = 10, iov_len = 2\<rparr>, \<lparr>iov_base = 20, iov_len = 4\<rparr>], uio_iovcnt = 2, uio_offset = 0x7ffffffe, uio_resid = 6, uio_rw = UIO_READ\<rparr>"
  have a: "uaddrs (uio_iov ?u) = [10, 11, 20, 21, 22, 23]" by (simp add: uaddrs_def upt_rec)
  have o: "uio_ok ?u" using a by (simp add: uio_ok_def)
  have w: "long 0x80000001 = - 0x7fffffff" by (simp add: long_def)
  have s: "\<forall>iov\<in>set (uio_iov ?u). iov_base iov + iov_len iov \<le> 2 ^ 32" "(100::nat) + 3 \<le> 2 ^ 32" by simp_all
  from uiomove_moves_prefix [OF o a [symmetric] refl s, of "\<lambda>a. of_nat a" "\<lambda>_. 0"] w obtain km' um' uio' where
    r: "uiomove 100 3 (\<lambda>a. of_nat a) (\<lambda>_. 0) ?u = Ok (km', um', uio')" "\<forall>i<3. um' ([10, 11, 20, 21, 22, 23] ! i) = of_nat (100 + i)"
      "\<forall>a. a \<notin> {10, 11, 20} \<longrightarrow> um' a = 0" "uio_resid uio' = 3" "uio_offset uio' = - 0x7fffffff" by auto
  from r(2) have "um' 10 = 100" "um' 11 = 101" "um' 20 = 102" by (auto dest: spec [of _ 0] spec [of _ 1] spec [of _ 2])
  with r show ?thesis by auto
qed

section \<open>One character at a time\<close>

lemma ureadc_next_spec:
  assumes "uio_resid uio \<noteq> 0" "uaddrs iovs \<noteq> []" "uio_iovcnt uio = int (length iovs)"
  shows "\<exists>iov rest. ureadc_next iovs uio = Ok (iov, rest, uio\<lparr>uio_iovcnt := int (length (iov # rest))\<rparr>) \<and> iov_len iov > 0 \<and> uaddrs (iov # rest) = uaddrs iovs"
  using assms
proof (induction iovs arbitrary: uio)
  case (Cons iov rest)
  show ?case
  proof (cases "iov_len iov = 0")
    case True
    then have "uaddrs rest = uaddrs (iov # rest)" by (simp add: uaddrs_Cons)
    moreover from this Cons.prems have "\<exists>iov' rest'. ureadc_next rest (uio\<lparr>uio_iovcnt := uio_iovcnt uio - 1\<rparr>)
        = Ok (iov', rest', uio\<lparr>uio_iovcnt := int (length (iov' # rest'))\<rparr>) \<and> iov_len iov' > 0 \<and> uaddrs (iov' # rest') = uaddrs rest"
      using Cons.IH [of "uio\<lparr>uio_iovcnt := uio_iovcnt uio - 1\<rparr>"] by simp
    ultimately show ?thesis using True Cons.prems by (simp add: ureadc_next.simps [of "iov # rest" uio])
  next
    case False
    have "uio\<lparr>uio_iovcnt := uio_iovcnt uio\<rparr> = uio" by simp
    then show ?thesis using False Cons.prems by (simp add: ureadc_next.simps [of "iov # rest" uio])
  qed
qed simp

lemma uwritec_next_spec:
  assumes "uaddrs iovs \<noteq> []" "uio_iovcnt uio = int (length iovs)" "iovs = uio_iov uio"
  shows "\<exists>iov rest uio'. uwritec_next iovs uio = Ok (Some (iov, rest), uio') \<and> iov_len iov > 0 \<and> uaddrs (iov # rest) = uaddrs iovs
     \<and> uio_iovcnt uio' = int (length (iov # rest)) \<and> uio_resid uio' = uio_resid uio \<and> uio_offset uio' = uio_offset uio \<and> uio_rw uio' = uio_rw uio"
  using assms
proof (induction iovs arbitrary: uio)
  case (Cons iov rest)
  show ?case
  proof (cases "iov_len iov = 0")
    case True
    let ?u = "uio\<lparr>uio_iov := rest, uio_iovcnt := uio_iovcnt uio - 1\<rparr>"
    have a: "uaddrs rest = uaddrs (iov # rest)" using True by (simp add: uaddrs_Cons)
    then have ne: "rest \<noteq> []" using Cons.prems by auto
    have p: "uaddrs rest \<noteq> []" "uio_iovcnt ?u = int (length rest)" "rest = uio_iov ?u" using a Cons.prems(1,2) by simp_all
    from Cons.IH [OF p] a obtain iov' rest' uio' where
      "uwritec_next rest ?u = Ok (Some (iov', rest'), uio')" "iov_len iov' > 0" "uaddrs (iov' # rest') = uaddrs (iov # rest)"
      "uio_iovcnt uio' = int (length (iov' # rest'))" "uio_resid uio' = uio_resid uio" "uio_offset uio' = uio_offset uio" "uio_rw uio' = uio_rw uio"
      by auto
    then show ?thesis using True Cons.prems(1,2) ne by (simp add: uwritec_next.simps [of "iov # rest" uio] Let_def)
  next
    case False
    then show ?thesis using Cons.prems(1,2) by (simp add: uwritec_next.simps [of "iov # rest" uio])
  qed
qed simp

text \<open>What is left after one character.\<close>

lemma uaddrs_step: "iov_len iov > 0 \<Longrightarrow> uaddrs (iov\<lparr>iov_base := iov_base iov + 1, iov_len := iov_len iov - 1\<rparr> # rest) = tl (uaddrs (iov # rest))
    \<and> hd (uaddrs (iov # rest)) = iov_base iov"
  by (cases "iov_len iov") (auto simp: uaddrs_Cons upt_rec [of "iov_base iov"])

text \<open>
  Moving characters one at a time agrees with moving them as a block: on a well-formed \<open>uio\<close> with characters left, \<open>ureadc\<close> stores its character
  where \<open>uiomove\<close> of one byte would, \<open>uwritec\<close> fetches the one \<open>uiomove\<close> would, and both leave the same addresses, count and
  offset behind; with nothing left \<open>uwritec\<close> returns -1, where \<open>ureadc\<close> panics.
\<close>

theorem characters_agree_with_blocks:
  assumes ok: "uio_ok uio" and cnt: "uio_iovcnt uio = int (length (uio_iov uio))"
  shows "if uio_resid uio = 0 then uwritec um uio = Ok (None, uio) \<and> (uio_iov uio = [] \<longrightarrow> ureadc c um uio = Panic ''ureadc'')
     else (\<exists>uio1. ureadc c um uio = Ok (um(hd (uaddrs (uio_iov uio)) := c), uio1) \<and> uio_ok uio1 \<and> uaddrs (uio_iov uio1) = drop 1 (uaddrs (uio_iov uio))
              \<and> uio_iovcnt uio1 = int (length (uio_iov uio1)) \<and> uio_offset uio1 = long (uio_offset uio + 1))
        \<and> (\<exists>uio2. uwritec um uio = Ok (Some (um (hd (uaddrs (uio_iov uio)))), uio2) \<and> uio_ok uio2 \<and> uaddrs (uio_iov uio2) = drop 1 (uaddrs (uio_iov uio))
              \<and> uio_iovcnt uio2 = int (length (uio_iov uio2)) \<and> uio_offset uio2 = long (uio_offset uio + 1))
        \<and> (\<exists>km' um' uio3. uiomove cp 1 (\<lambda>_. c) um uio = Ok (km', um', uio3) \<and> uaddrs (uio_iov uio3) = drop 1 (uaddrs (uio_iov uio))
              \<and> uio_offset uio3 = long (uio_offset uio + 1) \<and> (uio_rw uio = UIO_READ \<longrightarrow> um' = um(hd (uaddrs (uio_iov uio)) := c))
              \<and> (uio_rw uio = UIO_WRITE \<longrightarrow> km' cp = um (hd (uaddrs (uio_iov uio)))))"
proof (cases "uio_resid uio = 0")
  case True
  then show ?thesis using cnt by (simp add: uwritec_def ureadc_def ureadc_next.simps)
next
  case False
  let ?as = "uaddrs (uio_iov uio)"
  have as: "?as \<noteq> []" "uio_resid uio = length ?as" "uio_resid uio < 2 ^ 32" using ok False by (auto simp: uio_ok_def)
  have s: "sub32 (uio_resid uio) 1 = length ?as - 1" using as sub32_id [of 1 "uio_resid uio"] by (cases ?as) auto
  from ureadc_next_spec [OF False as(1) cnt] obtain iov rest where
    r: "ureadc_next (uio_iov uio) uio = Ok (iov, rest, uio\<lparr>uio_iovcnt := int (length (iov # rest))\<rparr>)" "iov_len iov > 0" "uaddrs (iov # rest) = ?as" by blast
  from uwritec_next_spec [OF as(1) cnt refl] obtain iov' rest' uio' where
    w: "uwritec_next (uio_iov uio) uio = Ok (Some (iov', rest'), uio')" "iov_len iov' > 0" "uaddrs (iov' # rest') = ?as"
      "uio_iovcnt uio' = int (length (iov' # rest'))" "uio_resid uio' = uio_resid uio" "uio_offset uio' = uio_offset uio" by blast
  note st = uaddrs_step [OF r(2), of rest, unfolded r(3)] uaddrs_step [OF w(2), of rest', unfolded w(3)]
  from uiomove_spec [OF ok, of cp 1 "\<lambda>_. c" um] obtain km' um' uio3 where
    m: "uiomove cp 1 (\<lambda>_. c) um uio = Ok (km', um', uio3)" "transfer (uio_rw uio) cp (min 1 (uio_resid uio)) ?as (\<lambda>_. c) um = (km', um')"
      "uaddrs (uio_iov uio3) = drop (min 1 (uio_resid uio)) ?as" "uio_offset uio3 = offset_after (uio_offset uio) (min 1 (uio_resid uio))" by blast
  have min1: "min 1 (uio_resid uio) = 1" using False by simp
  have t1: "take 1 ?as = [hd ?as]" using as(1) by (cases ?as) auto
  have "um' = um(hd ?as := c)" if "uio_rw uio = UIO_READ" using m(2) that t1 unfolding min1 by (auto simp: transfer_def bytes_def scatter_def)
  moreover have "km' cp = um (hd ?as)" if "uio_rw uio = UIO_WRITE" using m(2) that t1 unfolding min1 by (auto simp: transfer_def scatter_def)
  moreover have "length (tl ?as) = length ?as - 1" by simp
  ultimately show ?thesis using False r(1) w(1,4-) m(1,3,4) st s as unfolding min1
    by (simp add: ureadc_def uwritec_def uio_ok_def drop_Suc offset_after_def)
qed

theorem characters_agree_with_blocks_witness:
  "\<exists>uio1 uio2. ureadc 65 (\<lambda>_. 0) \<lparr>uio_iov = [\<lparr>iov_base = 9, iov_len = 0\<rparr>, \<lparr>iov_base = 20, iov_len = 4\<rparr>], uio_iovcnt = 2, uio_offset = 7, uio_resid = 4, uio_rw = UIO_READ\<rparr>
       = Ok ((\<lambda>_. 0)(20 := 65), uio1) \<and> uaddrs (uio_iov uio1) = [21, 22, 23] \<and> uio_offset uio1 = 8
     \<and> uwritec (\<lambda>a. of_nat a) \<lparr>uio_iov = [\<lparr>iov_base = 9, iov_len = 0\<rparr>, \<lparr>iov_base = 20, iov_len = 4\<rparr>], uio_iovcnt = 2, uio_offset = 7, uio_resid = 4, uio_rw = UIO_READ\<rparr>
       = Ok (Some 20, uio2)"
proof -
  let ?u = "\<lparr>uio_iov = [\<lparr>iov_base = 9, iov_len = 0\<rparr>, \<lparr>iov_base = 20, iov_len = 4\<rparr>], uio_iovcnt = 2, uio_offset = 7, uio_resid = 4, uio_rw = UIO_READ\<rparr>"
  have a: "uaddrs (uio_iov ?u) = [20, 21, 22, 23]" by (simp add: uaddrs_def upt_rec)
  have ok: "uio_ok ?u" "uio_iovcnt ?u = int (length (uio_iov ?u))" using a by (simp_all add: uio_ok_def)
  have "long 8 = 8" by (simp add: long_def)
  with characters_agree_with_blocks [OF ok, of "\<lambda>_. 0" 65 0] characters_agree_with_blocks [OF ok, of "\<lambda>a. of_nat a" 65 0]
  show ?thesis unfolding a by fastforce
qed

section \<open>The system calls\<close>

text \<open>
  The check of a vector read or write against wrap-around never fires: the lengths are summed in 32 bits and the sum is
  compared with itself. Two vectors of 2 gigabytes each pass as a request for nothing, which is reported as a success that moved
  no byte.
\<close>

theorem vector_wraparound_unchecked:
  assumes "getf fdes k = (k, Some fp)" "f_flag (files k fp) AND FREAD \<noteq> 0"
    and "\<And>uio. uio_resid uio = 0 \<Longrightarrow> fo_rw (f_type (files k fp)) fp uio k = Ok (k, uio, Returned 0)"
  shows "\<exists>k'. rwuio fo_rw fdes \<lparr>uio_iov = [\<lparr>iov_base = a, iov_len = 2 ^ 31\<rparr>, \<lparr>iov_base = b, iov_len = 2 ^ 31\<rparr>], uio_iovcnt = 2, uio_offset = off,
       uio_resid = r, uio_rw = UIO_READ\<rparr> k = Ok k' \<and> u_error (u k') = 0 \<and> u_rval (u k') = 0"
  using assms by (simp add: rwuio_def iov_total_def Let_def sub32_def)

theorem vector_wraparound_unchecked_witness:
  "\<exists>k k'. rwuio (\<lambda>_ _ uio k. Ok (k, uio, Returned 0)) 0 \<lparr>uio_iov = [\<lparr>iov_base = 10, iov_len = 2 ^ 31\<rparr>, \<lparr>iov_base = 20, iov_len = 2 ^ 31\<rparr>],
       uio_iovcnt = 2, uio_offset = 0, uio_resid = 0, uio_rw = UIO_READ\<rparr> k = Ok k' \<and> u_error (u k') = 0 \<and> u_rval (u k') = 0"
proof -
  define k :: kern where "k = undefined\<lparr>u := undefined\<lparr>u_ofile := (\<lambda>_. Some 3)\<rparr>, files := (\<lambda>_. undefined\<lparr>f_flag := FREAD\<rparr>)\<rparr>"
  have "getf 0 k = (k, Some 3)" "f_flag (files k 3) AND FREAD \<noteq> 0" by (simp_all add: getf_def k_def)
  from vector_wraparound_unchecked [OF this, of "\<lambda>_ _ uio k. Ok (k, uio, Returned 0)" 10 20 0 0] show ?thesis by auto
qed

text \<open>
  The global memory area: a byte written by the super-user at an address from 0 to 255 is read back, and no other byte changes;
  other users and addresses from 256 on are refused with -1. A negative address, however, passes the check and is used: the access is
  outside the array.
\<close>

theorem glob_access:
  assumes "length g = GLOBSZ"
  shows "if u_uid (u k) \<noteq> 0 \<or> adr \<ge> int GLOBSZ
     then rdglob adr g k = Ok (set_rval (- 1) k) \<and> wrglob adr v g k = Ok (set_rval (- 1) k, g)
     else if adr < 0 then rdglob adr g k = Stuck \<and> wrglob adr v g k = Stuck
     else \<exists>g' k'. wrglob adr v g k = Ok (k', g') \<and> u_rval (u k') = 0 \<and> length g' = GLOBSZ
       \<and> (\<forall>a. 0 \<le> a \<and> a < int GLOBSZ \<longrightarrow> rdglob a g' k = Ok (set_rval (if a = adr then uint v else uint (g ! nat a)) k))"
  using assms by (auto simp: rdglob_def wrglob_def nth_list_update)

theorem glob_access_witness:
  "\<exists>k g'. (\<exists>k'. wrglob 7 42 (replicate 256 0) k = Ok (k', g')) \<and> rdglob 7 g' k = Ok (set_rval 42 k) \<and> rdglob 8 g' k = Ok (set_rval 0 k)
     \<and> rdglob (- 1) (replicate 256 0) k = Stuck"
proof -
  define k :: kern where "k = undefined\<lparr>u := undefined\<lparr>u_uid := 0\<rparr>\<rparr>"
  have z: "u_uid (u k) = 0" by (simp add: k_def)
  have l: "length (replicate 256 (0 :: 8 word)) = GLOBSZ" by simp
  from glob_access [OF l, of k 7 42] z obtain g' k' where g: "wrglob 7 42 (replicate 256 0) k = Ok (k', g')"
    "\<forall>a. 0 \<le> a \<and> a < int GLOBSZ \<longrightarrow> rdglob a g' k = Ok (set_rval (if a = 7 then uint (42 :: 8 word) else uint ((replicate 256 (0 :: 8 word)) ! nat a)) k)"
    by auto
  have "rdglob 7 g' k = Ok (set_rval 42 k)" "rdglob 8 g' k = Ok (set_rval 0 k)" using g(2) [rule_format, of 7] g(2) [rule_format, of 8] by simp_all
  moreover have "rdglob (- 1) (replicate 256 0) k = Stuck" using glob_access [OF l, of k "- 1" 0] z by simp
  ultimately show ?thesis using g(1) by blast
qed

end
