(* ===== verification/Bio.thy ===== *)
theory Bio
  imports Prelude
begin

text \<open>
  The buffer cache, \<^verbatim>\<open>sys/kern/ufs_bio.c\<close>, over the SD card driver \<open>sdstrategy\<close> of \<^verbatim>\<open>sys/arch/stm32/dev/sd.c\<close>. A hash chain and a
  free list, doubly linked through the buffers in the code, are the lists of the buffers on them; the first element is the one
  behind the head. A buffer's memory \<^verbatim>\<open>b_addr\<close> is its contents, a block of 256 words. A \<open>wakeup\<close> is recorded, not
  delivered: \<open>Some b\<close> stands for the address of buffer \<open>b\<close>, \<open>None\<close> for that of \<^verbatim>\<open>bfreelist\<close>. While a process sleeps others
  run: \<open>env n st\<close> is the state in which it is resumed, with \<open>n\<close> turns to go.
\<close>

section \<open>Data\<close>

abbreviation (input) B_READ :: "32 word" where "B_READ \<equiv> 0x1"
abbreviation (input) B_DONE :: "32 word" where "B_DONE \<equiv> 0x2"
abbreviation (input) B_ERROR :: "32 word" where "B_ERROR \<equiv> 0x4"
abbreviation (input) B_BUSY :: "32 word" where "B_BUSY \<equiv> 0x8"
abbreviation (input) B_WANTED :: "32 word" where "B_WANTED \<equiv> 0x40"
abbreviation (input) B_AGE :: "32 word" where "B_AGE \<equiv> 0x80"
abbreviation (input) B_ASYNC :: "32 word" where "B_ASYNC \<equiv> 0x100"
abbreviation (input) B_DELWRI :: "32 word" where "B_DELWRI \<equiv> 0x200"
abbreviation (input) B_INVAL :: "32 word" where "B_INVAL \<equiv> 0x800"
abbreviation (input) B_LOCKED :: "32 word" where "B_LOCKED \<equiv> 0x2000"

abbreviation (input) BQ_LOCKED :: nat where "BQ_LOCKED \<equiv> 0"
abbreviation (input) BQ_LRU :: nat where "BQ_LRU \<equiv> 1"
abbreviation (input) BQ_AGE :: nat where "BQ_AGE \<equiv> 2"

abbreviation (input) NODEV :: int where "NODEV \<equiv> - 1"
abbreviation (input) DEV_BSIZE :: nat where "DEV_BSIZE \<equiv> 1024"

type_synonym block = "32 word list"

record buf =
  b_flags :: "32 word"
  b_bcount :: nat
  b_error :: int
  b_dev :: int
  b_data :: block
  b_blkno :: int
  b_resid :: nat

text \<open>The head of a chain: a bucket of \<^verbatim>\<open>bufhash\<close>, or the head of a free list, which serves as the chain of empty buffers.\<close>

datatype bhead = Bufhash nat | Bfreelist nat

record bio =
  bufs :: "nat \<Rightarrow> buf"
  chains :: "bhead \<Rightarrow> nat list"
  bfreelist :: "nat \<Rightarrow> nat list"
  bwanted :: bool
  card :: "int \<Rightarrow> int \<Rightarrow> block"
  uerror :: int
  ru_inblk :: int
  ru_oublk :: int
  woken :: "nat option list"

definition upd_buf :: "nat \<Rightarrow> (buf \<Rightarrow> buf) \<Rightarrow> bio \<Rightarrow> bio" where
  "upd_buf b f st = st\<lparr>bufs := (bufs st)(b := f (bufs st b))\<rparr>"

definition bflags :: "nat \<Rightarrow> bio \<Rightarrow> 32 word" where
  "bflags b st = b_flags (bufs st b)"

definition bset :: "nat \<Rightarrow> 32 word \<Rightarrow> bio \<Rightarrow> bio" where
  "bset b w st = upd_buf b (\<lambda>p. p\<lparr>b_flags := b_flags p OR w\<rparr>) st"

definition bclr :: "nat \<Rightarrow> 32 word \<Rightarrow> bio \<Rightarrow> bio" where
  "bclr b w st = upd_buf b (\<lambda>p. p\<lparr>b_flags := b_flags p AND NOT w\<rparr>) st"

section \<open>Lists of buffers\<close>

definition BUFHASH :: "int \<Rightarrow> int \<Rightarrow> bhead" where
  "BUFHASH dev bn = Bufhash (nat ((dev + bn) mod 16))"

definition bremhash :: "nat \<Rightarrow> bio \<Rightarrow> bio" where
  "bremhash b st = st\<lparr>chains := (\<lambda>h. removeAll b (chains st h))\<rparr>"

definition binshash :: "nat \<Rightarrow> bhead \<Rightarrow> bio \<Rightarrow> bio" where
  "binshash b h st = st\<lparr>chains := (chains st)(h := b # chains st h)\<rparr>"

definition binsheadfree :: "nat \<Rightarrow> nat \<Rightarrow> bio \<Rightarrow> bio" where
  "binsheadfree b q st = st\<lparr>bfreelist := (bfreelist st)(q := b # bfreelist st q)\<rparr>"

definition binstailfree :: "nat \<Rightarrow> nat \<Rightarrow> bio \<Rightarrow> bio" where
  "binstailfree b q st = st\<lparr>bfreelist := (bfreelist st)(q := bfreelist st q @ [b])\<rparr>"

definition notavail :: "nat \<Rightarrow> bio \<Rightarrow> bio" where
  "notavail b st = bset b B_BUSY (st\<lparr>bfreelist := (\<lambda>q. removeAll b (bfreelist st q))\<rparr>)"

definition bwakeup :: "nat option \<Rightarrow> bio \<Rightarrow> bio" where
  "bwakeup x st = st\<lparr>woken := x # woken st\<rparr>"

section \<open>Releasing a buffer; completion of a transfer\<close>

definition brelse :: "nat \<Rightarrow> bio \<Rightarrow> bio" where
  "brelse b st =
     (let st = (if bflags b st AND B_WANTED \<noteq> 0 then bwakeup (Some b) st else st);
          st = (if bwanted st then bwakeup None (st\<lparr>bwanted := False\<rparr>) else st);
          st = (if bflags b st AND B_ERROR \<noteq> 0 then
                  (if bflags b st AND B_LOCKED \<noteq> 0 then bclr b B_ERROR st else upd_buf b (\<lambda>p. p\<lparr>b_dev := NODEV\<rparr>) st)
                else st);
          st = (if bflags b st AND (B_ERROR OR B_INVAL) \<noteq> 0 then binsheadfree b BQ_AGE st
                else binstailfree b (if bflags b st AND B_LOCKED \<noteq> 0 then BQ_LOCKED
                                     else if bflags b st AND B_AGE \<noteq> 0 then BQ_AGE else BQ_LRU) st)
      in bclr b (B_WANTED OR B_BUSY OR B_ASYNC OR B_AGE) st)"

definition biodone :: "nat \<Rightarrow> bio \<Rightarrow> bio cres" where
  "biodone b st =
     (if bflags b st AND B_DONE \<noteq> 0 then Panic ''dup biodone''
      else
        let st = bset b B_DONE st
        in if bflags b st AND B_ASYNC \<noteq> 0 then Ok (brelse b st)
           else Ok (bwakeup (Some b) (bclr b B_WANTED st)))"

definition geterror :: "nat \<Rightarrow> bio \<Rightarrow> int" where
  "geterror b st = (if bflags b st AND B_ERROR \<noteq> 0 then (if b_error (bufs st b) = 0 then 5 else b_error (bufs st b)) else 0)"

fun biowait_loop :: "(nat \<Rightarrow> bio \<Rightarrow> bio) \<Rightarrow> nat \<Rightarrow> nat \<Rightarrow> bio \<Rightarrow> bio cres" where
  "biowait_loop env 0 b st = (if bflags b st AND B_DONE = 0 then Stuck else Ok st)"
| "biowait_loop env (Suc n) b st = (if bflags b st AND B_DONE = 0 then biowait_loop env n b (env n st) else Ok st)"

definition biowait :: "(nat \<Rightarrow> bio \<Rightarrow> bio) \<Rightarrow> nat \<Rightarrow> nat \<Rightarrow> bio \<Rightarrow> bio cres" where
  "biowait env n b st =
     bind_cres (biowait_loop env n b st) (\<lambda>st. Ok (if uerror st = 0 then st\<lparr>uerror := geterror b st\<rparr> else st))"

section \<open>The SD card driver\<close>

text \<open>
  The partitions by device (\<open>dp_offset\<close> and \<open>dp_nsectors\<close>, in sectors of half a block), whether the label may be written, and
  the behaviour of the card: whether a transfer of a block succeeds, and what a failed read leaves in memory. A failed write is taken
  to leave the card as it was.
\<close>

record sdisk =
  dp_offset :: "int \<Rightarrow> int"
  dp_nsectors :: "int \<Rightarrow> int"
  label_writable :: "int \<Rightarrow> bool"
  rd_ok :: "int \<Rightarrow> int \<Rightarrow> bool"
  wr_ok :: "int \<Rightarrow> int \<Rightarrow> bool"
  rd_junk :: "int \<Rightarrow> int \<Rightarrow> block"

definition sdunit :: "int \<Rightarrow> int" where
  "sdunit dev = (dev mod 256 AND 8) div 8"

definition card_read :: "sdisk \<Rightarrow> int \<Rightarrow> int \<Rightarrow> bio \<Rightarrow> block \<times> bool" where
  "card_read d unit off st = (if rd_ok d unit off then (card st unit off, True) else (rd_junk d unit off, False))"

definition card_write :: "sdisk \<Rightarrow> int \<Rightarrow> int \<Rightarrow> block \<Rightarrow> bio \<Rightarrow> bio \<times> bool" where
  "card_write d unit off dat st =
     (if wr_ok d unit off then (st\<lparr>card := (card st)(unit := (card st unit)(off := dat))\<rparr>, True) else (st, False))"

text \<open>Transfers of one block; the cache asks for no others.\<close>

definition sdstrategy :: "sdisk \<Rightarrow> nat \<Rightarrow> bio \<Rightarrow> bio cres" where
  "sdstrategy d b st =
     (let bp = bufs st b; dev = b_dev bp; unit = sdunit dev; part_size = dp_nsectors d dev div 2;
          nblk = (int (b_bcount bp) + 1023) div 1024; offset = b_blkno bp + dp_offset d dev div 2;
          bad = (\<lambda>e. biodone b (bset b B_ERROR (upd_buf b (\<lambda>p. p\<lparr>b_error := e\<rparr>) st)))
      in if nblk \<noteq> 1 then Stuck
         else if offset = 0 \<and> b_flags bp AND B_READ = 0 \<and> \<not> label_writable d unit then bad 30
         else if b_blkno bp + nblk > part_size then
           (if b_blkno bp = part_size then biodone b (upd_buf b (\<lambda>p. p\<lparr>b_resid := b_bcount p\<rparr>) st)
            else bad 22)
         else if b_flags bp AND B_READ \<noteq> 0 then
           biodone b (upd_buf b (\<lambda>p. p\<lparr>b_data := fst (card_read d unit offset st)\<rparr>) st)
         else biodone b (fst (card_write d unit offset (b_data bp) st)))"

section \<open>Writing\<close>

definition bwrite :: "sdisk \<Rightarrow> (nat \<Rightarrow> bio \<Rightarrow> bio) \<Rightarrow> nat \<Rightarrow> nat \<Rightarrow> bio \<Rightarrow> bio cres" where
  "bwrite d env n b st =
     (let flag = bflags b st;
          st = bclr b (B_READ OR B_DONE OR B_ERROR OR B_DELWRI) st;
          st = (if flag AND B_DELWRI = 0 then st\<lparr>ru_oublk := ru_oublk st + 1\<rparr> else st);
          st = upd_buf b (\<lambda>p. p\<lparr>b_bcount := DEV_BSIZE\<rparr>) st
      in bind_cres (sdstrategy d b st) (\<lambda>st.
           if flag AND B_ASYNC = 0 then bind_cres (biowait env n b st) (\<lambda>st. Ok (brelse b st))
           else if flag AND B_DELWRI \<noteq> 0 then Ok (bset b B_AGE st) else Ok st))"

definition bawrite :: "sdisk \<Rightarrow> (nat \<Rightarrow> bio \<Rightarrow> bio) \<Rightarrow> nat \<Rightarrow> nat \<Rightarrow> bio \<Rightarrow> bio cres" where
  "bawrite d env n b st = bwrite d env n b (bset b B_ASYNC st)"

text \<open>The card is no tape.\<close>

definition bdwrite :: "nat \<Rightarrow> bio \<Rightarrow> bio" where
  "bdwrite b st =
     (let st = (if bflags b st AND B_DELWRI = 0 then st\<lparr>ru_oublk := ru_oublk st + 1\<rparr> else st)
      in brelse b (bset b (B_DELWRI OR B_DONE) st))"

section \<open>Finding a buffer\<close>

definition bmatch :: "int \<Rightarrow> int \<Rightarrow> buf \<Rightarrow> bool" where
  "bmatch dev blkno p \<longleftrightarrow> b_blkno p = blkno \<and> b_dev p = dev \<and> b_flags p AND B_INVAL = 0"

definition incore :: "int \<Rightarrow> int \<Rightarrow> bio \<Rightarrow> bool" where
  "incore dev blkno st \<longleftrightarrow> (\<exists>b\<in>set (chains st (BUFHASH dev blkno)). bmatch dev blkno (bufs st b))"

fun getnewbuf :: "sdisk \<Rightarrow> (nat \<Rightarrow> bio \<Rightarrow> bio) \<Rightarrow> nat \<Rightarrow> bio \<Rightarrow> (bio \<times> nat) cres" where
  "getnewbuf d env 0 st = Stuck"
| "getnewbuf d env (Suc n) st =
     (case bfreelist st BQ_AGE @ bfreelist st BQ_LRU of
        [] \<Rightarrow> getnewbuf d env n (env n (st\<lparr>bwanted := True\<rparr>))
      | b # _ \<Rightarrow>
          let st = notavail b st
          in if bflags b st AND B_DELWRI \<noteq> 0 then bind_cres (bawrite d env n b st) (getnewbuf d env n)
             else Ok (upd_buf b (\<lambda>p. p\<lparr>b_flags := B_BUSY\<rparr>) st, b))"

text \<open>A buffer of the wanted block that is in use is waited for.\<close>

fun getblk :: "sdisk \<Rightarrow> (nat \<Rightarrow> bio \<Rightarrow> bio) \<Rightarrow> nat \<Rightarrow> int \<Rightarrow> int \<Rightarrow> bio \<Rightarrow> (bio \<times> nat) cres" where
  "getblk d env 0 dev blkno st = Stuck"
| "getblk d env (Suc n) dev blkno st =
     (case List.find (\<lambda>b. bmatch dev blkno (bufs st b)) (chains st (BUFHASH dev blkno)) of
        Some b \<Rightarrow>
          (if bflags b st AND B_BUSY \<noteq> 0 then getblk d env n dev blkno (env n (bset b B_WANTED st))
           else Ok (notavail b st, b))
      | None \<Rightarrow>
          bind_cres (getnewbuf d env n st) (\<lambda>(st, b).
            Ok (upd_buf b (\<lambda>p. p\<lparr>b_bcount := 0, b_dev := dev, b_blkno := blkno, b_error := 0\<rparr>)
                  (binshash b (BUFHASH dev blkno) (bremhash b st)), b)))"

definition geteblk :: "sdisk \<Rightarrow> (nat \<Rightarrow> bio \<Rightarrow> bio) \<Rightarrow> nat \<Rightarrow> bio \<Rightarrow> (bio \<times> nat) cres" where
  "geteblk d env n st =
     bind_cres (getnewbuf d env n st) (\<lambda>(st, b).
       Ok (upd_buf b (\<lambda>p. p\<lparr>b_bcount := 0, b_dev := NODEV, b_error := 0\<rparr>)
             (binshash b (Bfreelist BQ_AGE) (bremhash b (bset b B_INVAL st))), b))"

section \<open>Reading\<close>

definition bread_start :: "sdisk \<Rightarrow> 32 word \<Rightarrow> nat \<Rightarrow> bio \<Rightarrow> bio cres" where
  "bread_start d w b st =
     bind_cres (sdstrategy d b (upd_buf b (\<lambda>p. p\<lparr>b_flags := b_flags p OR w, b_bcount := DEV_BSIZE\<rparr>) st))
       (\<lambda>st. Ok (st\<lparr>ru_inblk := ru_inblk st + 1\<rparr>))"

definition bread :: "sdisk \<Rightarrow> (nat \<Rightarrow> bio \<Rightarrow> bio) \<Rightarrow> nat \<Rightarrow> int \<Rightarrow> int \<Rightarrow> bio \<Rightarrow> (bio \<times> nat) cres" where
  "bread d env n dev blkno st =
     bind_cres (getblk d env n dev blkno st) (\<lambda>(st, b).
       if bflags b st AND (B_DONE OR B_DELWRI) \<noteq> 0 then Ok (st, b)
       else bind_cres (bread_start d B_READ b st) (\<lambda>st. bind_cres (biowait env n b st) (\<lambda>st. Ok (st, b))))"

definition breada :: "sdisk \<Rightarrow> (nat \<Rightarrow> bio \<Rightarrow> bio) \<Rightarrow> nat \<Rightarrow> int \<Rightarrow> int \<Rightarrow> int \<Rightarrow> bio \<Rightarrow> (bio \<times> nat) cres" where
  "breada d env n dev blkno rablkno st =
     bind_cres
       (if incore dev blkno st then Ok (st, None)
        else bind_cres (getblk d env n dev blkno st) (\<lambda>(st, b).
          if bflags b st AND (B_DONE OR B_DELWRI) = 0
          then bind_cres (bread_start d B_READ b st) (\<lambda>st. Ok (st, Some b)) else Ok (st, Some b)))
       (\<lambda>(st, bp). bind_cres
          (if rablkno \<noteq> 0 \<and> \<not> incore dev rablkno st then
             bind_cres (getblk d env n dev rablkno st) (\<lambda>(st, rabp).
               if bflags rabp st AND (B_DONE OR B_DELWRI) \<noteq> 0 then Ok (brelse rabp st)
               else bread_start d (B_READ OR B_ASYNC) rabp st)
           else Ok st)
          (\<lambda>st. case bp of
             None \<Rightarrow> bread d env n dev blkno st
           | Some b \<Rightarrow> bind_cres (biowait env n b st) (\<lambda>st. Ok (st, b))))"

section \<open>Flushing and invalidating\<close>

fun blkflush :: "sdisk \<Rightarrow> (nat \<Rightarrow> bio \<Rightarrow> bio) \<Rightarrow> nat \<Rightarrow> int \<Rightarrow> int \<Rightarrow> bio \<Rightarrow> bio cres" where
  "blkflush d env 0 dev blkno st = Stuck"
| "blkflush d env (Suc n) dev blkno st =
     (case List.find (\<lambda>b. bmatch dev blkno (bufs st b) \<and> bflags b st AND (B_BUSY OR B_DELWRI) \<noteq> 0) (chains st (BUFHASH dev blkno)) of
        None \<Rightarrow> Ok st
      | Some b \<Rightarrow>
          if bflags b st AND B_BUSY \<noteq> 0 then blkflush d env n dev blkno (env n (bset b B_WANTED st))
          else bind_cres (bwrite d env n b (notavail b st)) (blkflush d env n dev blkno))"

fun bflush :: "sdisk \<Rightarrow> (nat \<Rightarrow> bio \<Rightarrow> bio) \<Rightarrow> nat \<Rightarrow> int \<Rightarrow> bio \<Rightarrow> bio cres" where
  "bflush d env 0 dev st = Stuck"
| "bflush d env (Suc n) dev st =
     (case List.find (\<lambda>b. bflags b st AND B_DELWRI \<noteq> 0 \<and> b_dev (bufs st b) = dev)
         (bfreelist st BQ_LOCKED @ bfreelist st BQ_LRU @ bfreelist st BQ_AGE) of
        None \<Rightarrow> Ok st
      | Some b \<Rightarrow> bind_cres (bwrite d env n b (notavail b (bset b B_ASYNC st))) (bflush d env n dev))"

definition binval :: "int \<Rightarrow> bio \<Rightarrow> bio" where
  "binval dev st =
     st\<lparr>bufs := (\<lambda>b. if b_dev (bufs st b) = dev \<and> (\<exists>h<16. b \<in> set (chains st (Bufhash h)))
                     then (bufs st b)\<lparr>b_flags := b_flags (bufs st b) OR B_INVAL\<rparr> else bufs st b)\<rparr>"

section \<open>Initialization\<close>

definition bhinit :: "bio \<Rightarrow> bio" where
  "bhinit st = st\<lparr>chains := (\<lambda>h. case h of Bufhash i \<Rightarrow> if i < 16 then [] else chains st h | Bfreelist q \<Rightarrow> chains st h)\<rparr>"

fun binit_loop :: "nat list \<Rightarrow> bio \<Rightarrow> bio" where
  "binit_loop [] st = st"
| "binit_loop (b # bs) st =
     (let st = upd_buf b (\<lambda>p. p\<lparr>b_dev := NODEV, b_bcount := 0\<rparr>) st;
          st = binshash b (Bfreelist BQ_AGE) st;
          st = upd_buf b (\<lambda>p. p\<lparr>b_flags := B_BUSY OR B_INVAL\<rparr>) st
      in binit_loop bs (brelse b st))"

definition binit :: "nat \<Rightarrow> bio \<Rightarrow> bio" where
  "binit nbuf st =
     binit_loop [0..<nbuf]
       (st\<lparr>bfreelist := (\<lambda>q. if q < 3 then [] else bfreelist st q),
           chains := (\<lambda>h. case h of Bfreelist q \<Rightarrow> if q < 3 then [] else chains st h | Bufhash i \<Rightarrow> chains st h)\<rparr>)"

end
