(* ===== verification/Ufs.thy ===== *)
theory Ufs
  imports Kern_State Bio
begin

text \<open>
  The allocation of file system blocks, \<^verbatim>\<open>sys/kern/ufs_alloc.c\<close> and \<open>badblock\<close> of \<^verbatim>\<open>sys/kern/ufs_subr.c\<close>, and the block map of a file,
  \<^verbatim>\<open>sys/kern/ufs_bmap.c\<close>, over the buffer cache. The super block in core is a record; on the card, and in the blocks that chain
  the free list, it is its words. Messages to the console are not modelled. A \<open>wakeup\<close> is recorded. \<open>env\<close> is what happens while a
  process sleeps in the buffer cache, \<open>fenv\<close> while it sleeps here.
\<close>

section \<open>The super block\<close>

abbreviation (input) NICFREE :: int where "NICFREE \<equiv> 200"
abbreviation (input) NICINOD :: int where "NICINOD \<equiv> 32"
abbreviation (input) SUPERB :: int where "SUPERB \<equiv> 0"
abbreviation (input) MNT_ASYNC :: "32 word" where "MNT_ASYNC \<equiv> 0x40"
abbreviation (input) B_CLRBUF :: "32 word" where "B_CLRBUF \<equiv> 1"
abbreviation (input) B_SYNC :: "32 word" where "B_SYNC \<equiv> 2"

record fs =
  fs_magic1 :: "32 word"
  fs_isize :: int
  fs_fsize :: int
  fs_swapsz :: int
  fs_nfree :: int
  fs_free :: "int list"
  fs_ninode :: int
  fs_inode :: "int list"
  fs_flock :: int
  fs_fmod :: int
  fs_ilock :: int
  fs_ronly :: int
  fs_time :: int
  fs_tfree :: int
  fs_tinode :: int
  fs_fsmnt :: "32 word list"
  fs_lasti :: int
  fs_nbehind :: int
  fs_flags :: "32 word"
  fs_magic2 :: "32 word"

text \<open>A structure \<^verbatim>\<open>fblk\<close> lies in the super block from \<open>fs_nfree\<close> on; the words of both.\<close>

definition fblk_words :: "fs \<Rightarrow> 32 word list" where
  "fblk_words f = word_of_int (fs_nfree f) # map word_of_int (fs_free f)"

definition fs_words :: "fs \<Rightarrow> 32 word list" where
  "fs_words f =
     [fs_magic1 f, word_of_int (fs_isize f), word_of_int (fs_fsize f), word_of_int (fs_swapsz f)] @ fblk_words f
     @ word_of_int (fs_ninode f) # map word_of_int (fs_inode f)
     @ map word_of_int [fs_flock f, fs_fmod f, fs_ilock f, fs_ronly f, fs_time f, fs_tfree f, fs_tinode f]
     @ fs_fsmnt f @ [word_of_int (fs_lasti f), word_of_int (fs_nbehind f), fs_flags f, fs_magic2 f]"

definition load_fblk :: "block \<Rightarrow> fs \<Rightarrow> fs" where
  "load_fblk x f = f\<lparr>fs_nfree := sint (x ! 0), fs_free := map sint (take 200 (drop 1 x))\<rparr>"

definition store_fblk :: "fs \<Rightarrow> block \<Rightarrow> block" where
  "store_fblk f x = fblk_words f @ drop 201 x"

datatype fschan = Fs_flock | Fs_ilock

record ufs =
  bst :: bio
  sb :: fs
  now :: int
  rablock :: int
  fs_woken :: "fschan list"

definition upd_fs :: "(fs \<Rightarrow> fs) \<Rightarrow> ufs \<Rightarrow> ufs" where
  "upd_fs g st = st\<lparr>sb := g (sb st)\<rparr>"

definition ubuf :: "nat \<Rightarrow> ufs \<Rightarrow> buf" where
  "ubuf b st = bufs (bst st) b"

definition in_cache :: "(bio \<Rightarrow> bio) \<Rightarrow> ufs \<Rightarrow> ufs" where
  "in_cache g st = st\<lparr>bst := g (bst st)\<rparr>"

definition with_cache :: "(bio \<Rightarrow> bio cres) \<Rightarrow> ufs \<Rightarrow> ufs cres" where
  "with_cache g st = bind_cres (g (bst st)) (\<lambda>c. Ok (st\<lparr>bst := c\<rparr>))"

definition with_buf :: "(bio \<Rightarrow> (bio \<times> nat) cres) \<Rightarrow> ufs \<Rightarrow> (ufs \<times> nat) cres" where
  "with_buf g st = bind_cres (g (bst st)) (\<lambda>(c, b). Ok (st\<lparr>bst := c\<rparr>, b))"

section \<open>Free blocks\<close>

definition badblock :: "fs \<Rightarrow> int \<Rightarrow> bool" where
  "badblock f bn \<longleftrightarrow> bn mod 2 ^ 32 < fs_isize f \<or> bn mod 2 ^ 32 \<ge> fs_fsize f"

fun wait_flock :: "(nat \<Rightarrow> ufs \<Rightarrow> ufs) \<Rightarrow> nat \<Rightarrow> ufs \<Rightarrow> ufs cres" where
  "wait_flock fenv 0 st = (if fs_flock (sb st) \<noteq> 0 then Stuck else Ok st)"
| "wait_flock fenv (Suc n) st = (if fs_flock (sb st) \<noteq> 0 then wait_flock fenv n (fenv n st) else Ok st)"

function balloc_pick :: "fs \<Rightarrow> fs \<times> int option" where
  "balloc_pick f =
     (if fs_nfree f \<le> 0 then (f, None)
      else if fs_nfree f > NICFREE then (f, None)
      else
        let f' = f\<lparr>fs_nfree := fs_nfree f - 1\<rparr>; bno = fs_free f' ! nat (fs_nfree f')
        in if bno = 0 then (f', None) else if badblock f' bno then balloc_pick f' else (f', Some bno))"
  by auto
termination by (relation "measure (\<lambda>f. nat (fs_nfree f))") auto

declare balloc_pick.simps [simp del]

text \<open>The next part of the free list is read from the last block of this one; the super block is written back.\<close>

definition balloc_refill :: "sdisk \<Rightarrow> (nat \<Rightarrow> bio \<Rightarrow> bio) \<Rightarrow> nat \<Rightarrow> bool \<Rightarrow> int \<Rightarrow> int \<Rightarrow> ufs \<Rightarrow> ufs cres" where
  "balloc_refill d env n async dev bno st =
     (let st = upd_fs (\<lambda>f. f\<lparr>fs_flock := fs_flock f + 1\<rparr>) st
      in bind_cres (with_buf (bread d env n dev bno) st) (\<lambda>(st, b).
           let st = (if b_flags (ubuf b st) AND B_ERROR = 0 \<and> b_resid (ubuf b st) = 0 then upd_fs (load_fblk (b_data (ubuf b st))) st else st);
               st = in_cache (brelse b) st
           in bind_cres (with_buf (getblk d env n dev SUPERB) st) (\<lambda>(st, b).
                let st = upd_fs (\<lambda>f. f\<lparr>fs_fmod := 0, fs_time := now st\<rparr>) st;
                    st = in_cache (upd_buf b (\<lambda>p. p\<lparr>b_data := fs_words (sb st)\<rparr>)) st
                in bind_cres (if \<not> async then with_cache (bwrite d env n b) st else Ok (in_cache (bdwrite b) st)) (\<lambda>st.
                     Ok (upd_fs (\<lambda>f. f\<lparr>fs_flock := 0\<rparr>) (st\<lparr>fs_woken := Fs_flock # fs_woken st\<rparr>))))))"

definition balloc_take :: "sdisk \<Rightarrow> (nat \<Rightarrow> bio \<Rightarrow> bio) \<Rightarrow> nat \<Rightarrow> int \<Rightarrow> 32 word \<Rightarrow> int \<Rightarrow> ufs \<Rightarrow> (ufs \<times> nat option) cres" where
  "balloc_take d env n dev flags bno st =
     bind_cres (with_buf (getblk d env n dev bno) st) (\<lambda>(st, b).
       let st = in_cache (upd_buf b (\<lambda>p. p\<lparr>b_resid := 0\<rparr>)) st;
           st = (if flags AND B_CLRBUF \<noteq> 0 then in_cache (upd_buf b (\<lambda>p. p\<lparr>b_data := replicate 256 0\<rparr>)) st else st)
       in Ok (upd_fs (\<lambda>f. f\<lparr>fs_fmod := 1, fs_tfree := (fs_tfree f - 1) mod 2 ^ 32\<rparr>) st, Some b))"

definition balloc_nospace :: "(nat \<Rightarrow> ufs \<Rightarrow> ufs) \<Rightarrow> ufs \<Rightarrow> (ufs \<times> nat option) cres" where
  "balloc_nospace fenv st =
     (let st = upd_fs (\<lambda>f. f\<lparr>fs_nfree := 0, fs_tfree := 0\<rparr>) st;
          st = fenv 0 (fenv 1 (fenv 2 (fenv 3 (fenv 4 st))))
      in Ok (in_cache (\<lambda>c. c\<lparr>uerror := 28\<rparr>) st, None))"

definition balloc :: "sdisk \<Rightarrow> (nat \<Rightarrow> bio \<Rightarrow> bio) \<Rightarrow> (nat \<Rightarrow> ufs \<Rightarrow> ufs) \<Rightarrow> nat \<Rightarrow> int \<Rightarrow> 32 word \<Rightarrow> ufs \<Rightarrow> (ufs \<times> nat option) cres" where
  "balloc d env fenv n dev flags st =
     (let async = fs_flags (sb st) AND MNT_ASYNC \<noteq> 0 in
     bind_cres (wait_flock fenv n st) (\<lambda>st.
       case balloc_pick (sb st) of
         (f, None) \<Rightarrow> balloc_nospace fenv (st\<lparr>sb := f\<rparr>)
       | (f, Some bno) \<Rightarrow>
           let st = st\<lparr>sb := f\<rparr>
           in if fs_nfree f \<le> 0 then
                bind_cres (balloc_refill d env n async dev bno st) (\<lambda>st.
                  if fs_nfree (sb st) \<le> 0 then balloc_nospace fenv st else balloc_take d env n dev flags bno st)
              else balloc_take d env n dev flags bno st))"

definition free :: "sdisk \<Rightarrow> (nat \<Rightarrow> bio \<Rightarrow> bio) \<Rightarrow> (nat \<Rightarrow> ufs \<Rightarrow> ufs) \<Rightarrow> nat \<Rightarrow> int \<Rightarrow> int \<Rightarrow> ufs \<Rightarrow> ufs cres" where
  "free d env fenv n dev bno st =
     (if badblock (sb st) bno then Ok st
      else bind_cres (wait_flock fenv n st) (\<lambda>st.
        let st = upd_fs (\<lambda>f. if fs_nfree f \<le> 0 then f\<lparr>fs_nfree := 1, fs_free := (fs_free f)[0 := 0]\<rparr> else f) st
        in bind_cres
             (if fs_nfree (sb st) \<ge> NICFREE then
                let st = upd_fs (\<lambda>f. f\<lparr>fs_flock := fs_flock f + 1\<rparr>) st
                in bind_cres (with_buf (getblk d env n dev bno) st) (\<lambda>(st, b).
                     let st = in_cache (upd_buf b (\<lambda>p. p\<lparr>b_data := store_fblk (sb st) (b_data p)\<rparr>)) st;
                         st = upd_fs (\<lambda>f. f\<lparr>fs_nfree := 0\<rparr>) st
                     in bind_cres (if fs_flags (sb st) AND MNT_ASYNC \<noteq> 0 then Ok (in_cache (bdwrite b) st) else with_cache (bwrite d env n b) st) (\<lambda>st.
                          Ok (upd_fs (\<lambda>f. f\<lparr>fs_flock := 0\<rparr>) (st\<lparr>fs_woken := Fs_flock # fs_woken st\<rparr>))))
              else Ok st)
             (\<lambda>st. Ok (upd_fs (\<lambda>f. f\<lparr>fs_free := (fs_free f)[nat (fs_nfree f) := bno], fs_nfree := fs_nfree f + 1,
                                fs_tfree := (fs_tfree f + 1) mod 2 ^ 32, fs_fmod := 1\<rparr>) st))))"

definition ifree :: "int \<Rightarrow> ufs \<Rightarrow> ufs" where
  "ifree ino st =
     (let st = upd_fs (\<lambda>f. f\<lparr>fs_tinode := (fs_tinode f + 1) mod 2 ^ 32\<rparr>) st
      in if fs_ilock (sb st) \<noteq> 0 then st
         else if fs_ninode (sb st) \<ge> NICINOD then
           (if fs_lasti (sb st) > ino then upd_fs (\<lambda>f. f\<lparr>fs_nbehind := (fs_nbehind f + 1) mod 2 ^ 32\<rparr>) st else st)
         else upd_fs (\<lambda>f. f\<lparr>fs_inode := (fs_inode f)[nat (fs_ninode f) := ino], fs_ninode := fs_ninode f + 1, fs_fmod := 1\<rparr>) st)"

section \<open>The block map\<close>

abbreviation (input) IUPD :: "32 word" where "IUPD \<equiv> 2"
abbreviation (input) ICHG :: "32 word" where "ICHG \<equiv> 0x40"

definition set_addr :: "nat \<Rightarrow> int \<Rightarrow> inode \<Rightarrow> inode" where
  "set_addr i nb ip = ip\<lparr>i_addr := (i_addr ip)[i := nb], i_flag := i_flag ip OR (IUPD OR ICHG)\<rparr>"

text \<open>How many levels of indirection: \<open>j\<close> counts down from 3; the number left of the block within its level.\<close>

fun bmap_level :: "nat \<Rightarrow> nat \<Rightarrow> int \<Rightarrow> (nat \<times> nat \<times> int) option" where
  "bmap_level 0 sh bn = None"
| "bmap_level (Suc j) sh bn =
     (let sh = sh + 8; nb = 2 ^ sh in if bn < nb then Some (Suc j, sh, bn) else bmap_level j sh (bn - nb))"

text \<open>
  One round of the loop through the indirect blocks: \<open>Inl\<close> the value returned, or \<open>Inr\<close> the block number found and the one to read ahead.
  \<open>wr\<close> stands for \<^verbatim>\<open>rwflg != B_READ\<close>.
\<close>

definition bmap_step :: "sdisk \<Rightarrow> (nat \<Rightarrow> bio \<Rightarrow> bio) \<Rightarrow> (nat \<Rightarrow> ufs \<Rightarrow> ufs) \<Rightarrow> nat \<Rightarrow> int \<Rightarrow> bool \<Rightarrow> 32 word \<Rightarrow> bool \<Rightarrow> int \<Rightarrow> nat \<Rightarrow> nat \<Rightarrow> int \<Rightarrow> int \<Rightarrow> ufs
    \<Rightarrow> ((ufs \<times> int) + (ufs \<times> int \<times> int)) cres" where
  "bmap_step d env fenv n dev wr flags async bn j sh nb ra st =
     bind_cres (with_buf (bread d env n dev nb) st) (\<lambda>(st, bp).
       if b_flags (ubuf bp st) AND B_ERROR \<noteq> 0 \<or> b_resid (ubuf bp st) \<noteq> 0 then Ok (Inl (in_cache (brelse bp) st, 0))
       else
         let i = nat (bn div 2 ^ sh mod 256); nb = sint (b_data (ubuf bp st) ! i);
             ra = (if i < 255 then sint (b_data (ubuf bp st) ! (i + 1)) else ra)
         in if nb = 0 then
              (if \<not> wr then Ok (Inl (in_cache (brelse bp) st, - 1))
               else bind_cres (balloc d env fenv n dev (flags OR B_CLRBUF) st) (\<lambda>(st, r).
                 case r of
                   None \<Rightarrow> Ok (Inl (in_cache (brelse bp) st, - 1))
                 | Some nbp \<Rightarrow>
                     let nb = b_blkno (ubuf nbp st)
                     in bind_cres (if \<not> async \<and> (j < 3 \<or> flags AND B_SYNC \<noteq> 0) then with_cache (bwrite d env n nbp) st else Ok (in_cache (bdwrite nbp) st)) (\<lambda>st.
                          let st = in_cache (upd_buf bp (\<lambda>p. p\<lparr>b_data := (b_data p)[i := word_of_int nb]\<rparr>)) st
                          in Ok (Inr (in_cache (bdwrite bp) st, nb, ra)))))
            else Ok (Inr (in_cache (brelse bp) st, nb, ra)))"

text \<open>The rounds from \<open>j = 4 - k\<close> to \<open>j = 3\<close>.\<close>

fun bmap_walk :: "sdisk \<Rightarrow> (nat \<Rightarrow> bio \<Rightarrow> bio) \<Rightarrow> (nat \<Rightarrow> ufs \<Rightarrow> ufs) \<Rightarrow> nat \<Rightarrow> int \<Rightarrow> bool \<Rightarrow> 32 word \<Rightarrow> bool \<Rightarrow> int \<Rightarrow> nat \<Rightarrow> nat \<Rightarrow> int \<Rightarrow> int \<Rightarrow> ufs
    \<Rightarrow> (ufs \<times> int) cres" where
  "bmap_walk d env fenv n dev wr flags async bn 0 sh nb ra st = Ok (st\<lparr>rablock := ra\<rparr>, nb)"
| "bmap_walk d env fenv n dev wr flags async bn (Suc k) sh nb ra st =
     bind_cres (bmap_step d env fenv n dev wr flags async bn (3 - k) (sh - 8) nb ra st) (\<lambda>r.
       case r of Inl x \<Rightarrow> Ok x | Inr (st, nb, ra) \<Rightarrow> bmap_walk d env fenv n dev wr flags async bn k (sh - 8) nb ra st)"

definition bmap :: "sdisk \<Rightarrow> (nat \<Rightarrow> bio \<Rightarrow> bio) \<Rightarrow> (nat \<Rightarrow> ufs \<Rightarrow> ufs) \<Rightarrow> nat \<Rightarrow> inode \<Rightarrow> int \<Rightarrow> bool \<Rightarrow> 32 word \<Rightarrow> ufs \<Rightarrow> (ufs \<times> inode \<times> int) cres" where
  "bmap d env fenv n ip bn wr flags st =
     (let async = fs_flags (sb st) AND MNT_ASYNC \<noteq> 0
      in if bn < 0 then Ok (in_cache (\<lambda>c. c\<lparr>uerror := 27\<rparr>) st, ip, 0)
         else
           let st = st\<lparr>rablock := 0\<rparr>
           in if bn < 4 then
                let i = nat bn; nb = i_addr ip ! i;
                    ret = (\<lambda>(st, ip, nb). Ok ((if i < 3 then st\<lparr>rablock := i_addr ip ! (i + 1)\<rparr> else st), ip, nb))
                in if nb = 0 then
                     (if \<not> wr then Ok (st, ip, - 1)
                      else bind_cres (balloc d env fenv n (i_dev ip) flags st) (\<lambda>(st, r).
                        case r of
                          None \<Rightarrow> Ok (st, ip, - 1)
                        | Some bp \<Rightarrow>
                            let nb = b_blkno (ubuf bp st)
                            in bind_cres (if flags AND B_SYNC \<noteq> 0 then with_cache (bwrite d env n bp) st else Ok (in_cache (bdwrite bp) st)) (\<lambda>st.
                                 ret (st, set_addr i nb ip, nb))))
                   else ret (st, ip, nb)
              else case bmap_level 3 0 (bn - 4) of
                None \<Rightarrow> Ok (in_cache (\<lambda>c. c\<lparr>uerror := 27\<rparr>) st, ip, 0)
              | Some (j, sh, bn) \<Rightarrow>
                  let nb = i_addr ip ! (7 - j);
                      walk = (\<lambda>(st, ip, nb). bind_cres (bmap_walk d env fenv n (i_dev ip) wr flags async bn (4 - j) sh nb 0 st) (\<lambda>(st, nb). Ok (st, ip, nb)))
                  in if nb = 0 then
                       (if \<not> wr then Ok (st, ip, - 1)
                        else bind_cres (balloc d env fenv n (i_dev ip) (flags OR B_CLRBUF) st) (\<lambda>(st, r).
                          case r of
                            None \<Rightarrow> Ok (st, ip, - 1)
                          | Some bp \<Rightarrow>
                              let nb = b_blkno (ubuf bp st)
                              in bind_cres (if async then Ok (in_cache (bdwrite bp) st) else with_cache (bwrite d env n bp) st) (\<lambda>st.
                                   walk (st, set_addr (7 - j) nb ip, nb))))
                     else walk (st, ip, nb))"

end
