(* ===== verification/Bio_Inv.thy ===== *)
theory Bio_Inv
  imports Bio
begin

text \<open>
  The buffer cache is transparent: whatever is cached, delayed or evicted, a block read is the block last written.
\<close>

section \<open>Flags\<close>

abbreviation (input) is_done :: "buf \<Rightarrow> bool" where "is_done p \<equiv> bit (b_flags p) 1"
abbreviation (input) is_error :: "buf \<Rightarrow> bool" where "is_error p \<equiv> bit (b_flags p) 2"
abbreviation (input) is_busy :: "buf \<Rightarrow> bool" where "is_busy p \<equiv> bit (b_flags p) 3"
abbreviation (input) is_async :: "buf \<Rightarrow> bool" where "is_async p \<equiv> bit (b_flags p) 8"
abbreviation (input) is_delwri :: "buf \<Rightarrow> bool" where "is_delwri p \<equiv> bit (b_flags p) 9"
abbreviation (input) is_inval :: "buf \<Rightarrow> bool" where "is_inval p \<equiv> bit (b_flags p) 11"
abbreviation (input) is_locked :: "buf \<Rightarrow> bool" where "is_locked p \<equiv> bit (b_flags p) 13"

lemma and_or_zero: "w AND (a OR b) = 0 \<longleftrightarrow> w AND a = 0 \<and> w AND b = 0" for w a b :: "32 word"
proof -
  have "w AND (a OR b) = (w AND a) OR (w AND b)" by (rule bit.conj_disj_distrib)
  then show ?thesis by (simp only: or_eq_0_iff)
qed

lemma bflag_bits:
  fixes w :: "32 word"
  shows "w AND B_READ = 0 \<longleftrightarrow> \<not> bit w 0" "w AND B_DONE = 0 \<longleftrightarrow> \<not> bit w 1" "w AND B_ERROR = 0 \<longleftrightarrow> \<not> bit w 2"
    "w AND B_BUSY = 0 \<longleftrightarrow> \<not> bit w 3" "w AND B_ASYNC = 0 \<longleftrightarrow> \<not> bit w 8" "w AND B_DELWRI = 0 \<longleftrightarrow> \<not> bit w 9"
    "w AND B_INVAL = 0 \<longleftrightarrow> \<not> bit w 11" "w AND B_LOCKED = 0 \<longleftrightarrow> \<not> bit w 13"
  using and_exp_eq_0_iff_not_bit [of w 0] and_exp_eq_0_iff_not_bit [of w 1] and_exp_eq_0_iff_not_bit [of w 2] and_exp_eq_0_iff_not_bit [of w 3]
    and_exp_eq_0_iff_not_bit [of w 8] and_exp_eq_0_iff_not_bit [of w 9] and_exp_eq_0_iff_not_bit [of w 11] and_exp_eq_0_iff_not_bit [of w 13]
  by simp_all

lemma bflag_two:
  fixes w :: "32 word"
  shows "w AND 514 = 0 \<longleftrightarrow> \<not> bit w 1 \<and> \<not> bit w 9" "w AND 2052 = 0 \<longleftrightarrow> \<not> bit w 2 \<and> \<not> bit w 11" "w AND 520 = 0 \<longleftrightarrow> \<not> bit w 3 \<and> \<not> bit w 9"
  using and_or_zero [of w B_DONE B_DELWRI] and_or_zero [of w B_ERROR B_INVAL] and_or_zero [of w B_BUSY B_DELWRI] by (simp_all add: bflag_bits)

section \<open>Frames\<close>

lemma upd_buf_simps [simp]:
  "chains (upd_buf b f st) = chains st" "bfreelist (upd_buf b f st) = bfreelist st" "bwanted (upd_buf b f st) = bwanted st"
  "card (upd_buf b f st) = card st" "uerror (upd_buf b f st) = uerror st"
  "bufs (upd_buf b f st) x = (if x = b then f (bufs st b) else bufs st x)"
  by (auto simp: upd_buf_def)

lemma bset_simps [simp]:
  "chains (bset b w st) = chains st" "bfreelist (bset b w st) = bfreelist st" "bwanted (bset b w st) = bwanted st"
  "card (bset b w st) = card st" "uerror (bset b w st) = uerror st"
  "bufs (bset b w st) x = (if x = b then (bufs st b)\<lparr>b_flags := b_flags (bufs st b) OR w\<rparr> else bufs st x)"
  by (auto simp: bset_def)

lemma bclr_simps [simp]:
  "chains (bclr b w st) = chains st" "bfreelist (bclr b w st) = bfreelist st" "bwanted (bclr b w st) = bwanted st"
  "card (bclr b w st) = card st" "uerror (bclr b w st) = uerror st"
  "bufs (bclr b w st) x = (if x = b then (bufs st b)\<lparr>b_flags := b_flags (bufs st b) AND NOT w\<rparr> else bufs st x)"
  by (auto simp: bclr_def)

lemma bwakeup_simps [simp]:
  "chains (bwakeup x st) = chains st" "bfreelist (bwakeup x st) = bfreelist st" "card (bwakeup x st) = card st"
  "uerror (bwakeup x st) = uerror st" "bufs (bwakeup x st) = bufs st"
  by (auto simp: bwakeup_def)

text \<open>What \<open>brelse\<close> does to a buffer without error.\<close>

definition relflags :: "32 word \<Rightarrow> 32 word" where
  "relflags w = w AND NOT (B_WANTED OR B_BUSY OR B_ASYNC OR B_AGE)"

lemma relflags_bits [simp]:
  "bit (relflags w) 1 = bit w 1" "bit (relflags w) 2 = bit w 2" "\<not> bit (relflags w) 3" "\<not> bit (relflags w) 8"
  "bit (relflags w) 9 = bit w 9" "bit (relflags w) 11 = bit w 11" "bit (relflags w) 13 = bit w 13" "bit (relflags w) (Suc 0) = bit w 1"
  by (auto simp: relflags_def bit_simps)

lemma brelse_bufs:
  assumes "\<not> is_error (bufs st b)"
  shows "bufs (brelse b st) = (bufs st)(b := (bufs st b)\<lparr>b_flags := relflags (b_flags (bufs st b))\<rparr>)"
    "card (brelse b st) = card st" "chains (brelse b st) = chains st" "uerror (brelse b st) = uerror st"
  using assms by (auto simp: brelse_def Let_def bflags_def bflag_bits binsheadfree_def binstailfree_def relflags_def fun_eq_iff)

lemma brelse_free:
  assumes "\<not> is_error (bufs st b)" "\<not> is_locked (bufs st b)"
  shows "\<exists>q\<in>{BQ_LRU, BQ_AGE}. \<exists>l r. bfreelist st q = l @ r \<and> bfreelist (brelse b st) = (bfreelist st)(q := l @ b # r)"
proof -
  have "\<exists>q\<in>{BQ_LRU, BQ_AGE}. bfreelist (brelse b st) = (bfreelist st)(q := b # bfreelist st q)
      \<or> bfreelist (brelse b st) = (bfreelist st)(q := bfreelist st q @ [b])"
    using assms by (auto simp: brelse_def Let_def bflags_def bflag_bits binsheadfree_def binstailfree_def)
  then show ?thesis by (metis append.left_neutral append_Nil2)
qed

section \<open>The invariant\<close>

text \<open>Where a block of a device lies on the card, and which blocks can be read and written.\<close>

definition loc :: "sdisk \<Rightarrow> int \<Rightarrow> int \<Rightarrow> int \<times> int" where
  "loc d dev blk = (sdunit dev, blk + dp_offset d dev div 2)"

definition on_card :: "sdisk \<Rightarrow> bio \<Rightarrow> int \<Rightarrow> int \<Rightarrow> block" where
  "on_card d st dev blk = card st (fst (loc d dev blk)) (snd (loc d dev blk))"

definition usable :: "sdisk \<Rightarrow> int set \<Rightarrow> int \<Rightarrow> int \<Rightarrow> bool" where
  "usable d devs dev blk \<longleftrightarrow> dev \<in> devs \<and> dev \<noteq> NODEV \<and> 0 \<le> blk \<and> blk < dp_nsectors d dev div 2
     \<and> (snd (loc d dev blk) \<noteq> 0 \<or> label_writable d (sdunit dev)) \<and> rd_ok d (sdunit dev) (snd (loc d dev blk)) \<and> wr_ok d (sdunit dev) (snd (loc d dev blk))"

text \<open>The devices in use are partitions that do not overlap.\<close>

definition parts_ok :: "sdisk \<Rightarrow> int set \<Rightarrow> bool" where
  "parts_ok d devs \<longleftrightarrow> (\<forall>dev blk dev' blk'. usable d devs dev blk \<longrightarrow> usable d devs dev' blk' \<longrightarrow> loc d dev blk = loc d dev' blk' \<longrightarrow> dev = dev' \<and> blk = blk')"

text \<open>A buffer that holds a block.\<close>

definition valid :: "buf \<Rightarrow> bool" where
  "valid p \<longleftrightarrow> b_dev p \<noteq> NODEV \<and> \<not> is_inval p"

definition chains_ok :: "nat \<Rightarrow> bio \<Rightarrow> bool" where
  "chains_ok N st \<longleftrightarrow> (\<forall>h. distinct (chains st h)) \<and> (\<forall>h h' b. b \<in> set (chains st h) \<longrightarrow> b \<in> set (chains st h') \<longrightarrow> h = h')
     \<and> (\<forall>b. (\<exists>h. b \<in> set (chains st h)) \<longleftrightarrow> b < N)"

definition free_ok :: "nat \<Rightarrow> nat set \<Rightarrow> bio \<Rightarrow> bool" where
  "free_ok N X st \<longleftrightarrow> bfreelist st BQ_LOCKED = [] \<and> distinct (bfreelist st BQ_AGE @ bfreelist st BQ_LRU)
     \<and> set (bfreelist st BQ_AGE @ bfreelist st BQ_LRU) = {b. b < N \<and> b \<notin> X} \<and> X \<subseteq> {..<N}"

definition hashed_ok :: "sdisk \<Rightarrow> int set \<Rightarrow> nat \<Rightarrow> bio \<Rightarrow> bool" where
  "hashed_ok d devs N st \<longleftrightarrow> (\<forall>b<N. valid (bufs st b) \<longrightarrow> b \<in> set (chains st (BUFHASH (b_dev (bufs st b)) (b_blkno (bufs st b))))
       \<and> usable d devs (b_dev (bufs st b)) (b_blkno (bufs st b)))
     \<and> (\<forall>b<N. \<forall>c<N. valid (bufs st b) \<longrightarrow> valid (bufs st c) \<longrightarrow> b_dev (bufs st b) = b_dev (bufs st c) \<longrightarrow> b_blkno (bufs st b) = b_blkno (bufs st c) \<longrightarrow> b = c)"

text \<open>A buffer that is not in use: clean and complete, it agrees with the card; if its write is delayed, it holds a block.\<close>

definition idle_ok :: "sdisk \<Rightarrow> bio \<Rightarrow> nat \<Rightarrow> bool" where
  "idle_ok d st b \<longleftrightarrow> (let p = bufs st b in \<not> is_busy p \<and> \<not> is_error p \<and> \<not> is_locked p \<and> \<not> is_async p \<and> (is_delwri p \<longrightarrow> valid p \<and> is_done p)
     \<and> (valid p \<and> is_done p \<and> \<not> is_delwri p \<longrightarrow> b_data p = on_card d st (b_dev p) (b_blkno p)))"

definition binv :: "sdisk \<Rightarrow> int set \<Rightarrow> nat \<Rightarrow> nat set \<Rightarrow> bio \<Rightarrow> bool" where
  "binv d devs N X st \<longleftrightarrow> chains_ok N st \<and> free_ok N X st \<and> hashed_ok d devs N st \<and> (\<forall>b<N. b \<notin> X \<longrightarrow> idle_ok d st b)"

text \<open>The block as a reader sees it.\<close>

definition cached :: "bio \<Rightarrow> int \<Rightarrow> int \<Rightarrow> nat option" where
  "cached st dev blk = List.find (\<lambda>b. bmatch dev blk (bufs st b)) (chains st (BUFHASH dev blk))"

definition view :: "sdisk \<Rightarrow> bio \<Rightarrow> int \<Rightarrow> int \<Rightarrow> block" where
  "view d st dev blk = (case cached st dev blk of
     Some b \<Rightarrow> if is_done (bufs st b) \<or> is_delwri (bufs st b) then b_data (bufs st b) else on_card d st dev blk
   | None \<Rightarrow> on_card d st dev blk)"

lemma bmatch_valid: "dev \<noteq> NODEV \<Longrightarrow> bmatch dev blk p \<longleftrightarrow> valid p \<and> b_dev p = dev \<and> b_blkno p = blk"
  by (auto simp: bmatch_def valid_def bflag_bits)

lemma cached_iff:
  assumes "chains_ok N st" "hashed_ok d devs N st" "dev \<noteq> NODEV"
  shows "cached st dev blk = Some b \<longleftrightarrow> b < N \<and> valid (bufs st b) \<and> b_dev (bufs st b) = dev \<and> b_blkno (bufs st b) = blk"
proof
  assume "cached st dev blk = Some b"
  then have "b \<in> set (chains st (BUFHASH dev blk))" "bmatch dev blk (bufs st b)"
    unfolding cached_def find_Some_iff by auto
  then show "b < N \<and> valid (bufs st b) \<and> b_dev (bufs st b) = dev \<and> b_blkno (bufs st b) = blk"
    using assms by (auto simp: bmatch_valid chains_ok_def)
next
  assume b: "b < N \<and> valid (bufs st b) \<and> b_dev (bufs st b) = dev \<and> b_blkno (bufs st b) = blk"
  then have "b \<in> set (chains st (BUFHASH dev blk))" using assms by (auto simp: hashed_ok_def)
  with b have "cached st dev blk \<noteq> None" using assms unfolding cached_def by (auto simp: find_None_iff bmatch_valid)
  then obtain c where c: "cached st dev blk = Some c" by auto
  then have "c \<in> set (chains st (BUFHASH dev blk))" "bmatch dev blk (bufs st c)"
    unfolding cached_def find_Some_iff by auto
  then have "c < N" "valid (bufs st c)" "b_dev (bufs st c) = dev" "b_blkno (bufs st c) = blk"
    using assms by (auto simp: bmatch_valid chains_ok_def)
  then have "c = b" using b assms(2) by (auto simp: hashed_ok_def)
  with c show "cached st dev blk = Some b" by simp
qed

text \<open>What a reader sees in a buffer.\<close>

definition seen :: "sdisk \<Rightarrow> bio \<Rightarrow> nat \<Rightarrow> block" where
  "seen d st b = (if is_done (bufs st b) \<or> is_delwri (bufs st b) then b_data (bufs st b)
     else on_card d st (b_dev (bufs st b)) (b_blkno (bufs st b)))"

lemma view_hit:
  assumes "chains_ok N st" "hashed_ok d devs N st" "b < N" "valid (bufs st b)" "b_dev (bufs st b) = dev" "b_blkno (bufs st b) = blk"
  shows "view d st dev blk = seen d st b"
proof -
  have "cached st dev blk = Some b"
    using cached_iff [OF assms(1,2), of dev blk b] assms(3-) by (auto simp: valid_def)
  then show ?thesis using assms(5,6) by (simp add: view_def seen_def)
qed

lemma view_miss:
  assumes "chains_ok N st" "hashed_ok d devs N st" "dev \<noteq> NODEV"
    and "\<forall>b<N. \<not> (valid (bufs st b) \<and> b_dev (bufs st b) = dev \<and> b_blkno (bufs st b) = blk)"
  shows "view d st dev blk = on_card d st dev blk"
proof -
  have "cached st dev blk = None" using cached_iff [OF assms(1-3), of blk] assms(4) by (cases "cached st dev blk") auto
  then show ?thesis by (simp add: view_def)
qed

text \<open>Two states with the same blocks in the same buffers look the same where the card does.\<close>

definition same_tags :: "nat \<Rightarrow> bio \<Rightarrow> bio \<Rightarrow> bool" where
  "same_tags N st st' \<longleftrightarrow> (\<forall>b<N. valid (bufs st' b) = valid (bufs st b) \<and> b_dev (bufs st' b) = b_dev (bufs st b) \<and> b_blkno (bufs st' b) = b_blkno (bufs st b))"

lemma view_cong:
  assumes st: "chains_ok N st" "hashed_ok d devs N st" and st': "chains_ok N st'" "hashed_ok d devs N st'" and dev: "dev \<noteq> NODEV"
    and b: "same_tags N st st'"
    and p: "\<And>b. b < N \<Longrightarrow> valid (bufs st b) \<Longrightarrow> b_dev (bufs st b) = dev \<Longrightarrow> b_blkno (bufs st b) = blk \<Longrightarrow> seen d st' b = seen d st b"
    and c: "\<forall>b<N. \<not> (valid (bufs st b) \<and> b_dev (bufs st b) = dev \<and> b_blkno (bufs st b) = blk) \<Longrightarrow> on_card d st' dev blk = on_card d st dev blk"
  shows "view d st' dev blk = view d st dev blk"
proof (cases "\<exists>b<N. valid (bufs st b) \<and> b_dev (bufs st b) = dev \<and> b_blkno (bufs st b) = blk")
  case True
  then obtain x where x: "x < N" "valid (bufs st x)" "b_dev (bufs st x) = dev" "b_blkno (bufs st x) = blk" by blast
  have x': "valid (bufs st' x)" "b_dev (bufs st' x) = dev" "b_blkno (bufs st' x) = blk" using b x by (auto simp: same_tags_def)
  show ?thesis using view_hit [OF st x] view_hit [OF st' x(1) x'] p [OF x] by simp
next
  case False
  then have n: "\<forall>b<N. \<not> (valid (bufs st b) \<and> b_dev (bufs st b) = dev \<and> b_blkno (bufs st b) = blk)" by blast
  then have n': "\<forall>b<N. \<not> (valid (bufs st' b) \<and> b_dev (bufs st' b) = dev \<and> b_blkno (bufs st' b) = blk)" using b by (auto simp: same_tags_def)
  show ?thesis using view_miss [OF st dev n] view_miss [OF st' dev n'] c [OF n] by simp
qed

lemma hashed_tags:
  assumes h: "hashed_ok d devs N st" and t: "same_tags N st st'" and c: "chains st' = chains st"
  shows "hashed_ok d devs N st'"
proof -
  have t': "valid (bufs st' b) = valid (bufs st b)" "b_dev (bufs st' b) = b_dev (bufs st b)" "b_blkno (bufs st' b) = b_blkno (bufs st b)" if "b < N" for b
    using t that by (auto simp: same_tags_def)
  from h show ?thesis unfolding hashed_ok_def c by (simp add: t' cong: conj_cong imp_cong)
qed

lemma frame_view:
  assumes st: "chains_ok N st" "hashed_ok d devs N st" and c: "chains st' = chains st" and t: "same_tags N st st'"
    and sn: "\<And>b. b < N \<Longrightarrow> seen d st' b = seen d st b" and oc: "card st' = card st"
  shows "chains_ok N st'" "hashed_ok d devs N st'" "\<forall>dev blk. dev \<noteq> NODEV \<longrightarrow> view d st' dev blk = view d st dev blk"
proof -
  show ch: "chains_ok N st'" using st(1) unfolding chains_ok_def c .
  show ha: "hashed_ok d devs N st'" by (rule hashed_tags [OF st(2) t c])
  show "\<forall>dev blk. dev \<noteq> NODEV \<longrightarrow> view d st' dev blk = view d st dev blk"
  proof (intro allI impI)
    fix dev blk :: int assume "dev \<noteq> NODEV"
    then show "view d st' dev blk = view d st dev blk"
      by (rule view_cong [OF st ch ha _ t sn]) (simp add: on_card_def oc)+
  qed
qed

section \<open>Taking a buffer and giving it back\<close>

lemma free_ins:
  assumes "free_ok N (insert b X) st" "b \<notin> X" "q \<in> {BQ_LRU, BQ_AGE}" "bfreelist st q = l @ r" "bfreelist st' = (bfreelist st)(q := l @ b # r)"
  shows "free_ok N X st'"
proof -
  have nb: "b \<notin> set (bfreelist st BQ_AGE)" "b \<notin> set (bfreelist st BQ_LRU)" "b < N" using assms(1) by (auto simp: free_ok_def)
  have "set (bfreelist st' BQ_AGE @ bfreelist st' BQ_LRU) = insert b (set (bfreelist st BQ_AGE @ bfreelist st BQ_LRU))"
    using assms(3-5) by auto
  moreover have "distinct (bfreelist st' BQ_AGE @ bfreelist st' BQ_LRU)" using assms nb by (auto simp: free_ok_def)
  ultimately show ?thesis using assms(1,2,5) nb assms(3) by (auto simp: free_ok_def)
qed

lemma idle_okD: "binv d devs N X st \<Longrightarrow> b < N \<Longrightarrow> b \<notin> X \<Longrightarrow> idle_ok d st b"
  by (simp add: binv_def)

lemma idle_cong:
  assumes "idle_ok d st b" "bufs st' b = bufs st b" "valid (bufs st b) \<Longrightarrow> on_card d st' (b_dev (bufs st b)) (b_blkno (bufs st b)) = on_card d st (b_dev (bufs st b)) (b_blkno (bufs st b))"
  shows "idle_ok d st' b"
  using assms by (auto simp: idle_ok_def Let_def)

lemma brelse_inv:
  assumes inv: "binv d devs N (insert b X) st" "b \<notin> X"
    and b: "\<not> is_error (bufs st b)" "\<not> is_locked (bufs st b)" "is_delwri (bufs st b) \<longrightarrow> valid (bufs st b) \<and> is_done (bufs st b)"
      "valid (bufs st b) \<and> is_done (bufs st b) \<and> \<not> is_delwri (bufs st b) \<longrightarrow> b_data (bufs st b) = on_card d st (b_dev (bufs st b)) (b_blkno (bufs st b))"
  shows "binv d devs N X (brelse b st) \<and> (\<forall>dev blk. dev \<noteq> NODEV \<longrightarrow> view d (brelse b st) dev blk = view d st dev blk)"
proof -
  let ?st = "brelse b st"
  note r = brelse_bufs [OF b(1)]
  have bN: "b < N" using inv(1) by (auto simp: binv_def free_ok_def)
  have oc: "on_card d ?st = on_card d st" by (simp add: on_card_def r fun_eq_iff)
  have tg: "same_tags N st ?st" unfolding same_tags_def r valid_def by simp
  have sn: "seen d ?st c = seen d st c" for c unfolding seen_def oc unfolding r by simp
  have st: "chains_ok N st" "hashed_ok d devs N st" using inv(1) by (simp_all add: binv_def)
  note ch = frame_view [OF st r(3) tg sn r(2)]
  from brelse_free [OF b(1,2)] obtain q l r' where "q \<in> {BQ_LRU, BQ_AGE}" "bfreelist st q = l @ r'" "bfreelist ?st = (bfreelist st)(q := l @ b # r')" by blast
  then have fr: "free_ok N X ?st" using free_ins [of N b X st q l r' ?st] inv by (simp add: binv_def)
  have "idle_ok d ?st c" if "c < N" "c \<notin> X" for c
  proof (cases "c = b")
    case True
    then show ?thesis using b by (simp add: idle_ok_def Let_def r oc valid_def)
  next
    case False
    then show ?thesis using idle_okD [OF inv(1), of c] that by (auto intro!: idle_cong [of d st c] simp: r oc)
  qed
  with ch fr have "binv d devs N X ?st" by (simp add: binv_def)
  with ch(3) show ?thesis by blast
qed

lemma notavail_inv:
  assumes inv: "binv d devs N X st" "b < N" "b \<notin> X"
  shows "binv d devs N (insert b X) (notavail b st) \<and> (\<forall>dev blk. dev \<noteq> NODEV \<longrightarrow> view d (notavail b st) dev blk = view d st dev blk)
     \<and> bufs (notavail b st) = (bufs st)(b := (bufs st b)\<lparr>b_flags := b_flags (bufs st b) OR B_BUSY\<rparr>) \<and> card (notavail b st) = card st
     \<and> chains (notavail b st) = chains st \<and> uerror (notavail b st) = uerror st"
proof -
  let ?st = "notavail b st"
  have r: "bufs ?st = (bufs st)(b := (bufs st b)\<lparr>b_flags := b_flags (bufs st b) OR B_BUSY\<rparr>)" "card ?st = card st" "chains ?st = chains st"
    "uerror ?st = uerror st" "bfreelist ?st = (\<lambda>q. removeAll b (bfreelist st q))"
    by (auto simp: notavail_def fun_eq_iff)
  have oc: "on_card d ?st = on_card d st" by (simp add: on_card_def r fun_eq_iff)
  have tg: "same_tags N st ?st" unfolding same_tags_def r valid_def by (simp add: bit_simps)
  have sn: "seen d ?st c = seen d st c" for c unfolding seen_def oc unfolding r by (simp add: bit_simps)
  have st: "chains_ok N st" "hashed_ok d devs N st" using inv(1) by (simp_all add: binv_def)
  note ch = frame_view [OF st r(3) tg sn r(2)]
  have fr: "free_ok N (insert b X) ?st" using inv unfolding binv_def free_ok_def r by (auto simp: distinct_removeAll)
  have "idle_ok d ?st c" if "c < N" "c \<notin> insert b X" for c
    using idle_okD [OF inv(1), of c] that by (auto intro!: idle_cong [of d st c] simp: r oc)
  with ch fr have "binv d devs N (insert b X) ?st" by (simp add: binv_def)
  with ch(3) r show ?thesis by blast
qed

text \<open>The owner of a buffer may change what it holds, and the block of the card behind it.\<close>

lemma held_inv:
  assumes inv: "binv d devs N (insert b X) st" and v: "valid (bufs st b)" and f: "chains st' = chains st" "bfreelist st' = bfreelist st"
    and o: "\<And>c. c \<noteq> b \<Longrightarrow> bufs st' c = bufs st c"
    and t: "valid (bufs st' b)" "b_dev (bufs st' b) = b_dev (bufs st b)" "b_blkno (bufs st' b) = b_blkno (bufs st b)"
    and oc: "\<And>dev blk. usable d devs dev blk \<Longrightarrow> (dev, blk) \<noteq> (b_dev (bufs st b), b_blkno (bufs st b)) \<Longrightarrow> on_card d st' dev blk = on_card d st dev blk"
  shows "binv d devs N (insert b X) st'"
    and "\<And>dev blk. usable d devs dev blk \<Longrightarrow> (dev, blk) \<noteq> (b_dev (bufs st b), b_blkno (bufs st b)) \<Longrightarrow> view d st' dev blk = view d st dev blk"
    and "view d st' (b_dev (bufs st b)) (b_blkno (bufs st b)) = seen d st' b"
proof -
  have bN: "b < N" using inv by (auto simp: binv_def free_ok_def)
  have st: "chains_ok N st" "hashed_ok d devs N st" using inv by (simp_all add: binv_def)
  have tg: "same_tags N st st'" unfolding same_tags_def using o t v by metis
  have ch: "chains_ok N st'" using st(1) unfolding chains_ok_def f .
  have ha: "hashed_ok d devs N st'" by (rule hashed_tags [OF st(2) tg f(1)])
  have fr: "free_ok N (insert b X) st'" using inv unfolding binv_def free_ok_def f by blast
  have id: "idle_ok d st' c" if "c < N" "c \<notin> insert b X" for c
  proof (rule idle_cong [of d st])
    show "idle_ok d st c" by (rule idle_okD [OF inv that])
    show "bufs st' c = bufs st c" using o that by simp
    assume vc: "valid (bufs st c)"
    then have "usable d devs (b_dev (bufs st c)) (b_blkno (bufs st c))" using st(2) that(1) by (auto simp: hashed_ok_def)
    moreover have "(b_dev (bufs st c), b_blkno (bufs st c)) \<noteq> (b_dev (bufs st b), b_blkno (bufs st b))"
      using st(2) that vc v bN unfolding hashed_ok_def by (metis insertI1 prod.inject)
    ultimately show "on_card d st' (b_dev (bufs st c)) (b_blkno (bufs st c)) = on_card d st (b_dev (bufs st c)) (b_blkno (bufs st c))" by (rule oc)
  qed
  from ch ha fr id show "binv d devs N (insert b X) st'" by (simp add: binv_def)
  show "view d st' (b_dev (bufs st b)) (b_blkno (bufs st b)) = seen d st' b" by (rule view_hit [OF ch ha bN t])
  fix dev blk assume u: "usable d devs dev blk" "(dev, blk) \<noteq> (b_dev (bufs st b), b_blkno (bufs st b))"
  show "view d st' dev blk = view d st dev blk"
  proof (rule view_cong [OF st ch ha _ tg])
    show "dev \<noteq> NODEV" using u by (simp add: usable_def)
    show "on_card d st' dev blk = on_card d st dev blk" by (rule oc [OF u])
    fix c assume c: "c < N" "valid (bufs st c)" "b_dev (bufs st c) = dev" "b_blkno (bufs st c) = blk"
    then have "c \<noteq> b" using u by auto
    then show "seen d st' c = seen d st c" using oc [OF u] c by (simp add: seen_def o)
  qed
qed

section \<open>Transfers\<close>

lemma one_block: "(int DEV_BSIZE + 1023) div 1024 = 1" by simp

lemma sdstrategy_write:
  assumes "usable d devs (b_dev (bufs st b)) (b_blkno (bufs st b))" "b_bcount (bufs st b) = DEV_BSIZE" "\<not> bit (b_flags (bufs st b)) 0"
  shows "sdstrategy d b st = biodone b (st\<lparr>card := (card st)(sdunit (b_dev (bufs st b)) := (card st (sdunit (b_dev (bufs st b))))
    (b_blkno (bufs st b) + dp_offset d (b_dev (bufs st b)) div 2 := b_data (bufs st b)))\<rparr>)"
  using assms by (auto simp: sdstrategy_def Let_def usable_def loc_def bflag_bits card_write_def)

lemma sdstrategy_read:
  assumes "usable d devs (b_dev (bufs st b)) (b_blkno (bufs st b))" "b_bcount (bufs st b) = DEV_BSIZE" "bit (b_flags (bufs st b)) 0"
  shows "sdstrategy d b st = biodone b (upd_buf b (\<lambda>p. p\<lparr>b_data := on_card d st (b_dev (bufs st b)) (b_blkno (bufs st b))\<rparr>) st)"
  using assms by (auto simp: sdstrategy_def Let_def usable_def loc_def on_card_def bflag_bits card_read_def)

text \<open>The state in which a completed write is released.\<close>

lemma on_card_upd:
  assumes p: "parts_ok d devs" and u: "usable d devs dev blk" "usable d devs dev' blk'"
    and c: "card st' = (card st)(sdunit dev := (card st (sdunit dev))(blk + dp_offset d dev div 2 := x))"
  shows "on_card d st' dev' blk' = (if dev' = dev \<and> blk' = blk then x else on_card d st dev' blk')"
proof (cases "loc d dev' blk' = loc d dev blk")
  case True
  then have "dev' = dev \<and> blk' = blk" using p u unfolding parts_ok_def by metis
  then show ?thesis by (simp add: on_card_def c loc_def)
next
  case False
  then have "\<not> (dev' = dev \<and> blk' = blk)" by auto
  with False show ?thesis by (auto simp: on_card_def c loc_def)
qed

text \<open>A write ends in the release of the buffer, now complete and clean, over the card with the block in it.\<close>

definition written_out :: "sdisk \<Rightarrow> nat \<Rightarrow> bio \<Rightarrow> bio \<Rightarrow> bool" where
  "written_out d b st st' \<longleftrightarrow> (let p = bufs st b; p' = bufs st' b in
     chains st' = chains st \<and> bfreelist st' = bfreelist st \<and> (\<forall>c. c \<noteq> b \<longrightarrow> bufs st' c = bufs st c)
     \<and> card st' = (card st)(sdunit (b_dev p) := (card st (sdunit (b_dev p)))(b_blkno p + dp_offset d (b_dev p) div 2 := b_data p))
     \<and> b_dev p' = b_dev p \<and> b_blkno p' = b_blkno p \<and> b_data p' = b_data p \<and> is_done p' \<and> \<not> is_error p' \<and> \<not> is_delwri p'
     \<and> is_inval p' = is_inval p \<and> is_locked p' = is_locked p \<and> b_resid p' = b_resid p \<and> uerror st' = uerror st)"

lemma bwrite_form:
  assumes u: "usable d devs (b_dev (bufs st b)) (b_blkno (bufs st b))"
  shows "\<exists>st'. written_out d b st st' \<and> bwrite d env n b st \<in> {Ok (brelse b st'), Ok (bset b B_AGE (brelse b st'))}"
proof -
  let ?p = "bufs st b"
  let ?w = "b_flags ?p AND NOT (B_READ OR B_DONE OR B_ERROR OR B_DELWRI)"
  define st1 where "st1 = upd_buf b (\<lambda>p. p\<lparr>b_bcount := DEV_BSIZE\<rparr>)
    (let st = bclr b (B_READ OR B_DONE OR B_ERROR OR B_DELWRI) st in if b_flags ?p AND B_DELWRI = 0 then st\<lparr>ru_oublk := ru_oublk st + 1\<rparr> else st)"
  have s1: "chains st1 = chains st" "bfreelist st1 = bfreelist st" "card st1 = card st" "uerror st1 = uerror st"
    "bufs st1 b = ?p\<lparr>b_flags := ?w, b_bcount := DEV_BSIZE\<rparr>" "\<And>c. c \<noteq> b \<Longrightarrow> bufs st1 c = bufs st c"
    by (simp_all add: st1_def Let_def)
  define st2 where "st2 = st1\<lparr>card := (card st)(sdunit (b_dev ?p) := (card st (sdunit (b_dev ?p)))(b_blkno ?p + dp_offset d (b_dev ?p) div 2 := b_data ?p))\<rparr>"
  have s2: "chains st2 = chains st" "bfreelist st2 = bfreelist st" "uerror st2 = uerror st"
    "card st2 = (card st)(sdunit (b_dev ?p) := (card st (sdunit (b_dev ?p)))(b_blkno ?p + dp_offset d (b_dev ?p) div 2 := b_data ?p))"
    "bufs st2 b = ?p\<lparr>b_flags := ?w, b_bcount := DEV_BSIZE\<rparr>" "\<And>c. c \<noteq> b \<Longrightarrow> bufs st2 c = bufs st c"
    by (simp_all add: st2_def s1)
  have b0: "\<not> bit ?w 0" "\<not> bit ?w 1" "\<not> bit ?w 2" "\<not> bit ?w 9" "bit ?w 8 = bit (b_flags ?p) 8" "bit ?w 11 = bit (b_flags ?p) 11" "bit ?w 13 = bit (b_flags ?p) 13"
    by (auto simp: bit_simps)
  have str: "sdstrategy d b st1 = biodone b st2"
    using sdstrategy_write [of d devs st1 b] u b0 by (simp add: s1 st2_def)
  have bw: "bwrite d env n b st = bind_cres (biodone b st2) (\<lambda>st'. if \<not> is_async ?p then bind_cres (biowait env n b st') (\<lambda>st. Ok (brelse b st))
      else if is_delwri ?p then Ok (bset b B_AGE st') else Ok st')"
    unfolding str [symmetric] by (simp add: bwrite_def Let_def bflags_def st1_def bflag_bits cong: if_cong)
  have fin: "biodone b st2 = (if is_async ?p then Ok (brelse b (bset b B_DONE st2)) else Ok (bwakeup (Some b) (bclr b B_WANTED (bset b B_DONE st2))))"
    using b0 by (simp add: biodone_def bflags_def s2 bflag_bits Let_def bit_simps)
  show ?thesis
  proof (cases "is_async ?p")
    case True
    then have "bwrite d env n b st \<in> {Ok (brelse b (bset b B_DONE st2)), Ok (bset b B_AGE (brelse b (bset b B_DONE st2)))}"
      by (simp add: bw fin)
    moreover have "written_out d b st (bset b B_DONE st2)"
      using b0 by (auto simp: written_out_def Let_def s2 bit_simps)
    ultimately show ?thesis by blast
  next
    case False
    define st3 where "st3 = bwakeup (Some b) (bclr b B_WANTED (bset b B_DONE st2))"
    have w3: "written_out d b st st3"
      using b0 by (auto simp: written_out_def Let_def s2 st3_def bit_simps)
    then have "is_done (bufs st3 b)" "\<not> is_error (bufs st3 b)" by (simp_all add: written_out_def Let_def)
    then have "biowait env n b st3 = Ok (if uerror st3 = 0 then st3\<lparr>uerror := 0\<rparr> else st3)"
      by (cases n) (simp_all add: biowait_def bflags_def bflag_bits geterror_def)
    then have "biowait env n b st3 = Ok st3" by (cases st3) auto
    then show ?thesis using w3 False by (auto simp: bw fin st3_def)
  qed
qed

text \<open>What a reader sees changes in one block only; it does not change.\<close>

definition puts :: "sdisk \<Rightarrow> int set \<Rightarrow> int \<Rightarrow> int \<Rightarrow> block \<Rightarrow> bio \<Rightarrow> bio \<Rightarrow> bool" where
  "puts d devs dev blk x st st' \<longleftrightarrow> (\<forall>dev' blk'. usable d devs dev' blk' \<longrightarrow>
     view d st' dev' blk' = (if dev' = dev \<and> blk' = blk then x else view d st dev' blk'))"

definition sees :: "sdisk \<Rightarrow> int set \<Rightarrow> bio \<Rightarrow> bio \<Rightarrow> bool" where
  "sees d devs st st' \<longleftrightarrow> (\<forall>dev blk. usable d devs dev blk \<longrightarrow> view d st' dev blk = view d st dev blk)"

lemma sees_refl: "sees d devs st st" by (simp add: sees_def)

lemma sees_trans: "sees d devs st st1 \<Longrightarrow> sees d devs st1 st2 \<Longrightarrow> sees d devs st st2" by (simp add: sees_def)

lemma puts_sees: "puts d devs dev blk x st st1 \<Longrightarrow> sees d devs st1 st2 \<Longrightarrow> puts d devs dev blk x st st2" by (simp add: puts_def sees_def)

lemma sees_puts: "sees d devs st st1 \<Longrightarrow> puts d devs dev blk x st1 st2 \<Longrightarrow> puts d devs dev blk x st st2" by (simp add: puts_def sees_def)

lemma all_sees: "\<forall>dev blk. dev \<noteq> NODEV \<longrightarrow> view d st' dev blk = view d st dev blk \<Longrightarrow> sees d devs st st'"
  by (auto simp: sees_def usable_def)

lemma held_usable: "binv d devs N (insert b X) st \<Longrightarrow> valid (bufs st b) \<Longrightarrow> b < N \<and> usable d devs (b_dev (bufs st b)) (b_blkno (bufs st b))"
  by (auto simp: binv_def free_ok_def hashed_ok_def)

lemma age_inv:
  assumes inv: "binv d devs N X st"
  shows "binv d devs N X (bset b B_AGE st)" "sees d devs st (bset b B_AGE st)"
proof -
  let ?st = "bset b B_AGE st"
  have st: "chains_ok N st" "hashed_ok d devs N st" using inv by (simp_all add: binv_def)
  have tg: "same_tags N st ?st" by (simp add: same_tags_def valid_def bit_simps)
  have sn: "seen d ?st c = seen d st c" for c by (simp add: seen_def on_card_def bit_simps)
  note ch = frame_view [OF st _ tg sn, simplified]
  have "idle_ok d ?st c" if "c < N" "c \<notin> X" for c
    using idle_okD [OF inv that] by (cases "c = b") (simp_all add: idle_ok_def Let_def valid_def on_card_def bit_simps)
  with ch show "binv d devs N X ?st" using inv by (simp add: binv_def free_ok_def)
  show "sees d devs st ?st" by (rule all_sees) (use ch in simp)
qed

text \<open>A call that leaves the error of the process and the residual counts as they are.\<close>

definition calm :: "bio \<Rightarrow> bio \<Rightarrow> bool" where
  "calm st st' \<longleftrightarrow> uerror st' = uerror st \<and> (\<forall>c. b_resid (bufs st' c) = b_resid (bufs st c))"

lemma calm_refl: "calm st st" by (simp add: calm_def)

lemma calm_trans: "calm st st1 \<Longrightarrow> calm st1 st2 \<Longrightarrow> calm st st2" by (simp add: calm_def)

lemma bwrite_spec:
  assumes p: "parts_ok d devs" and inv: "binv d devs N (insert b X) st" "b \<notin> X" and v: "valid (bufs st b)" "\<not> is_locked (bufs st b)"
  shows "\<exists>st'. bwrite d env n b st = Ok st' \<and> binv d devs N X st' \<and> puts d devs (b_dev (bufs st b)) (b_blkno (bufs st b)) (b_data (bufs st b)) st st'
     \<and> (\<forall>c. c \<noteq> b \<longrightarrow> bufs st' c = bufs st c) \<and> same_tags N st st' \<and> \<not> is_delwri (bufs st' b) \<and> calm st st'
     \<and> on_card d st' (b_dev (bufs st b)) (b_blkno (bufs st b)) = b_data (bufs st b)
     \<and> (\<forall>dev blk. usable d devs dev blk \<longrightarrow> (dev, blk) \<noteq> (b_dev (bufs st b), b_blkno (bufs st b)) \<longrightarrow> on_card d st' dev blk = on_card d st dev blk)"
proof -
  let ?dev = "b_dev (bufs st b)" and ?blk = "b_blkno (bufs st b)"
  have u: "usable d devs ?dev ?blk" "b < N" using held_usable [OF inv(1) v(1)] by auto
  from bwrite_form [OF u(1)] obtain st1 where w: "written_out d b st st1"
    and bw: "bwrite d env n b st \<in> {Ok (brelse b st1), Ok (bset b B_AGE (brelse b st1))}" by blast
  note w' = w [unfolded written_out_def Let_def]
  have oc: "on_card d st1 dev' blk' = (if dev' = ?dev \<and> blk' = ?blk then b_data (bufs st b) else on_card d st dev' blk')" if "usable d devs dev' blk'" for dev' blk'
    by (rule on_card_upd [OF p u(1) that]) (use w' in simp)
  have v1: "valid (bufs st1 b)" using v(1) w' by (simp add: valid_def)
  note h = held_inv [OF inv(1) v(1), of st1]
  have b1: "binv d devs N (insert b X) st1" by (rule h(1)) (use w' v1 oc in auto)
  have "view d st1 dev blk = (if dev = ?dev \<and> blk = ?blk then b_data (bufs st b) else view d st dev blk)" if us: "usable d devs dev blk" for dev blk
  proof (cases "dev = ?dev \<and> blk = ?blk")
    case True
    have "view d st1 ?dev ?blk = seen d st1 b" by (rule h(3)) (use w' v1 oc in auto)
    also have "\<dots> = b_data (bufs st b)" using w' by (simp add: seen_def)
    finally show ?thesis using True by simp
  next
    case False
    have "view d st1 dev blk = view d st dev blk" by (rule h(2)) (use w' v1 oc False us in auto)
    then show ?thesis using False by auto
  qed
  then have p1: "puts d devs ?dev ?blk (b_data (bufs st b)) st st1" by (simp add: puts_def)
  have "\<not> is_error (bufs st1 b)" "\<not> is_locked (bufs st1 b)" using w' v by auto
  note rel = brelse_inv [OF b1 inv(2) this] and rb = brelse_bufs [OF this(1)]
  have r1: "binv d devs N X (brelse b st1)" "sees d devs st1 (brelse b st1)"
    using rel w' oc [OF u(1)] by (auto intro: all_sees)
  define st' where "st' = (if bwrite d env n b st = Ok (brelse b st1) then brelse b st1 else bset b B_AGE (brelse b st1))"
  have ok: "bwrite d env n b st = Ok st'" using bw by (auto simp: st'_def)
  have e: "binv d devs N X st'" "sees d devs (brelse b st1) st'" using age_inv [OF r1(1)] r1(1) sees_refl by (auto simp: st'_def)
  have f: "card st' = card st1" "\<And>c. c \<noteq> b \<Longrightarrow> bufs st' c = bufs st c" "b_dev (bufs st' b) = ?dev" "b_blkno (bufs st' b) = ?blk" "\<not> is_delwri (bufs st' b)"
    "valid (bufs st' b)" "uerror st' = uerror st" "b_resid (bufs st' b) = b_resid (bufs st b)"
    using w' v1 by (auto simp: st'_def rb bit_simps valid_def)
  have "same_tags N st st'" unfolding same_tags_def using f v(1) by metis
  moreover have "calm st st'" unfolding calm_def using f(2,7,8) by metis
  moreover have "on_card d st' = on_card d st1" by (simp add: on_card_def f fun_eq_iff)
  ultimately show ?thesis using ok e(1) puts_sees [OF puts_sees [OF p1 r1(2)] e(2)] f oc u(1) by auto
qed

lemma bdwrite_spec:
  assumes inv: "binv d devs N (insert b X) st" "b \<notin> X" and v: "valid (bufs st b)" "\<not> is_locked (bufs st b)" "\<not> is_error (bufs st b)"
  shows "binv d devs N X (bdwrite b st) \<and> puts d devs (b_dev (bufs st b)) (b_blkno (bufs st b)) (b_data (bufs st b)) st (bdwrite b st) \<and> card (bdwrite b st) = card st"
proof -
  let ?dev = "b_dev (bufs st b)" and ?blk = "b_blkno (bufs st b)"
  define st1 where "st1 = bset b (B_DELWRI OR B_DONE) (if bflags b st AND B_DELWRI = 0 then st\<lparr>ru_oublk := ru_oublk st + 1\<rparr> else st)"
  have bd: "bdwrite b st = brelse b st1" by (simp add: bdwrite_def st1_def)
  have f: "chains st1 = chains st" "bfreelist st1 = bfreelist st" "card st1 = card st" "\<And>c. c \<noteq> b \<Longrightarrow> bufs st1 c = bufs st c"
    "bufs st1 b = (bufs st b)\<lparr>b_flags := b_flags (bufs st b) OR 0x202\<rparr>" by (auto simp: st1_def)
  have bt: "is_done (bufs st1 b)" "is_delwri (bufs st1 b)" "\<not> is_error (bufs st1 b)" "\<not> is_locked (bufs st1 b)" "valid (bufs st1 b)"
    using v by (auto simp: f(5) bit_simps valid_def)
  have oc: "on_card d st1 = on_card d st" by (simp add: on_card_def f fun_eq_iff)
  note h = held_inv [OF inv(1) v(1), of st1]
  have b1: "binv d devs N (insert b X) st1" by (rule h(1)) (use f bt oc in auto)
  have h3: "view d st1 ?dev ?blk = seen d st1 b" by (rule h(3)) (use f bt oc in auto)
  have "view d st1 dev blk = view d st dev blk" if "usable d devs dev blk" "\<not> (dev = ?dev \<and> blk = ?blk)" for dev blk
    by (rule h(2)) (use f bt oc that in auto)
  then have p1: "puts d devs ?dev ?blk (b_data (bufs st b)) st st1" using h3 bt f(5) by (auto simp: puts_def seen_def)
  have "binv d devs N X (brelse b st1)" "sees d devs st1 (brelse b st1)"
    using brelse_inv [OF b1 inv(2) bt(3,4)] bt by (auto intro: all_sees)
  then show ?thesis using puts_sees [OF p1] brelse_bufs [OF bt(3)] by (simp add: bd f)
qed

section \<open>Writing out delayed blocks\<close>

definition dirty :: "nat \<Rightarrow> bio \<Rightarrow> nat" where
  "dirty N st = length (filter (\<lambda>b. is_delwri (bufs st b)) [0..<N])"

lemma dirty_le: "dirty N st \<le> N"
  unfolding dirty_def by (rule order_trans [OF length_filter_le]) simp

lemma dirty_less:
  assumes "b < N" "is_delwri (bufs st b)" "\<not> is_delwri (bufs st' b)" "\<And>c. c \<noteq> b \<Longrightarrow> is_delwri (bufs st' c) = is_delwri (bufs st c)"
  shows "dirty N st' < dirty N st"
proof -
  have "filter (\<lambda>c. is_delwri (bufs st' c)) [0..<N] = filter (\<lambda>c. c \<noteq> b) (filter (\<lambda>c. is_delwri (bufs st c)) [0..<N])"
    unfolding filter_filter by (rule filter_cong [OF refl]) (metis assms(3,4))
  moreover have "b \<in> set (filter (\<lambda>c. is_delwri (bufs st c)) [0..<N])" using assms(1,2) by simp
  ultimately show ?thesis unfolding dirty_def by (metis (mono_tags, lifting) length_filter_less)
qed

text \<open>The buffers in use, and the blocks of the card behind them, are left alone.\<close>

definition keeps_held :: "sdisk \<Rightarrow> nat set \<Rightarrow> bio \<Rightarrow> bio \<Rightarrow> bool" where
  "keeps_held d X st st' \<longleftrightarrow> (\<forall>c\<in>X. bufs st' c = bufs st c
     \<and> (valid (bufs st c) \<longrightarrow> on_card d st' (b_dev (bufs st c)) (b_blkno (bufs st c)) = on_card d st (b_dev (bufs st c)) (b_blkno (bufs st c))))"

lemma keeps_held_trans: "keeps_held d X st st1 \<Longrightarrow> keeps_held d X st1 st2 \<Longrightarrow> keeps_held d X st st2"
  by (simp add: keeps_held_def)

lemma keeps_heldI: "(\<And>c. c \<in> X \<Longrightarrow> bufs st' c = bufs st c) \<Longrightarrow> card st' = card st \<Longrightarrow> keeps_held d X st st'"
  by (simp add: keeps_held_def on_card_def)

lemma evict_spec:
  assumes p: "parts_ok d devs" and inv: "binv d devs N X st" and b: "b < N" "b \<notin> X" "is_delwri (bufs st b)"
    and st1: "st1 \<in> {notavail b st, bset b B_ASYNC (notavail b st)}"
  shows "\<exists>st'. bwrite d env n b st1 = Ok st' \<and> binv d devs N X st' \<and> sees d devs st st' \<and> same_tags N st st' \<and> dirty N st' < dirty N st
     \<and> (\<forall>c. c \<noteq> b \<longrightarrow> bufs st' c = bufs st c) \<and> calm st st' \<and> keeps_held d X st st'"
proof -
  have id: "valid (bufs st b)" "is_done (bufs st b)" "\<not> is_locked (bufs st b)" using idle_okD [OF inv b(1,2)] b(3) by (auto simp: idle_ok_def Let_def)
  have na: "binv d devs N (insert b X) (notavail b st)" "sees d devs st (notavail b st)" "chains (notavail b st) = chains st" "card (notavail b st) = card st"
    "bufs (notavail b st) = (bufs st)(b := (bufs st b)\<lparr>b_flags := b_flags (bufs st b) OR B_BUSY\<rparr>)" "uerror (notavail b st) = uerror st"
    using notavail_inv [OF inv b(1,2)] by (auto intro: all_sees)
  have v: "valid (bufs (notavail b st) b)" using id by (simp add: na valid_def bit_simps)
  have f: "b_dev (bufs st1 b) = b_dev (bufs st b)" "b_blkno (bufs st1 b) = b_blkno (bufs st b)" "b_data (bufs st1 b) = b_data (bufs st b)" "\<And>c. c \<noteq> b \<Longrightarrow> bufs st1 c = bufs st c"
    "valid (bufs st1 b)" "\<not> is_locked (bufs st1 b)" "is_delwri (bufs st1 b)" "calm st st1"
    using st1 id b(3) by (auto simp: na valid_def bit_simps calm_def)
  have i1: "binv d devs N (insert b X) st1"
  proof (cases "st1 = notavail b st")
    case False
    then have "st1 = bset b B_ASYNC (notavail b st)" using st1 by simp
    then show ?thesis by (intro held_inv(1) [OF na(1) v]) (use v in \<open>auto simp: on_card_def valid_def bit_simps\<close>)
  qed (use na in simp)
  have st: "chains_ok N st" "hashed_ok d devs N st" using inv by (simp_all add: binv_def)
  have s1: "chains_ok N st1" "hashed_ok d devs N st1" using i1 by (simp_all add: binv_def)
  have t1: "same_tags N st st1" unfolding same_tags_def using f(1,2,4,5) id(1) by metis
  have c1: "on_card d st1 = on_card d st" using st1 by (auto simp: on_card_def na fun_eq_iff)
  have sn: "seen d st1 c = seen d st c" for c
    by (cases "c = b") (use f b(3) in \<open>simp_all add: seen_def c1\<close>)
  have "sees d devs st st1" unfolding sees_def
  proof (intro allI impI)
    fix dev blk assume "usable d devs dev blk"
    then have "dev \<noteq> NODEV" by (simp add: usable_def)
    then show "view d st1 dev blk = view d st dev blk"
      by (rule view_cong [OF st s1 _ t1 sn]) (simp add: c1)
  qed
  moreover from bwrite_spec [OF p i1 b(2) f(5,6), of env n] obtain st' where bw: "bwrite d env n b st1 = Ok st'" "binv d devs N X st'"
    "puts d devs (b_dev (bufs st1 b)) (b_blkno (bufs st1 b)) (b_data (bufs st1 b)) st1 st'" "\<forall>c. c \<noteq> b \<longrightarrow> bufs st' c = bufs st1 c" "same_tags N st1 st'"
    "\<not> is_delwri (bufs st' b)" "calm st1 st'"
    "\<forall>dev blk. usable d devs dev blk \<longrightarrow> (dev, blk) \<noteq> (b_dev (bufs st1 b), b_blkno (bufs st1 b)) \<longrightarrow> on_card d st' dev blk = on_card d st1 dev blk" by blast
  moreover have "view d st (b_dev (bufs st b)) (b_blkno (bufs st b)) = b_data (bufs st b)"
    using view_hit [OF st b(1) id(1) refl refl] b(3) by (simp add: seen_def)
  ultimately have "sees d devs st st'" by (auto simp: puts_def sees_def f)
  moreover have "same_tags N st st'" using t1 bw(5) by (auto simp: same_tags_def)
  moreover have "dirty N st' < dirty N st" by (rule dirty_less [OF b(1,3)]) (use bw f in auto)
  moreover have "keeps_held d X st st'" unfolding keeps_held_def
  proof (intro ballI conjI impI)
    fix c assume c: "c \<in> X"
    with b have cb: "c \<noteq> b" and cN: "c < N" using inv by (auto simp: binv_def free_ok_def)
    then show "bufs st' c = bufs st c" using bw(4) f(4) by simp
    assume v: "valid (bufs st c)"
    with st(2) cN have "usable d devs (b_dev (bufs st c)) (b_blkno (bufs st c))" by (simp add: hashed_ok_def)
    moreover have "(b_dev (bufs st c), b_blkno (bufs st c)) \<noteq> (b_dev (bufs st1 b), b_blkno (bufs st1 b))"
      using st(2) cN b(1) v id(1) cb f(1,2) unfolding hashed_ok_def by (metis prod.inject)
    ultimately show "on_card d st' (b_dev (bufs st c)) (b_blkno (bufs st c)) = on_card d st (b_dev (bufs st c)) (b_blkno (bufs st c))" using bw(8) c1 by metis
  qed
  ultimately show ?thesis using bw f calm_trans [OF f(8)] by auto
qed

end
