(* ===== verification/Bio_Cache.thy ===== *)
theory Bio_Cache
  imports Bio_Inv
begin

text \<open>
  Finding, reading, writing and flushing blocks over the invariant of the cache; the cache as a refinement of the bare blocks.
\<close>

section \<open>A new buffer\<close>

text \<open>A buffer that can be given another block: the card has what it holds.\<close>

definition clean :: "sdisk \<Rightarrow> bio \<Rightarrow> nat \<Rightarrow> bool" where
  "clean d st b \<longleftrightarrow> (let p = bufs st b in \<not> is_delwri p \<and> (valid p \<and> is_done p \<longrightarrow> b_data p = on_card d st (b_dev p) (b_blkno p)))"

definition taken :: "sdisk \<Rightarrow> int set \<Rightarrow> nat \<Rightarrow> nat set \<Rightarrow> bio \<Rightarrow> nat \<Rightarrow> bio \<Rightarrow> bool" where
  "taken d devs N X st b st' \<longleftrightarrow> b < N \<and> b \<notin> X \<and> binv d devs N (insert b X) st' \<and> sees d devs st st' \<and> calm st st' \<and> keeps_held d X st st'"

lemma notavail_calm: "calm st (notavail b st)"
  by (simp add: calm_def notavail_def)

lemma brelse_calm: "\<not> is_error (bufs st b) \<Longrightarrow> calm st (brelse b st)"
  using brelse_bufs [of st b] by (simp add: calm_def)

lemma getnewbuf_spec:
  assumes p: "parts_ok d devs" and c: "c < N" "c \<notin> X"
  shows "binv d devs N X st \<Longrightarrow> dirty N st < n \<Longrightarrow>
    \<exists>st' b. getnewbuf d env n st = Ok (upd_buf b (\<lambda>p. p\<lparr>b_flags := B_BUSY\<rparr>) st', b) \<and> taken d devs N X st b st' \<and> same_tags N st st' \<and> clean d st' b"
proof (induction n arbitrary: st)
  case (Suc n)
  note inv = Suc.prems(1)
  have "c \<in> set (bfreelist st BQ_AGE @ bfreelist st BQ_LRU)" using inv c by (auto simp: binv_def free_ok_def)
  then obtain b r where l: "bfreelist st BQ_AGE @ bfreelist st BQ_LRU = b # r" by (cases "bfreelist st BQ_AGE @ bfreelist st BQ_LRU") auto
  then have "b \<in> set (bfreelist st BQ_AGE @ bfreelist st BQ_LRU)" by simp
  then have b: "b < N" "b \<notin> X" using inv by (auto simp: binv_def free_ok_def)
  note na = notavail_inv [OF inv b]
  have dw: "bflags b (notavail b st) AND B_DELWRI = 0 \<longleftrightarrow> \<not> is_delwri (bufs st b)"
    using na by (simp add: bflags_def bflag_bits bit_simps)
  show ?case
  proof (cases "is_delwri (bufs st b)")
    case True
    from evict_spec [OF p inv b True, of "bset b B_ASYNC (notavail b st)" env n] obtain st1 where
      e: "bawrite d env n b (notavail b st) = Ok st1" "binv d devs N X st1" "sees d devs st st1" "same_tags N st st1" "dirty N st1 < dirty N st" "calm st st1"
        "keeps_held d X st st1"
      unfolding bawrite_def by auto
    then have "dirty N st1 < n" using Suc.prems(2) by simp
    from Suc.IH [OF e(2) this] obtain st' b' where r: "getnewbuf d env n st1 = Ok (upd_buf b' (\<lambda>p. p\<lparr>b_flags := B_BUSY\<rparr>) st', b')"
      "taken d devs N X st1 b' st'" "same_tags N st1 st'" "clean d st' b'" by blast
    have "getnewbuf d env (Suc n) st = getnewbuf d env n st1" using l True dw e(1) by (simp add: Let_def)
    moreover have "taken d devs N X st b' st'" using r(2) sees_trans [OF e(3)] keeps_held_trans [OF e(7)] calm_trans [OF e(6)] by (simp add: taken_def)
    moreover have "same_tags N st st'" using r(3) e(4) by (simp add: same_tags_def)
    ultimately show ?thesis using r by auto
  next
    case False
    have "getnewbuf d env (Suc n) st = Ok (upd_buf b (\<lambda>p. p\<lparr>b_flags := B_BUSY\<rparr>) (notavail b st), b)" using l False dw by (simp add: Let_def)
    moreover have "taken d devs N X st b (notavail b st)" using na b by (auto simp: taken_def intro: all_sees intro!: keeps_heldI notavail_calm)
    moreover have "same_tags N st (notavail b st)" using na by (simp add: same_tags_def valid_def bit_simps)
    moreover have "clean d (notavail b st) b" using na False idle_okD [OF inv b] by (simp add: clean_def idle_ok_def Let_def valid_def bit_simps on_card_def)
    ultimately show ?thesis by blast
  qed
qed simp

text \<open>The buffer under its new name.\<close>

definition retag :: "int \<Rightarrow> int \<Rightarrow> nat \<Rightarrow> bio \<Rightarrow> bio" where
  "retag dev blk b st = upd_buf b (\<lambda>p. p\<lparr>b_bcount := 0, b_dev := dev, b_blkno := blk, b_error := 0\<rparr>)
     (binshash b (BUFHASH dev blk) (bremhash b (upd_buf b (\<lambda>p. p\<lparr>b_flags := B_BUSY\<rparr>) st)))"

lemma retag_simps:
  "bfreelist (retag dev blk b st) = bfreelist st" "card (retag dev blk b st) = card st" "uerror (retag dev blk b st) = uerror st"
  "c \<noteq> b \<Longrightarrow> bufs (retag dev blk b st) c = bufs st c"
  "bufs (retag dev blk b st) b = (bufs st b)\<lparr>b_flags := B_BUSY, b_bcount := 0, b_dev := dev, b_blkno := blk, b_error := 0\<rparr>"
  "chains (retag dev blk b st) h = (if h = BUFHASH dev blk then b # removeAll b (chains st h) else removeAll b (chains st h))"
  "on_card d (retag dev blk b st) = on_card d st"
  by (auto simp: retag_def binshash_def bremhash_def on_card_def fun_eq_iff)

lemma retag_calm: "calm st (retag dev blk b st)"
  by (auto simp: calm_def retag_def binshash_def bremhash_def)

lemma retag_tag:
  assumes "dev \<noteq> NODEV"
  shows "valid (bufs (retag dev blk b st) b)" "b_dev (bufs (retag dev blk b st) b) = dev" "b_blkno (bufs (retag dev blk b st) b) = blk"
    "\<not> is_done (bufs (retag dev blk b st) b)" "\<not> is_delwri (bufs (retag dev blk b st) b)"
  using assms by (simp_all add: retag_simps valid_def bit_simps)

lemma retag_chains:
  assumes "chains_ok N st" "b < N"
  shows "chains_ok N (retag dev blk b st)"
proof -
  have "(\<exists>h. c \<in> set (chains (retag dev blk b st) h)) \<longleftrightarrow> c < N" for c
  proof (cases "c = b")
    case True
    then have "c \<in> set (chains (retag dev blk b st) (BUFHASH dev blk))" by (simp add: retag_simps)
    then show ?thesis using True assms(2) by blast
  next
    case False
    then have "(c \<in> set (chains (retag dev blk b st) h)) = (c \<in> set (chains st h))" for h by (simp add: retag_simps)
    then show ?thesis using assms(1) by (simp add: chains_ok_def)
  qed
  then show ?thesis using assms unfolding chains_ok_def by (auto simp: retag_simps distinct_removeAll split: if_splits)
qed

lemma retag_hashed:
  assumes st: "hashed_ok d devs N st" and b: "b < N" and u: "usable d devs dev blk"
    and miss: "\<forall>c<N. \<not> (valid (bufs st c) \<and> b_dev (bufs st c) = dev \<and> b_blkno (bufs st c) = blk)"
  shows "hashed_ok d devs N (retag dev blk b st)"
proof -
  let ?st = "retag dev blk b st"
  have vb: "b_dev (bufs ?st b) = dev" "b_blkno (bufs ?st b) = blk" by (simp_all add: retag_simps)
  have old: "\<And>c. c < N \<Longrightarrow> valid (bufs st c) \<Longrightarrow> c \<in> set (chains st (BUFHASH (b_dev (bufs st c)) (b_blkno (bufs st c)))) \<and> usable d devs (b_dev (bufs st c)) (b_blkno (bufs st c))"
    "\<And>b c. b < N \<Longrightarrow> c < N \<Longrightarrow> valid (bufs st b) \<Longrightarrow> valid (bufs st c) \<Longrightarrow> b_dev (bufs st b) = b_dev (bufs st c) \<Longrightarrow> b_blkno (bufs st b) = b_blkno (bufs st c) \<Longrightarrow> b = c"
    using st by (auto simp: hashed_ok_def)
  have "c \<in> set (chains ?st (BUFHASH (b_dev (bufs ?st c)) (b_blkno (bufs ?st c)))) \<and> usable d devs (b_dev (bufs ?st c)) (b_blkno (bufs ?st c))"
    if "c < N" "valid (bufs ?st c)" for c
    by (cases "c = b") (use that old(1) [of c] vb u in \<open>auto simp: retag_simps(4,6)\<close>)
  moreover have "x = c" if "x < N" "c < N" "valid (bufs ?st x)" "valid (bufs ?st c)" "b_dev (bufs ?st x) = b_dev (bufs ?st c)" "b_blkno (bufs ?st x) = b_blkno (bufs ?st c)" for x c
    using that old(2) [of x c] miss vb by (cases "x = b"; cases "c = b") (auto simp: retag_simps(4))
  ultimately show ?thesis unfolding hashed_ok_def by blast
qed

text \<open>What a reader sees is on the card, unless another buffer holds it.\<close>

lemma view_clean:
  assumes st: "chains_ok N st" "hashed_ok d devs N st" and dev: "dev \<noteq> NODEV"
    and c: "\<And>c. c < N \<Longrightarrow> valid (bufs st c) \<Longrightarrow> b_dev (bufs st c) = dev \<Longrightarrow> b_blkno (bufs st c) = blk \<Longrightarrow> clean d st c"
  shows "view d st dev blk = on_card d st dev blk"
proof (cases "\<exists>c<N. valid (bufs st c) \<and> b_dev (bufs st c) = dev \<and> b_blkno (bufs st c) = blk")
  case True
  then obtain x where x: "x < N" "valid (bufs st x)" "b_dev (bufs st x) = dev" "b_blkno (bufs st x) = blk" by blast
  show ?thesis using view_hit [OF st x] c [OF x] x by (simp add: seen_def clean_def Let_def)
next
  case False
  then show ?thesis using view_miss [OF st dev, of blk] by blast
qed

lemma retag_inv:
  assumes inv: "binv d devs N (insert b X) st" and cl: "clean d st b" and u: "usable d devs dev blk"
    and miss: "\<forall>c<N. \<not> (valid (bufs st c) \<and> b_dev (bufs st c) = dev \<and> b_blkno (bufs st c) = blk)"
  shows "binv d devs N (insert b X) (retag dev blk b st)" "sees d devs st (retag dev blk b st)"
proof -
  let ?st = "retag dev blk b st"
  have bN: "b < N" using inv by (auto simp: binv_def free_ok_def)
  have st: "chains_ok N st" "hashed_ok d devs N st" using inv by (simp_all add: binv_def)
  have nd: "dev \<noteq> NODEV" using u by (simp add: usable_def)
  note ch = retag_chains [OF st(1) bN, of dev blk] and ha = retag_hashed [OF st(2) bN u miss] and vb = retag_tag [OF nd, of blk b st]
  have "idle_ok d ?st c" if "c < N" "c \<notin> insert b X" for c
    by (rule idle_cong [OF idle_okD [OF inv that]]) (use that in \<open>simp_all add: retag_simps\<close>)
  then show "binv d devs N (insert b X) ?st" using ch ha inv by (simp add: binv_def free_ok_def retag_simps(1))
  show "sees d devs st ?st" unfolding sees_def
  proof (intro allI impI)
    fix dev' blk' assume "usable d devs dev' blk'"
    then have nd': "dev' \<noteq> NODEV" by (simp add: usable_def)
    show "view d ?st dev' blk' = view d st dev' blk'"
    proof (cases "\<exists>c<N. c \<noteq> b \<and> valid (bufs st c) \<and> b_dev (bufs st c) = dev' \<and> b_blkno (bufs st c) = blk'")
      case True
      then obtain c where c: "c < N" "c \<noteq> b" "valid (bufs st c)" "b_dev (bufs st c) = dev'" "b_blkno (bufs st c) = blk'" by blast
      then have "view d ?st dev' blk' = seen d ?st c" by (intro view_hit [OF ch ha]) (simp_all add: retag_simps(4))
      moreover have "view d st dev' blk' = seen d st c" by (rule view_hit [OF st c(1,3-)])
      ultimately show ?thesis using c(2) by (simp add: seen_def retag_simps(4,7))
    next
      case False
      have "view d st dev' blk' = on_card d st dev' blk'" by (rule view_clean [OF st nd']) (use False cl in metis)
      moreover have "clean d ?st b" using vb by (simp add: clean_def Let_def)
      then have "view d ?st dev' blk' = on_card d ?st dev' blk'"
        by (intro view_clean [OF ch ha nd']) (metis False retag_simps(4))
      ultimately show ?thesis by (simp add: retag_simps(7))
    qed
  qed
qed

section \<open>Finding and reading a block\<close>

text \<open>The buffer as \<open>getblk\<close> hands it out.\<close>

definition got :: "sdisk \<Rightarrow> int \<Rightarrow> int \<Rightarrow> nat \<Rightarrow> bio \<Rightarrow> bool" where
  "got d dev blk b st \<longleftrightarrow> (let p = bufs st b in valid p \<and> b_dev p = dev \<and> b_blkno p = blk \<and> \<not> is_error p \<and> \<not> is_locked p \<and> \<not> is_async p
     \<and> (is_delwri p \<longrightarrow> is_done p) \<and> (is_done p \<and> \<not> is_delwri p \<longrightarrow> b_data p = on_card d st dev blk))"

lemma got_view:
  assumes "binv d devs N (insert b X) st" "got d dev blk b st"
  shows "view d st dev blk = seen d st b"
  using assms view_hit [of N st d devs b dev blk] by (auto simp: binv_def free_ok_def got_def Let_def)

lemma getblk_spec:
  assumes p: "parts_ok d devs" and inv: "binv d devs N X st" and u: "usable d devs dev blk" and c: "c < N" "c \<notin> X" and n: "dirty N st + 1 < n"
    and held: "\<forall>c\<in>X. \<not> (valid (bufs st c) \<and> b_dev (bufs st c) = dev \<and> b_blkno (bufs st c) = blk)"
  shows "\<exists>st' b. getblk d env n dev blk st = Ok (st', b) \<and> taken d devs N X st b st' \<and> got d dev blk b st'"
proof -
  have st: "chains_ok N st" "hashed_ok d devs N st" using inv by (simp_all add: binv_def)
  have nd: "dev \<noteq> NODEV" using u by (simp add: usable_def)
  note ci = cached_iff [OF st nd, of blk]
  obtain m where m: "n = Suc m" using n by (cases n) auto
  show ?thesis
  proof (cases "cached st dev blk")
    case (Some b)
    then have b: "b < N" "valid (bufs st b)" "b_dev (bufs st b) = dev" "b_blkno (bufs st b) = blk" using ci by auto
    then have bX: "b \<notin> X" using held by blast
    note id = idle_okD [OF inv b(1) bX] and na = notavail_inv [OF inv b(1) bX]
    have "getblk d env n dev blk st = Ok (notavail b st, b)"
      using Some id by (simp add: m cached_def bflags_def bflag_bits idle_ok_def Let_def)
    moreover have "taken d devs N X st b (notavail b st)" using na b bX by (auto simp: taken_def intro: all_sees intro!: keeps_heldI notavail_calm)
    moreover have "got d dev blk b (notavail b st)"
      using na id b by (auto simp: got_def idle_ok_def Let_def valid_def bit_simps on_card_def)
    ultimately show ?thesis by blast
  next
    case None
    then have miss: "\<forall>c<N. \<not> (valid (bufs st c) \<and> b_dev (bufs st c) = dev \<and> b_blkno (bufs st c) = blk)" using ci by auto
    have "dirty N st < m" using n m by simp
    from getnewbuf_spec [OF p c inv this, of env] obtain st1 b where g: "getnewbuf d env m st = Ok (upd_buf b (\<lambda>p. p\<lparr>b_flags := B_BUSY\<rparr>) st1, b)"
      "taken d devs N X st b st1" "same_tags N st st1" "clean d st1 b" by blast
    have miss1: "\<forall>c<N. \<not> (valid (bufs st1 c) \<and> b_dev (bufs st1 c) = dev \<and> b_blkno (bufs st1 c) = blk)" using miss g(3) by (auto simp: same_tags_def)
    have i1: "binv d devs N (insert b X) st1" using g(2) by (simp add: taken_def)
    note r = retag_inv [OF i1 g(4) u miss1]
    have "getblk d env n dev blk st = Ok (retag dev blk b st1, b)"
      using None g(1) by (simp add: m cached_def retag_def)
    moreover have "keeps_held d X st1 (retag dev blk b st1)" using g(2) by (intro keeps_heldI retag_simps) (auto simp: taken_def)
    then have "taken d devs N X st b (retag dev blk b st1)" using r g(2) sees_trans keeps_held_trans calm_trans retag_calm by (auto simp: taken_def)
    moreover have "got d dev blk b (retag dev blk b st1)" using retag_tag [OF nd] by (simp add: got_def Let_def retag_simps bit_simps)
    ultimately show ?thesis by blast
  qed
qed

text \<open>A read that is started is complete when the driver returns, and the buffer of a background read is free again.\<close>

definition arrived :: "sdisk \<Rightarrow> int \<Rightarrow> int \<Rightarrow> nat \<Rightarrow> bio \<Rightarrow> bio \<Rightarrow> bool" where
  "arrived d dev blk b st st' \<longleftrightarrow> chains st' = chains st \<and> bfreelist st' = bfreelist st \<and> (\<forall>c. c \<noteq> b \<longrightarrow> bufs st' c = bufs st c) \<and> uerror st' = uerror st
     \<and> card st' = card st \<and> (let p = bufs st' b in valid p \<and> b_dev p = dev \<and> b_blkno p = blk \<and> is_done p \<and> \<not> is_delwri p \<and> \<not> is_error p \<and> \<not> is_locked p
       \<and> b_data p = on_card d st dev blk \<and> b_resid p = b_resid (bufs st b))"

lemma bread_start_form:
  assumes u: "usable d devs dev blk" and g: "got d dev blk b st" and nd: "\<not> is_done (bufs st b)" and w: "w \<in> {B_READ, B_READ OR B_ASYNC}"
  shows "\<exists>st' k. arrived d dev blk b st st' \<and> is_async (bufs st' b) = (w \<noteq> B_READ)
    \<and> bread_start d w b st = Ok ((if w = B_READ then st' else brelse b st')\<lparr>ru_inblk := k\<rparr>)"
proof -
  let ?w = "b_flags (bufs st b) OR w"
  define st1 where "st1 = upd_buf b (\<lambda>p. p\<lparr>b_flags := b_flags p OR w, b_bcount := DEV_BSIZE\<rparr>) st"
  define st2 where "st2 = upd_buf b (\<lambda>p. p\<lparr>b_data := on_card d st1 dev blk\<rparr>) st1"
  have v: "b_dev (bufs st b) = dev" "b_blkno (bufs st b) = blk" "\<not> is_delwri (bufs st b)" using g nd by (auto simp: got_def Let_def)
  have fl: "bit ?w 0" "\<not> bit ?w 1" "bit ?w 8 = (w \<noteq> B_READ)" using g nd w by (auto simp: bit_simps got_def Let_def)
  have "sdstrategy d b st1 = biodone b st2" using sdstrategy_read [of d devs st1 b] u v fl by (simp add: st1_def st2_def)
  moreover have "biodone b st2 = Ok (if w = B_READ then bwakeup (Some b) (bclr b B_WANTED (bset b B_DONE st2)) else brelse b (bset b B_DONE st2))"
    using fl by (auto simp: biodone_def bflags_def bflag_bits st2_def st1_def Let_def bit_simps)
  ultimately have ok: "bread_start d w b st = Ok (let st = (if w = B_READ then bwakeup (Some b) (bclr b B_WANTED (bset b B_DONE st2)) else brelse b (bset b B_DONE st2))
      in st\<lparr>ru_inblk := ru_inblk st + 1\<rparr>)" by (simp add: bread_start_def st1_def Let_def)
  have "arrived d dev blk b st (bwakeup (Some b) (bclr b B_WANTED (bset b B_DONE st2)))" "arrived d dev blk b st (bset b B_DONE st2)"
    using g nd v w by (auto simp: arrived_def st2_def st1_def Let_def valid_def got_def bit_simps on_card_def)
  moreover have "is_async (bufs (bwakeup (Some b) (bclr b B_WANTED (bset b B_DONE st2))) b) = (w \<noteq> B_READ)" "is_async (bufs (bset b B_DONE st2) b) = (w \<noteq> B_READ)"
    using fl(3) by (auto simp: st2_def st1_def bit_simps)
  ultimately show ?thesis unfolding ok Let_def by (cases "w = B_READ") auto
qed

lemma arrived_inv:
  assumes inv: "binv d devs N (insert b X) st" and g: "got d dev blk b st" and nd: "\<not> is_done (bufs st b)" and ar: "arrived d dev blk b st st'"
  shows "binv d devs N (insert b X) st'" "sees d devs st st'"
proof -
  have v: "valid (bufs st b)" "b_dev (bufs st b) = dev" "b_blkno (bufs st b) = blk" "\<not> is_delwri (bufs st b)" using g nd by (auto simp: got_def Let_def)
  have oc: "on_card d st' = on_card d st" using ar by (simp add: on_card_def arrived_def fun_eq_iff)
  note ar' = ar [unfolded arrived_def Let_def] and h = held_inv [OF inv v(1), of st']
  show "binv d devs N (insert b X) st'" by (rule h(1)) (use ar' v oc in auto)
  have "view d st' (b_dev (bufs st b)) (b_blkno (bufs st b)) = seen d st' b" by (rule h(3)) (use ar' v oc in auto)
  moreover have "view d st dev blk = on_card d st dev blk" using got_view [OF inv g] nd v by (simp add: seen_def)
  ultimately have eq: "view d st' dev blk = view d st dev blk" using ar' v by (simp add: seen_def)
  have "view d st' dev' blk' = view d st dev' blk'" if "usable d devs dev' blk'" "(dev', blk') \<noteq> (dev, blk)" for dev' blk'
    by (rule h(2)) (use ar' v oc that in auto)
  then show "sees d devs st st'" unfolding sees_def using eq by (metis prod.inject)
qed

lemma arrived_calm:
  assumes "arrived d dev blk b st st'"
  shows "calm st (st'\<lparr>ru_inblk := k\<rparr>)"
proof -
  have "b_resid (bufs st' c) = b_resid (bufs st c)" for c using assms by (cases "c = b") (auto simp: arrived_def Let_def)
  then show ?thesis using assms by (simp add: calm_def arrived_def)
qed

lemma inblk_inv:
  "binv d devs N X (st\<lparr>ru_inblk := k\<rparr>) = binv d devs N X st" "sees d devs st0 (st\<lparr>ru_inblk := k\<rparr>) = sees d devs st0 st"
  by (simp_all add: binv_def chains_ok_def free_ok_def hashed_ok_def idle_ok_def on_card_def sees_def view_def cached_def cong: option.case_cong if_cong)

lemma bread_start_spec:
  assumes inv: "binv d devs N (insert b X) st" and g: "got d dev blk b st" and nd: "\<not> is_done (bufs st b)"
  shows "\<exists>st'. bread_start d B_READ b st = Ok st' \<and> binv d devs N (insert b X) st' \<and> sees d devs st st' \<and> got d dev blk b st' \<and> is_done (bufs st' b)
      \<and> calm st st' \<and> card st' = card st \<and> (\<forall>c. c \<noteq> b \<longrightarrow> bufs st' c = bufs st c)"
proof -
  have u: "usable d devs dev blk" using held_usable [OF inv] g by (auto simp: got_def Let_def)
  from bread_start_form [OF u g nd, of B_READ] obtain st' k where a: "arrived d dev blk b st st'" "\<not> is_async (bufs st' b)" "bread_start d B_READ b st = Ok (st'\<lparr>ru_inblk := k\<rparr>)"
    by auto
  then show ?thesis using arrived_inv [OF inv g nd a(1)] arrived_calm [OF a(1)] by (auto simp: inblk_inv arrived_def got_def Let_def on_card_def)
qed

lemma bread_ahead_spec:
  assumes inv: "binv d devs N (insert b X) st" "b \<notin> X" and g: "got d dev blk b st" and nd: "\<not> is_done (bufs st b)"
  shows "\<exists>st'. bread_start d (B_READ OR B_ASYNC) b st = Ok st' \<and> binv d devs N X st' \<and> sees d devs st st' \<and> calm st st' \<and> card st' = card st
      \<and> (\<forall>c. c \<noteq> b \<longrightarrow> bufs st' c = bufs st c)"
proof -
  have u: "usable d devs dev blk" using held_usable [OF inv(1)] g by (auto simp: got_def Let_def)
  from bread_start_form [OF u g nd, of "B_READ OR B_ASYNC"] obtain st1 k where a: "arrived d dev blk b st st1"
    "bread_start d (B_READ OR B_ASYNC) b st = Ok ((brelse b st1)\<lparr>ru_inblk := k\<rparr>)" by auto
  note a' = a(1) [unfolded arrived_def Let_def] and i = arrived_inv [OF inv(1) g nd a(1)]
  have "binv d devs N X (brelse b st1)" "sees d devs st1 (brelse b st1)"
    using brelse_inv [OF i(1) inv(2)] a' by (auto simp: on_card_def intro: all_sees)
  moreover have "calm st1 ((brelse b st1)\<lparr>ru_inblk := k\<rparr>)" using brelse_calm [of st1 b] a' by (simp add: calm_def)
  then have "calm st ((brelse b st1)\<lparr>ru_inblk := k\<rparr>)" using calm_trans [OF arrived_calm [OF a(1), of "ru_inblk st1"]] by simp
  ultimately show ?thesis using a(2) a' sees_trans [OF i(2)] brelse_bufs [of st1 b] by (auto simp: inblk_inv)
qed

lemma biowait_done:
  assumes "is_done (bufs st b)" "\<not> is_error (bufs st b)"
  shows "biowait env n b st = Ok st"
proof -
  have "biowait env n b st = Ok (if uerror st = 0 then st\<lparr>uerror := 0\<rparr> else st)"
    using assms by (cases n) (simp_all add: biowait_def bflags_def bflag_bits geterror_def)
  then show ?thesis by (cases st) auto
qed

lemma bread_spec:
  assumes p: "parts_ok d devs" and inv: "binv d devs N X st" and u: "usable d devs dev blk" and c: "c < N" "c \<notin> X" and n: "dirty N st + 1 < n"
    and held: "\<forall>c\<in>X. \<not> (valid (bufs st c) \<and> b_dev (bufs st c) = dev \<and> b_blkno (bufs st c) = blk)"
  shows "\<exists>st' b. bread d env n dev blk st = Ok (st', b) \<and> taken d devs N X st b st' \<and> got d dev blk b st' \<and> is_done (bufs st' b)
     \<and> b_data (bufs st' b) = view d st dev blk"
proof -
  from getblk_spec [OF assms] obtain st1 b where g: "getblk d env n dev blk st = Ok (st1, b)" "taken d devs N X st b st1" "got d dev blk b st1" by blast
  have i1: "binv d devs N (insert b X) st1" and s1: "sees d devs st st1" using g(2) by (simp_all add: taken_def)
  show ?thesis
  proof (cases "is_done (bufs st1 b)")
    case True
    then have "bread d env n dev blk st = Ok (st1, b)" using g(1) by (simp add: bread_def bflags_def bflag_two)
    moreover have "b_data (bufs st1 b) = view d st dev blk" using got_view [OF i1 g(3)] s1 u True by (simp add: sees_def seen_def)
    ultimately show ?thesis using g True by blast
  next
    case False
    from bread_start_spec [OF i1 g(3) False] obtain st2 where s: "bread_start d B_READ b st1 = Ok st2" "binv d devs N (insert b X) st2" "sees d devs st1 st2"
      "got d dev blk b st2" "is_done (bufs st2 b)" "calm st1 st2" "card st2 = card st1" "\<forall>c. c \<noteq> b \<longrightarrow> bufs st2 c = bufs st1 c" by blast
    have nw: "\<not> is_delwri (bufs st1 b)" using g(3) False by (auto simp: got_def Let_def)
    have "biowait env n b st2 = Ok st2" by (rule biowait_done) (use s in \<open>simp_all add: got_def Let_def\<close>)
    then have "bread d env n dev blk st = Ok (st2, b)" using g(1) s(1) False nw by (simp add: bread_def bflags_def bflag_two)
    moreover have "keeps_held d X st1 st2" using g(2) s(7,8) by (intro keeps_heldI) (auto simp: taken_def)
    then have "taken d devs N X st b st2" using g(2) s(2,6) sees_trans [OF s1 s(3)] keeps_held_trans calm_trans by (auto simp: taken_def)
    moreover have "b_data (bufs st2 b) = view d st dev blk" using got_view [OF s(2,4)] s1 s(3,5) u by (simp add: sees_def seen_def)
    ultimately show ?thesis using s by blast
  qed
qed

text \<open>Reading ahead.\<close>

lemma not_incore:
  assumes "hashed_ok d devs N st" "dev \<noteq> NODEV" "\<not> incore dev blk st"
  shows "\<forall>c<N. \<not> (valid (bufs st c) \<and> b_dev (bufs st c) = dev \<and> b_blkno (bufs st c) = blk)"
  using assms by (auto simp: incore_def hashed_ok_def bmatch_valid)

definition read_ahead :: "sdisk \<Rightarrow> (nat \<Rightarrow> bio \<Rightarrow> bio) \<Rightarrow> nat \<Rightarrow> int \<Rightarrow> int \<Rightarrow> bio \<Rightarrow> bio cres" where
  "read_ahead d env n dev rablkno st =
     (if rablkno \<noteq> 0 \<and> \<not> incore dev rablkno st then
        bind_cres (getblk d env n dev rablkno st) (\<lambda>(st, rabp).
          if bflags rabp st AND (B_DONE OR B_DELWRI) \<noteq> 0 then Ok (brelse rabp st) else bread_start d (B_READ OR B_ASYNC) rabp st)
      else Ok st)"

lemma read_ahead_spec:
  assumes p: "parts_ok d devs" and inv: "binv d devs N X st" and u: "rablk = 0 \<or> usable d devs dev rablk" and c: "c < N" "c \<notin> X" and n: "N + 1 < n"
  shows "\<exists>st'. read_ahead d env n dev rablk st = Ok st' \<and> binv d devs N X st' \<and> sees d devs st st' \<and> calm st st' \<and> keeps_held d X st st'"
proof (cases "rablk \<noteq> 0 \<and> \<not> incore dev rablk st")
  case True
  then have u': "usable d devs dev rablk" and nd: "dev \<noteq> NODEV" using u by (auto simp: usable_def)
  have XN: "X \<subseteq> {..<N}" and ha: "hashed_ok d devs N st" using inv by (auto simp: binv_def free_ok_def)
  have held: "\<forall>c\<in>X. \<not> (valid (bufs st c) \<and> b_dev (bufs st c) = dev \<and> b_blkno (bufs st c) = rablk)"
    using not_incore [OF ha nd] True XN by auto
  have n': "dirty N st + 1 < n" using n dirty_le [of N st] by simp
  from getblk_spec [OF p inv u' c n' held] obtain st1 b where g: "getblk d env n dev rablk st = Ok (st1, b)" "taken d devs N X st b st1" "got d dev rablk b st1" by blast
  have t: "binv d devs N (insert b X) st1" "b \<notin> X" "sees d devs st st1" "calm st st1" "keeps_held d X st st1" using g(2) by (auto simp: taken_def)
  have "\<exists>st'. (if bflags b st1 AND (B_DONE OR B_DELWRI) \<noteq> 0 then Ok (brelse b st1) else bread_start d (B_READ OR B_ASYNC) b st1) = Ok st'
      \<and> binv d devs N X st' \<and> sees d devs st1 st' \<and> calm st1 st' \<and> keeps_held d X st1 st'"
  proof (cases "is_done (bufs st1 b)")
    case True
    then have "binv d devs N X (brelse b st1)" "sees d devs st1 (brelse b st1)"
      using brelse_inv [OF t(1,2)] g(3) by (auto simp: got_def Let_def intro: all_sees)
    moreover have "keeps_held d X st1 (brelse b st1)" using t(2) g(3) brelse_bufs [of st1 b] by (intro keeps_heldI) (auto simp: got_def Let_def)
    ultimately show ?thesis using True g(3) brelse_calm [of st1 b] by (simp add: bflags_def bflag_two got_def Let_def)
  next
    case False
    then have "\<not> is_delwri (bufs st1 b)" using g(3) by (auto simp: got_def Let_def)
    moreover from bread_ahead_spec [OF t(1,2) g(3) False] obtain st' where r: "bread_start d (B_READ OR B_ASYNC) b st1 = Ok st'" "binv d devs N X st'"
      "sees d devs st1 st'" "calm st1 st'" "card st' = card st1" "\<forall>c. c \<noteq> b \<longrightarrow> bufs st' c = bufs st1 c" by blast
    moreover have "keeps_held d X st1 st'" using t(2) r by (intro keeps_heldI) auto
    ultimately show ?thesis using False by (simp add: bflags_def bflag_two)
  qed
  then obtain st' where "read_ahead d env n dev rablk st = Ok st'" "binv d devs N X st'" "sees d devs st1 st'" "calm st1 st'" "keeps_held d X st1 st'"
    using True g(1) by (auto simp: read_ahead_def)
  then show ?thesis using calm_trans [OF t(4)] sees_trans [OF t(3)] keeps_held_trans [OF t(5)] by auto
next
  case False
  then show ?thesis using inv sees_refl calm_refl keeps_heldI by (auto simp: read_ahead_def)
qed

lemma breada_spec:
  assumes p: "parts_ok d devs" and inv: "binv d devs N {} st" and u: "usable d devs dev blk" "rablk = 0 \<or> usable d devs dev rablk" and N: "1 < N" and n: "N + 1 < n"
  shows "\<exists>st' b. breada d env n dev blk rablk st = Ok (st', b) \<and> taken d devs N {} st b st' \<and> got d dev blk b st' \<and> b_data (bufs st' b) = view d st dev blk"
proof -
  have nn: "dirty N st' + 1 < n" for st' using n dirty_le [of N st'] by simp
  have n0: "0 < N" "0 \<notin> {}" using N by auto
  show ?thesis
  proof (cases "incore dev blk st")
    case True
    from read_ahead_spec [OF p inv u(2) n0 n] obtain st1 where r: "read_ahead d env n dev rablk st = Ok st1" "binv d devs N {} st1" "sees d devs st st1" "calm st st1" by blast
    from bread_spec [OF p r(2) u(1) n0 nn] obtain st' b where "bread d env n dev blk st1 = Ok (st', b)" "taken d devs N {} st1 b st'" "got d dev blk b st'"
      "b_data (bufs st' b) = view d st1 dev blk" by blast
    then show ?thesis using True r sees_trans [OF r(3)] calm_trans [OF r(4)] u(1) by (auto simp: breada_def read_ahead_def [symmetric] taken_def sees_def keeps_held_def)
  next
    case False
    from getblk_spec [OF p inv u(1) n0 nn] obtain st1 b where g: "getblk d env n dev blk st = Ok (st1, b)" "taken d devs N {} st b st1" "got d dev blk b st1" by blast
    have t: "b < N" "binv d devs N (insert b {}) st1" "sees d devs st st1" "calm st st1" using g(2) by (auto simp: taken_def)
    have "\<exists>st2. (if bflags b st1 AND (B_DONE OR B_DELWRI) = 0 then bind_cres (bread_start d B_READ b st1) (\<lambda>st. Ok (st, Some b)) else Ok (st1, Some b)) = Ok (st2, Some b)
        \<and> binv d devs N (insert b {}) st2 \<and> sees d devs st1 st2 \<and> got d dev blk b st2 \<and> is_done (bufs st2 b) \<and> calm st1 st2"
    proof (cases "is_done (bufs st1 b)")
      case True
      then show ?thesis using t g(3) sees_refl calm_refl by (auto simp: bflags_def bflag_two)
    next
      case no: False
      then have "\<not> is_delwri (bufs st1 b)" using g(3) by (auto simp: got_def Let_def)
      then show ?thesis using no bread_start_spec [OF t(2) g(3) no] by (auto simp: bflags_def bflag_two)
    qed
    then obtain st2 where s: "(if bflags b st1 AND (B_DONE OR B_DELWRI) = 0 then bind_cres (bread_start d B_READ b st1) (\<lambda>st. Ok (st, Some b)) else Ok (st1, Some b)) = Ok (st2, Some b)"
      "binv d devs N (insert b {}) st2" "sees d devs st1 st2" "got d dev blk b st2" "is_done (bufs st2 b)" "calm st1 st2" by blast
    obtain c where c: "c < N" "c \<notin> insert b {}" using N by (cases "b = 0") auto
    from read_ahead_spec [OF p s(2) u(2) c n] obtain st3 where r: "read_ahead d env n dev rablk st2 = Ok st3" "binv d devs N (insert b {}) st3" "sees d devs st2 st3"
      "calm st2 st3" "bufs st3 b = bufs st2 b" "valid (bufs st2 b) \<longrightarrow> on_card d st3 (b_dev (bufs st2 b)) (b_blkno (bufs st2 b)) = on_card d st2 (b_dev (bufs st2 b)) (b_blkno (bufs st2 b))"
      unfolding keeps_held_def by blast
    have d3: "is_done (bufs st3 b)" "\<not> is_error (bufs st3 b)" using r(5) s(4,5) by (simp_all add: got_def Let_def)
    have "breada d env n dev blk rablk st = Ok (st3, b)"
      using False g(1) s(1) r(1) biowait_done [OF d3] by (auto simp: breada_def read_ahead_def [symmetric])
    moreover have s3: "sees d devs st st3" using t(3) s(3) r(3) sees_trans by blast
    moreover have v3: "view d st3 dev blk = b_data (bufs st3 b)"
      using view_hit [of N st3 d devs b dev blk] r(2,5) s(4) d3 t(1) by (simp add: binv_def got_def Let_def seen_def)
    moreover have "got d dev blk b st3" using s(4) r(5,6) by (auto simp: got_def Let_def)
    moreover have "calm st st3" using t(4) s(6) r(4) calm_trans by blast
    ultimately show ?thesis using r t s3 u(1) by (auto simp: taken_def sees_def keeps_held_def)
  qed
qed

section \<open>Flushing\<close>

lemma find_SomeD: "List.find P xs = Some x \<Longrightarrow> x \<in> set xs \<and> P x"
  by (induction xs) (auto split: if_splits)

lemma notavail_async: "notavail b (bset b B_ASYNC st) = bset b B_ASYNC (notavail b st)"
  by (cases st) (auto simp: notavail_def bset_def upd_buf_def ac_simps)

lemma bflush_spec:
  assumes p: "parts_ok d devs"
  shows "binv d devs N {} st \<Longrightarrow> dirty N st < n \<Longrightarrow>
    \<exists>st'. bflush d env n dev st = Ok st' \<and> binv d devs N {} st' \<and> sees d devs st st' \<and> calm st st'
      \<and> (\<forall>b<N. is_delwri (bufs st' b) \<longrightarrow> b_dev (bufs st' b) \<noteq> dev)"
proof (induction n arbitrary: st)
  case (Suc n)
  note inv = Suc.prems(1)
  let ?Q = "\<lambda>b. bflags b st AND B_DELWRI \<noteq> 0 \<and> b_dev (bufs st b) = dev"
  let ?l = "bfreelist st BQ_LOCKED @ bfreelist st BQ_LRU @ bfreelist st BQ_AGE"
  have fr: "set ?l = {b. b < N}" using inv by (auto simp: binv_def free_ok_def)
  show ?case
  proof (cases "List.find ?Q ?l")
    case None
    then have "\<forall>b<N. is_delwri (bufs st b) \<longrightarrow> b_dev (bufs st b) \<noteq> dev" using fr unfolding find_None_iff by (auto simp: bflags_def bflag_bits)
    moreover have "bflush d env (Suc n) dev st = Ok st" using None by simp
    ultimately show ?thesis using inv sees_refl calm_refl by auto
  next
    case (Some b)
    then have "b \<in> set ?l" "?Q b" using find_SomeD [OF Some] by blast+
    then have b: "b < N" "b \<notin> {}" "is_delwri (bufs st b)" using fr by (auto simp: bflags_def bflag_bits)
    from evict_spec [OF p inv b, of "bset b B_ASYNC (notavail b st)" env n] obtain st1 where
      e: "bwrite d env n b (notavail b (bset b B_ASYNC st)) = Ok st1" "binv d devs N {} st1" "sees d devs st st1" "dirty N st1 < dirty N st" "calm st st1"
      unfolding notavail_async by auto
    then have "dirty N st1 < n" using Suc.prems(2) by simp
    from Suc.IH [OF e(2) this] obtain st' where r: "bflush d env n dev st1 = Ok st'" "binv d devs N {} st'" "sees d devs st1 st'" "calm st1 st'"
      "\<forall>b<N. is_delwri (bufs st' b) \<longrightarrow> b_dev (bufs st' b) \<noteq> dev" by blast
    have "bflush d env (Suc n) dev st = Ok st'" using Some e(1) r(1) by simp
    then show ?thesis using r e sees_trans calm_trans by auto
  qed
qed simp

lemma flushed_view:
  assumes inv: "binv d devs N {} st" and fl: "\<forall>b<N. is_delwri (bufs st b) \<longrightarrow> b_dev (bufs st b) \<noteq> dev" and dev: "dev \<noteq> NODEV"
  shows "view d st dev blk = on_card d st dev blk"
proof (rule view_clean [OF _ _ dev])
  show "chains_ok N st" "hashed_ok d devs N st" using inv by (simp_all add: binv_def)
  fix c assume "c < N" "b_dev (bufs st c) = dev"
  then show "clean d st c" using idle_okD [OF inv, of c] fl by (auto simp: clean_def idle_ok_def Let_def)
qed

lemma blkflush_spec:
  assumes p: "parts_ok d devs" and u: "usable d devs dev blk"
  shows "binv d devs N {} st \<Longrightarrow> dirty N st < n \<Longrightarrow>
    \<exists>st'. blkflush d env n dev blk st = Ok st' \<and> binv d devs N {} st' \<and> sees d devs st st' \<and> calm st st'
      \<and> view d st' dev blk = on_card d st' dev blk"
proof (induction n arbitrary: st)
  case (Suc n)
  note inv = Suc.prems(1)
  let ?Q = "\<lambda>b. bmatch dev blk (bufs st b) \<and> bflags b st AND (B_BUSY OR B_DELWRI) \<noteq> 0"
  have nd: "dev \<noteq> NODEV" using u by (simp add: usable_def)
  have st: "chains_ok N st" "hashed_ok d devs N st" using inv by (simp_all add: binv_def)
  note idle = idle_okD [OF inv, unfolded idle_ok_def Let_def]
  show ?case
  proof (cases "List.find ?Q (chains st (BUFHASH dev blk))")
    case None
    have "view d st dev blk = on_card d st dev blk"
    proof (rule view_clean [OF st nd])
      fix c assume c: "c < N" "valid (bufs st c)" "b_dev (bufs st c) = dev" "b_blkno (bufs st c) = blk"
      then have "c \<in> set (chains st (BUFHASH dev blk))" using st(2) by (auto simp: hashed_ok_def)
      then have "\<not> is_delwri (bufs st c)" using None c nd unfolding find_None_iff by (auto simp: bmatch_valid bflags_def bflag_two)
      then show "clean d st c" using idle [OF c(1)] by (simp add: clean_def Let_def)
    qed
    then show ?thesis using None inv sees_refl calm_refl by auto
  next
    case (Some b)
    then have "b \<in> set (chains st (BUFHASH dev blk))" "?Q b" using find_SomeD [OF Some] by blast+
    then have "b < N" using st(1) unfolding chains_ok_def by blast
    then have b: "b < N" "b \<notin> {}" "is_delwri (bufs st b)" using \<open>?Q b\<close> idle [of b] by (auto simp: bflags_def bflag_two)
    have nb: "bflags b st AND B_BUSY = 0" using idle [OF b(1)] by (simp add: bflags_def bflag_bits)
    from evict_spec [OF p inv b, of "notavail b st" env n] obtain st1 where
      e: "bwrite d env n b (notavail b st) = Ok st1" "binv d devs N {} st1" "sees d devs st st1" "dirty N st1 < dirty N st" "calm st st1" by auto
    then have "dirty N st1 < n" using Suc.prems(2) by simp
    from Suc.IH [OF e(2) this] obtain st' where r: "blkflush d env n dev blk st1 = Ok st'" "binv d devs N {} st'" "sees d devs st1 st'" "calm st1 st'"
      "view d st' dev blk = on_card d st' dev blk" by blast
    have "blkflush d env (Suc n) dev blk st = Ok st'" using Some e(1) r(1) nb by simp
    then show ?thesis using r e sees_trans calm_trans by auto
  qed
qed simp

section \<open>The cache as a store of blocks\<close>

text \<open>
  A user of the cache reads a block, with or without the next one in advance, and lets it go; fills a block it has obtained by \<open>getblk\<close> and writes it at once, in the
  background or with delay; flushes a block or a device.
\<close>

datatype bio_op = Bread int int | Breada int int int | Bwrite int int block | Bawrite int int block | Bdwrite int int block | Bflush int | Blkflush int int

definition fill :: "nat \<Rightarrow> block \<Rightarrow> bio \<Rightarrow> bio" where
  "fill b x st = upd_buf b (\<lambda>p. p\<lparr>b_data := x\<rparr>) st"

fun bio_call :: "sdisk \<Rightarrow> (nat \<Rightarrow> bio \<Rightarrow> bio) \<Rightarrow> nat \<Rightarrow> bio_op \<Rightarrow> bio \<Rightarrow> (bio \<times> block option) cres" where
  "bio_call d env n (Bread dev blk) st =
     bind_cres (bread d env n dev blk st) (\<lambda>(st, b). Ok (brelse b st, Some (b_data (bufs st b))))"
| "bio_call d env n (Breada dev blk rablk) st =
     bind_cres (breada d env n dev blk rablk st) (\<lambda>(st, b). Ok (brelse b st, Some (b_data (bufs st b))))"
| "bio_call d env n (Bwrite dev blk x) st =
     bind_cres (getblk d env n dev blk st) (\<lambda>(st, b). bind_cres (bwrite d env n b (fill b x st)) (\<lambda>st. Ok (st, None)))"
| "bio_call d env n (Bawrite dev blk x) st =
     bind_cres (getblk d env n dev blk st) (\<lambda>(st, b). bind_cres (bawrite d env n b (fill b x st)) (\<lambda>st. Ok (st, None)))"
| "bio_call d env n (Bdwrite dev blk x) st =
     bind_cres (getblk d env n dev blk st) (\<lambda>(st, b). Ok (bdwrite b (fill b x st), None))"
| "bio_call d env n (Bflush dev) st = bind_cres (bflush d env n dev st) (\<lambda>st. Ok (st, None))"
| "bio_call d env n (Blkflush dev blk) st = bind_cres (blkflush d env n dev blk st) (\<lambda>st. Ok (st, None))"

definition bio_step :: "sdisk \<Rightarrow> (nat \<Rightarrow> bio \<Rightarrow> bio) \<Rightarrow> nat \<Rightarrow> bio_op \<Rightarrow> bio \<Rightarrow> (bio \<times> block option) option" where
  "bio_step d env n op st = (case bio_call d env n op st of Ok r \<Rightarrow> Some r | _ \<Rightarrow> None)"

fun bio_pre :: "sdisk \<Rightarrow> int set \<Rightarrow> bio_op \<Rightarrow> bool" where
  "bio_pre d devs (Bread dev blk) = usable d devs dev blk"
| "bio_pre d devs (Breada dev blk rablk) = (usable d devs dev blk \<and> (rablk = 0 \<or> usable d devs dev rablk))"
| "bio_pre d devs (Bwrite dev blk x) = usable d devs dev blk"
| "bio_pre d devs (Bawrite dev blk x) = usable d devs dev blk"
| "bio_pre d devs (Bdwrite dev blk x) = usable d devs dev blk"
| "bio_pre d devs (Bflush dev) = True"
| "bio_pre d devs (Blkflush dev blk) = usable d devs dev blk"

text \<open>The blocks of the devices, with no cache; and what the calls do to them.\<close>

type_synonym store = "int \<times> int \<rightharpoonup> block"

definition blocks :: "sdisk \<Rightarrow> int set \<Rightarrow> bio \<Rightarrow> store" where
  "blocks d devs st = (\<lambda>(dev, blk). if usable d devs dev blk then Some (view d st dev blk) else None)"

fun bio_spec :: "bio_op \<Rightarrow> store \<Rightarrow> store \<Rightarrow> block option \<Rightarrow> bool" where
  "bio_spec (Bread dev blk) m m' r \<longleftrightarrow> m' = m \<and> r = m (dev, blk)"
| "bio_spec (Breada dev blk rablk) m m' r \<longleftrightarrow> m' = m \<and> r = m (dev, blk)"
| "bio_spec (Bwrite dev blk x) m m' r \<longleftrightarrow> m' = m((dev, blk) \<mapsto> x)"
| "bio_spec (Bawrite dev blk x) m m' r \<longleftrightarrow> m' = m((dev, blk) \<mapsto> x)"
| "bio_spec (Bdwrite dev blk x) m m' r \<longleftrightarrow> m' = m((dev, blk) \<mapsto> x)"
| "bio_spec (Bflush dev) m m' r \<longleftrightarrow> m' = m"
| "bio_spec (Blkflush dev blk) m m' r \<longleftrightarrow> m' = m"

lemma blocks_usable: "usable d devs dev blk \<Longrightarrow> blocks d devs st (dev, blk) = Some (view d st dev blk)"
  by (simp add: blocks_def)

lemma blocks_sees: "sees d devs st st' \<Longrightarrow> blocks d devs st' = blocks d devs st"
  by (auto simp: sees_def blocks_def)

lemma blocks_puts: "puts d devs dev blk x st st' \<Longrightarrow> usable d devs dev blk \<Longrightarrow> blocks d devs st' = (blocks d devs st)((dev, blk) \<mapsto> x)"
  by (auto simp: puts_def blocks_def)

text \<open>A block obtained and filled is ready to be written.\<close>

lemma fill_spec:
  assumes "taken d devs N X st b st1" "got d dev blk b st1"
  shows "binv d devs N (insert b X) (fill b x st1)"
    and "\<And>st2. puts d devs dev blk x (fill b x st1) st2 \<Longrightarrow> puts d devs dev blk x st st2"
    and "valid (bufs (fill b x st1) b)" "\<not> is_locked (bufs (fill b x st1) b)" "\<not> is_error (bufs (fill b x st1) b)"
      "b_dev (bufs (fill b x st1) b) = dev" "b_blkno (bufs (fill b x st1) b) = blk" "b_data (bufs (fill b x st1) b) = x"
proof -
  have i1: "binv d devs N (insert b X) st1" and s1: "sees d devs st st1" using assms(1) by (auto simp: taken_def)
  have v: "valid (bufs st1 b)" "b_dev (bufs st1 b) = dev" "b_blkno (bufs st1 b) = blk" using assms(2) by (auto simp: got_def Let_def)
  note h = held_inv [OF i1 v(1), of "fill b x st1"]
  show "binv d devs N (insert b X) (fill b x st1)" by (rule h(1)) (use v in \<open>auto simp: fill_def on_card_def valid_def\<close>)
  have o: "view d (fill b x st1) dev' blk' = view d st1 dev' blk'" if "usable d devs dev' blk'" "(dev', blk') \<noteq> (dev, blk)" for dev' blk'
    by (rule h(2)) (use v that in \<open>auto simp: fill_def on_card_def valid_def\<close>)
  show "puts d devs dev blk x st st2" if "puts d devs dev blk x (fill b x st1) st2" for st2
    using that o s1 by (auto simp: puts_def sees_def)
  show "valid (bufs (fill b x st1) b)" "\<not> is_locked (bufs (fill b x st1) b)" "\<not> is_error (bufs (fill b x st1) b)"
    "b_dev (bufs (fill b x st1) b) = dev" "b_blkno (bufs (fill b x st1) b) = blk" "b_data (bufs (fill b x st1) b) = x"
    using assms(2) by (auto simp: fill_def got_def Let_def valid_def)
qed

text \<open>The cache has at least two buffers, one for a block read in advance, and is given turns enough to write out every delayed block.\<close>

definition bio_ok :: "sdisk \<Rightarrow> int set \<Rightarrow> nat \<Rightarrow> nat \<Rightarrow> bio \<Rightarrow> bool" where
  "bio_ok d devs N n st \<longleftrightarrow> parts_ok d devs \<and> binv d devs N {} st \<and> 1 < N \<and> N + 1 < n"

lemma release_ok:
  assumes "taken d devs N {} st b st1" "got d dev blk b st1"
  shows "binv d devs N {} (brelse b st1)" "blocks d devs (brelse b st1) = blocks d devs st"
proof -
  have t: "binv d devs N (insert b {}) st1" "sees d devs st st1" using assms(1) by (simp_all add: taken_def)
  have "binv d devs N {} (brelse b st1) \<and> sees d devs st1 (brelse b st1)"
    using brelse_inv [OF t(1)] assms(2) by (auto simp: got_def Let_def intro: all_sees)
  then show "binv d devs N {} (brelse b st1)" "blocks d devs (brelse b st1) = blocks d devs st" using blocks_sees t(2) by auto
qed

lemma bawrite_spec:
  assumes p: "parts_ok d devs" and inv: "binv d devs N (insert b X) st" "b \<notin> X" and v: "valid (bufs st b)" "\<not> is_locked (bufs st b)"
  shows "\<exists>st'. bawrite d env n b st = Ok st' \<and> binv d devs N X st' \<and> puts d devs (b_dev (bufs st b)) (b_blkno (bufs st b)) (b_data (bufs st b)) st st'"
proof -
  let ?st = "bset b B_ASYNC st"
  have f: "valid (bufs ?st b)" "\<not> is_locked (bufs ?st b)" "b_dev (bufs ?st b) = b_dev (bufs st b)" "b_blkno (bufs ?st b) = b_blkno (bufs st b)"
    "b_data (bufs ?st b) = b_data (bufs st b)" using v by (auto simp: valid_def bit_simps)
  have i: "binv d devs N (insert b X) ?st" by (rule held_inv(1) [OF inv(1) v(1)]) (use f(1) in \<open>auto simp: on_card_def\<close>)
  have o: "view d ?st dev blk = view d st dev blk" if "usable d devs dev blk" "(dev, blk) \<noteq> (b_dev (bufs st b), b_blkno (bufs st b))" for dev blk
    by (rule held_inv(2) [OF inv(1) v(1)]) (use f(1) that in \<open>auto simp: on_card_def\<close>)
  from bwrite_spec [OF p i inv(2) f(1,2), of env n] obtain st' where "bawrite d env n b st = Ok st'" "binv d devs N X st'"
    "puts d devs (b_dev (bufs st b)) (b_blkno (bufs st b)) (b_data (bufs st b)) ?st st'" unfolding bawrite_def f(3-) by blast
  then show ?thesis using o by (auto simp: puts_def)
qed

text \<open>A block that is obtained, filled and handed to a writer is changed as the writer promises.\<close>

lemma fill_write:
  assumes p: "parts_ok d devs" and inv: "binv d devs N {} st" and u: "usable d devs dev blk" and N: "0 < N" and n: "dirty N st + 1 < n"
    and w: "\<And>st b. binv d devs N (insert b {}) st \<Longrightarrow> valid (bufs st b) \<Longrightarrow> \<not> is_locked (bufs st b) \<Longrightarrow> \<not> is_error (bufs st b) \<Longrightarrow>
      \<exists>st'. w b st = Ok st' \<and> binv d devs N {} st' \<and> puts d devs (b_dev (bufs st b)) (b_blkno (bufs st b)) (b_data (bufs st b)) st st'"
  shows "\<exists>st' b st1. getblk d env n dev blk st = Ok (st1, b) \<and> w b (fill b x st1) = Ok st' \<and> binv d devs N {} st'
     \<and> blocks d devs st' = (blocks d devs st)((dev, blk) \<mapsto> x)"
proof -
  from getblk_spec [OF p inv u N _ n] obtain st1 b where g: "getblk d env n dev blk st = Ok (st1, b)" "taken d devs N {} st b st1" "got d dev blk b st1" by blast
  note f = fill_spec [OF g(2,3), of x]
  from w [OF f(1,3-5)] obtain st' where "w b (fill b x st1) = Ok st'" "binv d devs N {} st'" "puts d devs dev blk x (fill b x st1) st'" unfolding f(6-) by blast
  then show ?thesis using g(1) blocks_puts [OF f(2) u] by blast
qed

lemma bio_call_ok:
  assumes ok: "bio_ok d devs N n st" and pre: "bio_pre d devs op"
  shows "\<exists>st' r. bio_call d env n op st = Ok (st', r) \<and> binv d devs N {} st' \<and> bio_spec op (blocks d devs st) (blocks d devs st') r"
proof -
  have p: "parts_ok d devs" and inv: "binv d devs N {} st" and c: "0 < N" "0 \<notin> {}" and n: "dirty N st + 1 < n" and n': "dirty N st < n"
    using ok dirty_le [of N st] by (auto simp: bio_ok_def)
  note fw = fill_write [OF p inv _ c(1) n]
  show ?thesis
  proof (cases op)
    case (Bread dev blk)
    then have u: "usable d devs dev blk" using pre by simp
    from bread_spec [OF p inv u c n] obtain st1 b where "bread d env n dev blk st = Ok (st1, b)" "taken d devs N {} st b st1" "got d dev blk b st1"
      "b_data (bufs st1 b) = view d st dev blk" by blast
    then show ?thesis using release_ok u by (auto simp: Bread blocks_usable)
  next
    case (Breada dev blk rablk)
    then have u: "usable d devs dev blk" "rablk = 0 \<or> usable d devs dev rablk" using pre by auto
    from breada_spec [OF p inv u] ok obtain st1 b where "breada d env n dev blk rablk st = Ok (st1, b)" "taken d devs N {} st b st1" "got d dev blk b st1"
      "b_data (bufs st1 b) = view d st dev blk" unfolding bio_ok_def by blast
    then show ?thesis using release_ok u by (auto simp: Breada blocks_usable)
  next
    case (Bwrite dev blk x)
    then show ?thesis using pre fw [of dev blk "bwrite d env n" env x] bwrite_spec [OF p] by fastforce
  next
    case (Bawrite dev blk x)
    then show ?thesis using pre fw [of dev blk "bawrite d env n" env x] bawrite_spec [OF p] by fastforce
  next
    case (Bdwrite dev blk x)
    then show ?thesis using pre fw [of dev blk "\<lambda>b st. Ok (bdwrite b st)" env x] bdwrite_spec by fastforce
  next
    case (Bflush dev)
    then show ?thesis using bflush_spec [OF p inv n', of env dev] blocks_sees by auto
  next
    case (Blkflush dev blk)
    then show ?thesis using blkflush_spec [OF p _ inv n', of dev blk env] pre blocks_sees by auto
  qed
qed

lemma bio_step_ok:
  assumes "bio_ok d devs N n st" "bio_pre d devs op"
  shows "\<exists>st' r. bio_step d env n op st = Some (st', r) \<and> bio_ok d devs N n st' \<and> bio_spec op (blocks d devs st) (blocks d devs st') r"
  using bio_call_ok [OF assms, of env] assms(1) by (auto simp: bio_step_def bio_ok_def)

interpretation bio: refines "bio_ok d devs N n" "blocks d devs" "\<lambda>_. bio_pre d devs" "bio_step d env n" bio_spec
  for d devs N n env
  by unfold_locales (use bio_step_ok in auto)

end
