(* ===== verification/Bio_Use.thy ===== *)
theory Bio_Use
  imports Bio_Cache
begin

text \<open>
  The cache as its clients use it: a block is read and let go, or obtained, changed and written, while other buffers are held.
\<close>

definition not_held :: "nat set \<Rightarrow> bio \<Rightarrow> int \<Rightarrow> int \<Rightarrow> bool" where
  "not_held X st dev blk \<longleftrightarrow> (\<forall>c\<in>X. \<not> (valid (bufs st c) \<and> b_dev (bufs st c) = dev \<and> b_blkno (bufs st c) = blk))"

lemma not_held_empty [simp]: "not_held {} st dev blk" by (simp add: not_held_def)

lemma not_held_keeps: "keeps_held d X st st' \<Longrightarrow> not_held X st' dev blk = not_held X st dev blk"
  by (simp add: keeps_held_def not_held_def)

text \<open>
  What a client relies on between calls: the cache with the buffers \<open>X\<close> in use, one buffer to spare and turns enough. And how a state that
  a call leaves relates to the one before.
\<close>

definition cache_ok :: "sdisk \<Rightarrow> int set \<Rightarrow> nat \<Rightarrow> nat \<Rightarrow> nat set \<Rightarrow> bio \<Rightarrow> bool" where
  "cache_ok d devs N n X st \<longleftrightarrow> parts_ok d devs \<and> binv d devs N X st \<and> N + 1 < n \<and> (\<exists>c<N. c \<notin> X)"

definition follows :: "sdisk \<Rightarrow> int set \<Rightarrow> nat set \<Rightarrow> bio \<Rightarrow> bio \<Rightarrow> bool" where
  "follows d devs X st st' \<longleftrightarrow> calm st st' \<and> keeps_held d X st st'"

lemma follows_refl: "follows d devs X st st" by (simp add: follows_def calm_refl keeps_held_def)

lemma follows_trans: "follows d devs X st st1 \<Longrightarrow> follows d devs X st1 st2 \<Longrightarrow> follows d devs X st st2"
  using calm_trans keeps_held_trans by (auto simp: follows_def)

lemma cache_ok_step: "cache_ok d devs N n X st \<Longrightarrow> binv d devs N X st' \<Longrightarrow> cache_ok d devs N n X st'"
  by (simp add: cache_ok_def)

lemma held_tag:
  assumes "binv d devs N (insert b X) st" "b \<notin> X" "c \<in> X" "valid (bufs st b)" "valid (bufs st c)"
  shows "(b_dev (bufs st c), b_blkno (bufs st c)) \<noteq> (b_dev (bufs st b), b_blkno (bufs st b))" "usable d devs (b_dev (bufs st c)) (b_blkno (bufs st c))"
proof -
  have "b < N" "c < N" "hashed_ok d devs N st" "c \<noteq> b" using assms(1-3) by (auto simp: binv_def free_ok_def)
  then show "(b_dev (bufs st c), b_blkno (bufs st c)) \<noteq> (b_dev (bufs st b), b_blkno (bufs st b))" "usable d devs (b_dev (bufs st c)) (b_blkno (bufs st c))"
    using assms(4,5) unfolding hashed_ok_def by (metis prod.inject)+
qed

text \<open>The contract of a routine that writes a buffer and lets it go, kept by both writers the file system uses.\<close>

definition writer :: "sdisk \<Rightarrow> int set \<Rightarrow> nat \<Rightarrow> (nat \<Rightarrow> bio \<Rightarrow> bio cres) \<Rightarrow> bool" where
  "writer d devs N w \<longleftrightarrow> (\<forall>X st b. binv d devs N (insert b X) st \<longrightarrow> b \<notin> X \<longrightarrow> valid (bufs st b) \<longrightarrow> \<not> is_locked (bufs st b) \<longrightarrow> \<not> is_error (bufs st b) \<longrightarrow>
     (\<exists>st'. w b st = Ok st' \<and> binv d devs N X st' \<and> puts d devs (b_dev (bufs st b)) (b_blkno (bufs st b)) (b_data (bufs st b)) st st' \<and> follows d devs X st st'))"

lemma writer_bwrite:
  assumes p: "parts_ok d devs"
  shows "writer d devs N (bwrite d env n)"
  unfolding writer_def
proof (intro allI impI)
  fix X st b
  assume a: "binv d devs N (insert b X) st" "b \<notin> X" "valid (bufs st b)" "\<not> is_locked (bufs st b)"
  from bwrite_spec [OF p a, of env n] obtain st' where w: "bwrite d env n b st = Ok st'" "binv d devs N X st'"
    "puts d devs (b_dev (bufs st b)) (b_blkno (bufs st b)) (b_data (bufs st b)) st st'" "\<forall>c. c \<noteq> b \<longrightarrow> bufs st' c = bufs st c" "calm st st'"
    "\<forall>dev blk. usable d devs dev blk \<longrightarrow> (dev, blk) \<noteq> (b_dev (bufs st b), b_blkno (bufs st b)) \<longrightarrow> on_card d st' dev blk = on_card d st dev blk" by blast
  have "keeps_held d X st st'" unfolding keeps_held_def using a(2) w(4,6) held_tag [OF a(1,2) _ a(3)] by metis
  with w show "\<exists>st'. bwrite d env n b st = Ok st' \<and> binv d devs N X st' \<and> puts d devs (b_dev (bufs st b)) (b_blkno (bufs st b)) (b_data (bufs st b)) st st' \<and> follows d devs X st st'"
    by (auto simp: follows_def)
qed

lemma bdwrite_frame:
  assumes "\<not> is_error (bufs st b)"
  shows "c \<noteq> b \<Longrightarrow> bufs (bdwrite b st) c = bufs st c" "calm st (bdwrite b st)" "card (bdwrite b st) = card st"
proof -
  define st1 where "st1 = bset b (B_DELWRI OR B_DONE) (if bflags b st AND B_DELWRI = 0 then st\<lparr>ru_oublk := ru_oublk st + 1\<rparr> else st)"
  have bd: "bdwrite b st = brelse b st1" by (simp add: bdwrite_def st1_def)
  have f: "\<And>c. c \<noteq> b \<Longrightarrow> bufs st1 c = bufs st c" "calm st st1" "\<not> is_error (bufs st1 b)" "card st1 = card st" using assms by (auto simp: st1_def calm_def bit_simps)
  note r = brelse_bufs [OF f(3)]
  show "c \<noteq> b \<Longrightarrow> bufs (bdwrite b st) c = bufs st c" using f(1) by (simp add: bd r)
  show "calm st (bdwrite b st)" unfolding bd by (rule calm_trans [OF f(2) brelse_calm [OF f(3)]])
  show "card (bdwrite b st) = card st" by (simp add: bd r f(4))
qed

lemma writer_bdwrite: "writer d devs N (\<lambda>b st. Ok (bdwrite b st))"
  unfolding writer_def
proof (intro allI impI)
  fix X st b
  assume a: "binv d devs N (insert b X) st" "b \<notin> X" "valid (bufs st b)" "\<not> is_locked (bufs st b)" "\<not> is_error (bufs st b)"
  have "keeps_held d X st (bdwrite b st)" by (rule keeps_heldI) (use a(2) bdwrite_frame [OF a(5)] in metis)+
  then show "\<exists>st'. Ok (bdwrite b st) = Ok st' \<and> binv d devs N X st' \<and> puts d devs (b_dev (bufs st b)) (b_blkno (bufs st b)) (b_data (bufs st b)) st st' \<and> follows d devs X st st'"
    using bdwrite_spec [OF a] bdwrite_frame(2) [OF a(5)] by (auto simp: follows_def)
qed

section \<open>Reading\<close>

lemma release_use:
  assumes "binv d devs N (insert b X) st" "b \<notin> X" "got d dev blk b st"
  shows "binv d devs N X (brelse b st)" "sees d devs st (brelse b st)" "follows d devs X st (brelse b st)"
proof -
  have e: "\<not> is_error (bufs st b)" using assms(3) by (simp add: got_def Let_def)
  show "binv d devs N X (brelse b st)" "sees d devs st (brelse b st)"
    using brelse_inv [OF assms(1,2)] assms(3) by (auto simp: got_def Let_def intro: all_sees)
  have "keeps_held d X st (brelse b st)" using assms(2) brelse_bufs [OF e] by (intro keeps_heldI) auto
  then show "follows d devs X st (brelse b st)" using brelse_calm [OF e] by (simp add: follows_def)
qed

lemma read_use:
  assumes ok: "cache_ok d devs N n X st" and u: "usable d devs dev blk" and h: "not_held X st dev blk"
  shows "\<exists>st1 b. bread d env n dev blk st = Ok (st1, b) \<and> b < N \<and> b \<notin> X \<and> binv d devs N (insert b X) st1 \<and> sees d devs st st1 \<and> follows d devs X st st1
     \<and> got d dev blk b st1 \<and> is_done (bufs st1 b) \<and> b_data (bufs st1 b) = view d st dev blk \<and> b_resid (bufs st1 b) = b_resid (bufs st b)"
proof -
  from ok obtain c where c: "parts_ok d devs" "binv d devs N X st" "c < N" "c \<notin> X" "dirty N st + 1 < n"
    using dirty_le [of N st] by (auto simp: cache_ok_def)
  from bread_spec [OF c(1,2) u c(3-5) h [unfolded not_held_def], of env] show ?thesis by (auto simp: taken_def follows_def calm_def)
qed

lemma get_use:
  assumes ok: "cache_ok d devs N n X st" and u: "usable d devs dev blk" and h: "not_held X st dev blk"
  shows "\<exists>st1 b. getblk d env n dev blk st = Ok (st1, b) \<and> b < N \<and> b \<notin> X \<and> binv d devs N (insert b X) st1 \<and> sees d devs st st1 \<and> follows d devs X st st1
     \<and> got d dev blk b st1"
proof -
  from ok obtain c where c: "parts_ok d devs" "binv d devs N X st" "c < N" "c \<notin> X" "dirty N st + 1 < n"
    using dirty_le [of N st] by (auto simp: cache_ok_def)
  from getblk_spec [OF c(1,2) u c(3-5) h [unfolded not_held_def], of env] show ?thesis by (auto simp: taken_def follows_def)
qed

section \<open>Writing\<close>

text \<open>The holder of a buffer changes its contents, and hands it to a writer.\<close>

definition ready :: "int \<Rightarrow> int \<Rightarrow> nat \<Rightarrow> bio \<Rightarrow> bool" where
  "ready dev blk b st \<longleftrightarrow> (let p = bufs st b in valid p \<and> b_dev p = dev \<and> b_blkno p = blk \<and> \<not> is_error p \<and> \<not> is_locked p)"

lemma got_ready: "got d dev blk b st \<Longrightarrow> ready dev blk b st" by (simp add: got_def ready_def Let_def)

lemma change_use:
  assumes inv: "binv d devs N (insert b X) st" "b \<notin> X" and g: "ready dev blk b st" and r: "\<And>p. b_dev (f p) = b_dev p \<and> b_blkno (f p) = b_blkno p \<and> b_flags (f p) = b_flags p"
  shows "binv d devs N (insert b X) (upd_buf b f st)" "valid (bufs (upd_buf b f st) b)" "\<not> is_locked (bufs (upd_buf b f st) b)" "\<not> is_error (bufs (upd_buf b f st) b)"
    "\<And>dev' blk'. usable d devs dev' blk' \<Longrightarrow> (dev', blk') \<noteq> (dev, blk) \<Longrightarrow> view d (upd_buf b f st) dev' blk' = view d st dev' blk'" "keeps_held d X st (upd_buf b f st)" "ready dev blk b (upd_buf b f st)"
proof -
  have v: "valid (bufs st b)" "b_dev (bufs st b) = dev" "b_blkno (bufs st b) = blk" "\<not> is_locked (bufs st b)" "\<not> is_error (bufs st b)" using g by (auto simp: ready_def Let_def)
  show "valid (bufs (upd_buf b f st) b)" "\<not> is_locked (bufs (upd_buf b f st) b)" "\<not> is_error (bufs (upd_buf b f st) b)" using v by (auto simp: valid_def r)
  then show "binv d devs N (insert b X) (upd_buf b f st)"
    "\<And>dev' blk'. usable d devs dev' blk' \<Longrightarrow> (dev', blk') \<noteq> (dev, blk) \<Longrightarrow> view d (upd_buf b f st) dev' blk' = view d st dev' blk'"
    using held_inv [OF inv(1) v(1), of "upd_buf b f st"] v(2,3) by (auto simp: on_card_def r)
  show "keeps_held d X st (upd_buf b f st)" using inv(2) by (intro keeps_heldI) auto
  show "ready dev blk b (upd_buf b f st)" using v by (simp add: ready_def Let_def r valid_def)
qed

lemma write_use:
  assumes w: "writer d devs N w" and inv: "binv d devs N (insert b X) st" "b \<notin> X" and g: "ready dev blk b st"
    and r: "\<And>p. b_dev (f p) = b_dev p \<and> b_blkno (f p) = b_blkno p \<and> b_flags (f p) = b_flags p"
  shows "\<exists>st'. w b (upd_buf b f st) = Ok st' \<and> binv d devs N X st' \<and> puts d devs dev blk (b_data (f (bufs st b))) st st'
     \<and> keeps_held d X st st' \<and> calm (upd_buf b f st) st'"
proof -
  note c = change_use [OF inv g r]
  have t: "b_dev (bufs (upd_buf b f st) b) = dev" "b_blkno (bufs (upd_buf b f st) b) = blk" using g by (auto simp: ready_def Let_def r)
  from w [unfolded writer_def, rule_format, OF c(1) inv(2) c(2-4)] obtain st' where s: "w b (upd_buf b f st) = Ok st'" "binv d devs N X st'"
    "puts d devs dev blk (b_data (f (bufs st b))) (upd_buf b f st) st'" "follows d devs X (upd_buf b f st) st'" unfolding t by auto
  have "puts d devs dev blk (b_data (f (bufs st b))) st st'" using s(3) c(5) by (auto simp: puts_def)
  then show ?thesis using s keeps_held_trans [OF c(6)] by (auto simp: follows_def)
qed

end
