(* ===== verification/Ufs_Free.thy ===== *)
theory Ufs_Free
  imports Ufs Bio_Use
begin

text \<open>
  The free list of a file system is a stack: \<open>balloc\<close> pops a block, \<open>free\<close> pushes one, and nothing else on the card changes but the
  super block and the block concerned.
\<close>

section \<open>The free list\<close>

text \<open>
  The blocks on the free list, in the order in which they are handed out, given the contents of the blocks, the count and the array. The
  array is popped from its end; its first element is 0, or names the block that holds the next part of the list.
\<close>

inductive freelist :: "(int \<Rightarrow> block) \<Rightarrow> int \<Rightarrow> int list \<Rightarrow> int list \<Rightarrow> bool" for V where
  fl_none: "m \<le> 0 \<Longrightarrow> freelist V m fr []"
| fl_end: "fr ! 0 = 0 \<Longrightarrow> freelist V 1 fr []"
| fl_link: "fr ! 0 = c \<Longrightarrow> c \<noteq> 0 \<Longrightarrow> 201 \<le> length (V c) \<Longrightarrow> 0 < sint (V c ! 0) \<Longrightarrow> freelist V (sint (V c ! 0)) (map sint (take 200 (drop 1 (V c)))) l
    \<Longrightarrow> freelist V 1 fr (c # l)"
| fl_push: "1 \<le> m \<Longrightarrow> m < NICFREE \<Longrightarrow> freelist V m fr l \<Longrightarrow> fr ! nat m = b \<Longrightarrow> freelist V (m + 1) fr (b # l)"

inductive_cases freelist_cons: "freelist V m fr (b # l)"
inductive_cases freelist_nil: "freelist V m fr []"

lemma freelist_max: "freelist V m fr l \<Longrightarrow> m \<le> NICFREE"
  by (induction rule: freelist.induct) auto

lemma freelist_cong: "freelist V m fr l \<Longrightarrow> \<forall>c\<in>set l. V' c = V c \<Longrightarrow> freelist V' m fr l"
proof (induction rule: freelist.induct)
  case (fl_link fr c l)
  then show ?case by (intro freelist.fl_link) auto
qed (auto intro: freelist.intros)

lemma freelist_upd: "freelist V m fr l \<Longrightarrow> nat m \<le> i \<Longrightarrow> freelist V m (fr[i := x]) l"
  by (induction rule: freelist.induct) (auto intro!: freelist.intros simp: nth_list_update)

lemma freelist_entries: "freelist V m fr l \<Longrightarrow> i < nat m \<Longrightarrow> fr ! i = 0 \<or> fr ! i \<in> set l"
proof (induction arbitrary: i rule: freelist.induct)
  case (fl_push m fr l b)
  then have "i < nat m \<or> i = nat m" by linarith
  then show ?case using fl_push by auto
qed auto

lemma freelist_pop:
  assumes "freelist V m fr (b # l)"
  shows "0 < m" "m \<le> NICFREE" "fr ! nat (m - 1) = b" "m \<noteq> 1 \<Longrightarrow> freelist V (m - 1) fr l"
    "m = 1 \<Longrightarrow> 201 \<le> length (V b) \<and> 0 < sint (V b ! 0) \<and> freelist V (sint (V b ! 0)) (map sint (take 200 (drop 1 (V b)))) l"
  using assms freelist_max [OF assms] by (auto elim!: freelist_cons)

lemma sint_of_int: "- (2 ^ 31) \<le> x \<Longrightarrow> x < 2 ^ 31 \<Longrightarrow> sint (word_of_int x :: 32 word) = x"
  by (simp add: signed_of_int signed_take_bit_int_eq_self)

lemma fblk_load_store:
  assumes "length (fs_free f) = 200" "0 \<le> fs_nfree f" "fs_nfree f \<le> NICFREE" "\<forall>x\<in>set (fs_free f). 0 \<le> x \<and> x < 2 ^ 31"
  shows "sint (store_fblk f x ! 0) = fs_nfree f" "map sint (take 200 (drop 1 (store_fblk f x))) = fs_free f" "201 \<le> length (store_fblk f x)"
proof -
  show "sint (store_fblk f x ! 0) = fs_nfree f" using assms(2,3) by (simp add: store_fblk_def fblk_words_def sint_of_int)
  have "map sint (map (word_of_int :: int \<Rightarrow> 32 word) (fs_free f)) = fs_free f" using assms(4) by (auto simp: sint_of_int intro!: map_idI)
  then show "map sint (take 200 (drop 1 (store_fblk f x))) = fs_free f" using assms(1) by (simp add: store_fblk_def fblk_words_def)
  show "201 \<le> length (store_fblk f x)" using assms(1) by (simp add: store_fblk_def fblk_words_def)
qed

section \<open>The invariant\<close>

definition fs_list :: "sdisk \<Rightarrow> int set \<Rightarrow> int \<Rightarrow> nat set \<Rightarrow> int list \<Rightarrow> ufs \<Rightarrow> bool" where
  "fs_list d devs dev X l st \<longleftrightarrow> (let f = sb st in fs_flock f = 0 \<and> 0 < fs_isize f \<and> fs_fsize f \<le> 2 ^ 31 \<and> length (fs_free f) = 200
     \<and> (\<forall>b. b = SUPERB \<or> fs_isize f \<le> b \<and> b < fs_fsize f \<longrightarrow> usable d devs dev b)
     \<and> not_held X (bst st) dev SUPERB \<and> (\<forall>b\<in>set l. fs_isize f \<le> b \<and> b < fs_fsize f \<and> not_held X (bst st) dev b)
     \<and> freelist (view d (bst st) dev) (fs_nfree f) (fs_free f) l \<and> distinct l \<and> fs_tfree f = int (length l)
     \<and> (\<forall>b. b_resid (ubuf b st) = 0))"

definition fs_ok :: "sdisk \<Rightarrow> int set \<Rightarrow> nat \<Rightarrow> nat \<Rightarrow> int \<Rightarrow> nat set \<Rightarrow> int list \<Rightarrow> ufs \<Rightarrow> bool" where
  "fs_ok d devs N n dev X l st \<longleftrightarrow> cache_ok d devs N n X (bst st) \<and> fs_list d devs dev X l st"

text \<open>What a reader sees outside a set of blocks is as before.\<close>

definition same_but :: "sdisk \<Rightarrow> int set \<Rightarrow> (int \<times> int) set \<Rightarrow> bio \<Rightarrow> bio \<Rightarrow> bool" where
  "same_but d devs S st st' \<longleftrightarrow> (\<forall>dev blk. usable d devs dev blk \<longrightarrow> (dev, blk) \<notin> S \<longrightarrow> view d st' dev blk = view d st dev blk)"

lemma same_but_trans: "same_but d devs S st st1 \<Longrightarrow> same_but d devs T st1 st2 \<Longrightarrow> same_but d devs (S \<union> T) st st2"
  by (simp add: same_but_def)

lemma same_but_sees: "sees d devs st st' \<Longrightarrow> same_but d devs {} st st'" by (simp add: same_but_def sees_def)

lemma same_but_puts: "puts d devs dev blk x st st' \<Longrightarrow> same_but d devs {(dev, blk)} st st'" by (auto simp: same_but_def puts_def)

lemma same_but_mono: "same_but d devs S st st' \<Longrightarrow> S \<subseteq> T \<Longrightarrow> same_but d devs T st st'" by (auto simp: same_but_def)

lemma freelist_frame:
  assumes "freelist (view d st dev) m fr l" "same_but d devs S st st'" "\<forall>b\<in>set l. usable d devs dev b \<and> (dev, b) \<notin> S"
  shows "freelist (view d st' dev) m fr l"
  by (rule freelist_cong [OF assms(1)]) (use assms(2,3) in \<open>auto simp: same_but_def\<close>)

lemma upd_fs_simps [simp]: "bst (upd_fs g st) = bst st" "sb (upd_fs g st) = g (sb st)" "now (upd_fs g st) = now st" "rablock (upd_fs g st) = rablock st"
  by (simp_all add: upd_fs_def)

lemma in_cache_simps [simp]: "bst (in_cache g st) = g (bst st)" "sb (in_cache g st) = sb st" "now (in_cache g st) = now st" "rablock (in_cache g st) = rablock st"
  by (simp_all add: in_cache_def)

section \<open>Taking the next part of the list\<close>

lemma writer_choice:
  assumes "parts_ok d devs"
  shows "\<exists>w. writer d devs N w \<and> (\<forall>b st. (if c then with_cache (bwrite d env n b) st else Ok (in_cache (bdwrite b) st)) = with_cache (w b) st)"
proof (cases c)
  case True
  then show ?thesis using writer_bwrite [OF assms, of N env n] by auto
next
  case False
  then show ?thesis using writer_bdwrite [of d devs N] by (auto simp: with_cache_def in_cache_def intro!: exI [of _ "\<lambda>b st. Ok (bdwrite b st)"])
qed

lemma balloc_refill_spec:
  assumes ok: "cache_ok d devs N n X (bst st)" and u: "usable d devs dev c" "usable d devs dev SUPERB" and h: "not_held X (bst st) dev c" "not_held X (bst st) dev SUPERB"
    and r: "\<forall>b. b_resid (ubuf b st) = 0"
  shows "\<exists>st'. balloc_refill d env n async dev c st = Ok st' \<and> cache_ok d devs N n X (bst st') \<and> follows d devs X (bst st) (bst st')
     \<and> same_but d devs {(dev, SUPERB)} (bst st) (bst st')
     \<and> sb st' = (load_fblk (view d (bst st) dev c) (sb st))\<lparr>fs_flock := 0, fs_fmod := 0, fs_time := now st\<rparr> \<and> now st' = now st \<and> rablock st' = rablock st"
proof -
  have p: "parts_ok d devs" using ok by (simp add: cache_ok_def)
  obtain w where w: "writer d devs N w" "\<And>b st. (if \<not> async then with_cache (bwrite d env n b) st else Ok (in_cache (bdwrite b) st)) = with_cache (w b) st"
    using writer_choice [OF p, of N "\<not> async" env n] by blast
  from read_use [OF ok u(1) h(1), of env] obtain c1 b where s1: "bread d env n dev c (bst st) = Ok (c1, b)" "b \<notin> X" "binv d devs N (insert b X) c1"
    "sees d devs (bst st) c1" "follows d devs X (bst st) c1" "got d dev c b c1" "b_data (bufs c1 b) = view d (bst st) dev c" "b_resid (bufs c1 b) = b_resid (bufs (bst st) b)" by blast
  note s2 = release_use [OF s1(3,2,6)]
  have e: "b_flags (bufs c1 b) AND B_ERROR = 0" "b_resid (bufs c1 b) = 0" using s1(6,8) r by (auto simp: got_def Let_def bflag_bits ubuf_def)
  have ok2: "cache_ok d devs N n X (brelse b c1)" by (rule cache_ok_step [OF ok s2(1)])
  have f2: "follows d devs X (bst st) (brelse b c1)" by (rule follows_trans [OF s1(5) s2(3)])
  then have h2: "not_held X (brelse b c1) dev SUPERB" using h(2) not_held_keeps by (auto simp: follows_def)
  from get_use [OF ok2 u(2) h2, of env] obtain c3 b3 where s3: "getblk d env n dev SUPERB (brelse b c1) = Ok (c3, b3)" "b3 \<notin> X" "binv d devs N (insert b3 X) c3"
    "sees d devs (brelse b c1) c3" "follows d devs X (brelse b c1) c3" "got d dev SUPERB b3 c3" by blast
  define f where "f = (load_fblk (view d (bst st) dev c) ((sb st)\<lparr>fs_flock := fs_flock (sb st) + 1\<rparr>))\<lparr>fs_fmod := 0, fs_time := now st\<rparr>"
  from write_use [OF w(1) s3(3,2) got_ready [OF s3(6)], of "\<lambda>p. p\<lparr>b_data := fs_words f\<rparr>"] obtain c4 where s4: "w b3 (upd_buf b3 (\<lambda>p. p\<lparr>b_data := fs_words f\<rparr>) c3) = Ok c4" "binv d devs N X c4"
    "puts d devs dev SUPERB (fs_words f) c3 c4" "keeps_held d X c3 c4" "calm (upd_buf b3 (\<lambda>p. p\<lparr>b_data := fs_words f\<rparr>) c3) c4" by auto
  have "calm c3 c4" using s4(5) by (auto simp: calm_def)
  then have f4: "follows d devs X (bst st) c4" using f2 s3(5) s4(4) follows_trans by (metis follows_def)
  have "same_but d devs ({} \<union> ({} \<union> ({} \<union> {(dev, SUPERB)}))) (bst st) c4"
    by (intro same_but_trans [OF same_but_sees [OF s1(4)]] same_but_trans [OF same_but_sees [OF s2(2)]] same_but_trans [OF same_but_sees [OF s3(4)]] same_but_puts [OF s4(3)])
  moreover have "\<exists>st'. balloc_refill d env n async dev c st = Ok st' \<and> bst st' = c4 \<and> sb st' = f\<lparr>fs_flock := 0\<rparr> \<and> now st' = now st \<and> rablock st' = rablock st"
    unfolding balloc_refill_def Let_def w(2)
    using s1(1,7) e s3(1) s4(1) by (simp add: with_buf_def ubuf_def with_cache_def f_def)
  moreover have "f\<lparr>fs_flock := 0\<rparr> = (load_fblk (view d (bst st) dev c) (sb st))\<lparr>fs_flock := 0, fs_fmod := 0, fs_time := now st\<rparr>"
    by (cases "sb st") (simp add: f_def load_fblk_def)
  ultimately show ?thesis using cache_ok_step [OF ok s4(2)] f4 by auto
qed

section \<open>Taking a block\<close>

lemma balloc_pick_some:
  assumes "freelist V (fs_nfree f) (fs_free f) (b # l)" "0 < fs_isize f" "fs_isize f \<le> b" "b < fs_fsize f" "fs_fsize f \<le> 2 ^ 31"
  shows "balloc_pick f = (f\<lparr>fs_nfree := fs_nfree f - 1\<rparr>, Some b)"
proof -
  note p = freelist_pop [OF assms(1)]
  have "b mod 2 ^ 32 = b" using assms(2-) by simp
  then have "\<not> badblock (f\<lparr>fs_nfree := fs_nfree f - 1\<rparr>) b" "b \<noteq> 0" using assms(2-4) by (auto simp: badblock_def)
  then show ?thesis using p(1-3) by (subst balloc_pick.simps) (simp add: Let_def)
qed

lemma balloc_pick_none:
  assumes "freelist V (fs_nfree f) (fs_free f) []"
  shows "\<exists>f'. balloc_pick f = (f', None)"
  using assms by (subst balloc_pick.simps) (auto elim!: freelist_nil)

lemma balloc_take_spec:
  assumes ok: "cache_ok d devs N n X (bst st)" and u: "usable d devs dev b" and h: "not_held X (bst st) dev b" and r: "\<forall>b. b_resid (ubuf b st) = 0"
  shows "\<exists>st' bp. balloc_take d env n dev flags b st = Ok (st', Some bp) \<and> bp < N \<and> bp \<notin> X \<and> binv d devs N (insert bp X) (bst st') \<and> ready dev b bp (bst st')
     \<and> keeps_held d X (bst st) (bst st') \<and> same_but d devs {(dev, b)} (bst st) (bst st') \<and> (\<forall>b. b_resid (ubuf b st') = 0) \<and> uerror (bst st') = uerror (bst st)
     \<and> sb st' = (sb st)\<lparr>fs_fmod := 1, fs_tfree := (fs_tfree (sb st) - 1) mod 2 ^ 32\<rparr> \<and> (flags AND B_CLRBUF \<noteq> 0 \<longrightarrow> b_data (ubuf bp st') = replicate 256 0)
     \<and> now st' = now st \<and> rablock st' = rablock st"
proof -
  from get_use [OF ok u h, of env] obtain c1 bp where s1: "getblk d env n dev b (bst st) = Ok (c1, bp)" "bp < N" "bp \<notin> X" "binv d devs N (insert bp X) c1"
    "sees d devs (bst st) c1" "follows d devs X (bst st) c1" "got d dev b bp c1" by blast
  define g where "g = (\<lambda>p. let p = p\<lparr>b_resid := 0\<rparr> in if flags AND B_CLRBUF \<noteq> 0 then p\<lparr>b_data := replicate 256 0\<rparr> else p :: buf)"
  have g: "b_dev (g p) = b_dev p \<and> b_blkno (g p) = b_blkno p \<and> b_flags (g p) = b_flags p" for p by (simp add: g_def Let_def)
  note c = change_use [OF s1(4,3) got_ready [OF s1(7)], of g, OF g]
  have two: "upd_buf b f (upd_buf b f' c) = upd_buf b (f \<circ> f') c" for b f f' c by (simp add: upd_buf_def)
  have "balloc_take d env n dev flags b st = Ok (upd_fs (\<lambda>f. f\<lparr>fs_fmod := 1, fs_tfree := (fs_tfree f - 1) mod 2 ^ 32\<rparr>) (st\<lparr>bst := upd_buf bp g c1\<rparr>), Some bp)"
    using s1(1) by (simp add: balloc_take_def with_buf_def in_cache_def two g_def comp_def Let_def)
  moreover have "same_but d devs {(dev, b)} (bst st) (upd_buf bp g c1)"
    using c(5) s1(5) unfolding same_but_def sees_def by auto
  moreover have "keeps_held d X (bst st) (upd_buf bp g c1)" using s1(6) c(6) keeps_held_trans by (auto simp: follows_def)
  moreover have "\<forall>b. b_resid (bufs (upd_buf bp g c1) b) = 0" using r s1(6) by (auto simp: follows_def calm_def ubuf_def g_def Let_def)
  moreover have "uerror (upd_buf bp g c1) = uerror (bst st)" using s1(6) by (simp add: follows_def calm_def)
  moreover have "flags AND B_CLRBUF \<noteq> 0 \<longrightarrow> b_data (bufs (upd_buf bp g c1) bp) = replicate 256 0" by (simp add: g_def Let_def)
  ultimately show ?thesis using s1(2,3) c(1,7) by (auto simp: ubuf_def)
qed

text \<open>A list that has lost its first block, with that block in use.\<close>

lemma fs_list_pop:
  assumes l: "fs_list d devs dev X (b # l) st" and k: "keeps_held d X (bst st) (bst st')" and rd: "ready dev b bp (bst st')"
    and v: "same_but d devs {(dev, SUPERB), (dev, b)} (bst st) (bst st')" and r: "\<forall>b. b_resid (ubuf b st') = 0"
    and s: "fs_flock (sb st') = 0" "fs_isize (sb st') = fs_isize (sb st)" "fs_fsize (sb st') = fs_fsize (sb st)" "length (fs_free (sb st')) = 200"
      "fs_tfree (sb st') = (fs_tfree (sb st) - 1) mod 2 ^ 32"
    and fl: "freelist (view d (bst st) dev) (fs_nfree (sb st')) (fs_free (sb st')) l"
  shows "fs_list d devs dev (insert bp X) l st'"
proof -
  note l' = l [unfolded fs_list_def Let_def]
  have nh: "not_held (insert bp X) (bst st') dev x = (not_held X (bst st) dev x \<and> x \<noteq> b)" for x
    using rd not_held_keeps [OF k, of dev x] by (auto simp: not_held_def ready_def Let_def)
  have "freelist (view d (bst st') dev) (fs_nfree (sb st')) (fs_free (sb st')) l"
    by (rule freelist_frame [OF fl v]) (use l' in auto)
  moreover have "length l < 2 ^ 32"
  proof -
    have "set (b # l) \<subseteq> {0..<2 ^ 31}" using l' by auto
    then have "Finite_Set.card (set (b # l)) \<le> Finite_Set.card {0..<2 ^ 31 :: int}" by (rule card_mono [rotated]) simp
    then show ?thesis using l' by (simp add: distinct_card)
  qed
  then have "fs_tfree (sb st') = int (length l)" using l' s(5) by simp
  moreover have "SUPERB \<noteq> b" "\<forall>x\<in>set l. x \<noteq> b" using l' by auto
  ultimately show ?thesis unfolding fs_list_def Let_def using l' s r nh by auto
qed

lemma balloc_spec:
  assumes ok: "fs_ok d devs N n dev X (b # l) st"
  shows "\<exists>st' bp. balloc d env fenv n dev flags st = Ok (st', Some bp) \<and> bp < N \<and> bp \<notin> X \<and> binv d devs N (insert bp X) (bst st') \<and> ready dev b bp (bst st')
     \<and> fs_list d devs dev (insert bp X) l st' \<and> keeps_held d X (bst st) (bst st') \<and> same_but d devs {(dev, SUPERB), (dev, b)} (bst st) (bst st')
     \<and> uerror (bst st') = uerror (bst st) \<and> (flags AND B_CLRBUF \<noteq> 0 \<longrightarrow> b_data (ubuf bp st') = replicate 256 0)
     \<and> fs_isize (sb st') = fs_isize (sb st) \<and> fs_fsize (sb st') = fs_fsize (sb st)"
proof -
  define f where "f = (sb st)\<lparr>fs_nfree := fs_nfree (sb st) - 1\<rparr>"
  have c: "cache_ok d devs N n X (bst st)" and l: "fs_list d devs dev X (b # l) st" using ok by (auto simp: fs_ok_def)
  note l' = l [unfolded fs_list_def Let_def]
  have u: "usable d devs dev b" "usable d devs dev SUPERB" "b \<noteq> SUPERB" and h: "not_held X (bst st) dev b" "not_held X (bst st) dev SUPERB" using l' by auto
  have fl: "freelist (view d (bst st) dev) (fs_nfree (sb st)) (fs_free (sb st)) (b # l)" using l' by blast
  note pop = freelist_pop [OF fl]
  have pick: "balloc_pick (sb st) = (f, Some b)" unfolding f_def by (rule balloc_pick_some [OF fl]) (use l' in auto)
  have wait: "wait_flock fenv n st = Ok st" using l' by (cases n) auto
  show ?thesis
  proof (cases "fs_nfree (sb st) = 1")
    case False
    then have ba: "balloc d env fenv n dev flags st = balloc_take d env n dev flags b (st\<lparr>sb := f\<rparr>)"
      using pick wait pop(1) by (simp add: balloc_def f_def)
    from balloc_take_spec [of d devs N n X "st\<lparr>sb := f\<rparr>" dev b env flags] c u h l' obtain st' bp where
      t: "balloc_take d env n dev flags b (st\<lparr>sb := f\<rparr>) = Ok (st', Some bp)" "bp < N" "bp \<notin> X" "binv d devs N (insert bp X) (bst st')" "ready dev b bp (bst st')"
      "keeps_held d X (bst st) (bst st')" "same_but d devs {(dev, b)} (bst st) (bst st')" "\<forall>b. b_resid (ubuf b st') = 0" "uerror (bst st') = uerror (bst st)"
      "sb st' = f\<lparr>fs_fmod := 1, fs_tfree := (fs_tfree f - 1) mod 2 ^ 32\<rparr>" "flags AND B_CLRBUF \<noteq> 0 \<longrightarrow> b_data (ubuf bp st') = replicate 256 0"
      by (auto simp: ubuf_def)
    have v: "same_but d devs {(dev, SUPERB), (dev, b)} (bst st) (bst st')" by (rule same_but_mono [OF t(7)]) simp
    have "fs_list d devs dev (insert bp X) l st'"
      by (rule fs_list_pop [OF l t(6,5) v t(8)]) (use l' pop(4) [OF False] in \<open>simp_all add: t(10) f_def\<close>)
    then show ?thesis using ba t v by (auto simp: f_def)
  next
    case True
    note ch = pop(5) [OF True]
    have ln: "min (length (view d (bst st) dev b) - Suc 0) 200 = 200" using ch by linarith
    from balloc_refill_spec [of d devs N n X "st\<lparr>sb := f\<rparr>" dev b env "fs_flags (sb st) AND MNT_ASYNC \<noteq> 0"] c u h l' obtain st1 where
      r: "balloc_refill d env n (fs_flags (sb st) AND MNT_ASYNC \<noteq> 0) dev b (st\<lparr>sb := f\<rparr>) = Ok st1" "cache_ok d devs N n X (bst st1)" "follows d devs X (bst st) (bst st1)"
      "same_but d devs {(dev, SUPERB)} (bst st) (bst st1)" "sb st1 = (load_fblk (view d (bst st) dev b) f)\<lparr>fs_flock := 0, fs_fmod := 0, fs_time := now st\<rparr>"
      by (auto simp: ubuf_def)
    have s1: "fs_nfree (sb st1) = sint (view d (bst st) dev b ! 0)" "fs_free (sb st1) = map sint (take 200 (drop 1 (view d (bst st) dev b)))"
      "fs_isize (sb st1) = fs_isize (sb st)" "fs_fsize (sb st1) = fs_fsize (sb st)" "fs_flock (sb st1) = 0" "fs_tfree (sb st1) = fs_tfree (sb st)"
      by (simp_all add: r(5) load_fblk_def f_def)
    have ba: "balloc d env fenv n dev flags st = balloc_take d env n dev flags b st1"
      using pick wait r(1) True ch by (simp add: balloc_def f_def s1(1))
    have h1: "not_held X (bst st1) dev b" using h(1) r(3) not_held_keeps by (auto simp: follows_def)
    have z1: "\<forall>b. b_resid (ubuf b st1) = 0" using l' r(3) by (simp add: follows_def calm_def ubuf_def)
    from balloc_take_spec [OF r(2) u(1) h1 z1, of env flags] obtain st' bp where
      t: "balloc_take d env n dev flags b st1 = Ok (st', Some bp)" "bp < N" "bp \<notin> X" "binv d devs N (insert bp X) (bst st')" "ready dev b bp (bst st')"
      "keeps_held d X (bst st1) (bst st')" "same_but d devs {(dev, b)} (bst st1) (bst st')" "\<forall>b. b_resid (ubuf b st') = 0" "uerror (bst st') = uerror (bst st1)"
      "sb st' = (sb st1)\<lparr>fs_fmod := 1, fs_tfree := (fs_tfree (sb st1) - 1) mod 2 ^ 32\<rparr>" "flags AND B_CLRBUF \<noteq> 0 \<longrightarrow> b_data (ubuf bp st') = replicate 256 0" by blast
    have v: "same_but d devs {(dev, SUPERB), (dev, b)} (bst st) (bst st')" using same_but_trans [OF r(4) t(7)] by (simp add: insert_commute)
    have k: "keeps_held d X (bst st) (bst st')" using r(3) t(6) keeps_held_trans by (auto simp: follows_def)
    have "fs_list d devs dev (insert bp X) l st'"
      by (rule fs_list_pop [OF l k t(5) v t(8)]) (use l' ch s1 ln in \<open>simp_all add: t(10)\<close>)
    then show ?thesis using ba t v k r(3) s1 by (auto simp: follows_def calm_def)
  qed
qed

lemma balloc_full:
  assumes ok: "fs_ok d devs N n dev X [] st"
  shows "\<exists>st'. balloc d env fenv n dev flags st = Ok (st', None) \<and> uerror (bst st') = 28"
proof -
  have l': "fs_flock (sb st) = 0" "freelist (view d (bst st) dev) (fs_nfree (sb st)) (fs_free (sb st)) []" using ok by (auto simp: fs_ok_def fs_list_def Let_def)
  have wait: "wait_flock fenv n st = Ok st" using l' by (cases n) auto
  then show ?thesis using balloc_pick_none [OF l'(2)] by (auto simp: balloc_def balloc_nospace_def Let_def)
qed

section \<open>Giving a block back\<close>

lemma fs_list_push:
  assumes l: "fs_list d devs dev X l st" and b: "fs_isize (sb st) \<le> b" "b < fs_fsize (sb st)" "b \<notin> set l" "not_held X (bst st) dev b"
    and k: "keeps_held d X (bst st) (bst st')" and r: "\<forall>b. b_resid (ubuf b st') = 0"
    and s: "fs_flock (sb st') = 0" "fs_isize (sb st') = fs_isize (sb st)" "fs_fsize (sb st') = fs_fsize (sb st)" "length (fs_free (sb st')) = 200"
      "fs_tfree (sb st') = (fs_tfree (sb st) + 1) mod 2 ^ 32"
    and fl: "freelist (view d (bst st') dev) (fs_nfree (sb st')) (fs_free (sb st')) (b # l)"
  shows "fs_list d devs dev X (b # l) st'"
proof -
  note l' = l [unfolded fs_list_def Let_def]
  have "length (b # l) < 2 ^ 32"
  proof -
    have "set (b # l) \<subseteq> {0..<2 ^ 31}" using l' b by auto
    then have "Finite_Set.card (set (b # l)) \<le> Finite_Set.card {0..<2 ^ 31 :: int}" by (rule card_mono [rotated]) simp
    then show ?thesis using l' b(3) by (simp add: distinct_card)
  qed
  then have "fs_tfree (sb st') = int (length (b # l))" using l' s(5) by simp
  then show ?thesis unfolding fs_list_def Let_def using l' s r b fl not_held_keeps [OF k] by auto
qed

lemma free_spec:
  assumes ok: "fs_ok d devs N n dev X l st" and b: "fs_isize (sb st) \<le> b" "b < fs_fsize (sb st)" "b \<notin> set l" "not_held X (bst st) dev b"
  shows "\<exists>st'. free d env fenv n dev b st = Ok st' \<and> fs_ok d devs N n dev X (b # l) st' \<and> keeps_held d X (bst st) (bst st') \<and> same_but d devs {(dev, b)} (bst st) (bst st')
     \<and> uerror (bst st') = uerror (bst st) \<and> fs_isize (sb st') = fs_isize (sb st) \<and> fs_fsize (sb st') = fs_fsize (sb st)"
proof -
  have c: "cache_ok d devs N n X (bst st)" and l: "fs_list d devs dev X l st" using ok by (auto simp: fs_ok_def)
  note l' = l [unfolded fs_list_def Let_def]
  define f where "f = (if fs_nfree (sb st) \<le> 0 then (sb st)\<lparr>fs_nfree := 1, fs_free := (fs_free (sb st))[0 := 0]\<rparr> else sb st)"
  have u: "usable d devs dev b" using l' b by auto
  have fl: "freelist (view d (bst st) dev) (fs_nfree f) (fs_free f) l"
  proof (cases "fs_nfree (sb st) \<le> 0")
    case True
    with l' have "l = []" by (auto elim: freelist.cases)
    then show ?thesis using True l' by (simp add: f_def freelist.fl_end)
  qed (use l' in \<open>simp add: f_def\<close>)
  have f: "0 < fs_nfree f" "fs_nfree f \<le> NICFREE" "length (fs_free f) = 200" "fs_flock f = 0" "fs_tfree f = fs_tfree (sb st)"
    "fs_isize f = fs_isize (sb st)" "fs_fsize f = fs_fsize (sb st)" using l' freelist_max [OF fl] by (auto simp: f_def)
  have "b mod 2 ^ 32 = b" using b l' by simp
  then have nb: "\<not> badblock (sb st) b" using b by (simp add: badblock_def)
  have wait: "wait_flock fenv n st = Ok st" using l' by (cases n) auto
  show ?thesis
  proof (cases "fs_nfree f < NICFREE")
    case True
    define st' where "st' = upd_fs (\<lambda>f. f\<lparr>fs_free := (fs_free f)[nat (fs_nfree f) := b], fs_nfree := fs_nfree f + 1, fs_tfree := (fs_tfree f + 1) mod 2 ^ 32, fs_fmod := 1\<rparr>) (st\<lparr>sb := f\<rparr>)"
    have fr: "free d env fenv n dev b st = Ok st'"
      using nb wait True by (auto simp: free_def st'_def upd_fs_def f_def Let_def)
    have "freelist (view d (bst st) dev) (fs_nfree f + 1) ((fs_free f)[nat (fs_nfree f) := b]) (b # l)"
      by (rule freelist.fl_push [OF _ True freelist_upd [OF fl]]) (use f True in \<open>auto simp: nat_less_iff\<close>)
    then have "fs_list d devs dev X (b # l) st'"
      by (intro fs_list_push [OF l b]) (use l' f in \<open>auto simp: st'_def ubuf_def keeps_held_def\<close>)
    then show ?thesis using fr c f by (auto simp: fs_ok_def st'_def keeps_held_def same_but_def)
  next
    case False
    then have m: "fs_nfree f = NICFREE" using f(2) by simp
    have p: "parts_ok d devs" using c by (simp add: cache_ok_def)
    obtain w where w: "writer d devs N w" "\<And>bp st. (if fs_flags f AND MNT_ASYNC \<noteq> 0 then Ok (in_cache (bdwrite bp) st) else with_cache (bwrite d env n bp) st) = with_cache (w bp) st"
      using writer_choice [OF p, of N "fs_flags f AND MNT_ASYNC = 0" env n] by (metis (full_types))
    from get_use [OF c u b(4), of env] obtain c1 bp where s1: "getblk d env n dev b (bst st) = Ok (c1, bp)" "bp \<notin> X" "binv d devs N (insert bp X) c1"
      "sees d devs (bst st) c1" "follows d devs X (bst st) c1" "got d dev b bp c1" by blast
    let ?g = "\<lambda>p. p\<lparr>b_data := store_fblk (f\<lparr>fs_flock := fs_flock f + 1\<rparr>) (b_data p)\<rparr>"
    from write_use [OF w(1) s1(3,2) got_ready [OF s1(6)], of ?g] obtain c2 where s2: "w bp (upd_buf bp ?g c1) = Ok c2" "binv d devs N X c2"
      "puts d devs dev b (store_fblk (f\<lparr>fs_flock := fs_flock f + 1\<rparr>) (b_data (bufs c1 bp))) c1 c2" "keeps_held d X c1 c2" "calm (upd_buf bp ?g c1) c2" by auto
    have sf: "upd_fs (\<lambda>f. if fs_nfree f \<le> 0 then f\<lparr>fs_nfree := 1, fs_free := (fs_free f)[0 := 0]\<rparr> else f) st = st\<lparr>sb := f\<rparr>" by (simp add: upd_fs_def f_def)
    obtain st' where fr: "free d env fenv n dev b st = Ok st'" and st': "bst st' = c2" "fs_nfree (sb st') = 1" "fs_free (sb st') = (fs_free f)[0 := b]" "fs_flock (sb st') = 0"
      "fs_isize (sb st') = fs_isize f" "fs_fsize (sb st') = fs_fsize f" "fs_tfree (sb st') = (fs_tfree f + 1) mod 2 ^ 32"
    proof
      let ?s1 = "upd_fs (\<lambda>f. f\<lparr>fs_nfree := 0\<rparr>) (in_cache (upd_buf bp ?g) (upd_fs (\<lambda>f. f\<lparr>fs_flock := fs_flock f + 1\<rparr>) (st\<lparr>sb := f\<rparr>)\<lparr>bst := c1\<rparr>))"
      let ?s2 = "upd_fs (\<lambda>f. f\<lparr>fs_flock := 0\<rparr>) (?s1\<lparr>bst := c2, fs_woken := Fs_flock # fs_woken ?s1\<rparr>)"
      show "free d env fenv n dev b st = Ok (upd_fs (\<lambda>f. f\<lparr>fs_free := (fs_free f)[nat (fs_nfree f) := b], fs_nfree := fs_nfree f + 1, fs_tfree := (fs_tfree f + 1) mod 2 ^ 32, fs_fmod := 1\<rparr>) ?s2)"
        using nb wait m s1(1) s2(1) unfolding free_def Let_def
        by (simp only: sf bind_cres.simps if_False if_True) (simp add: with_buf_def w(2) with_cache_def)
    qed simp_all
    have k: "keeps_held d X (bst st) c2" using s1(5) s2(4) keeps_held_trans by (auto simp: follows_def)
    have v: "same_but d devs {(dev, b)} (bst st) c2" using same_but_trans [OF same_but_sees [OF s1(4)] same_but_puts [OF s2(3)]] by simp
    have "\<forall>x\<in>set (fs_free f). x = 0 \<or> x \<in> set l" 
    proof
      fix x assume "x \<in> set (fs_free f)"
      then obtain i where "i < 200" "x = fs_free f ! i" using f(3) by (auto simp: in_set_conv_nth)
      then show "x = 0 \<or> x \<in> set l" using freelist_entries [OF fl, of i] m by simp
    qed
    then have rng: "\<forall>x\<in>set (fs_free f). 0 \<le> x \<and> x < 2 ^ 31" using l' by fastforce
    note ls = fblk_load_store [of "f\<lparr>fs_flock := fs_flock f + 1\<rparr>" "b_data (bufs c1 bp)"]
    have vb: "view d c2 dev b = store_fblk (f\<lparr>fs_flock := fs_flock f + 1\<rparr>) (b_data (bufs c1 bp))" using s2(3) u by (simp add: puts_def)
    have "freelist (view d c2 dev) (fs_nfree f) (fs_free f) l"
      by (rule freelist_frame [OF fl v]) (use l' b(3) in auto)
    then have "freelist (view d c2 dev) 1 ((fs_free f)[0 := b]) (b # l)"
      by (intro freelist.fl_link) (use ls f rng b(1) l' m in \<open>auto simp: vb\<close>)
    moreover have "\<forall>b. b_resid (bufs c2 b) = 0" "uerror c2 = uerror (bst st)"
      using l' s1(5) s2(5) by (auto simp: follows_def calm_def ubuf_def)
    ultimately have "fs_list d devs dev X (b # l) st'"
      by (intro fs_list_push [OF l b]) (use f k in \<open>auto simp: st' ubuf_def\<close>)
    then show ?thesis using fr cache_ok_step [OF c s2(2)] k v f \<open>uerror c2 = uerror (bst st)\<close> by (auto simp: fs_ok_def st')
  qed
qed

section \<open>Users of the free list\<close>

text \<open>
  A user takes a block, fills it and writes it with delay, or gives back a block it holds. The second component is the set of blocks in use.
\<close>

inductive fs_step :: "sdisk \<Rightarrow> (nat \<Rightarrow> bio \<Rightarrow> bio) \<Rightarrow> (nat \<Rightarrow> ufs \<Rightarrow> ufs) \<Rightarrow> nat \<Rightarrow> int \<Rightarrow> ufs \<times> int set \<Rightarrow> ufs \<times> int set \<Rightarrow> bool" for d env fenv n dev where
  take_step: "balloc d env fenv n dev flags st = Ok (st', Some bp) \<Longrightarrow>
     fs_step d env fenv n dev (st, A) (in_cache (\<lambda>c. bdwrite bp (upd_buf bp (\<lambda>p. p\<lparr>b_data := x\<rparr>) c)) st', insert (b_blkno (ubuf bp st')) A)"
| give_step: "b \<in> A \<Longrightarrow> free d env fenv n dev b st = Ok st' \<Longrightarrow> fs_step d env fenv n dev (st, A) (st', A - {b})"

inductive_cases fs_stepE: "fs_step d env fenv n dev (st, A) (st', A')"

text \<open>Every block is either in use or on the free list, never both; the list has as many blocks as the super block says.\<close>

definition fs_inv :: "sdisk \<Rightarrow> int set \<Rightarrow> nat \<Rightarrow> nat \<Rightarrow> int \<Rightarrow> int set \<Rightarrow> ufs \<times> int set \<Rightarrow> bool" where
  "fs_inv d devs N n dev all = (\<lambda>(st, A). \<exists>l. fs_ok d devs N n dev {} l st \<and> A \<inter> set l = {} \<and> A \<union> set l = all \<and> (\<forall>b\<in>A. fs_isize (sb st) \<le> b \<and> b < fs_fsize (sb st)))"

lemma alloc_write:
  assumes ok: "fs_ok d devs N n dev {} (b # l) st"
  shows "\<exists>st' bp. balloc d env fenv n dev flags st = Ok (st', Some bp) \<and> b_blkno (ubuf bp st') = b
     \<and> (let st2 = in_cache (\<lambda>c. bdwrite bp (upd_buf bp (\<lambda>p. p\<lparr>b_data := x\<rparr>) c)) st' in fs_ok d devs N n dev {} l st2 \<and> view d (bst st2) dev b = x
       \<and> same_but d devs {(dev, SUPERB), (dev, b)} (bst st) (bst st2) \<and> fs_isize (sb st2) = fs_isize (sb st) \<and> fs_fsize (sb st2) = fs_fsize (sb st) \<and> uerror (bst st2) = uerror (bst st))"
proof -
  from balloc_spec [OF ok, of env fenv flags] obtain st' bp where a: "balloc d env fenv n dev flags st = Ok (st', Some bp)" "binv d devs N (insert bp {}) (bst st')" "ready dev b bp (bst st')"
    "fs_list d devs dev (insert bp {}) l st'" "same_but d devs {(dev, SUPERB), (dev, b)} (bst st) (bst st')" "uerror (bst st') = uerror (bst st)"
    "fs_isize (sb st') = fs_isize (sb st)" "fs_fsize (sb st') = fs_fsize (sb st)" by blast
  define st2 where "st2 = in_cache (\<lambda>c. bdwrite bp (upd_buf bp (\<lambda>p. p\<lparr>b_data := x\<rparr>) c)) st'"
  have w: "binv d devs N {} (bst st2)" "puts d devs dev b x (bst st') (bst st2)" "calm (upd_buf bp (\<lambda>p. p\<lparr>b_data := x\<rparr>) (bst st')) (bst st2)"
    using write_use [OF writer_bdwrite a(2) _ a(3), of "\<lambda>p. p\<lparr>b_data := x\<rparr>"] by (auto simp: st2_def)
  note l' = a(4) [unfolded fs_list_def Let_def] and o = ok [unfolded fs_ok_def fs_list_def Let_def]
  have u: "usable d devs dev b" using o by auto
  have bl: "b \<notin> set l" "b \<noteq> SUPERB" using o by auto
  have fl: "freelist (view d (bst st2) dev) (fs_nfree (sb st2)) (fs_free (sb st2)) l"
    by (rule freelist_frame [OF _ same_but_puts [OF w(2)]]) (use l' bl in \<open>auto simp: st2_def\<close>)
  have "fs_list d devs dev {} l st2" unfolding fs_list_def Let_def using l' fl w(3) by (auto simp: st2_def calm_def ubuf_def)
  moreover have "cache_ok d devs N n {} (bst st2)" using cache_ok_step [OF _ w(1)] o by blast
  moreover have "same_but d devs {(dev, SUPERB), (dev, b)} (bst st) (bst st2)" by (rule same_but_mono [OF same_but_trans [OF a(5) same_but_puts [OF w(2)]]]) auto
  moreover have "view d (bst st2) dev b = x" using w(2) u by (simp add: puts_def)
  moreover have "uerror (bst st2) = uerror (bst st)" using w(3) a(6) by (simp add: calm_def)
  ultimately have "fs_ok d devs N n dev {} l st2 \<and> view d (bst st2) dev b = x \<and> same_but d devs {(dev, SUPERB), (dev, b)} (bst st) (bst st2)
      \<and> fs_isize (sb st2) = fs_isize (sb st) \<and> fs_fsize (sb st2) = fs_fsize (sb st) \<and> uerror (bst st2) = uerror (bst st)" using a by (simp add: fs_ok_def st2_def)
  moreover have "b_blkno (ubuf bp st') = b" using a(3) by (simp add: ready_def Let_def ubuf_def)
  ultimately show ?thesis using a(1) unfolding st2_def [symmetric] Let_def by (auto simp: st2_def)
qed

lemma fs_step_inv:
  assumes "fs_step d env fenv n dev s s'" "fs_inv d devs N n dev all s"
  shows "fs_inv d devs N n dev all s'"
  using assms
proof (induction rule: fs_step.induct)
  case (take_step flags st st' bp A x)
  then obtain l where l: "fs_ok d devs N n dev {} l st" "A \<inter> set l = {}" "A \<union> set l = all" "\<forall>b\<in>A. fs_isize (sb st) \<le> b \<and> b < fs_fsize (sb st)" by (auto simp: fs_inv_def)
  show ?case
  proof (cases l)
    case Nil
    then show ?thesis using balloc_full [of d devs N n dev "{}" st env fenv flags] l(1) take_step(1) by auto
  next
    case (Cons b l')
    from alloc_write [OF l(1) [unfolded Cons], of env fenv flags x] take_step(1) have
      "b_blkno (ubuf bp st') = b" "fs_ok d devs N n dev {} l' (in_cache (\<lambda>c. bdwrite bp (upd_buf bp (\<lambda>p. p\<lparr>b_data := x\<rparr>) c)) st')"
      "fs_isize (sb st') = fs_isize (sb st)" "fs_fsize (sb st') = fs_fsize (sb st)" by (auto simp: Let_def)
    moreover have "b \<notin> set l'" "fs_isize (sb st) \<le> b \<and> b < fs_fsize (sb st)" using l(1) Cons by (auto simp: fs_ok_def fs_list_def Let_def)
    ultimately show ?thesis using l(2-4) Cons unfolding fs_inv_def by (auto intro!: exI [of _ l'])
  qed
next
  case (give_step b A st st')
  then obtain l where l: "fs_ok d devs N n dev {} l st" "A \<inter> set l = {}" "A \<union> set l = all" "\<forall>b\<in>A. fs_isize (sb st) \<le> b \<and> b < fs_fsize (sb st)" by (auto simp: fs_inv_def)
  with give_step(1) have b: "b \<notin> set l" "fs_isize (sb st) \<le> b" "b < fs_fsize (sb st)" by auto
  from free_spec [OF l(1) b(2,3,1), of env fenv] give_step(2) have "fs_ok d devs N n dev {} (b # l) st'" "fs_isize (sb st') = fs_isize (sb st)" "fs_fsize (sb st') = fs_fsize (sb st)" by auto
  then show ?case using l give_step(1) b unfolding fs_inv_def by (auto intro!: exI [of _ "b # l"])
qed

end
