(* ===== verification/Ufs_Bmap.thy ===== *)
theory Ufs_Bmap
  imports Ufs_Free
begin

text \<open>
  The block map of a file. The blocks that \<open>bmap\<close> allocates extend the map at the place asked for and nowhere else.
\<close>

section \<open>The map of a file\<close>

definition slot :: "int \<Rightarrow> nat \<Rightarrow> nat" where
  "slot bn k = nat (bn div 2 ^ (8 * k) mod 256)"

definition ptr :: "(int \<Rightarrow> block) \<Rightarrow> int \<Rightarrow> nat \<Rightarrow> int" where
  "ptr V nb i = sint (V nb ! i)"

text \<open>Through \<open>k\<close> levels of indirection; 0 is no block. And the blocks that a pointer leads to.\<close>

primrec through :: "nat \<Rightarrow> (int \<Rightarrow> block) \<Rightarrow> int \<Rightarrow> int \<Rightarrow> int" where
  "through 0 V bn nb = nb"
| "through (Suc k) V bn nb = (if nb = 0 then 0 else through k V bn (ptr V nb (slot bn k)))"

primrec nodes :: "nat \<Rightarrow> (int \<Rightarrow> block) \<Rightarrow> int \<Rightarrow> int list" where
  "nodes 0 V nb = (if nb = 0 then [] else [nb])"
| "nodes (Suc k) V nb = (if nb = 0 then [] else nb # concat (map (\<lambda>i. nodes k V (ptr V nb i)) [0..<256]))"

primrec shaped :: "nat \<Rightarrow> (int \<Rightarrow> block) \<Rightarrow> int \<Rightarrow> bool" where
  "shaped 0 V nb \<longleftrightarrow> True"
| "shaped (Suc k) V nb \<longleftrightarrow> (nb \<noteq> 0 \<longrightarrow> length (V nb) = 256 \<and> (\<forall>i<256. shaped k V (ptr V nb i)))"

definition tree_ok :: "nat \<Rightarrow> (int \<Rightarrow> block) \<Rightarrow> int \<Rightarrow> bool" where
  "tree_ok k V nb \<longleftrightarrow> distinct (nodes k V nb) \<and> shaped k V nb"

lemma slot_less: "slot bn k < 256"
proof -
  have "bn div 2 ^ (8 * k) mod 256 < 256" by simp
  then show ?thesis unfolding slot_def by linarith
qed

lemma nodes_zero [simp]: "nodes k V 0 = []" by (cases k) auto

lemma through_zero [simp]: "through k V bn 0 = 0" by (cases k) auto

lemma shaped_zero [simp]: "shaped k V 0" by (cases k) auto

lemma tree_ok_zero [simp]: "tree_ok k V 0" by (simp add: tree_ok_def)

lemma nodes_root: "nb \<noteq> 0 \<Longrightarrow> nb \<in> set (nodes k V nb)" by (cases k) auto

lemma through_nodes: "through k V bn nb \<noteq> 0 \<Longrightarrow> through k V bn nb \<in> set (nodes k V nb)"
proof (induction k arbitrary: nb)
  case (Suc k)
  then show ?case using slot_less [of bn k] by (fastforce split: if_splits)
qed simp

lemma tree_frame:
  "\<forall>b\<in>set (nodes k V nb). V' b = V b \<Longrightarrow> nodes k V' nb = nodes k V nb \<and> (\<forall>bn. through k V' bn nb = through k V bn nb) \<and> shaped k V' nb = shaped k V nb"
proof (induction k arbitrary: nb)
  case (Suc k)
  show ?case
  proof (cases "nb = 0")
    case False
    then have p: "V' nb = V nb" "ptr V' nb = ptr V nb" using Suc.prems by (auto simp: ptr_def fun_eq_iff)
    have "nodes k V' (ptr V nb i) = nodes k V (ptr V nb i) \<and> (\<forall>bn. through k V' bn (ptr V nb i) = through k V bn (ptr V nb i)) \<and> shaped k V' (ptr V nb i) = shaped k V (ptr V nb i)" if "i < 256" for i
      by (rule Suc.IH) (use Suc.prems False that in auto)
    then show ?thesis using p False slot_less by (auto intro!: arg_cong [of _ _ concat])
  qed simp
qed simp

lemma zero_block:
  assumes "V nb = replicate 256 0" "nb \<noteq> 0"
  shows "nodes k V nb = [nb]" "through (Suc k) V bn nb = 0" "shaped k V nb"
proof -
  have p: "ptr V nb i = 0" if "i < 256" for i using assms(1) that by (simp add: ptr_def)
  have z: "concat (map (\<lambda>i. nodes k V (ptr V nb i)) [0..<256]) = []" for k using p by simp
  show "nodes k V nb = [nb]" using assms(2) z by (cases k) auto
  show "through (Suc k) V bn nb = 0" using p slot_less by simp
  show "shaped k V nb" using assms(1) p by (cases k) auto
qed

lemma pairs_Suc:
  assumes "\<And>i j. D i j = D j i"
  shows "(\<forall>i<Suc m. \<forall>j<Suc m. i \<noteq> j \<longrightarrow> D i j) \<longleftrightarrow> (\<forall>i<m. \<forall>j<m. i \<noteq> j \<longrightarrow> D i j) \<and> (\<forall>i<m. D i (m :: nat))"
  using assms by (metis less_Suc_eq less_irrefl)

lemma distinct_concat_upt:
  "distinct (concat (map f [0..<m])) \<longleftrightarrow> (\<forall>i<m. distinct (f i)) \<and> (\<forall>i<m. \<forall>j<m. i \<noteq> j \<longrightarrow> set (f i) \<inter> set (f j) = {})"
proof (induction m)
  case (Suc m)
  have "distinct (concat (map f [0..<Suc m])) \<longleftrightarrow> distinct (concat (map f [0..<m])) \<and> distinct (f m) \<and> (\<forall>i<m. set (f i) \<inter> set (f m) = {})"
    by (simp add: atLeast0LessThan) blast
  also have "\<dots> \<longleftrightarrow> (\<forall>i<Suc m. distinct (f i)) \<and> (\<forall>i<Suc m. \<forall>j<Suc m. i \<noteq> j \<longrightarrow> set (f i) \<inter> set (f j) = {})"
    unfolding Suc pairs_Suc [of "\<lambda>i j. set (f i) \<inter> set (f j) = {}", OF arg_cong [OF Int_commute]] by (auto simp: less_Suc_eq)
  finally show ?case .
qed simp

lemma tree_ok_Suc:
  assumes "nb \<noteq> 0"
  shows "tree_ok (Suc k) V nb \<longleftrightarrow> length (V nb) = 256 \<and> (\<forall>i<256. tree_ok k V (ptr V nb i)) \<and> (\<forall>i<256. nb \<notin> set (nodes k V (ptr V nb i)))
    \<and> (\<forall>i<256. \<forall>j<256. i \<noteq> j \<longrightarrow> set (nodes k V (ptr V nb i)) \<inter> set (nodes k V (ptr V nb j)) = {})"
proof -
  have "distinct (nodes (Suc k) V nb) \<longleftrightarrow> (\<forall>i<256. nb \<notin> set (nodes k V (ptr V nb i))) \<and> distinct (concat (map (\<lambda>i. nodes k V (ptr V nb i)) [0..<256]))"
    using assms by auto
  then show ?thesis using assms unfolding tree_ok_def distinct_concat_upt by auto
qed

lemma nodes_Suc: "nb \<noteq> 0 \<Longrightarrow> set (nodes (Suc k) V nb) = insert nb (\<Union>i<256. set (nodes k V (ptr V nb i)))"
  by auto

declare nodes.simps(2) [simp del] through.simps(2) [simp del] shaped.simps(2) [simp del]

section \<open>One round\<close>

text \<open>A place on the way that is taken is followed; nothing changes.\<close>

lemma bmap_step_follow:
  assumes ok: "fs_ok d devs N n dev {} l st" and u: "usable d devs dev nb" and c: "ptr (view d (bst st) dev) nb (slot bn k) \<noteq> 0"
  shows "\<exists>st' ra'. bmap_step d env fenv n dev wr flags async bn j (8 * k) nb ra st = Ok (Inr (st', ptr (view d (bst st) dev) nb (slot bn k), ra'))
     \<and> fs_ok d devs N n dev {} l st' \<and> sees d devs (bst st) (bst st') \<and> uerror (bst st') = uerror (bst st) \<and> sb st' = sb st
     \<and> rablock st' = rablock st \<and> (ra' = ra \<or> (\<exists>j<256. ra' = ptr (view d (bst st) dev) nb j))"
proof -
  have ca: "cache_ok d devs N n {} (bst st)" and r: "\<And>b. b_resid (bufs (bst st) b) = 0" using ok by (auto simp: fs_ok_def fs_list_def Let_def ubuf_def)
  from read_use [OF ca u, of env] obtain c1 b where s1: "bread d env n dev nb (bst st) = Ok (c1, b)" "binv d devs N (insert b {}) c1" "b \<notin> {}"
    "sees d devs (bst st) c1" "follows d devs {} (bst st) c1" "got d dev nb b c1" "b_data (bufs c1 b) = view d (bst st) dev nb" "b_resid (bufs c1 b) = b_resid (bufs (bst st) b)" by auto
  note s2 = release_use [OF s1(2,3,6)]
  have e: "b_flags (bufs c1 b) AND B_ERROR = 0" "b_resid (bufs c1 b) = 0" using s1(6,8) r by (auto simp: got_def Let_def bflag_bits)
  define st' where "st' = st\<lparr>bst := brelse b c1\<rparr>"
  define ra' where "ra' = (if slot bn k < 255 then ptr (view d (bst st) dev) nb (slot bn k + 1) else ra)"
  have "bmap_step d env fenv n dev wr flags async bn j (8 * k) nb ra st = Ok (Inr (st', ptr (view d (bst st) dev) nb (slot bn k), ra'))"
    using s1(1,7) e c by (simp add: bmap_step_def with_buf_def ubuf_def ptr_def slot_def Let_def in_cache_def st'_def ra'_def)
  moreover have "ra' = ra \<or> (\<exists>j<256. ra' = ptr (view d (bst st) dev) nb j)" by (auto simp: ra'_def intro: exI [of _ "slot bn k + 1"])
  moreover have se: "sees d devs (bst st) (bst st')" using sees_trans [OF s1(4) s2(2)] by (simp add: st'_def)
  moreover have fo: "follows d devs {} (bst st) (bst st')" using follows_trans [OF s1(5) s2(3)] by (simp add: st'_def)
  moreover have "fs_ok d devs N n dev {} l st'"
  proof -
    have "freelist (view d (bst st') dev) (fs_nfree (sb st)) (fs_free (sb st)) l"
      by (rule freelist_frame [OF _ same_but_sees [OF se]]) (use ok in \<open>auto simp: fs_ok_def fs_list_def Let_def\<close>)
    then show ?thesis using ok cache_ok_step [OF ca s2(1)] fo by (auto simp: fs_ok_def fs_list_def Let_def st'_def follows_def calm_def ubuf_def)
  qed
  ultimately show ?thesis by (auto simp: follows_def calm_def st'_def)
qed

text \<open>A place on the way that is empty gets a cleared block from the free list.\<close>

lemma bmap_step_extend:
  assumes ok: "fs_ok d devs N n dev {} (b # l) st" and N: "1 < N" and nb: "nb \<notin> set (b # l)" "nb \<noteq> SUPERB" and u: "usable d devs dev nb"
    and c: "ptr (view d (bst st) dev) nb (slot bn k) = 0"
  shows "\<exists>st' ra'. bmap_step d env fenv n dev True flags async bn j (8 * k) nb ra st = Ok (Inr (st', b, ra')) \<and> fs_ok d devs N n dev {} l st'
     \<and> uerror (bst st') = uerror (bst st) \<and> fs_isize (sb st') = fs_isize (sb st) \<and> fs_fsize (sb st') = fs_fsize (sb st)
     \<and> view d (bst st') dev b = replicate 256 0 \<and> view d (bst st') dev nb = (view d (bst st) dev nb)[slot bn k := word_of_int b]
     \<and> same_but d devs {(dev, SUPERB), (dev, b), (dev, nb)} (bst st) (bst st')"
proof -
  note o = ok [unfolded fs_ok_def fs_list_def Let_def]
  have ca: "cache_ok d devs N n {} (bst st)" and r: "\<And>b. b_resid (bufs (bst st) b) = 0" and ub: "usable d devs dev b" using o by (auto simp: ubuf_def)
  have p: "parts_ok d devs" using ca by (simp add: cache_ok_def)
  from read_use [OF ca u, of env] obtain c1 bp where s1: "bread d env n dev nb (bst st) = Ok (c1, bp)" "binv d devs N (insert bp {}) c1" "bp < N"
    "sees d devs (bst st) c1" "follows d devs {} (bst st) c1" "got d dev nb bp c1" "b_data (bufs c1 bp) = view d (bst st) dev nb" "b_resid (bufs c1 bp) = b_resid (bufs (bst st) bp)" by auto
  have e: "b_flags (bufs c1 bp) AND B_ERROR = 0" "b_resid (bufs c1 bp) = 0" using s1(6,8) r by (auto simp: got_def Let_def bflag_bits)
  define st1 where "st1 = st\<lparr>bst := c1\<rparr>"
  have spare: "\<exists>c<N. c \<notin> {bp}" using N by (intro exI [of _ "if bp = 0 then 1 else 0"]) auto
  have nh: "not_held {bp} c1 dev x" if "x \<noteq> nb" for x using s1(6) that by (auto simp: not_held_def got_def Let_def)
  have ok1: "fs_ok d devs N n dev {bp} (b # l) st1"
  proof -
    have "freelist (view d c1 dev) (fs_nfree (sb st)) (fs_free (sb st)) (b # l)"
      by (rule freelist_frame [OF _ same_but_sees [OF s1(4)]]) (use o in auto)
    moreover have "cache_ok d devs N n {bp} c1" using ca s1(2) spare by (simp add: cache_ok_def)
    moreover have "\<forall>b. b_resid (bufs c1 b) = 0" using r s1(5) by (simp add: follows_def calm_def)
    moreover have "not_held {bp} c1 dev SUPERB" "\<forall>x\<in>set (b # l). not_held {bp} c1 dev x" using nh nb by metis+
    ultimately show ?thesis using o unfolding fs_ok_def fs_list_def Let_def st1_def by (auto simp: ubuf_def)
  qed
  from balloc_spec [OF ok1, of env fenv "flags OR B_CLRBUF"] obtain st2 nbp where s2: "balloc d env fenv n dev (flags OR B_CLRBUF) st1 = Ok (st2, Some nbp)" "nbp \<notin> {bp}"
    "binv d devs N (insert nbp {bp}) (bst st2)" "ready dev b nbp (bst st2)" "fs_list d devs dev (insert nbp {bp}) l st2" "keeps_held d {bp} c1 (bst st2)"
    "same_but d devs {(dev, SUPERB), (dev, b)} c1 (bst st2)" "uerror (bst st2) = uerror c1" "(flags OR B_CLRBUF) AND B_CLRBUF \<noteq> 0 \<longrightarrow> b_data (ubuf nbp st2) = replicate 256 0"
    "fs_isize (sb st2) = fs_isize (sb st)" "fs_fsize (sb st2) = fs_fsize (sb st)" by (auto simp: st1_def)
  have z: "b_data (bufs (bst st2) nbp) = replicate 256 0" using s2(9) by (simp add: ubuf_def bflag_bits bit_simps)
  obtain w where w: "writer d devs N w" "\<And>bp st. (if \<not> async \<and> (j < 3 \<or> flags AND B_SYNC \<noteq> 0) then with_cache (bwrite d env n bp) st else Ok (in_cache (bdwrite bp) st)) = with_cache (w bp) st"
    using writer_choice [OF p, of N "\<not> async \<and> (j < 3 \<or> flags AND B_SYNC \<noteq> 0)" env n] by blast
  have un: "upd_buf nbp (\<lambda>p. p) (bst st2) = bst st2" by (simp add: upd_buf_def)
  from write_use [OF w(1) s2(3,2,4), of "\<lambda>p. p", unfolded un z] obtain c3 where s3: "w nbp (bst st2) = Ok c3" "binv d devs N (insert bp {}) c3"
    "puts d devs dev b (replicate 256 0) (bst st2) c3" "keeps_held d {bp} (bst st2) c3" "calm (bst st2) c3" by auto
  have bp3: "bufs c3 bp = bufs c1 bp" using s2(6) s3(4) by (simp add: keeps_held_def)
  then have rd: "ready dev nb bp c3" using got_ready [OF s1(6)] by (simp add: ready_def)
  let ?g = "\<lambda>p. p\<lparr>b_data := (b_data p)[slot bn k := word_of_int b]\<rparr>"
  have s4: "binv d devs N {} (bdwrite bp (upd_buf bp ?g c3))" "puts d devs dev nb ((view d (bst st) dev nb)[slot bn k := word_of_int b]) c3 (bdwrite bp (upd_buf bp ?g c3))"
    "calm (upd_buf bp ?g c3) (bdwrite bp (upd_buf bp ?g c3))"
    using write_use [OF writer_bdwrite s3(2) _ rd, of ?g] bp3 s1(7) by auto
  define st' where "st' = st2\<lparr>bst := bdwrite bp (upd_buf bp ?g c3)\<rparr>"
  have "b_blkno (bufs (bst st2) nbp) = b" using s2(4) by (simp add: ready_def Let_def)
  then have "\<exists>ra'. bmap_step d env fenv n dev True flags async bn j (8 * k) nb ra st = Ok (Inr (st', b, ra'))"
    using s1(1,7) e c s2(1) s3(1) unfolding bmap_step_def Let_def w(2)
    by (auto simp: with_buf_def ubuf_def ptr_def slot_def in_cache_def st'_def st1_def with_cache_def)
  moreover have "same_but d devs {(dev, SUPERB), (dev, b), (dev, nb)} (bst st) (bdwrite bp (upd_buf bp ?g c3))"
    by (rule same_but_mono [OF same_but_trans [OF same_but_sees [OF s1(4)] same_but_trans [OF s2(7) same_but_trans [OF same_but_puts [OF s3(3)] same_but_puts [OF s4(2)]]]]]) auto
  then have "same_but d devs {(dev, SUPERB), (dev, b), (dev, nb)} (bst st) (bst st')" by (simp add: st'_def)
  moreover have bn: "b \<noteq> nb" "b \<noteq> SUPERB" "b \<notin> set l" using nb(1) o by auto
  moreover have "view d (bst st') dev b = replicate 256 0" "view d (bst st') dev nb = (view d (bst st) dev nb)[slot bn k := word_of_int b]"
    using s3(3) s4(2) ub u bn by (auto simp: puts_def st'_def)
  moreover have "uerror (bst st') = uerror (bst st)" using s1(5) s2(8) s3(5) s4(3) by (simp add: st'_def follows_def calm_def)
  moreover have "fs_ok d devs N n dev {} l st'"
  proof -
    note l2 = s2(5) [unfolded fs_list_def Let_def]
    have "freelist (view d (bdwrite bp (upd_buf bp ?g c3)) dev) (fs_nfree (sb st2)) (fs_free (sb st2)) l"
      by (rule freelist_frame [OF _ same_but_trans [OF same_but_puts [OF s3(3)] same_but_puts [OF s4(2)]]]) (use l2 nb bn in auto)
    then have "freelist (view d (bst st') dev) (fs_nfree (sb st2)) (fs_free (sb st2)) l" by (simp add: st'_def)
    moreover have "\<forall>b. b_resid (ubuf b st') = 0" using l2 s3(5) s4(3) by (auto simp: calm_def ubuf_def st'_def)
    ultimately show ?thesis using l2 cache_ok_step [OF ca s4(1)] unfolding fs_ok_def fs_list_def Let_def by (auto simp: st'_def)
  qed
  ultimately show ?thesis using s2(10,11) by (auto simp: st'_def)
qed

section \<open>The way down\<close>

text \<open>A subtree is replaced by one that extends it with blocks \<open>P\<close>.\<close>

lemma tree_replace:
  assumes nb: "nb \<noteq> 0" and t: "tree_ok (Suc k) V nb" and i: "i < 256" and v: "V2 nb = (V nb)[i := word_of_int c]" "- (2 ^ 31) \<le> c" "c < 2 ^ 31"
    and o: "\<And>j x. j < 256 \<Longrightarrow> j \<noteq> i \<Longrightarrow> x \<in> set (nodes k V (ptr V nb j)) \<Longrightarrow> V2 x = V x"
    and c: "tree_ok k V2 c" "set (nodes k V2 c) = set (nodes k V (ptr V nb i)) \<union> P" and P: "P \<inter> set (nodes (Suc k) V nb) = {}"
  shows "tree_ok (Suc k) V2 nb" "set (nodes (Suc k) V2 nb) = set (nodes (Suc k) V nb) \<union> P"
    "slot bn k = i \<Longrightarrow> through (Suc k) V2 bn nb = through k V2 bn c" "slot bn k \<noteq> i \<Longrightarrow> through (Suc k) V2 bn nb = through (Suc k) V bn nb"
proof -
  note t' = t [unfolded tree_ok_Suc [OF nb]] and nS = nodes_Suc [OF nb]
  have p: "ptr V2 nb i = c" "\<And>j. j \<noteq> i \<Longrightarrow> ptr V2 nb j = ptr V nb j" using i t' v by (simp_all add: ptr_def sint_of_int)
  have f: "nodes k V2 (ptr V nb j) = nodes k V (ptr V nb j) \<and> (\<forall>bn. through k V2 bn (ptr V nb j) = through k V bn (ptr V nb j)) \<and> shaped k V2 (ptr V nb j) = shaped k V (ptr V nb j)"
    if "j < 256" "j \<noteq> i" for j by (rule tree_frame) (use o that in blast)
  have n: "set (nodes k V2 (ptr V2 nb j)) = (if j = i then set (nodes k V (ptr V nb i)) \<union> P else set (nodes k V (ptr V nb j)))" if "j < 256" for j
    using f [OF that] p c(2) by auto
  have Pj: "P \<inter> set (nodes k V (ptr V nb j)) = {}" "nb \<notin> P" if "j < 256" for j using P that unfolding nS by blast+
  have "(\<Union>j<256. set (nodes k V2 (ptr V2 nb j))) = (\<Union>j<256. if j = i then set (nodes k V (ptr V nb i)) \<union> P else set (nodes k V (ptr V nb j)))" using n by simp
  also have "\<dots> = (\<Union>j<256. set (nodes k V (ptr V nb j))) \<union> P" using i by (auto split: if_splits)
  finally show "set (nodes (Suc k) V2 nb) = set (nodes (Suc k) V nb) \<union> P" unfolding nS by simp
  have "tree_ok k V2 (ptr V2 nb j)" if "j < 256" for j
    using f [OF that] p c(1) t' that by (cases "j = i") (auto simp: tree_ok_def)
  moreover have "nb \<notin> set (nodes k V2 (ptr V2 nb j))" if "j < 256" for j using n [OF that] t' i Pj(2) [OF that] that by (auto split: if_splits)
  moreover have "set (nodes k V2 (ptr V2 nb x)) \<inter> set (nodes k V2 (ptr V2 nb y)) = {}" if xy: "x < 256" "y < 256" "x \<noteq> y" for x y
  proof -
    have "set (nodes k V (ptr V nb x)) \<inter> set (nodes k V (ptr V nb y)) = {}" using t' xy by blast
    then show ?thesis using equalityD1 [OF n [OF xy(1)]] equalityD1 [OF n [OF xy(2)]] Pj(1) [OF xy(1)] Pj(1) [OF xy(2)] xy(3) by (cases "x = i"; cases "y = i"; simp; blast)
  qed
  ultimately show "tree_ok (Suc k) V2 nb" unfolding tree_ok_Suc [OF nb] using t' v(1) by auto
  show "slot bn k = i \<Longrightarrow> through (Suc k) V2 bn nb = through k V2 bn c" using nb p by (simp add: through.simps(2))
  show "slot bn k \<noteq> i \<Longrightarrow> through (Suc k) V2 bn nb = through (Suc k) V bn nb" using nb p(2) f [of "slot bn k"] slot_less by (simp add: through.simps(2))
qed

text \<open>What the walk through \<open>h\<close> levels from \<open>nb\<close> makes of the blocks.\<close>

definition grown :: "nat \<Rightarrow> (int \<Rightarrow> block) \<Rightarrow> (int \<Rightarrow> block) \<Rightarrow> int \<Rightarrow> int \<Rightarrow> int list \<Rightarrow> int \<Rightarrow> bool" where
  "grown h V V' bn nb p r \<longleftrightarrow> r \<noteq> 0 \<and> length p \<le> h \<and> tree_ok h V' nb \<and> set (nodes h V' nb) = set (nodes h V nb) \<union> set p \<and> through h V' bn nb = r
     \<and> (\<forall>bn'. (\<exists>m<h. slot bn' m \<noteq> slot bn m) \<longrightarrow> through h V' bn' nb = through h V bn' nb)
     \<and> (through h V bn nb \<noteq> 0 \<longrightarrow> p = [] \<and> r = through h V bn nb) \<and> (through h V bn nb = 0 \<longrightarrow> r \<in> set p)
     \<and> (\<forall>bn'. through h V bn' nb \<noteq> 0 \<longrightarrow> V' (through h V bn' nb) = V (through h V bn' nb)) \<and> (h \<noteq> 0 \<longrightarrow> through h V bn nb = 0 \<longrightarrow> V' r = replicate 256 0)"

text \<open>A round, and the walk from the place it leads to.\<close>

lemma grown_join:
  assumes nb: "nb \<noteq> 0" and t: "tree_ok (Suc k) V nb" and v1: "V1 nb = (V nb)[slot bn k := word_of_int c]" "0 < c" "c < 2 ^ 31"
    and a1: "\<And>x. x \<in> set (nodes (Suc k) V nb) \<Longrightarrow> x \<noteq> nb \<Longrightarrow> V1 x = V x"
    and c: "c = ptr V nb (slot bn k) \<and> p0 = [] \<or> ptr V nb (slot bn k) = 0 \<and> p0 = [c] \<and> V1 c = replicate 256 0"
    and g: "grown k V1 V2 bn c p r" and a2: "\<And>x. x \<in> set (nodes (Suc k) V nb) \<Longrightarrow> x \<notin> set (nodes k V1 c) \<union> set p \<Longrightarrow> V2 x = V1 x"
    and P: "set (p0 @ p) \<inter> set (nodes (Suc k) V nb) = {}"
  shows "grown (Suc k) V V2 bn nb (p0 @ p) r"
proof -
  let ?i = "slot bn k" and ?c = "ptr V nb (slot bn k)"
  have i: "?i < 256" by (rule slot_less)
  note t' = t [unfolded tree_ok_Suc [OF nb]] and nS = nodes_Suc [OF nb, of k V]
  have sub: "set (nodes k V (ptr V nb j)) \<subseteq> set (nodes (Suc k) V nb)" if "j < 256" for j using that unfolding nS by blast
  have fol: "nodes k V1 ?c = nodes k V ?c \<and> (\<forall>bn. through k V1 bn ?c = through k V bn ?c) \<and> shaped k V1 ?c = shaped k V ?c"
    by (rule tree_frame) (use a1 sub [OF i] t' i in blast)
  have c': "c = ?c \<and> p0 = [] \<or> ?c = 0 \<and> p0 = [c]" using c by blast
  have zero: "through k V1 bn' c = 0" if ne: "c \<noteq> ?c" and k0: "k \<noteq> 0" for bn'
  proof -
    from ne c have "V1 c = replicate 256 0" by blast
    moreover obtain k' where "k = Suc k'" using k0 by (cases k) auto
    ultimately show ?thesis using zero_block(2) v1(2) by simp
  qed
  have n1: "set (nodes k V1 c) = set (nodes k V ?c) \<union> set p0"
  proof (cases "c = ?c")
    case True
    then have "p0 = []" using c' v1(2) by auto
    then show ?thesis using fol True by simp
  next
    case False
    then have "V1 c = replicate 256 0" "p0 = [c]" "?c = 0" using c by blast+
    then show ?thesis using zero_block(1) [of V1 c k] v1(2) by simp
  qed
  have nbn: "nb \<notin> set (nodes k V1 c) \<union> set p" using n1 P t' i unfolding nS by auto
  have v2: "V2 nb = (V nb)[?i := word_of_int c]" using a2 [OF nodes_root [OF nb] nbn] v1(1) by simp
  have o: "V2 x = V x" if j: "j < 256" "j \<noteq> ?i" and x: "x \<in> set (nodes k V (ptr V nb j))" for j x
  proof -
    have xn: "x \<in> set (nodes (Suc k) V nb)" using sub j(1) x by blast
    moreover have "x \<notin> set (nodes k V ?c)" using t' i j x by blast
    ultimately have "x \<notin> set (nodes k V1 c) \<union> set p" using n1 P by auto
    moreover have "x \<noteq> nb" using t' j(1) x by blast
    ultimately show ?thesis using a1 a2 xn by auto
  qed
  note g' = g [unfolded grown_def]
  have g1: "through k V1 bn c \<noteq> 0 \<longrightarrow> p = [] \<and> r = through k V1 bn c" "through k V1 bn c = 0 \<longrightarrow> r \<in> set p" using g' by blast+
  have sub2: "set (nodes k V2 c) = set (nodes k V ?c) \<union> set (p0 @ p)" using g' n1 by auto
  note r = tree_replace [OF nb t i v2 _ v1(3) o _ sub2 P]
  have r': "tree_ok (Suc k) V2 nb" "set (nodes (Suc k) V2 nb) = set (nodes (Suc k) V nb) \<union> set (p0 @ p)"
    "\<And>bn'. slot bn' k = ?i \<Longrightarrow> through (Suc k) V2 bn' nb = through k V2 bn' c" "\<And>bn'. slot bn' k \<noteq> ?i \<Longrightarrow> through (Suc k) V2 bn' nb = through (Suc k) V bn' nb"
    using r v1(2) g' by auto
  have old: "through (Suc k) V bn' nb = through k V bn' ?c" if "slot bn' k = ?i" for bn' using nb that by (simp add: through.simps(2))
  have m1: "through (Suc k) V2 bn' nb = through (Suc k) V bn' nb" if m: "m < Suc k" "slot bn' m \<noteq> slot bn m" for bn' m
  proof (cases "slot bn' k = ?i")
    case True
    with m have mk: "m < k" by (cases "m = k") auto
    then have "through k V2 bn' c = through k V1 bn' c" using g' m(2) by blast
    moreover have "through k V1 bn' c = through k V bn' ?c" using c' fol zero [of bn'] mk v1(2) by (cases "c = ?c") auto
    ultimately show ?thesis using r'(3) [OF True] old [OF True] by simp
  qed (use r'(4) in blast)
  have m2: "through (Suc k) V bn nb \<noteq> 0 \<longrightarrow> p0 @ p = [] \<and> r = through (Suc k) V bn nb" using old [OF refl] c' fol g1 v1(2) by auto
  have m3: "through (Suc k) V bn nb = 0 \<longrightarrow> r \<in> set (p0 @ p)"
  proof (cases "c = ?c")
    case True
    then show ?thesis using old [OF refl] fol g1 by auto
  next
    case False
    then have "p0 = [c]" using c' by blast
    moreover have "r = c \<or> r \<in> set p" using zero [OF False, of bn] g1 v1(2) by (cases "k = 0") auto
    ultimately show ?thesis by auto
  qed
  have m4: "V2 (through (Suc k) V bn' nb) = V (through (Suc k) V bn' nb)" if nz: "through (Suc k) V bn' nb \<noteq> 0" for bn'
  proof (cases "slot bn' k = ?i")
    case True
    have "c = ?c" using nz c' unfolding old [OF True] by auto
    then have t1: "through k V1 bn' c = through (Suc k) V bn' nb" using fol old [OF True] by simp
    then have "V2 (through (Suc k) V bn' nb) = V1 (through (Suc k) V bn' nb)" using g' nz by metis
    moreover have x: "through (Suc k) V bn' nb \<in> set (nodes k V ?c)" using through_nodes [of k V bn' ?c] nz unfolding old [OF True] by blast
    have "nb \<notin> set (nodes k V ?c)" using t' i by blast
    with x have "V1 (through (Suc k) V bn' nb) = V (through (Suc k) V bn' nb)" by (intro a1 [OF subsetD [OF sub [OF i]]]) auto
    ultimately show ?thesis by simp
  next
    case False
    have "through (Suc k) V bn' nb = through k V bn' (ptr V nb (slot bn' k))" using nb by (simp add: through.simps(2))
    then show ?thesis using o [OF slot_less False] through_nodes [of k V bn' "ptr V nb (slot bn' k)"] nz by simp
  qed
  have m5: "V2 r = replicate 256 0" if z: "through (Suc k) V bn nb = 0"
  proof (cases "k = 0")
    case True
    then have "c \<noteq> ?c" using z old [OF refl] v1(2) by auto
    then have "V1 c = replicate 256 0" using c by blast
    moreover have "through k V1 bn c = c" "c \<noteq> 0" using True v1(2) by simp_all
    then have "V2 c = V1 c" "r = c" using g' by metis+
    ultimately show ?thesis by simp
  next
    case False
    have "through k V1 bn c = 0" using z old [OF refl] zero [OF _ False, of bn] fol by (cases "c = ?c") auto
    then show ?thesis using g' False by blast
  qed
  have "r \<noteq> 0" "through (Suc k) V2 bn nb = r" "length (p0 @ p) \<le> Suc k" using g' r'(3) [OF refl] c' by auto
  moreover have "\<forall>bn'. (\<exists>m<Suc k. slot bn' m \<noteq> slot bn m) \<longrightarrow> through (Suc k) V2 bn' nb = through (Suc k) V bn' nb" using m1 by blast
  ultimately show ?thesis unfolding grown_def using r'(1,2) m2 m3 m4 m5 by simp
qed

lemma fs_ok_rablock: "fs_ok d devs N n dev X l (st\<lparr>rablock := ra\<rparr>) = fs_ok d devs N n dev X l st"
  by (simp add: fs_ok_def fs_list_def ubuf_def)

lemma bmap_walk_spec:
  assumes N: "1 < N"
  shows "fs_ok d devs N n dev {} l st \<Longrightarrow> nb \<noteq> 0 \<Longrightarrow> tree_ok h (view d (bst st) dev) nb \<Longrightarrow> h \<le> length l \<Longrightarrow>
    \<forall>b\<in>set (nodes h (view d (bst st) dev) nb). fs_isize (sb st) \<le> b \<and> b < fs_fsize (sb st) \<and> b \<notin> set l \<Longrightarrow>
    \<exists>st' r p l'. bmap_walk d env fenv n dev True flags async bn h (8 * h) nb ra st = Ok (st', r) \<and> l = p @ l' \<and> fs_ok d devs N n dev {} l' st'
      \<and> uerror (bst st') = uerror (bst st) \<and> fs_isize (sb st') = fs_isize (sb st) \<and> fs_fsize (sb st') = fs_fsize (sb st)
      \<and> same_but d devs ({(dev, SUPERB)} \<union> Pair dev ` (set (nodes h (view d (bst st) dev) nb) \<union> set p)) (bst st) (bst st')
      \<and> grown h (view d (bst st) dev) (view d (bst st') dev) bn nb p r"
proof (induction h arbitrary: nb l ra st)
  case 0
  then show ?case by (auto simp: fs_ok_rablock same_but_def grown_def)
next
  case (Suc k)
  let ?V = "view d (bst st) dev" and ?i = "slot bn k"
  note ok = Suc.prems(1) and nb = Suc.prems(2) and tr = Suc.prems(3) and rng = Suc.prems(5)
  note o = ok [unfolded fs_ok_def fs_list_def Let_def]
  have i: "?i < 256" by (rule slot_less)
  have nbin: "nb \<in> set (nodes (Suc k) ?V nb)" by (rule nodes_root [OF nb])
  have use: "usable d devs dev b" if "fs_isize (sb st) \<le> b" "b < fs_fsize (sb st)" for b using o that by blast
  have pos: "0 < fs_isize (sb st)" using o by blast
  have unb: "usable d devs dev nb" "nb \<noteq> SUPERB" "nb \<notin> set l" using use rng nbin o by auto
  have kids: "set (nodes k ?V (ptr ?V nb j)) \<subseteq> set (nodes (Suc k) ?V nb)" if "j < 256" for j using that unfolding nodes_Suc [OF nb] by blast
  have "\<exists>st1 c ra1 p0 l1. bmap_step d env fenv n dev True flags async bn (3 - k) (8 * k) nb ra st = Ok (Inr (st1, c, ra1)) \<and> l = p0 @ l1
      \<and> fs_ok d devs N n dev {} l1 st1 \<and> uerror (bst st1) = uerror (bst st) \<and> fs_isize (sb st1) = fs_isize (sb st) \<and> fs_fsize (sb st1) = fs_fsize (sb st)
      \<and> view d (bst st1) dev nb = (?V nb)[?i := word_of_int c] \<and> same_but d devs ({(dev, SUPERB), (dev, nb)} \<union> Pair dev ` set p0) (bst st) (bst st1)
      \<and> (c = ptr ?V nb ?i \<and> c \<noteq> 0 \<and> p0 = [] \<or> ptr ?V nb ?i = 0 \<and> p0 = [c] \<and> view d (bst st1) dev c = replicate 256 0)"
  proof (cases "ptr ?V nb ?i = 0")
    case False
    from bmap_step_follow [OF ok unb(1) False, of env fenv True flags async "3 - k" ra] obtain st1 ra1 where
      f: "bmap_step d env fenv n dev True flags async bn (3 - k) (8 * k) nb ra st = Ok (Inr (st1, ptr ?V nb ?i, ra1))" "fs_ok d devs N n dev {} l st1"
      "sees d devs (bst st) (bst st1)" "uerror (bst st1) = uerror (bst st)" "sb st1 = sb st" by blast
    have "view d (bst st1) dev nb = (?V nb)[?i := word_of_int (ptr ?V nb ?i)]" using f(3) unb(1) by (simp add: sees_def ptr_def)
    moreover have "same_but d devs ({(dev, SUPERB), (dev, nb)} \<union> Pair dev ` set []) (bst st) (bst st1)" by (rule same_but_mono [OF same_but_sees [OF f(3)]]) simp
    ultimately show ?thesis using f False by (metis append_Nil)
  next
    case True
    from Suc.prems(4) obtain b l1 where l: "l = b # l1" by (cases l) auto
    have nbl: "nb \<notin> set (b # l1)" using unb(3) l by simp
    from bmap_step_extend [OF ok [unfolded l] N nbl unb(2,1) True, of env fenv flags async "3 - k" ra] obtain st1 ra1 where
      f: "bmap_step d env fenv n dev True flags async bn (3 - k) (8 * k) nb ra st = Ok (Inr (st1, b, ra1))" "fs_ok d devs N n dev {} l1 st1"
      "uerror (bst st1) = uerror (bst st)" "fs_isize (sb st1) = fs_isize (sb st)" "fs_fsize (sb st1) = fs_fsize (sb st)" "view d (bst st1) dev b = replicate 256 0"
      "view d (bst st1) dev nb = (?V nb)[?i := word_of_int b]" "same_but d devs {(dev, SUPERB), (dev, b), (dev, nb)} (bst st) (bst st1)" by blast
    have "same_but d devs ({(dev, SUPERB), (dev, nb)} \<union> Pair dev ` set [b]) (bst st) (bst st1)" by (rule same_but_mono [OF f(8)]) auto
    moreover have "l = [b] @ l1" using l by simp
    ultimately show ?thesis using f True by blast
  qed
  then obtain st1 c ra1 p0 l1 where s: "bmap_step d env fenv n dev True flags async bn (3 - k) (8 * k) nb ra st = Ok (Inr (st1, c, ra1))" "l = p0 @ l1"
      "fs_ok d devs N n dev {} l1 st1" "uerror (bst st1) = uerror (bst st)" "fs_isize (sb st1) = fs_isize (sb st)" "fs_fsize (sb st1) = fs_fsize (sb st)"
      "view d (bst st1) dev nb = (?V nb)[?i := word_of_int c]" "same_but d devs ({(dev, SUPERB), (dev, nb)} \<union> Pair dev ` set p0) (bst st) (bst st1)"
      "c = ptr ?V nb ?i \<and> c \<noteq> 0 \<and> p0 = [] \<or> ptr ?V nb ?i = 0 \<and> p0 = [c] \<and> view d (bst st1) dev c = replicate 256 0" by blast
  let ?V1 = "view d (bst st1) dev"
  have dis: "set l \<inter> set (nodes (Suc k) ?V nb) = {}" using rng by blast
  have a1: "?V1 x = ?V x" if "x \<in> set (nodes (Suc k) ?V nb)" "x \<noteq> nb" for x
  proof -
    have "usable d devs dev x" "(dev, x) \<notin> {(dev, SUPERB), (dev, nb)} \<union> Pair dev ` set p0" using use rng that s(2) pos by force+
    then show ?thesis using s(8) unfolding same_but_def by blast
  qed
  have crng: "fs_isize (sb st) \<le> c \<and> c < fs_fsize (sb st) \<and> c \<notin> set l1"
  proof (cases "p0 = []")
    case True
    then have "c = ptr ?V nb ?i" "c \<noteq> 0" using s(9) by auto
    then have "c \<in> set (nodes k ?V (ptr ?V nb ?i))" by (simp add: nodes_root)
    then show ?thesis using kids [OF i] rng s(2) by auto
  next
    case False
    then have "c \<in> set l" "c \<notin> set l1" using s(2,9) o by auto
    then show ?thesis using o by auto
  qed
  have "nodes k ?V1 (ptr ?V nb ?i) = nodes k ?V (ptr ?V nb ?i) \<and> (\<forall>bn. through k ?V1 bn (ptr ?V nb ?i) = through k ?V bn (ptr ?V nb ?i)) \<and> shaped k ?V1 (ptr ?V nb ?i) = shaped k ?V (ptr ?V nb ?i)"
    by (rule tree_frame) (use a1 kids [OF i] tr [unfolded tree_ok_Suc [OF nb]] i in blast)
  then have c1: "tree_ok k ?V1 c \<and> set (nodes k ?V1 c) \<subseteq> set (nodes k ?V (ptr ?V nb ?i)) \<union> set p0" "c \<noteq> 0"
    using s(9) zero_block [of ?V1 c k] crng o tr [unfolded tree_ok_Suc [OF nb]] i by (auto simp: tree_ok_def)
  have rng1: "\<forall>b\<in>set (nodes k ?V1 c). fs_isize (sb st1) \<le> b \<and> b < fs_fsize (sb st1) \<and> b \<notin> set l1"
    unfolding s(5,6) using c1(1) kids [OF i] rng crng s(2,9) by fastforce
  have kl: "k \<le> length l1" using Suc.prems(4) s(2,9) by auto
  from Suc.IH [OF s(3) c1(2) _ kl rng1, of ra1] c1(1) obtain st' r p l' where w: "bmap_walk d env fenv n dev True flags async bn k (8 * k) c ra1 st1 = Ok (st', r)" "l1 = p @ l'"
      "fs_ok d devs N n dev {} l' st'" "uerror (bst st') = uerror (bst st1)" "fs_isize (sb st') = fs_isize (sb st1)" "fs_fsize (sb st') = fs_fsize (sb st1)"
      "same_but d devs ({(dev, SUPERB)} \<union> Pair dev ` (set (nodes k ?V1 c) \<union> set p)) (bst st1) (bst st')" "grown k ?V1 (view d (bst st') dev) bn c p r" by blast
  have a2: "view d (bst st') dev x = ?V1 x" if "x \<in> set (nodes (Suc k) ?V nb)" "x \<notin> set (nodes k ?V1 c) \<union> set p" for x
  proof -
    have "usable d devs dev x" "(dev, x) \<notin> {(dev, SUPERB)} \<union> Pair dev ` (set (nodes k ?V1 c) \<union> set p)" using use rng that pos by force+
    then show ?thesis using w(7) unfolding same_but_def by blast
  qed
  have gr: "grown (Suc k) ?V (view d (bst st') dev) bn nb (p0 @ p) r"
    by (rule grown_join [OF nb tr s(7) _ _ a1 _ w(8) a2]) (use crng o s(2,9) w(2) dis in auto)
  have "bmap_walk d env fenv n dev True flags async bn (Suc k) (8 * Suc k) nb ra st = Ok (st', r)" using s(1) w(1) by simp
  moreover have "same_but d devs ({(dev, SUPERB)} \<union> Pair dev ` (set (nodes (Suc k) ?V nb) \<union> set (p0 @ p))) (bst st) (bst st')"
    by (rule same_but_mono [OF same_but_trans [OF s(8) w(7)]]) (use c1(1) kids [OF i] nbin in auto)
  moreover have "l = (p0 @ p) @ l'" using s(2) w(2) by simp
  ultimately show ?case using gr w(3-6) s(4-6) by metis
qed

end
