(* ===== verification/Ufs_File.thy ===== *)
theory Ufs_File
  imports Ufs_Bmap
begin

text \<open>
  The blocks of a whole file: four direct blocks and three trees.
\<close>

section \<open>Places in a file\<close>

definition place :: "int \<Rightarrow> (nat \<times> int) option" where
  "place bn = (if bn < 0 then None else if bn < 4 then Some (nat bn, 0) else map_option (\<lambda>(j, sh, q). (7 - j, q)) (bmap_level 3 0 (bn - 4)))"

definition file_map :: "(int \<Rightarrow> block) \<Rightarrow> int list \<Rightarrow> int \<Rightarrow> int" where
  "file_map V ad bn = (case place bn of None \<Rightarrow> 0 | Some (i, q) \<Rightarrow> through (i - 3) V q (ad ! i))"

lemma bmap_level_eq:
  "bmap_level 3 0 x = (if x < 256 then Some (3, 8, x) else if x < 256 + 65536 then Some (2, 16, x - 256)
     else if x < 256 + 65536 + 16777216 then Some (1, 24, x - (256 + 65536)) else None)"
  by (simp add: numeral_3_eq_3 Let_def)

lemma place_eq:
  "place bn = (if bn < 0 then None else if bn < 4 then Some (nat bn, 0) else if bn < 260 then Some (4, bn - 4)
     else if bn < 65796 then Some (5, bn - 260) else if bn < 16843012 then Some (6, bn - 65796) else None)"
  by (auto simp: place_def bmap_level_eq)

lemma place_range: "place bn = Some (i, q) \<Longrightarrow> i < 7 \<and> 0 \<le> q \<and> q < 2 ^ (8 * (i - 3))"
  by (auto simp: place_eq split: if_splits)

lemma place_inj: "place bn = Some (i, q) \<Longrightarrow> place bn' = Some (i, q) \<Longrightarrow> bn = bn'"
  by (auto simp: place_eq split: if_splits)

lemma digits_differ:
  "0 \<le> a \<Longrightarrow> a < 2 ^ (8 * h) \<Longrightarrow> 0 \<le> b \<Longrightarrow> b < 2 ^ (8 * h) \<Longrightarrow> a \<noteq> b \<Longrightarrow> \<exists>m<h. slot a m \<noteq> slot b m"
proof (induction h arbitrary: a b)
  case (Suc h)
  show ?case
  proof (cases "a mod 256 = b mod 256")
    case False
    then have "slot a 0 \<noteq> slot b 0" by (simp add: slot_def nat_eq_iff)
    then show ?thesis by blast
  next
    case True
    have s: "slot (x div 256) m = slot x (Suc m)" for x m
      by (simp add: slot_def power_add zdiv_zmult2_eq [symmetric] mult.commute)
    have "a div 256 \<noteq> b div 256" using True Suc.prems(5) by (metis mult_div_mod_eq)
    moreover have "x div 256 < 2 ^ (8 * h)" if "x < 2 ^ (8 * Suc h)" for x :: int
    proof -
      have "x < 256 * 2 ^ (8 * h)" using that by (simp add: power_add)
      then show ?thesis by (simp add: div_less_iff_less_mult mult.commute)
    qed
    ultimately obtain m where "m < h" "slot (a div 256) m \<noteq> slot (b div 256) m"
      using Suc.IH [of "a div 256" "b div 256"] Suc.prems by (auto simp: pos_imp_zdiv_nonneg_iff)
    then show ?thesis using s by auto
  qed
qed simp

section \<open>The blocks of a file\<close>

definition file_blocks :: "(int \<Rightarrow> block) \<Rightarrow> int list \<Rightarrow> int list" where
  "file_blocks V ad = concat (map (\<lambda>i. nodes (i - 3) V (ad ! i)) [0..<7])"

definition file_ok :: "(int \<Rightarrow> block) \<Rightarrow> int list \<Rightarrow> bool" where
  "file_ok V ad \<longleftrightarrow> length ad = 7 \<and> distinct (file_blocks V ad) \<and> (\<forall>i<7. shaped (i - 3) V (ad ! i))"

lemma file_ok_iff:
  "file_ok V ad \<longleftrightarrow> length ad = 7 \<and> (\<forall>i<7. tree_ok (i - 3) V (ad ! i))
     \<and> (\<forall>i<7. \<forall>j<7. i \<noteq> j \<longrightarrow> set (nodes (i - 3) V (ad ! i)) \<inter> set (nodes (j - 3) V (ad ! j)) = {})"
  unfolding file_ok_def file_blocks_def distinct_concat_upt tree_ok_def by blast

lemma file_blocks_set: "set (file_blocks V ad) = (\<Union>i<7. set (nodes (i - 3) V (ad ! i)))"
  by (auto simp: file_blocks_def)

text \<open>One of the trees, found empty or not, has been extended with the blocks \<open>p\<close>; \<open>z\<close> tells whether a new block of data is cleared.\<close>

definition rooted :: "bool \<Rightarrow> nat \<Rightarrow> (int \<Rightarrow> block) \<Rightarrow> (int \<Rightarrow> block) \<Rightarrow> int \<Rightarrow> int \<Rightarrow> int \<Rightarrow> int list \<Rightarrow> int \<Rightarrow> bool" where
  "rooted z h V V' q c c' p r \<longleftrightarrow> r \<noteq> 0 \<and> length p \<le> Suc h \<and> tree_ok h V' c' \<and> set (nodes h V' c') = set (nodes h V c) \<union> set p \<and> through h V' q c' = r
     \<and> (\<forall>q'. (\<exists>m<h. slot q' m \<noteq> slot q m) \<longrightarrow> through h V' q' c' = through h V q' c)
     \<and> (through h V q c \<noteq> 0 \<longrightarrow> p = [] \<and> r = through h V q c) \<and> (through h V q c = 0 \<longrightarrow> r \<in> set p)
     \<and> (\<forall>q'. through h V q' c \<noteq> 0 \<longrightarrow> V' (through h V q' c) = V (through h V q' c)) \<and> (z \<longrightarrow> through h V q c = 0 \<longrightarrow> V' r = replicate 256 0)"

lemma grown_rooted: "grown h V V' q c p r \<Longrightarrow> h \<noteq> 0 \<Longrightarrow> rooted z h V V' q c c p r"
  by (simp add: grown_def rooted_def)

lemma grown_new:
  assumes g: "grown h V1 V' q b p r" and z: "V1 b = replicate 256 0" "b \<noteq> 0" "h \<noteq> 0"
  shows "rooted z h V V' q 0 b (b # p) r"
proof -
  obtain k where k: "h = Suc k" using z(3) by (cases h) auto
  have t: "through h V1 q' b = 0" "nodes h V1 b = [b]" for q' unfolding k using zero_block [of V1 b] z(1,2) by auto
  note g' = g [unfolded grown_def t]
  show ?thesis unfolding rooted_def using g' z(3) by auto
qed

lemma file_update:
  assumes ok: "file_ok V ad" and i: "i < 7" and r: "rooted z (i - 3) V V' q (ad ! i) c p x"
    and o: "\<And>j x. j < 7 \<Longrightarrow> j \<noteq> i \<Longrightarrow> x \<in> set (nodes (j - 3) V (ad ! j)) \<Longrightarrow> V' x = V x" and P: "set p \<inter> set (file_blocks V ad) = {}"
  shows "file_ok V' (ad[i := c])" "set (file_blocks V' (ad[i := c])) = set (file_blocks V ad) \<union> set p"
    "j < 7 \<Longrightarrow> j \<noteq> i \<Longrightarrow> through (j - 3) V' q' (ad[i := c] ! j) = through (j - 3) V q' (ad ! j)"
proof -
  note ok' = ok [unfolded file_ok_iff] and r' = r [unfolded rooted_def]
  have f: "nodes (j - 3) V' (ad ! j) = nodes (j - 3) V (ad ! j) \<and> (\<forall>bn. through (j - 3) V' bn (ad ! j) = through (j - 3) V bn (ad ! j)) \<and> shaped (j - 3) V' (ad ! j) = shaped (j - 3) V (ad ! j)"
    if "j < 7" "j \<noteq> i" for j by (rule tree_frame) (use o that in blast)
  have a: "ad[i := c] ! i = c" "\<And>j. j \<noteq> i \<Longrightarrow> ad[i := c] ! j = ad ! j" using ok' i by auto
  have n: "set (nodes (j - 3) V' (ad[i := c] ! j)) = (if j = i then set (nodes (i - 3) V (ad ! i)) \<union> set p else set (nodes (j - 3) V (ad ! j)))" if "j < 7" for j
    using f [OF that] a r' by auto
  have Pj: "set p \<inter> set (nodes (j - 3) V (ad ! j)) = {}" if "j < 7" for j using P that unfolding file_blocks_set by blast
  show "j < 7 \<Longrightarrow> j \<noteq> i \<Longrightarrow> through (j - 3) V' q' (ad[i := c] ! j) = through (j - 3) V q' (ad ! j)" using f a by simp
  have "(\<Union>j<7. set (nodes (j - 3) V' (ad[i := c] ! j))) = (\<Union>j<7. if j = i then set (nodes (i - 3) V (ad ! i)) \<union> set p else set (nodes (j - 3) V (ad ! j)))" using n by simp
  also have "\<dots> = (\<Union>j<7. set (nodes (j - 3) V (ad ! j))) \<union> set p" using i by (auto split: if_splits)
  finally show "set (file_blocks V' (ad[i := c])) = set (file_blocks V ad) \<union> set p" unfolding file_blocks_set .
  have "tree_ok (j - 3) V' (ad[i := c] ! j)" if "j < 7" for j
    using f [OF that] a r' ok' that by (cases "j = i") (auto simp: tree_ok_def)
  moreover have "set (nodes (x - 3) V' (ad[i := c] ! x)) \<inter> set (nodes (y - 3) V' (ad[i := c] ! y)) = {}" if xy: "x < 7" "y < 7" "x \<noteq> y" for x y
  proof -
    have "set (nodes (x - 3) V (ad ! x)) \<inter> set (nodes (y - 3) V (ad ! y)) = {}" using ok' xy by blast
    then show ?thesis using equalityD1 [OF n [OF xy(1)]] equalityD1 [OF n [OF xy(2)]] Pj [OF xy(1)] Pj [OF xy(2)] xy(3) by (cases "x = i"; cases "y = i"; simp; blast)
  qed
  ultimately show "file_ok V' (ad[i := c])" unfolding file_ok_iff using ok' by auto
qed

section \<open>Allocation of a first block\<close>

lemma balloc_put:
  assumes ok: "fs_ok d devs N n dev {} (b # l) st" and w: "writer d devs N w"
  shows "\<exists>st' bp c. balloc d env fenv n dev flags st = Ok (st', Some bp) \<and> b_blkno (ubuf bp st') = b \<and> w bp (bst st') = Ok c \<and> fs_ok d devs N n dev {} l (st'\<lparr>bst := c\<rparr>)
     \<and> (flags AND B_CLRBUF \<noteq> 0 \<longrightarrow> view d c dev b = replicate 256 0) \<and> same_but d devs {(dev, SUPERB), (dev, b)} (bst st) c
     \<and> fs_isize (sb st') = fs_isize (sb st) \<and> fs_fsize (sb st') = fs_fsize (sb st) \<and> uerror c = uerror (bst st)"
proof -
  from balloc_spec [OF ok, of env fenv flags] obtain st' bp where a: "balloc d env fenv n dev flags st = Ok (st', Some bp)" "binv d devs N (insert bp {}) (bst st')" "ready dev b bp (bst st')"
    "fs_list d devs dev (insert bp {}) l st'" "same_but d devs {(dev, SUPERB), (dev, b)} (bst st) (bst st')" "uerror (bst st') = uerror (bst st)"
    "flags AND B_CLRBUF \<noteq> 0 \<longrightarrow> b_data (ubuf bp st') = replicate 256 0" "fs_isize (sb st') = fs_isize (sb st)" "fs_fsize (sb st') = fs_fsize (sb st)" by blast
  have un: "upd_buf bp (\<lambda>p. p) (bst st') = bst st'" by (simp add: upd_buf_def)
  from write_use [OF w a(2) _ a(3), of "\<lambda>p. p", unfolded un] obtain c where c: "w bp (bst st') = Ok c" "binv d devs N {} c"
    "puts d devs dev b (b_data (bufs (bst st') bp)) (bst st') c" "calm (bst st') c" by auto
  note l' = a(4) [unfolded fs_list_def Let_def] and o = ok [unfolded fs_ok_def fs_list_def Let_def]
  have u: "usable d devs dev b" and bl: "b \<notin> set l" "b \<noteq> SUPERB" using o by auto
  have fl: "freelist (view d c dev) (fs_nfree (sb st')) (fs_free (sb st')) l"
    by (rule freelist_frame [OF _ same_but_puts [OF c(3)]]) (use l' bl in auto)
  have "fs_list d devs dev {} l (st'\<lparr>bst := c\<rparr>)" unfolding fs_list_def Let_def using l' fl c(4) by (auto simp: calm_def ubuf_def)
  moreover have "cache_ok d devs N n {} c" using cache_ok_step [OF _ c(2)] o by blast
  moreover have "same_but d devs {(dev, SUPERB), (dev, b)} (bst st) c" by (rule same_but_mono [OF same_but_trans [OF a(5) same_but_puts [OF c(3)]]]) auto
  moreover have "flags AND B_CLRBUF \<noteq> 0 \<longrightarrow> view d c dev b = replicate 256 0" using c(3) u a(7) by (simp add: puts_def ubuf_def)
  ultimately show ?thesis using a c(1,4) by (auto simp: fs_ok_def calm_def ready_def Let_def ubuf_def)
qed

lemma clrbuf: "(flags OR B_CLRBUF) AND B_CLRBUF \<noteq> 0" for flags :: "32 word"
  by (simp add: bflag_bits bit_simps)

section \<open>The whole of \<open>bmap\<close>\<close>

definition mapped :: "bool \<Rightarrow> sdisk \<Rightarrow> int set \<Rightarrow> nat \<Rightarrow> nat \<Rightarrow> int \<Rightarrow> int list \<Rightarrow> ufs \<Rightarrow> inode \<Rightarrow> nat \<Rightarrow> int \<Rightarrow> (ufs \<times> inode \<times> int) cres \<Rightarrow> bool" where
  "mapped z d devs N n dev l st ip i q res \<longleftrightarrow> (\<exists>st' ip' r p l' c. res = Ok (st', ip', r) \<and> l = p @ l' \<and> fs_ok d devs N n dev {} l' st' \<and> uerror (bst st') = uerror (bst st)
     \<and> fs_isize (sb st') = fs_isize (sb st) \<and> fs_fsize (sb st') = fs_fsize (sb st) \<and> (\<exists>w\<in>{0, IUPD OR ICHG}. ip' = ip\<lparr>i_addr := (i_addr ip)[i := c], i_flag := i_flag ip OR w\<rparr>)
     \<and> rooted z (i - 3) (view d (bst st) dev) (view d (bst st') dev) q (i_addr ip ! i) c p r
     \<and> same_but d devs ({(dev, SUPERB)} \<union> Pair dev ` (set (nodes (i - 3) (view d (bst st) dev) (i_addr ip ! i)) \<union> set p)) (bst st) (bst st'))"

lemma bmap_direct:
  assumes ok: "fs_ok d devs N n dev {} l st" and ip: "i_dev ip = dev" "length (i_addr ip) = 7" and bn: "0 \<le> bn" "bn < 4" and l: "l \<noteq> []"
  shows "mapped (flags AND B_CLRBUF \<noteq> 0) d devs N n dev l st ip (nat bn) 0 (bmap d env fenv n ip bn True flags st)"
proof -
  let ?i = "nat bn"
  have i: "?i < 4" "?i - 3 = 0" using bn by auto
  have p: "parts_ok d devs" using ok by (simp add: fs_ok_def cache_ok_def)
  define st0 where "st0 = st\<lparr>rablock := 0\<rparr>"
  have ok0: "fs_ok d devs N n dev {} l st0" using ok by (simp add: st0_def fs_ok_rablock)
  have s0: "bst st0 = bst st" "sb st0 = sb st" by (simp_all add: st0_def)
  have rab: "fs_ok d devs N n dev {} l' (if x then s\<lparr>rablock := y\<rparr> else s) = fs_ok d devs N n dev {} l' s" "bst (if x then s\<lparr>rablock := y\<rparr> else s) = bst s"
    "sb (if x then s\<lparr>rablock := y\<rparr> else s) = sb s" for x y s l' by (simp_all add: fs_ok_rablock)
  show ?thesis
  proof (cases "i_addr ip ! ?i = 0")
    case False
    then have "\<exists>y. bmap d env fenv n ip bn True flags st = Ok ((if ?i < 3 then st0\<lparr>rablock := y\<rparr> else st0), ip, i_addr ip ! ?i)"
      using bn by (auto simp: bmap_def Let_def st0_def)
    then show ?thesis unfolding mapped_def using ok0 False
      by (auto simp: rab s0 rooted_def i same_but_def tree_ok_def intro!: exI [of _ "[] :: int list"] exI [of _ "i_addr ip ! nat bn"])
  next
    case True
    obtain b l' where lb: "l = b # l'" using l by (cases l) auto
    obtain w where w: "writer d devs N w" "\<And>bp st. (if flags AND B_SYNC \<noteq> 0 then with_cache (bwrite d env n bp) st else Ok (in_cache (bdwrite bp) st)) = with_cache (w bp) st"
      using writer_choice [OF p, of N "flags AND B_SYNC \<noteq> 0" env n] by blast
    from balloc_put [OF ok0 [unfolded lb] w(1), of env fenv flags] obtain st' bp c where a: "balloc d env fenv n dev flags st0 = Ok (st', Some bp)" "b_blkno (ubuf bp st') = b" "w bp (bst st') = Ok c"
      "fs_ok d devs N n dev {} l' (st'\<lparr>bst := c\<rparr>)" "same_but d devs {(dev, SUPERB), (dev, b)} (bst st) c" "fs_isize (sb st') = fs_isize (sb st)" "fs_fsize (sb st') = fs_fsize (sb st)" "uerror c = uerror (bst st)"
      "flags AND B_CLRBUF \<noteq> 0 \<longrightarrow> view d c dev b = replicate 256 0" unfolding s0 by blast
    have "b \<noteq> 0" using ok lb by (auto simp: fs_ok_def fs_list_def Let_def)
    then have ro: "rooted (flags AND B_CLRBUF \<noteq> 0) (?i - 3) (view d (bst st) dev) (view d c dev) 0 (i_addr ip ! ?i) b [b] b" using True a(9) by (simp add: rooted_def i tree_ok_def)
    define st2 where "st2 = (if ?i < 3 then (st'\<lparr>bst := c\<rparr>)\<lparr>rablock := i_addr (set_addr ?i b ip) ! (?i + 1)\<rparr> else st'\<lparr>bst := c\<rparr>)"
    have "bmap d env fenv n ip bn True flags st = Ok (st2, set_addr ?i b ip, b)"
      using bn True a(1-3) ip(1) unfolding bmap_def Let_def w(2) by (simp add: st0_def with_cache_def st2_def)
    moreover have "fs_ok d devs N n dev {} l' st2" "bst st2 = c" "sb st2 = sb st'" using a(4) by (simp_all add: st2_def rab)
    moreover have "\<exists>w\<in>{0, IUPD OR ICHG}. set_addr ?i b ip = ip\<lparr>i_addr := (i_addr ip)[?i := b], i_flag := i_flag ip OR w\<rparr>" by (simp add: set_addr_def)
    moreover have "same_but d devs ({(dev, SUPERB)} \<union> Pair dev ` (set (nodes (?i - 3) (view d (bst st) dev) (i_addr ip ! ?i)) \<union> set [b])) (bst st) c"
      by (rule same_but_mono [OF a(5)]) auto
    moreover have "l = [b] @ l'" using lb by simp
    ultimately show ?thesis unfolding mapped_def using a(6-8) ro by metis
  qed
qed

lemma bmap_indirect:
  assumes N: "1 < N" and ok: "fs_ok d devs N n dev {} l st" and ip: "i_dev ip = dev" "length (i_addr ip) = 7" and i: "4 \<le> i" "i < 7" and bn: "4 \<le> bn"
    and lev: "bmap_level 3 0 (bn - 4) = Some (7 - i, 8 * (i - 3), q)" and tr: "tree_ok (i - 3) (view d (bst st) dev) (i_addr ip ! i)" and l: "4 \<le> length l"
    and rng: "\<forall>b\<in>set (nodes (i - 3) (view d (bst st) dev) (i_addr ip ! i)). fs_isize (sb st) \<le> b \<and> b < fs_fsize (sb st) \<and> b \<notin> set l"
  shows "mapped (flags AND B_CLRBUF \<noteq> 0) d devs N n dev l st ip i q (bmap d env fenv n ip bn True flags st)"
proof -
  let ?h = "i - 3" and ?async = "fs_flags (sb st) AND MNT_ASYNC \<noteq> 0"
  have h: "7 - (7 - i) = i" "4 - (7 - i) = ?h" "?h \<le> 3" "?h \<noteq> 0" using i by auto
  have p: "parts_ok d devs" using ok by (simp add: fs_ok_def cache_ok_def)
  define st0 where "st0 = st\<lparr>rablock := 0\<rparr>"
  have ok0: "fs_ok d devs N n dev {} l st0" using ok by (simp add: st0_def fs_ok_rablock)
  have s0: "bst st0 = bst st" "sb st0 = sb st" by (simp_all add: st0_def)
  show ?thesis
  proof (cases "i_addr ip ! i = 0")
    case False
    have hl: "?h \<le> length l" using l h by linarith
    from bmap_walk_spec [OF N ok0 False _ hl, unfolded s0, OF tr rng, of env fenv flags ?async q 0] obtain st' r p l' where
      w: "bmap_walk d env fenv n dev True flags ?async q ?h (8 * ?h) (i_addr ip ! i) 0 st0 = Ok (st', r)" "l = p @ l'" "fs_ok d devs N n dev {} l' st'"
      "uerror (bst st') = uerror (bst st)" "fs_isize (sb st') = fs_isize (sb st)" "fs_fsize (sb st') = fs_fsize (sb st)"
      "same_but d devs ({(dev, SUPERB)} \<union> Pair dev ` (set (nodes ?h (view d (bst st) dev) (i_addr ip ! i)) \<union> set p)) (bst st) (bst st')"
      "grown ?h (view d (bst st) dev) (view d (bst st') dev) q (i_addr ip ! i) p r" by blast
    have "bmap d env fenv n ip bn True flags st = Ok (st', ip, r)"
      using bn lev False w(1) ip(1) by (simp add: bmap_def Let_def h st0_def)
    moreover have "\<exists>w\<in>{0, IUPD OR ICHG}. ip = ip\<lparr>i_addr := (i_addr ip)[i := i_addr ip ! i], i_flag := i_flag ip OR w\<rparr>" by simp
    ultimately show ?thesis unfolding mapped_def using w(2-7) grown_rooted [OF w(8) h(4)] by blast
  next
    case True
    obtain b l' where lb: "l = b # l'" using l by (cases l) auto
    obtain w where w: "writer d devs N w" "\<And>bp st. (if ?async then Ok (in_cache (bdwrite bp) st) else with_cache (bwrite d env n bp) st) = with_cache (w bp) st"
      using writer_choice [OF p, of N "\<not> ?async" env n] by (metis (full_types))
    from balloc_put [OF ok0 [unfolded lb] w(1), of env fenv "flags OR B_CLRBUF"] clrbuf obtain st1 bp c where a: "balloc d env fenv n dev (flags OR B_CLRBUF) st0 = Ok (st1, Some bp)" "b_blkno (ubuf bp st1) = b" "w bp (bst st1) = Ok c"
      "fs_ok d devs N n dev {} l' (st1\<lparr>bst := c\<rparr>)" "view d c dev b = replicate 256 0" "same_but d devs {(dev, SUPERB), (dev, b)} (bst st) c" "fs_isize (sb st1) = fs_isize (sb st)" "fs_fsize (sb st1) = fs_fsize (sb st)" "uerror c = uerror (bst st)"
      unfolding s0 by blast
    have b: "b \<noteq> 0" "b \<notin> set l'" "fs_isize (sb st) \<le> b" "b < fs_fsize (sb st)" using ok lb by (auto simp: fs_ok_def fs_list_def Let_def)
    note zb = zero_block [of "view d c dev" b, OF a(5) b(1)]
    have tr1: "tree_ok ?h (view d (bst (st1\<lparr>bst := c\<rparr>)) dev) b" using zb by (simp add: tree_ok_def)
    have rng1: "\<forall>x\<in>set (nodes ?h (view d (bst (st1\<lparr>bst := c\<rparr>)) dev) b). fs_isize (sb (st1\<lparr>bst := c\<rparr>)) \<le> x \<and> x < fs_fsize (sb (st1\<lparr>bst := c\<rparr>)) \<and> x \<notin> set l'"
      using zb b a(7,8) by simp
    have hl: "?h \<le> length l'" using l lb h by simp
    have eq: "bst (st1\<lparr>bst := c\<rparr>) = c" "sb (st1\<lparr>bst := c\<rparr>) = sb st1" by simp_all
    from bmap_walk_spec [OF N a(4) b(1) tr1 hl rng1, of env fenv flags ?async q 0, unfolded eq zb(1)] obtain st' r p l'' where
      k: "bmap_walk d env fenv n dev True flags ?async q ?h (8 * ?h) b 0 (st1\<lparr>bst := c\<rparr>) = Ok (st', r)" "l' = p @ l''" "fs_ok d devs N n dev {} l'' st'"
      "uerror (bst st') = uerror c" "fs_isize (sb st') = fs_isize (sb st1)" "fs_fsize (sb st') = fs_fsize (sb st1)"
      "same_but d devs ({(dev, SUPERB)} \<union> Pair dev ` (set [b] \<union> set p)) c (bst st')" "grown ?h (view d c dev) (view d (bst st') dev) q b p r" by blast
    have "bmap d env fenv n ip bn True flags st = Ok (st', set_addr i b ip, r)"
      using bn lev True a(1-3) k(1) ip(1) unfolding bmap_def Let_def w(2) by (simp add: h st0_def with_cache_def set_addr_def)
    moreover have "rooted (flags AND B_CLRBUF \<noteq> 0) ?h (view d (bst st) dev) (view d (bst st') dev) q (i_addr ip ! i) b (b # p) r" unfolding True by (rule grown_new [OF k(8) a(5) b(1) h(4)])
    moreover have "\<exists>w\<in>{0, IUPD OR ICHG}. set_addr i b ip = ip\<lparr>i_addr := (i_addr ip)[i := b], i_flag := i_flag ip OR w\<rparr>" by (simp add: set_addr_def)
    moreover have "same_but d devs ({(dev, SUPERB)} \<union> Pair dev ` (set (nodes ?h (view d (bst st) dev) (i_addr ip ! i)) \<union> set (b # p))) (bst st) (bst st')"
      by (rule same_but_mono [OF same_but_trans [OF a(6) k(7)]]) auto
    moreover have "l = (b # p) @ l''" using lb k(2) by simp
    ultimately show ?thesis unfolding mapped_def using k(3-6) a(7-9) by metis
  qed
qed

section \<open>Reading the map\<close>

lemma bmap_step_stop:
  assumes ok: "fs_ok d devs N n dev {} l st" and u: "usable d devs dev nb" and c: "ptr (view d (bst st) dev) nb (slot bn k) = 0"
  shows "\<exists>st'. bmap_step d env fenv n dev False flags async bn j (8 * k) nb ra st = Ok (Inl (st', - 1))
     \<and> fs_ok d devs N n dev {} l st' \<and> sees d devs (bst st) (bst st') \<and> uerror (bst st') = uerror (bst st) \<and> sb st' = sb st \<and> rablock st' = rablock st"
proof -
  have ca: "cache_ok d devs N n {} (bst st)" and r: "\<And>b. b_resid (bufs (bst st) b) = 0" using ok by (auto simp: fs_ok_def fs_list_def Let_def ubuf_def)
  from read_use [OF ca u, of env] obtain c1 b where s1: "bread d env n dev nb (bst st) = Ok (c1, b)" "binv d devs N (insert b {}) c1" "b \<notin> {}"
    "sees d devs (bst st) c1" "follows d devs {} (bst st) c1" "got d dev nb b c1" "b_data (bufs c1 b) = view d (bst st) dev nb" "b_resid (bufs c1 b) = b_resid (bufs (bst st) b)" by auto
  note s2 = release_use [OF s1(2,3,6)]
  have e: "b_flags (bufs c1 b) AND B_ERROR = 0" "b_resid (bufs c1 b) = 0" using s1(6,8) r by (auto simp: got_def Let_def bflag_bits)
  define st' where "st' = st\<lparr>bst := brelse b c1\<rparr>"
  have "bmap_step d env fenv n dev False flags async bn j (8 * k) nb ra st = Ok (Inl (st', - 1))"
    using s1(1,7) e c by (simp add: bmap_step_def with_buf_def ubuf_def ptr_def slot_def Let_def in_cache_def st'_def)
  moreover have se: "sees d devs (bst st) (bst st')" using sees_trans [OF s1(4) s2(2)] by (simp add: st'_def)
  moreover have fo: "follows d devs {} (bst st) (bst st')" using follows_trans [OF s1(5) s2(3)] by (simp add: st'_def)
  moreover have "fs_ok d devs N n dev {} l st'"
  proof -
    have "freelist (view d (bst st') dev) (fs_nfree (sb st)) (fs_free (sb st)) l"
      by (rule freelist_frame [OF _ same_but_sees [OF se]]) (use ok in \<open>auto simp: fs_ok_def fs_list_def Let_def\<close>)
    then show ?thesis using ok cache_ok_step [OF ca s2(1)] fo by (auto simp: fs_ok_def fs_list_def Let_def st'_def follows_def calm_def ubuf_def)
  qed
  ultimately show ?thesis by (auto simp: follows_def calm_def st'_def)
qed

lemma bmap_walk_read:
  "fs_ok d devs N n dev {} l st \<Longrightarrow> nb \<noteq> 0 \<Longrightarrow> tree_ok h (view d (bst st) dev) nb \<Longrightarrow> \<forall>b\<in>set (nodes h (view d (bst st) dev) nb). usable d devs dev b \<Longrightarrow>
    ra = 0 \<or> usable d devs dev ra \<Longrightarrow> rablock st = 0 \<Longrightarrow>
    \<exists>st'. bmap_walk d env fenv n dev False flags async bn h (8 * h) nb ra st
        = Ok (st', (if through h (view d (bst st) dev) bn nb = 0 then - 1 else through h (view d (bst st) dev) bn nb))
      \<and> fs_ok d devs N n dev {} l st' \<and> sees d devs (bst st) (bst st') \<and> uerror (bst st') = uerror (bst st) \<and> sb st' = sb st
      \<and> (rablock st' = 0 \<or> usable d devs dev (rablock st'))"
proof (induction h arbitrary: nb ra st)
  case 0
  then show ?case by (auto simp: fs_ok_rablock sees_def)
next
  case (Suc k)
  let ?V = "view d (bst st) dev" and ?i = "slot bn k"
  note ok = Suc.prems(1) and nb = Suc.prems(2) and tr = Suc.prems(3) [unfolded tree_ok_Suc [OF Suc.prems(2)]]
  have i: "?i < 256" by (rule slot_less)
  have unb: "usable d devs dev nb" using Suc.prems(4) nodes_root [OF nb] by blast
  have th: "through (Suc k) ?V bn nb = through k ?V bn (ptr ?V nb ?i)" using nb by (simp add: through.simps(2))
  show ?case
  proof (cases "ptr ?V nb ?i = 0")
    case True
    from bmap_step_stop [OF ok unb True, of env fenv flags async "3 - k" ra] show ?thesis using th True Suc.prems(6) by auto
  next
    case False
    from bmap_step_follow [OF ok unb False, of env fenv False flags async "3 - k" ra] obtain st1 ra1 where
      f: "bmap_step d env fenv n dev False flags async bn (3 - k) (8 * k) nb ra st = Ok (Inr (st1, ptr ?V nb ?i, ra1))" "fs_ok d devs N n dev {} l st1"
      "sees d devs (bst st) (bst st1)" "uerror (bst st1) = uerror (bst st)" "sb st1 = sb st" "rablock st1 = rablock st" "ra1 = ra \<or> (\<exists>j<256. ra1 = ptr ?V nb j)" by blast
    have ra1: "ra1 = 0 \<or> usable d devs dev ra1" "rablock st1 = 0" using f(6,7) Suc.prems(4-6) nodes_root [of ra1 k ?V] unfolding nodes_Suc [OF nb] by auto
    have us: "\<forall>b\<in>set (nodes k ?V (ptr ?V nb ?i)). usable d devs dev b" using Suc.prems(4) i unfolding nodes_Suc [OF nb] by blast
    have fr: "nodes k (view d (bst st1) dev) (ptr ?V nb ?i) = nodes k ?V (ptr ?V nb ?i) \<and> (\<forall>bn. through k (view d (bst st1) dev) bn (ptr ?V nb ?i) = through k ?V bn (ptr ?V nb ?i))
        \<and> shaped k (view d (bst st1) dev) (ptr ?V nb ?i) = shaped k ?V (ptr ?V nb ?i)"
      by (rule tree_frame) (use f(3) us in \<open>simp add: sees_def\<close>)
    have "tree_ok k (view d (bst st1) dev) (ptr ?V nb ?i)" using fr tr i by (simp add: tree_ok_def)
    from Suc.IH [OF f(2) False this _ ra1] fr us obtain st' where
      "bmap_walk d env fenv n dev False flags async bn k (8 * k) (ptr ?V nb ?i) ra1 st1 = Ok (st', (if through k ?V bn (ptr ?V nb ?i) = 0 then - 1 else through k ?V bn (ptr ?V nb ?i)))"
      "fs_ok d devs N n dev {} l st'" "sees d devs (bst st1) (bst st')" "uerror (bst st') = uerror (bst st1)" "sb st' = sb st1" "rablock st' = 0 \<or> usable d devs dev (rablock st')" by auto
    then show ?thesis using f th sees_trans [OF f(3)] by auto
  qed
qed

lemma bmap_read_spec:
  assumes ok: "fs_ok d devs N n dev {} l st" and ip: "i_dev ip = dev" and f: "file_ok (view d (bst st) dev) (i_addr ip)"
    and us: "\<forall>b\<in>set (file_blocks (view d (bst st) dev) (i_addr ip)). usable d devs dev b" and bn: "place bn \<noteq> None"
  shows "\<exists>st'. bmap d env fenv n ip bn False flags st
        = Ok (st', ip, (if file_map (view d (bst st) dev) (i_addr ip) bn = 0 then - 1 else file_map (view d (bst st) dev) (i_addr ip) bn))
      \<and> fs_ok d devs N n dev {} l st' \<and> sees d devs (bst st) (bst st') \<and> uerror (bst st') = uerror (bst st) \<and> sb st' = sb st
      \<and> (rablock st' = 0 \<or> usable d devs dev (rablock st'))"
proof -
  let ?V = "view d (bst st) dev" and ?async = "fs_flags (sb st) AND MNT_ASYNC \<noteq> 0"
  obtain i q where pl: "place bn = Some (i, q)" using bn by auto
  note pr = place_range [OF pl] and f' = f [unfolded file_ok_iff]
  define st0 where "st0 = st\<lparr>rablock := 0\<rparr>"
  have ok0: "fs_ok d devs N n dev {} l st0" using ok by (simp add: st0_def fs_ok_rablock)
  have s0: "bst st0 = bst st" "sb st0 = sb st" by (simp_all add: st0_def)
  have bn0: "\<not> bn < 0" using pl by (auto simp: place_eq)
  show ?thesis
  proof (cases "bn < 4")
    case True
    then have "file_map ?V (i_addr ip) bn = i_addr ip ! nat bn" using bn0 by (simp add: file_map_def place_eq nat_less_iff)
    moreover have "i_addr ip ! j = 0 \<or> usable d devs dev (i_addr ip ! j)" if "j < 4" for j
    proof -
      have "j < 7" using that by simp
      then have "i_addr ip ! j \<noteq> 0 \<longrightarrow> i_addr ip ! j \<in> set (file_blocks ?V (i_addr ip))" unfolding file_blocks_set using nodes_root by blast
      then show ?thesis using us by blast
    qed
    from this [of "nat bn + 1"] have "nat bn < 3 \<longrightarrow> i_addr ip ! Suc (nat bn) = 0 \<or> usable d devs dev (i_addr ip ! Suc (nat bn))" by auto
    ultimately show ?thesis using bn0 True ok sees_refl by (auto simp: bmap_def Let_def fs_ok_rablock s0 sees_def)
  next
    case False
    have lev: "bmap_level 3 0 (bn - 4) = Some (7 - i, 8 * (i - 3), q)" and i: "4 \<le> i"
      using pl False bn0 by (auto simp: place_eq bmap_level_eq split: if_splits)
    have h: "7 - (7 - i) = i" "4 - (7 - i) = i - 3" using i pr by auto
    have fm: "file_map ?V (i_addr ip) bn = through (i - 3) ?V q (i_addr ip ! i)" by (simp add: file_map_def pl)
    show ?thesis
    proof (cases "i_addr ip ! i = 0")
      case True
      then show ?thesis using bn0 False lev ok fm sees_refl by (auto simp: bmap_def Let_def h fs_ok_rablock s0 sees_def)
    next
      case nz: False
      have tr: "tree_ok (i - 3) ?V (i_addr ip ! i)" "\<forall>b\<in>set (nodes (i - 3) ?V (i_addr ip ! i)). usable d devs dev b"
        using f' us pr unfolding file_blocks_set by blast+
      from bmap_walk_read [OF ok0 nz, unfolded s0, OF tr, of 0 env fenv flags ?async q] obtain st' where
        "bmap_walk d env fenv n dev False flags ?async q (i - 3) (8 * (i - 3)) (i_addr ip ! i) 0 st0 = Ok (st', (if through (i - 3) ?V q (i_addr ip ! i) = 0 then - 1 else through (i - 3) ?V q (i_addr ip ! i)))"
        "fs_ok d devs N n dev {} l st'" "sees d devs (bst st) (bst st')" "uerror (bst st') = uerror (bst st)" "sb st' = sb st" "rablock st' = 0 \<or> usable d devs dev (rablock st')" by (auto simp: st0_def)
      then show ?thesis using bn0 False lev nz ip unfolding fm by (simp add: bmap_def Let_def h st0_def)
    qed
  qed
qed

lemma bmap_write_spec:
  assumes N: "1 < N" and ok: "fs_ok d devs N n dev {} l st" and ip: "i_dev ip = dev" and f: "file_ok (view d (bst st) dev) (i_addr ip)"
    and rng: "\<forall>b\<in>set (file_blocks (view d (bst st) dev) (i_addr ip)). fs_isize (sb st) \<le> b \<and> b < fs_fsize (sb st) \<and> b \<notin> set l"
    and bn: "place bn = Some (i, q)" and l: "4 \<le> length l"
  shows "mapped (flags AND B_CLRBUF \<noteq> 0) d devs N n dev l st ip i q (bmap d env fenv n ip bn True flags st)"
proof (cases "bn < 4")
  case True
  have b0: "0 \<le> bn" using bn by (auto simp: place_eq split: if_splits)
  have "i = nat bn" "q = 0" using bn True b0 by (auto simp: place_eq)
  moreover have "l \<noteq> []" using l by auto
  ultimately show ?thesis using bmap_direct [OF ok ip _ b0 True] f by (simp add: file_ok_def)
next
  case False
  note pr = place_range [OF bn] and f' = f [unfolded file_ok_iff]
  have lev: "bmap_level 3 0 (bn - 4) = Some (7 - i, 8 * (i - 3), q)" and i: "4 \<le> i"
    using bn False by (auto simp: place_eq bmap_level_eq split: if_splits)
  show ?thesis
    by (rule bmap_indirect [OF N ok ip _ i _ _ lev _ l]) (use f' pr False rng in \<open>auto simp: file_blocks_set\<close>)
qed

end
