(* ===== verification/Bio_Init.thy ===== *)
theory Bio_Init
  imports Bio_Cache
begin

text \<open>
  The buffers as the kernel sets them up; the properties of the cache.
\<close>

definition binit_one :: "nat \<Rightarrow> bio \<Rightarrow> bio" where
  "binit_one b st = upd_buf b (\<lambda>p. p\<lparr>b_flags := B_BUSY OR B_INVAL\<rparr>)
     (binshash b (Bfreelist BQ_AGE) (upd_buf b (\<lambda>p. p\<lparr>b_dev := NODEV, b_bcount := 0\<rparr>) st))"

lemma binit_loop_one: "binit_loop (b # bs) st = binit_loop bs (brelse b (binit_one b st))"
  by (simp add: binit_one_def Let_def)

lemma binit_one_simps:
  "bfreelist (binit_one b st) = bfreelist st" "card (binit_one b st) = card st"
  "chains (binit_one b st) = (chains st)(Bfreelist BQ_AGE := b # chains st (Bfreelist BQ_AGE))"
  "bufs (binit_one b st) = (bufs st)(b := (bufs st b)\<lparr>b_dev := NODEV, b_bcount := 0, b_flags := B_BUSY OR B_INVAL\<rparr>)"
  by (auto simp: binit_one_def binshash_def)

lemma append_loop: "binit_loop (xs @ ys) st = binit_loop ys (binit_loop xs st)"
  by (induction xs arbitrary: st) (auto simp: Let_def)

text \<open>After \<open>k\<close> rounds there is a cache of \<open>k\<close> buffers, all of them empty.\<close>

lemma binit_round:
  assumes inv: "binv d devs k {} st" and empty: "\<forall>b<k. \<not> valid (bufs st b)"
  shows "binv d devs (Suc k) {} (brelse k (binit_one k st))" "\<forall>b<Suc k. \<not> valid (bufs (brelse k (binit_one k st)) b)"
proof -
  let ?st = "binit_one k st"
  have k: "\<not> is_error (bufs ?st k)" "\<not> is_locked (bufs ?st k)" "\<not> valid (bufs ?st k)" "\<not> is_delwri (bufs ?st k)" "\<not> is_done (bufs ?st k)"
    by (simp_all add: binit_one_simps valid_def bit_simps)
  have nv: "\<not> valid (bufs ?st b)" if "b < Suc k" for b
    using that empty k(3) by (cases "b = k") (auto simp: binit_one_simps)
  have i: "\<forall>h. distinct (chains st h)" "\<And>h h' b. b \<in> set (chains st h) \<Longrightarrow> b \<in> set (chains st h') \<Longrightarrow> h = h'" "\<And>b. (\<exists>h. b \<in> set (chains st h)) \<longleftrightarrow> b < k"
    using inv unfolding binv_def chains_ok_def by blast+
  have kn: "k \<notin> set (chains st h)" for h using i(3) [of k] by blast
  have "(\<exists>h. b \<in> set (chains ?st h)) \<longleftrightarrow> b < Suc k" for b
  proof (cases "b = k")
    case True
    then have "b \<in> set (chains ?st (Bfreelist BQ_AGE))" by (simp add: binit_one_simps)
    then show ?thesis using True by blast
  next
    case False
    then have "b \<in> set (chains ?st h) \<longleftrightarrow> b \<in> set (chains st h)" for h by (simp add: binit_one_simps)
    then show ?thesis using i(3) [of b] False by auto
  qed
  then have ch: "chains_ok (Suc k) ?st" unfolding chains_ok_def using i(1,2) kn by (auto simp: binit_one_simps split: if_splits)
  have fr: "free_ok (Suc k) {k} ?st" using inv by (auto simp: binv_def free_ok_def binit_one_simps)
  have id: "idle_ok d ?st b" if "b < Suc k" "b \<notin> {k}" for b
    by (rule idle_cong [OF idle_okD [OF inv]]) (use that in \<open>auto simp: binit_one_simps on_card_def\<close>)
  have "binv d devs (Suc k) {k} ?st" using ch fr id nv by (auto simp: binv_def hashed_ok_def)
  then show "binv d devs (Suc k) {} (brelse k ?st)" using brelse_inv [of d devs "Suc k" k "{}" ?st] k by simp
  show "\<forall>b<Suc k. \<not> valid (bufs (brelse k ?st) b)" using nv brelse_bufs [OF k(1)] by (auto simp: valid_def)
qed

lemma binit_loop_inv:
  assumes "\<forall>h. chains st h = []" "\<forall>q<3. bfreelist st q = []"
  shows "binv d devs k {} (binit_loop [0..<k] st) \<and> (\<forall>b<k. \<not> valid (bufs (binit_loop [0..<k] st) b)) \<and> card (binit_loop [0..<k] st) = card st"
proof (induction k)
  case 0
  then show ?case using assms by (simp add: binv_def chains_ok_def free_ok_def hashed_ok_def)
next
  case (Suc k)
  let ?st = "binit_loop [0..<k] st"
  have "binit_loop [0..<Suc k] st = brelse k (binit_one k ?st)" by (simp only: upt_Suc_append append_loop binit_loop_one binit_loop.simps le0)
  moreover have "card (brelse k (binit_one k ?st)) = card ?st" by (subst brelse_bufs) (simp_all add: binit_one_simps bit_simps)
  ultimately show ?case using Suc binit_round [of d devs k ?st] by simp
qed

text \<open>The memory of the kernel is cleared at the start: no chain but those that are set up has a member.\<close>

lemma binit_inv:
  assumes "\<forall>i\<ge>16. chains st (Bufhash i) = []" "\<forall>q\<ge>3. chains st (Bfreelist q) = []"
  shows "binv d devs N {} (binit N (bhinit st))" "dev \<noteq> NODEV \<Longrightarrow> view d (binit N (bhinit st)) dev blk = on_card d st dev blk"
proof -
  define s0 where "s0 = (bhinit st)\<lparr>bfreelist := (\<lambda>q. if q < 3 then [] else bfreelist (bhinit st) q),
      chains := (\<lambda>h. case h of Bfreelist q \<Rightarrow> if q < 3 then [] else chains (bhinit st) h | Bufhash i \<Rightarrow> chains (bhinit st) h)\<rparr>"
  have s0: "\<forall>h. chains s0 h = []" "\<forall>q<3. bfreelist s0 q = []" "card s0 = card st" using assms by (auto simp: s0_def bhinit_def split: bhead.splits)
  have bi: "binit N (bhinit st) = binit_loop [0..<N] s0" unfolding binit_def s0_def ..
  have i: "binv d devs N {} (binit N (bhinit st)) \<and> (\<forall>b<N. \<not> valid (bufs (binit N (bhinit st)) b)) \<and> card (binit N (bhinit st)) = card st"
    unfolding bi s0(3) [symmetric] by (rule binit_loop_inv [OF s0(1,2)])
  then show "binv d devs N {} (binit N (bhinit st))" by blast
  then have "chains_ok N (binit N (bhinit st))" "hashed_ok d devs N (binit N (bhinit st))" by (simp_all add: binv_def)
  then have "view d (binit N (bhinit st)) dev blk = on_card d (binit N (bhinit st)) dev blk" if "dev \<noteq> NODEV"
    by (rule view_miss [OF _ _ that]) (use i in blast)
  then show "dev \<noteq> NODEV \<Longrightarrow> view d (binit N (bhinit st)) dev blk = on_card d st dev blk" using i by (simp add: on_card_def)
qed

lemma binit_blocks:
  assumes "\<forall>i\<ge>16. chains st (Bufhash i) = []" "\<forall>q\<ge>3. chains st (Bfreelist q) = []" "usable d devs dev blk"
  shows "blocks d devs (binit N (bhinit st)) (dev, blk) = Some (on_card d st dev blk)"
  using binit_inv(2) [OF assms(1,2)] assms(3) by (simp add: blocks_usable usable_def)

section \<open>Properties\<close>

text \<open>
  C7. The buffer cache is transparent. From the state that \<open>bhinit\<close> and \<open>binit\<close> set up, every sequence of reads (with or without
  reading ahead), writes at once, in the background or delayed, and flushes returns, and does to the blocks of the card, as seen
  through the cache, what it would do to the blocks themselves: a read gives the block last written, or the one that was on the
  card at the start; whatever else is cached, delayed, evicted or flushed in between. The devices are partitions that do not
  overlap, the transfers to the card succeed.
\<close>

theorem cache_transparent:
  assumes "parts_ok d devs" "\<forall>i\<ge>16. chains st (Bufhash i) = []" "\<forall>q\<ge>3. chains st (Bfreelist q) = []" "1 < nbuf" "nbuf + 1 < n"
    and "\<forall>op\<in>set ops. bio_pre d devs op"
  shows "\<exists>st' rs. run_ops (bio_step d env n) ops (binit nbuf (bhinit st)) = Some (st', rs)
    \<and> run_spec bio_spec ops (\<lambda>(dev, blk). if usable d devs dev blk then Some (on_card d st dev blk) else None) (blocks d devs st') rs"
proof -
  have "bio_ok d devs nbuf n (binit nbuf (bhinit st))" using assms binit_inv(1) [OF assms(2,3)] by (simp add: bio_ok_def)
  moreover have "blocks d devs (binit nbuf (bhinit st)) = (\<lambda>(dev, blk). if usable d devs dev blk then Some (on_card d st dev blk) else None)"
    using binit_blocks [OF assms(2,3)] by (auto simp: fun_eq_iff) (simp_all add: blocks_def)
  ultimately show ?thesis using bio.run_refines [of d devs nbuf n "binit nbuf (bhinit st)" ops env] assms(6) by auto
qed

definition disk_ex :: sdisk where
  "disk_ex = \<lparr>dp_offset = (\<lambda>_. 0), dp_nsectors = (\<lambda>_. 16), label_writable = (\<lambda>_. False), rd_ok = (\<lambda>_ _. True), wr_ok = (\<lambda>_ _. True), rd_junk = (\<lambda>_ _. [])\<rparr>"

definition bio_ex :: bio where
  "bio_ex = \<lparr>bufs = (\<lambda>_. \<lparr>b_flags = 0, b_bcount = 0, b_error = 0, b_dev = 0, b_data = [], b_blkno = 0, b_resid = 0\<rparr>), chains = (\<lambda>_. []), bfreelist = (\<lambda>_. []),
     bwanted = False, card = (\<lambda>_ blk. [word_of_int blk]), uerror = 0, ru_inblk = 0, ru_oublk = 0, woken = []\<rparr>"

lemma disk_ex_ok: "usable disk_ex {0} dev blk \<longleftrightarrow> dev = 0 \<and> 1 \<le> blk \<and> blk < 8" "parts_ok disk_ex {0}"
proof -
  show u: "usable disk_ex {0} dev blk \<longleftrightarrow> dev = 0 \<and> 1 \<le> blk \<and> blk < 8" for dev blk by (auto simp: usable_def disk_ex_def loc_def)
  show "parts_ok disk_ex {0}" unfolding parts_ok_def u by (auto simp: loc_def)
qed

theorem cache_transparent_witness:
  "\<exists>st' rs. run_ops (bio_step disk_ex (\<lambda>_ st. st) 5) [Bdwrite 0 1 [7], Bdwrite 0 2 [8], Bdwrite 0 3 [9], Bread 0 1, Bread 0 4] (binit 3 (bhinit bio_ex)) = Some (st', rs)
    \<and> rs ! 3 = Some [7] \<and> rs ! 4 = Some [4]"
proof -
  have "\<forall>op\<in>set [Bdwrite 0 1 [7], Bdwrite 0 2 [8], Bdwrite 0 3 [9], Bread 0 1, Bread 0 4]. bio_pre disk_ex {0} op" by (simp add: disk_ex_ok)
  from cache_transparent [OF disk_ex_ok(2), of bio_ex 3 5, OF _ _ _ _ this, of "\<lambda>_ st. st"] obtain st' rs where
    r: "run_ops (bio_step disk_ex (\<lambda>_ st. st) 5) [Bdwrite 0 1 [7], Bdwrite 0 2 [8], Bdwrite 0 3 [9], Bread 0 1, Bread 0 4] (binit 3 (bhinit bio_ex)) = Some (st', rs)"
    "run_spec bio_spec [Bdwrite 0 1 [7], Bdwrite 0 2 [8], Bdwrite 0 3 [9], Bread 0 1, Bread 0 4]
      (\<lambda>(dev, blk). if usable disk_ex {0} dev blk then Some (on_card disk_ex bio_ex dev blk) else None) (blocks disk_ex {0} st') rs"
    by (auto simp: bio_ex_def)
  have "on_card disk_ex bio_ex 0 4 = [4]" by (simp add: on_card_def loc_def bio_ex_def disk_ex_def)
  then have "rs ! 3 = Some [7] \<and> rs ! 4 = Some [4]" using r(2) by (auto simp: disk_ex_ok)
  with r(1) show ?thesis by blast
qed

text \<open>
  C8. \<open>bflush\<close> brings the card up to date. Given turns enough, it returns, and then every block of the device is on the card as a
  reader saw it before the call; what a reader sees, of this device and of the others, has not changed.
\<close>

theorem bflush_reaches_card:
  assumes "bio_ok d devs nbuf n st"
  shows "\<exists>st'. bflush d env n dev st = Ok st' \<and> blocks d devs st' = blocks d devs st
     \<and> (\<forall>blk. usable d devs dev blk \<longrightarrow> blocks d devs st (dev, blk) = Some (on_card d st' dev blk))"
proof -
  have p: "parts_ok d devs" and inv: "binv d devs nbuf {} st" and n: "dirty nbuf st < n" using assms dirty_le [of nbuf st] by (auto simp: bio_ok_def)
  from bflush_spec [OF p inv n, of env dev] obtain st' where r: "bflush d env n dev st = Ok st'" "binv d devs nbuf {} st'" "sees d devs st st'"
    "\<forall>b<nbuf. is_delwri (bufs st' b) \<longrightarrow> b_dev (bufs st' b) \<noteq> dev" by blast
  have "blocks d devs st (dev, blk) = Some (on_card d st' dev blk)" if u: "usable d devs dev blk" for blk
  proof -
    have "dev \<noteq> NODEV" using u by (simp add: usable_def)
    from flushed_view [OF r(2,4) this, of blk] r(3) u have "view d st dev blk = on_card d st' dev blk" unfolding sees_def by metis
    then show ?thesis by (simp add: blocks_usable [OF u])
  qed
  with r blocks_sees [OF r(3)] show ?thesis by blast
qed

lemma bio_ex_ok: "bio_ok disk_ex {0} 3 5 (binit 3 (bhinit bio_ex))"
  using binit_inv(1) [of bio_ex disk_ex "{0}" 3] disk_ex_ok(2) by (simp add: bio_ok_def bio_ex_def)

theorem bflush_reaches_card_witness:
  "\<exists>st'. bflush disk_ex (\<lambda>_ st. st) 5 0 (binit 3 (bhinit bio_ex)) = Ok st'
     \<and> blocks disk_ex {0} (binit 3 (bhinit bio_ex)) (0, 4) = Some (on_card disk_ex st' 0 4)"
  using bflush_reaches_card [OF bio_ex_ok, of "\<lambda>_ st. st" 0] disk_ex_ok(1) [of 0 4] by auto

text \<open>
  C9. \<open>sdstrategy\<close> does not look at what \<^verbatim>\<open>card_write\<close> returns. A synchronous \<open>bwrite\<close> of a block within the partition that the card
  fails to write completes as if it had succeeded: the process sees no error, the buffer is released without an error and no
  longer marked as delayed, and the card is as it was, which is how the model takes a failed write.
\<close>

theorem failed_write_unreported:
  assumes "b_blkno (bufs st b) < dp_nsectors d (b_dev (bufs st b)) div 2" "b_blkno (bufs st b) + dp_offset d (b_dev (bufs st b)) div 2 \<noteq> 0"
    and "\<not> wr_ok d (sdunit (b_dev (bufs st b))) (b_blkno (bufs st b) + dp_offset d (b_dev (bufs st b)) div 2)"
    and "bflags b st AND B_ASYNC = 0"
  shows "\<exists>st'. bwrite d env n b st = Ok st' \<and> uerror st' = uerror st \<and> card st' = card st
     \<and> bflags b st' AND B_ERROR = 0 \<and> bflags b st' AND B_DELWRI = 0 \<and> bflags b st' AND B_BUSY = 0"
proof -
  let ?w = "b_flags (bufs st b) AND NOT (B_READ OR B_DONE OR B_ERROR OR B_DELWRI)"
  have fl: "\<not> bit ?w 0" "\<not> bit ?w 1" "\<not> bit ?w 2" "\<not> bit ?w 9" "\<not> bit ?w 8" using assms(4) by (auto simp: bit_simps bflags_def bflag_bits)
  define st2 where "st2 k = upd_buf b (\<lambda>p. p\<lparr>b_bcount := DEV_BSIZE\<rparr>) ((bclr b (B_READ OR B_DONE OR B_ERROR OR B_DELWRI) st)\<lparr>ru_oublk := k\<rparr>)" for k
  have b2: "bufs (st2 k) b = (bufs st b)\<lparr>b_flags := ?w, b_bcount := DEV_BSIZE\<rparr>" "card (st2 k) = card st" "uerror (st2 k) = uerror st" for k
    by (simp_all add: st2_def)
  have str: "sdstrategy d b (st2 k) = biodone b (st2 k)" for k
    using assms(1-3) fl by (auto simp: sdstrategy_def Let_def b2 bflag_bits card_write_def)
  define st3 where "st3 k = bwakeup (Some b) (bclr b B_WANTED (bset b B_DONE (st2 k)))" for k
  have dn: "biodone b (st2 k) = Ok (st3 k)" for k using fl by (simp add: biodone_def bflags_def b2 bflag_bits Let_def bit_simps st3_def)
  have f3: "is_done (bufs (st3 k) b)" "\<not> is_error (bufs (st3 k) b)" "\<not> is_delwri (bufs (st3 k) b)" "card (st3 k) = card st" "uerror (st3 k) = uerror st" for k
    using fl by (simp_all add: st3_def b2 bit_simps)
  have "\<exists>k. bwrite d env n b st = bind_cres (sdstrategy d b (st2 k)) (\<lambda>st. bind_cres (biowait env n b st) (\<lambda>st. Ok (brelse b st)))"
  proof (cases "bflags b st AND B_DELWRI = 0")
    case True
    then show ?thesis using assms(4) by (auto simp: bwrite_def Let_def st2_def)
  next
    case False
    have "bclr b 519 st = (bclr b 519 st)\<lparr>ru_oublk := ru_oublk (bclr b 519 st)\<rparr>" by simp
    then show ?thesis using assms(4) False by (auto simp: bwrite_def Let_def st2_def intro!: exI [of _ "ru_oublk (bclr b 519 st)"])
  qed
  then obtain k where "bwrite d env n b st = Ok (brelse b (st3 k))" using biowait_done [OF f3(1,2)] by (auto simp: str dn)
  then show ?thesis using brelse_bufs [OF f3(2), of k] f3 [of k] by (auto simp: bflags_def bflag_bits)
qed

theorem failed_write_unreported_witness:
  "\<exists>st'. bwrite (disk_ex\<lparr>wr_ok := \<lambda>_ _. False\<rparr>) (\<lambda>_ st. st) 5 0 (upd_buf 0 (\<lambda>p. p\<lparr>b_blkno := 3, b_data := [1]\<rparr>) bio_ex) = Ok st' \<and> uerror st' = 0 \<and> card st' = card bio_ex"
  using failed_write_unreported [of "upd_buf 0 (\<lambda>p. p\<lparr>b_blkno := 3, b_data := [1]\<rparr>) bio_ex" 0 "disk_ex\<lparr>wr_ok := \<lambda>_ _. False\<rparr>" "\<lambda>_ st. st" 5]
  by (auto simp: bio_ex_def disk_ex_def bflags_def)

text \<open>
  C10. Nothing resets the residual count of a buffer. A block read without error is returned complete in some buffer \<open>b\<close>, with the
  \<^verbatim>\<open>b_resid\<close> that \<open>b\<close> had before; and a read just past the end of the partition has set that to the whole block. So a buffer that once
  served a read at the end of a device reports, for every block it holds later, that nothing was transferred.
\<close>

theorem residual_count_stale:
  assumes "bio_ok d devs nbuf n st" "usable d devs dev blk"
  shows "(\<exists>st' b. bread d env n dev blk st = Ok (st', b) \<and> bflags b st' AND B_ERROR = 0 \<and> b_data (bufs st' b) = view d st dev blk
        \<and> b_resid (bufs st' b) = b_resid (bufs st b))
     \<and> (\<forall>b st1. b_blkno (bufs st1 b) = dp_nsectors d (b_dev (bufs st1 b)) div 2 \<and> b_blkno (bufs st1 b) + dp_offset d (b_dev (bufs st1 b)) div 2 \<noteq> 0
          \<and> bflags b st1 AND (B_DONE OR B_ERROR OR B_ASYNC OR B_LOCKED) = 0 \<longrightarrow>
          (\<exists>st2. bread_start d B_READ b st1 = Ok st2 \<and> bflags b st2 AND B_DONE \<noteq> 0 \<and> bflags b st2 AND B_ERROR = 0 \<and> b_resid (bufs st2 b) = DEV_BSIZE))"
proof (intro conjI allI impI)
  have p: "parts_ok d devs" "binv d devs nbuf {} st" "0 < nbuf" "0 \<notin> {}" "dirty nbuf st + 1 < n" using assms(1) dirty_le [of nbuf st] by (auto simp: bio_ok_def)
  from bread_spec [OF p(1,2) assms(2) p(3-)] obtain st' b where "bread d env n dev blk st = Ok (st', b)" "calm st st'" "got d dev blk b st'" "b_data (bufs st' b) = view d st dev blk"
    unfolding taken_def by blast
  then show "\<exists>st' b. bread d env n dev blk st = Ok (st', b) \<and> bflags b st' AND B_ERROR = 0 \<and> b_data (bufs st' b) = view d st dev blk \<and> b_resid (bufs st' b) = b_resid (bufs st b)"
    by (auto simp: calm_def got_def Let_def bflags_def bflag_bits)
next
  fix b st1
  assume a: "b_blkno (bufs st1 b) = dp_nsectors d (b_dev (bufs st1 b)) div 2 \<and> b_blkno (bufs st1 b) + dp_offset d (b_dev (bufs st1 b)) div 2 \<noteq> 0
    \<and> bflags b st1 AND (B_DONE OR B_ERROR OR B_ASYNC OR B_LOCKED) = 0"
  then have "\<not> is_done (bufs st1 b)" "\<not> is_error (bufs st1 b)" "\<not> is_async (bufs st1 b)" by (simp_all only: and_or_zero bflag_bits bflags_def) auto
  then show "\<exists>st2. bread_start d B_READ b st1 = Ok st2 \<and> bflags b st2 AND B_DONE \<noteq> 0 \<and> bflags b st2 AND B_ERROR = 0 \<and> b_resid (bufs st2 b) = DEV_BSIZE"
    using a by (auto simp: bread_start_def sdstrategy_def Let_def biodone_def bflags_def bflag_bits bit_simps)
qed

theorem residual_count_stale_witness:
  "\<exists>st' b. bread disk_ex (\<lambda>_ st. st) 5 0 4 (binit 3 (bhinit bio_ex)) = Ok (st', b) \<and> b_resid (bufs st' b) = b_resid (bufs (binit 3 (bhinit bio_ex)) b)"
  using residual_count_stale [OF bio_ex_ok, of 0 4 "\<lambda>_ st. st"] disk_ex_ok(1) [of 0 4] by auto

end
