(* ===== verification/Ufs_Props.thy ===== *)
theory Ufs_Props
  imports Ufs_Free Bio_Init
begin

text \<open>
  A small file system for the witnesses; the properties of the free list.
\<close>

lemma binit_loop_resid: "b_resid (bufs (binit_loop bs st) b) = b_resid (bufs st b)"
proof (induction bs arbitrary: st)
  case (Cons c bs)
  have "\<not> is_error (bufs (binit_one c st) c)" by (simp add: binit_one_simps bit_simps)
  then have "b_resid (bufs (brelse c (binit_one c st)) b) = b_resid (bufs st b)" by (simp add: brelse_bufs binit_one_simps)
  then show ?case unfolding binit_loop_one Cons.IH .
qed simp

lemma binit_loop_uerror: "uerror (binit_loop bs st) = uerror st"
proof (induction bs arbitrary: st)
  case (Cons c bs)
  have "\<not> is_error (bufs (binit_one c st) c)" by (simp add: binit_one_simps bit_simps)
  from brelse_calm [OF this] have "uerror (brelse c (binit_one c st)) = uerror st" by (simp add: calm_def binit_one_def binshash_def)
  then show ?case unfolding binit_loop_one Cons.IH .
qed simp

definition disk_fs :: sdisk where
  "disk_fs = disk_ex\<lparr>dp_offset := \<lambda>_. 2\<rparr>"

definition fs_ex :: fs where
  "fs_ex = \<lparr>fs_magic1 = 0, fs_isize = 2, fs_fsize = 8, fs_swapsz = 0, fs_nfree = 5, fs_free = 0 # 3 # 4 # 5 # 6 # replicate 195 0, fs_ninode = 0, fs_inode = replicate 32 0,
     fs_flock = 0, fs_fmod = 0, fs_ilock = 0, fs_ronly = 0, fs_time = 0, fs_tfree = 4, fs_tinode = 0, fs_fsmnt = replicate 7 0, fs_lasti = 0, fs_nbehind = 0, fs_flags = 0, fs_magic2 = 0\<rparr>"

definition ufs_ex :: ufs where
  "ufs_ex = \<lparr>bst = binit 3 (bhinit bio_ex), sb = fs_ex, now = 0, rablock = 0, fs_woken = []\<rparr>"

lemma disk_fs_ok: "usable disk_fs {0} dev blk \<longleftrightarrow> dev = 0 \<and> 0 \<le> blk \<and> blk < 8" "parts_ok disk_fs {0}"
proof -
  show u: "usable disk_fs {0} dev blk \<longleftrightarrow> dev = 0 \<and> 0 \<le> blk \<and> blk < 8" for dev blk by (auto simp: usable_def disk_fs_def disk_ex_def loc_def)
  show "parts_ok disk_fs {0}" unfolding parts_ok_def u by (auto simp: loc_def)
qed

lemma ufs_sized_ok:
  assumes "0 < N" "N + 1 < n"
  shows "fs_ok disk_fs {0} N n 0 {} [6, 5, 4, 3] (ufs_ex\<lparr>bst := binit N (bhinit bio_ex)\<rparr>)"
proof -
  have "binv disk_fs {0} N {} (binit N (bhinit bio_ex))" by (rule binit_inv) (simp_all add: bio_ex_def)
  moreover have "\<exists>c<N. c \<notin> ({} :: nat set)" using assms(1) by auto
  ultimately have c: "cache_ok disk_fs {0} N n {} (binit N (bhinit bio_ex))" using disk_fs_ok(2) assms(2) by (simp add: cache_ok_def)
  have r: "b_resid (bufs (binit N (bhinit bio_ex)) b) = 0" for b by (simp add: binit_def binit_loop_resid bhinit_def bio_ex_def)
  have "freelist V 1 (fs_free fs_ex) []" for V by (rule freelist.fl_end) (simp add: fs_ex_def)
  note fl = freelist.fl_push [OF _ _ this] freelist.fl_push
  have "freelist V (1 + 1) (fs_free fs_ex) [3]" for V by (rule fl(1)) (simp_all add: fs_ex_def)
  note fl = fl(2) [OF _ _ this] fl(2)
  have "freelist V (1 + 1 + 1) (fs_free fs_ex) [4, 3]" for V by (rule fl(1)) (simp_all add: fs_ex_def)
  note fl = fl(2) [OF _ _ this] fl(2)
  have "freelist V (1 + 1 + 1 + 1) (fs_free fs_ex) [5, 4, 3]" for V by (rule fl(1)) (simp_all add: fs_ex_def)
  note fl = fl(2) [OF _ _ this] fl(2)
  have "freelist V (1 + 1 + 1 + 1 + 1) (fs_free fs_ex) [6, 5, 4, 3]" for V by (rule fl(1)) (simp_all add: fs_ex_def)
  then have "freelist V (fs_nfree fs_ex) (fs_free fs_ex) [6, 5, 4, 3]" for V by (simp add: fs_ex_def)
  moreover have "length (fs_free fs_ex) = 200" by (simp add: fs_ex_def)
  moreover have "fs_flock fs_ex = 0" "fs_isize fs_ex = 2" "fs_fsize fs_ex = 8" "fs_tfree fs_ex = 4" by (simp_all add: fs_ex_def)
  ultimately show ?thesis using c r disk_fs_ok(1) by (auto simp: fs_ok_def fs_list_def ufs_ex_def Let_def ubuf_def)
qed

lemma ufs_ex_ok: "fs_ok disk_fs {0} 3 5 0 {} [6, 5, 4, 3] ufs_ex"
  using ufs_sized_ok [of 3 5] by (simp add: ufs_ex_def)

section \<open>Properties\<close>

text \<open>
  \<open>balloc\<close> pops the free list. When the list is not empty it returns, without error, a buffer of the first block of the list, also when
  that block is the link to the next part of the list, which is then loaded; after the caller has filled the buffer and released it
  with a delayed write, the rest of the list is free, its count is right, the block holds what the caller put there, and of all other
  blocks only the super block may have changed. When the list is empty, it fails with \<^verbatim>\<open>ENOSPC\<close>.
\<close>

theorem balloc_pops:
  assumes "fs_ok d devs nbuf n dev {} l st"
  shows "case l of
      [] \<Rightarrow> \<exists>st'. balloc d env fenv n dev flags st = Ok (st', None) \<and> uerror (bst st') = 28
    | b # l' \<Rightarrow> \<exists>st' bp. balloc d env fenv n dev flags st = Ok (st', Some bp) \<and> b_blkno (ubuf bp st') = b
        \<and> (let st2 = in_cache (\<lambda>c. bdwrite bp (upd_buf bp (\<lambda>p. p\<lparr>b_data := x\<rparr>) c)) st'
           in fs_ok d devs nbuf n dev {} l' st2 \<and> view d (bst st2) dev b = x \<and> uerror (bst st2) = uerror (bst st)
            \<and> (\<forall>dev' blk'. usable d devs dev' blk' \<longrightarrow> (dev', blk') \<noteq> (dev, SUPERB) \<longrightarrow> (dev', blk') \<noteq> (dev, b) \<longrightarrow>
                view d (bst st2) dev' blk' = view d (bst st) dev' blk'))"
proof (cases l)
  case Nil
  then show ?thesis using balloc_full [of d devs nbuf n dev "{}" st env fenv flags] assms by simp
next
  case (Cons b l')
  from alloc_write [OF assms [unfolded Cons], of env fenv flags x] show ?thesis unfolding Cons by (auto simp: same_but_def Let_def)
qed

theorem balloc_pops_witness:
  "\<exists>st' bp. balloc disk_fs (\<lambda>_ c. c) (\<lambda>_ st. st) 5 0 0 ufs_ex = Ok (st', Some bp) \<and> b_blkno (ubuf bp st') = 6"
  using balloc_pops [OF ufs_ex_ok, of "\<lambda>_ c. c" "\<lambda>_ st. st" 0 "[]"] by auto

text \<open>
  C18. \<open>free\<close> pushes a block on the free list. A block of the file system that is not on the list becomes its first block, also when the
  super block has no room and the block takes the list so far; the count is right, no other block changes, and the next
  \<open>balloc\<close> hands out the same block again.
\<close>

theorem free_pushes:
  assumes "fs_ok d devs nbuf n dev {} l st" "fs_isize (sb st) \<le> b" "b < fs_fsize (sb st)" "b \<notin> set l"
  shows "\<exists>st'. free d env fenv n dev b st = Ok st' \<and> fs_ok d devs nbuf n dev {} (b # l) st' \<and> uerror (bst st') = uerror (bst st)
     \<and> (\<forall>dev' blk'. usable d devs dev' blk' \<longrightarrow> (dev', blk') \<noteq> (dev, b) \<longrightarrow> view d (bst st') dev' blk' = view d (bst st) dev' blk')
     \<and> (\<exists>st2 bp. balloc d env fenv n dev flags st' = Ok (st2, Some bp) \<and> b_blkno (ubuf bp st2) = b)"
proof -
  from free_spec [OF assms, of env fenv] obtain st' where s: "free d env fenv n dev b st = Ok st'" "fs_ok d devs nbuf n dev {} (b # l) st'"
    "same_but d devs {(dev, b)} (bst st) (bst st')" "uerror (bst st') = uerror (bst st)" by auto
  from alloc_write [OF s(2), of env fenv flags] have "\<exists>st2 bp. balloc d env fenv n dev flags st' = Ok (st2, Some bp) \<and> b_blkno (ubuf bp st2) = b" by blast
  with s show ?thesis by (auto simp: same_but_def)
qed

theorem free_pushes_witness:
  "\<exists>st'. free disk_fs (\<lambda>_ c. c) (\<lambda>_ st. st) 5 0 2 ufs_ex = Ok st' \<and> fs_ok disk_fs {0} 3 5 0 {} [2, 6, 5, 4, 3] st'"
  using free_pushes [OF ufs_ex_ok, of 2 "\<lambda>_ c. c" "\<lambda>_ st. st" 0] by (auto simp: ufs_ex_def fs_ex_def)

text \<open>
  C17. No block is in use twice. Whatever sequence of allocations and releases its users make, releasing only what they hold, the blocks
  in use and the blocks on the free list are disjoint and together always the same; the count in the super block is that of the free
  blocks; a block that \<open>balloc\<close> hands out is not in use.
\<close>

theorem blocks_never_shared:
  assumes "fs_inv d devs nbuf n dev all (st0, A0)" "(fs_step d env fenv n dev)\<^sup>*\<^sup>* (st0, A0) (st, A)"
  shows "\<exists>l. fs_ok d devs nbuf n dev {} l st \<and> A \<inter> set l = {} \<and> A \<union> set l = all \<and> fs_tfree (sb st) = int (length l)
    \<and> (\<forall>flags st' bp. balloc d env fenv n dev flags st = Ok (st', Some bp) \<longrightarrow> b_blkno (ubuf bp st') \<in> all - A)"
proof -
  have "fs_inv d devs nbuf n dev all (st, A)"
    using assms(2,1) by (induction rule: rtranclp_induct) (auto intro: fs_step_inv)
  then obtain l where l: "fs_ok d devs nbuf n dev {} l st" "A \<inter> set l = {}" "A \<union> set l = all" by (auto simp: fs_inv_def)
  have "b_blkno (ubuf bp st') \<in> all - A" if b: "balloc d env fenv n dev flags st = Ok (st', Some bp)" for flags st' bp
  proof (cases l)
    case Nil
    then show ?thesis using balloc_full [of d devs nbuf n dev "{}" st env fenv flags] l(1) b by auto
  next
    case (Cons x l')
    from alloc_write [OF l(1) [unfolded Cons], of env fenv flags] b have "b_blkno (ubuf bp st') = x" by auto
    then show ?thesis using l Cons by auto
  qed
  moreover have "fs_tfree (sb st) = int (length l)" using l(1) by (simp add: fs_ok_def fs_list_def Let_def)
  ultimately show ?thesis using l by blast
qed

theorem blocks_never_shared_witness:
  "\<exists>l. fs_ok disk_fs {0} 3 5 0 {} l ufs_ex \<and> {2, 7} \<inter> set l = {} \<and> {2, 7} \<union> set l = {2, 3, 4, 5, 6, 7}"
proof -
  have "fs_inv disk_fs {0} 3 5 0 {2, 3, 4, 5, 6, 7} (ufs_ex, {2, 7})"
    unfolding fs_inv_def using ufs_ex_ok by (auto simp: ufs_ex_def fs_ex_def intro!: exI [of _ "[6, 5, 4, 3]"])
  from blocks_never_shared [OF this rtranclp.rtrancl_refl, of "\<lambda>_ c. c" "\<lambda>_ st. st"] show ?thesis by blast
qed

end
