(* ===== verification/Ufs_Map.thy ===== *)
theory Ufs_Map
  imports Ufs_File Ufs_Props
begin

text \<open>
  The properties of the block map of a file.
\<close>

text \<open>What \<open>bmap\<close> has done for a write, block by block.\<close>

lemma mapped_file:
  assumes ok: "fs_ok d devs N n dev {} l st" and f: "file_ok (view d (bst st) dev) (i_addr ip)"
    and rng: "\<forall>b\<in>set (file_blocks (view d (bst st) dev) (i_addr ip)). fs_isize (sb st) \<le> b \<and> b < fs_fsize (sb st) \<and> b \<notin> set l"
    and bn: "place bn = Some (i, q)" and m: "mapped z d devs N n dev l st ip i q res"
  shows "\<exists>st' ip' r p l'. res = Ok (st', ip', r) \<and> l = p @ l' \<and> length p \<le> 4 \<and> fs_ok d devs N n dev {} l' st' \<and> uerror (bst st') = uerror (bst st)
     \<and> (\<exists>w\<in>{0, IUPD OR ICHG}. ip' = ip\<lparr>i_addr := i_addr ip', i_flag := i_flag ip OR w\<rparr>)
     \<and> fs_isize (sb st') = fs_isize (sb st) \<and> fs_fsize (sb st') = fs_fsize (sb st)
     \<and> file_ok (view d (bst st') dev) (i_addr ip') \<and> set (file_blocks (view d (bst st') dev) (i_addr ip')) = set (file_blocks (view d (bst st) dev) (i_addr ip)) \<union> set p
     \<and> r \<noteq> 0 \<and> file_map (view d (bst st') dev) (i_addr ip') bn = r
     \<and> (\<forall>bn'. bn' \<noteq> bn \<longrightarrow> file_map (view d (bst st') dev) (i_addr ip') bn' = file_map (view d (bst st) dev) (i_addr ip) bn')
     \<and> (if file_map (view d (bst st) dev) (i_addr ip) bn \<noteq> 0 then p = [] \<and> r = file_map (view d (bst st) dev) (i_addr ip) bn else r \<in> set p)
     \<and> (\<forall>bn'. file_map (view d (bst st) dev) (i_addr ip) bn' \<noteq> 0 \<longrightarrow>
         view d (bst st') dev (file_map (view d (bst st) dev) (i_addr ip) bn') = view d (bst st) dev (file_map (view d (bst st) dev) (i_addr ip) bn'))
     \<and> (z \<longrightarrow> file_map (view d (bst st) dev) (i_addr ip) bn = 0 \<longrightarrow> view d (bst st') dev r = replicate 256 0)
     \<and> same_but d devs ({(dev, SUPERB)} \<union> Pair dev ` (set (file_blocks (view d (bst st) dev) (i_addr ip)) \<union> set p)) (bst st) (bst st')"
proof -
  let ?V = "view d (bst st) dev" and ?ad = "i_addr ip"
  from m obtain st' ip' r p l' c where
    m: "res = Ok (st', ip', r)" "l = p @ l'" "fs_ok d devs N n dev {} l' st'" "uerror (bst st') = uerror (bst st)" "fs_isize (sb st') = fs_isize (sb st)" "fs_fsize (sb st') = fs_fsize (sb st)"
      "\<exists>w\<in>{0, IUPD OR ICHG}. ip' = ip\<lparr>i_addr := ?ad[i := c], i_flag := i_flag ip OR w\<rparr>" "rooted z (i - 3) ?V (view d (bst st') dev) q (?ad ! i) c p r"
      "same_but d devs ({(dev, SUPERB)} \<union> Pair dev ` (set (nodes (i - 3) ?V (?ad ! i)) \<union> set p)) (bst st) (bst st')" unfolding mapped_def by blast
  have ad: "i_addr ip' = ?ad[i := c]" using m(7) by auto
  let ?V' = "view d (bst st') dev"
  note pr = place_range [OF bn] and f' = f [unfolded file_ok_iff] and r' = m(8) [unfolded rooted_def] and o = ok [unfolded fs_ok_def fs_list_def Let_def]
  have P: "set p \<inter> set (file_blocks ?V ?ad) = {}" using rng m(2) by auto
  have same: "?V' x = ?V x" if "j < 7" "j \<noteq> i" "x \<in> set (nodes (j - 3) ?V (?ad ! j))" for j x
  proof -
    have x: "x \<in> set (file_blocks ?V ?ad)" using that unfolding file_blocks_set by blast
    then have "usable d devs dev x" "x \<noteq> SUPERB" "x \<notin> set p" using rng o P by fastforce+
    moreover have "x \<notin> set (nodes (i - 3) ?V (?ad ! i))" using f' that pr by blast
    ultimately show ?thesis using m(9) unfolding same_but_def by blast
  qed
  note u = file_update [OF f _ m(8) same P]
  have fo: "file_ok ?V' (i_addr ip')" "set (file_blocks ?V' (i_addr ip')) = set (file_blocks ?V ?ad) \<union> set p" using u(1,2) pr ad by auto
  have ci: "?ad[i := c] ! i = c" using f' pr by simp
  have fm: "file_map ?V ?ad bn = through (i - 3) ?V q (?ad ! i)" by (simp add: file_map_def bn)
  have at: "file_map ?V' (i_addr ip') bn = r" using r' bn ci by (simp add: file_map_def ad)
  have other: "file_map ?V' (i_addr ip') bn' = file_map ?V ?ad bn'" if ne: "bn' \<noteq> bn" for bn'
  proof (cases "place bn'")
    case None
    then show ?thesis by (simp add: file_map_def)
  next
    case (Some z)
    then obtain i' q' where z: "place bn' = Some (i', q')" by (cases z) auto
    note pr' = place_range [OF z]
    show ?thesis
    proof (cases "i' = i")
      case True
      then have "q' \<noteq> q" using place_inj [OF bn] z ne by auto
      then have "\<exists>m<i - 3. slot q' m \<noteq> slot q m" using digits_differ [of q' "i - 3" q] pr pr' True by blast
      then show ?thesis using r' z True ci by (simp add: file_map_def ad)
    next
      case False
      then show ?thesis using u(3) pr pr' z by (simp add: file_map_def ad)
    qed
  qed
  have "same_but d devs ({(dev, SUPERB)} \<union> Pair dev ` (set (file_blocks ?V ?ad) \<union> set p)) (bst st) (bst st')"
    by (rule same_but_mono [OF m(9)]) (use pr in \<open>auto simp: file_blocks_set\<close>)
  moreover have "if file_map ?V ?ad bn \<noteq> 0 then p = [] \<and> r = file_map ?V ?ad bn else r \<in> set p" unfolding fm using r' by simp
  moreover have "?V' (file_map ?V ?ad bn') = ?V (file_map ?V ?ad bn')" if nz: "file_map ?V ?ad bn' \<noteq> 0" for bn'
  proof -
    obtain i' q' where z: "place bn' = Some (i', q')" using nz by (auto simp: file_map_def split: option.splits)
    have fm': "file_map ?V ?ad bn' = through (i' - 3) ?V q' (?ad ! i')" by (simp add: file_map_def z)
    show ?thesis
    proof (cases "i' = i")
      case True
      then show ?thesis using r' nz unfolding fm' by blast
    next
      case False
      then show ?thesis using same [of i'] place_range [OF z] through_nodes nz unfolding fm' by blast
    qed
  qed
  moreover have "z \<longrightarrow> file_map ?V ?ad bn = 0 \<longrightarrow> ?V' r = replicate 256 0" unfolding fm using r' by blast
  moreover have "\<exists>w\<in>{0, IUPD OR ICHG}. ip' = ip\<lparr>i_addr := i_addr ip', i_flag := i_flag ip OR w\<rparr>" using m(7) by auto
  moreover have "length p \<le> 4" using r' pr by auto
  ultimately show ?thesis using m(1-6) fo at other r' by blast
qed

lemma place_none: "place bn = None \<longleftrightarrow> \<not> (0 \<le> bn \<and> bn < 4 + 256 + 256 ^ 2 + 256 ^ 3)"
  by (simp add: place_eq)

lemma bmap_too_big: "place bn = None \<Longrightarrow> \<exists>st'. bmap d env fenv n ip bn wr flags st = Ok (st', ip, 0) \<and> bst st' = (bst st)\<lparr>uerror := 27\<rparr> \<and> sb st' = sb st"
  by (auto simp: place_eq bmap_def bmap_level_eq Let_def split: if_splits)

section \<open>Properties\<close>

definition ino_ex :: inode where
  "ino_ex = \<lparr>i_flag = 0, i_count = 1, i_dev = 0, i_number = 3, i_fs = 0, i_shlockc = 0, i_exlockc = 0, i_addr = [7, 0, 0, 0, 0, 0, 0], i_mode = 0x8000, i_nlink = 1,
     i_uid = 0, i_gid = 0, i_size = 0, i_flags = 0, i_lastr = 0, i_atime = 0, i_mtime = 0, i_ctime = 0\<rparr>"

lemma ino_ex_blocks: "file_blocks V (i_addr ino_ex) = [7]"
  by (simp add: file_blocks_def ino_ex_def numeral_nat upt_rec)

lemma ino_ex_ok: "file_ok V (i_addr ino_ex)"
proof -
  have "i_addr ino_ex ! i = 0 \<or> i < 3" if "i < 7" for i
    using that by (auto simp: ino_ex_def nth_Cons' )
  then have "shaped (i - 3) V (i_addr ino_ex ! i)" if "i < 7" for i using that by (metis diff_is_0_eq less_imp_le shaped.simps(1) shaped_zero)
  then show ?thesis using ino_ex_blocks by (simp add: file_ok_def) (simp add: ino_ex_def)
qed

text \<open>
  C16. For a read, \<open>bmap\<close> computes the map of the file, through as many levels of indirect blocks as the number asks for: the block
  where the data is, or \<open>-1\<close> for a hole. It allocates nothing and changes no block. A number that no level of indirection reaches is
  refused with \<^verbatim>\<open>EFBIG\<close>.
\<close>

theorem bmap_reads_map:
  assumes "fs_ok d devs nbuf n dev {} l st" "i_dev ip = dev" "file_ok (view d (bst st) dev) (i_addr ip)"
    and "\<forall>b\<in>set (file_blocks (view d (bst st) dev) (i_addr ip)). usable d devs dev b"
  shows "if 0 \<le> bn \<and> bn < 4 + 256 + 256 ^ 2 + 256 ^ 3 then
      \<exists>st' r. bmap d env fenv n ip bn False flags st = Ok (st', ip, r) \<and> r = (let b = file_map (view d (bst st) dev) (i_addr ip) bn in if b = 0 then - 1 else b)
        \<and> fs_ok d devs nbuf n dev {} l st' \<and> (\<forall>dev' blk'. usable d devs dev' blk' \<longrightarrow> view d (bst st') dev' blk' = view d (bst st) dev' blk') \<and> uerror (bst st') = uerror (bst st)
    else \<exists>st'. bmap d env fenv n ip bn False flags st = Ok (st', ip, 0) \<and> bst st' = (bst st)\<lparr>uerror := 27\<rparr> \<and> sb st' = sb st"
proof (cases "place bn = None")
  case True
  then show ?thesis unfolding place_none using bmap_too_big [OF True] by (simp only: if_False)
next
  case False
  then have "0 \<le> bn \<and> bn < 4 + 256 + 256 ^ 2 + 256 ^ 3" by (simp only: place_none not_not)
  then show ?thesis using bmap_read_spec [OF assms False, of env fenv flags] by (auto simp: sees_def Let_def)
qed

theorem bmap_reads_map_witness:
  "(\<exists>st'. bmap disk_fs (\<lambda>_ c. c) (\<lambda>_ st. st) 5 ino_ex 0 False 0 ufs_ex = Ok (st', ino_ex, 7))
   \<and> (\<exists>st'. bmap disk_fs (\<lambda>_ c. c) (\<lambda>_ st. st) 5 ino_ex 300 False 0 ufs_ex = Ok (st', ino_ex, - 1))"
proof -
  have u: "\<forall>b\<in>set (file_blocks V (i_addr ino_ex)). usable disk_fs {0} 0 b" for V by (simp add: ino_ex_blocks disk_fs_ok)
  note w = bmap_reads_map [OF ufs_ex_ok _ ino_ex_ok u, of _ "\<lambda>_ c. c" "\<lambda>_ st. st" 0]
  have "file_map V (i_addr ino_ex) 0 = 7" "file_map V (i_addr ino_ex) 300 = 0" for V by (simp_all add: file_map_def place_eq ino_ex_def)
  then show ?thesis using w [of 0] w [of 300] by (auto simp: ino_ex_def)
qed

text \<open>
  C15. For a write, \<open>bmap\<close> extends the map of the file at the block asked for and nowhere else. Where the file has the block, it is
  returned and nothing is allocated; where it has none, the block and the indirect blocks that lead to it are the next ones of the free
  list. Afterwards the file has the block returned at that place, all its other places are as they were, no block is reached twice or is
  still free, and no block outside this file, the super block apart, has changed.
\<close>

theorem bmap_extends_map:
  assumes "fs_ok d devs nbuf n dev {} l st" "1 < nbuf" "4 \<le> length l" "i_dev ip = dev" "file_ok (view d (bst st) dev) (i_addr ip)"
    and "\<forall>b\<in>set (file_blocks (view d (bst st) dev) (i_addr ip)). fs_isize (sb st) \<le> b \<and> b < fs_fsize (sb st) \<and> b \<notin> set l"
    and "0 \<le> bn" "bn < 4 + 256 + 256 ^ 2 + 256 ^ 3"
  shows "\<exists>st' ip' r p l'. bmap d env fenv n ip bn True flags st = Ok (st', ip', r) \<and> uerror (bst st') = uerror (bst st)
     \<and> l = p @ l' \<and> fs_ok d devs nbuf n dev {} l' st'
     \<and> (let old = file_map (view d (bst st) dev) (i_addr ip); new = file_map (view d (bst st') dev) (i_addr ip')
        in new = old(bn := r) \<and> (if old bn = 0 then r \<in> set p else r = old bn \<and> p = []))
     \<and> file_ok (view d (bst st') dev) (i_addr ip') \<and> set (file_blocks (view d (bst st') dev) (i_addr ip')) \<inter> set l' = {}
     \<and> (\<forall>dev' blk'. usable d devs dev' blk' \<longrightarrow> (dev', blk') \<notin> insert (dev, SUPERB) (Pair dev ` (set (file_blocks (view d (bst st) dev) (i_addr ip)) \<union> set p)) \<longrightarrow>
          view d (bst st') dev' blk' = view d (bst st) dev' blk')"
proof -
  obtain i q where pl: "place bn = Some (i, q)" using assms(7,8) place_none [of bn] by auto
  from mapped_file [OF assms(1,5,6) pl bmap_write_spec [OF assms(2,1,4-6) pl assms(3), of flags env fenv]] obtain st' ip' r p l' where
    m: "bmap d env fenv n ip bn True flags st = Ok (st', ip', r)" "l = p @ l'" "fs_ok d devs nbuf n dev {} l' st'" "uerror (bst st') = uerror (bst st)"
      "file_ok (view d (bst st') dev) (i_addr ip')" "set (file_blocks (view d (bst st') dev) (i_addr ip')) = set (file_blocks (view d (bst st) dev) (i_addr ip)) \<union> set p"
      "file_map (view d (bst st') dev) (i_addr ip') bn = r"
      "\<forall>bn'. bn' \<noteq> bn \<longrightarrow> file_map (view d (bst st') dev) (i_addr ip') bn' = file_map (view d (bst st) dev) (i_addr ip) bn'"
      "if file_map (view d (bst st) dev) (i_addr ip) bn \<noteq> 0 then p = [] \<and> r = file_map (view d (bst st) dev) (i_addr ip) bn else r \<in> set p"
      "same_but d devs ({(dev, SUPERB)} \<union> Pair dev ` (set (file_blocks (view d (bst st) dev) (i_addr ip)) \<union> set p)) (bst st) (bst st')" by blast
  have "distinct l" using assms(1) by (simp add: fs_ok_def fs_list_def Let_def)
  then have "set (file_blocks (view d (bst st') dev) (i_addr ip')) \<inter> set l' = {}" using m(2,6) assms(6) by fastforce
  moreover have "file_map (view d (bst st') dev) (i_addr ip') = (file_map (view d (bst st) dev) (i_addr ip))(bn := r)" using m(7,8) by (auto simp: fun_eq_iff)
  ultimately show ?thesis using m(1-5,9) m(10) [unfolded same_but_def] unfolding Let_def
    by (intro exI conjI) (assumption | simp split: if_splits)+
qed

theorem bmap_extends_map_witness:
  "\<exists>st' ip' r. bmap disk_fs (\<lambda>_ c. c) (\<lambda>_ st. st) 5 ino_ex 4 True 0 ufs_ex = Ok (st', ip', r) \<and> r \<in> {3, 4, 5, 6}
     \<and> file_map (view disk_fs (bst st') 0) (i_addr ip') 4 = r \<and> file_map (view disk_fs (bst st') 0) (i_addr ip') 0 = 7"
proof -
  have s: "sb ufs_ex = fs_ex" "fs_isize fs_ex = 2" "fs_fsize fs_ex = 8" "i_dev ino_ex = 0" by (simp_all add: ufs_ex_def fs_ex_def ino_ex_def)
  have b: "\<forall>b\<in>set (file_blocks V (i_addr ino_ex)). fs_isize (sb ufs_ex) \<le> b \<and> b < fs_fsize (sb ufs_ex) \<and> b \<notin> set [6, 5, 4, 3]" for V by (simp add: ino_ex_blocks s)
  have m: "file_map V (i_addr ino_ex) 0 = 7" "file_map V (i_addr ino_ex) 4 = 0" for V by (simp_all add: file_map_def place_eq ino_ex_def)
  from bmap_extends_map [OF ufs_ex_ok _ _ s(4) ino_ex_ok b, of 4 "\<lambda>_ c. c" "\<lambda>_ st. st" 0] obtain st' ip' r p l' where
    w: "bmap disk_fs (\<lambda>_ c. c) (\<lambda>_ st. st) 5 ino_ex 4 True 0 ufs_ex = Ok (st', ip', r)" "[6, 5, 4, 3] = p @ l'" "r \<in> set p"
      "file_map (view disk_fs (bst st') 0) (i_addr ip') = (file_map (view disk_fs (bst ufs_ex) 0) (i_addr ino_ex))(4 := r)" unfolding Let_def m by auto
  have "set p \<subseteq> set [6, 5, 4, 3]" unfolding w(2) by simp
  then show ?thesis using w(1,3,4) m by auto
qed

text \<open>
  C19. \<open>bmap\<close> takes a residual count that some earlier transfer has left in the buffer for a read that failed. Where an indirect block
  is read into such a buffer, though the read has succeeded, \<open>bmap\<close> returns block 0, the super block, and the process sees no error: for
  \<open>rwip\<close>, which tests only for an error and for a negative number, this is where the data of the file is.
\<close>

theorem bmap_stale_residue:
  assumes "cache_ok d devs nbuf n {} (bst st)" "usable d devs (i_dev ip) (i_addr ip ! 4)" "i_addr ip ! 4 \<noteq> 0" "4 \<le> bn" "bn < 260"
    and "bread d env n (i_dev ip) (i_addr ip ! 4) (bst st) = Ok (c, b)" "b_resid (bufs (bst st) b) \<noteq> 0"
  shows "b_flags (bufs c b) AND B_ERROR = 0 \<and> b_data (bufs c b) = view d (bst st) (i_dev ip) (i_addr ip ! 4)
    \<and> (\<exists>st'. bmap d env fenv n ip bn wr flags st = Ok (st', ip, SUPERB) \<and> uerror (bst st') = uerror (bst st))"
proof -
  from read_use [OF assms(1,2) not_held_empty, of env] assms(6) have r: "binv d devs nbuf (insert b {}) c" "follows d devs {} (bst st) c" "got d (i_dev ip) (i_addr ip ! 4) b c"
    "b_data (bufs c b) = view d (bst st) (i_dev ip) (i_addr ip ! 4)" "b_resid (bufs c b) = b_resid (bufs (bst st) b)" by auto
  have e: "b_flags (bufs c b) AND B_ERROR = 0" using r(3) by (auto simp: got_def Let_def bflag_bits)
  have c: "uerror (brelse b c) = uerror (bst st)" using follows_trans [OF r(2) release_use(3) [OF r(1) _ r(3)]] by (simp add: follows_def calm_def)
  have "bmap d env fenv n ip bn wr flags st = Ok (in_cache (brelse b) (st\<lparr>bst := c, rablock := 0\<rparr>), ip, 0)"
    using assms(3-7) r(5) by (simp add: bmap_def Let_def bmap_level_eq bmap_step_def with_buf_def ubuf_def in_cache_def)
  then show ?thesis using e r(4) c by simp
qed

theorem bmap_stale_residue_witness:
  "\<exists>st'. bmap disk_fs (\<lambda>_ c. c) (\<lambda>_ st. st) 5 (ino_ex\<lparr>i_addr := [7, 0, 0, 0, 2, 0, 0]\<rparr>) 4 True 0
      (ufs_ex\<lparr>bst := binit 3 (bhinit (bio_ex\<lparr>bufs := \<lambda>b. (bufs bio_ex b)\<lparr>b_resid := 512\<rparr>\<rparr>))\<rparr>) = Ok (st', ino_ex\<lparr>i_addr := [7, 0, 0, 0, 2, 0, 0]\<rparr>, 0)
    \<and> uerror (bst st') = 0"
proof -
  let ?c = "bio_ex\<lparr>bufs := \<lambda>b. (bufs bio_ex b)\<lparr>b_resid := 512\<rparr>\<rparr>" and ?ip = "ino_ex\<lparr>i_addr := [7, 0, 0, 0, 2, 0, 0]\<rparr>"
  have "binv disk_fs {0} 3 {} (binit 3 (bhinit ?c))" by (rule binit_inv) (simp_all add: bio_ex_def)
  moreover have "\<exists>c<3. c \<notin> ({} :: nat set)" by (rule exI [of _ 0]) simp
  ultimately have c: "cache_ok disk_fs {0} 3 5 {} (bst (ufs_ex\<lparr>bst := binit 3 (bhinit ?c)\<rparr>))" using disk_fs_ok(2) by (simp add: cache_ok_def)
  have r: "b_resid (bufs (binit 3 (bhinit ?c)) b) = 512" "uerror (binit 3 (bhinit ?c)) = 0" for b
    by (simp_all add: binit_def binit_loop_resid binit_loop_uerror bhinit_def bio_ex_def)
  have u: "usable disk_fs {0} (i_dev ?ip) (i_addr ?ip ! 4)" by (simp add: disk_fs_ok ino_ex_def)
  from read_use [OF c u, of "\<lambda>_ c. c"] obtain c1 b where "bread disk_fs (\<lambda>_ c. c) 5 (i_dev ?ip) (i_addr ?ip ! 4) (bst (ufs_ex\<lparr>bst := binit 3 (bhinit ?c)\<rparr>)) = Ok (c1, b)" by auto
  from bmap_stale_residue [OF c u _ _ _ this, of 4 "\<lambda>_ st. st" True 0] r show ?thesis by simp
qed

end
