(* ===== verification/Ufs_Leaf.thy ===== *)
theory Ufs_Leaf
  imports Ufs_File
begin

text \<open>
  The blocks of data of a file. No two places share one, and what they hold does not matter for the map.
\<close>

section \<open>One tree\<close>

primrec inner :: "nat \<Rightarrow> (int \<Rightarrow> block) \<Rightarrow> int \<Rightarrow> int set" where
  "inner 0 V nb = {}"
| "inner (Suc k) V nb = (if nb = 0 then {} else insert nb (\<Union>i<256. inner k V (ptr V nb i)))"

lemma inner_nodes: "inner k V nb \<subseteq> set (nodes k V nb)"
proof (induction k arbitrary: nb)
  case (Suc k)
  then show ?case by (cases "nb = 0") (auto simp: nodes_Suc)
qed simp

lemma inner_frame:
  "\<forall>b\<in>inner k V nb. V' b = V b \<Longrightarrow> nodes k V' nb = nodes k V nb \<and> (\<forall>bn. through k V' bn nb = through k V bn nb) \<and> shaped k V' nb = shaped k V nb"
proof (induction k arbitrary: nb)
  case (Suc k)
  show ?case
  proof (cases "nb = 0")
    case False
    then have p: "V' nb = V nb" "ptr V' nb = ptr V nb" using Suc.prems by (auto simp: ptr_def fun_eq_iff)
    have "nodes k V' (ptr V nb i) = nodes k V (ptr V nb i) \<and> (\<forall>bn. through k V' bn (ptr V nb i) = through k V bn (ptr V nb i)) \<and> shaped k V' (ptr V nb i) = shaped k V (ptr V nb i)" if "i < 256" for i
      by (rule Suc.IH) (use Suc.prems False that in auto)
    then show ?thesis using p False slot_less by (auto simp: nodes.simps(2) through.simps(2) shaped.simps(2) intro!: arg_cong [of _ _ concat])
  qed simp
qed simp

lemma leaf_not_inner: "tree_ok k V nb \<Longrightarrow> through k V bn nb \<noteq> 0 \<Longrightarrow> through k V bn nb \<notin> inner k V nb"
proof (induction k arbitrary: nb)
  case (Suc k)
  have nb: "nb \<noteq> 0" using Suc.prems(2) by auto
  let ?c = "ptr V nb (slot bn k)"
  note t = Suc.prems(1) [unfolded tree_ok_Suc [OF nb]] and i = slot_less [of bn k]
  have th: "through (Suc k) V bn nb = through k V bn ?c" using nb by (simp add: through.simps(2))
  have x: "through k V bn ?c \<in> set (nodes k V ?c)" using through_nodes Suc.prems(2) th by metis
  have "through k V bn ?c \<notin> inner k V ?c" using Suc.IH [of ?c] t i Suc.prems(2) th by auto
  moreover have "through k V bn ?c \<noteq> nb" using x t i by metis
  moreover have "through k V bn ?c \<notin> inner k V (ptr V nb j)" if "j < 256" "j \<noteq> slot bn k" for j
    using x t i that inner_nodes [of k V "ptr V nb j"] by blast
  ultimately show ?case using nb unfolding th by auto
qed simp

lemma leaf_inj: "tree_ok k V nb \<Longrightarrow> through k V bn nb \<noteq> 0 \<Longrightarrow> through k V bn nb = through k V bn' nb \<Longrightarrow> m < k \<Longrightarrow> slot bn m = slot bn' m"
proof (induction k arbitrary: nb)
  case (Suc k)
  have nb: "nb \<noteq> 0" using Suc.prems(2) by auto
  note t = Suc.prems(1) [unfolded tree_ok_Suc [OF nb]]
  have th: "through (Suc k) V q nb = through k V q (ptr V nb (slot q k))" for q using nb by (simp add: through.simps(2))
  have x: "through k V q (ptr V nb (slot q k)) \<in> set (nodes k V (ptr V nb (slot q k)))" if "through (Suc k) V q nb \<noteq> 0" for q
    using through_nodes that th by metis
  have sl: "slot bn k = slot bn' k" using x [OF Suc.prems(2)] x [of bn'] Suc.prems(2,3) t slot_less unfolding th by (metis disjoint_iff)
  show ?case
  proof (cases "m = k")
    case False
    then have "m < k" using Suc.prems(4) by simp
    then show ?thesis using Suc.IH [of "ptr V nb (slot bn k)"] Suc.prems(2,3) t slot_less sl unfolding th by metis
  qed (simp add: sl)
qed simp

section \<open>The file\<close>

lemma file_map_inj:
  assumes f: "file_ok V ad" and nz: "file_map V ad x \<noteq> 0" and eq: "file_map V ad x = file_map V ad y"
  shows "x = y"
proof -
  obtain i q where px: "place x = Some (i, q)" using nz by (auto simp: file_map_def split: option.splits)
  obtain j s where py: "place y = Some (j, s)" using nz eq by (auto simp: file_map_def split: option.splits)
  note f' = f [unfolded file_ok_iff] and rx = place_range [OF px] and ry = place_range [OF py]
  have fx: "file_map V ad x = through (i - 3) V q (ad ! i)" "file_map V ad y = through (j - 3) V s (ad ! j)" by (simp_all add: file_map_def px py)
  have "file_map V ad x \<in> set (nodes (i - 3) V (ad ! i))" "file_map V ad y \<in> set (nodes (j - 3) V (ad ! j))"
    using through_nodes nz eq fx by metis+
  then have ij: "i = j" using f' rx ry eq by (metis disjoint_iff)
  have "slot q m = slot s m" if "m < i - 3" for m using leaf_inj [OF _ _ _ that, of V "ad ! i" q s] f' rx nz eq fx ij by auto
  then have "q = s" using digits_differ [of q "i - 3" s] rx ry ij by blast
  then show ?thesis using place_inj px py ij by blast
qed

lemma file_map_in: "file_map V ad x \<noteq> 0 \<Longrightarrow> file_map V ad x \<in> set (file_blocks V ad)"
proof -
  assume nz: "file_map V ad x \<noteq> 0"
  then obtain i q where px: "place x = Some (i, q)" by (auto simp: file_map_def split: option.splits)
  then show ?thesis using nz through_nodes [of "i - 3" V q "ad ! i"] place_range [OF px] by (auto simp: file_map_def file_blocks_set)
qed

lemma file_inner:
  assumes V: "\<And>j b. j < 7 \<Longrightarrow> b \<in> inner (j - 3) V (ad ! j) \<Longrightarrow> V' b = V b"
  shows "file_ok V' ad = file_ok V ad" "file_blocks V' ad = file_blocks V ad" "file_map V' ad = file_map V ad"
proof -
  have fr: "nodes (j - 3) V' (ad ! j) = nodes (j - 3) V (ad ! j) \<and> (\<forall>bn. through (j - 3) V' bn (ad ! j) = through (j - 3) V bn (ad ! j)) \<and> shaped (j - 3) V' (ad ! j) = shaped (j - 3) V (ad ! j)"
    if "j < 7" for j using V that by (intro inner_frame) blast
  show fb: "file_blocks V' ad = file_blocks V ad" unfolding file_blocks_def by (intro arg_cong [of _ _ concat] map_cong refl) (use fr in auto)
  show "file_ok V' ad = file_ok V ad" using fr unfolding file_ok_def fb by auto
  show "file_map V' ad = file_map V ad"
  proof
    fix y show "file_map V' ad y = file_map V ad y"
    proof (cases "place y")
      case (Some z)
      then obtain j s where z: "place y = Some (j, s)" by (cases z) auto
      then show ?thesis using fr place_range [OF z] by (simp add: file_map_def)
    qed (simp add: file_map_def)
  qed
qed

lemma file_leaf:
  assumes f: "file_ok V ad" and nz: "file_map V ad bn \<noteq> 0" and V: "\<And>b. b \<in> set (file_blocks V ad) \<Longrightarrow> b \<noteq> file_map V ad bn \<Longrightarrow> V' b = V b"
  shows "file_ok V' ad" "file_blocks V' ad = file_blocks V ad" "file_map V' ad = file_map V ad"
proof -
  obtain i q where px: "place bn = Some (i, q)" using nz by (auto simp: file_map_def split: option.splits)
  note f' = f [unfolded file_ok_iff] and rx = place_range [OF px]
  have fx: "file_map V ad bn = through (i - 3) V q (ad ! i)" by (simp add: file_map_def px)
  have lf: "file_map V ad bn \<in> set (nodes (i - 3) V (ad ! i))" using through_nodes nz fx by metis
  have "V' b = V b" if "j < 7" "b \<in> inner (j - 3) V (ad ! j)" for j b
  proof -
    have bn: "b \<in> set (nodes (j - 3) V (ad ! j))" using inner_nodes that(2) by blast
    then have "b \<in> set (file_blocks V ad)" using that(1) by (auto simp: file_blocks_set)
    moreover have "b \<noteq> file_map V ad bn"
    proof (cases "j = i")
      case True
      then show ?thesis using leaf_not_inner [of "i - 3" V "ad ! i" q] f' rx nz fx that(2) by auto
    next
      case False
      then show ?thesis using f' that(1) rx lf bn by blast
    qed
    ultimately show ?thesis by (rule V)
  qed
  note fi = file_inner [of V ad V', OF this]
  show "file_ok V' ad" "file_blocks V' ad = file_blocks V ad" "file_map V' ad = file_map V ad" using fi f by simp_all
qed

lemma file_frame:
  assumes "\<And>b. b \<in> set (file_blocks V ad) \<Longrightarrow> V' b = V b"
  shows "file_ok V' ad = file_ok V ad" "file_blocks V' ad = file_blocks V ad" "file_map V' ad = file_map V ad"
proof -
  have "V' b = V b" if "j < 7" "b \<in> inner (j - 3) V (ad ! j)" for j b
    using assms that inner_nodes [of "j - 3" V "ad ! j"] unfolding file_blocks_set by blast
  note fi = file_inner [of V ad V', OF this]
  show "file_ok V' ad = file_ok V ad" "file_blocks V' ad = file_blocks V ad" "file_map V' ad = file_map V ad" using fi by simp_all
qed

end
