(* ===== verification/Ufs_Inode.thy ===== *)
theory Ufs_Inode
  imports Ufs Uio
begin

text \<open>
  Updating and truncating an inode, from \<^verbatim>\<open>sys/kern/ufs_inode.c\<close>. The inode is passed along with the file system's state. The checks under \<^verbatim>\<open>DIAGNOSTIC\<close> are left out.
\<close>

section \<open>Bytes of a block\<close>

definition block_mem :: "block \<Rightarrow> mem" where
  "block_mem x = store_words (\<lambda>_. 0) 0 x"

definition mem_block :: "mem \<Rightarrow> block" where
  "mem_block m = load_words m 0 256"

text \<open>\<^verbatim>\<open>lblkno\<close> and \<^verbatim>\<open>blkoff\<close>.\<close>

definition lblkno :: "int \<Rightarrow> int" where
  "lblkno x = x mod 2 ^ 32 div 1024"

definition blkoff :: "int \<Rightarrow> nat" where
  "blkoff x = nat (x mod 1024)"

section \<open>Inodes on the card\<close>

abbreviation (input) IPIPE :: "32 word" where "IPIPE \<equiv> 0x1000"
abbreviation (input) EIO :: int where "EIO \<equiv> 5"
abbreviation (input) IO_UNIT :: "32 word" where "IO_UNIT \<equiv> 1"
abbreviation (input) IO_APPEND :: "32 word" where "IO_APPEND \<equiv> 2"
abbreviation (input) IO_SYNC :: "32 word" where "IO_SYNC \<equiv> 4"

definition itod :: "nat \<Rightarrow> int" where
  "itod ino = (int ino + 15) div 16"

definition itoo :: "nat \<Rightarrow> nat" where
  "itoo ino = (ino + 15) mod 16"

text \<open>The words of a \<^verbatim>\<open>struct dinode\<close>; the reserved one, between the addresses and the flags, is not written.\<close>

definition put_dinode :: "inode \<Rightarrow> block \<Rightarrow> block" where
  "put_dinode ip x =
     (let o1 = 16 * itoo (i_number ip)
      in take o1 x
         @ (((i_mode ip AND 0xffff) OR push_bit 16 (of_nat (i_nlink ip))) # i_uid ip # i_gid ip # word_of_int (i_size ip) # map word_of_int (i_addr ip))
         @ (x ! (o1 + 11)) # i_flags ip # map word_of_int [i_atime ip, i_mtime ip, i_ctime ip] @ drop (o1 + 16) x)"

definition iupdat :: "sdisk \<Rightarrow> (nat \<Rightarrow> bio \<Rightarrow> bio) \<Rightarrow> nat \<Rightarrow> inode \<Rightarrow> bool \<Rightarrow> ufs \<Rightarrow> (ufs \<times> inode) cres" where
  "iupdat d env n ip waitfor st =
     (if i_flag ip AND (IUPD OR IACC OR ICHG OR IMOD) = 0 then Ok (st, ip)
      else if fs_ronly (sb st) \<noteq> 0 then Ok (st, ip)
      else bind_cres (with_buf (bread d env n (i_dev ip) (itod (i_number ip))) st) (\<lambda>(st, b).
        if b_flags (ubuf b st) AND B_ERROR \<noteq> 0 then Ok (in_cache (brelse b) st, ip)
        else
          let ip = (if i_flag ip AND IACC \<noteq> 0 then ip\<lparr>i_atime := now st\<rparr> else ip);
              ip = (if i_flag ip AND IUPD \<noteq> 0 then ip\<lparr>i_mtime := now st\<rparr> else ip);
              ip = (if i_flag ip AND ICHG \<noteq> 0 then ip\<lparr>i_ctime := now st\<rparr> else ip);
              ip = ip\<lparr>i_flag := i_flag ip AND NOT (IUPD OR IACC OR ICHG OR IMOD)\<rparr>;
              st = in_cache (upd_buf b (\<lambda>p. p\<lparr>b_data := put_dinode ip (b_data p)\<rparr>)) st
          in bind_cres (if waitfor \<and> fs_flags (sb st) AND MNT_ASYNC = 0 then with_cache (bwrite d env n b) st else Ok (in_cache (bdwrite b) st))
               (\<lambda>st. Ok (st, ip))))"

section \<open>Truncation\<close>

text \<open>
  The entries of the block in buffer \<open>bp\<close> behind \<open>last\<close>, the last of them first: the loops of \<^verbatim>\<open>trsingle\<close> and of \<open>indirtrunc\<close>. The
  third argument counts down.
\<close>

fun each_entry :: "(int \<Rightarrow> ufs \<Rightarrow> ufs cres) \<Rightarrow> nat \<Rightarrow> int \<Rightarrow> nat \<Rightarrow> ufs \<Rightarrow> ufs cres" where
  "each_entry f bp last1 0 st = Ok st"
| "each_entry f bp last1 (Suc i) st =
     (if int i > last1 then
        let nb = sint (b_data (ubuf bp st) ! i)
        in bind_cres (if nb \<noteq> 0 then f nb st else Ok st) (each_entry f bp last1 i)
      else Ok st)"

definition trsingle :: "sdisk \<Rightarrow> (nat \<Rightarrow> bio \<Rightarrow> bio) \<Rightarrow> (nat \<Rightarrow> ufs \<Rightarrow> ufs) \<Rightarrow> nat \<Rightarrow> int \<Rightarrow> nat \<Rightarrow> int \<Rightarrow> ufs \<Rightarrow> ufs cres" where
  "trsingle d env fenv n dev bp last1 st = each_entry (free d env fenv n dev) bp last1 256 st"

text \<open>The entries to be freed are cleared in the block on the card, a copy of it is kept in an empty buffer.\<close>

definition indir_copy :: "sdisk \<Rightarrow> (nat \<Rightarrow> bio \<Rightarrow> bio) \<Rightarrow> nat \<Rightarrow> int \<Rightarrow> 32 word \<Rightarrow> int \<Rightarrow> int \<Rightarrow> ufs \<Rightarrow> (ufs \<times> nat option) cres" where
  "indir_copy d env n dev aflags bn last1 st =
     bind_cres (with_buf (bread d env n dev bn) st) (\<lambda>(st, bp).
       if b_flags (ubuf bp st) AND B_ERROR \<noteq> 0 then Ok (in_cache (brelse bp) st, None)
       else bind_cres (with_buf (geteblk d env n) st) (\<lambda>(st, cpy).
         let st = in_cache (upd_buf cpy (\<lambda>p. p\<lparr>b_data := b_data (ubuf bp st)\<rparr>)) st;
             st = in_cache (upd_buf bp (\<lambda>p. p\<lparr>b_data := take (nat (last1 + 1)) (b_data p) @ replicate (256 - nat (last1 + 1)) 0\<rparr>)) st
         in bind_cres (with_cache (if aflags AND B_SYNC \<noteq> 0 then bwrite d env n bp else bawrite d env n bp) st) (\<lambda>st. Ok (st, Some cpy))))"

primrec indirtrunc :: "nat \<Rightarrow> sdisk \<Rightarrow> (nat \<Rightarrow> bio \<Rightarrow> bio) \<Rightarrow> (nat \<Rightarrow> ufs \<Rightarrow> ufs) \<Rightarrow> nat \<Rightarrow> int \<Rightarrow> 32 word \<Rightarrow> int \<Rightarrow> int \<Rightarrow> ufs \<Rightarrow> ufs cres" where
  "indirtrunc 0 d env fenv n dev aflags bn lastbn st =
     bind_cres (indir_copy d env n dev aflags bn lastbn st) (\<lambda>(st, r).
       case r of
         None \<Rightarrow> Ok st
       | Some bp \<Rightarrow> bind_cres (trsingle d env fenv n dev bp lastbn st) (\<lambda>st. Ok (in_cache (brelse bp) st)))"
| "indirtrunc (Suc level) d env fenv n dev aflags bn lastbn st =
     (let factor = 256 ^ Suc level; last1 = (if lastbn > 0 then lastbn div factor else lastbn)
      in bind_cres (indir_copy d env n dev aflags bn last1 st) (\<lambda>(st, r).
           case r of
             None \<Rightarrow> Ok st
           | Some bp \<Rightarrow>
               bind_cres (each_entry (\<lambda>nb st. bind_cres (indirtrunc level d env fenv n dev aflags nb (- 1) st) (free d env fenv n dev nb)) bp last1 256 st) (\<lambda>st.
                 bind_cres
                   (if lastbn \<ge> 0 then
                      let nb = sint (b_data (ubuf bp st) ! nat last1)
                      in if nb \<noteq> 0 then indirtrunc level d env fenv n dev aflags nb (lastbn mod factor) st else Ok st
                    else Ok st)
                   (\<lambda>st. Ok (in_cache (brelse bp) st)))))"

text \<open>The trees of the file, the highest first, down to the first of which something stays; then the direct blocks.\<close>

fun itrunc_levels :: "sdisk \<Rightarrow> (nat \<Rightarrow> bio \<Rightarrow> bio) \<Rightarrow> (nat \<Rightarrow> ufs \<Rightarrow> ufs) \<Rightarrow> nat \<Rightarrow> 32 word \<Rightarrow> (nat \<Rightarrow> int) \<Rightarrow> nat \<Rightarrow> inode \<Rightarrow> ufs \<Rightarrow> (ufs \<times> bool) cres" where
  "itrunc_levels d env fenv n aflags lastiblock 0 ip st = Ok (st, True)"
| "itrunc_levels d env fenv n aflags lastiblock (Suc level) ip st =
     (let bn = i_addr ip ! (4 + level)
      in bind_cres
           (if bn \<noteq> 0 then
              bind_cres (indirtrunc level d env fenv n (i_dev ip) aflags bn (lastiblock level) st) (\<lambda>st.
                if lastiblock level < 0 then free d env fenv n (i_dev ip) bn st else Ok st)
            else Ok st)
           (\<lambda>st. if lastiblock level \<ge> 0 then Ok (st, False) else itrunc_levels d env fenv n aflags lastiblock level ip st))"

fun itrunc_direct :: "sdisk \<Rightarrow> (nat \<Rightarrow> bio \<Rightarrow> bio) \<Rightarrow> (nat \<Rightarrow> ufs \<Rightarrow> ufs) \<Rightarrow> nat \<Rightarrow> int \<Rightarrow> nat \<Rightarrow> inode \<Rightarrow> ufs \<Rightarrow> ufs cres" where
  "itrunc_direct d env fenv n lastblock 0 ip st = Ok st"
| "itrunc_direct d env fenv n lastblock (Suc i) ip st =
     (if int i > lastblock then
        bind_cres (if i_addr ip ! i \<noteq> 0 then free d env fenv n (i_dev ip) (i_addr ip ! i) st else Ok st) (itrunc_direct d env fenv n lastblock i ip)
      else Ok st)"

text \<open>The blocks behind the new end are taken out of the inode first.\<close>

definition itrunc_cut :: "int \<Rightarrow> (nat \<Rightarrow> int) \<Rightarrow> int list \<Rightarrow> int list" where
  "itrunc_cut lastblock lastiblock ad =
     map (\<lambda>i. if i < 4 then (if int i > lastblock then 0 else ad ! i) else if lastiblock (i - 4) < 0 then 0 else ad ! i) [0..<7]"

definition itrunc_free :: "sdisk \<Rightarrow> (nat \<Rightarrow> bio \<Rightarrow> bio) \<Rightarrow> (nat \<Rightarrow> ufs \<Rightarrow> ufs) \<Rightarrow> nat \<Rightarrow> inode \<Rightarrow> int \<Rightarrow> 32 word \<Rightarrow> ufs \<Rightarrow> (ufs \<times> inode) cres" where
  "itrunc_free d env fenv n oip len aflags st =
     (let lastblock = lblkno (len + 1023) - 1;
          lasti = (\<lambda>level. if level = 0 then lastblock - 4 else if level = 1 then lastblock - 4 - 256 else lastblock - 4 - 256 - 65536);
          lastiblock = (\<lambda>level. if lasti level < 0 then - 1 else lasti level);
          tip = oip; oip = oip\<lparr>i_size := sint (word_of_int len :: 32 word), i_addr := itrunc_cut lastblock lastiblock (i_addr oip)\<rparr>
      in bind_cres (itrunc_levels d env fenv n aflags lastiblock 3 tip st) (\<lambda>(st, dir).
           bind_cres (if dir then itrunc_direct d env fenv n lastblock 4 tip st else Ok st) (\<lambda>st. Ok (st, oip))))"

definition itrunc :: "sdisk \<Rightarrow> (nat \<Rightarrow> bio \<Rightarrow> bio) \<Rightarrow> (nat \<Rightarrow> ufs \<Rightarrow> ufs) \<Rightarrow> nat \<Rightarrow> inode \<Rightarrow> int \<Rightarrow> 32 word \<Rightarrow> ufs \<Rightarrow> (ufs \<times> inode) cres" where
  "itrunc d env fenv n oip len ioflags st =
     (let aflags = (if ioflags AND IO_SYNC \<noteq> 0 then B_CLRBUF OR B_SYNC else B_CLRBUF);
          updret = (\<lambda>(st, oip). iupdat d env n (oip\<lparr>i_flag := i_flag oip OR (ICHG OR IUPD)\<rparr>) True st);
          pipe = i_flag oip AND IPIPE \<noteq> 0;
          oip = (if pipe then oip\<lparr>i_size := 4 * 1024\<rparr> else oip)
      in if \<not> pipe \<and> i_size oip mod 2 ^ 32 = len then updret (st, oip)
         else if i_size oip mod 2 ^ 32 < len then
           bind_cres (bmap d env fenv n oip (lblkno (len - 1)) True aflags st) (\<lambda>(st, oip, bn).
             if uerror (bst st) \<noteq> 0 \<or> bn < 0 then Ok (st, oip) else updret (st, oip\<lparr>i_size := sint (word_of_int len :: 32 word)\<rparr>))
         else if blkoff len \<noteq> 0 then
           bind_cres (bmap d env fenv n oip (lblkno len) True aflags st) (\<lambda>(st, oip, bn).
             if uerror (bst st) \<noteq> 0 \<or> bn < 0 then Ok (st, oip)
             else bind_cres (with_buf (bread d env n (i_dev oip) bn) st) (\<lambda>(st, bp).
               if b_flags (ubuf bp st) AND B_ERROR \<noteq> 0 then Ok (in_cache (\<lambda>c. brelse bp (c\<lparr>uerror := EIO\<rparr>)) st, oip)
               else
                 let st = in_cache (upd_buf bp (\<lambda>p. p\<lparr>b_data := mem_block (\<lambda>a. if blkoff len \<le> a \<and> a < 1024 then 0 else block_mem (b_data p) a)\<rparr>)) st
                 in bind_cres (itrunc_free d env fenv n oip len aflags (in_cache (bdwrite bp) st)) updret))
         else bind_cres (itrunc_free d env fenv n oip len aflags st) updret)"

end
