(* ===== verification/Ufs_Rw.thy ===== *)
theory Ufs_Rw
  imports Ufs_Inode
begin

text \<open>
  Reading and writing a file: \<open>rwip\<close>, \<open>rdwri\<close> and \<open>ino_rw\<close> of \<^verbatim>\<open>sys/kern/sys_inode.c\<close>. Of the process, the real user id, the limit on
  the size of files and the signals posted matter here. The routines of a character device are the argument \<open>cdev\<close>.
\<close>

abbreviation (input) IFMT :: "32 word" where "IFMT \<equiv> 0xf000"
abbreviation (input) IFCHR :: "32 word" where "IFCHR \<equiv> 0x2000"
abbreviation (input) IFDIR :: "32 word" where "IFDIR \<equiv> 0x4000"
abbreviation (input) IFBLK :: "32 word" where "IFBLK \<equiv> 0x6000"
abbreviation (input) IFREG :: "32 word" where "IFREG \<equiv> 0x8000"
abbreviation (input) IFLNK :: "32 word" where "IFLNK \<equiv> 0xa000"
abbreviation (input) ISUID :: "32 word" where "ISUID \<equiv> 0x800"
abbreviation (input) ISGID :: "32 word" where "ISGID \<equiv> 0x400"
abbreviation (input) APPEND :: "32 word" where "APPEND \<equiv> 0x404"
abbreviation (input) MNT_NOATIME :: "32 word" where "MNT_NOATIME \<equiv> 0x80"
abbreviation (input) MNT_SYNCHRONOUS :: "32 word" where "MNT_SYNCHRONOUS \<equiv> 2"
abbreviation (input) EFTYPE :: int where "EFTYPE \<equiv> 79"
abbreviation (input) SIGXFSZ :: int where "SIGXFSZ \<equiv> 25"

record rwst =
  xfs :: ufs
  xino :: inode
  xum :: mem
  xuio :: uio
  xsigs :: "int list"
  xwakes :: nat

definition upd_ino :: "(inode \<Rightarrow> inode) \<Rightarrow> rwst \<Rightarrow> rwst" where
  "upd_ino f x = x\<lparr>xino := f (xino x)\<rparr>"

definition in_fs :: "(ufs \<Rightarrow> ufs) \<Rightarrow> rwst \<Rightarrow> rwst" where
  "in_fs f x = x\<lparr>xfs := f (xfs x)\<rparr>"

definition with_fs :: "(ufs \<Rightarrow> ufs cres) \<Rightarrow> rwst \<Rightarrow> rwst cres" where
  "with_fs g x = bind_cres (g (xfs x)) (\<lambda>st. Ok (x\<lparr>xfs := st\<rparr>))"

definition fs_buf :: "(ufs \<Rightarrow> (ufs \<times> nat) cres) \<Rightarrow> rwst \<Rightarrow> (rwst \<times> nat) cres" where
  "fs_buf g x = bind_cres (g (xfs x)) (\<lambda>(st, b). Ok (x\<lparr>xfs := st\<rparr>, b))"

definition xbuf :: "nat \<Rightarrow> rwst \<Rightarrow> buf" where
  "xbuf b x = ubuf b (xfs x)"

section \<open>One block\<close>

text \<open>Which block, and how many bytes of it; or \<open>Inl\<close> the value that \<open>rwip\<close> returns.\<close>

definition rw_where :: "sdisk \<Rightarrow> (nat \<Rightarrow> bio \<Rightarrow> bio) \<Rightarrow> (nat \<Rightarrow> ufs \<Rightarrow> ufs) \<Rightarrow> nat \<Rightarrow> 32 word \<Rightarrow> 32 word \<Rightarrow> rwst \<Rightarrow> ((rwst \<times> int) + (rwst \<times> int \<times> nat)) cres" where
  "rw_where d env fenv n typ flags x =
     (let lbn = lblkno (uio_offset (xuio x)); on = blkoff (uio_offset (xuio x)); cnt = min (1024 - on) (uio_resid (xuio x)); rd = (uio_rw (xuio x) = UIO_READ)
      in if typ = IFBLK then Ok (Inr (in_fs (\<lambda>st. st\<lparr>rablock := lbn + 1\<rparr>) x, lbn, cnt))
         else
           let diff = i_size (xino x) - uio_offset (xuio x)
           in if rd \<and> diff \<le> 0 then Ok (Inl (x, 0))
              else
                let cnt = (if rd \<and> diff < int cnt then nat diff else cnt)
                in bind_cres (bmap d env fenv n (xino x) lbn (\<not> rd) (if rd \<or> cnt = DEV_BSIZE then flags else flags OR B_CLRBUF) (xfs x)) (\<lambda>(st, ip, bn).
                     let x = x\<lparr>xfs := st, xino := ip\<rparr>
                     in if uerror (bst st) \<noteq> 0 \<or> \<not> rd \<and> bn < 0 then Ok (Inl (x, uerror (bst st)))
                        else if \<not> rd \<and> uio_offset (xuio x) + int cnt > i_size ip \<and> typ \<in> {IFDIR, IFREG, IFLNK}
                        then Ok (Inr (upd_ino (\<lambda>ip. ip\<lparr>i_size := uio_offset (xuio x) + int cnt\<rparr>) x, bn, cnt))
                        else Ok (Inr (x, bn, cnt))))"

text \<open>The buffer of the block.\<close>

definition rw_getbuf :: "sdisk \<Rightarrow> (nat \<Rightarrow> bio \<Rightarrow> bio) \<Rightarrow> nat \<Rightarrow> int \<Rightarrow> int \<Rightarrow> nat \<Rightarrow> rwst \<Rightarrow> (rwst \<times> nat) cres" where
  "rw_getbuf d env n dev bn cnt x =
     (let lbn = lblkno (uio_offset (xuio x))
      in if uio_rw (xuio x) = UIO_READ then
           bind_cres
             (if bn < 0 then
                bind_cres (fs_buf (with_buf (geteblk d env n)) x) (\<lambda>(x, b). Ok (in_fs (in_cache (upd_buf b (\<lambda>p. p\<lparr>b_data := replicate 256 0\<rparr>))) x, b))
              else if i_lastr (xino x) + 1 = lbn then fs_buf (with_buf (breada d env n dev bn (rablock (xfs x)))) x
              else fs_buf (with_buf (bread d env n dev bn)) x)
             (\<lambda>(x, b). Ok (upd_ino (\<lambda>ip. ip\<lparr>i_lastr := lbn\<rparr>) x, b))
         else
           bind_cres (fs_buf (with_buf (if cnt = DEV_BSIZE then getblk d env n dev bn else bread d env n dev bn)) x) (\<lambda>(x, b).
             if b_resid (xbuf b x) = DEV_BSIZE then Ok (in_fs (in_cache (upd_buf b (\<lambda>p. p\<lparr>b_resid := 0, b_data := replicate 256 0\<rparr>))) x, b)
             else Ok (x, b)))"

text \<open>
  The bytes are moved and the buffer let go. The driver sets the residual count to a whole block at most, so that the
  difference is not negative. \<open>uiomove\<close> never fails; its result, 0, replaces \<open>u_error\<close>.
\<close>

definition rw_move :: "nat \<Rightarrow> nat \<Rightarrow> nat \<Rightarrow> rwst \<Rightarrow> rwst cres" where
  "rw_move b on cnt x =
     bind_cres (uiomove on cnt (block_mem (b_data (xbuf b x))) (xum x) (xuio x)) (\<lambda>(km, um, uio).
       let wr = (uio_rw (xuio x) \<noteq> UIO_READ); x = x\<lparr>xum := um, xuio := uio\<rparr>;
           x = (if wr then in_fs (in_cache (upd_buf b (\<lambda>p. p\<lparr>b_data := mem_block km\<rparr>))) x else x)
       in Ok (in_fs (in_cache (\<lambda>c. c\<lparr>uerror := 0\<rparr>)) x))"

definition rw_release :: "sdisk \<Rightarrow> (nat \<Rightarrow> bio \<Rightarrow> bio) \<Rightarrow> nat \<Rightarrow> 32 word \<Rightarrow> 32 word \<Rightarrow> nat \<Rightarrow> nat \<Rightarrow> nat \<Rightarrow> rwst \<Rightarrow> rwst cres" where
  "rw_release d env n ioflag ruid b on cnt x =
     (if uio_rw (xuio x) = UIO_READ then
        let ageing = (cnt + on = DEV_BSIZE \<or> uio_offset (xuio x) = i_size (xino x));
            x = (if ageing then in_fs (in_cache (bset b B_AGE)) x else x);
            x = (if ageing \<and> i_flag (xino x) AND IPIPE \<noteq> 0 then in_fs (in_cache (bclr b B_DELWRI)) x else x)
        in Ok (in_fs (in_cache (brelse b)) x)
      else
        bind_cres
          (if ioflag AND IO_SYNC \<noteq> 0 then with_fs (with_cache (bwrite d env n b)) x
           else if cnt + on = DEV_BSIZE \<and> i_flag (xino x) AND IPIPE = 0 then with_fs (with_cache (bawrite d env n b)) (in_fs (in_cache (bset b B_AGE)) x)
           else Ok (in_fs (in_cache (bdwrite b)) x))
          (\<lambda>x. let x = upd_ino (\<lambda>ip. ip\<lparr>i_flag := i_flag ip OR (IUPD OR ICHG)\<rparr>) x
               in Ok (if ruid \<noteq> 0 then upd_ino (\<lambda>ip. ip\<lparr>i_mode := i_mode ip AND NOT (ISUID OR ISGID)\<rparr>) x else x)))"

text \<open>One round of the loop: \<open>Inl\<close> what \<open>rwip\<close> returns, or the error so far and whether the loop goes on.\<close>

definition rw_round :: "sdisk \<Rightarrow> (nat \<Rightarrow> bio \<Rightarrow> bio) \<Rightarrow> (nat \<Rightarrow> ufs \<Rightarrow> ufs) \<Rightarrow> nat \<Rightarrow> 32 word \<Rightarrow> int \<Rightarrow> 32 word \<Rightarrow> 32 word \<Rightarrow> rwst
    \<Rightarrow> ((rwst \<times> int) + (rwst \<times> int \<times> bool)) cres" where
  "rw_round d env fenv n typ dev ioflag ruid x =
     (let on = blkoff (uio_offset (xuio x)); flags = (if ioflag AND IO_SYNC \<noteq> 0 then B_SYNC else 0)
      in bind_cres (rw_where d env fenv n typ flags x) (\<lambda>r. case r of
           Inl res \<Rightarrow> Ok (Inl res)
         | Inr (x, bn, cnt) \<Rightarrow>
             bind_cres (rw_getbuf d env n dev bn cnt x) (\<lambda>(x, b).
               let cnt = min cnt (1024 - b_resid (xbuf b x))
               in if b_flags (xbuf b x) AND B_ERROR \<noteq> 0 then Ok (Inr (in_fs (in_cache (brelse b)) x, EIO, False))
                  else bind_cres (rw_move b on cnt x) (\<lambda>x. bind_cres (rw_release d env n ioflag ruid b on cnt x) (\<lambda>x.
                    Ok (Inr (x, 0, uerror (bst (xfs x)) = 0 \<and> uio_resid (xuio x) \<noteq> 0 \<and> cnt \<noteq> 0)))))))"

section \<open>The loop\<close>

text \<open>Every round but the last moves a byte at least, so that \<open>uio_resid\<close> bounds their number.\<close>

fun rw_loop :: "sdisk \<Rightarrow> (nat \<Rightarrow> bio \<Rightarrow> bio) \<Rightarrow> (nat \<Rightarrow> ufs \<Rightarrow> ufs) \<Rightarrow> nat \<Rightarrow> 32 word \<Rightarrow> int \<Rightarrow> 32 word \<Rightarrow> 32 word \<Rightarrow> nat \<Rightarrow> rwst
    \<Rightarrow> ((rwst \<times> int) + (rwst \<times> int)) cres" where
  "rw_loop d env fenv n typ dev ioflag ruid 0 x = Stuck"
| "rw_loop d env fenv n typ dev ioflag ruid (Suc m) x =
     bind_cres (rw_round d env fenv n typ dev ioflag ruid x) (\<lambda>r. case r of
       Inl res \<Rightarrow> Ok (Inl res)
     | Inr (x, e, again) \<Rightarrow> if again then rw_loop d env fenv n typ dev ioflag ruid m x else Ok (Inr (x, e)))"

text \<open>On an error a write that is to be done as a whole is undone.\<close>

definition rw_finish :: "sdisk \<Rightarrow> (nat \<Rightarrow> bio \<Rightarrow> bio) \<Rightarrow> (nat \<Rightarrow> ufs \<Rightarrow> ufs) \<Rightarrow> nat \<Rightarrow> 32 word \<Rightarrow> 32 word \<Rightarrow> nat \<Rightarrow> int \<Rightarrow> rwst \<Rightarrow> int \<Rightarrow> (rwst \<times> int) cres" where
  "rw_finish d env fenv n typ ioflag resid osize x e =
     (let e = (if e = 0 then uerror (bst (xfs x)) else e)
      in if e \<noteq> 0 \<and> uio_rw (xuio x) = UIO_WRITE \<and> ioflag AND IO_UNIT \<noteq> 0 \<and> typ \<noteq> IFBLK then
           bind_cres (itrunc d env fenv n (xino x) (osize mod 2 ^ 32) (ioflag AND IO_SYNC) (xfs x)) (\<lambda>(st, ip).
             Ok (x\<lparr>xfs := st, xino := ip, xuio := (xuio x)\<lparr>uio_offset := long (uio_offset (xuio x) - int (sub32 resid (uio_resid (xuio x)))), uio_resid := resid\<rparr>\<rparr>, e))
         else Ok (x, e))"

definition rwip :: "(uio_dir \<Rightarrow> int \<Rightarrow> 32 word \<Rightarrow> rwst \<Rightarrow> (rwst \<times> int) cres) \<Rightarrow> sdisk \<Rightarrow> (nat \<Rightarrow> bio \<Rightarrow> bio) \<Rightarrow> (nat \<Rightarrow> ufs \<Rightarrow> ufs) \<Rightarrow> nat \<Rightarrow> 32 word \<Rightarrow> int \<Rightarrow> 32 word \<Rightarrow> rwst
    \<Rightarrow> (rwst \<times> int) cres" where
  "rwip cdev d env fenv n ruid fsize ioflag x =
     (let rdev = i_addr (xino x) ! 1; typ = i_mode (xino x) AND IFMT; rd = (uio_rw (xuio x) = UIO_READ);
          touch = (\<lambda>x. if fs_flags (sb (xfs x)) AND MNT_NOATIME = 0 then upd_ino (\<lambda>ip. ip\<lparr>i_flag := i_flag ip OR IACC\<rparr>) x else x);
          x = (if rd then touch x
               else if typ = IFREG \<and> ioflag AND IO_APPEND \<noteq> 0 then x\<lparr>xuio := (xuio x)\<lparr>uio_offset := i_size (xino x)\<rparr>\<rparr> else x)
      in if \<not> rd \<and> typ = IFREG \<and> i_flags (xino x) AND APPEND \<noteq> 0 \<and> uio_offset (xuio x) \<noteq> i_size (xino x) then Ok (x, EPERM)
         else if \<not> rd \<and> typ \<notin> {IFREG, IFDIR, IFLNK, IFBLK, IFCHR} then Ok (x, EFTYPE)
         else
           let ioflag = (if \<not> rd \<and> typ = IFDIR then ioflag OR IO_SYNC else ioflag);
               ioflag = (if typ = IFREG \<or> typ = IFDIR \<and> fs_flags (sb (xfs x)) AND MNT_ASYNC \<noteq> 0 then ioflag AND NOT IO_SYNC else ioflag)
           in if typ = IFCHR then
                (if rd then cdev UIO_READ rdev ioflag (touch x)
                 else cdev UIO_WRITE rdev ioflag (upd_ino (\<lambda>ip. ip\<lparr>i_flag := i_flag ip OR (IUPD OR ICHG)\<rparr>) x))
              else if uio_resid (xuio x) = 0 then Ok (x, 0)
              else if \<not> rd \<and> typ = IFREG \<and> (uio_offset (xuio x) + int (uio_resid (xuio x))) mod 2 ^ 32 > fsize mod 2 ^ 32 then
                Ok (x\<lparr>xsigs := SIGXFSZ # xsigs x\<rparr>, EFBIG)
              else
                let dev = (if typ \<noteq> IFBLK then i_dev (xino x) else rdev); resid = uio_resid (xuio x); osize = i_size (xino x)
                in bind_cres (rw_loop d env fenv n typ dev ioflag ruid (Suc resid) x) (\<lambda>r. case r of
                     Inl res \<Rightarrow> Ok res
                   | Inr (x, e) \<Rightarrow> rw_finish d env fenv n typ ioflag resid osize x e))"

text \<open>I/O of the kernel itself; \<open>aresid\<close> tells whether the caller wants the residual count.\<close>

definition rdwri :: "(uio_dir \<Rightarrow> int \<Rightarrow> 32 word \<Rightarrow> rwst \<Rightarrow> (rwst \<times> int) cres) \<Rightarrow> sdisk \<Rightarrow> (nat \<Rightarrow> bio \<Rightarrow> bio) \<Rightarrow> (nat \<Rightarrow> ufs \<Rightarrow> ufs) \<Rightarrow> nat \<Rightarrow> 32 word \<Rightarrow> int \<Rightarrow> uio_dir \<Rightarrow> nat \<Rightarrow> nat \<Rightarrow> int
    \<Rightarrow> 32 word \<Rightarrow> bool \<Rightarrow> rwst \<Rightarrow> (rwst \<times> int \<times> nat option) cres" where
  "rdwri cdev d env fenv n ruid fsize rw base len offset ioflg aresid x =
     (let auio = \<lparr>uio_iov = [\<lparr>iov_base = base, iov_len = len\<rparr>], uio_iovcnt = 1, uio_offset = offset, uio_resid = len, uio_rw = rw\<rparr>
      in bind_cres (rwip cdev d env fenv n ruid fsize ioflg (x\<lparr>xuio := auio\<rparr>)) (\<lambda>(x, e).
           if aresid then Ok (x, e, Some (uio_resid (xuio x)))
           else Ok (x, (if uio_resid (xuio x) \<noteq> 0 then EIO else e), None)))"

section \<open>The lock of an inode; reading and writing an open file\<close>

abbreviation (input) ILOCKED :: "32 word" where "ILOCKED \<equiv> 1"
abbreviation (input) IWANT :: "32 word" where "IWANT \<equiv> 0x10"
abbreviation (input) IO_NDELAY :: "32 word" where "IO_NDELAY \<equiv> 0x10"

text \<open>\<open>ienv\<close> is what happens while the process sleeps on the inode. The calls of \<open>wakeup\<close> on the inode are counted.\<close>

fun ilock :: "(nat \<Rightarrow> rwst \<Rightarrow> rwst) \<Rightarrow> nat \<Rightarrow> rwst \<Rightarrow> rwst cres" where
  "ilock ienv n x =
     (if i_flag (xino x) AND ILOCKED \<noteq> 0 then
        (case n of 0 \<Rightarrow> Stuck | Suc m \<Rightarrow> ilock ienv m (ienv m (upd_ino (\<lambda>ip. ip\<lparr>i_flag := i_flag ip OR IWANT\<rparr>) x)))
      else Ok (upd_ino (\<lambda>ip. ip\<lparr>i_flag := i_flag ip OR ILOCKED\<rparr>) x))"

declare ilock.simps [simp del]

definition iunlock :: "rwst \<Rightarrow> rwst" where
  "iunlock x =
     (let x = upd_ino (\<lambda>ip. ip\<lparr>i_flag := i_flag ip AND NOT ILOCKED\<rparr>) x
      in if i_flag (xino x) AND IWANT \<noteq> 0 then (upd_ino (\<lambda>ip. ip\<lparr>i_flag := i_flag ip AND NOT IWANT\<rparr>) x)\<lparr>xwakes := xwakes x + 1\<rparr> else x)"

text \<open>\<open>f_flag\<close> and \<open>f_offset\<close> of the open file are arguments; the new offset is a result.\<close>

definition ino_rw :: "(uio_dir \<Rightarrow> int \<Rightarrow> 32 word \<Rightarrow> rwst \<Rightarrow> (rwst \<times> int) cres) \<Rightarrow> sdisk \<Rightarrow> (nat \<Rightarrow> bio \<Rightarrow> bio) \<Rightarrow> (nat \<Rightarrow> ufs \<Rightarrow> ufs) \<Rightarrow> (nat \<Rightarrow> rwst \<Rightarrow> rwst) \<Rightarrow> nat \<Rightarrow> 32 word \<Rightarrow> int
    \<Rightarrow> 32 word \<Rightarrow> int \<Rightarrow> rwst \<Rightarrow> (rwst \<times> int \<times> int) cres" where
  "ino_rw cdev d env fenv ienv n ruid fsize fflag foff x =
     bind_cres (if i_mode (xino x) AND IFMT \<noteq> IFCHR then ilock ienv n x else Ok x) (\<lambda>x.
       let x = x\<lparr>xuio := (xuio x)\<lparr>uio_offset := foff\<rparr>\<rparr>; count = uio_resid (xuio x);
           ndelay = (if fflag AND FNONBLOCK \<noteq> 0 then IO_NDELAY else 0);
           append = (if i_mode (xino x) AND IFMT = IFREG \<and> fflag AND FAPPEND \<noteq> 0 then IO_APPEND else 0);
           sync = (if fflag AND FFSYNC \<noteq> 0 \<or> fs_flags (sb (xfs x)) AND MNT_SYNCHRONOUS \<noteq> 0 then IO_SYNC else 0);
           unlock = (\<lambda>x. if i_mode (xino x) AND IFMT \<noteq> IFCHR then iunlock x else x)
       in if uio_rw (xuio x) = UIO_READ then
            bind_cres (rwip cdev d env fenv n ruid fsize ndelay x) (\<lambda>(x, e). Ok (unlock x, long (foff + int (sub32 count (uio_resid (xuio x)))), e))
          else
            bind_cres (rwip cdev d env fenv n ruid fsize (append OR ndelay OR sync) x) (\<lambda>(x, e).
              Ok (unlock x, (if append \<noteq> 0 then uio_offset (xuio x) else long (foff + int (sub32 count (uio_resid (xuio x))))), e)))"

end
