(* ===== verification/Ufs_Bytes.thy ===== *)
theory Ufs_Bytes
  imports Ufs_Leaf Ufs_Rw
begin

text \<open>
  The bytes of a block and of a file.
\<close>

lemma no_bit8: "8 \<le> k \<Longrightarrow> \<not> bit (w :: 8 word) k"
  using bit_imp_le_length [of w k] by auto

lemma byte_of_word_at: "i < 4 \<Longrightarrow> byte_of (word_at m a) i = m (a + i)"
proof -
  assume "i < 4"
  then have i: "i = 0 \<or> i = 1 \<or> i = 2 \<or> i = 3" by auto
  show ?thesis
    by (rule bit_word_eqI) (use i in \<open>auto simp: byte_of_def word_at_def bit_simps no_bit8\<close>)
qed

lemma store_load: "a \<le> x \<Longrightarrow> x < a + 4 * k \<Longrightarrow> store_words m0 a (load_words m a k) x = m x"
proof (induction k arbitrary: m0 a)
  case (Suc k)
  have l: "load_words m a (Suc k) = word_at m a # load_words m (a + 4) k"
    by (simp add: load_words_def upt_rec [of 0] map_Suc_upt [symmetric] del: upt_Suc) (simp add: algebra_simps)
  show ?case
  proof (cases "x < a + 4")
    case True
    then have "x = a + 0 \<or> x = a + 1 \<or> x = a + 2 \<or> x = a + 3" using Suc.prems by auto
    then show ?thesis using byte_of_word_at [of _ m a] unfolding l store_words.simps by (subst store_words_outside) (auto simp: True)
  next
    case False
    then show ?thesis using Suc.IH [of "a + 4"] Suc.prems unfolding l by simp
  qed
qed simp

lemma block_mem_block: "a < 1024 \<Longrightarrow> block_mem (mem_block m) a = m a"
  using store_load [of 0 a 256 "\<lambda>_. 0" m] by (simp add: block_mem_def mem_block_def)

lemma store_zero: "store_words m a (replicate k 0) x = (if a \<le> x \<and> x < a + 4 * k then 0 else m x)"
proof (induction k arbitrary: m a)
  case (Suc k)
  have "byte_of 0 i = 0" for i by (simp add: byte_of_def)
  then show ?case unfolding replicate_Suc store_words.simps Suc by auto
qed auto

lemma block_mem_zero: "block_mem (replicate 256 0) a = 0"
  unfolding block_mem_def store_zero by simp

text \<open>The file as a sequence of bytes; a hole reads as zeroes.\<close>

definition file_byte :: "(int \<Rightarrow> block) \<Rightarrow> int list \<Rightarrow> int \<Rightarrow> 8 word" where
  "file_byte V ad off = (let b = file_map V ad (off div 1024) in if b = 0 then 0 else block_mem (V b) (nat (off mod 1024)))"

end
