(* ===== verification/Bio_Blank.thy ===== *)
theory Bio_Blank
  imports Bio_Use
begin

text \<open>
  A buffer that belongs to no block, as \<open>geteblk\<close> hands it out; writing in the background.
\<close>

section \<open>An empty buffer\<close>

definition blank :: "nat \<Rightarrow> bio \<Rightarrow> bool" where
  "blank b st \<longleftrightarrow> (let p = bufs st b in \<not> valid p \<and> \<not> is_error p \<and> \<not> is_locked p \<and> \<not> is_delwri p)"

definition untag :: "nat \<Rightarrow> bio \<Rightarrow> bio" where
  "untag b st = upd_buf b (\<lambda>p. p\<lparr>b_bcount := 0, b_dev := NODEV, b_error := 0\<rparr>)
     (binshash b (Bfreelist BQ_AGE) (bremhash b (bset b B_INVAL (upd_buf b (\<lambda>p. p\<lparr>b_flags := B_BUSY\<rparr>) st))))"

lemma untag_simps:
  "bfreelist (untag b st) = bfreelist st" "card (untag b st) = card st" "uerror (untag b st) = uerror st"
  "c \<noteq> b \<Longrightarrow> bufs (untag b st) c = bufs st c"
  "bufs (untag b st) b = (bufs st b)\<lparr>b_flags := B_BUSY OR B_INVAL, b_bcount := 0, b_dev := NODEV, b_error := 0\<rparr>"
  "chains (untag b st) h = (if h = Bfreelist BQ_AGE then b # removeAll b (chains st h) else removeAll b (chains st h))"
  "on_card d (untag b st) = on_card d st"
  by (auto simp: untag_def binshash_def bremhash_def on_card_def fun_eq_iff)

lemma untag_blank: "blank b (untag b st)"
  by (simp add: blank_def Let_def untag_simps valid_def bit_simps)

lemma untag_calm: "calm st (untag b st)"
  by (auto simp: calm_def untag_def binshash_def bremhash_def)

lemma untag_chains:
  assumes "chains_ok N st" "b < N"
  shows "chains_ok N (untag b st)"
proof -
  have "(\<exists>h. c \<in> set (chains (untag b st) h)) \<longleftrightarrow> c < N" for c
  proof (cases "c = b")
    case True
    then have "c \<in> set (chains (untag b st) (Bfreelist BQ_AGE))" by (simp add: untag_simps)
    then show ?thesis using True assms(2) by blast
  next
    case False
    then have "(c \<in> set (chains (untag b st) h)) = (c \<in> set (chains st h))" for h by (simp add: untag_simps)
    then show ?thesis using assms(1) by (simp add: chains_ok_def)
  qed
  then show ?thesis using assms unfolding chains_ok_def by (auto simp: untag_simps distinct_removeAll split: if_splits)
qed

lemma untag_inv:
  assumes inv: "binv d devs N (insert b X) st" and cl: "clean d st b"
  shows "binv d devs N (insert b X) (untag b st)" "sees d devs st (untag b st)"
proof -
  let ?st = "untag b st"
  have bN: "b < N" using inv by (auto simp: binv_def free_ok_def)
  have st: "chains_ok N st" "hashed_ok d devs N st" using inv by (simp_all add: binv_def)
  have nv: "\<not> valid (bufs ?st b)" using untag_blank [of b st] by (simp add: blank_def Let_def)
  note ch = untag_chains [OF st(1) bN]
  have ha: "hashed_ok d devs N ?st"
  proof -
    have ne: "c \<noteq> b \<and> valid (bufs st c)" if "valid (bufs ?st c)" for c using that nv by (cases "c = b") (auto simp: untag_simps(4))
    have old: "\<And>c. c < N \<Longrightarrow> valid (bufs st c) \<Longrightarrow> c \<in> set (chains st (BUFHASH (b_dev (bufs st c)) (b_blkno (bufs st c)))) \<and> usable d devs (b_dev (bufs st c)) (b_blkno (bufs st c))"
      "\<And>b c. b < N \<Longrightarrow> c < N \<Longrightarrow> valid (bufs st b) \<Longrightarrow> valid (bufs st c) \<Longrightarrow> b_dev (bufs st b) = b_dev (bufs st c) \<Longrightarrow> b_blkno (bufs st b) = b_blkno (bufs st c) \<Longrightarrow> b = c"
      using st(2) by (auto simp: hashed_ok_def)
    have "c \<in> set (chains ?st (BUFHASH (b_dev (bufs ?st c)) (b_blkno (bufs ?st c)))) \<and> usable d devs (b_dev (bufs ?st c)) (b_blkno (bufs ?st c))"
      if "c < N" "valid (bufs ?st c)" for c
      using ne [OF that(2)] old(1) [OF that(1)] by (auto simp: untag_simps(4,6))
    moreover have "x = c" if "x < N" "c < N" "valid (bufs ?st x)" "valid (bufs ?st c)" "b_dev (bufs ?st x) = b_dev (bufs ?st c)" "b_blkno (bufs ?st x) = b_blkno (bufs ?st c)" for x c
      using ne [OF that(3)] ne [OF that(4)] old(2) [OF that(1,2)] that(5,6) by (auto simp: untag_simps(4))
    ultimately show ?thesis unfolding hashed_ok_def by blast
  qed
  have "idle_ok d ?st c" if "c < N" "c \<notin> insert b X" for c
    by (rule idle_cong [OF idle_okD [OF inv that]]) (use that in \<open>simp_all add: untag_simps\<close>)
  then show "binv d devs N (insert b X) ?st" using ch ha inv by (simp add: binv_def free_ok_def untag_simps(1))
  show "sees d devs st ?st" unfolding sees_def
  proof (intro allI impI)
    fix dev' blk' assume "usable d devs dev' blk'"
    then have nd': "dev' \<noteq> NODEV" by (simp add: usable_def)
    show "view d ?st dev' blk' = view d st dev' blk'"
    proof (cases "\<exists>c<N. c \<noteq> b \<and> valid (bufs st c) \<and> b_dev (bufs st c) = dev' \<and> b_blkno (bufs st c) = blk'")
      case True
      then obtain c where c: "c < N" "c \<noteq> b" "valid (bufs st c)" "b_dev (bufs st c) = dev'" "b_blkno (bufs st c) = blk'" by blast
      then have "view d ?st dev' blk' = seen d ?st c" by (intro view_hit [OF ch ha]) (simp_all add: untag_simps(4))
      moreover have "view d st dev' blk' = seen d st c" by (rule view_hit [OF st c(1,3-)])
      ultimately show ?thesis using c(2) by (simp add: seen_def untag_simps(4,7))
    next
      case False
      have "view d st dev' blk' = on_card d st dev' blk'" by (rule view_clean [OF st nd']) (use False cl in metis)
      moreover have "view d ?st dev' blk' = on_card d ?st dev' blk'"
        by (rule view_miss [OF ch ha nd']) (metis False nv untag_simps(4))
      ultimately show ?thesis by (simp add: untag_simps(7))
    qed
  qed
qed

lemma blank_use:
  assumes ok: "cache_ok d devs N n X st"
  shows "\<exists>st1 b. geteblk d env n st = Ok (st1, b) \<and> b < N \<and> b \<notin> X \<and> binv d devs N (insert b X) st1 \<and> sees d devs st st1 \<and> follows d devs X st st1 \<and> blank b st1"
proof -
  from ok obtain c where c: "parts_ok d devs" "binv d devs N X st" "c < N" "c \<notin> X" "dirty N st < n"
    using dirty_le [of N st] by (auto simp: cache_ok_def)
  from getnewbuf_spec [OF c(1,3,4,2,5), of env] obtain st1 b where g: "getnewbuf d env n st = Ok (upd_buf b (\<lambda>p. p\<lparr>b_flags := B_BUSY\<rparr>) st1, b)"
    "taken d devs N X st b st1" "clean d st1 b" by blast
  have i1: "binv d devs N (insert b X) st1" using g(2) by (simp add: taken_def)
  note r = untag_inv [OF i1 g(3)]
  have "geteblk d env n st = Ok (untag b st1, b)" using g(1) by (simp add: geteblk_def untag_def)
  moreover have "keeps_held d X st1 (untag b st1)" using g(2) by (intro keeps_heldI untag_simps) (auto simp: taken_def)
  ultimately show ?thesis using r g(2) sees_trans keeps_held_trans calm_trans untag_calm untag_blank by (auto simp: taken_def follows_def)
qed

text \<open>What the holder does to it nobody sees.\<close>

lemma blank_change:
  assumes inv: "binv d devs N (insert b X) st" "b \<notin> X" and g: "blank b st" and r: "\<And>p. b_dev (f p) = b_dev p \<and> b_blkno (f p) = b_blkno p \<and> b_flags (f p) = b_flags p"
  shows "binv d devs N (insert b X) (upd_buf b f st)" "sees d devs st (upd_buf b f st)" "blank b (upd_buf b f st)" "keeps_held d X st (upd_buf b f st)"
proof -
  let ?st = "upd_buf b f st"
  have st: "chains_ok N st" "hashed_ok d devs N st" using inv(1) by (simp_all add: binv_def)
  have v: "valid (f p) = valid p" for p by (simp add: valid_def r)
  have nv: "\<not> valid (bufs st b)" using g by (simp add: blank_def Let_def)
  have tg: "same_tags N st ?st" by (auto simp: same_tags_def v r)
  have ch: "chains_ok N ?st" using st(1) by (simp add: chains_ok_def)
  have ha: "hashed_ok d devs N ?st" by (rule hashed_tags [OF st(2) tg]) simp
  have oc: "on_card d ?st = on_card d st" by (simp add: on_card_def fun_eq_iff)
  have "idle_ok d ?st c" if "c < N" "c \<notin> insert b X" for c
    using idle_okD [OF inv(1), of c] that by (auto intro!: idle_cong [of d st c] simp: oc)
  then show "binv d devs N (insert b X) ?st" using ch ha inv(1) by (simp add: binv_def free_ok_def)
  have "view d ?st dev blk = view d st dev blk" if "dev \<noteq> NODEV" for dev blk
  proof (rule view_cong [OF st ch ha that tg])
    fix c assume "valid (bufs st c)"
    then have "c \<noteq> b" using nv by auto
    then show "seen d ?st c = seen d st c" by (simp add: seen_def oc)
  qed (simp add: oc)
  then show "sees d devs st ?st" by (auto simp: sees_def usable_def)
  show "blank b ?st" using g by (simp add: blank_def Let_def v r)
  show "keeps_held d X st ?st" using inv(2) by (intro keeps_heldI) auto
qed

lemma blank_release:
  assumes inv: "binv d devs N (insert b X) st" "b \<notin> X" and g: "blank b st"
  shows "binv d devs N X (brelse b st)" "sees d devs st (brelse b st)" "follows d devs X st (brelse b st)"
proof -
  have e: "\<not> is_error (bufs st b)" using g by (simp add: blank_def Let_def)
  show "binv d devs N X (brelse b st)" "sees d devs st (brelse b st)"
    using brelse_inv [OF inv] g by (auto simp: blank_def Let_def intro: all_sees)
  have "keeps_held d X st (brelse b st)" using inv(2) brelse_bufs [OF e] by (intro keeps_heldI) auto
  then show "follows d devs X st (brelse b st)" using brelse_calm [OF e] by (simp add: follows_def)
qed

section \<open>Flags set before a write\<close>

lemma held_flags:
  assumes inv: "binv d devs N (insert b X) st" "b \<notin> X" and v: "valid (bufs st b)" and w: "\<not> bit w 2" "\<not> bit w 11" "\<not> bit w 13"
  shows "binv d devs N (insert b X) (bset b w st)" "valid (bufs (bset b w st) b)" "is_locked (bufs (bset b w st) b) = is_locked (bufs st b)" "is_error (bufs (bset b w st) b) = is_error (bufs st b)"
    "\<And>dev' blk'. usable d devs dev' blk' \<Longrightarrow> (dev', blk') \<noteq> (b_dev (bufs st b), b_blkno (bufs st b)) \<Longrightarrow> view d (bset b w st) dev' blk' = view d st dev' blk'" "follows d devs X st (bset b w st)"
proof -
  show f: "valid (bufs (bset b w st) b)" "is_locked (bufs (bset b w st) b) = is_locked (bufs st b)" "is_error (bufs (bset b w st) b) = is_error (bufs st b)"
    using v w by (auto simp: valid_def bit_simps)
  show "binv d devs N (insert b X) (bset b w st)"
    "\<And>dev' blk'. usable d devs dev' blk' \<Longrightarrow> (dev', blk') \<noteq> (b_dev (bufs st b), b_blkno (bufs st b)) \<Longrightarrow> view d (bset b w st) dev' blk' = view d st dev' blk'"
    using held_inv(1,2) [OF inv(1) v, of "bset b w st"] f(1) by (auto simp: on_card_def)
  have "keeps_held d X st (bset b w st)" using inv(2) by (intro keeps_heldI) auto
  then show "follows d devs X st (bset b w st)" by (simp add: follows_def calm_def)
qed

lemma writer_flags:
  assumes wr: "writer d devs N wr" and w: "\<not> bit w 2" "\<not> bit w 11" "\<not> bit w 13"
  shows "writer d devs N (\<lambda>b st. wr b (bset b w st))"
  unfolding writer_def
proof (intro allI impI)
  fix X st b
  assume a: "binv d devs N (insert b X) st" "b \<notin> X" "valid (bufs st b)" "\<not> is_locked (bufs st b)" "\<not> is_error (bufs st b)"
  note f = held_flags [OF a(1-3) w]
  have t: "b_dev (bufs (bset b w st) b) = b_dev (bufs st b)" "b_blkno (bufs (bset b w st) b) = b_blkno (bufs st b)" "b_data (bufs (bset b w st) b) = b_data (bufs st b)" by simp_all
  from wr [unfolded writer_def, rule_format, OF f(1) a(2) f(2)] f(3,4) a(4,5) obtain st' where s: "wr b (bset b w st) = Ok st'" "binv d devs N X st'"
    "puts d devs (b_dev (bufs st b)) (b_blkno (bufs st b)) (b_data (bufs st b)) (bset b w st) st'" "follows d devs X (bset b w st) st'" unfolding t by auto
  have "puts d devs (b_dev (bufs st b)) (b_blkno (bufs st b)) (b_data (bufs st b)) st st'" using s(3) f(5) by (auto simp: puts_def)
  then show "\<exists>st'. wr b (bset b w st) = Ok st' \<and> binv d devs N X st' \<and> puts d devs (b_dev (bufs st b)) (b_blkno (bufs st b)) (b_data (bufs st b)) st st' \<and> follows d devs X st st'"
    using s follows_trans [OF f(6)] by blast
qed

lemma writer_bawrite: "parts_ok d devs \<Longrightarrow> writer d devs N (bawrite d env n)"
  using writer_flags [OF writer_bwrite, of d devs B_ASYNC N env n] by (simp add: bawrite_def [abs_def] bit_numeral_rec)

end
