(* ===== verification/Ufs_Io.thy ===== *)
theory Ufs_Io
  imports Ufs_Map Ufs_Bytes Bio_Blank
begin

text \<open>
  One round of \<open>rwip\<close> on a file: the bytes that are read are those of the file, and the bytes that are written become those of the file.
\<close>

section \<open>The state of a request\<close>

definition xview :: "sdisk \<Rightarrow> rwst \<Rightarrow> int \<Rightarrow> block" where
  "xview d x = view d (bst (xfs x)) (i_dev (xino x))"

definition content :: "sdisk \<Rightarrow> rwst \<Rightarrow> int \<Rightarrow> 8 word" where
  "content d x = file_byte (xview d x) (i_addr (xino x))"

definition rw_ok :: "sdisk \<Rightarrow> int set \<Rightarrow> nat \<Rightarrow> nat \<Rightarrow> int list \<Rightarrow> rwst \<Rightarrow> bool" where
  "rw_ok d devs N n l x \<longleftrightarrow> 1 < N \<and> fs_ok d devs N n (i_dev (xino x)) {} l (xfs x) \<and> file_ok (xview d x) (i_addr (xino x))
     \<and> (\<forall>b\<in>set (file_blocks (xview d x) (i_addr (xino x))). fs_isize (sb (xfs x)) \<le> b \<and> b < fs_fsize (sb (xfs x)) \<and> b \<notin> set l)
     \<and> uio_ok (xuio x) \<and> uerror (bst (xfs x)) = 0 \<and> 0 \<le> uio_offset (xuio x) \<and> uio_offset (xuio x) + int (uio_resid (xuio x)) < 2 ^ 31
     \<and> i_size (xino x) < 2 ^ 31 \<and> i_flag (xino x) AND IPIPE = 0"

lemma rw_simps [simp]:
  "xfs (upd_ino f x) = xfs x" "xino (upd_ino f x) = f (xino x)" "xum (upd_ino f x) = xum x" "xuio (upd_ino f x) = xuio x" "xsigs (upd_ino f x) = xsigs x"
  "xfs (in_fs g x) = g (xfs x)" "xino (in_fs g x) = xino x" "xum (in_fs g x) = xum x" "xuio (in_fs g x) = xuio x" "xsigs (in_fs g x) = xsigs x"
  by (simp_all add: upd_ino_def in_fs_def)

lemma lblkno_id: "0 \<le> x \<Longrightarrow> x < 2 ^ 32 \<Longrightarrow> lblkno x = x div 1024"
  by (simp add: lblkno_def)

lemma blkoff_less: "blkoff x < 1024"
proof -
  have "x mod 1024 < 1024" by simp
  then show ?thesis unfolding blkoff_def by linarith
qed

section \<open>Letting a buffer go\<close>

definition lettable :: "sdisk \<Rightarrow> nat \<Rightarrow> bio \<Rightarrow> bool" where
  "lettable d b c \<longleftrightarrow> blank b c \<or> (\<exists>dev blk. got d dev blk b c)"

lemma lettable_error: "lettable d b c \<Longrightarrow> b_flags (bufs c b) AND B_ERROR = 0"
  by (auto simp: lettable_def blank_def got_def Let_def bflag_bits)

lemma let_go:
  assumes "binv d devs N (insert b X) c" "b \<notin> X" "lettable d b c"
  shows "binv d devs N X (brelse b c)" "sees d devs c (brelse b c)" "follows d devs X c (brelse b c)"
  using assms blank_release [OF assms(1,2)] release_use [OF assms(1,2)] by (auto simp: lettable_def)

lemma lettable_age: "lettable d b c \<Longrightarrow> lettable d b (bset b B_AGE c)"
  by (auto simp: lettable_def blank_def got_def Let_def valid_def bit_simps on_card_def)

lemma age_go:
  assumes i: "binv d devs N (insert b {}) c" and l: "lettable d b c"
  shows "binv d devs N {} (brelse b (if age then bset b B_AGE c else c))" "sees d devs c (brelse b (if age then bset b B_AGE c else c))"
    "calm c (brelse b (if age then bset b B_AGE c else c))"
proof -
  let ?c = "if age then bset b B_AGE c else c"
  have i': "binv d devs N (insert b {}) ?c" and s: "sees d devs c ?c" using i age_inv [OF i, of b] by (auto simp: sees_refl)
  have l': "lettable d b ?c" using l lettable_age by auto
  have ca: "calm c ?c" by (simp add: calm_def)
  note g = let_go [OF i' _ l']
  show "binv d devs N {} (brelse b ?c)" using g(1) by simp
  show "sees d devs c (brelse b ?c)" using sees_trans [OF s] g(2) by simp
  show "calm c (brelse b ?c)" using calm_trans [OF ca] g(3) by (simp add: follows_def)
qed

section \<open>Reading\<close>

text \<open>The buffer that a read takes its bytes from.\<close>

lemma rw_getbuf_read:
  assumes ca: "cache_ok d devs N n {} (bst (xfs x))" and N: "1 < N" and rd: "uio_rw (xuio x) = UIO_READ"
    and r: "\<And>b. b_resid (bufs (bst (xfs x)) b) = 0"
    and bn: "bn < 0 \<or> usable d devs dev bn" and ra: "rablock (xfs x) = 0 \<or> usable d devs dev (rablock (xfs x))"
  shows "\<exists>c b. rw_getbuf d env n dev bn cnt x = Ok (x\<lparr>xfs := (xfs x)\<lparr>bst := c\<rparr>, xino := (xino x)\<lparr>i_lastr := lblkno (uio_offset (xuio x))\<rparr>\<rparr>, b)
     \<and> binv d devs N (insert b {}) c \<and> sees d devs (bst (xfs x)) c \<and> calm (bst (xfs x)) c \<and> lettable d b c \<and> b_resid (bufs c b) = 0
     \<and> b_data (bufs c b) = (if bn < 0 then replicate 256 0 else view d (bst (xfs x)) dev bn)"
proof (cases "bn < 0")
  case True
  from blank_use [OF ca, of env] obtain c b where g: "geteblk d env n (bst (xfs x)) = Ok (c, b)" "binv d devs N (insert b {}) c"
    "sees d devs (bst (xfs x)) c" "follows d devs {} (bst (xfs x)) c" "blank b c" by blast
  let ?f = "\<lambda>p. p\<lparr>b_data := replicate 256 0\<rparr>"
  note u = blank_change [OF g(2) _ g(5), of ?f]
  have "rw_getbuf d env n dev bn cnt x = Ok (x\<lparr>xfs := (xfs x)\<lparr>bst := upd_buf b ?f c\<rparr>, xino := (xino x)\<lparr>i_lastr := lblkno (uio_offset (xuio x))\<rparr>\<rparr>, b)"
    using rd True g(1) by (simp add: rw_getbuf_def fs_buf_def with_buf_def in_cache_def in_fs_def upd_ino_def Let_def)
  moreover have "calm (bst (xfs x)) (upd_buf b ?f c)" using g(4) by (auto simp: follows_def calm_def)
  ultimately show ?thesis using u sees_trans [OF g(3)] g(4) r True by (auto simp: lettable_def follows_def calm_def)
next
  case False
  then have us: "usable d devs dev bn" using bn by blast
  let ?rd = "if i_lastr (xino x) + 1 = lblkno (uio_offset (xuio x)) then breada d env n dev bn (rablock (xfs x)) (bst (xfs x)) else bread d env n dev bn (bst (xfs x))"
  have "\<exists>c b. ?rd = Ok (c, b) \<and> binv d devs N (insert b {}) c \<and> sees d devs (bst (xfs x)) c \<and> calm (bst (xfs x)) c \<and> got d dev bn b c
      \<and> b_data (bufs c b) = view d (bst (xfs x)) dev bn"
  proof (cases "i_lastr (xino x) + 1 = lblkno (uio_offset (xuio x))")
    case True
    have c: "parts_ok d devs" "binv d devs N {} (bst (xfs x))" "N + 1 < n" using ca by (auto simp: cache_ok_def)
    from breada_spec [OF c(1,2) us ra N c(3), of env] show ?thesis using True by (auto simp: taken_def)
  next
    case False
    from read_use [OF ca us, of env] show ?thesis using False by (auto simp: follows_def)
  qed
  then obtain c b where g: "?rd = Ok (c, b)" "binv d devs N (insert b {}) c" "sees d devs (bst (xfs x)) c" "calm (bst (xfs x)) c" "got d dev bn b c"
    "b_data (bufs c b) = view d (bst (xfs x)) dev bn" by blast
  have "rw_getbuf d env n dev bn cnt x = Ok (x\<lparr>xfs := (xfs x)\<lparr>bst := c\<rparr>, xino := (xino x)\<lparr>i_lastr := lblkno (uio_offset (xuio x))\<rparr>\<rparr>, b)"
    using rd False g(1) by (auto simp: rw_getbuf_def fs_buf_def with_buf_def upd_ino_def Let_def)
  moreover have "b_resid (bufs c b) = 0" using g(4) r by (simp add: calm_def)
  ultimately show ?thesis using g(2-6) False by (auto simp: lettable_def)
qed

text \<open>As long as nobody sees a change, the file is the same.\<close>

lemma rw_usable:
  assumes "rw_ok d devs N n l x" "b \<in> set (file_blocks (xview d x) (i_addr (xino x)))"
  shows "usable d devs (i_dev (xino x)) b" "b \<noteq> SUPERB" "0 < b"
proof -
  have o: "fs_ok d devs N n (i_dev (xino x)) {} l (xfs x)" "fs_isize (sb (xfs x)) \<le> b" "b < fs_fsize (sb (xfs x))" using assms by (auto simp: rw_ok_def)
  then show "usable d devs (i_dev (xino x)) b" "b \<noteq> SUPERB" "0 < b" by (auto simp: fs_ok_def fs_list_def Let_def)
qed

lemma same_file:
  assumes ok: "rw_ok d devs N n l x" and s: "sees d devs (bst (xfs x)) (bst st')"
    and ad: "i_dev ip' = i_dev (xino x)" "i_addr ip' = i_addr (xino x)"
  shows "file_ok (view d (bst st') (i_dev ip')) (i_addr ip')" "file_blocks (view d (bst st') (i_dev ip')) (i_addr ip') = file_blocks (xview d x) (i_addr (xino x))"
    "file_map (view d (bst st') (i_dev ip')) (i_addr ip') = file_map (xview d x) (i_addr (xino x))"
    "file_byte (view d (bst st') (i_dev ip')) (i_addr ip') = content d x"
proof -
  have e: "view d (bst st') (i_dev (xino x)) b = xview d x b" if "b \<in> set (file_blocks (xview d x) (i_addr (xino x)))" for b
    using s rw_usable(1) [OF ok that] by (simp add: sees_def xview_def)
  note f = file_frame [of "xview d x" "i_addr (xino x)" "view d (bst st') (i_dev (xino x))", OF e]
  show "file_ok (view d (bst st') (i_dev ip')) (i_addr ip')" "file_blocks (view d (bst st') (i_dev ip')) (i_addr ip') = file_blocks (xview d x) (i_addr (xino x))"
    and m: "file_map (view d (bst st') (i_dev ip')) (i_addr ip') = file_map (xview d x) (i_addr (xino x))"
    unfolding ad using f ok by (simp_all add: rw_ok_def)
  show "file_byte (view d (bst st') (i_dev ip')) (i_addr ip') = content d x"
    by (rule ext) (use m ad e file_map_in [of "xview d x" "i_addr (xino x)"] in \<open>simp add: file_byte_def content_def Let_def\<close>)
qed

lemma rw_ok_same:
  assumes ok: "rw_ok d devs N n l x" and s: "sees d devs (bst (xfs x)) (bst (xfs x'))" and ad: "i_dev (xino x') = i_dev (xino x)" "i_addr (xino x') = i_addr (xino x)"
    and f: "fs_ok d devs N n (i_dev (xino x)) {} l (xfs x')" "fs_isize (sb (xfs x')) = fs_isize (sb (xfs x))" "fs_fsize (sb (xfs x')) = fs_fsize (sb (xfs x))"
    and u: "uio_ok (xuio x')" "uerror (bst (xfs x')) = 0" "0 \<le> uio_offset (xuio x')" "uio_offset (xuio x') + int (uio_resid (xuio x')) < 2 ^ 31"
      "i_size (xino x') < 2 ^ 31" "i_flag (xino x') AND IPIPE = 0"
  shows "rw_ok d devs N n l x'" "content d x' = content d x" "file_blocks (xview d x') (i_addr (xino x')) = file_blocks (xview d x) (i_addr (xino x))"
proof -
  note e = same_file [OF ok s ad]
  show "content d x' = content d x" "file_blocks (xview d x') (i_addr (xino x')) = file_blocks (xview d x) (i_addr (xino x))"
    using e by (simp_all add: content_def xview_def)
  have "\<forall>b\<in>set (file_blocks (xview d x) (i_addr (xino x))). fs_isize (sb (xfs x)) \<le> b \<and> b < fs_fsize (sb (xfs x)) \<and> b \<notin> set l" "1 < N" using ok by (auto simp: rw_ok_def)
  then show "rw_ok d devs N n l x'" unfolding rw_ok_def xview_def e(2) f(2,3) using e(1) f(1) u ad by simp
qed

definition read_done :: "sdisk \<Rightarrow> int set \<Rightarrow> nat \<Rightarrow> nat \<Rightarrow> int list \<Rightarrow> nat \<Rightarrow> rwst \<Rightarrow> rwst \<Rightarrow> bool" where
  "read_done d devs N n l c x x' \<longleftrightarrow> rw_ok d devs N n l x' \<and> sees d devs (bst (xfs x)) (bst (xfs x')) \<and> content d x' = content d x \<and> sb (xfs x') = sb (xfs x)
     \<and> (\<exists>lr. xino x' = (xino x)\<lparr>i_lastr := lr\<rparr>) \<and> uio_rw (xuio x') = uio_rw (xuio x) \<and> xsigs x' = xsigs x \<and> c \<le> uio_resid (xuio x)
     \<and> uaddrs (uio_iov (xuio x')) = drop c (uaddrs (uio_iov (xuio x))) \<and> uio_offset (xuio x') = uio_offset (xuio x) + int c
     \<and> xum x' = scatter (xum x) (take c (uaddrs (uio_iov (xuio x)))) (map (\<lambda>k. content d x (uio_offset (xuio x) + int k)) [0..<c])"

lemma read_done_refl: "rw_ok d devs N n l x \<Longrightarrow> read_done d devs N n l 0 x x"
  by (auto simp: read_done_def sees_refl scatter_def intro: exI [of _ "i_lastr (xino x)"])

lemma read_done_resid: "read_done d devs N n l c x x' \<Longrightarrow> rw_ok d devs N n l x \<Longrightarrow> uio_resid (xuio x') = uio_resid (xuio x) - c"
  by (auto simp: read_done_def rw_ok_def uio_ok_def)

lemma read_done_trans:
  assumes ok: "rw_ok d devs N n l x" and a: "read_done d devs N n l c x x1" and b: "read_done d devs N n l e x1 x2"
  shows "read_done d devs N n l (c + e) x x2"
proof -
  note a' = a [unfolded read_done_def] and b' = b [unfolded read_done_def]
  let ?as = "uaddrs (uio_iov (xuio x))" and ?o = "uio_offset (xuio x)"
  have len: "length ?as = uio_resid (xuio x)" using ok by (simp add: rw_ok_def uio_ok_def)
  have r: "c + e \<le> uio_resid (xuio x)" using a' b' read_done_resid [OF a ok] by linarith
  have "map (\<lambda>k. content d x (?o + int k)) [0..<c + e] = map (\<lambda>k. content d x (?o + int k)) [0..<c] @ map (\<lambda>k. content d x (?o + int c + int k)) [0..<e]"
    by (induction e) (simp_all add: add.assoc)
  moreover have "take (c + e) ?as = take c ?as @ take e (drop c ?as)" by (rule take_add)
  ultimately have "xum x2 = scatter (xum x) (take (c + e) ?as) (map (\<lambda>k. content d x (?o + int k)) [0..<c + e])"
    using a' b' r len by (simp add: scatter_append)
  moreover have "\<exists>lr. xino x2 = (xino x)\<lparr>i_lastr := lr\<rparr>" using a' b' by auto
  ultimately show ?thesis using a' b' r sees_trans unfolding read_done_def by (auto simp: add.commute)
qed

text \<open>Where the next bytes are: \<open>bmap\<close> on a file that is read.\<close>

lemma offset_place:
  assumes "rw_ok d devs N n l x" "uio_offset (xuio x) < 2 ^ 31"
  shows "lblkno (uio_offset (xuio x)) = uio_offset (xuio x) div 1024" "place (uio_offset (xuio x) div 1024) \<noteq> None"
    "int (blkoff (uio_offset (xuio x))) = uio_offset (xuio x) mod 1024"
proof -
  have o: "0 \<le> uio_offset (xuio x)" using assms(1) by (simp add: rw_ok_def)
  then show "lblkno (uio_offset (xuio x)) = uio_offset (xuio x) div 1024" using assms(2) by (simp add: lblkno_id)
  show "int (blkoff (uio_offset (xuio x))) = uio_offset (xuio x) mod 1024" by (simp add: blkoff_def)
  have "0 \<le> uio_offset (xuio x) div 1024" "uio_offset (xuio x) div 1024 < 2097152" using o assms(2) by (auto simp: div_less_iff_less_mult)
  then show "place (uio_offset (xuio x) div 1024) \<noteq> None" unfolding place_none by simp
qed

lemma rw_where_read:
  assumes ok: "rw_ok d devs N n l x" and rd: "uio_rw (xuio x) = UIO_READ" and t: "typ \<noteq> IFBLK" and sz: "uio_offset (xuio x) < i_size (xino x)"
  shows "\<exists>st' r. rw_where d env fenv n typ flags x
        = Ok (Inr (x\<lparr>xfs := st'\<rparr>, r, min (min (1024 - blkoff (uio_offset (xuio x))) (uio_resid (xuio x))) (nat (i_size (xino x) - uio_offset (xuio x)))))
      \<and> r = (let b = file_map (xview d x) (i_addr (xino x)) (uio_offset (xuio x) div 1024) in if b = 0 then - 1 else b)
      \<and> fs_ok d devs N n (i_dev (xino x)) {} l st' \<and> sees d devs (bst (xfs x)) (bst st') \<and> uerror (bst st') = 0 \<and> sb st' = sb (xfs x)
      \<and> (rablock st' = 0 \<or> usable d devs (i_dev (xino x)) (rablock st'))"
proof -
  let ?o = "uio_offset (xuio x)" and ?ad = "i_addr (xino x)"
  have o: "fs_ok d devs N n (i_dev (xino x)) {} l (xfs x)" "file_ok (view d (bst (xfs x)) (i_dev (xino x))) ?ad" "i_size (xino x) < 2 ^ 31" "uerror (bst (xfs x)) = 0"
    using ok by (auto simp: rw_ok_def xview_def)
  then have o31: "?o < 2 ^ 31" using sz by linarith
  note op = offset_place [OF ok o31]
  have us: "\<forall>b\<in>set (file_blocks (view d (bst (xfs x)) (i_dev (xino x))) ?ad). usable d devs (i_dev (xino x)) b" using rw_usable [OF ok] by (simp add: xview_def)
  from bmap_read_spec [OF o(1) refl o(2) us op(2), of env fenv flags] obtain st' where
    b: "bmap d env fenv n (xino x) (?o div 1024) False flags (xfs x) = Ok (st', xino x, (if file_map (xview d x) ?ad (?o div 1024) = 0 then - 1 else file_map (xview d x) ?ad (?o div 1024)))"
      "fs_ok d devs N n (i_dev (xino x)) {} l st'" "sees d devs (bst (xfs x)) (bst st')" "uerror (bst st') = uerror (bst (xfs x))" "sb st' = sb (xfs x)"
      "rablock st' = 0 \<or> usable d devs (i_dev (xino x)) (rablock st')" unfolding xview_def by blast
  let ?c = "min (1024 - blkoff ?o) (uio_resid (xuio x))"
  have c: "(if i_size (xino x) - ?o < int ?c then nat (i_size (xino x) - ?o) else ?c) = min ?c (nat (i_size (xino x) - ?o))" using sz by auto
  have "rw_where d env fenv n typ flags x = Ok (Inr (x\<lparr>xfs := st'\<rparr>, (if file_map (xview d x) ?ad (?o div 1024) = 0 then - 1 else file_map (xview d x) ?ad (?o div 1024)), min ?c (nat (i_size (xino x) - ?o))))"
    using sz rd t b(1,4) o(4) by (simp add: rw_where_def Let_def op(1) c)
  then show ?thesis using b(2-6) o(4) by (auto simp: Let_def)
qed

lemma block_split: "0 \<le> e \<Longrightarrow> off mod 1024 + e < 1024 \<Longrightarrow> (off + e) div 1024 = off div 1024 \<and> (off + e) mod 1024 = off mod 1024 + e" for off e :: int
proof -
  assume e: "0 \<le> e" "off mod 1024 + e < 1024"
  have "off + e = 1024 * (off div 1024) + (off mod 1024 + e)" "0 \<le> off mod 1024 + e" using e(1) by simp_all
  then show ?thesis using int_div_pos_eq int_mod_pos_eq e(2) by metis
qed

lemma read_bytes:
  assumes m: "\<And>a. a < 1024 \<Longrightarrow> km a = (if b = 0 then 0 else block_mem (V b) a)" and b: "b = file_map V ad (off div 1024)" and c: "nat (off mod 1024) + c \<le> 1024"
  shows "bytes km (nat (off mod 1024)) c = map (\<lambda>k. file_byte V ad (off + int k)) [0..<c]"
proof (rule nth_equalityI)
  fix k assume "k < length (bytes km (nat (off mod 1024)) c)"
  then have k: "k < c" by simp
  have "0 \<le> off mod 1024" by simp
  then have m': "off mod 1024 + int k < 1024" using k c by linarith
  have "(off + int k) div 1024 = off div 1024" "(off + int k) mod 1024 = off mod 1024 + int k" using block_split [of "int k" off] m' by simp_all
  then have "nat ((off + int k) mod 1024) = nat (off mod 1024) + k" "file_map V ad ((off + int k) div 1024) = b" using b by simp_all
  then show "bytes km (nat (off mod 1024)) c ! k = map (\<lambda>k. file_byte V ad (off + int k)) [0..<c] ! k"
    using k c m by (simp add: bytes_def file_byte_def Let_def)
qed (simp add: bytes_def)

lemma fs_ok_calm:
  assumes "fs_ok d devs N n dev {} l st" "binv d devs N {} c" "sees d devs (bst st) c" "calm (bst st) c"
  shows "fs_ok d devs N n dev {} l (st\<lparr>bst := c\<rparr>)"
proof -
  note o = assms(1) [unfolded fs_ok_def fs_list_def Let_def]
  have "freelist (view d c dev) (fs_nfree (sb st)) (fs_free (sb st)) l"
    by (rule freelist_frame [OF _ same_but_sees [OF assms(3)]]) (use o in auto)
  then show ?thesis unfolding fs_ok_def fs_list_def Let_def using o cache_ok_step [OF _ assms(2)] assms(4) by (auto simp: calm_def ubuf_def)
qed

lemma rw_round_read:
  assumes ok: "rw_ok d devs N n l x" and rd: "uio_rw (xuio x) = UIO_READ" and t: "typ \<noteq> IFBLK" and sz: "uio_offset (xuio x) < i_size (xino x)" and nz: "uio_resid (xuio x) \<noteq> 0"
  shows "\<exists>x' c. rw_round d env fenv n typ (i_dev (xino x)) ioflag ruid x = Ok (Inr (x', 0, uio_resid (xuio x') \<noteq> 0)) \<and> 0 < c
     \<and> read_done d devs N n l c x x' \<and> int c \<le> i_size (xino x) - uio_offset (xuio x)"
proof -
  let ?o = "uio_offset (xuio x)" and ?ad = "i_addr (xino x)" and ?dev = "i_dev (xino x)" and ?as = "uaddrs (uio_iov (xuio x))"
  let ?b = "file_map (xview d x) ?ad (?o div 1024)"
  define c where "c = min (min (1024 - blkoff ?o) (uio_resid (xuio x))) (nat (i_size (xino x) - ?o))"
  have c: "0 < c" "c \<le> uio_resid (xuio x)" "blkoff ?o + c \<le> 1024" "int c \<le> i_size (xino x) - ?o" using blkoff_less [of ?o] sz nz by (auto simp: c_def)
  note ok' = ok [unfolded rw_ok_def]
  from rw_where_read [OF ok rd t sz, of env fenv "if ioflag AND IO_SYNC \<noteq> 0 then B_SYNC else 0"] obtain st1 r where
    w: "rw_where d env fenv n typ (if ioflag AND IO_SYNC \<noteq> 0 then B_SYNC else 0) x = Ok (Inr (x\<lparr>xfs := st1\<rparr>, r, c))" "r = (if ?b = 0 then - 1 else ?b)"
      "fs_ok d devs N n ?dev {} l st1" "sees d devs (bst (xfs x)) (bst st1)" "uerror (bst st1) = 0" "sb st1 = sb (xfs x)" "rablock st1 = 0 \<or> usable d devs ?dev (rablock st1)"
    unfolding c_def Let_def by blast
  define x1 where "x1 = x\<lparr>xfs := st1\<rparr>"
  have x1: "xfs x1 = st1" "xuio x1 = xuio x" "xino x1 = xino x" "xum x1 = xum x" "xsigs x1 = xsigs x" by (simp_all add: x1_def)
  have bu: "?b \<noteq> 0 \<longrightarrow> usable d devs ?dev ?b \<and> 0 < ?b" using rw_usable [OF ok file_map_in] by blast
  have ca: "cache_ok d devs N n {} (bst (xfs x1))" "\<And>b. b_resid (bufs (bst (xfs x1)) b) = 0" using w(3) by (auto simp: x1 fs_ok_def fs_list_def Let_def ubuf_def)
  have rr: "r < 0 \<or> usable d devs ?dev r" "rablock (xfs x1) = 0 \<or> usable d devs ?dev (rablock (xfs x1))" using w(2,7) bu by (auto simp: x1)
  have rd1: "uio_rw (xuio x1) = UIO_READ" "1 < N" using rd ok' by (simp_all add: x1)
  from rw_getbuf_read [OF ca(1) rd1(2,1) ca(2) rr, of env c] obtain c2 b where
    g: "rw_getbuf d env n ?dev r c x1 = Ok (x1\<lparr>xfs := st1\<lparr>bst := c2\<rparr>, xino := (xino x)\<lparr>i_lastr := lblkno ?o\<rparr>\<rparr>, b)"
      "binv d devs N (insert b {}) c2" "sees d devs (bst st1) c2" "calm (bst st1) c2" "lettable d b c2" "b_resid (bufs c2 b) = 0"
      "b_data (bufs c2 b) = (if r < 0 then replicate 256 0 else view d (bst st1) ?dev r)" unfolding x1 by blast
  define x2 where "x2 = x1\<lparr>xfs := st1\<lparr>bst := c2\<rparr>, xino := (xino x)\<lparr>i_lastr := lblkno ?o\<rparr>\<rparr>"
  have x2: "xfs x2 = st1\<lparr>bst := c2\<rparr>" "xuio x2 = xuio x" "xum x2 = xum x" "xsigs x2 = xsigs x" "xino x2 = (xino x)\<lparr>i_lastr := lblkno ?o\<rparr>" "xbuf b x2 = bufs c2 b"
    by (simp_all add: x2_def x1 xbuf_def ubuf_def)
  let ?km = "block_mem (b_data (bufs c2 b))"
  have km: "?km a = (if ?b = 0 then 0 else block_mem (xview d x ?b) a)" for a
  proof (cases "?b = 0")
    case False
    then have "view d (bst st1) ?dev ?b = xview d x ?b" using w(4) bu by (simp add: sees_def xview_def)
    then show ?thesis using False bu w(2) g(7) by simp
  qed (simp add: w(2) g(7) block_mem_zero)
  from uiomove_spec [of "xuio x" "blkoff ?o" c ?km "xum x"] ok' c(2) rd obtain uio' where
    u: "uiomove (blkoff ?o) c ?km (xum x) (xuio x) = Ok (?km, scatter (xum x) (take c ?as) (bytes ?km (blkoff ?o) c), uio')" "uio_ok uio'" "uaddrs (uio_iov uio') = drop c ?as"
      "uio_offset uio' = offset_after ?o c" "uio_rw uio' = UIO_READ" by (auto simp: transfer_def min_absorb1)
  have "uio_offset uio' = ?o + int c" unfolding u(4) by (rule offset_after_id) (use ok' c(2) in linarith)+
  note u = u(1-3) this u(5)
  have byt: "bytes ?km (blkoff ?o) c = map (\<lambda>k. content d x (?o + int k)) [0..<c]"
    unfolding content_def blkoff_def by (rule read_bytes [of ?km ?b]) (use km c(3) in \<open>auto simp: blkoff_def\<close>)
  have e2: "uerror c2 = 0" using g(4) w(5) by (simp add: calm_def)
  then have ue: "c2\<lparr>uerror := 0\<rparr> = c2" by simp
  define x3 where "x3 = x2\<lparr>xum := scatter (xum x) (take c ?as) (bytes ?km (blkoff ?o) c), xuio := uio'\<rparr>"
  have mv: "rw_move b (blkoff ?o) c x2 = Ok x3"
    using rd u(1) ue by (simp add: rw_move_def x2 x3_def in_fs_def in_cache_def Let_def)
  define age where "age \<longleftrightarrow> c + blkoff ?o = DEV_BSIZE \<or> uio_offset uio' = i_size (xino x)"
  define c3 where "c3 = brelse b (if age then bset b B_AGE c2 else c2)"
  define x4 where "x4 = x3\<lparr>xfs := st1\<lparr>bst := c3\<rparr>\<rparr>"
  have "i_flag (xino x) AND IPIPE = 0" using ok' by blast
  then have rl: "rw_release d env n ioflag ruid b (blkoff ?o) c x3 = Ok x4"
    using u(5) by (auto simp: rw_release_def x3_def x2 x4_def c3_def age_def in_fs_def in_cache_def Let_def)
  note a = age_go [OF g(2,5), of age, folded c3_def]
  have se: "sees d devs (bst (xfs x)) c3" using sees_trans [OF w(4) sees_trans [OF g(3) a(2)]] .
  have cm: "calm (bst st1) c3" using calm_trans [OF g(4) a(3)] .
  have x4: "xfs x4 = st1\<lparr>bst := c3\<rparr>" "xuio x4 = uio'" "xino x4 = (xino x)\<lparr>i_lastr := lblkno ?o\<rparr>" "xsigs x4 = xsigs x" "xum x4 = scatter (xum x) (take c ?as) (bytes ?km (blkoff ?o) c)"
    by (simp_all add: x4_def x3_def x2)
  have fo: "fs_ok d devs N n ?dev {} l (xfs x4)" unfolding x4 by (rule fs_ok_calm [OF w(3) a(1) sees_trans [OF g(3) a(2)] cm])
  have ru: "uio_resid uio' = uio_resid (xuio x) - c" using u(2,3) ok' by (simp add: uio_ok_def)
  have "uerror c3 = 0" using cm w(5) by (simp add: calm_def)
  then have ok4: "rw_ok d devs N n l x4" "content d x4 = content d x"
    using rw_ok_same [OF ok, of x4] se fo w(6) u ru c(2) ok' by (auto simp: x4)
  have "read_done d devs N n l c x x4" unfolding read_done_def using ok4 se w(6) rd u c(2) by (auto simp: x4 byt)
  moreover have "rw_round d env fenv n typ ?dev ioflag ruid x = Ok (Inr (x4, 0, uio_resid (xuio x4) \<noteq> 0))"
    using w(1) g(1,6) lettable_error [OF g(5)] mv rl c(1,3) \<open>uerror c3 = 0\<close>
    by (simp add: rw_round_def Let_def x1_def [symmetric] x2_def [symmetric] x2(6) x4(1) min_absorb1)
  ultimately show ?thesis using c(1,4) by blast
qed

lemma rw_loop_read:
  "rw_ok d devs N n l x \<Longrightarrow> uio_rw (xuio x) = UIO_READ \<Longrightarrow> typ \<noteq> IFBLK \<Longrightarrow> uio_resid (xuio x) \<noteq> 0 \<Longrightarrow> uio_resid (xuio x) < m \<Longrightarrow>
    \<exists>x'. rw_loop d env fenv n typ (i_dev (xino x)) ioflag ruid m x \<in> {Ok (Inl (x', 0)), Ok (Inr (x', 0))}
      \<and> read_done d devs N n l (min (uio_resid (xuio x)) (nat (i_size (xino x) - uio_offset (xuio x)))) x x'"
proof (induction m arbitrary: x)
  case (Suc m)
  note ok = Suc.prems(1)
  show ?case
  proof (cases "uio_offset (xuio x) < i_size (xino x)")
    case False
    then have "rw_loop d env fenv n typ (i_dev (xino x)) ioflag ruid (Suc m) x = Ok (Inl (x, 0))" using Suc.prems(2,3) by (simp add: rw_round_def rw_where_def Let_def)
    then show ?thesis using False read_done_refl [OF ok] by auto
  next
    case True
    from rw_round_read [OF ok Suc.prems(2,3) True Suc.prems(4), of env fenv ioflag ruid] obtain x1 c where
      r: "rw_round d env fenv n typ (i_dev (xino x)) ioflag ruid x = Ok (Inr (x1, 0, uio_resid (xuio x1) \<noteq> 0))" "0 < c" "read_done d devs N n l c x x1"
        "int c \<le> i_size (xino x) - uio_offset (xuio x)" by blast
    note rs = read_done_resid [OF r(3) ok] and r' = r(3) [unfolded read_done_def]
    show ?thesis
    proof (cases "uio_resid (xuio x1) = 0")
      case z: True
      then have "min (uio_resid (xuio x)) (nat (i_size (xino x) - uio_offset (xuio x))) = c" using rs r' r(4) by auto
      then show ?thesis using r(1,3) z by auto
    next
      case nz: False
      have d1: "i_dev (xino x1) = i_dev (xino x)" "i_size (xino x1) = i_size (xino x)" using r' by auto
      have m: "uio_resid (xuio x1) < m" using rs r(2) Suc.prems(4,5) by simp
      have k1: "rw_ok d devs N n l x1" "uio_rw (xuio x1) = UIO_READ" using r' Suc.prems(2) by simp_all
      from Suc.IH [OF k1 Suc.prems(3) nz m] obtain x2 where
        l: "rw_loop d env fenv n typ (i_dev (xino x)) ioflag ruid m x1 \<in> {Ok (Inl (x2, 0)), Ok (Inr (x2, 0))}"
          "read_done d devs N n l (min (uio_resid (xuio x1)) (nat (i_size (xino x1) - uio_offset (xuio x1)))) x1 x2" unfolding d1(1) by blast
      have "c + min (uio_resid (xuio x1)) (nat (i_size (xino x1) - uio_offset (xuio x1))) = min (uio_resid (xuio x)) (nat (i_size (xino x) - uio_offset (xuio x)))"
        using rs r' r(4) d1(2) by auto
      then show ?thesis using read_done_trans [OF ok r(3) l(2)] l(1) r(1) nz by auto
    qed
  qed
qed simp

end
