(* ===== verification/Ufs_Io2.thy ===== *)
theory Ufs_Io2
  imports Ufs_Io
begin

text \<open>
  Writing: what one round and the whole loop of \<open>rwip\<close> make of the file.
\<close>

definition mark :: "32 word \<Rightarrow> inode \<Rightarrow> inode" where
  "mark ruid ip = (let ip = ip\<lparr>i_flag := i_flag ip OR (IUPD OR ICHG)\<rparr> in if ruid \<noteq> 0 then ip\<lparr>i_mode := i_mode ip AND NOT (ISUID OR ISGID)\<rparr> else ip)"

lemma mark_simps [simp]: "i_addr (mark ruid ip) = i_addr ip" "i_dev (mark ruid ip) = i_dev ip" "i_size (mark ruid ip) = i_size ip" "i_flag (mark ruid ip) = i_flag ip OR (IUPD OR ICHG)"
  by (simp_all add: mark_def Let_def)

lemma mark_type: "i_mode (mark ruid ip) AND IFMT = i_mode ip AND IFMT"
  by (simp add: mark_def Let_def and.assoc)

lemma pipe_bit: "(w OR 0x42) AND (0x1000 :: 32 word) = w AND 0x1000"
  by (simp add: bit.conj_disj_distrib2)

lemma rw_release_write:
  assumes p: "parts_ok d devs"
  shows "\<exists>w. writer d devs N w \<and> (\<forall>x c. uio_rw (xuio x) = UIO_WRITE \<longrightarrow> i_flag (xino x) AND IPIPE = 0 \<longrightarrow> w b (bst (xfs x)) = Ok c \<longrightarrow>
     rw_release d env n ioflag ruid b on cnt x = Ok (x\<lparr>xfs := (xfs x)\<lparr>bst := c\<rparr>, xino := mark ruid (xino x)\<rparr>))"
proof -
  consider (sync) "ioflag AND IO_SYNC \<noteq> 0" | (full) "ioflag AND IO_SYNC = 0" "cnt + on = DEV_BSIZE" | (part) "ioflag AND IO_SYNC = 0" "cnt + on \<noteq> DEV_BSIZE" by blast
  then show ?thesis
  proof cases
    case sync
    then show ?thesis using writer_bwrite [OF p, of N env n]
      by (intro exI [of _ "bwrite d env n"]) (auto simp: rw_release_def with_fs_def with_cache_def mark_def upd_ino_def Let_def)
  next
    case full
    have "writer d devs N (\<lambda>b c. bawrite d env n b (bset b B_AGE c))" by (rule writer_flags [OF writer_bawrite [OF p]]) (simp_all add: bit_numeral_rec)
    then show ?thesis using full
      by (intro exI [of _ "\<lambda>b c. bawrite d env n b (bset b B_AGE c)"]) (auto simp: rw_release_def with_fs_def with_cache_def mark_def upd_ino_def in_fs_def in_cache_def Let_def)
  next
    case part
    then show ?thesis using writer_bdwrite [of d devs N]
      by (intro exI [of _ "\<lambda>b c. Ok (bdwrite b c)"]) (auto simp: rw_release_def mark_def upd_ino_def in_fs_def in_cache_def Let_def)
  qed
qed

text \<open>The buffer of the block to be written; a block that is written only in part has been read.\<close>

lemma rw_getbuf_write:
  assumes ca: "cache_ok d devs N n {} (bst (xfs x))" and wr: "uio_rw (xuio x) = UIO_WRITE" and r: "\<And>b. b_resid (bufs (bst (xfs x)) b) = 0" and us: "usable d devs dev bn"
  shows "\<exists>c b. rw_getbuf d env n dev bn cnt x = Ok (x\<lparr>xfs := (xfs x)\<lparr>bst := c\<rparr>\<rparr>, b) \<and> binv d devs N (insert b {}) c \<and> sees d devs (bst (xfs x)) c \<and> calm (bst (xfs x)) c
     \<and> got d dev bn b c \<and> (cnt \<noteq> DEV_BSIZE \<longrightarrow> b_data (bufs c b) = view d (bst (xfs x)) dev bn)"
proof -
  have "\<exists>c b. (if cnt = DEV_BSIZE then getblk d env n dev bn else bread d env n dev bn) (bst (xfs x)) = Ok (c, b) \<and> binv d devs N (insert b {}) c \<and> sees d devs (bst (xfs x)) c
      \<and> calm (bst (xfs x)) c \<and> got d dev bn b c \<and> (cnt \<noteq> DEV_BSIZE \<longrightarrow> b_data (bufs c b) = view d (bst (xfs x)) dev bn)"
    using get_use [OF ca us, of env] read_use [OF ca us, of env] by (cases "cnt = DEV_BSIZE") (auto simp: follows_def)
  then obtain c b where g: "(if cnt = DEV_BSIZE then getblk d env n dev bn else bread d env n dev bn) (bst (xfs x)) = Ok (c, b)" "binv d devs N (insert b {}) c"
    "sees d devs (bst (xfs x)) c" "calm (bst (xfs x)) c" "got d dev bn b c" "cnt \<noteq> DEV_BSIZE \<longrightarrow> b_data (bufs c b) = view d (bst (xfs x)) dev bn" by blast
  have "b_resid (bufs c b) = 0" using g(4) r by (simp add: calm_def)
  then have "rw_getbuf d env n dev bn cnt x = Ok (x\<lparr>xfs := (xfs x)\<lparr>bst := c\<rparr>\<rparr>, b)"
    using wr g(1) by (simp add: rw_getbuf_def fs_buf_def with_buf_def xbuf_def ubuf_def Let_def)
  then show ?thesis using g(2-) by blast
qed

section \<open>The file after a write\<close>

definition written :: "(int \<Rightarrow> 8 word) \<Rightarrow> int \<Rightarrow> 8 word list \<Rightarrow> int \<Rightarrow> 8 word" where
  "written f off bs = (\<lambda>a. if off \<le> a \<and> a < off + int (length bs) then bs ! nat (a - off) else f a)"

lemma written_append: "written (written f off bs) (off + int (length bs)) bs' = written f off (bs @ bs')"
proof
  fix a
  have "nat (a - (off + int (length bs))) = nat (a - off) - length bs" by linarith
  then show "written (written f off bs) (off + int (length bs)) bs' a = written f off (bs @ bs') a" by (auto simp: written_def nth_append)
qed

lemma in_block:
  fixes a q i off j :: int
  assumes "a = 1024 * q + i" "off = 1024 * q + j" "0 \<le> i" "0 \<le> j"
  shows "off \<le> a \<and> a < off + int k \<longleftrightarrow> nat j \<le> nat i \<and> nat i < nat j + k" "nat (a - off) = nat i - nat j"
  unfolding assms(1,2) using assms(3,4) by auto

lemma scatter_at: "j \<le> i \<Longrightarrow> i < j + length bs \<Longrightarrow> scatter m [j..<j + length bs] bs i = bs ! (i - j)"
  using scatter_nth [of "[j..<j + length bs]" bs "i - j" m] by auto

lemma write_bytes:
  assumes f: "file_ok V1 ad1" and r: "file_map V1 ad1 (off div 1024) = r" "r \<noteq> 0"
    and m: "\<forall>bn. bn \<noteq> off div 1024 \<longrightarrow> file_map V1 ad1 bn = file_map V ad bn" and k: "\<forall>bn. file_map V ad bn \<noteq> 0 \<longrightarrow> V1 (file_map V ad bn) = V (file_map V ad bn)"
    and o: "if file_map V ad (off div 1024) \<noteq> 0 then r = file_map V ad (off div 1024) else length bs \<noteq> 1024 \<longrightarrow> V1 r = replicate 256 0"
    and V2: "V2 r = mem_block (scatter (block_mem x) [nat (off mod 1024)..<nat (off mod 1024) + length bs] bs)" "\<And>b. b \<in> set (file_blocks V1 ad1) \<Longrightarrow> b \<noteq> r \<Longrightarrow> V2 b = V1 b"
    and x: "length bs \<noteq> 1024 \<Longrightarrow> x = V1 r" and bs: "nat (off mod 1024) + length bs \<le> 1024"
  shows "file_byte V2 ad1 = written (file_byte V ad) off bs"
proof
  fix a
  note fl = file_leaf [OF f, of "off div 1024" V2] V2(2) r
  have fm: "file_map V2 ad1 = file_map V1 ad1" using fl by blast
  let ?on = "nat (off mod 1024)"
  show "file_byte V2 ad1 a = written (file_byte V ad) off bs a"
  proof (cases "a div 1024 = off div 1024")
    case True
    define i j where "i = nat (a mod 1024)" and "j = nat (off mod 1024)"
    have am: "i < 1024" "j + length bs \<le> 1024" using bs by (simp_all add: i_def j_def)
    have rng: "off \<le> a \<and> a < off + int (length bs) \<longleftrightarrow> j \<le> i \<and> i < j + length bs" "nat (a - off) = i - j"
      unfolding i_def j_def
      using in_block [of a "off div 1024" "a mod 1024" off "off mod 1024"] mult_div_mod_eq [of 1024 a] mult_div_mod_eq [of 1024 off] True by simp_all
    have l: "file_byte V2 ad1 a = scatter (block_mem x) [j..<j + length bs] bs i"
      using True r V2(1) block_mem_block [OF am(1)] by (simp add: file_byte_def fm i_def j_def)
    show ?thesis
    proof (cases "off \<le> a \<and> a < off + int (length bs)")
      case in_range: True
      then have "j \<le> i" "i < j + length bs" using rng(1) by blast+
      then show ?thesis using in_range l rng(2) scatter_at by (simp add: written_def)
    next
      case out: False
      then have "i \<notin> set [j..<j + length bs]" using rng(1) by auto
      then have e: "file_byte V2 ad1 a = block_mem x i" using l scatter_other by metis
      have "length bs \<noteq> 1024" using out rng(1) am by auto
      then have x': "x = V1 r" "file_map V ad (off div 1024) = 0 \<Longrightarrow> V1 r = replicate 256 0" using x o by simp_all
      have "block_mem x i = file_byte V ad a"
      proof (cases "file_map V ad (off div 1024) = 0")
        case z: True
        then show ?thesis unfolding x'(1) x'(2) [OF z] block_mem_zero by (simp add: file_byte_def True)
      next
        case False
        then have "V1 r = V (file_map V ad (off div 1024))" "r = file_map V ad (off div 1024)" using o k by auto
        then show ?thesis using False True by (simp add: file_byte_def x'(1) i_def)
      qed
      then show ?thesis using e out by (auto simp: written_def)
    qed
  next
    case False
    let ?b = "file_map V ad (a div 1024)"
    have b1: "file_map V1 ad1 (a div 1024) = ?b" using m False by blast
    have "V2 ?b = V ?b" if "?b \<noteq> 0"
    proof -
      have "?b \<in> set (file_blocks V1 ad1)" using file_map_in [of V1 ad1 "a div 1024"] b1 that by simp
      moreover have "?b \<noteq> r" using file_map_inj [OF f, of "a div 1024" "off div 1024"] b1 r that False by auto
      ultimately show ?thesis using V2(2) k that by auto
    qed
    then have e: "file_byte V2 ad1 a = file_byte V ad a" using b1 by (simp add: file_byte_def fm Let_def)
    have "\<not> (off \<le> a \<and> a < off + int (length bs))"
    proof
      assume i: "off \<le> a \<and> a < off + int (length bs)"
      have "0 \<le> off mod 1024" by simp
      then have "off mod 1024 + (a - off) < 1024" using i bs by linarith
      then show False using block_split [of "a - off" off] i False by simp
    qed
    then show ?thesis using e by (auto simp: written_def)
  qed
qed

definition write_done :: "sdisk \<Rightarrow> int set \<Rightarrow> nat \<Rightarrow> nat \<Rightarrow> nat \<Rightarrow> int list \<Rightarrow> rwst \<Rightarrow> int list \<Rightarrow> rwst \<Rightarrow> bool" where
  "write_done d devs N n c l x l' x' \<longleftrightarrow> rw_ok d devs N n l' x'
     \<and> (\<exists>p. l = p @ l' \<and> set (file_blocks (xview d x') (i_addr (xino x'))) = set (file_blocks (xview d x) (i_addr (xino x))) \<union> set p
          \<and> same_but d devs ({(i_dev (xino x), SUPERB)} \<union> Pair (i_dev (xino x)) ` (set (file_blocks (xview d x) (i_addr (xino x))) \<union> set p)) (bst (xfs x)) (bst (xfs x')))
     \<and> i_dev (xino x') = i_dev (xino x) \<and> i_size (xino x') = max (i_size (xino x)) (uio_offset (xuio x) + int c)
     \<and> uio_rw (xuio x') = uio_rw (xuio x) \<and> xsigs x' = xsigs x \<and> xum x' = xum x \<and> c \<le> uio_resid (xuio x)
     \<and> uaddrs (uio_iov (xuio x')) = drop c (uaddrs (uio_iov (xuio x))) \<and> uio_offset (xuio x') = uio_offset (xuio x) + int c
     \<and> content d x' = written (content d x) (uio_offset (xuio x)) (map (xum x) (take c (uaddrs (uio_iov (xuio x)))))
     \<and> i_mode (xino x') AND IFMT = i_mode (xino x) AND IFMT"

lemma write_done_resid: "write_done d devs N n c l x l' x' \<Longrightarrow> rw_ok d devs N n l x \<Longrightarrow> uio_resid (xuio x') = uio_resid (xuio x) - c"
  by (auto simp: write_done_def rw_ok_def uio_ok_def)

lemma write_done_trans:
  assumes ok: "rw_ok d devs N n l x" and a: "write_done d devs N n c l x l1 x1" and b: "write_done d devs N n e l1 x1 l2 x2"
  shows "write_done d devs N n (c + e) l x l2 x2"
proof -
  note a' = a [unfolded write_done_def] and b' = b [unfolded write_done_def]
  let ?as = "uaddrs (uio_iov (xuio x))" and ?F = "\<lambda>x. set (file_blocks (xview d x) (i_addr (xino x)))"
  have len: "length ?as = uio_resid (xuio x)" using ok by (simp add: rw_ok_def uio_ok_def)
  have r: "c + e \<le> uio_resid (xuio x)" using a' b' write_done_resid [OF a ok] by linarith
  from a' obtain p where p: "l = p @ l1" "?F x1 = ?F x \<union> set p"
    "same_but d devs ({(i_dev (xino x), SUPERB)} \<union> Pair (i_dev (xino x)) ` (?F x \<union> set p)) (bst (xfs x)) (bst (xfs x1))" by blast
  from b' a' obtain q where q: "l1 = q @ l2" "?F x2 = ?F x1 \<union> set q"
    "same_but d devs ({(i_dev (xino x), SUPERB)} \<union> Pair (i_dev (xino x)) ` (?F x1 \<union> set q)) (bst (xfs x1)) (bst (xfs x2))" by auto
  have "same_but d devs ({(i_dev (xino x), SUPERB)} \<union> Pair (i_dev (xino x)) ` (?F x \<union> set (p @ q))) (bst (xfs x)) (bst (xfs x2))"
    by (rule same_but_mono [OF same_but_trans [OF p(3) q(3)]]) (use p(2) in auto)
  moreover have "l = (p @ q) @ l2" "?F x2 = ?F x \<union> set (p @ q)" using p q by auto
  ultimately have P: "\<exists>p. l = p @ l2 \<and> ?F x2 = ?F x \<union> set p
      \<and> same_but d devs ({(i_dev (xino x), SUPERB)} \<union> Pair (i_dev (xino x)) ` (?F x \<union> set p)) (bst (xfs x)) (bst (xfs x2))" by blast
  have "map (xum x) (take (c + e) ?as) = map (xum x) (take c ?as) @ map (xum x) (take e (drop c ?as))" by (simp add: take_add)
  moreover have "length (map (xum x) (take c ?as)) = c" using r len by simp
  ultimately have "content d x2 = written (content d x) (uio_offset (xuio x)) (map (xum x) (take (c + e) ?as))"
    using a' b' written_append [of "content d x" "uio_offset (xuio x)" "map (xum x) (take c ?as)" "map (xum x) (take e (drop c ?as))"] by simp
  then show ?thesis unfolding write_done_def using P a' b' r by (auto simp: add.commute max_def)
qed

lemma free_block:
  assumes "fs_ok d devs N n dev X l st" "b \<in> set l"
  shows "0 < b \<and> usable d devs dev b \<and> fs_isize (sb st) \<le> b \<and> b < fs_fsize (sb st)"
proof -
  have "0 < fs_isize (sb st)" "fs_isize (sb st) \<le> b" "b < fs_fsize (sb st)" "\<forall>b. b = SUPERB \<or> fs_isize (sb st) \<le> b \<and> b < fs_fsize (sb st) \<longrightarrow> usable d devs dev b"
    using assms by (auto simp: fs_ok_def fs_list_def Let_def)
  moreover from this have "0 < b" by linarith
  ultimately show ?thesis by blast
qed

lemma rw_where_write:
  assumes ok: "rw_ok d devs N n l x" and wr: "uio_rw (xuio x) = UIO_WRITE" and t: "typ \<in> {IFDIR, IFREG, IFLNK}" and l: "4 \<le> length l"
  shows "\<exists>st1 ip1 r p l1. rw_where d env fenv n typ flags x
        = Ok (Inr (x\<lparr>xfs := st1, xino := ip1\<rparr>, r, min (1024 - blkoff (uio_offset (xuio x))) (uio_resid (xuio x)))) \<and> l = p @ l1 \<and> length p \<le> 4
      \<and> fs_ok d devs N n (i_dev (xino x)) {} l1 st1 \<and> uerror (bst st1) = 0 \<and> fs_isize (sb st1) = fs_isize (sb (xfs x)) \<and> fs_fsize (sb st1) = fs_fsize (sb (xfs x))
      \<and> i_dev ip1 = i_dev (xino x) \<and> i_flag ip1 AND IPIPE = 0
      \<and> i_size ip1 = max (i_size (xino x)) (uio_offset (xuio x) + int (min (1024 - blkoff (uio_offset (xuio x))) (uio_resid (xuio x))))
      \<and> file_ok (view d (bst st1) (i_dev (xino x))) (i_addr ip1) \<and> set (file_blocks (view d (bst st1) (i_dev (xino x))) (i_addr ip1)) = set (file_blocks (xview d x) (i_addr (xino x))) \<union> set p
      \<and> r \<noteq> 0 \<and> file_map (view d (bst st1) (i_dev (xino x))) (i_addr ip1) (uio_offset (xuio x) div 1024) = r
      \<and> (\<forall>bn. bn \<noteq> uio_offset (xuio x) div 1024 \<longrightarrow> file_map (view d (bst st1) (i_dev (xino x))) (i_addr ip1) bn = file_map (xview d x) (i_addr (xino x)) bn)
      \<and> (\<forall>bn. file_map (xview d x) (i_addr (xino x)) bn \<noteq> 0 \<longrightarrow> view d (bst st1) (i_dev (xino x)) (file_map (xview d x) (i_addr (xino x)) bn) = xview d x (file_map (xview d x) (i_addr (xino x)) bn))
      \<and> (if file_map (xview d x) (i_addr (xino x)) (uio_offset (xuio x) div 1024) \<noteq> 0 then r = file_map (xview d x) (i_addr (xino x)) (uio_offset (xuio x) div 1024)
         else min (1024 - blkoff (uio_offset (xuio x))) (uio_resid (xuio x)) \<noteq> 1024 \<longrightarrow> view d (bst st1) (i_dev (xino x)) r = replicate 256 0)
      \<and> same_but d devs ({(i_dev (xino x), SUPERB)} \<union> Pair (i_dev (xino x)) ` (set (file_blocks (xview d x) (i_addr (xino x))) \<union> set p)) (bst (xfs x)) (bst st1)
      \<and> i_mode ip1 = i_mode (xino x)"
proof -
  let ?o = "uio_offset (xuio x)" and ?ad = "i_addr (xino x)" and ?dev = "i_dev (xino x)"
  define cnt where "cnt = min (1024 - blkoff ?o) (uio_resid (xuio x))"
  define fl where "fl = (if cnt = DEV_BSIZE then flags else flags OR B_CLRBUF)"
  note ok' = ok [unfolded rw_ok_def xview_def]
  have o31: "?o < 2 ^ 31" using ok' by linarith
  note op = offset_place [OF ok o31]
  obtain i q where pl: "place (?o div 1024) = Some (i, q)" using op(2) by auto
  have N: "1 < N" and fo: "fs_ok d devs N n ?dev {} l (xfs x)" and fi: "file_ok (view d (bst (xfs x)) ?dev) ?ad"
    and rng: "\<forall>b\<in>set (file_blocks (view d (bst (xfs x)) ?dev) ?ad). fs_isize (sb (xfs x)) \<le> b \<and> b < fs_fsize (sb (xfs x)) \<and> b \<notin> set l" using ok' by auto
  from mapped_file [OF fo fi rng pl bmap_write_spec [OF N fo refl fi rng pl l, of fl env fenv], folded xview_def] obtain st1 ip1 r p l1 where
    m: "bmap d env fenv n (xino x) (?o div 1024) True fl (xfs x) = Ok (st1, ip1, r)" "l = p @ l1" "length p \<le> 4" "fs_ok d devs N n ?dev {} l1 st1"
      "uerror (bst st1) = uerror (bst (xfs x))" "\<exists>w\<in>{0, IUPD OR ICHG}. ip1 = (xino x)\<lparr>i_addr := i_addr ip1, i_flag := i_flag (xino x) OR w\<rparr>"
      "fs_isize (sb st1) = fs_isize (sb (xfs x))" "fs_fsize (sb st1) = fs_fsize (sb (xfs x))"
      "file_ok (view d (bst st1) ?dev) (i_addr ip1)" "set (file_blocks (view d (bst st1) ?dev) (i_addr ip1)) = set (file_blocks (xview d x) ?ad) \<union> set p"
      "r \<noteq> 0" "file_map (view d (bst st1) ?dev) (i_addr ip1) (?o div 1024) = r"
      "\<forall>bn. bn \<noteq> ?o div 1024 \<longrightarrow> file_map (view d (bst st1) ?dev) (i_addr ip1) bn = file_map (xview d x) ?ad bn"
      "if file_map (xview d x) ?ad (?o div 1024) \<noteq> 0 then p = [] \<and> r = file_map (xview d x) ?ad (?o div 1024) else r \<in> set p"
      "\<forall>bn. file_map (xview d x) ?ad bn \<noteq> 0 \<longrightarrow> view d (bst st1) ?dev (file_map (xview d x) ?ad bn) = xview d x (file_map (xview d x) ?ad bn)"
      "fl AND B_CLRBUF \<noteq> 0 \<longrightarrow> file_map (xview d x) ?ad (?o div 1024) = 0 \<longrightarrow> view d (bst st1) ?dev r = replicate 256 0"
      "same_but d devs ({(?dev, SUPERB)} \<union> Pair ?dev ` (set (file_blocks (xview d x) ?ad) \<union> set p)) (bst (xfs x)) (bst st1)" by blast
  have ue: "uerror (bst st1) = 0" using m(5) ok' by simp
  have ip1: "i_dev ip1 = ?dev" "i_size ip1 = i_size (xino x)" "i_flag ip1 AND IPIPE = 0" "i_mode ip1 = i_mode (xino x)"
  proof -
    obtain w ad' where w: "w \<in> {0, IUPD OR ICHG}" "ip1 = (xino x)\<lparr>i_addr := ad', i_flag := i_flag (xino x) OR w\<rparr>" using m(6) by blast
    show "i_dev ip1 = ?dev" "i_size ip1 = i_size (xino x)" "i_mode ip1 = i_mode (xino x)" unfolding w(2) by simp_all
    show "i_flag ip1 AND IPIPE = 0" unfolding w(2) using w(1) ok' by (auto simp: pipe_bit)
  qed
  have "r \<in> set (file_blocks (view d (bst st1) ?dev) (i_addr ip1))" using file_map_in m(11,12) by metis
  then have "r \<in> set (file_blocks (xview d x) ?ad) \<union> set p" using m(10) by blast
  then have rp: "0 < r" using rw_usable(3) [OF ok] free_block [OF fo] m(2) by auto
  define ip2 where "ip2 = ip1\<lparr>i_size := max (i_size (xino x)) (?o + int cnt)\<rparr>"
  have ip2: "(if ?o + int cnt > i_size ip1 then ip1\<lparr>i_size := ?o + int cnt\<rparr> else ip1) = ip2" using ip1(2) by (auto simp: ip2_def)
  have W: "rw_where d env fenv n typ flags x = Ok (Inr (x\<lparr>xfs := st1, xino := ip2\<rparr>, r, cnt))"
    unfolding ip2 [symmetric] using wr t m(1) ue rp ip1(2) by (auto simp: rw_where_def Let_def op(1) upd_ino_def fl_def [symmetric] cnt_def [symmetric])
  have a2: "i_addr ip1 = i_addr ip2" by (simp add: ip2_def)
  have i2: "i_dev ip2 = ?dev" "i_flag ip2 AND IPIPE = 0" "i_size ip2 = max (i_size (xino x)) (?o + int cnt)" "i_mode ip2 = i_mode (xino x)" using ip1 by (simp_all add: ip2_def)
  have z: "if file_map (xview d x) ?ad (?o div 1024) \<noteq> 0 then r = file_map (xview d x) ?ad (?o div 1024) else cnt \<noteq> 1024 \<longrightarrow> view d (bst st1) ?dev r = replicate 256 0"
    using m(14,16) clrbuf [of flags] by (cases "cnt = 1024"; simp only: fl_def if_True if_False) (auto split: if_splits)
  note m2 = m(2-4,7-13,15,17) [unfolded a2]
  show ?thesis unfolding cnt_def [symmetric]
    by (rule exI [of _ st1], rule exI [of _ ip2], rule exI [of _ r], rule exI [of _ p], rule exI [of _ l1], intro conjI) (rule W ue i2 z m2)+
qed

end
