(* ===== verification/Ufs_Io3.thy ===== *)
theory Ufs_Io3
  imports Ufs_Io2
begin

text \<open>
  The rounds of a write, one after the other.
\<close>

lemma fs_ok_puts:
  assumes ok: "fs_ok d devs N n dev {} l st" and c: "binv d devs N {} c" "puts d devs dev b x (bst st) c" "\<And>b. b_resid (bufs c b) = 0" and b: "b \<notin> set l"
  shows "fs_ok d devs N n dev {} l (st\<lparr>bst := c\<rparr>)"
proof -
  note o = ok [unfolded fs_ok_def fs_list_def Let_def]
  have "freelist (view d c dev) (fs_nfree (sb st)) (fs_free (sb st)) l"
    by (rule freelist_frame [OF _ same_but_puts [OF c(2)]]) (use o b in auto)
  then show ?thesis unfolding fs_ok_def fs_list_def Let_def using o cache_ok_step [OF _ c(1)] c(3) by (auto simp: ubuf_def)
qed

lemma rw_move_write:
  assumes ok: "uio_ok (xuio x)" and wr: "uio_rw (xuio x) = UIO_WRITE" and c: "cnt \<le> uio_resid (xuio x)" and ue: "uerror (bst (xfs x)) = 0"
    and of: "0 \<le> uio_offset (xuio x)" "uio_offset (xuio x) + int cnt < 2 ^ 31"
  shows "\<exists>uio'. rw_move b on cnt x = Ok (x\<lparr>xuio := uio', xfs := (xfs x)\<lparr>bst := upd_buf b (\<lambda>p. p\<lparr>b_data :=
           mem_block (scatter (block_mem (b_data (xbuf b x))) [on..<on + cnt] (map (xum x) (take cnt (uaddrs (uio_iov (xuio x))))))\<rparr>) (bst (xfs x))\<rparr>\<rparr>)
     \<and> uio_ok uio' \<and> uaddrs (uio_iov uio') = drop cnt (uaddrs (uio_iov (xuio x))) \<and> uio_offset uio' = uio_offset (xuio x) + int cnt \<and> uio_rw uio' = UIO_WRITE"
proof -
  from uiomove_spec [OF ok, of on cnt "block_mem (b_data (xbuf b x))" "xum x"] c wr obtain uio' where
    u: "uiomove on cnt (block_mem (b_data (xbuf b x))) (xum x) (xuio x)
        = Ok (scatter (block_mem (b_data (xbuf b x))) [on..<on + cnt] (map (xum x) (take cnt (uaddrs (uio_iov (xuio x))))), xum x, uio')" "uio_ok uio'"
      "uaddrs (uio_iov uio') = drop cnt (uaddrs (uio_iov (xuio x)))" "uio_offset uio' = offset_after (uio_offset (xuio x)) cnt" "uio_rw uio' = UIO_WRITE"
    by (auto simp: transfer_def min_absorb1)
  note u = u(1-3) u(4) [unfolded offset_after_id [OF of]] u(5)
  have e: "(upd_buf b f (bst (xfs x)))\<lparr>uerror := 0\<rparr> = upd_buf b f (bst (xfs x))" for f using ue by (simp add: upd_buf_def)
  have "rw_move b on cnt x = Ok (x\<lparr>xuio := uio', xfs := (xfs x)\<lparr>bst := upd_buf b (\<lambda>p. p\<lparr>b_data :=
           mem_block (scatter (block_mem (b_data (xbuf b x))) [on..<on + cnt] (map (xum x) (take cnt (uaddrs (uio_iov (xuio x))))))\<rparr>) (bst (xfs x))\<rparr>\<rparr>)"
    using wr u(1) by (simp add: rw_move_def in_fs_def in_cache_def Let_def e)
  then show ?thesis using u(2-) by blast
qed

lemma rw_round_write:
  assumes ok: "rw_ok d devs N n l x" and wr: "uio_rw (xuio x) = UIO_WRITE" and t: "typ \<in> {IFDIR, IFREG, IFLNK}" and l: "4 \<le> length l" and nz: "uio_resid (xuio x) \<noteq> 0"
  shows "\<exists>x' l'. rw_round d env fenv n typ (i_dev (xino x)) ioflag ruid x = Ok (Inr (x', 0, uio_resid (xuio x') \<noteq> 0)) \<and> length l \<le> length l' + 4
     \<and> write_done d devs N n (min (1024 - blkoff (uio_offset (xuio x))) (uio_resid (xuio x))) l x l' x'"
proof -
  let ?o = "uio_offset (xuio x)" and ?ad = "i_addr (xino x)" and ?dev = "i_dev (xino x)" and ?as = "uaddrs (uio_iov (xuio x))"
  define cnt where "cnt = min (1024 - blkoff ?o) (uio_resid (xuio x))"
  have c: "0 < cnt" "cnt \<le> uio_resid (xuio x)" "blkoff ?o + cnt \<le> 1024" using blkoff_less [of ?o] nz by (auto simp: cnt_def)
  note ok' = ok [unfolded rw_ok_def]
  have as: "length ?as = uio_resid (xuio x)" using ok' by (simp add: uio_ok_def)
  define bs where "bs = map (xum x) (take cnt ?as)"
  have bs: "length bs = cnt" using c(2) as by (simp add: bs_def)
  have pa: "parts_ok d devs" using ok' by (simp add: fs_ok_def cache_ok_def)
  from rw_where_write [OF ok wr t l, of env fenv "if ioflag AND IO_SYNC \<noteq> 0 then B_SYNC else 0", folded cnt_def] obtain st1 ip1 r p l1 where
    w: "rw_where d env fenv n typ (if ioflag AND IO_SYNC \<noteq> 0 then B_SYNC else 0) x = Ok (Inr (x\<lparr>xfs := st1, xino := ip1\<rparr>, r, cnt))" "l = p @ l1" "length p \<le> 4"
      "fs_ok d devs N n ?dev {} l1 st1" "uerror (bst st1) = 0" "fs_isize (sb st1) = fs_isize (sb (xfs x))" "fs_fsize (sb st1) = fs_fsize (sb (xfs x))"
      "i_dev ip1 = ?dev" "i_flag ip1 AND IPIPE = 0" "i_size ip1 = max (i_size (xino x)) (?o + int cnt)"
      "file_ok (view d (bst st1) ?dev) (i_addr ip1)" "set (file_blocks (view d (bst st1) ?dev) (i_addr ip1)) = set (file_blocks (xview d x) ?ad) \<union> set p"
      "r \<noteq> 0" "file_map (view d (bst st1) ?dev) (i_addr ip1) (?o div 1024) = r"
      "\<forall>bn. bn \<noteq> ?o div 1024 \<longrightarrow> file_map (view d (bst st1) ?dev) (i_addr ip1) bn = file_map (xview d x) ?ad bn"
      "\<forall>bn. file_map (xview d x) ?ad bn \<noteq> 0 \<longrightarrow> view d (bst st1) ?dev (file_map (xview d x) ?ad bn) = xview d x (file_map (xview d x) ?ad bn)"
      "if file_map (xview d x) ?ad (?o div 1024) \<noteq> 0 then r = file_map (xview d x) ?ad (?o div 1024) else cnt \<noteq> 1024 \<longrightarrow> view d (bst st1) ?dev r = replicate 256 0"
      "same_but d devs ({(?dev, SUPERB)} \<union> Pair ?dev ` (set (file_blocks (xview d x) ?ad) \<union> set p)) (bst (xfs x)) (bst st1)" "i_mode ip1 = i_mode (xino x)" by blast
  let ?V1 = "view d (bst st1) ?dev"
  have dl: "distinct l" using ok' by (auto simp: fs_ok_def fs_list_def Let_def)
  have blk: "usable d devs ?dev b \<and> b \<notin> set l1 \<and> fs_isize (sb (xfs x)) \<le> b \<and> b < fs_fsize (sb (xfs x)) \<and> b \<in> set (file_blocks (xview d x) ?ad) \<union> set p"
    if "b \<in> set (file_blocks ?V1 (i_addr ip1))" for b
  proof -
    from that w(12) have bp: "b \<in> set (file_blocks (xview d x) ?ad) \<union> set p" by blast
    have fo: "fs_ok d devs N n ?dev {} l (xfs x)" using ok' by blast
    show ?thesis
    proof (cases "b \<in> set p")
      case True
      then show ?thesis using free_block [OF fo, of b] dl w(2) bp by auto
    next
      case False
      then have "b \<in> set (file_blocks (xview d x) ?ad)" using bp by blast
      then show ?thesis using rw_usable(1) [OF ok] ok' w(2) by auto
    qed
  qed
  have rin: "r \<in> set (file_blocks ?V1 (i_addr ip1))" using file_map_in w(13,14) by metis
  define x1 where "x1 = x\<lparr>xfs := st1, xino := ip1\<rparr>"
  have x1: "xfs x1 = st1" "xuio x1 = xuio x" "xino x1 = ip1" "xum x1 = xum x" "xsigs x1 = xsigs x" by (simp_all add: x1_def)
  have ca: "cache_ok d devs N n {} (bst (xfs x1))" "\<And>b. b_resid (bufs (bst (xfs x1)) b) = 0" using w(4) by (auto simp: x1 fs_ok_def fs_list_def Let_def ubuf_def)
  have wr1: "uio_rw (xuio x1) = UIO_WRITE" using wr by (simp add: x1)
  from rw_getbuf_write [OF ca(1) wr1 ca(2), of ?dev r env cnt] blk [OF rin] obtain c2 b where
    g: "rw_getbuf d env n ?dev r cnt x1 = Ok (x1\<lparr>xfs := st1\<lparr>bst := c2\<rparr>\<rparr>, b)" "binv d devs N (insert b {}) c2" "sees d devs (bst st1) c2" "calm (bst st1) c2" "got d ?dev r b c2"
      "cnt \<noteq> DEV_BSIZE \<longrightarrow> b_data (bufs c2 b) = ?V1 r" unfolding x1 by blast
  have rs: "b_resid (bufs c2 e) = 0" "uerror c2 = 0" for e using g(4) ca(2) w(5) by (auto simp: calm_def x1)
  define x2 where "x2 = x1\<lparr>xfs := st1\<lparr>bst := c2\<rparr>\<rparr>"
  have x2: "xfs x2 = st1\<lparr>bst := c2\<rparr>" "xuio x2 = xuio x" "xum x2 = xum x" "xsigs x2 = xsigs x" "xino x2 = ip1" "xbuf b x2 = bufs c2 b"
    by (simp_all add: x2_def x1 xbuf_def ubuf_def)
  define dat where "dat = mem_block (scatter (block_mem (b_data (bufs c2 b))) [blkoff ?o..<blkoff ?o + cnt] bs)"
  let ?f = "\<lambda>p. p\<lparr>b_data := dat\<rparr>"
  have "uio_ok (xuio x2)" "uio_rw (xuio x2) = UIO_WRITE" "cnt \<le> uio_resid (xuio x2)" "uerror (bst (xfs x2)) = 0"
    "0 \<le> uio_offset (xuio x2)" "uio_offset (xuio x2) + int cnt < 2 ^ 31" using ok' wr c(2) rs(2) by (auto simp: x2)
  from rw_move_write [OF this, of b "blkoff ?o"] obtain uio' where
    u: "rw_move b (blkoff ?o) cnt x2 = Ok (x2\<lparr>xuio := uio', xfs := st1\<lparr>bst := upd_buf b ?f c2\<rparr>\<rparr>)" "uio_ok uio'" "uaddrs (uio_iov uio') = drop cnt ?as"
      "uio_offset uio' = ?o + int cnt" "uio_rw uio' = UIO_WRITE" unfolding x2 dat_def bs_def by auto
  define x3 where "x3 = x2\<lparr>xuio := uio', xfs := st1\<lparr>bst := upd_buf b ?f c2\<rparr>\<rparr>"
  from rw_release_write [OF pa, of N b env n ioflag ruid "blkoff ?o" cnt] obtain wf where
    wf: "writer d devs N wf" "\<And>x c. uio_rw (xuio x) = UIO_WRITE \<Longrightarrow> i_flag (xino x) AND IPIPE = 0 \<Longrightarrow> wf b (bst (xfs x)) = Ok c \<Longrightarrow>
      rw_release d env n ioflag ruid b (blkoff ?o) cnt x = Ok (x\<lparr>xfs := (xfs x)\<lparr>bst := c\<rparr>, xino := mark ruid (xino x)\<rparr>)" by blast
  from write_use [OF wf(1) g(2) _ got_ready [OF g(5)], of ?f] obtain c3 where
    v: "wf b (upd_buf b ?f c2) = Ok c3" "binv d devs N {} c3" "puts d devs ?dev r dat c2 c3" "calm (upd_buf b ?f c2) c3" by auto
  define x4 where "x4 = x3\<lparr>xfs := st1\<lparr>bst := c3\<rparr>, xino := mark ruid ip1\<rparr>"
  have rl: "rw_release d env n ioflag ruid b (blkoff ?o) cnt x3 = Ok x4"
    using wf(2) [of x3 c3] u(5) w(9) v(1) by (simp add: x3_def x2 x4_def)
  have x4: "xfs x4 = st1\<lparr>bst := c3\<rparr>" "xuio x4 = uio'" "xino x4 = mark ruid ip1" "xsigs x4 = xsigs x" "xum x4 = xum x" by (simp_all add: x4_def x3_def x2)
  have pu: "puts d devs ?dev r dat (bst st1) c3" by (rule sees_puts [OF g(3) v(3)])
  have r3: "b_resid (bufs c3 e) = 0" "uerror c3 = 0" for e using v(4) rs by (auto simp: calm_def)
  have fo: "fs_ok d devs N n ?dev {} l1 (st1\<lparr>bst := c3\<rparr>)" by (rule fs_ok_puts [OF w(4) v(2) pu r3(1)]) (use blk [OF rin] in blast)
  let ?V3 = "view d c3 ?dev"
  have V3: "?V3 r = dat" "\<And>b. b \<in> set (file_blocks ?V1 (i_addr ip1)) \<Longrightarrow> b \<noteq> r \<Longrightarrow> ?V3 b = ?V1 b" using pu blk rin by (auto simp: puts_def)
  have nzr: "file_map ?V1 (i_addr ip1) (?o div 1024) \<noteq> 0" using w(13,14) by simp
  have fl: "file_ok ?V3 (i_addr ip1)" "file_blocks ?V3 (i_addr ip1) = file_blocks ?V1 (i_addr ip1)" "file_map ?V3 (i_addr ip1) = file_map ?V1 (i_addr ip1)"
    using file_leaf [OF w(11) nzr, of ?V3] V3(2) w(14) by auto
  have xv: "xview d x4 = ?V3" by (simp add: xview_def x4 w(8))
  have "file_byte ?V3 (i_addr ip1) = written (file_byte (xview d x) ?ad) ?o bs"
    by (rule write_bytes [OF w(11,14,13,15,16) _ V3(1) [unfolded dat_def blkoff_def bs [symmetric]] V3(2)]) (use w(17) g(6) c(3) in \<open>simp_all add: bs blkoff_def\<close>)
  then have co: "content d x4 = written (content d x) ?o bs" by (simp add: content_def xv x4)
  have ru: "uio_resid uio' = uio_resid (xuio x) - cnt" using u(2,3) as by (simp add: uio_ok_def)
  have sz: "i_size ip1 < 2 ^ 31" "uio_offset uio' + int (uio_resid uio') < 2 ^ 31" "0 \<le> uio_offset uio'" using w(10) ok' ru c(2) u(4) by auto
  have "rw_ok d devs N n l1 x4"
    unfolding rw_ok_def xv using ok' fo fl sz u r3 w(6-9) blk by (auto simp: x4 pipe_bit)
  moreover have "same_but d devs ({(?dev, SUPERB)} \<union> Pair ?dev ` (set (file_blocks (xview d x) ?ad) \<union> set p)) (bst (xfs x)) c3"
    by (rule same_but_mono [OF same_but_trans [OF w(18) same_but_puts [OF pu]]]) (use blk [OF rin] in auto)
  ultimately have wd: "write_done d devs N n cnt l x l1 x4"
    unfolding write_done_def using co w(2,8,10,12,19) u(3-5) c(2) wr fl(2) by (auto simp: x4 xv bs_def mark_type)
  have "rw_round d env fenv n typ ?dev ioflag ruid x = Ok (Inr (x4, 0, uio_resid (xuio x4) \<noteq> 0))"
    using w(1) g(1) rs(1) u(1) rl c(1,3) r3(2) g(5)
    by (simp add: rw_round_def Let_def x1_def [symmetric] x2_def [symmetric] x2(6) x3_def [symmetric] x4(1) min_absorb1 got_def bflag_bits)
  then show ?thesis using wd w(2,3) unfolding cnt_def by (intro exI [of _ x4] exI [of _ l1]) simp
qed

section \<open>All rounds\<close>

definition blocks_touched :: "int \<Rightarrow> nat \<Rightarrow> nat" where
  "blocks_touched off c = nat ((off + int c + 1023) div 1024 - off div 1024)"

lemma blocks_touched_pos: "c \<noteq> 0 \<Longrightarrow> 0 < blocks_touched off c"
proof -
  assume "c \<noteq> 0"
  then have "off + 1024 \<le> off + int c + 1023" by simp
  then have "(off + 1024) div 1024 \<le> (off + int c + 1023) div 1024" by (rule zdiv_mono1) simp
  then show ?thesis by (simp add: blocks_touched_def)
qed

lemma blocks_touched_step:
  assumes "0 \<le> off" "1024 - blkoff off < c"
  shows "Suc (blocks_touched (off + int (1024 - blkoff off)) (c - (1024 - blkoff off))) \<le> blocks_touched off c"
proof -
  have b: "int (blkoff off) = off mod 1024" "blkoff off < 1024" by (simp_all add: blkoff_def blkoff_less)
  then have k: "int (1024 - blkoff off) = 1024 - off mod 1024" by linarith
  have "off + (1024 - r) = 1024 * (q + 1)" if "1024 * q + r = off" for q r using that by (simp add: algebra_simps)
  from this [OF mult_div_mod_eq] have "off + (1024 - off mod 1024) = 1024 * (off div 1024 + 1)" .
  then have q: "(off + int (1024 - blkoff off)) div 1024 = off div 1024 + 1" unfolding k by (metis nonzero_mult_div_cancel_left zero_neq_numeral)
  have s: "off + int (1024 - blkoff off) + int (c - (1024 - blkoff off)) = off + int c" using assms(2) by simp
  have "c - (1024 - blkoff off) \<noteq> 0" using assms(2) by simp
  then have "0 < blocks_touched (off + int (1024 - blkoff off)) (c - (1024 - blkoff off))" by (rule blocks_touched_pos)
  then show ?thesis unfolding blocks_touched_def s q by linarith
qed

lemma rw_loop_write:
  "rw_ok d devs N n l x \<Longrightarrow> uio_rw (xuio x) = UIO_WRITE \<Longrightarrow> typ \<in> {IFDIR, IFREG, IFLNK} \<Longrightarrow> uio_resid (xuio x) \<noteq> 0 \<Longrightarrow> uio_resid (xuio x) < m \<Longrightarrow>
    4 * blocks_touched (uio_offset (xuio x)) (uio_resid (xuio x)) \<le> length l \<Longrightarrow>
    \<exists>x' l'. rw_loop d env fenv n typ (i_dev (xino x)) ioflag ruid m x = Ok (Inr (x', 0)) \<and> write_done d devs N n (uio_resid (xuio x)) l x l' x'"
proof (induction m arbitrary: x l)
  case (Suc m)
  note ok = Suc.prems(1)
  let ?o = "uio_offset (xuio x)" and ?c = "min (1024 - blkoff (uio_offset (xuio x))) (uio_resid (xuio x))"
  have l: "4 \<le> length l" using Suc.prems(6) blocks_touched_pos [OF Suc.prems(4), of ?o] by linarith
  have cp: "0 < ?c" using blkoff_less [of ?o] Suc.prems(4) by auto
  from rw_round_write [OF ok Suc.prems(2,3) l Suc.prems(4), of env fenv ioflag ruid] obtain x1 l1 where
    r: "rw_round d env fenv n typ (i_dev (xino x)) ioflag ruid x = Ok (Inr (x1, 0, uio_resid (xuio x1) \<noteq> 0))" "length l \<le> length l1 + 4" "write_done d devs N n ?c l x l1 x1" by blast
  note rs = write_done_resid [OF r(3) ok] and r' = r(3) [unfolded write_done_def]
  show ?case
  proof (cases "uio_resid (xuio x1) = 0")
    case True
    then have "?c = uio_resid (xuio x)" using rs by auto
    then have "write_done d devs N n (uio_resid (xuio x)) l x l1 x1" using r(3) by simp
    then show ?thesis using r(1) True by auto
  next
    case nz: False
    have c: "?c = 1024 - blkoff ?o" "1024 - blkoff ?o < uio_resid (xuio x)" using nz rs by auto
    have o1: "uio_offset (xuio x1) = ?o + int (1024 - blkoff ?o)" "uio_resid (xuio x1) = uio_resid (xuio x) - (1024 - blkoff ?o)" using r' rs unfolding c(1) by simp_all
    have "0 \<le> ?o" using ok by (simp add: rw_ok_def)
    from blocks_touched_step [OF this c(2)] have l1: "4 * blocks_touched (uio_offset (xuio x1)) (uio_resid (xuio x1)) \<le> length l1"
      using Suc.prems(6) r(2) unfolding o1 by linarith
    have m: "uio_resid (xuio x1) < m" using rs cp Suc.prems(4,5) by simp
    have k1: "rw_ok d devs N n l1 x1" "uio_rw (xuio x1) = UIO_WRITE" "i_dev (xino x1) = i_dev (xino x)" using r' Suc.prems(2) by simp_all
    from Suc.IH [OF k1(1,2) Suc.prems(3) nz m l1] obtain x2 l2 where
      w: "rw_loop d env fenv n typ (i_dev (xino x)) ioflag ruid m x1 = Ok (Inr (x2, 0))" "write_done d devs N n (uio_resid (xuio x1)) l1 x1 l2 x2" unfolding k1(3) by blast
    have "?c + uio_resid (xuio x1) = uio_resid (xuio x)" using rs by simp
    then have "write_done d devs N n (uio_resid (xuio x)) l x l2 x2" using write_done_trans [OF ok r(3) w(2)] by simp
    then show ?thesis using r(1) w(1) nz by auto
  qed
qed simp

end
