(* ===== verification/Ufs_Rwip.thy ===== *)
theory Ufs_Rwip
  imports Ufs_Io3
begin

text \<open>
  The properties of reading and writing a file.
\<close>

lemma rw_ok_touch: "rw_ok d devs N n l (upd_ino (\<lambda>ip. ip\<lparr>i_flag := i_flag ip OR IACC\<rparr>) x) = rw_ok d devs N n l x"
proof -
  have "(w OR 4) AND (0x1000 :: 32 word) = w AND 0x1000" for w by (simp add: bit.conj_disj_distrib2)
  then show ?thesis by (simp add: rw_ok_def xview_def)
qed

lemma content_touch: "content d (upd_ino (\<lambda>ip. ip\<lparr>i_flag := f ip\<rparr>) x) = content d x"
  by (simp add: content_def xview_def)

text \<open>What \<open>rwip\<close> does for a read of a regular file.\<close>

lemma rwip_read_spec:
  assumes ok: "rw_ok d devs N n l x" and rd: "uio_rw (xuio x) = UIO_READ" and t: "i_mode (xino x) AND IFMT = IFREG"
  shows "\<exists>x'. rwip cdev d env fenv n ruid fsize ioflag x = Ok (x', 0) \<and> rw_ok d devs N n l x' \<and> sees d devs (bst (xfs x)) (bst (xfs x')) \<and> content d x' = content d x
     \<and> (\<exists>lr w. xino x' = (xino x)\<lparr>i_lastr := lr, i_flag := w\<rparr>)
     \<and> (let c = min (uio_resid (xuio x)) (nat (i_size (xino x) - uio_offset (xuio x)))
        in uio_resid (xuio x') = uio_resid (xuio x) - c \<and> uio_offset (xuio x') = uio_offset (xuio x) + int c
         \<and> xum x' = scatter (xum x) (take c (uaddrs (uio_iov (xuio x)))) (map (\<lambda>k. content d x (uio_offset (xuio x) + int k)) [0..<c]))"
proof -
  define x0 where "x0 = (if fs_flags (sb (xfs x)) AND MNT_NOATIME = 0 then upd_ino (\<lambda>ip. ip\<lparr>i_flag := i_flag ip OR IACC\<rparr>) x else x)"
  define io where "io = ioflag AND NOT IO_SYNC"
  have x0: "xfs x0 = xfs x" "xuio x0 = xuio x" "xum x0 = xum x" "\<exists>w. xino x0 = (xino x)\<lparr>i_flag := w\<rparr>" "content d x0 = content d x" "rw_ok d devs N n l x0"
    using ok by (auto simp: x0_def rw_ok_touch content_touch intro: exI [of _ "i_flag (xino x)"])
  then have d0: "i_dev (xino x0) = i_dev (xino x)" "i_size (xino x0) = i_size (xino x)" "i_mode (xino x0) = i_mode (xino x)" by auto
  let ?c = "min (uio_resid (xuio x)) (nat (i_size (xino x) - uio_offset (xuio x)))"
  show ?thesis
  proof (cases "uio_resid (xuio x) = 0")
    case True
    have "rwip cdev d env fenv n ruid fsize ioflag x = Ok (x0, 0)"
      using rd t True x0(2) by (simp add: rwip_def Let_def x0_def [symmetric])
    moreover have "\<exists>lr w. xino x0 = (xino x)\<lparr>i_lastr := lr, i_flag := w\<rparr>" using x0(4) by (metis inode.surjective inode.update_convs(1) inode.update_convs(15))
    ultimately show ?thesis using True x0 sees_refl by (auto simp: scatter_def)
  next
    case False
    from rw_loop_read [OF x0(6), of IFREG "Suc (uio_resid (xuio x))" env fenv io ruid] obtain x' where
      l: "rw_loop d env fenv n IFREG (i_dev (xino x)) io ruid (Suc (uio_resid (xuio x))) x0 \<in> {Ok (Inl (x', 0)), Ok (Inr (x', 0))}" "read_done d devs N n l ?c x0 x'"
      using rd False unfolding x0(2) d0 by auto
    note r' = l(2) [unfolded read_done_def]
    have ue: "uerror (bst (xfs x')) = 0" using r' by (simp add: rw_ok_def)
    have io: "ioflag AND - 5 = io" by (simp add: io_def)
    have "rwip cdev d env fenv n ruid fsize ioflag x = Ok (x', 0)"
      using rd t False x0(2) d0(1) l(1) ue by (auto simp: rwip_def Let_def x0_def [symmetric] io rw_finish_def simp del: rw_loop.simps)
    moreover have "\<exists>lr w. xino x' = (xino x)\<lparr>i_lastr := lr, i_flag := w\<rparr>"
    proof -
      from r' obtain lr where "xino x' = (xino x0)\<lparr>i_lastr := lr\<rparr>" by blast
      moreover from x0(4) obtain w where "xino x0 = (xino x)\<lparr>i_flag := w\<rparr>" by blast
      ultimately have "xino x' = (xino x)\<lparr>i_lastr := lr, i_flag := w\<rparr>" by simp
      then show ?thesis by blast
    qed
    ultimately show ?thesis using r' read_done_resid [OF l(2) x0(6)] x0 by (auto simp: Let_def)
  qed
qed

lemma rwip_write_spec:
  assumes ok: "rw_ok d devs N n l x" and wr: "uio_rw (xuio x) = UIO_WRITE" and t: "i_mode (xino x) AND IFMT = IFREG"
    and ap: "ioflag AND IO_APPEND = 0" "i_flags (xino x) AND APPEND = 0" and lim: "uio_offset (xuio x) + int (uio_resid (xuio x)) \<le> fsize" "fsize < 2 ^ 31"
    and l: "4 * blocks_touched (uio_offset (xuio x)) (uio_resid (xuio x)) \<le> length l" and nz: "uio_resid (xuio x) \<noteq> 0"
  shows "\<exists>x' l'. rwip cdev d env fenv n ruid fsize ioflag x = Ok (x', 0) \<and> write_done d devs N n (uio_resid (xuio x)) l x l' x'"
proof -
  define io where "io = ioflag AND NOT IO_SYNC"
  have ok': "0 \<le> uio_offset (xuio x)" using ok by (simp add: rw_ok_def)
  have f: "\<not> (uio_offset (xuio x) + int (uio_resid (xuio x))) mod 2 ^ 32 > fsize mod 2 ^ 32" using lim ok' by (simp add: mod_pos_pos_trivial)
  from rw_loop_write [OF ok wr _ nz _ l, of IFREG "Suc (uio_resid (xuio x))" env fenv io ruid] obtain x' l' where
    w: "rw_loop d env fenv n IFREG (i_dev (xino x)) io ruid (Suc (uio_resid (xuio x))) x = Ok (Inr (x', 0))" "write_done d devs N n (uio_resid (xuio x)) l x l' x'" by auto
  have ue: "uerror (bst (xfs x')) = 0" using w(2) by (simp add: write_done_def rw_ok_def)
  have io: "ioflag AND - 5 = io" by (simp add: io_def)
  have "rwip cdev d env fenv n ruid fsize ioflag x = Ok (x', 0)"
    using wr t ap nz f w(1) ue by (simp add: rwip_def Let_def io rw_finish_def del: rw_loop.simps)
  with w(2) show ?thesis by blast
qed

section \<open>A small file\<close>

definition rw_ex :: "uio_dir \<Rightarrow> nat \<Rightarrow> rwst" where
  "rw_ex dir c = \<lparr>xfs = ufs_ex, xino = ino_ex, xum = (\<lambda>a. of_nat a), xuio = \<lparr>uio_iov = [\<lparr>iov_base = 100, iov_len = c\<rparr>], uio_iovcnt = 1, uio_offset = 5, uio_resid = c, uio_rw = dir\<rparr>,
     xsigs = [], xwakes = 0\<rparr>"

lemma rw_ex_ok: "c < 1000 \<Longrightarrow> rw_ok disk_fs {0} 3 5 [6, 5, 4, 3] (rw_ex dir c)"
proof -
  assume c: "c < 1000"
  have s: "sb ufs_ex = fs_ex" "fs_isize fs_ex = 2" "fs_fsize fs_ex = 8" "i_dev ino_ex = 0" "i_size ino_ex = 0" "i_flag ino_ex = 0" by (simp_all add: ufs_ex_def fs_ex_def ino_ex_def)
  have "uerror (bst ufs_ex) = 0" by (simp add: ufs_ex_def binit_def binit_loop_uerror bhinit_def bio_ex_def)
  then show ?thesis using ufs_ex_ok ino_ex_ok c by (simp add: rw_ok_def rw_ex_def s ino_ex_blocks uio_ok_def uaddrs_Cons)
qed

lemma rw_ex_simps:
  "uio_rw (xuio (rw_ex dir c)) = dir" "i_mode (xino (rw_ex dir c)) AND IFMT = IFREG" "i_flags (xino (rw_ex dir c)) AND APPEND = 0" "uio_offset (xuio (rw_ex dir c)) = 5"
  "uio_resid (xuio (rw_ex dir c)) = c" "uaddrs (uio_iov (xuio (rw_ex dir c))) = [100..<100 + c]" "xum (rw_ex dir c) = of_nat" "i_size (xino (rw_ex dir c)) = 0"
  by (simp_all add: rw_ex_def ino_ex_def uaddrs_Cons fun_eq_iff)

section \<open>Properties\<close>

text \<open>
  C11. A write to a regular file. When the free list has room, \<open>rwip\<close> returns without an error, all bytes of the request are transferred,
  the file then holds them at the offset and elsewhere what it held before, its size covers them, the blocks taken from the free list
  are now the file's, and no block outside the file has changed, the super block and those blocks apart.
\<close>

theorem rwip_writes_file:
  assumes "rw_ok d devs nbuf n l x" "uio_rw (xuio x) = UIO_WRITE" "i_mode (xino x) AND IFMT = IFREG" "ioflag AND IO_APPEND = 0" "i_flags (xino x) AND APPEND = 0"
    and "uio_offset (xuio x) + int (uio_resid (xuio x)) \<le> fsize" "fsize < 2 ^ 31" "uio_resid (xuio x) \<noteq> 0"
    and "4 * blocks_touched (uio_offset (xuio x)) (uio_resid (xuio x)) \<le> length l"
  shows "\<exists>x' p l'. rwip cdev d env fenv n ruid fsize ioflag x = Ok (x', 0) \<and> uio_resid (xuio x') = 0 \<and> l = p @ l' \<and> rw_ok d devs nbuf n l' x'
     \<and> content d x' = written (content d x) (uio_offset (xuio x)) (map (xum x) (uaddrs (uio_iov (xuio x))))
     \<and> i_size (xino x') = max (i_size (xino x)) (uio_offset (xuio x) + int (uio_resid (xuio x)))
     \<and> set (file_blocks (xview d x') (i_addr (xino x'))) = set (file_blocks (xview d x) (i_addr (xino x))) \<union> set p
     \<and> (\<forall>dev blk. usable d devs dev blk \<longrightarrow> (dev, blk) \<noteq> (i_dev (xino x), SUPERB) \<longrightarrow>
          \<not> (dev = i_dev (xino x) \<and> blk \<in> set (file_blocks (xview d x) (i_addr (xino x))) \<union> set p) \<longrightarrow> view d (bst (xfs x')) dev blk = view d (bst (xfs x)) dev blk)"
proof -
  from rwip_write_spec [OF assms(1-7,9,8), of cdev env fenv ruid] obtain x' l' where
    w: "rwip cdev d env fenv n ruid fsize ioflag x = Ok (x', 0)" "write_done d devs nbuf n (uio_resid (xuio x)) l x l' x'" by blast
  note w' = w(2) [unfolded write_done_def]
  from w' obtain p where p: "l = p @ l'" "set (file_blocks (xview d x') (i_addr (xino x'))) = set (file_blocks (xview d x) (i_addr (xino x))) \<union> set p"
    "same_but d devs ({(i_dev (xino x), SUPERB)} \<union> Pair (i_dev (xino x)) ` (set (file_blocks (xview d x) (i_addr (xino x))) \<union> set p)) (bst (xfs x)) (bst (xfs x'))" by blast
  have "length (uaddrs (uio_iov (xuio x))) = uio_resid (xuio x)" using assms(1) by (simp add: rw_ok_def uio_ok_def)
  then show ?thesis using w(1) w' p write_done_resid [OF w(2) assms(1)] unfolding same_but_def by (intro exI [of _ x'] exI [of _ p] exI [of _ l']) auto
qed

theorem rwip_writes_file_witness:
  "\<exists>x'. rwip (\<lambda>_ _ _ x. Ok (x, 0)) disk_fs (\<lambda>_ c. c) (\<lambda>_ st. st) 5 0 1000 0 (rw_ex UIO_WRITE 3) = Ok (x', 0) \<and> i_size (xino x') = 8 \<and> content disk_fs x' 6 = 101"
proof -
  have "rw_ok disk_fs {0} 3 5 [6, 5, 4, 3] (rw_ex UIO_WRITE 3)" by (rule rw_ex_ok) simp
  from rwip_writes_file [OF this, of 0 1000 "\<lambda>_ _ _ x. Ok (x, 0)" "\<lambda>_ c. c" "\<lambda>_ st. st" 0] show ?thesis
    unfolding rw_ex_simps by (auto simp: blocks_touched_def written_def)
qed

text \<open>
  C12. A read of a regular file. \<open>rwip\<close> returns without an error; it has transferred the bytes of the file from the offset on, as many as were
  asked for or up to the end of the file, holes as zeroes, in the order of the vectors, and nothing that anyone can read has
  changed.
\<close>

theorem rwip_reads_file:
  assumes "rw_ok d devs nbuf n l x" "uio_rw (xuio x) = UIO_READ" "i_mode (xino x) AND IFMT = IFREG"
  shows "\<exists>x'. rwip cdev d env fenv n ruid fsize ioflag x = Ok (x', 0) \<and> rw_ok d devs nbuf n l x' \<and> content d x' = content d x
     \<and> (\<forall>dev blk. usable d devs dev blk \<longrightarrow> view d (bst (xfs x')) dev blk = view d (bst (xfs x)) dev blk)
     \<and> (let c = min (uio_resid (xuio x)) (nat (i_size (xino x) - uio_offset (xuio x)))
        in uio_resid (xuio x') = uio_resid (xuio x) - c \<and> uio_offset (xuio x') = uio_offset (xuio x) + int c
         \<and> xum x' = scatter (xum x) (take c (uaddrs (uio_iov (xuio x)))) (map (\<lambda>k. content d x (uio_offset (xuio x) + int k)) [0..<c]))"
  using rwip_read_spec [OF assms, of cdev env fenv ruid fsize ioflag] by (auto simp: sees_def)

theorem rwip_reads_file_witness:
  "\<exists>x'. rwip (\<lambda>_ _ _ x. Ok (x, 0)) disk_fs (\<lambda>_ c. c) (\<lambda>_ st. st) 5 0 1000 0 ((rw_ex UIO_READ 3)\<lparr>xino := ino_ex\<lparr>i_size := 7\<rparr>\<rparr>) = Ok (x', 0) \<and> uio_resid (xuio x') = 1"
proof -
  let ?x = "(rw_ex UIO_READ 3)\<lparr>xino := ino_ex\<lparr>i_size := 7\<rparr>\<rparr>"
  have "rw_ok disk_fs {0} 3 5 [6, 5, 4, 3] (rw_ex UIO_READ 3)" by (rule rw_ex_ok) simp
  then have "rw_ok disk_fs {0} 3 5 [6, 5, 4, 3] ?x" by (simp add: rw_ok_def xview_def rw_ex_def)
  from rwip_reads_file [OF this, of "\<lambda>_ _ _ x. Ok (x, 0)" "\<lambda>_ c. c" "\<lambda>_ st. st" 0 1000 0] show ?thesis
    by (auto simp: Let_def rw_ex_def ino_ex_def)
qed

text \<open>
  C13. What has been written is read back. After a write to a regular file, a read of the same range, into whatever place of memory, gives
  the bytes that were written.
\<close>

theorem rwip_roundtrip:
  assumes "rw_ok d devs nbuf n l x" "uio_rw (xuio x) = UIO_WRITE" "i_mode (xino x) AND IFMT = IFREG" "ioflag AND IO_APPEND = 0" "i_flags (xino x) AND APPEND = 0"
    and "uio_offset (xuio x) + int (uio_resid (xuio x)) \<le> fsize" "fsize < 2 ^ 31" "uio_resid (xuio x) \<noteq> 0"
    and "4 * blocks_touched (uio_offset (xuio x)) (uio_resid (xuio x)) \<le> length l"
    and "uio_ok uio" "uio_rw uio = UIO_READ" "uio_offset uio = uio_offset (xuio x)" "uio_resid uio = uio_resid (xuio x)" "distinct (uaddrs (uio_iov uio))"
  shows "\<exists>x' x2. rwip cdev d env fenv n ruid fsize ioflag x = Ok (x', 0) \<and> rwip cdev d env fenv n ruid fsize ioflag2 (x'\<lparr>xuio := uio, xum := um\<rparr>) = Ok (x2, 0)
     \<and> uio_resid (xuio x2) = 0 \<and> map (xum x2) (uaddrs (uio_iov uio)) = map (xum x) (uaddrs (uio_iov (xuio x)))"
proof -
  from rwip_write_spec [OF assms(1-7,9,8), of cdev env fenv ruid] obtain x' l' where
    w: "rwip cdev d env fenv n ruid fsize ioflag x = Ok (x', 0)" "write_done d devs nbuf n (uio_resid (xuio x)) l x l' x'" by auto
  note w' = w(2) [unfolded write_done_def]
  let ?y = "x'\<lparr>xuio := uio, xum := um\<rparr>" and ?c = "uio_resid (xuio x)" and ?o = "uio_offset (xuio x)" and ?as = "uaddrs (uio_iov (xuio x))" and ?bs = "uaddrs (uio_iov uio)"
  have len: "length ?as = ?c" "length ?bs = ?c" using assms(1,10,13) by (simp_all add: rw_ok_def uio_ok_def)
  have "rw_ok d devs nbuf n l' x'" using w' by blast
  then have ok: "rw_ok d devs nbuf n l' ?y" using assms(1,10,12,13) by (auto simp: rw_ok_def xview_def)
  have c: "min (uio_resid (xuio ?y)) (nat (i_size (xino ?y) - uio_offset (xuio ?y))) = ?c" using w' assms(12,13) by auto
  have ct: "content d ?y = content d x'" by (simp add: content_def xview_def)
  from rwip_read_spec [OF ok, of cdev env fenv ruid fsize ioflag2, unfolded c Let_def] assms(11-13) w' assms(3) obtain x2 where
    r: "rwip cdev d env fenv n ruid fsize ioflag2 ?y = Ok (x2, 0)" "uio_resid (xuio x2) = 0" "xum x2 = scatter um ?bs (map (\<lambda>k. content d x' (?o + int k)) [0..<?c])"
    unfolding ct using len by auto
  have "map (xum x2) ?bs = map (xum x) ?as"
  proof (rule nth_equalityI)
    fix i assume "i < length (map (xum x2) ?bs)"
    then have i: "i < ?c" using len by simp
    have "xum x2 (?bs ! i) = content d x' (?o + int i)" using r(3) scatter_nth [OF assms(14), of "map (\<lambda>k. content d x' (?o + int k)) [0..<?c]" i um] i len by simp
    also have "\<dots> = xum x (?as ! i)" using w' i len by (simp add: written_def)
    finally show "map (xum x2) ?bs ! i = map (xum x) ?as ! i" using i len by simp
  qed (simp add: len)
  then show ?thesis using w(1) r(1,2) by blast
qed

theorem rwip_roundtrip_witness:
  "\<exists>x' x2. rwip (\<lambda>_ _ _ x. Ok (x, 0)) disk_fs (\<lambda>_ c. c) (\<lambda>_ st. st) 5 0 1000 0 (rw_ex UIO_WRITE 3) = Ok (x', 0)
     \<and> rwip (\<lambda>_ _ _ x. Ok (x, 0)) disk_fs (\<lambda>_ c. c) (\<lambda>_ st. st) 5 0 1000 0 (x'\<lparr>xuio := (xuio (rw_ex UIO_READ 3))\<lparr>uio_iov := [\<lparr>iov_base = 200, iov_len = 3\<rparr>]\<rparr>, xum := \<lambda>_. 0\<rparr>) = Ok (x2, 0)
     \<and> uio_resid (xuio x2) = 0 \<and> map (xum x2) [200, 201, 202] = [100, 101, 102]"
proof -
  let ?uio = "(xuio (rw_ex UIO_READ 3))\<lparr>uio_iov := [\<lparr>iov_base = 200, iov_len = 3\<rparr>]\<rparr>"
  have ok: "rw_ok disk_fs {0} 3 5 [6, 5, 4, 3] (rw_ex UIO_WRITE 3)" by (rule rw_ex_ok) simp
  have uio: "uio_ok ?uio" "uio_rw ?uio = UIO_READ" "uio_offset ?uio = 5" "uio_resid ?uio = 3" "uaddrs (uio_iov ?uio) = [200, 201, 202]"
    by (simp_all add: rw_ex_def uio_ok_def uaddrs_Cons upt_rec)
  have as: "[100..<100 + 3] = [100, 101, 102 :: nat]" by (simp add: upt_rec)
  from rwip_roundtrip [OF ok, of 0 1000 ?uio "\<lambda>_ _ _ x. Ok (x, 0)" "\<lambda>_ c. c" "\<lambda>_ st. st" 0 0 "\<lambda>_. 0"] show ?thesis
    unfolding rw_ex_simps uio(2-) as by (simp add: uio(1) blocks_touched_def)
qed

end
