(* ===== verification/Ufs_Prune.thy ===== *)
theory Ufs_Prune
  imports Ufs_Leaf Ufs_Inode Bio_Blank
begin

text \<open>
  Truncation of one tree of blocks: \<open>indirtrunc\<close> gives back exactly the blocks behind the last one to be kept, and the tree that stays
  maps the others as before.
\<close>

section \<open>The way to a place\<close>

text \<open>The blocks met on the way to a place of a tree, and that every block of a tree lies on the way to one that is kept.\<close>

primrec path :: "nat \<Rightarrow> (int \<Rightarrow> block) \<Rightarrow> int \<Rightarrow> int \<Rightarrow> int set" where
  "path 0 V q nb = (if nb = 0 then {} else {nb})"
| "path (Suc k) V q nb = (if nb = 0 then {} else insert nb (path k V q (ptr V nb (slot q k))))"

definition led :: "nat \<Rightarrow> (int \<Rightarrow> block) \<Rightarrow> int \<Rightarrow> int \<Rightarrow> bool" where
  "led h V m nb \<longleftrightarrow> (\<forall>b\<in>set (nodes h V nb). \<exists>q. 0 \<le> q \<and> q \<le> m \<and> q < 2 ^ (8 * h) \<and> b \<in> path h V q nb)"

text \<open>The ways to the places up to \<open>m\<close> are as they were.\<close>

definition ways :: "nat \<Rightarrow> (int \<Rightarrow> block) \<Rightarrow> (int \<Rightarrow> block) \<Rightarrow> int \<Rightarrow> int \<Rightarrow> bool" where
  "ways h V V' m nb \<longleftrightarrow> (\<forall>q. 0 \<le> q \<and> q \<le> m \<and> q < 2 ^ (8 * h) \<longrightarrow> path h V' q nb = path h V q nb)"

lemma path_zero [simp]: "path k V q 0 = {}" by (cases k) auto

lemma path_nodes: "path k V q nb \<subseteq> set (nodes k V nb)"
proof (induction k arbitrary: nb)
  case (Suc k)
  show ?case
  proof (cases "nb = 0")
    case False
    then show ?thesis using Suc [of "ptr V nb (slot q k)"] slot_less [of q k] unfolding nodes_Suc [OF False] by auto
  qed simp
qed simp

lemma path_cong: "\<forall>b\<in>set (nodes k V nb). V' b = V b \<Longrightarrow> path k V' q nb = path k V q nb"
proof (induction k arbitrary: nb)
  case (Suc k)
  show ?case
  proof (cases "nb = 0")
    case False
    then have p: "ptr V' nb = ptr V nb" using Suc.prems by (auto simp: ptr_def fun_eq_iff nodes_Suc)
    have "path k V' q (ptr V nb (slot q k)) = path k V q (ptr V nb (slot q k))"
      by (rule Suc.IH) (use Suc.prems False slot_less in \<open>auto simp: nodes_Suc\<close>)
    then show ?thesis using p by simp
  qed simp
qed simp

lemma slot_mod: "j < k \<Longrightarrow> slot (q mod 2 ^ (8 * k)) j = slot q j"
proof -
  assume "j < k"
  then obtain e where "8 * k = 8 * j + (8 + 8 * e)" by (metis add_mult_distrib2 less_natE mult_Suc_right add_Suc_right)
  then have "(2 :: int) ^ (8 * k) = 2 ^ (8 * j) * (2 ^ 8 * 2 ^ (8 * e))" by (simp add: power_add)
  then have "q mod 2 ^ (8 * k) div 2 ^ (8 * j) = q div 2 ^ (8 * j) mod (256 * 2 ^ (8 * e))" by (simp add: zmod_zmult2_eq)
  then show ?thesis by (simp add: slot_def mod_mod_cancel)
qed

lemma through_slots: "\<forall>j<k. slot q j = slot q' j \<Longrightarrow> through k V q nb = through k V q' nb"
  by (induction k arbitrary: nb) (simp_all add: through.simps(2))

lemma path_slots: "\<forall>j<k. slot q j = slot q' j \<Longrightarrow> path k V q nb = path k V q' nb"
  by (induction k arbitrary: nb) simp_all

lemma through_mod: "through k V (q mod 2 ^ (8 * k)) nb = through k V q nb"
  by (rule through_slots) (simp add: slot_mod)

lemma path_mod: "path k V (q mod 2 ^ (8 * k)) nb = path k V q nb"
  by (rule path_slots) (simp add: slot_mod)

text \<open>Place \<open>q\<close> of the \<open>i\<close>-th subtree.\<close>

lemma path_sub:
  assumes "nb \<noteq> 0" "i < 256" "0 \<le> q" "q < 2 ^ (8 * k)"
  shows "path (Suc k) V (int i * 2 ^ (8 * k) + q) nb = insert nb (path k V q (ptr V nb i))" "int i * 2 ^ (8 * k) + q < 2 ^ (8 * Suc k)"
proof -
  define f :: int where "f = 2 ^ (8 * k)"
  have f: "0 < f" "(2 :: int) ^ (8 * Suc k) = 256 * f" by (simp_all add: f_def power_add)
  have d: "(int i * f + q) div f = int i" "(int i * f + q) mod f = q"
    using assms(3,4) f(1) by (auto simp: f_def [symmetric] add.commute)
  have s: "slot (int i * f + q) k = i" using d(1) assms(2) by (simp add: slot_def f_def)
  have "path k V (int i * f + q) (ptr V nb i) = path k V q (ptr V nb i)" using path_mod [of k V "int i * f + q"] d(2) by (simp add: f_def)
  then show "path (Suc k) V (int i * 2 ^ (8 * k) + q) nb = insert nb (path k V q (ptr V nb i))" using assms(1) s by (simp add: f_def)
  have "int i * f \<le> 255 * f" using assms(2) f(1) by (intro mult_right_mono) auto
  then show "int i * 2 ^ (8 * k) + q < 2 ^ (8 * Suc k)" unfolding f(2) f_def [symmetric] using assms(4) by (simp add: f_def [symmetric])
qed

lemma nodes_path: "b \<in> set (nodes k V nb) \<Longrightarrow> \<exists>q. 0 \<le> q \<and> q < 2 ^ (8 * k) \<and> b \<in> path k V q nb"
proof (induction k arbitrary: nb)
  case 0
  then show ?case by (intro exI [of _ 0]) (simp split: if_splits)
next
  case (Suc k)
  then have nb: "nb \<noteq> 0" by auto
  show ?case
  proof (cases "b = nb")
    case True
    then show ?thesis using nb by (intro exI [of _ 0]) simp
  next
    case False
    then obtain i where i: "i < 256" "b \<in> set (nodes k V (ptr V nb i))" using Suc.prems unfolding nodes_Suc [OF nb] by auto
    from Suc.IH [OF i(2)] obtain q where q: "0 \<le> q" "q < 2 ^ (8 * k)" "b \<in> path k V q (ptr V nb i)" by blast
    show ?thesis using path_sub(1) [OF nb i(1) q(1,2), of V] path_sub(2) [OF nb i(1) q(1,2)] q by (intro exI [of _ "int i * 2 ^ (8 * k) + q"]) simp
  qed
qed

lemma led_all: "2 ^ (8 * h) \<le> m + 1 \<Longrightarrow> led h V m nb"
  unfolding led_def using nodes_path [of _ h V nb] by (meson order.trans zle_add1_eq_le less_le_trans)

lemma led_cong: "led h V m nb \<Longrightarrow> \<forall>b\<in>set (nodes h V nb). V' b = V b \<Longrightarrow> led h V' m nb"
  using tree_frame [of h V nb V'] path_cong [of h V nb V'] unfolding led_def by simp

lemma led_zero [simp]: "led h V m 0" "ways h V V' m 0"
  by (simp_all add: led_def ways_def)

lemma ways_cong:
  "\<forall>b\<in>set (nodes h V nb). V1 b = V b \<Longrightarrow> ways h V1 V' m nb = ways h V V' m nb"
  "\<forall>b\<in>set (nodes h V' nb). V1 b = V' b \<Longrightarrow> ways h V V1 m nb = ways h V V' m nb"
  "\<forall>b\<in>set (nodes h V nb). V' b = V b \<Longrightarrow> ways h V V' m nb"
  using path_cong [of h V nb V1] path_cong [of h V' nb V1] path_cong [of h V nb V'] unfolding ways_def by simp_all

section \<open>Trees cut off behind a place\<close>

definition pruned :: "nat \<Rightarrow> (int \<Rightarrow> block) \<Rightarrow> (int \<Rightarrow> block) \<Rightarrow> int \<Rightarrow> int \<Rightarrow> int list \<Rightarrow> bool" where
  "pruned h V V' m nb p \<longleftrightarrow> tree_ok h V' nb \<and> set (nodes h V nb) = set p \<union> set (nodes h V' nb) \<and> set p \<inter> set (nodes h V' nb) = {}
     \<and> (\<forall>q. 0 \<le> q \<and> q < 2 ^ (8 * h) \<longrightarrow> through h V' q nb = (if q \<le> m then through h V q nb else 0))
     \<and> (m < 0 \<longrightarrow> set (nodes h V' nb) \<subseteq> {nb}) \<and> (0 \<le> m \<longrightarrow> led h V' m nb \<and> ways h V V' m nb)"

lemma pruned_zero: "pruned h V V' m 0 []" by (simp add: pruned_def)

lemma pruned_leaf: "pruned 0 V V' 0 nb []" using led_all [of 0 0 V' nb] by (auto simp: pruned_def tree_ok_def ways_def)

lemma pruned_left:
  assumes "\<forall>b\<in>set (nodes h V nb). V1 b = V b"
  shows "pruned h V1 V' m nb p = pruned h V V' m nb p"
  using tree_frame [OF assms] ways_cong(1) [OF assms] by (simp add: pruned_def)

lemma pruned_right:
  assumes "pruned h V V' m nb p" "\<forall>b\<in>set (nodes h V nb). V1 b = V' b"
  shows "pruned h V V1 m nb p"
proof -
  have "\<forall>b\<in>set (nodes h V' nb). V1 b = V' b" using assms by (auto simp: pruned_def)
  from tree_frame [OF this] led_cong [OF _ this] ways_cong(2) [OF this] show ?thesis using assms(1) by (simp add: pruned_def tree_ok_def)
qed

lemma inner_cong: "\<forall>b\<in>set (nodes k V nb). V' b = V b \<Longrightarrow> inner k V' nb = inner k V nb"
proof (induction k arbitrary: nb)
  case (Suc k)
  show ?case
  proof (cases "nb = 0")
    case False
    then have p: "ptr V' nb = ptr V nb" using Suc.prems by (auto simp: ptr_def fun_eq_iff nodes_Suc)
    have "inner k V' (ptr V nb i) = inner k V (ptr V nb i)" if "i < 256" for i
      by (rule Suc.IH) (use Suc.prems False that in \<open>auto simp: nodes_Suc\<close>)
    then show ?thesis using p by auto
  qed simp
qed simp

lemma le_div_mod:
  fixes q m f :: int
  assumes "0 < f"
  shows "q \<le> m \<longleftrightarrow> q div f < m div f \<or> q div f = m div f \<and> q mod f \<le> m mod f"
proof -
  have "q = f * (q div f) + q mod f" "m = f * (m div f) + m mod f" by simp_all
  moreover have "0 \<le> q mod f" "q mod f < f" "0 \<le> m mod f" "m mod f < f" using assms by simp_all
  moreover have "a = f * x + r \<Longrightarrow> b = f * y + s \<Longrightarrow> 0 \<le> r \<Longrightarrow> r < f \<Longrightarrow> 0 \<le> s \<Longrightarrow> s < f \<Longrightarrow> a \<le> b \<longleftrightarrow> x < y \<or> x = y \<and> r \<le> s" for a b x y r s
  proof -
    assume h: "a = f * x + r" "b = f * y + s" "0 \<le> r" "r < f" "0 \<le> s" "s < f"
    consider "x < y" | "x = y" | "y < x" by linarith
    then show ?thesis
    proof cases
      case 1
      then have "f * (x + 1) \<le> f * y" using assms by (intro mult_left_mono) auto
      then show ?thesis using h 1 by (simp add: distrib_left)
    next
      case 3
      then have "f * (y + 1) \<le> f * x" using assms by (intro mult_left_mono) auto
      then show ?thesis using h 3 by (simp add: distrib_left)
    qed (use h in simp)
  qed
  ultimately show ?thesis by metis
qed

lemma div_bound:
  fixes q f x :: int
  assumes "0 < f" "q < x * f"
  shows "q div f < x"
  using le_div_mod [OF assms(1), of "x * f" q] assms by auto

lemma pruned_join:
  assumes t: "tree_ok (Suc k) V nb" "nb \<noteq> 0" and m: "- 1 \<le> m" "m < 2 ^ (8 * Suc k)"
    and b: "V' nb = take (nat (m div 2 ^ (8 * k) + 1)) (V nb) @ replicate (256 - nat (m div 2 ^ (8 * k) + 1)) 0"
    and low: "\<And>i b. i < 256 \<Longrightarrow> int i < m div 2 ^ (8 * k) \<Longrightarrow> b \<in> set (nodes k V (ptr V nb i)) \<Longrightarrow> V' b = V b"
    and mid: "if 0 \<le> m then pruned k V V' (m mod 2 ^ (8 * k)) (ptr V nb (nat (m div 2 ^ (8 * k)))) p2 else p2 = []"
    and high: "set p1 = (\<Union>i\<in>{i. i < 256 \<and> m div 2 ^ (8 * k) < int i}. set (nodes k V (ptr V nb i)))"
  shows "pruned (Suc k) V V' m nb (p2 @ p1)"
proof -
  define f :: int where "f = 2 ^ (8 * k)"
  define c where "c = m div f"
  have f: "0 < f" "(2 :: int) ^ (8 * Suc k) = 256 * f" by (simp_all add: f_def power_add)
  have c: "- 1 \<le> c" "c < 256" "0 \<le> m \<longleftrightarrow> 0 \<le> c"
  proof -
    have "(- 1) div f \<le> m div f" by (rule zdiv_mono1 [OF m(1) f(1)])
    moreover have "(- 1) div f = - 1" using f(1) int_div_pos_eq [of "- 1" f "- 1" "f - 1"] by simp
    ultimately show "- 1 \<le> c" by (simp add: c_def)
    show "c < 256" using m(2) div_bound [OF f(1), of m 256] unfolding f(2) c_def by blast
    show "0 \<le> m \<longleftrightarrow> 0 \<le> c" using f(1) by (simp add: c_def pos_imp_zdiv_nonneg_iff)
  qed
  note b = b [folded f_def, folded c_def] and low = low [folded f_def, folded c_def] and mid = mid [folded f_def, folded c_def, unfolded c(3)] and high = high [folded f_def, folded c_def]
  note t' = t(1) [unfolded tree_ok_Suc [OF t(2)]]
  let ?N = "\<lambda>i. set (nodes k V (ptr V nb i))" and ?M = "\<lambda>i. set (nodes k V' (ptr V' nb i))"
  have len: "length (V nb) = 256" using t' by blast
  have p: "ptr V' nb i = (if int i \<le> c then ptr V nb i else 0)" if "i < 256" for i
  proof (cases "int i \<le> c")
    case True
    then have "i < nat (c + 1)" by linarith
    then show ?thesis using True that len unfolding ptr_def b by (simp add: nth_append)
  next
    case False
    then have "nat (c + 1) \<le> i" by linarith
    then show ?thesis using False that len unfolding ptr_def b by (simp add: nth_append)
  qed
  have lo: "nodes k V' (ptr V nb i) = nodes k V (ptr V nb i) \<and> (\<forall>bn. through k V' bn (ptr V nb i) = through k V bn (ptr V nb i)) \<and> shaped k V' (ptr V nb i) = shaped k V (ptr V nb i)"
    if "i < 256" "int i < c" for i using low [OF that] by (intro tree_frame) blast
  have mi: "pruned k V V' (m mod f) (ptr V nb i) p2" if "int i = c" for i using mid that by auto
  have M: "?M i \<subseteq> ?N i" "tree_ok k V' (ptr V' nb i)" if i: "i < 256" for i
  proof -
    consider "int i < c" | "int i = c" | "int i > c" by linarith
    then have "?M i \<subseteq> ?N i \<and> tree_ok k V' (ptr V' nb i)"
    proof cases
      case 1
      then show ?thesis using p [OF i] lo [OF i 1] t' i by (simp add: tree_ok_def)
    next
      case 2
      then show ?thesis using p [OF i] mi [OF 2] by (auto simp: pruned_def)
    qed (use p [OF i] in simp)
    then show "?M i \<subseteq> ?N i" "tree_ok k V' (ptr V' nb i)" by auto
  qed
  have l': "length (V' nb) = 256" using len c unfolding b by auto
  have "\<forall>i<256. nb \<notin> ?M i" using M(1) t' by blast
  moreover have "\<forall>i<256. \<forall>j<256. i \<noteq> j \<longrightarrow> ?M i \<inter> ?M j = {}"
  proof (intro allI impI)
    fix i j :: nat assume "i < 256" "j < 256" "i \<noteq> j"
    moreover from this have "?N i \<inter> ?N j = {}" using t' by blast
    ultimately show "?M i \<inter> ?M j = {}" using M(1) by blast
  qed
  ultimately have tr: "tree_ok (Suc k) V' nb" unfolding tree_ok_Suc [OF t(2)] using l' M(2) by blast
  have part: "?N i = (set (p2 @ p1) \<inter> ?N i) \<union> ?M i \<and> set (p2 @ p1) \<inter> ?M i = {}" if i: "i < 256" for i
  proof -
    have p2: "set p2 \<subseteq> ?N (nat c) \<and> 0 \<le> c \<or> set p2 = {}" using mid by (auto simp: pruned_def split: if_splits)
    have dj: "j < 256 \<Longrightarrow> j \<noteq> i \<Longrightarrow> ?N i \<inter> ?N j = {}" for j using t' i by blast
    have p1: "?N i \<inter> set p1 = (if c < int i then ?N i else {})"
    proof (cases "c < int i")
      case True
      then show ?thesis unfolding high using i by auto
    next
      case False
      then have "?N i \<inter> ?N j = {}" if "j < 256" "c < int j" for j using that by (intro dj) auto
      then show ?thesis unfolding high using False by auto
    qed
    have p2': "?N i \<inter> set p2 = (if int i = c then set p2 else {})"
    proof (cases "int i = c")
      case True
      then show ?thesis using p2 by auto
    next
      case False
      then have "0 \<le> c \<Longrightarrow> ?N i \<inter> ?N (nat c) = {}" using c(2) by (intro dj) auto
      then show ?thesis using False p2 by auto
    qed
    consider "int i < c" | "int i = c" | "int i > c" by linarith
    then show ?thesis
    proof cases
      case 1
      then have "?M i = ?N i" using p [OF i] lo [OF i 1] by simp
      then show ?thesis using p1 p2' 1 by auto
    next
      case 2
      then have "?N i = set p2 \<union> ?M i" "set p2 \<inter> ?M i = {}" using p [OF i] mi [OF 2] by (auto simp: pruned_def)
      then show ?thesis using p1 p2' 2 M(1) [OF i] by auto
    next
      case 3
      then have "?M i = {}" using p [OF i] by simp
      then show ?thesis using p1 3 by auto
    qed
  qed
  have "set p2 \<subseteq> (\<Union>i<256. ?N i)"
  proof (cases "0 \<le> c")
    case True
    then have "set p2 \<subseteq> ?N (nat c)" "nat c < 256" using mid c(2) by (auto simp: pruned_def)
    then show ?thesis by blast
  qed (use mid in simp)
  then have sub: "set (p2 @ p1) \<subseteq> (\<Union>i<256. ?N i)" using high by auto
  have nbp: "nb \<notin> set (p2 @ p1)" using sub t' by blast
  have tw: "through (Suc k) V' q nb = (if q \<le> m then through (Suc k) V q nb else 0)" if q: "0 \<le> q" "q < 256 * f" for q
  proof -
    have qd: "0 \<le> q div f" "q div f < 256" using q f(1) div_bound by (simp_all add: pos_imp_zdiv_nonneg_iff)
    then have s: "int (slot q k) = q div f" by (simp add: slot_def f_def)
    define i where "i = slot q k"
    have i: "i < 256" "int i = q div f" using slot_less s by (simp_all add: i_def)
    have le: "q \<le> m \<longleftrightarrow> int i < c \<or> int i = c \<and> q mod f \<le> m mod f" using le_div_mod [OF f(1), of q m] i(2) by (simp add: c_def)
    have qm: "0 \<le> q mod f" "q mod f < 2 ^ (8 * k)" using f(1) by (simp_all add: f_def)
    have t1: "through (Suc k) W q nb = through k W (q mod f) (ptr W nb i)" for W using t(2) by (simp add: through.simps(2) i_def f_def through_mod)
    consider "int i < c" | "int i = c" | "int i > c" by linarith
    then show ?thesis
    proof cases
      case 1
      then show ?thesis using p [OF i(1)] lo [OF i(1) 1] le by (simp add: t1)
    next
      case 2
      then show ?thesis using p [OF i(1)] mi [OF 2] le qm by (simp add: t1 pruned_def)
    qed (use p [OF i(1)] le in \<open>simp add: t1\<close>)
  qed
  have "set (nodes (Suc k) V nb) = set (p2 @ p1) \<union> set (nodes (Suc k) V' nb)" "set (p2 @ p1) \<inter> set (nodes (Suc k) V' nb) = {}"
    unfolding nodes_Suc [OF t(2)] using part sub nbp by blast+
  moreover have "set (nodes (Suc k) V' nb) \<subseteq> {nb}" if "m < 0"
  proof -
    have "c < 0" using that c(3) by linarith
    then have "?M i = {}" if "i < 256" for i using p [OF that] by simp
    then show ?thesis unfolding nodes_Suc [OF t(2)] by auto
  qed
  moreover have "led (Suc k) V' m nb" if m0: "0 \<le> m"
    unfolding led_def
  proof
    fix b assume b: "b \<in> set (nodes (Suc k) V' nb)"
    show "\<exists>q. 0 \<le> q \<and> q \<le> m \<and> q < 2 ^ (8 * Suc k) \<and> b \<in> path (Suc k) V' q nb"
    proof (cases "b = nb")
      case True
      then show ?thesis using t(2) m0 by (intro exI [of _ 0]) simp
    next
      case False
      then obtain i where i: "i < 256" "b \<in> ?M i" using b unfolding nodes_Suc [OF t(2)] by auto
      have ic: "int i \<le> c" using p [OF i(1)] i(2) by (auto split: if_splits)
      obtain q where q: "0 \<le> q" "q < f" "b \<in> path k V' q (ptr V' nb i)" "int i * f + q \<le> m"
      proof (cases "int i = c")
        case True
        then have "led k V' (m mod f) (ptr V' nb i)" using p [OF i(1)] mi [OF True] f(1) by (simp add: pruned_def)
        then obtain q where q: "0 \<le> q" "q \<le> m mod f" "q < f" "b \<in> path k V' q (ptr V' nb i)" using i(2) by (auto simp: led_def f_def)
        moreover have "int i * f + m mod f = m" using True by (simp add: c_def)
        ultimately show thesis using that [of q] by linarith
      next
        case False
        then have "int i + 1 \<le> c" using ic by linarith
        then have "(int i + 1) * f \<le> c * f" using f(1) by (intro mult_right_mono) auto
        moreover have "c * f \<le> m" unfolding c_def using f(1) by (metis div_mult_mod_eq le_add_same_cancel1 pos_mod_sign)
        ultimately have "int i * f + f \<le> m" by (simp add: distrib_right)
        moreover obtain q where "0 \<le> q" "q < f" "b \<in> path k V' q (ptr V' nb i)" using nodes_path [OF i(2)] by (auto simp: f_def)
        ultimately show thesis using that [of q] by linarith
      qed
      show ?thesis using path_sub(1) [OF t(2) i(1) q(1) q(2) [unfolded f_def], of V'] path_sub(2) [OF t(2) i(1) q(1) q(2) [unfolded f_def]] q f(1) by (intro exI [of _ "int i * f + q"]) (simp add: f_def)
    qed
  qed
  moreover have "ways (Suc k) V V' m nb" if "0 \<le> m"
    unfolding ways_def
  proof (intro allI impI)
    fix q assume q: "0 \<le> q \<and> q \<le> m \<and> q < 2 ^ (8 * Suc k)"
    define i where "i = slot q k"
    have qd: "0 \<le> q div f" "q div f < 256" using q f div_bound [OF f(1), of q 256] by (simp_all add: pos_imp_zdiv_nonneg_iff)
    then have i: "i < 256" "int i = q div f" using slot_less by (simp_all add: i_def slot_def f_def)
    have le: "int i < c \<or> int i = c \<and> q mod f \<le> m mod f" using le_div_mod [OF f(1), of q m] q i(2) by (simp add: c_def)
    have p1: "path (Suc k) W q nb = insert nb (path k W (q mod f) (ptr W nb i))" for W
      using t(2) path_mod [of k W q "ptr W nb i"] by (simp add: i_def f_def)
    have pi: "ptr V' nb i = ptr V nb i" using p [OF i(1)] le by auto
    have "path k V' (q mod f) (ptr V nb i) = path k V (q mod f) (ptr V nb i)"
    proof (cases "int i < c")
      case True
      then show ?thesis using low [OF i(1) True] by (intro path_cong) blast
    next
      case False
      then have e: "int i = c" "q mod f \<le> m mod f" using le by auto
      have "0 \<le> m mod f" "0 \<le> q mod f" "q mod f < 2 ^ (8 * k)" using f(1) by (simp_all add: f_def)
      then show ?thesis using mi [OF e(1)] e(2) unfolding pruned_def ways_def by blast
    qed
    then show "path (Suc k) V' q nb = path (Suc k) V q nb" unfolding p1 pi by simp
  qed
  ultimately show ?thesis unfolding pruned_def using tr tw f(2) by simp
qed

end
