(* ===== verification/Ufs_Trunc.thy ===== *)
theory Ufs_Trunc
  imports Ufs_Prune
begin

text \<open>
  What \<open>indirtrunc\<close> does to a file system.
\<close>

section \<open>Blocks given back\<close>

text \<open>The blocks \<open>p\<close> have joined the free list \<open>l\<close>; only the blocks \<open>S\<close> may have changed.\<close>

definition drops :: "sdisk \<Rightarrow> int set \<Rightarrow> nat \<Rightarrow> nat \<Rightarrow> int \<Rightarrow> nat set \<Rightarrow> int list \<Rightarrow> int set \<Rightarrow> ufs \<Rightarrow> int list \<Rightarrow> ufs \<Rightarrow> bool" where
  "drops d devs N n dev X l S st p st' \<longleftrightarrow> fs_ok d devs N n dev X (p @ l) st' \<and> keeps_held d X (bst st) (bst st') \<and> same_but d devs (Pair dev ` S) (bst st) (bst st')
     \<and> uerror (bst st') = uerror (bst st) \<and> fs_isize (sb st') = fs_isize (sb st) \<and> fs_fsize (sb st') = fs_fsize (sb st)"

text \<open>A tree whose blocks are neither free nor in a buffer that is held.\<close>

definition owned :: "sdisk \<Rightarrow> int \<Rightarrow> nat set \<Rightarrow> int list \<Rightarrow> nat \<Rightarrow> ufs \<Rightarrow> int \<Rightarrow> bool" where
  "owned d dev X l k st nb \<longleftrightarrow> tree_ok k (view d (bst st) dev) nb
     \<and> (\<forall>b\<in>set (nodes k (view d (bst st) dev) nb). fs_isize (sb st) \<le> b \<and> b < fs_fsize (sb st) \<and> b \<notin> set l \<and> not_held X (bst st) dev b)"

lemma keeps_held_refl: "keeps_held d X st st" by (simp add: keeps_held_def)

lemma drops_refl: "fs_ok d devs N n dev X l st \<Longrightarrow> drops d devs N n dev X l {} st [] st"
  by (simp add: drops_def keeps_held_refl same_but_def)

lemma drops_trans:
  assumes "drops d devs N n dev X l S st p st1" "drops d devs N n dev X (p @ l) T st1 p' st2"
  shows "drops d devs N n dev X l (S \<union> T) st (p' @ p) st2"
  using assms keeps_held_trans same_but_trans [of d devs "Pair dev ` S" "bst st" "bst st1" "Pair dev ` T" "bst st2"] unfolding drops_def image_Un by auto

lemma drops_mono: "drops d devs N n dev X l S st p st' \<Longrightarrow> S \<subseteq> T \<Longrightarrow> drops d devs N n dev X l T st p st'"
  unfolding drops_def using same_but_mono [of d devs "Pair dev ` S" _ _ "Pair dev ` T"] by blast

lemma fs_range_usable: "fs_ok d devs N n dev X l st \<Longrightarrow> fs_isize (sb st) \<le> b \<Longrightarrow> b < fs_fsize (sb st) \<Longrightarrow> usable d devs dev b"
  by (auto simp: fs_ok_def fs_list_def Let_def)

lemma drops_view:
  assumes "drops d devs N n dev X l S st p st'" "fs_ok d devs N n dev X l st" "fs_isize (sb st) \<le> b" "b < fs_fsize (sb st)" "b \<notin> S"
  shows "view d (bst st') dev b = view d (bst st) dev b"
  using assms(1,5) fs_range_usable [OF assms(2-4)] by (auto simp: drops_def same_but_def)

lemma owned_drops:
  assumes ow: "owned d dev X l k st nb" and dr: "drops d devs N n dev X l S st p st'" and ok: "fs_ok d devs N n dev X l st"
    and dj: "S \<inter> set (nodes k (view d (bst st) dev) nb) = {}" "set p \<inter> set (nodes k (view d (bst st) dev) nb) = {}"
  shows "owned d dev X (p @ l) k st' nb" "nodes k (view d (bst st') dev) nb = nodes k (view d (bst st) dev) nb"
    "\<forall>b\<in>set (nodes k (view d (bst st) dev) nb). view d (bst st') dev b = view d (bst st) dev b"
proof -
  show V: "\<forall>b\<in>set (nodes k (view d (bst st) dev) nb). view d (bst st') dev b = view d (bst st) dev b"
    using drops_view [OF dr ok] ow dj(1) by (auto simp: owned_def)
  note t = tree_frame [OF V]
  show "nodes k (view d (bst st') dev) nb = nodes k (view d (bst st) dev) nb" using t by blast
  then show "owned d dev X (p @ l) k st' nb"
    using ow dr t dj(2) not_held_keeps [of d X "bst st" "bst st'"] unfolding owned_def drops_def tree_ok_def by auto
qed

section \<open>The entries of a block\<close>

definition frees :: "sdisk \<Rightarrow> int set \<Rightarrow> nat \<Rightarrow> nat \<Rightarrow> int \<Rightarrow> nat set \<Rightarrow> nat \<Rightarrow> (int \<Rightarrow> ufs \<Rightarrow> ufs cres) \<Rightarrow> bool" where
  "frees d devs N n dev X k f \<longleftrightarrow> (\<forall>st l nb. nb \<noteq> 0 \<longrightarrow> fs_ok d devs N n dev X l st \<longrightarrow> owned d dev X l k st nb \<longrightarrow>
     (\<exists>st' p. f nb st = Ok st' \<and> drops d devs N n dev X l (set p) st p st' \<and> set p = set (nodes k (view d (bst st) dev) nb)))"

lemma frees_free: "frees d devs N n dev X 0 (free d env fenv n dev)"
  unfolding frees_def
proof (intro allI impI)
  fix st l nb assume a: "nb \<noteq> 0" "fs_ok d devs N n dev X l st" "owned d dev X l 0 st nb"
  then have b: "fs_isize (sb st) \<le> nb" "nb < fs_fsize (sb st)" "nb \<notin> set l" "not_held X (bst st) dev nb" by (auto simp: owned_def)
  from free_spec [OF a(2) b, of env fenv] obtain st' where "free d env fenv n dev nb st = Ok st'" "drops d devs N n dev X l (set [nb]) st [nb] st'" by (auto simp: drops_def)
  then show "\<exists>st' p. free d env fenv n dev nb st = Ok st' \<and> drops d devs N n dev X l (set p) st p st' \<and> set p = set (nodes 0 (view d (bst st) dev) nb)"
    using a(1) by (intro exI [of _ st'] exI [of _ "[nb]"]) simp
qed

lemma each_entry_spec:
  assumes fr: "frees d devs N n dev X k f" and bp: "bp \<in> X"
  shows "fs_ok d devs N n dev X l st \<Longrightarrow> b_data (ubuf bp st) = x \<Longrightarrow> (\<And>i. i < m \<Longrightarrow> c < int i \<Longrightarrow> owned d dev X l k st (sint (x ! i))) \<Longrightarrow>
    (\<And>i j. i < m \<Longrightarrow> j < m \<Longrightarrow> i \<noteq> j \<Longrightarrow> c < int i \<Longrightarrow> c < int j \<Longrightarrow> set (nodes k (view d (bst st) dev) (sint (x ! i))) \<inter> set (nodes k (view d (bst st) dev) (sint (x ! j))) = {}) \<Longrightarrow>
    \<exists>st' p. each_entry f bp c m st = Ok st' \<and> drops d devs N n dev X l (set p) st p st' \<and> set p = (\<Union>i\<in>{i. i < m \<and> c < int i}. set (nodes k (view d (bst st) dev) (sint (x ! i))))"
proof (induction m arbitrary: l st)
  case 0
  then show ?case using drops_refl [OF 0(1)] by (intro exI [of _ st] exI [of _ "[]"]) (simp del: nodes.simps)
next
  case (Suc m)
  let ?N = "\<lambda>i. set (nodes k (view d (bst st) dev) (sint (x ! i)))"
  show ?case
  proof (cases "c < int m")
    case False
    then have "{i. i < Suc m \<and> c < int i} = {}" by auto
    then show ?thesis using False drops_refl [OF Suc.prems(1)] by (intro exI [of _ st] exI [of _ "[]"]) (simp only: each_entry.simps if_False, simp)
  next
    case True
    have "\<exists>st1 p1. (if sint (x ! m) \<noteq> 0 then f (sint (x ! m)) st else Ok st) = Ok st1 \<and> drops d devs N n dev X l (set p1) st p1 st1 \<and> set p1 = ?N m"
    proof (cases "sint (x ! m) = 0")
      case True
      then show ?thesis using drops_refl [OF Suc.prems(1)] by (intro exI [of _ st] exI [of _ "[]"]) auto
    next
      case nz: False
      show ?thesis using fr [unfolded frees_def, rule_format, OF nz Suc.prems(1) Suc.prems(3) [OF _ True]] nz by auto
    qed
    then obtain st1 p1 where s1: "(if sint (x ! m) \<noteq> 0 then f (sint (x ! m)) st else Ok st) = Ok st1" "drops d devs N n dev X l (set p1) st p1 st1" "set p1 = ?N m" by blast
    have dj: "set p1 \<inter> ?N i = {}" if "i < m" "c < int i" for i using Suc.prems(4) [of m i] that s1(3) True by auto
    have o1: "owned d dev X (p1 @ l) k st1 (sint (x ! i))" "nodes k (view d (bst st1) dev) (sint (x ! i)) = nodes k (view d (bst st) dev) (sint (x ! i))" if "i < m" "c < int i" for i
      using owned_drops [OF Suc.prems(3) s1(2) Suc.prems(1) dj dj] that by auto
    have dj1: "set (nodes k (view d (bst st1) dev) (sint (x ! i))) \<inter> set (nodes k (view d (bst st1) dev) (sint (x ! j))) = {}" if "i < m" "j < m" "i \<noteq> j" "c < int i" "c < int j" for i j
      using Suc.prems(4) [of i j] that o1(2) by simp
    have d1: "b_data (ubuf bp st1) = x" using s1(2) bp Suc.prems(2) by (auto simp: drops_def keeps_held_def ubuf_def)
    have ok1: "fs_ok d devs N n dev X (p1 @ l) st1" using s1(2) by (simp add: drops_def)
    from Suc.IH [OF ok1 d1 o1(1) dj1] obtain st2 p2 where s2: "each_entry f bp c m st1 = Ok st2" "drops d devs N n dev X (p1 @ l) (set p2) st1 p2 st2"
      "set p2 = (\<Union>i\<in>{i. i < m \<and> c < int i}. set (nodes k (view d (bst st1) dev) (sint (x ! i))))" by blast
    have "{i. i < Suc m \<and> c < int i} = insert m {i. i < m \<and> c < int i}" using True by auto
    then have "set (p2 @ p1) = (\<Union>i\<in>{i. i < Suc m \<and> c < int i}. ?N i)" using s1(3) s2(3) o1(2) by auto
    moreover have "each_entry f bp c (Suc m) st = Ok st2" using True s1(1) s2(1) Suc.prems(2) by (simp add: Let_def)
    moreover have "drops d devs N n dev X l (set (p2 @ p1)) st (p2 @ p1) st2" using drops_trans [OF s1(2) s2(2)] by (simp add: Un_commute)
    ultimately show ?thesis by blast
  qed
qed

section \<open>The copy of a block of pointers\<close>

lemma room:
  assumes "binv d devs N X st" "Finite_Set.card X < N"
  shows "\<exists>c<N. c \<notin> X"
proof -
  have "X \<subseteq> {..<N}" using assms(1) by (auto simp: binv_def free_ok_def)
  then have "X \<noteq> {..<N}" using assms(2) by auto
  then show ?thesis using \<open>X \<subseteq> {..<N}\<close> by auto
qed

lemma held_finite: "binv d devs N X st \<Longrightarrow> finite X"
  by (rule finite_subset [of _ "{..<N}"]) (auto simp: binv_def free_ok_def)

lemma not_held_blank: "blank b st \<Longrightarrow> not_held (insert b X) st dev blk = not_held X st dev blk"
  by (auto simp: not_held_def blank_def Let_def)

lemma indir_copy_spec:
  assumes ok: "cache_ok d devs N n X (bst st)" and c: "Finite_Set.card X + 2 \<le> N" and u: "usable d devs dev nb" and h: "not_held X (bst st) dev nb"
  shows "\<exists>c3 bp. indir_copy d env n dev aflags nb m st = Ok (st\<lparr>bst := c3\<rparr>, Some bp) \<and> bp < N \<and> bp \<notin> X \<and> binv d devs N (insert bp X) c3 \<and> blank bp c3
     \<and> b_data (bufs c3 bp) = view d (bst st) dev nb
     \<and> puts d devs dev nb (take (nat (m + 1)) (view d (bst st) dev nb) @ replicate (256 - nat (m + 1)) 0) (bst st) c3 \<and> follows d devs X (bst st) c3"
proof -
  have p: "parts_ok d devs" using ok by (simp add: cache_ok_def)
  let ?w = "\<lambda>b. if aflags AND B_SYNC \<noteq> 0 then bwrite d env n b else bawrite d env n b"
  have w: "writer d devs N ?w" using writer_bwrite [OF p, of N env n] writer_bawrite [OF p, of N env n] by (cases "aflags AND B_SYNC = 0") simp_all
  from read_use [OF ok u h, of env] obtain c1 b where s1: "bread d env n dev nb (bst st) = Ok (c1, b)" "b < N" "b \<notin> X" "binv d devs N (insert b X) c1" "sees d devs (bst st) c1"
    "follows d devs X (bst st) c1" "got d dev nb b c1" "b_data (bufs c1 b) = view d (bst st) dev nb" by blast
  have "Finite_Set.card (insert b X) < N" using s1(3) held_finite [OF s1(4)] c by simp
  then have ok1: "cache_ok d devs N n (insert b X) c1" using ok s1(4) room [OF s1(4)] by (simp add: cache_ok_def)
  from blank_use [OF ok1, of env] obtain c2 e where s2: "geteblk d env n c1 = Ok (c2, e)" "e < N" "e \<notin> insert b X" "binv d devs N (insert e (insert b X)) c2" "sees d devs c1 c2"
    "follows d devs (insert b X) c1 c2" "blank e c2" by blast
  have b2: "bufs c2 b = bufs c1 b" using s2(6) by (auto simp: follows_def keeps_held_def)
  let ?f = "\<lambda>p. p\<lparr>b_data := b_data (bufs c2 b)\<rparr>" and ?g = "\<lambda>p. p\<lparr>b_data := take (nat (m + 1)) (b_data p) @ replicate (256 - nat (m + 1)) 0\<rparr>"
  define c3 where "c3 = upd_buf e ?f c2"
  have s3: "binv d devs N (insert e (insert b X)) c3" "sees d devs c2 c3" "blank e c3" "keeps_held d (insert b X) c2 c3"
    unfolding c3_def by (rule blank_change [OF s2(4,3,7)]; simp)+
  have ne: "b \<noteq> e" using s2(3) by blast
  have r3: "ready dev nb b c3" "bufs c3 b = bufs c1 b" using got_ready [OF s1(7)] b2 ne by (auto simp: c3_def ready_def)
  have i3: "binv d devs N (insert b (insert e X)) c3" "b \<notin> insert e X" using s3(1) s1(3) ne by (auto simp: insert_commute)
  from write_use [OF w i3 r3(1), of ?g] obtain c4 where s4: "?w b (upd_buf b ?g c3) = Ok c4" "binv d devs N (insert e X) c4"
    "puts d devs dev nb (take (nat (m + 1)) (view d (bst st) dev nb) @ replicate (256 - nat (m + 1)) 0) c3 c4" "keeps_held d (insert e X) c3 c4" "calm (upd_buf b ?g c3) c4"
    using s1(8) r3(2) by auto
  have e4: "bufs c4 e = bufs c3 e" using s4(4) by (auto simp: keeps_held_def)
  have "blank e c4" "b_data (bufs c4 e) = view d (bst st) dev nb" using s3(3) e4 b2 s1(8) by (auto simp: blank_def c3_def)
  moreover have "puts d devs dev nb (take (nat (m + 1)) (view d (bst st) dev nb) @ replicate (256 - nat (m + 1)) 0) (bst st) c4"
    by (rule sees_puts [OF s1(5) sees_puts [OF s2(5) sees_puts [OF s3(2) s4(3)]]])
  moreover have "follows d devs X (bst st) c4"
  proof -
    have sub: "keeps_held d X a b" if "keeps_held d Y a b" "X \<subseteq> Y" for Y a b using that by (auto simp: keeps_held_def)
    have "keeps_held d X (bst st) c1" "keeps_held d X c1 c2" "keeps_held d X c2 c3" "keeps_held d X c3 c4" 
      using s1(6) s2(6) s3(4) s4(4) sub by (auto simp: follows_def)
    then have "keeps_held d X (bst st) c4" using keeps_held_trans by blast
    moreover have "calm (bst st) c4" using s1(6) s2(6) s4(5) by (auto simp: follows_def calm_def c3_def)
    ultimately show ?thesis by (simp add: follows_def)
  qed
  moreover have "indir_copy d env n dev aflags nb m st = Ok (st\<lparr>bst := c4\<rparr>, Some e)"
    using s1(1,7) s2(1) s4(1) [unfolded c3_def b2] b2 unfolding indir_copy_def
    by (simp add: with_buf_def ubuf_def with_cache_def in_cache_def got_def Let_def bflag_bits split del: if_split)
  ultimately show ?thesis using s2(2,3) s4(2) by blast
qed

section \<open>One block of pointers\<close>

lemma release_drops:
  assumes bp: "bp \<notin> X" and bl: "blank bp (bst st1)" and k1: "keeps_held d X (bst st) (bst st1)" and dr: "drops d devs N n dev (insert bp X) l S st1 p st2"
  shows "fs_ok d devs N n dev X (p @ l) (in_cache (brelse bp) st2)" "keeps_held d X (bst st) (brelse bp (bst st2))" "sees d devs (bst st2) (brelse bp (bst st2))"
    "uerror (brelse bp (bst st2)) = uerror (bst st1)"
proof -
  note dr' = dr [unfolded drops_def fs_ok_def cache_ok_def]
  have b2: "blank bp (bst st2)" using bl dr' by (auto simp: blank_def keeps_held_def)
  have i2: "binv d devs N (insert bp X) (bst st2)" using dr' by blast
  note r = blank_release [OF i2 bp b2]
  show "sees d devs (bst st2) (brelse bp (bst st2))" by (rule r)
  have k2: "keeps_held d X (bst st1) (bst st2)" using dr' by (auto simp: keeps_held_def)
  have k3: "keeps_held d X (bst st2) (brelse bp (bst st2))" "calm (bst st2) (brelse bp (bst st2))" using r(3) by (auto simp: follows_def)
  show "keeps_held d X (bst st) (brelse bp (bst st2))" by (rule keeps_held_trans [OF k1 keeps_held_trans [OF k2 k3(1)]])
  show "uerror (brelse bp (bst st2)) = uerror (bst st1)" using k3(2) dr' by (simp add: calm_def)
  have l2: "fs_list d devs dev (insert bp X) (p @ l) st2" using dr' by blast
  note l2' = l2 [unfolded fs_list_def Let_def]
  have nh: "not_held X (brelse bp (bst st2)) dev b = not_held (insert bp X) (bst st2) dev b" for b
    using not_held_keeps [OF k3(1), of dev b] not_held_blank [OF b2, of X dev b] by simp
  have fl: "freelist (view d (brelse bp (bst st2)) dev) (fs_nfree (sb st2)) (fs_free (sb st2)) (p @ l)"
    by (rule freelist_frame [OF _ same_but_sees [OF r(2)]]) (use l2' in auto)
  have "b_resid (bufs (brelse bp (bst st2)) b) = 0" for b using k3(2) l2' by (simp add: calm_def ubuf_def)
  then have "fs_list d devs dev X (p @ l) (in_cache (brelse bp) st2)" unfolding fs_list_def Let_def using l2' fl nh by (simp add: ubuf_def)
  moreover have "cache_ok d devs N n X (brelse bp (bst st2))" using dr' r(1) by (auto simp: cache_ok_def)
  ultimately show "fs_ok d devs N n dev X (p @ l) (in_cache (brelse bp) st2)" by (simp add: fs_ok_def)
qed

lemma copy_ok:
  assumes ok: "fs_ok d devs N n dev X l st" and c: "Finite_Set.card X + 2 \<le> N" and bp: "bp < N" "bp \<notin> X" "binv d devs N (insert bp X) c3" "blank bp c3"
    and f: "follows d devs X (bst st) c3" and pu: "puts d devs dev nb y (bst st) c3" and nb: "nb \<notin> set l"
  shows "fs_ok d devs N n dev (insert bp X) l (st\<lparr>bst := c3\<rparr>)"
proof -
  note o = ok [unfolded fs_ok_def fs_list_def Let_def]
  have k: "keeps_held d X (bst st) c3" "calm (bst st) c3" using f by (auto simp: follows_def)
  have nh: "not_held (insert bp X) c3 dev b = not_held X (bst st) dev b" for b using not_held_keeps [OF k(1)] not_held_blank [OF bp(4)] by simp
  have fl: "freelist (view d c3 dev) (fs_nfree (sb st)) (fs_free (sb st)) l" by (rule freelist_frame [OF _ same_but_puts [OF pu]]) (use o nb in auto)
  have "\<exists>e<N. e \<notin> insert bp X" by (rule room [OF bp(3)]) (use c bp(2) held_finite [OF bp(3)] in simp)
  then have "cache_ok d devs N n (insert bp X) c3" using o bp(3) by (auto simp: cache_ok_def)
  moreover have "b_resid (bufs c3 b) = 0" for b using k(2) o by (simp add: calm_def ubuf_def)
  ultimately show ?thesis unfolding fs_ok_def fs_list_def Let_def using o fl nh by (simp add: ubuf_def)
qed

end
