(* ===== verification/Ufs_Trunc2.thy ===== *)
theory Ufs_Trunc2
  imports Ufs_Trunc
begin

text \<open>
  All levels of \<open>indirtrunc\<close>.
\<close>

text \<open>
  The work on one block of pointers, with \<open>f\<close> for an entry behind the last to be kept and \<open>g\<close> for the last one.
\<close>

definition cut_block :: "sdisk \<Rightarrow> (nat \<Rightarrow> bio \<Rightarrow> bio) \<Rightarrow> nat \<Rightarrow> int \<Rightarrow> 32 word \<Rightarrow> (int \<Rightarrow> ufs \<Rightarrow> ufs cres) \<Rightarrow> (nat \<Rightarrow> ufs \<Rightarrow> ufs cres) \<Rightarrow> int \<Rightarrow> int \<Rightarrow> ufs \<Rightarrow> ufs cres" where
  "cut_block d env n dev aflags f g nb c st = bind_cres (indir_copy d env n dev aflags nb c st) (\<lambda>(st, r). case r of None \<Rightarrow> Ok st
     | Some bp \<Rightarrow> bind_cres (each_entry f bp c 256 st) (\<lambda>st. bind_cres (g bp st) (\<lambda>st. Ok (in_cache (brelse bp) st))))"

definition cuts :: "sdisk \<Rightarrow> int set \<Rightarrow> nat \<Rightarrow> nat \<Rightarrow> int \<Rightarrow> nat set \<Rightarrow> nat \<Rightarrow> int list \<Rightarrow> int \<Rightarrow> int \<Rightarrow> ufs \<Rightarrow> ufs cres \<Rightarrow> bool" where
  "cuts d devs N n dev X k l m nb st r \<longleftrightarrow> (\<exists>st' p. r = Ok st' \<and> drops d devs N n dev X l (set p \<union> inner k (view d (bst st) dev) nb) st p st'
     \<and> pruned k (view d (bst st) dev) (view d (bst st') dev) m nb p)"

lemma cut_children:
  assumes ow: "owned d dev X l (Suc k) st nb" and nb: "nb \<noteq> 0" and i: "i < 256"
    and k: "keeps_held d X (bst st) c3" and bl: "blank bp c3" and pu: "puts d devs dev nb y (bst st) c3" and ok: "fs_ok d devs N n dev X l st"
  shows "owned d dev (insert bp X) l k (st\<lparr>bst := c3\<rparr>) (ptr (view d (bst st) dev) nb i)"
    "\<forall>b\<in>set (nodes k (view d (bst st) dev) (ptr (view d (bst st) dev) nb i)). view d c3 dev b = view d (bst st) dev b"
proof -
  let ?V = "view d (bst st) dev"
  let ?c = "ptr ?V nb i"
  have t: "tree_ok (Suc k) ?V nb" "\<forall>b\<in>set (nodes (Suc k) ?V nb). fs_isize (sb st) \<le> b \<and> b < fs_fsize (sb st) \<and> b \<notin> set l \<and> not_held X (bst st) dev b" using ow by (auto simp: owned_def)
  have sub: "set (nodes k ?V ?c) \<subseteq> set (nodes (Suc k) ?V nb)" "nb \<notin> set (nodes k ?V ?c)" "tree_ok k ?V ?c" using t(1) [unfolded tree_ok_Suc [OF nb]] i unfolding nodes_Suc [OF nb] by auto
  show V: "\<forall>b\<in>set (nodes k ?V ?c). view d c3 dev b = ?V b" using pu sub t(2) fs_range_usable [OF ok] by (auto simp: puts_def)
  have "not_held (insert bp X) c3 dev b = not_held X (bst st) dev b" for b using not_held_keeps [OF k] not_held_blank [OF bl] by simp
  then show "owned d dev (insert bp X) l k (st\<lparr>bst := c3\<rparr>) ?c" unfolding owned_def tree_ok_def using tree_frame [OF V] sub t(2) by (auto simp: tree_ok_def)
qed

lemma cut_block_spec:
  assumes ok: "fs_ok d devs N n dev X l st" and c: "Finite_Set.card X + 2 \<le> N" and nb: "nb \<noteq> 0" and ow: "owned d dev X l (Suc k) st nb" and m: "- 1 \<le> m" "m < 2 ^ (8 * Suc k)"
    and f: "\<And>bp. bp < N \<Longrightarrow> bp \<notin> X \<Longrightarrow> frees d devs N n dev (insert bp X) k f"
    and g: "\<And>bp l st. bp < N \<Longrightarrow> bp \<notin> X \<Longrightarrow> fs_ok d devs N n dev (insert bp X) l st \<Longrightarrow>
       if 0 \<le> m then owned d dev (insert bp X) l k st (sint (b_data (ubuf bp st) ! nat (m div 2 ^ (8 * k)))) \<longrightarrow>
         cuts d devs N n dev (insert bp X) k l (m mod 2 ^ (8 * k)) (sint (b_data (ubuf bp st) ! nat (m div 2 ^ (8 * k)))) st (g bp st)
       else g bp st = Ok st"
  shows "cuts d devs N n dev X (Suc k) l m nb st (cut_block d env n dev aflags f g nb (m div 2 ^ (8 * k)) st)"
proof -
  define ff :: int where "ff = 2 ^ (8 * k)"
  let ?V = "view d (bst st) dev" and ?c = "m div ff"
  let ?N = "\<lambda>i. set (nodes k ?V (ptr ?V nb i))"
  have ff: "0 < ff" "(2 :: int) ^ (8 * Suc k) = 256 * ff" by (simp_all add: ff_def power_add)
  have cc: "?c < 256" "0 \<le> m \<longleftrightarrow> 0 \<le> ?c" using m(2) div_bound [OF ff(1), of m 256] unfolding ff(2) using ff(1) by (simp_all add: pos_imp_zdiv_nonneg_iff)
  note ow' = ow [unfolded owned_def]
  have t: "tree_ok (Suc k) ?V nb" and rg: "\<And>b. b \<in> set (nodes (Suc k) ?V nb) \<Longrightarrow> fs_isize (sb st) \<le> b \<and> b < fs_fsize (sb st) \<and> b \<notin> set l \<and> not_held X (bst st) dev b" using ow' by auto
  note t' = t [unfolded tree_ok_Suc [OF nb]] and ns = nodes_Suc [OF nb, of k ?V]
  have nbr: "usable d devs dev nb" "not_held X (bst st) dev nb" "nb \<notin> set l" using rg [of nb] fs_range_usable [OF ok] ns by auto
  have us: "usable d devs dev b" if "b \<in> set (nodes (Suc k) ?V nb)" for b using fs_range_usable [OF ok] rg [OF that] by blast
  have ca: "cache_ok d devs N n X (bst st)" using ok by (simp add: fs_ok_def)
  from indir_copy_spec [OF ca c nbr(1,2), of env aflags ?c] obtain c3 bp where s1: "indir_copy d env n dev aflags nb ?c st = Ok (st\<lparr>bst := c3\<rparr>, Some bp)" "bp < N" "bp \<notin> X"
    "binv d devs N (insert bp X) c3" "blank bp c3" "b_data (bufs c3 bp) = ?V nb" "puts d devs dev nb (take (nat (?c + 1)) (?V nb) @ replicate (256 - nat (?c + 1)) 0) (bst st) c3"
    "follows d devs X (bst st) c3" by blast
  define st1 where "st1 = st\<lparr>bst := c3\<rparr>"
  have st1: "bst st1 = c3" "sb st1 = sb st" "b_data (ubuf bp st1) = ?V nb" using s1(6) by (simp_all add: st1_def ubuf_def)
  have k1: "keeps_held d X (bst st) (bst st1)" "uerror (bst st1) = uerror (bst st)" using s1(8) by (auto simp: follows_def calm_def st1)
  have ok1: "fs_ok d devs N n dev (insert bp X) l st1" unfolding st1_def by (rule copy_ok [OF ok c s1(2-5) s1(8,7) nbr(3)])
  have ch: "owned d dev (insert bp X) l k st1 (ptr ?V nb i)" "\<forall>b\<in>?N i. view d (bst st1) dev b = ?V b" if "i < 256" for i
    using cut_children [OF ow nb that k1(1) [unfolded st1] s1(5,7) ok] unfolding st1_def by simp_all
  have nd: "nodes k (view d (bst st1) dev) (ptr ?V nb i) = nodes k ?V (ptr ?V nb i)" if "i < 256" for i using tree_frame [OF ch(2) [OF that]] by blast
  have pt: "sint (?V nb ! i) = ptr ?V nb i" for i by (simp add: ptr_def)
  have "\<exists>st2 p1. each_entry f bp ?c 256 st1 = Ok st2 \<and> drops d devs N n dev (insert bp X) l (set p1) st1 p1 st2
     \<and> set p1 = (\<Union>i\<in>{i. i < 256 \<and> ?c < int i}. set (nodes k (view d (bst st1) dev) (sint (?V nb ! i))))"
    by (rule each_entry_spec [OF f [OF s1(2,3)] insertI1 ok1 st1(3)]) (use ch(1) nd t' in \<open>simp_all add: pt\<close>)
  then obtain st2 p1 where s2: "each_entry f bp ?c 256 st1 = Ok st2" "drops d devs N n dev (insert bp X) l (set p1) st1 p1 st2" "set p1 = (\<Union>i\<in>{i. i < 256 \<and> ?c < int i}. ?N i)"
    by (auto simp: pt nd)
  have ok2: "fs_ok d devs N n dev (insert bp X) (p1 @ l) st2" using s2(2) by (simp add: drops_def)
  define j where "j = nat ?c"
  have "bufs (bst st2) bp = bufs (bst st1) bp" using s2(2) by (auto simp: drops_def keeps_held_def)
  then have pj: "sint (b_data (ubuf bp st2) ! j) = ptr ?V nb j" using st1(3) by (simp add: ubuf_def ptr_def)
  have dj: "set p1 \<inter> ?N i = {}" if "i < 256" "int i \<le> ?c" for i
  proof -
    have "?N e \<inter> ?N i = {}" if "e < 256" "?c < int e" for e using t' \<open>i < 256\<close> \<open>int i \<le> ?c\<close> that by (metis linorder_not_less)
    then show ?thesis unfolding s2(3) by auto
  qed
  have p1: "set p1 \<subseteq> set (nodes (Suc k) ?V nb)" "nb \<notin> set p1" unfolding s2(3) ns using t' by auto
  obtain st3 p2 I where s3: "g bp st2 = Ok st3" "drops d devs N n dev (insert bp X) (p1 @ l) (set p2 \<union> I) st2 p2 st3"
    "if 0 \<le> m then pruned k ?V (view d (bst st3) dev) (m mod ff) (ptr ?V nb j) p2 else p2 = []" "if 0 \<le> m then set p2 \<union> I \<subseteq> ?N j else set p2 \<union> I = {}" "I \<subseteq> inner (Suc k) ?V nb"
  proof (cases "0 \<le> m")
    case True
    then have j: "j < 256" "int j = ?c" using cc by (auto simp: j_def)
    have V2: "\<forall>b\<in>?N j. view d (bst st2) dev b = ?V b" and o2: "owned d dev (insert bp X) (p1 @ l) k st2 (ptr ?V nb j)"
      using owned_drops [OF ch(1) [OF j(1)] s2(2) ok1] dj [OF j(1)] nd [OF j(1)] ch(2) [OF j(1)] j(2) by auto
    from g [OF s1(2,3) ok2] True o2 pj have "cuts d devs N n dev (insert bp X) k (p1 @ l) (m mod ff) (ptr ?V nb j) st2 (g bp st2)" by (simp add: ff_def [symmetric] j_def)
    then obtain st3 p2 where s: "g bp st2 = Ok st3" "drops d devs N n dev (insert bp X) (p1 @ l) (set p2 \<union> inner k ?V (ptr ?V nb j)) st2 p2 st3"
      "pruned k ?V (view d (bst st3) dev) (m mod ff) (ptr ?V nb j) p2" unfolding cuts_def inner_cong [OF V2] pruned_left [OF V2] by blast
    have "set p2 \<subseteq> ?N j" using s(3) by (auto simp: pruned_def)
    moreover have "inner k ?V (ptr ?V nb j) \<subseteq> ?N j" by (rule inner_nodes)
    moreover have "inner k ?V (ptr ?V nb j) \<subseteq> inner (Suc k) ?V nb" using nb j(1) by auto
    ultimately show thesis using that [OF s(1,2)] s(3) True by simp
  next
    case False
    then have "g bp st2 = Ok st2" using g [OF s1(2,3) ok2] by simp
    then show thesis using that [of st2 "[]" "{}"] drops_refl [OF ok2] False by simp
  qed
  note s13 = drops_trans [OF s2(2) s3(2)]
  note r = release_drops [OF s1(3) s1(5) [folded st1(1)] k1(1) s13]
  define st4 where "st4 = in_cache (brelse bp) st3"
  have st4: "bst st4 = brelse bp (bst st3)" "sb st4 = sb st3" by (simp_all add: st4_def)
  have sbs: "fs_isize (sb st4) = fs_isize (sb st)" "fs_fsize (sb st4) = fs_fsize (sb st)" using s13 by (simp_all add: st4 drops_def st1)
  have all: "same_but d devs (Pair dev ` ({nb} \<union> (set p1 \<union> (set p2 \<union> I)))) (bst st) (bst st4)"
  proof -
    have "same_but d devs (Pair dev ` (set p1 \<union> (set p2 \<union> I))) c3 (bst st3)" using s13 by (simp add: drops_def st1)
    from same_but_trans [OF same_but_puts [OF s1(7)] same_but_trans [OF this same_but_sees [OF r(3)]]] show ?thesis
      unfolding st4 by (rule same_but_mono) auto
  qed
  have V4: "view d (bst st4) dev b = ?V b" if "b \<in> set (nodes (Suc k) ?V nb)" "b \<noteq> nb" "b \<notin> set p1" "b \<notin> set p2 \<union> I" for b
    using all us [OF that(1)] that(2-) by (auto simp: same_but_def)
  have V43: "view d (bst st4) dev b = view d (bst st3) dev b" if "b \<in> set (nodes (Suc k) ?V nb)" for b using r(3) us [OF that] by (simp add: sees_def st4)
  have ic: "set p2 \<union> I \<subseteq> ?N j" "j < 256" if "0 \<le> m" using s3(4) that cc by (auto simp: j_def)
  have nbt: "nb \<notin> set p2 \<union> I"
  proof (cases "0 \<le> m")
    case True
    then show ?thesis using ic t' by blast
  qed (use s3(4) in simp)
  have bk: "view d (bst st4) dev nb = take (nat (?c + 1)) (?V nb) @ replicate (256 - nat (?c + 1)) 0"
  proof -
    have "same_but d devs (Pair dev ` (set p1 \<union> (set p2 \<union> I))) c3 (bst st3)" using s13 by (simp add: drops_def st1)
    then have "view d (bst st3) dev nb = view d c3 dev nb" using nbr(1) p1(2) nbt by (auto simp: same_but_def)
    then show ?thesis using V43 [of nb] s1(7) nbr(1) ns by (simp add: puts_def)
  qed
  have low: "view d (bst st4) dev b = ?V b" if "i < 256" "int i < ?c" "b \<in> ?N i" for i b
  proof -
    have m0: "0 \<le> m" using that(2) cc(2) by linarith
    have "?N i \<inter> ?N j = {}" using t' that(1,2) ic(2) [OF m0] by (auto simp: j_def)
    then have "b \<notin> set p2 \<union> I" "b \<notin> set p1" using that(2,3) ic(1) [OF m0] dj [OF that(1)] by auto
    moreover have "b \<in> set (nodes (Suc k) ?V nb)" "b \<noteq> nb" using that(1,3) t' unfolding ns by blast+
    ultimately show ?thesis by (intro V4)
  qed
  have mid: "if 0 \<le> m then pruned k ?V (view d (bst st4) dev) (m mod ff) (ptr ?V nb (nat ?c)) p2 else p2 = []"
  proof (cases "0 \<le> m")
    case True
    have "\<forall>b\<in>?N j. view d (bst st4) dev b = view d (bst st3) dev b" using V43 ns ic(2) [OF True] by auto
    then show ?thesis using pruned_right s3(3) True unfolding j_def by auto
  qed (use s3(3) in simp)
  have pr: "pruned (Suc k) ?V (view d (bst st4) dev) m nb (p2 @ p1)"
    by (rule pruned_join [OF t nb m bk [unfolded ff_def] low [unfolded ff_def] mid [unfolded ff_def] s2(3) [unfolded ff_def]])
  have "drops d devs N n dev X l (set (p2 @ p1) \<union> inner (Suc k) ?V nb) st (p2 @ p1) st4" unfolding drops_def
  proof (intro conjI)
    show "fs_ok d devs N n dev X ((p2 @ p1) @ l) st4" using r(1) by (simp add: st4_def)
    show "keeps_held d X (bst st) (bst st4)" using r(2) by (simp add: st4)
    show "same_but d devs (Pair dev ` (set (p2 @ p1) \<union> inner (Suc k) ?V nb)) (bst st) (bst st4)"
      by (rule same_but_mono [OF all]) (use s3(5) nb in auto)
    show "uerror (bst st4) = uerror (bst st)" using r(4) k1(2) by (simp add: st4)
  qed (rule sbs)+
  moreover have "cut_block d env n dev aflags f g nb ?c st = Ok st4"
    using s1(1) s2(1) s3(1) by (simp add: cut_block_def st1_def [symmetric] st4_def)
  ultimately show ?thesis using pr unfolding cuts_def ff_def by blast
qed

section \<open>All levels\<close>

lemma minus_one_div: "(0 :: int) < f \<Longrightarrow> - 1 div f = - 1"
  using int_div_pos_eq [of "- 1" f "- 1" "f - 1"] by simp

lemma indirtrunc_0: "indirtrunc 0 d env fenv n dev aflags nb m st = cut_block d env n dev aflags (free d env fenv n dev) (\<lambda>_ st. Ok st) nb m st"
  unfolding cut_block_def indirtrunc.simps trsingle_def bind_cres.simps by (rule refl)

lemma indirtrunc_Suc:
  "- 1 \<le> m \<Longrightarrow> indirtrunc (Suc k) d env fenv n dev aflags nb m st = cut_block d env n dev aflags
     (\<lambda>nb st. bind_cres (indirtrunc k d env fenv n dev aflags nb (- 1) st) (free d env fenv n dev nb))
     (\<lambda>bp st. if m \<ge> 0 then let nb = sint (b_data (ubuf bp st) ! nat (m div 2 ^ (8 * Suc k))) in if nb \<noteq> 0 then indirtrunc k d env fenv n dev aflags nb (m mod 2 ^ (8 * Suc k)) st else Ok st else Ok st)
     nb (m div 2 ^ (8 * Suc k)) st"
proof -
  assume m: "- 1 \<le> m"
  have "(256 :: int) ^ j = 2 ^ (8 * j)" for j by (simp add: power_mult)
  then have f: "(256 :: int) ^ Suc k = 2 ^ (8 * Suc k)" by blast
  have l: "(if m > 0 then m div 2 ^ (8 * Suc k) else m) = m div 2 ^ (8 * Suc k)"
  proof (cases "m > 0")
    case False
    then have "m = 0 \<or> m = - 1" using m by linarith
    then show ?thesis using minus_one_div [of "2 ^ (8 * Suc k)"] by (auto simp del: mult_Suc_right)
  qed simp
  show ?thesis unfolding indirtrunc.simps cut_block_def Let_def f l by (rule refl)
qed

lemma frees_tree:
  assumes IH: "\<And>l st nb m. fs_ok d devs N n dev X l st \<Longrightarrow> nb \<noteq> 0 \<Longrightarrow> owned d dev X l (Suc k) st nb \<Longrightarrow> - 1 \<le> m \<Longrightarrow> m < 2 ^ (8 * Suc k) \<Longrightarrow>
      cuts d devs N n dev X (Suc k) l m nb st (indirtrunc k d env fenv n dev aflags nb m st)"
  shows "frees d devs N n dev X (Suc k) (\<lambda>nb st. bind_cres (indirtrunc k d env fenv n dev aflags nb (- 1) st) (free d env fenv n dev nb))"
  unfolding frees_def
proof (intro allI impI)
  fix st l nb assume a: "nb \<noteq> 0" "fs_ok d devs N n dev X l st" "owned d dev X l (Suc k) st nb"
  let ?V = "view d (bst st) dev"
  have "cuts d devs N n dev X (Suc k) l (- 1) nb st (indirtrunc k d env fenv n dev aflags nb (- 1) st)"
    by (rule IH [OF a(2,1,3)]) (simp, rule less_le_trans [of _ 0], simp_all)
  then obtain st1 p where s: "indirtrunc k d env fenv n dev aflags nb (- 1) st = Ok st1" "drops d devs N n dev X l (set p \<union> inner (Suc k) ?V nb) st p st1"
    "pruned (Suc k) ?V (view d (bst st1) dev) (- 1) nb p" unfolding cuts_def by blast
  have n1: "set (nodes (Suc k) (view d (bst st1) dev) nb) = {nb}" using s(3) nodes_root [OF a(1)] by (auto simp: pruned_def)
  then have nd: "set (nodes (Suc k) ?V nb) = insert nb (set p)" "nb \<notin> set p" using s(3) by (auto simp: pruned_def)
  have o: "fs_isize (sb st) \<le> nb" "nb < fs_fsize (sb st)" "nb \<notin> set l" "not_held X (bst st) dev nb" using a(3) nd(1) by (auto simp: owned_def)
  have o1: "fs_ok d devs N n dev X (p @ l) st1" "fs_isize (sb st1) \<le> nb" "nb < fs_fsize (sb st1)" "nb \<notin> set (p @ l)" "not_held X (bst st1) dev nb"
    using s(2) o nd(2) not_held_keeps [of d X "bst st" "bst st1"] by (auto simp: drops_def)
  from free_spec [OF o1, of env fenv] obtain st2 where f: "free d env fenv n dev nb st1 = Ok st2" "drops d devs N n dev X (p @ l) {nb} st1 [nb] st2" by (auto simp: drops_def)
  have "drops d devs N n dev X l (set (nb # p)) st (nb # p) st2"
    using drops_mono [OF drops_trans [OF s(2) f(2)], of "set (nb # p)"] inner_nodes [of "Suc k" ?V nb] unfolding nd(1) by auto
  then show "\<exists>st' p. bind_cres (indirtrunc k d env fenv n dev aflags nb (- 1) st) (free d env fenv n dev nb) = Ok st' \<and> drops d devs N n dev X l (set p) st p st' \<and> set p = set (nodes (Suc k) ?V nb)"
    using s(1) f(1) nd(1) by (intro exI [of _ st2] exI [of _ "nb # p"]) simp
qed

lemma cuts_none: "fs_ok d devs N n dev X l st \<Longrightarrow> cuts d devs N n dev X k l m 0 st (Ok st)"
  unfolding cuts_def using pruned_zero drops_refl by (intro exI [of _ st] exI [of _ "[]"]) (cases k; simp)

lemma cuts_leaf: "fs_ok d devs N n dev X l st \<Longrightarrow> cuts d devs N n dev X 0 l 0 nb st (Ok st)"
  unfolding cuts_def using pruned_leaf drops_refl by (intro exI [of _ st] exI [of _ "[]"]) simp

lemma indirtrunc_spec:
  "Finite_Set.card X + k + 2 \<le> N \<Longrightarrow> fs_ok d devs N n dev X l st \<Longrightarrow> nb \<noteq> 0 \<Longrightarrow> owned d dev X l (Suc k) st nb \<Longrightarrow> - 1 \<le> m \<Longrightarrow> m < 2 ^ (8 * Suc k) \<Longrightarrow>
    cuts d devs N n dev X (Suc k) l m nb st (indirtrunc k d env fenv n dev aflags nb m st)"
proof (induction k arbitrary: X l st nb m)
  case 0
  have "cuts d devs N n dev X (Suc 0) l m nb st (cut_block d env n dev aflags (free d env fenv n dev) (\<lambda>_ st. Ok st) nb (m div 2 ^ (8 * 0)) st)"
    by (rule cut_block_spec [OF 0(2) _ 0(3-6) frees_free]) (use 0(1) cuts_leaf in auto)
  then show ?case unfolding indirtrunc_0 by simp
next
  case (Suc k)
  have fin: "finite X" using Suc.prems(2) held_finite by (auto simp: fs_ok_def cache_ok_def)
  have r: "Finite_Set.card (insert bp X) + k + 2 \<le> N" if "bp \<notin> X" for bp using Suc.prems(1) that fin by simp
  show ?case unfolding indirtrunc_Suc [OF Suc.prems(5)]
  proof (rule cut_block_spec [OF Suc.prems(2) _ Suc.prems(3-6)])
    show "Finite_Set.card X + 2 \<le> N" using Suc.prems(1) by simp
    fix bp assume bp: "bp < N" "bp \<notin> X"
    show "frees d devs N n dev (insert bp X) (Suc k) (\<lambda>nb st. bind_cres (indirtrunc k d env fenv n dev aflags nb (- 1) st) (free d env fenv n dev nb))"
      by (rule frees_tree [OF Suc.IH [OF r [OF bp(2)]]])
    fix l st assume ok: "fs_ok d devs N n dev (insert bp X) l st"
    let ?c = "sint (b_data (ubuf bp st) ! nat (m div 2 ^ (8 * Suc k)))" and ?f = "2 ^ (8 * Suc k) :: int"
    have "?c \<noteq> 0 \<Longrightarrow> owned d dev (insert bp X) l (Suc k) st ?c \<Longrightarrow> cuts d devs N n dev (insert bp X) (Suc k) l (m mod ?f) ?c st (indirtrunc k d env fenv n dev aflags ?c (m mod ?f) st)"
      by (rule Suc.IH [OF r [OF bp(2)] ok], assumption+) (rule order_trans [of _ 0], simp_all)
    then show "if 0 \<le> m then owned d dev (insert bp X) l (Suc k) st ?c \<longrightarrow> cuts d devs N n dev (insert bp X) (Suc k) l (m mod ?f) ?c st
         (if m \<ge> 0 then let nb = ?c in if nb \<noteq> 0 then indirtrunc k d env fenv n dev aflags nb (m mod ?f) st else Ok st else Ok st)
       else (if m \<ge> 0 then let nb = ?c in if nb \<noteq> 0 then indirtrunc k d env fenv n dev aflags nb (m mod ?f) st else Ok st else Ok st) = Ok st"
      using cuts_none [OF ok] by (cases "?c = 0") (simp_all add: Let_def)
  qed
qed

end
