(* ===== verification/Ufs_Trunc3.thy ===== *)
theory Ufs_Trunc3
  imports Ufs_Trunc2
begin

text \<open>
  All trees of a file cut off behind a block: what \<open>itrunc\<close> makes of the block map.
\<close>

section \<open>A tree that is cut off, or given back as a whole\<close>

definition trim :: "nat \<Rightarrow> (int \<Rightarrow> block) \<Rightarrow> (int \<Rightarrow> block) \<Rightarrow> int \<Rightarrow> int \<Rightarrow> int set \<Rightarrow> bool" where
  "trim h V V' m nb P \<longleftrightarrow> (let nb' = (if m < 0 then 0 else nb) in tree_ok h V' nb' \<and> set (nodes h V nb) \<subseteq> P \<union> set (nodes h V' nb') \<and> set (nodes h V' nb') \<subseteq> set (nodes h V nb)
     \<and> P \<inter> set (nodes h V' nb') = {} \<and> led h V' m nb' \<and> (0 \<le> m \<longrightarrow> ways h V V' m nb) \<and> (\<forall>q. 0 \<le> q \<and> q < 2 ^ (8 * h) \<longrightarrow> through h V' q nb' = (if q \<le> m then through h V q nb else 0)))"

lemma trim_left: "\<forall>b\<in>set (nodes h V nb). V1 b = V b \<Longrightarrow> trim h V1 V' m nb P = trim h V V' m nb P"
  using tree_frame [of h V nb V1] ways_cong(1) [of h V nb V1] by (simp add: trim_def)

lemma trim_right:
  assumes t: "trim h V V' m nb P" and V: "\<forall>b\<in>set (nodes h V nb) - P. V1 b = V' b" and P: "P2 \<inter> set (nodes h V nb) = {}"
  shows "trim h V V1 m nb (P2 \<union> P)"
proof -
  define nb' where "nb' = (if m < 0 then 0 else nb)"
  note t' = t [unfolded trim_def Let_def, folded nb'_def]
  have "\<forall>b\<in>set (nodes h V' nb'). V1 b = V' b" using t' V by blast
  note f = tree_frame [OF this] led_cong [OF _ this] ways_cong(2) [OF this]
  have "0 \<le> m \<Longrightarrow> nb' = nb" by (simp add: nb'_def)
  then show ?thesis unfolding trim_def Let_def nb'_def [symmetric] using t' f P by (auto simp: tree_ok_def)
qed

lemma trim_all:
  assumes t: "tree_ok h V nb" and V: "\<forall>b\<in>set (nodes h V nb). V1 b = V b" and P: "P \<inter> set (nodes h V nb) = {}" and m: "2 ^ (8 * h) \<le> m + 1"
  shows "trim h V V1 m nb P"
proof -
  have "(0 :: int) < 2 ^ (8 * h)" by simp
  then have m0: "0 \<le> m" using m by linarith
  show ?thesis unfolding trim_def using tree_frame [OF V] led_all [OF m] ways_cong(3) [OF V] t m m0 P by (auto simp: tree_ok_def)
qed

lemma trim_none: "trim h V V' m 0 P" by (auto simp: trim_def)

lemma pruned_trim: "pruned h V V' m nb p \<Longrightarrow> 0 \<le> m \<Longrightarrow> trim h V V' m nb (set p)"
  by (auto simp: trim_def pruned_def)

section \<open>Several trees, one after the other\<close>

primrec in_turn :: "(nat \<Rightarrow> ufs \<Rightarrow> ufs cres) \<Rightarrow> nat list \<Rightarrow> ufs \<Rightarrow> ufs cres" where
  "in_turn f [] st = Ok st"
| "in_turn f (i # is) st = bind_cres (f i st) (in_turn f is)"

definition trims :: "sdisk \<Rightarrow> int set \<Rightarrow> nat \<Rightarrow> nat \<Rightarrow> int \<Rightarrow> nat \<Rightarrow> int \<Rightarrow> int \<Rightarrow> (ufs \<Rightarrow> ufs cres) \<Rightarrow> bool" where
  "trims d devs N n dev h m nb f \<longleftrightarrow> (\<forall>l st. fs_ok d devs N n dev {} l st \<longrightarrow> owned d dev {} l h st nb \<longrightarrow>
     (\<exists>st' p. f st = Ok st' \<and> drops d devs N n dev {} l (set p \<union> inner h (view d (bst st) dev) nb) st p st' \<and> set p \<subseteq> set (nodes h (view d (bst st) dev) nb)
        \<and> trim h (view d (bst st) dev) (view d (bst st') dev) m nb (set p)))"

lemma in_turn_spec:
  "distinct is \<Longrightarrow> (\<And>i. i \<in> set is \<Longrightarrow> trims d devs N n dev (h i) (m i) (nb i) (f i)) \<Longrightarrow> fs_ok d devs N n dev {} l st \<Longrightarrow> (\<And>i. i \<in> set is \<Longrightarrow> owned d dev {} l (h i) st (nb i)) \<Longrightarrow>
    (\<And>i j. i \<in> set is \<Longrightarrow> j \<in> set is \<Longrightarrow> i \<noteq> j \<Longrightarrow> set (nodes (h i) (view d (bst st) dev) (nb i)) \<inter> set (nodes (h j) (view d (bst st) dev) (nb j)) = {}) \<Longrightarrow>
    \<exists>st' p. in_turn f is st = Ok st' \<and> drops d devs N n dev {} l (set p \<union> (\<Union>i\<in>set is. inner (h i) (view d (bst st) dev) (nb i))) st p st'
      \<and> set p \<subseteq> (\<Union>i\<in>set is. set (nodes (h i) (view d (bst st) dev) (nb i))) \<and> (\<forall>i\<in>set is. trim (h i) (view d (bst st) dev) (view d (bst st') dev) (m i) (nb i) (set p))"
proof (induction "is" arbitrary: l st)
  case Nil
  then show ?case using drops_refl by (intro exI [of _ st] exI [of _ "[]"]) auto
next
  case (Cons a js)
  let ?V = "view d (bst st) dev"
  let ?N = "\<lambda>i. set (nodes (h i) ?V (nb i))" and ?I = "\<lambda>i. inner (h i) ?V (nb i)"
  note ok = Cons.prems(3)
  have ow: "owned d dev {} l (h a) st (nb a)" using Cons.prems(4) by simp
  from Cons.prems(2) [of a] ok ow obtain st1 p1 where
    s1: "f a st = Ok st1" "drops d devs N n dev {} l (set p1 \<union> ?I a) st p1 st1" "set p1 \<subseteq> ?N a" "trim (h a) ?V (view d (bst st1) dev) (m a) (nb a) (set p1)"
    unfolding trims_def by (metis list.set_intros(1))
  have dj: "(set p1 \<union> ?I a) \<inter> ?N i = {}" if "i \<in> set js" for i
  proof -
    have "a \<noteq> i" using Cons.prems(1) that by auto
    then have "?N a \<inter> ?N i = {}" using Cons.prems(5) [of a i] that by simp
    then show ?thesis using s1(3) inner_nodes [of "h a" ?V "nb a"] by blast
  qed
  have o1: "owned d dev {} (p1 @ l) (h i) st1 (nb i)" "nodes (h i) (view d (bst st1) dev) (nb i) = nodes (h i) ?V (nb i)" "\<forall>b\<in>?N i. view d (bst st1) dev b = ?V b"
    if "i \<in> set js" for i using owned_drops [OF _ s1(2) ok dj [OF that]] Cons.prems(4) that dj [OF that] by auto
  have i1: "inner (h i) (view d (bst st1) dev) (nb i) = ?I i" if "i \<in> set js" for i by (rule inner_cong [OF o1(3) [OF that]])
  have ok1: "fs_ok d devs N n dev {} (p1 @ l) st1" using s1(2) by (simp add: drops_def)
  have di: "distinct js" using Cons.prems(1) by simp
  have tr: "trims d devs N n dev (h i) (m i) (nb i) (f i)" if "i \<in> set js" for i using Cons.prems(2) that by simp
  have dj1: "set (nodes (h i) (view d (bst st1) dev) (nb i)) \<inter> set (nodes (h j) (view d (bst st1) dev) (nb j)) = {}" if "i \<in> set js" "j \<in> set js" "i \<noteq> j" for i j
    using Cons.prems(5) [of i j] that o1(2) by simp
  from Cons.IH [OF di tr ok1 o1(1) dj1] obtain st2 p2 where s2: "in_turn f js st1 = Ok st2" "drops d devs N n dev {} (p1 @ l) (set p2 \<union> (\<Union>i\<in>set js. ?I i)) st1 p2 st2"
    "set p2 \<subseteq> (\<Union>i\<in>set js. ?N i)" "\<forall>i\<in>set js. trim (h i) (view d (bst st1) dev) (view d (bst st2) dev) (m i) (nb i) (set p2)"
    by (auto simp: o1(2) i1)
  have S2: "(set p2 \<union> (\<Union>i\<in>set js. ?I i)) \<inter> ?N a = {}"
  proof -
    have "?N i \<inter> ?N a = {}" if "i \<in> set js" for i using Cons.prems(1) Cons.prems(5) [of i a] that by auto
    moreover have "?I i \<subseteq> ?N i" for i by (rule inner_nodes)
    ultimately show ?thesis using s2(3) by blast
  qed
  have rng: "fs_isize (sb st1) \<le> b" "b < fs_fsize (sb st1)" if "b \<in> ?N a" for b using ow s1(2) that by (auto simp: owned_def drops_def)
  have "\<forall>b\<in>?N a - set p1. view d (bst st2) dev b = view d (bst st1) dev b" using drops_view [OF s2(2) ok1] rng S2 by blast
  then have ta: "trim (h a) ?V (view d (bst st2) dev) (m a) (nb a) (set p2 \<union> set p1)" by (rule trim_right [OF s1(4)]) (use S2 in blast)
  have tj: "trim (h i) ?V (view d (bst st2) dev) (m i) (nb i) (set p1 \<union> set p2)" if "i \<in> set js" for i
  proof -
    have "trim (h i) ?V (view d (bst st2) dev) (m i) (nb i) (set p2)" using s2(4) that trim_left [OF o1(3) [OF that]] by blast
    then show ?thesis by (rule trim_right) (use dj [OF that] in auto)
  qed
  have "drops d devs N n dev {} l (set (p2 @ p1) \<union> (\<Union>i\<in>set (a # js). ?I i)) st (p2 @ p1) st2"
    by (rule drops_mono [OF drops_trans [OF s1(2) s2(2)]]) auto
  moreover have "set (p2 @ p1) \<subseteq> (\<Union>i\<in>set (a # js). ?N i)" using s1(3) s2(3) by auto
  moreover have "\<forall>i\<in>set (a # js). trim (h i) ?V (view d (bst st2) dev) (m i) (nb i) (set (p2 @ p1))" using ta tj by (auto simp: Un_commute)
  moreover have "in_turn f (a # js) st = Ok st2" using s1(1) s2(1) by simp
  ultimately show ?case by blast
qed

section \<open>The trees of a file\<close>

text \<open>The last place to be kept of tree \<open>i\<close> when block \<open>m\<close> is the last to be kept of the file; -1 if nothing of it is kept.\<close>

definition cut_at :: "int \<Rightarrow> nat \<Rightarrow> int" where
  "cut_at m i = (if i < 4 then (if int i \<le> m then 0 else - 1)
     else let base = (if i = 4 then 4 else if i = 5 then 260 else 65796) in if m < base then - 1 else m - base)"

lemma cut_place: "place bn = Some (i, q) \<Longrightarrow> q \<le> cut_at m i \<longleftrightarrow> bn \<le> m"
  by (auto simp: place_eq cut_at_def split: if_splits)

definition tree_op :: "sdisk \<Rightarrow> (nat \<Rightarrow> bio \<Rightarrow> bio) \<Rightarrow> (nat \<Rightarrow> ufs \<Rightarrow> ufs) \<Rightarrow> nat \<Rightarrow> int \<Rightarrow> 32 word \<Rightarrow> int list \<Rightarrow> int \<Rightarrow> nat \<Rightarrow> ufs \<Rightarrow> ufs cres" where
  "tree_op d env fenv n dev aflags ad m i st =
     (if i < 4 then if int i > m \<and> ad ! i \<noteq> 0 then free d env fenv n dev (ad ! i) st else Ok st
      else if ad ! i = 0 \<or> i < 6 \<and> 0 \<le> cut_at m (Suc i) then Ok st
      else bind_cres (indirtrunc (i - 4) d env fenv n dev aflags (ad ! i) (cut_at m i) st) (\<lambda>st. if cut_at m i < 0 then free d env fenv n dev (ad ! i) st else Ok st))"

lemma trims_skip:
  assumes "\<And>V V'. tree_ok h V nb \<Longrightarrow> \<forall>b\<in>set (nodes h V nb). V' b = V b \<Longrightarrow> trim h V V' m nb {}"
  shows "trims d devs N n dev h m nb Ok"
  unfolding trims_def
proof (intro allI impI)
  fix l st assume a: "fs_ok d devs N n dev {} l st" "owned d dev {} l h st nb"
  have "trim h (view d (bst st) dev) (view d (bst st) dev) m nb {}" by (rule assms) (use a(2) in \<open>auto simp: owned_def\<close>)
  then show "\<exists>st' p. Ok st = Ok st' \<and> drops d devs N n dev {} l (set p \<union> inner h (view d (bst st) dev) nb) st p st' \<and> set p \<subseteq> set (nodes h (view d (bst st) dev) nb)
        \<and> trim h (view d (bst st) dev) (view d (bst st') dev) m nb (set p)"
    using drops_mono [OF drops_refl [OF a(1)]] by (intro exI [of _ st] exI [of _ "[]"]) simp
qed

lemma trims_gone:
  assumes "frees d devs N n dev {} h f" "nb \<noteq> 0"
  shows "trims d devs N n dev h (- 1) nb (f nb)"
  unfolding trims_def
proof (intro allI impI)
  fix l st assume a: "fs_ok d devs N n dev {} l st" "owned d dev {} l h st nb"
  from assms(1) [unfolded frees_def, rule_format, OF assms(2) a] obtain st' p where s: "f nb st = Ok st'" "drops d devs N n dev {} l (set p) st p st'" "set p = set (nodes h (view d (bst st) dev) nb)" by blast
  have "trim h (view d (bst st) dev) (view d (bst st') dev) (- 1) nb (set p)" unfolding trim_def s(3) by auto
  then show "\<exists>st' p. f nb st = Ok st' \<and> drops d devs N n dev {} l (set p \<union> inner h (view d (bst st) dev) nb) st p st' \<and> set p \<subseteq> set (nodes h (view d (bst st) dev) nb)
        \<and> trim h (view d (bst st) dev) (view d (bst st') dev) (- 1) nb (set p)"
    using s drops_mono [OF s(2)] by (intro exI [of _ st'] exI [of _ p]) simp
qed

lemma trims_cut:
  assumes "\<And>l st. fs_ok d devs N n dev {} l st \<Longrightarrow> owned d dev {} l h st nb \<Longrightarrow> cuts d devs N n dev {} h l m nb st (f st)" "0 \<le> m"
  shows "trims d devs N n dev h m nb f"
  unfolding trims_def
proof (intro allI impI)
  fix l st assume a: "fs_ok d devs N n dev {} l st" "owned d dev {} l h st nb"
  from assms(1) [OF a] obtain st' p where s: "f st = Ok st'" "drops d devs N n dev {} l (set p \<union> inner h (view d (bst st) dev) nb) st p st'"
    "pruned h (view d (bst st) dev) (view d (bst st') dev) m nb p" unfolding cuts_def by blast
  then show "\<exists>st' p. f st = Ok st' \<and> drops d devs N n dev {} l (set p \<union> inner h (view d (bst st) dev) nb) st p st' \<and> set p \<subseteq> set (nodes h (view d (bst st) dev) nb)
        \<and> trim h (view d (bst st) dev) (view d (bst st') dev) m nb (set p)"
    using pruned_trim [OF s(3) assms(2)] by (intro exI [of _ st'] exI [of _ p]) (auto simp: pruned_def)
qed

lemma tree_op_trims:
  assumes N: "4 \<le> N" and m: "- 1 \<le> m" "m < 2 ^ 22" and i: "i < 7"
  shows "trims d devs N n dev (i - 3) (cut_at m i) (ad ! i) (tree_op d env fenv n dev aflags ad m i)"
proof -
  consider (zero) "ad ! i = 0" | (dfree) "ad ! i \<noteq> 0" "i < 4" "int i > m" | (dkeep) "i < 4" "int i \<le> m" | (skip) "4 \<le> i" "i < 6" "0 \<le> cut_at m (Suc i)"
    | (go) "ad ! i \<noteq> 0" "4 \<le> i" "\<not> (i < 6 \<and> 0 \<le> cut_at m (Suc i))" by linarith
  then show ?thesis
  proof cases
    case zero
    have "tree_op d env fenv n dev aflags ad m i = Ok" by (simp add: fun_eq_iff tree_op_def zero)
    then show ?thesis using trims_skip [OF trim_none] zero by simp
  next
    case dfree
    have "tree_op d env fenv n dev aflags ad m i = free d env fenv n dev (ad ! i)" by (simp add: fun_eq_iff tree_op_def dfree)
    then show ?thesis using trims_gone [OF frees_free dfree(1)] dfree by (simp add: cut_at_def)
  next
    case dkeep
    have "tree_op d env fenv n dev aflags ad m i = Ok" using dkeep by (simp add: fun_eq_iff tree_op_def)
    moreover have "trims d devs N n dev 0 0 (ad ! i) Ok" by (rule trims_skip, rule trim_all) auto
    ultimately show ?thesis using dkeep by (simp add: cut_at_def)
  next
    case skip
    have "tree_op d env fenv n dev aflags ad m i = Ok" using skip by (simp add: fun_eq_iff tree_op_def)
    moreover have "i = 4 \<or> i = 5" using skip by linarith
    then have "2 ^ (8 * (i - 3)) \<le> cut_at m i + 1" using skip(3) by (auto simp: cut_at_def Let_def split: if_splits)
    then have "trims d devs N n dev (i - 3) (cut_at m i) (ad ! i) Ok" by (intro trims_skip trim_all) auto
    ultimately show ?thesis by simp
  next
    case go
    define k where "k = i - 4"
    have k: "i - 3 = Suc k" "i - 4 = k" "k \<le> 2" using go i by (auto simp: k_def)
    have i3: "i = 4 \<or> i = 5 \<or> i = 6" using go i by linarith
    have c: "- 1 \<le> cut_at m i" "cut_at m i < 2 ^ (8 * Suc k)" using go(3) i3 m by (auto simp: k_def cut_at_def Let_def split: if_splits)
    have sp: "cuts d devs N n dev {} (Suc k) l q nb st (indirtrunc k d env fenv n dev aflags nb q st)"
      if "fs_ok d devs N n dev {} l st" "nb \<noteq> 0" "owned d dev {} l (Suc k) st nb" "- 1 \<le> q" "q < 2 ^ (8 * Suc k)" for l q nb st
      by (rule indirtrunc_spec) (use that N k(3) in simp_all)
    show ?thesis
    proof (cases "cut_at m i < 0")
      case True
      then have c1: "cut_at m i = - 1" using c(1) by linarith
      have "tree_op d env fenv n dev aflags ad m i = (\<lambda>nb st. bind_cres (indirtrunc k d env fenv n dev aflags nb (- 1) st) (free d env fenv n dev nb)) (ad ! i)"
        using go k by (auto simp: fun_eq_iff tree_op_def c1)
      then show ?thesis using trims_gone [OF frees_tree [OF sp] go(1)] unfolding c1 k(1) by simp
    next
      case False
      have b: "bind_cres r Ok = r" for r :: "ufs cres" by (cases r) auto
      have "tree_op d env fenv n dev aflags ad m i = indirtrunc k d env fenv n dev aflags (ad ! i) (cut_at m i)"
        using go k False b by (auto simp: fun_eq_iff tree_op_def)
      moreover have "trims d devs N n dev (Suc k) (cut_at m i) (ad ! i) (indirtrunc k d env fenv n dev aflags (ad ! i) (cut_at m i))"
        by (rule trims_cut) (use sp go(1) c False in auto)
      ultimately show ?thesis by (simp add: k(1))
    qed
  qed
qed

lemma in_turn_skip: "(\<And>i st. i \<in> set is \<Longrightarrow> f i st = Ok st) \<Longrightarrow> in_turn f is st = Ok st"
  by (induction "is") auto

lemma bind_assoc: "bind_cres (bind_cres a f) g = bind_cres a (\<lambda>x. bind_cres (f x) g)"
  by (cases a) simp_all

lemma itrunc_free_ops:
  fixes len :: int
  defines "m \<equiv> lblkno (len + 1023) - 1"
  shows "itrunc_free d env fenv n oip len aflags st = bind_cres (in_turn (tree_op d env fenv n (i_dev oip) aflags (i_addr oip) m) [6, 5, 4, 3, 2, 1, 0] st)
     (\<lambda>st. Ok (st, oip\<lparr>i_size := sint (word_of_int len :: 32 word), i_addr := map (\<lambda>i. if cut_at m i < 0 then 0 else i_addr oip ! i) [0..<7]\<rparr>))"
proof -
  define lasti :: "nat \<Rightarrow> int" where "lasti = (\<lambda>level. if level = 0 then m - 4 else if level = 1 then m - 4 - 256 else m - 4 - 256 - 65536)"
  define lastib where "lastib = (\<lambda>level. if lasti level < 0 then - 1 else lasti level)"
  have lb: "lastib 0 = cut_at m 4" "lastib (Suc 0) = cut_at m 5" "lastib (Suc (Suc 0)) = cut_at m 6" by (simp_all add: lastib_def lasti_def cut_at_def)
  have cut: "itrunc_cut m lastib ad = map (\<lambda>i. if cut_at m i < 0 then 0 else ad ! i) [0..<7]" for ad
    unfolding itrunc_cut_def
  proof (rule map_cong [OF refl])
    fix i assume "i \<in> set [0..<7 :: nat]"
    then have "i < 4 \<or> i = 4 \<or> i = 5 \<or> i = 6" by auto
    then show "(if i < 4 then if int i > m then 0 else ad ! i else if lastib (i - 4) < 0 then 0 else ad ! i) = (if cut_at m i < 0 then 0 else ad ! i)"
      using lb by (auto simp: cut_at_def numeral_2_eq_2)
  qed
  let ?op = "tree_op d env fenv n (i_dev oip) aflags (i_addr oip) m"
  have skip: "?op i st = Ok st" if "i < 4 \<and> int i \<le> m \<or> 4 \<le> i \<and> i < 6 \<and> 0 \<le> cut_at m (Suc i)" for i st using that by (auto simp: tree_op_def)
  have dir: "itrunc_direct d env fenv n m k oip st = in_turn ?op (rev [0..<k]) st" if "k \<le> 4" for k st
    using that
  proof (induction k arbitrary: st)
    case (Suc k)
    show ?case
    proof (cases "int k > m")
      case True
      then have "itrunc_direct d env fenv n m (Suc k) oip st = bind_cres (?op k st) (itrunc_direct d env fenv n m k oip)" using Suc.prems by (simp add: tree_op_def)
      also have "itrunc_direct d env fenv n m k oip = in_turn ?op (rev [0..<k])" using Suc by (simp add: fun_eq_iff)
      finally show ?thesis by simp
    next
      case False
      then show ?thesis using Suc.prems in_turn_skip [of "rev [0..<Suc k]" ?op st] skip by (auto simp del: upt_Suc)
    qed
  qed simp
  have d4: "rev [0..<4] = [3, 2, 1, 0 :: nat]" by (simp add: upt_rec)
  have go: "(if i_addr oip ! i \<noteq> 0 then bind_cres (indirtrunc (i - 4) d env fenv n (i_dev oip) aflags (i_addr oip ! i) (cut_at m i) st)
       (\<lambda>st. if cut_at m i < 0 then free d env fenv n (i_dev oip) (i_addr oip ! i) st else Ok st) else Ok st) = ?op i st" if "4 \<le> i" "\<not> (i < 6 \<and> 0 \<le> cut_at m (Suc i))" for i st
    using that by (auto simp: tree_op_def)
  have lev: "bind_cres (itrunc_levels d env fenv n aflags lastib 3 oip st) (\<lambda>(st, dir). if dir then in_turn ?op [3, 2, 1, 0] st else Ok st) = in_turn ?op [6, 5, 4, 3, 2, 1, 0] st"
  proof -
    let ?R = "\<lambda>(st, dir). if dir then in_turn ?op [3, 2, 1, 0] st else Ok st"
    have step: "bind_cres (itrunc_levels d env fenv n aflags lastib (Suc k) oip st) ?R
        = bind_cres (?op (4 + k) st) (\<lambda>st. if 0 \<le> cut_at m (4 + k) then Ok st else bind_cres (itrunc_levels d env fenv n aflags lastib k oip st) ?R)"
      if "\<not> (4 + k < 6 \<and> 0 \<le> cut_at m (Suc (4 + k)))" "lastib k = cut_at m (4 + k)" for k st
    proof -
      have e: "(4 + k) - 4 = k" by simp
      have "itrunc_levels d env fenv n aflags lastib (Suc k) oip st = bind_cres (?op (4 + k) st) (\<lambda>st. if 0 \<le> cut_at m (4 + k) then Ok (st, False) else itrunc_levels d env fenv n aflags lastib k oip st)"
        unfolding itrunc_levels.simps Let_def that(2) go [OF le_add1 that(1), unfolded e, symmetric] by (rule refl)
      then show ?thesis by (simp only: bind_assoc) (rule arg_cong [of _ _ "bind_cres _"], auto)
    qed
    have l0: "(\<lambda>st. if 0 \<le> cut_at m 4 then Ok st else bind_cres (itrunc_levels d env fenv n aflags lastib 0 oip st) ?R) = in_turn ?op [3, 2, 1, 0]"
    proof (cases "0 \<le> cut_at m 4")
      case True
      then have "in_turn ?op [3, 2, 1, 0] = Ok" by (intro ext in_turn_skip skip) (auto simp: cut_at_def split: if_splits)
      then show ?thesis using True by simp
    qed (simp add: fun_eq_iff)
    have l1: "(\<lambda>st. if 0 \<le> cut_at m 5 then Ok st else bind_cres (itrunc_levels d env fenv n aflags lastib (Suc 0) oip st) ?R) = in_turn ?op [4, 3, 2, 1, 0]"
    proof (cases "0 \<le> cut_at m 5")
      case True
      then have "in_turn ?op [4, 3, 2, 1, 0] = Ok" by (intro ext in_turn_skip skip) (auto simp: cut_at_def split: if_splits)
      then show ?thesis using True by simp
    next
      case False
      then show ?thesis using step [of 0] lb(1) l0 by (simp add: fun_eq_iff)
    qed
    have l2: "(\<lambda>st. if 0 \<le> cut_at m 6 then Ok st else bind_cres (itrunc_levels d env fenv n aflags lastib (Suc (Suc 0)) oip st) ?R) = in_turn ?op [5, 4, 3, 2, 1, 0]"
    proof (cases "0 \<le> cut_at m 6")
      case True
      then have "in_turn ?op [5, 4, 3, 2, 1, 0] = Ok" by (intro ext in_turn_skip skip) (auto simp: cut_at_def split: if_splits)
      then show ?thesis using True by simp
    next
      case False
      then show ?thesis using step [of "Suc 0"] lb(2) l1 by (simp add: fun_eq_iff)
    qed
    show ?thesis using step [of "Suc (Suc 0)" st] lb(3) l2 by (simp add: numeral_3_eq_3)
  qed
  have lb': "(\<lambda>level :: nat. if (if level = 0 then m - 4 else if level = 1 then m - 4 - 256 else m - 4 - 256 - 65536) < 0 then - 1
      else if level = 0 then m - 4 else if level = 1 then m - 4 - 256 else m - 4 - 256 - 65536) = lastib" unfolding lastib_def lasti_def by (rule refl)
  show ?thesis unfolding itrunc_free_def Let_def m_def [symmetric] lb' cut dir [OF order_refl] d4
    unfolding lev [symmetric] bind_assoc by (rule arg_cong [of _ _ "bind_cres _"]) auto
qed

end
