(* ===== verification/Ufs_Trunc4.thy ===== *)
theory Ufs_Trunc4
  imports Ufs_Trunc3 Ufs_Io3
begin

text \<open>
  What \<open>itrunc\<close> makes of a file: its map, its bytes and the free list.
\<close>

section \<open>The map of the file\<close>

text \<open>The blocks on the way to a block of a file.\<close>

definition file_path :: "(int \<Rightarrow> block) \<Rightarrow> int list \<Rightarrow> int \<Rightarrow> int set" where
  "file_path V ad bn = (case place bn of None \<Rightarrow> {} | Some (i, q) \<Rightarrow> path (i - 3) V q (ad ! i))"

lemma place_onto: "i < 7 \<Longrightarrow> 0 \<le> q \<Longrightarrow> q < 2 ^ (8 * (i - 3)) \<Longrightarrow> \<exists>bn. 0 \<le> bn \<and> place bn = Some (i, q)"
proof -
  assume a: "i < 7" "0 \<le> q" "q < 2 ^ (8 * (i - 3))"
  consider "i < 4" "q = 0" | "i = 4" | "i = 5" | "i = 6" using a by (cases "i < 4") (auto, linarith)
  then show ?thesis
  proof cases
    case 1
    then show ?thesis by (intro exI [of _ "int i"]) (simp add: place_eq)
  next
    case 2
    then show ?thesis using a by (intro exI [of _ "q + 4"]) (simp add: place_eq)
  next
    case 3
    then show ?thesis using a by (intro exI [of _ "q + 260"]) (simp add: place_eq)
  next
    case 4
    then show ?thesis using a by (intro exI [of _ "q + 65796"]) (simp add: place_eq)
  qed
qed

lemma file_path_blocks: "file_path V ad bn \<subseteq> set (file_blocks V ad)"
proof (cases "place bn")
  case (Some z)
  then obtain i q where z: "place bn = Some (i, q)" by (cases z) auto
  then show ?thesis using path_nodes [of "i - 3" V q "ad ! i"] place_range [OF z] unfolding file_blocks_set file_path_def by auto
qed (simp add: file_path_def)

lemma file_path_frame: "(\<And>b. b \<in> set (file_blocks V ad) \<Longrightarrow> V' b = V b) \<Longrightarrow> file_path V' ad = file_path V ad"
proof
  fix bn
  assume V: "\<And>b. b \<in> set (file_blocks V ad) \<Longrightarrow> V' b = V b"
  show "file_path V' ad bn = file_path V ad bn"
  proof (cases "place bn")
    case (Some z)
    then obtain i q where z: "place bn = Some (i, q)" by (cases z) auto
    then have "path (i - 3) V' q (ad ! i) = path (i - 3) V q (ad ! i)"
      using place_range [OF z] V unfolding file_blocks_set by (intro path_cong) blast
    then show ?thesis by (simp add: file_path_def z)
  qed (simp add: file_path_def)
qed

lemma path_split: "path k V q nb \<subseteq> inner k V nb \<union> {through k V q nb}"
proof (induction k arbitrary: nb)
  case (Suc k)
  then show ?case using slot_less [of q k] by (cases "nb = 0") (auto simp: through.simps(2))
qed simp

lemma file_trim:
  assumes f: "file_ok V ad" and t: "\<forall>i<7. trim (i - 3) V V' (cut_at m i) (ad ! i) P" and P: "P \<subseteq> set (file_blocks V ad)"
    and ad': "ad' = map (\<lambda>i. if cut_at m i < 0 then 0 else ad ! i) [0..<7]"
  shows "file_ok V' ad'" "set (file_blocks V ad) = P \<union> set (file_blocks V' ad')" "P \<inter> set (file_blocks V' ad') = {}" "file_map V' ad' bn = (if bn \<le> m then file_map V ad bn else 0)"
    "set (file_blocks V' ad') = (\<Union>bn\<in>{0..m}. file_path V' ad' bn)" "bn \<le> m \<Longrightarrow> file_path V' ad' bn = file_path V ad bn"
proof -
  have a: "ad' ! i = (if cut_at m i < 0 then 0 else ad ! i)" if "i < 7" for i using that by (simp add: ad' del: upt_Suc)
  have len: "length ad' = 7" by (simp add: ad')
  let ?N = "\<lambda>i. set (nodes (i - 3) V (ad ! i))" and ?M = "\<lambda>i. set (nodes (i - 3) V' (ad' ! i))"
  have t': "tree_ok (i - 3) V' (ad' ! i)" "?N i \<subseteq> P \<union> ?M i" "?M i \<subseteq> ?N i" "P \<inter> ?M i = {}"
    "\<And>q. 0 \<le> q \<Longrightarrow> q < 2 ^ (8 * (i - 3)) \<Longrightarrow> through (i - 3) V' q (ad' ! i) = (if q \<le> cut_at m i then through (i - 3) V q (ad ! i) else 0)"
    "led (i - 3) V' (cut_at m i) (ad' ! i)" "0 \<le> cut_at m i \<Longrightarrow> ways (i - 3) V V' (cut_at m i) (ad ! i)" if "i < 7" for i
    using t [rule_format, OF that] unfolding trim_def Let_def a [OF that, symmetric] by blast+
  note f' = f [unfolded file_ok_iff]
  have "?M i \<inter> ?M j = {}" if "i < 7" "j < 7" "i \<noteq> j" for i j
  proof -
    have "?N i \<inter> ?N j = {}" using f' that by blast
    then show ?thesis using t'(3) [OF that(1)] t'(3) [OF that(2)] by blast
  qed
  then show "file_ok V' ad'" unfolding file_ok_iff using t'(1) len by (intro conjI allI impI) auto
  show "set (file_blocks V ad) = P \<union> set (file_blocks V' ad')" proof
    show "set (file_blocks V ad) \<subseteq> P \<union> set (file_blocks V' ad')" unfolding file_blocks_set using t'(2) by fastforce
    have "set (file_blocks V' ad') \<subseteq> set (file_blocks V ad)" unfolding file_blocks_set by (rule UN_mono [OF order_refl]) (use t'(3) in simp)
    then show "P \<union> set (file_blocks V' ad') \<subseteq> set (file_blocks V ad)" using P by simp
  qed
  show "P \<inter> set (file_blocks V' ad') = {}" using t'(4) unfolding file_blocks_set by blast
  show "file_map V' ad' bn = (if bn \<le> m then file_map V ad bn else 0)"
  proof (cases "place bn")
    case (Some z)
    then obtain i q where z: "place bn = Some (i, q)" by (cases z) auto
    note r = place_range [OF z]
    show ?thesis using t'(5) [of i q] r cut_place [OF z, of m] by (simp add: file_map_def z)
  qed (simp add: file_map_def)
  show "set (file_blocks V' ad') = (\<Union>bn\<in>{0..m}. file_path V' ad' bn)"
  proof
    show "(\<Union>bn\<in>{0..m}. file_path V' ad' bn) \<subseteq> set (file_blocks V' ad')" using file_path_blocks by blast
    show "set (file_blocks V' ad') \<subseteq> (\<Union>bn\<in>{0..m}. file_path V' ad' bn)"
    proof
      fix b assume "b \<in> set (file_blocks V' ad')"
      then obtain i where i: "i < 7" "b \<in> ?M i" unfolding file_blocks_set by auto
      then obtain q where q: "0 \<le> q" "q \<le> cut_at m i" "q < 2 ^ (8 * (i - 3))" "b \<in> path (i - 3) V' q (ad' ! i)" using t'(6) [OF i(1)] unfolding led_def by blast
      obtain x where x: "0 \<le> x" "place x = Some (i, q)" using place_onto [OF i(1) q(1,3)] by blast
      then show "b \<in> (\<Union>bn\<in>{0..m}. file_path V' ad' bn)" using cut_place [OF x(2), of m] q by (intro UN_I [of x]) (auto simp: file_path_def)
    qed
  qed
  show "file_path V' ad' bn = file_path V ad bn" if "bn \<le> m"
  proof (cases "place bn")
    case (Some z)
    then obtain i q where z: "place bn = Some (i, q)" by (cases z) auto
    note r = place_range [OF z]
    have c: "q \<le> cut_at m i" "0 \<le> cut_at m i" using cut_place [OF z, of m] that r by auto
    then have "path (i - 3) V' q (ad ! i) = path (i - 3) V q (ad ! i)" using t'(7) [of i] r unfolding ways_def by blast
    then show ?thesis using a [of i] r c(2) by (simp add: file_path_def z)
  qed (simp add: file_path_def)
qed

lemma file_map_outer:
  assumes f: "file_ok V ad" and nz: "file_map V ad bn \<noteq> 0" and j: "j < 7"
  shows "file_map V ad bn \<notin> inner (j - 3) V (ad ! j)"
proof -
  obtain i q where px: "place bn = Some (i, q)" using nz by (auto simp: file_map_def split: option.splits)
  note f' = f [unfolded file_ok_iff] and rx = place_range [OF px]
  have fx: "file_map V ad bn = through (i - 3) V q (ad ! i)" by (simp add: file_map_def px)
  have lf: "file_map V ad bn \<in> set (nodes (i - 3) V (ad ! i))" using through_nodes nz fx by metis
  show ?thesis
  proof (cases "j = i")
    case True
    then show ?thesis using leaf_not_inner [of "i - 3" V "ad ! i" q] f' rx nz fx by auto
  next
    case False
    then show ?thesis using f' j rx lf inner_nodes [of "j - 3" V "ad ! j"] by blast
  qed
qed

text \<open>A data block does not lie on the way to another.\<close>

lemma file_map_off_path:
  assumes f: "file_ok V ad" and nz: "file_map V ad bn \<noteq> 0" and ne: "x \<noteq> bn"
  shows "file_map V ad bn \<notin> file_path V ad x"
proof
  assume i: "file_map V ad bn \<in> file_path V ad x"
  then obtain j q where z: "place x = Some (j, q)" by (auto simp: file_path_def split: option.splits)
  then have "file_map V ad bn \<in> inner (j - 3) V (ad ! j) \<union> {file_map V ad x}"
    using i path_split [of "j - 3" V q "ad ! j"] by (auto simp: file_path_def file_map_def)
  then have "file_map V ad bn = file_map V ad x" using file_map_outer [OF f nz] place_range [OF z] by blast
  then show False using file_map_inj [OF f nz] ne by blast
qed

text \<open>The blocks of the file that are not free, and those of the free list.\<close>

definition file_in :: "sdisk \<Rightarrow> int set \<Rightarrow> nat \<Rightarrow> nat \<Rightarrow> int list \<Rightarrow> inode \<Rightarrow> ufs \<Rightarrow> bool" where
  "file_in d devs N n l ip st \<longleftrightarrow> fs_ok d devs N n (i_dev ip) {} l st \<and> file_ok (view d (bst st) (i_dev ip)) (i_addr ip)
     \<and> (\<forall>b\<in>set (file_blocks (view d (bst st) (i_dev ip)) (i_addr ip)). fs_isize (sb st) \<le> b \<and> b < fs_fsize (sb st) \<and> b \<notin> set l)"

definition fbytes :: "sdisk \<Rightarrow> inode \<Rightarrow> ufs \<Rightarrow> int \<Rightarrow> 8 word" where
  "fbytes d ip st = file_byte (view d (bst st) (i_dev ip)) (i_addr ip)"

abbreviation (input) fblocks :: "sdisk \<Rightarrow> inode \<Rightarrow> ufs \<Rightarrow> int set" where
  "fblocks d ip st \<equiv> set (file_blocks (view d (bst st) (i_dev ip)) (i_addr ip))"

abbreviation (input) fmap :: "sdisk \<Rightarrow> inode \<Rightarrow> ufs \<Rightarrow> int \<Rightarrow> int" where
  "fmap d ip st \<equiv> file_map (view d (bst st) (i_dev ip)) (i_addr ip)"

abbreviation (input) fpath :: "sdisk \<Rightarrow> inode \<Rightarrow> ufs \<Rightarrow> int \<Rightarrow> int set" where
  "fpath d ip st \<equiv> file_path (view d (bst st) (i_dev ip)) (i_addr ip)"

lemma itrunc_free_spec:
  fixes len :: int
  defines "m \<equiv> lblkno (len + 1023) - 1"
  assumes N: "4 \<le> N" and m: "m < 2 ^ 22" and fi: "file_in d devs N n l ip st"
  shows "\<exists>st' ip' p. itrunc_free d env fenv n ip len aflags st = Ok (st', ip') \<and> file_in d devs N n (p @ l) ip' st' \<and> uerror (bst st') = uerror (bst st)
     \<and> fs_isize (sb st') = fs_isize (sb st) \<and> fs_fsize (sb st') = fs_fsize (sb st)
     \<and> ip' = ip\<lparr>i_size := sint (word_of_int len :: 32 word), i_addr := i_addr ip'\<rparr>
     \<and> fblocks d ip st = set p \<union> fblocks d ip' st' \<and> same_but d devs (Pair (i_dev ip) ` fblocks d ip st) (bst st) (bst st')
     \<and> (\<forall>a. fbytes d ip' st' a = (if a div 1024 \<le> m then fbytes d ip st a else 0))
     \<and> (\<forall>bn. fmap d ip' st' bn = (if bn \<le> m then fmap d ip st bn else 0)) \<and> fblocks d ip' st' = (\<Union>bn\<in>{0..m}. fpath d ip' st' bn)
     \<and> (\<forall>bn\<le>m. fpath d ip' st' bn = fpath d ip st bn)"
proof -
  let ?dev = "i_dev ip" and ?V = "view d (bst st) (i_dev ip)" and ?ad = "i_addr ip"
  let ?N = "\<lambda>i. set (nodes (i - 3) ?V (?ad ! i))"
  note fi' = fi [unfolded file_in_def]
  have ok: "fs_ok d devs N n ?dev {} l st" and f: "file_ok ?V ?ad" using fi' by blast+
  note f' = f [unfolded file_ok_iff]
  have m1: "- 1 \<le> m" by (simp add: m_def lblkno_def pos_imp_zdiv_nonneg_iff)
  have is7: "set [6, 5, 4, 3, 2, 1, 0 :: nat] = {..<7}" by auto
  have "\<exists>st' p. in_turn (tree_op d env fenv n ?dev aflags ?ad m) [6, 5, 4, 3, 2, 1, 0] st = Ok st'
      \<and> drops d devs N n ?dev {} l (set p \<union> (\<Union>i\<in>set [6, 5, 4, 3, 2, 1, 0]. inner (i - 3) ?V (?ad ! i))) st p st'
      \<and> set p \<subseteq> (\<Union>i\<in>set [6, 5, 4, 3, 2, 1, 0]. ?N i) \<and> (\<forall>i\<in>set [6, 5, 4, 3, 2, 1, 0]. trim (i - 3) ?V (view d (bst st') ?dev) (cut_at m i) (?ad ! i) (set p))"
  proof (rule in_turn_spec)
    show "trims d devs N n ?dev (i - 3) (cut_at m i) (?ad ! i) (tree_op d env fenv n ?dev aflags ?ad m i)" if "i \<in> set [6, 5, 4, 3, 2, 1, 0]" for i
      by (rule tree_op_trims [OF N m1 m]) (use that is7 in blast)
    show "owned d ?dev {} l (i - 3) st (?ad ! i)" if "i \<in> set [6, 5, 4, 3, 2, 1, 0]" for i
      using that f' fi' unfolding is7 owned_def file_blocks_set by auto
    show "?N i \<inter> ?N j = {}" if "i \<in> set [6, 5, 4, 3, 2, 1, 0]" "j \<in> set [6, 5, 4, 3, 2, 1, 0]" "i \<noteq> j" for i j
      using that f' unfolding is7 by auto
    show "fs_ok d devs N n ?dev {} l st" by (rule ok)
  qed simp
  then obtain st' p where s: "in_turn (tree_op d env fenv n ?dev aflags ?ad m) [6, 5, 4, 3, 2, 1, 0] st = Ok st'"
    "drops d devs N n ?dev {} l (set p \<union> (\<Union>i<7. inner (i - 3) ?V (?ad ! i))) st p st'" "set p \<subseteq> (\<Union>i<7. ?N i)"
    "\<forall>i<7. trim (i - 3) ?V (view d (bst st') ?dev) (cut_at m i) (?ad ! i) (set p)" unfolding is7 by auto
  define ip' where "ip' = ip\<lparr>i_size := sint (word_of_int len :: 32 word), i_addr := map (\<lambda>i. if cut_at m i < 0 then 0 else ?ad ! i) [0..<7]\<rparr>"
  have ip': "i_dev ip' = ?dev" "i_addr ip' = map (\<lambda>i. if cut_at m i < 0 then 0 else ?ad ! i) [0..<7]" by (simp_all add: ip'_def)
  let ?V' = "view d (bst st') ?dev"
  have P: "set p \<subseteq> set (file_blocks ?V ?ad)" using s(3) by (simp add: file_blocks_set)
  note ft = file_trim [OF f s(4) P ip'(2)]
  note s2 = s(2) [unfolded drops_def]
  have "itrunc_free d env fenv n ip len aflags st = Ok (st', ip')" unfolding itrunc_free_ops m_def [symmetric] s(1) by (simp add: ip'_def)
  moreover have "file_in d devs N n (p @ l) ip' st'" unfolding file_in_def ip'(1) using s2 ft(1-3) fi' by auto
  moreover have "same_but d devs (Pair ?dev ` set (file_blocks ?V ?ad)) (bst st) (bst st')"
  proof -
    have "(\<Union>i<7. inner (i - 3) ?V (?ad ! i)) \<subseteq> set (file_blocks ?V ?ad)" unfolding file_blocks_set by (rule UN_mono [OF order_refl inner_nodes])
    then have "Pair ?dev ` (set p \<union> (\<Union>i<7. inner (i - 3) ?V (?ad ! i))) \<subseteq> Pair ?dev ` set (file_blocks ?V ?ad)" using P by (intro image_mono) simp
    then show ?thesis by (rule same_but_mono [rotated]) (use s2 in simp)
  qed
  moreover have "fbytes d ip' st' a = (if a div 1024 \<le> m then fbytes d ip st a else 0)" for a
  proof -
    let ?b = "file_map ?V ?ad (a div 1024)"
    have "?V' ?b = ?V ?b" if "?b \<noteq> 0" "a div 1024 \<le> m"
    proof -
      have "?b \<in> set (file_blocks ?V' (i_addr ip'))" using file_map_in [of ?V' "i_addr ip'" "a div 1024"] ft(4) that by simp
      then have "?b \<notin> set p" using ft(3) by blast
      moreover have "?b \<notin> inner (j - 3) ?V (?ad ! j)" if "j < 7" for j by (rule file_map_outer [OF f \<open>?b \<noteq> 0\<close> that])
      moreover have "?b \<in> set (file_blocks ?V ?ad)" by (rule file_map_in [OF that(1)])
      ultimately show ?thesis using fi' by (intro drops_view [OF s(2) ok]) auto
    qed
    then show ?thesis unfolding fbytes_def file_byte_def Let_def ip'(1) ft(4) by auto
  qed
  moreover have "ip' = ip\<lparr>i_size := sint (word_of_int len :: 32 word), i_addr := i_addr ip'\<rparr>" by (simp add: ip'_def)
  moreover have "\<forall>bn. fmap d ip' st' bn = (if bn \<le> m then fmap d ip st bn else 0)" "fblocks d ip' st' = (\<Union>bn\<in>{0..m}. fpath d ip' st' bn)"
    "\<forall>bn\<le>m. fpath d ip' st' bn = fpath d ip st bn" using ft(4,6) ft(5) unfolding ip'(1) by blast+
  ultimately show ?thesis using s2 ft(2) ip'(1) by (intro exI [of _ st'] exI [of _ ip'] exI [of _ p]) simp
qed

section \<open>The rest of the last block\<close>

lemma zero_tail:
  assumes "j \<le> 1024"
  shows "mem_block (\<lambda>a. if j \<le> a \<and> a < 1024 then 0 else block_mem x a) = mem_block (scatter (block_mem x) [j..<j + length (replicate (1024 - j) (0 :: 8 word))] (replicate (1024 - j) 0))"
proof (rule arg_cong [of _ _ mem_block], rule ext)
  fix a
  let ?bs = "replicate (1024 - j) (0 :: 8 word)"
  show "(if j \<le> a \<and> a < 1024 then 0 else block_mem x a) = scatter (block_mem x) [j..<j + length ?bs] ?bs a"
  proof (cases "j \<le> a \<and> a < 1024")
    case True
    then have "a < j + length ?bs" "?bs ! (a - j) = 0" using assms by (simp_all add: nth_replicate less_diff_conv2)
    then show ?thesis using True scatter_at [of j a ?bs "block_mem x"] by simp
  next
    case False
    then have "a \<notin> set [j..<j + length ?bs]" using assms by auto
    then show ?thesis using False scatter_other by metis
  qed
qed

lemma tail_spec:
  assumes N: "1 < N" and fi: "file_in d devs N n l ip st" and len: "0 \<le> len" "len < 2 ^ 31" and l: "4 \<le> length l" and z: "aflags AND B_CLRBUF \<noteq> 0"
  shows "\<exists>st1 ip1 bn st2 bp p l1. bmap d env fenv n ip (lblkno len) True aflags st = Ok (st1, ip1, bn) \<and> uerror (bst st1) = uerror (bst st) \<and> 0 < bn
     \<and> with_buf (bread d env n (i_dev ip) bn) st1 = Ok (st2, bp) \<and> b_flags (ubuf bp st2) AND B_ERROR = 0 \<and> l = p @ l1
     \<and> (\<exists>w. ip1 = ip\<lparr>i_addr := i_addr ip1, i_flag := w\<rparr>)
     \<and> (let st3 = in_cache (bdwrite bp) (in_cache (upd_buf bp (\<lambda>p. p\<lparr>b_data := mem_block (\<lambda>a. if blkoff len \<le> a \<and> a < 1024 then 0 else block_mem (b_data p) a)\<rparr>)) st2)
        in file_in d devs N n l1 ip1 st3 \<and> uerror (bst st3) = uerror (bst st) \<and> fs_isize (sb st3) = fs_isize (sb st) \<and> fs_fsize (sb st3) = fs_fsize (sb st)
         \<and> fblocks d ip1 st3 = fblocks d ip st \<union> set p \<and> same_but d devs ({(i_dev ip, SUPERB)} \<union> Pair (i_dev ip) ` (fblocks d ip st \<union> set p)) (bst st) (bst st3)
         \<and> fbytes d ip1 st3 = written (fbytes d ip st) len (replicate (1024 - blkoff len) 0)
         \<and> (\<forall>bn. fmap d ip1 st3 bn = fmap d ip st bn \<or> bn = len div 1024 \<and> fmap d ip st bn = 0 \<and> fmap d ip1 st3 bn \<in> set p))"
proof -
  let ?dev = "i_dev ip" and ?ad = "i_addr ip" and ?V = "view d (bst st) (i_dev ip)"
  note fi' = fi [unfolded file_in_def]
  have fo: "fs_ok d devs N n ?dev {} l st" and f: "file_ok ?V ?ad" and rng: "\<forall>b\<in>set (file_blocks ?V ?ad). fs_isize (sb st) \<le> b \<and> b < fs_fsize (sb st) \<and> b \<notin> set l" using fi' by blast+
  have lb: "lblkno len = len div 1024" using len by (simp add: lblkno_id)
  have "0 \<le> len div 1024" "len div 1024 < 2097152" using len by (auto simp: div_less_iff_less_mult)
  then have "place (len div 1024) \<noteq> None" unfolding place_none by simp
  then obtain i q where pl: "place (len div 1024) = Some (i, q)" by auto
  from mapped_file [OF fo f rng pl bmap_write_spec [OF N fo refl f rng pl l, of aflags env fenv]] z obtain st1 ip1 r p l1 where
    m: "bmap d env fenv n ip (len div 1024) True aflags st = Ok (st1, ip1, r)" "l = p @ l1" "fs_ok d devs N n ?dev {} l1 st1"
      "uerror (bst st1) = uerror (bst st)" "\<exists>w\<in>{0, IUPD OR ICHG}. ip1 = ip\<lparr>i_addr := i_addr ip1, i_flag := i_flag ip OR w\<rparr>"
      "fs_isize (sb st1) = fs_isize (sb st)" "fs_fsize (sb st1) = fs_fsize (sb st)"
      "file_ok (view d (bst st1) ?dev) (i_addr ip1)" "set (file_blocks (view d (bst st1) ?dev) (i_addr ip1)) = set (file_blocks ?V ?ad) \<union> set p"
      "r \<noteq> 0" "file_map (view d (bst st1) ?dev) (i_addr ip1) (len div 1024) = r"
      "\<forall>bn. bn \<noteq> len div 1024 \<longrightarrow> file_map (view d (bst st1) ?dev) (i_addr ip1) bn = file_map ?V ?ad bn"
      "if file_map ?V ?ad (len div 1024) \<noteq> 0 then p = [] \<and> r = file_map ?V ?ad (len div 1024) else r \<in> set p"
      "\<forall>bn. file_map ?V ?ad bn \<noteq> 0 \<longrightarrow> view d (bst st1) ?dev (file_map ?V ?ad bn) = ?V (file_map ?V ?ad bn)"
      "file_map ?V ?ad (len div 1024) = 0 \<longrightarrow> view d (bst st1) ?dev r = replicate 256 0"
      "same_but d devs ({(?dev, SUPERB)} \<union> Pair ?dev ` (set (file_blocks ?V ?ad) \<union> set p)) (bst st) (bst st1)" by blast
  let ?V1 = "view d (bst st1) ?dev"
  obtain w0 ad' where "ip1 = ip\<lparr>i_addr := ad', i_flag := w0\<rparr>" using m(5) by blast
  then have ip1: "i_dev ip1 = ?dev" by simp
  have dl: "distinct l" using fo by (auto simp: fs_ok_def fs_list_def Let_def)
  have blk: "0 < b \<and> usable d devs ?dev b \<and> b \<notin> set l1 \<and> fs_isize (sb st) \<le> b \<and> b < fs_fsize (sb st)" if "b \<in> set (file_blocks ?V1 (i_addr ip1))" for b
  proof (cases "b \<in> set p")
    case True
    then show ?thesis using free_block [OF fo, of b] dl m(2) by auto
  next
    case False
    then have "b \<in> set (file_blocks ?V ?ad)" using that m(9) by blast
    then have b: "fs_isize (sb st) \<le> b" "b < fs_fsize (sb st)" "b \<notin> set l1" using rng m(2) by auto
    moreover have "0 < fs_isize (sb st)" using fo by (auto simp: fs_ok_def fs_list_def Let_def)
    ultimately show ?thesis using fs_range_usable [OF fo b(1,2)] by simp
  qed
  have rin: "r \<in> set (file_blocks ?V1 (i_addr ip1))" using file_map_in m(10,11) by metis
  note rb = blk [OF rin]
  have ca: "cache_ok d devs N n {} (bst st1)" using m(3) by (simp add: fs_ok_def)
  from read_use [OF ca, of ?dev r env] rb obtain c2 b where g: "bread d env n ?dev r (bst st1) = Ok (c2, b)" "binv d devs N (insert b {}) c2" "sees d devs (bst st1) c2" "follows d devs {} (bst st1) c2"
    "got d ?dev r b c2" "b_data (bufs c2 b) = ?V1 r" by auto
  define bs where "bs = replicate (1024 - blkoff len) (0 :: 8 word)"
  have on: "blkoff len = nat (len mod 1024)" "blkoff len < 1024" "length bs \<le> 1024" "nat (len mod 1024) + length bs \<le> 1024" by (simp_all add: blkoff_def bs_def)
  let ?f = "\<lambda>p. p\<lparr>b_data := mem_block (\<lambda>a. if blkoff len \<le> a \<and> a < 1024 then 0 else block_mem (b_data p) a)\<rparr>"
  define dat where "dat = mem_block (scatter (block_mem (?V1 r)) [nat (len mod 1024)..<nat (len mod 1024) + length bs] bs)"
  have "b_data (?f (bufs c2 b)) = mem_block (\<lambda>a. if blkoff len \<le> a \<and> a < 1024 then 0 else block_mem (b_data (bufs c2 b)) a)" by simp
  also have "\<dots> = dat" unfolding g(6) dat_def bs_def on(1) by (rule zero_tail) (use on(1,2) in simp)
  finally have dat: "b_data (?f (bufs c2 b)) = dat" .
  from write_use [OF writer_bdwrite g(2) _ got_ready [OF g(5)], of ?f] obtain c3 where
    v: "bdwrite b (upd_buf b ?f c2) = c3" "binv d devs N {} c3" "puts d devs ?dev r dat c2 c3" "calm (upd_buf b ?f c2) c3" unfolding dat by auto
  have pu: "puts d devs ?dev r dat (bst st1) c3" by (rule sees_puts [OF g(3) v(3)])
  have r1: "\<And>b. b_resid (bufs (bst st1) b) = 0" using m(3) by (auto simp: fs_ok_def fs_list_def Let_def ubuf_def)
  have r3: "b_resid (bufs c3 e) = 0" "uerror c3 = uerror (bst st)" for e using v(4) g(4) r1 m(4) by (auto simp: calm_def follows_def)
  define st3 where "st3 = st1\<lparr>bst := c3\<rparr>"
  have fo3: "fs_ok d devs N n ?dev {} l1 st3" unfolding st3_def by (rule fs_ok_puts [OF m(3) v(2) pu r3(1)]) (use rb in blast)
  let ?V3 = "view d c3 ?dev"
  have V3: "?V3 r = dat" "\<And>b. b \<in> set (file_blocks ?V1 (i_addr ip1)) \<Longrightarrow> b \<noteq> r \<Longrightarrow> ?V3 b = ?V1 b" using pu blk rin by (auto simp: puts_def)
  have nzr: "file_map ?V1 (i_addr ip1) (len div 1024) \<noteq> 0" using m(10,11) by simp
  have fl: "file_ok ?V3 (i_addr ip1)" "file_blocks ?V3 (i_addr ip1) = file_blocks ?V1 (i_addr ip1)" using file_leaf [OF m(8) nzr, of ?V3] V3(2) m(11) by auto
  have fm: "file_map ?V3 (i_addr ip1) = file_map ?V1 (i_addr ip1)" using file_leaf(3) [OF m(8) nzr, of ?V3] V3(2) m(11) by auto
  have o: "if file_map ?V ?ad (len div 1024) \<noteq> 0 then r = file_map ?V ?ad (len div 1024) else length bs \<noteq> 1024 \<longrightarrow> ?V1 r = replicate 256 0" using m(13,15) by (simp split: if_splits)
  have byt: "file_byte ?V3 (i_addr ip1) = written (file_byte ?V ?ad) len bs"
    by (rule write_bytes [OF m(8,11,10,12,14) o V3(1) [unfolded dat_def] V3(2) refl on(4)])
  have sm: "same_but d devs ({(?dev, SUPERB)} \<union> Pair ?dev ` (set (file_blocks ?V ?ad) \<union> set p)) (bst st) c3"
    by (rule same_but_mono [OF same_but_trans [OF m(16) same_but_puts [OF pu]]]) (use rin m(9) in auto)
  have e: "in_cache (bdwrite b) (in_cache (upd_buf b ?f) (st1\<lparr>bst := c2\<rparr>)) = st3" using v(1) by (simp add: in_cache_def st3_def)
  have w1: "\<exists>w. ip1 = ip\<lparr>i_addr := i_addr ip1, i_flag := w\<rparr>" using m(5) by blast
  have w2: "with_buf (bread d env n ?dev r) st1 = Ok (st1\<lparr>bst := c2\<rparr>, b)" using g(1) by (simp add: with_buf_def)
  have w3: "b_flags (ubuf b (st1\<lparr>bst := c2\<rparr>)) AND B_ERROR = 0" using g(5) by (simp add: got_def ubuf_def Let_def bflag_bits)
  have w4: "file_in d devs N n l1 ip1 st3" unfolding file_in_def ip1 using fo3 fl blk m(6,7) by (simp add: st3_def)
  have w5: "fblocks d ip1 st3 = fblocks d ip st \<union> set p" using fl(2) m(9) by (simp add: ip1 st3_def)
  have w6: "fbytes d ip1 st3 = written (fbytes d ip st) len (replicate (1024 - blkoff len) 0)" using byt by (simp add: fbytes_def ip1 st3_def bs_def)
  have w7: "uerror (bst st3) = uerror (bst st)" "fs_isize (sb st3) = fs_isize (sb st)" "fs_fsize (sb st3) = fs_fsize (sb st)" "bst st3 = c3" using r3(2) m(6,7) by (simp_all add: st3_def)
  have w8: "\<forall>bn. fmap d ip1 st3 bn = fmap d ip st bn \<or> bn = len div 1024 \<and> fmap d ip st bn = 0 \<and> fmap d ip1 st3 bn \<in> set p"
    using m(11-13) unfolding ip1 w7(4) fm by metis
  show ?thesis unfolding lb Let_def
    by (rule exI [of _ st1], rule exI [of _ ip1], rule exI [of _ r], rule exI [of _ "st1\<lparr>bst := c2\<rparr>"], rule exI [of _ b], rule exI [of _ p], rule exI [of _ l1], simp only: e, intro conjI)
      (rule m(1,2,4) rb [THEN conjunct1] w1 w2 w3 w4 w5 w6 w7(1-3) w8 sm [folded w7(4)])+
qed

end
