(* ===== verification/Ufs_Itrunc.thy ===== *)
theory Ufs_Itrunc
  imports Ufs_Trunc4
begin

text \<open>
  Properties of truncation and of the update of an inode on the card.
\<close>

section \<open>Updating the inode\<close>

lemma iupdat_spec:
  assumes ok: "fs_ok d devs N n (i_dev ip) {} l st" and u: "usable d devs (i_dev ip) (itod (i_number ip))" and nl: "itod (i_number ip) \<notin> set l"
  shows "\<exists>st' ip'. iupdat d env n ip w st = Ok (st', ip') \<and> fs_ok d devs N n (i_dev ip) {} l st' \<and> sb st' = sb st \<and> uerror (bst st') = uerror (bst st)
     \<and> (\<exists>t1 t2 t3 fl. ip' = ip\<lparr>i_atime := t1, i_mtime := t2, i_ctime := t3, i_flag := fl\<rparr>) \<and> same_but d devs {(i_dev ip, itod (i_number ip))} (bst st) (bst st')
     \<and> (i_flag ip AND (IUPD OR IACC OR ICHG OR IMOD) \<noteq> 0 \<and> fs_ronly (sb st) = 0 \<longrightarrow>
          view d (bst st') (i_dev ip) (itod (i_number ip)) = put_dinode ip' (view d (bst st) (i_dev ip) (itod (i_number ip))))"
proof (cases "i_flag ip AND (IUPD OR IACC OR ICHG OR IMOD) = 0 \<or> fs_ronly (sb st) \<noteq> 0")
  case True
  have "ip = ip\<lparr>i_atime := i_atime ip, i_mtime := i_mtime ip, i_ctime := i_ctime ip, i_flag := i_flag ip\<rparr>" by simp
  then have "\<exists>t1 t2 t3 fl. ip = ip\<lparr>i_atime := t1, i_mtime := t2, i_ctime := t3, i_flag := fl\<rparr>" by blast
  moreover have "iupdat d env n ip w st = Ok (st, ip)" using True by (auto simp: iupdat_def)
  ultimately show ?thesis using ok True by (intro exI [of _ st] exI [of _ ip]) (auto simp: same_but_def)
next
  case False
  let ?dev = "i_dev ip" and ?bn = "itod (i_number ip)"
  note o = ok [unfolded fs_ok_def fs_list_def Let_def]
  have ca: "cache_ok d devs N n {} (bst st)" and p: "parts_ok d devs" using o by (auto simp: cache_ok_def)
  define c0 where "c0 = (w \<and> fs_flags (sb st) AND MNT_ASYNC = 0)"
  obtain wr where wr: "writer d devs N wr" "\<And>b st. (if c0 then with_cache (bwrite d env n b) st else Ok (in_cache (bdwrite b) st)) = with_cache (wr b) st"
    using writer_choice [OF p, of N c0 env n] by blast
  from read_use [OF ca u, of env] obtain c1 b where g: "bread d env n ?dev ?bn (bst st) = Ok (c1, b)" "binv d devs N (insert b {}) c1" "sees d devs (bst st) c1" "follows d devs {} (bst st) c1"
    "got d ?dev ?bn b c1" "b_data (bufs c1 b) = view d (bst st) ?dev ?bn" by auto
  define ip' where "ip' = (let ip = (if i_flag ip AND IACC \<noteq> 0 then ip\<lparr>i_atime := now st\<rparr> else ip);
      ip = (if i_flag ip AND IUPD \<noteq> 0 then ip\<lparr>i_mtime := now st\<rparr> else ip); ip = (if i_flag ip AND ICHG \<noteq> 0 then ip\<lparr>i_ctime := now st\<rparr> else ip)
      in ip\<lparr>i_flag := i_flag ip AND NOT (IUPD OR IACC OR ICHG OR IMOD)\<rparr>)"
  have "\<exists>t1 t2 t3 fl. ip' = ip\<lparr>i_atime := t1, i_mtime := t2, i_ctime := t3, i_flag := fl\<rparr>"
  proof
    show "\<exists>t2 t3 fl. ip' = ip\<lparr>i_atime := i_atime ip', i_mtime := t2, i_ctime := t3, i_flag := fl\<rparr>"
      by (rule exI [of _ "i_mtime ip'"], rule exI [of _ "i_ctime ip'"], rule exI [of _ "i_flag ip'"]) (simp add: ip'_def Let_def)
  qed
  moreover from write_use [OF wr(1) g(2) _ got_ready [OF g(5)], of "\<lambda>p. p\<lparr>b_data := put_dinode ip' (b_data p)\<rparr>"] obtain c2 where
    v: "wr b (upd_buf b (\<lambda>p. p\<lparr>b_data := put_dinode ip' (b_data p)\<rparr>) c1) = Ok c2" "binv d devs N {} c2" "puts d devs ?dev ?bn (put_dinode ip' (view d (bst st) ?dev ?bn)) c1 c2"
      "calm (upd_buf b (\<lambda>p. p\<lparr>b_data := put_dinode ip' (b_data p)\<rparr>) c1) c2" using g(6) by auto
  have pu: "puts d devs ?dev ?bn (put_dinode ip' (view d (bst st) ?dev ?bn)) (bst st) c2" by (rule sees_puts [OF g(3) v(3)])
  have r: "b_resid (bufs c2 e) = 0" "uerror c2 = uerror (bst st)" for e using v(4) g(4) o by (auto simp: calm_def follows_def ubuf_def)
  have "fs_ok d devs N n ?dev {} l (st\<lparr>bst := c2\<rparr>)" by (rule fs_ok_puts [OF ok v(2) pu r(1) nl])
  moreover have "b_flags (bufs c1 b) AND B_ERROR = 0" using g(5) by (simp add: got_def Let_def bflag_bits)
  then have "iupdat d env n ip w st = bind_cres (with_cache (wr b) (st\<lparr>bst := upd_buf b (\<lambda>p. p\<lparr>b_data := put_dinode ip' (b_data p)\<rparr>) c1\<rparr>)) (\<lambda>st. Ok (st, ip'))"
    using False g(1) unfolding iupdat_def by (simp add: with_buf_def ubuf_def ip'_def [symmetric] in_cache_def wr(2) [symmetric] c0_def Let_def split del: if_split) (simp add: ip'_def Let_def in_cache_def)
  then have "iupdat d env n ip w st = Ok (st\<lparr>bst := c2\<rparr>, ip')" using v(1) by (simp add: with_cache_def)
  ultimately show ?thesis using same_but_puts [OF pu] pu u r(2) by (intro exI [of _ "st\<lparr>bst := c2\<rparr>"] exI [of _ ip']) (simp add: puts_def)
qed

section \<open>The last block\<close>

lemma div_less_block: "(a :: int) div 1024 < x \<longleftrightarrow> a < 1024 * x"
  using le_div_mod [of 1024 "1024 * x" a] by auto

lemma last_block:
  fixes len :: int
  shows "(len + 1023) div 1024 = (if len mod 1024 = 0 then len div 1024 else len div 1024 + 1)"
proof -
  define q r where "q = len div 1024" and "r = len mod 1024"
  have l: "len = 1024 * q + r" "0 \<le> r" "r < 1024" by (simp_all add: q_def r_def)
  have "(1024 * q + r + 1023) div 1024 = (if r = 0 then q else q + 1)"
    using l(2,3) int_div_pos_eq [of "1024 * q + r + 1023" 1024 q "1023"] int_div_pos_eq [of "1024 * q + r + 1023" 1024 "q + 1" "r - 1"] by auto
  then show ?thesis unfolding l(1) [symmetric] by (simp add: q_def r_def)
qed

lemma kept_part:
  fixes len :: int
  assumes "g = (if len mod 1024 = 0 then f else written f len (replicate (1024 - blkoff len) 0))"
  shows "(if a div 1024 \<le> (len + 1023) div 1024 - 1 then g a else 0) = (if a < len then f a else 0)"
proof -
  define q r where "q = len div 1024" and "r = len mod 1024"
  have l: "len = 1024 * q + r" "0 \<le> r" "r < 1024" by (simp_all add: q_def r_def)
  have b: "blkoff len = nat r" by (simp add: blkoff_def r_def)
  have "a div 1024 \<le> (len + 1023) div 1024 - 1 \<longleftrightarrow> a div 1024 < (len + 1023) div 1024" by linarith
  also have "\<dots> \<longleftrightarrow> a < 1024 * (if r = 0 then q else q + 1)" unfolding last_block div_less_block by (simp add: q_def r_def)
  finally have k: "a div 1024 \<le> (len + 1023) div 1024 - 1 \<longleftrightarrow> a < 1024 * (if r = 0 then q else q + 1)" .
  show ?thesis
  proof (cases "r = 0")
    case True
    then show ?thesis unfolding k assms by (simp add: r_def [symmetric] l(1))
  next
    case False
    then have g: "g = written f len (replicate (1024 - nat r) 0)" using assms b by (simp add: r_def)
    have e: "len + int (length (replicate (1024 - nat r) (0 :: 8 word))) = 1024 * (q + 1)" using l by simp
    show ?thesis unfolding k g written_def e using False l by (auto simp: nth_replicate nat_less_iff)
  qed
qed

section \<open>Truncation\<close>

definition itrunc_done :: "sdisk \<Rightarrow> int set \<Rightarrow> nat \<Rightarrow> nat \<Rightarrow> int list \<Rightarrow> inode \<Rightarrow> ufs \<Rightarrow> int \<Rightarrow> int list \<Rightarrow> inode \<Rightarrow> ufs \<Rightarrow> bool" where
  "itrunc_done d devs N n l ip st len l' ip' st' \<longleftrightarrow> file_in d devs N n l' ip' st' \<and> uerror (bst st') = 0 \<and> i_size ip' = len \<and> i_dev ip' = i_dev ip
     \<and> (\<forall>a. fbytes d ip' st' a = (if a < len then fbytes d ip st a else 0)) \<and> set l' \<union> fblocks d ip' st' = set l \<union> fblocks d ip st
     \<and> same_but d devs (Pair (i_dev ip) ` ({SUPERB, itod (i_number ip)} \<union> set l \<union> fblocks d ip st)) (bst st) (bst st')
     \<and> (\<forall>bn. if bn < (len + 1023) div 1024 then fmap d ip' st' bn = fmap d ip st bn \<or> bn = len div 1024 \<and> fmap d ip st bn = 0 \<and> fmap d ip' st' bn \<in> set l
          else fmap d ip' st' bn = 0 \<and> (fmap d ip st bn \<noteq> 0 \<longrightarrow> fmap d ip st bn \<in> set l'))
     \<and> fblocks d ip' st' = (\<Union>bn\<in>{0..<(len + 1023) div 1024}. fpath d ip' st' bn)
     \<and> (len mod 1024 = 0 \<longrightarrow> (\<forall>bn<(len + 1023) div 1024. fpath d ip' st' bn = fpath d ip st bn))"

lemma itrunc_finish:
  assumes N: "4 \<le> N" and fi: "file_in d devs N n l1 ip1 st1" and len: "0 \<le> len" "len < 2 ^ 31" and u: "uerror (bst st1) = 0" and ino: "usable d devs (i_dev ip1) (itod (i_number ip1))" "itod (i_number ip1) < fs_isize (sb st1)"
    and g: "fbytes d ip1 st1 = (if len mod 1024 = 0 then f else written f len (replicate (1024 - blkoff len) 0))"
  shows "\<exists>st' ip' l'. bind_cres (itrunc_free d env fenv n ip1 len aflags st1) (\<lambda>(st, oip). iupdat d env n (oip\<lparr>i_flag := i_flag oip OR (ICHG OR IUPD)\<rparr>) True st) = Ok (st', ip')
     \<and> file_in d devs N n l' ip' st' \<and> uerror (bst st') = 0 \<and> i_size ip' = len \<and> i_dev ip' = i_dev ip1 \<and> (\<forall>a. fbytes d ip' st' a = (if a < len then f a else 0))
     \<and> set l' \<union> fblocks d ip' st' = set l1 \<union> fblocks d ip1 st1
     \<and> same_but d devs (Pair (i_dev ip1) ` ({itod (i_number ip1)} \<union> fblocks d ip1 st1)) (bst st1) (bst st')
     \<and> (\<forall>bn. if bn < (len + 1023) div 1024 then fmap d ip' st' bn = fmap d ip1 st1 bn
          else fmap d ip' st' bn = 0 \<and> (fmap d ip1 st1 bn \<noteq> 0 \<longrightarrow> fmap d ip1 st1 bn \<in> set l'))
     \<and> fblocks d ip' st' = (\<Union>bn\<in>{0..<(len + 1023) div 1024}. fpath d ip' st' bn)
     \<and> (\<forall>bn<(len + 1023) div 1024. fpath d ip' st' bn = fpath d ip1 st1 bn)"
proof -
  have lb: "lblkno (len + 1023) = (len + 1023) div 1024" using len by (simp add: lblkno_id)
  have "(len + 1023) div 1024 < 2 ^ 22" unfolding div_less_block using len by simp
  then have m: "lblkno (len + 1023) - 1 < 2 ^ 22" unfolding lb by linarith
  from itrunc_free_spec [OF N m fi, of env fenv aflags] obtain st2 ip2 p where s: "itrunc_free d env fenv n ip1 len aflags st1 = Ok (st2, ip2)" "file_in d devs N n (p @ l1) ip2 st2"
    "uerror (bst st2) = uerror (bst st1)" "fs_isize (sb st2) = fs_isize (sb st1)" "ip2 = ip1\<lparr>i_size := sint (word_of_int len :: 32 word), i_addr := i_addr ip2\<rparr>"
    "fblocks d ip1 st1 = set p \<union> fblocks d ip2 st2" "same_but d devs (Pair (i_dev ip1) ` fblocks d ip1 st1) (bst st1) (bst st2)"
    "\<forall>a. fbytes d ip2 st2 a = (if a div 1024 \<le> lblkno (len + 1023) - 1 then fbytes d ip1 st1 a else 0)"
    and k: "\<forall>bn. fmap d ip2 st2 bn = (if bn \<le> lblkno (len + 1023) - 1 then fmap d ip1 st1 bn else 0)"
      "fblocks d ip2 st2 = (\<Union>bn\<in>{0..lblkno (len + 1023) - 1}. fpath d ip2 st2 bn)" "\<forall>bn\<le>lblkno (len + 1023) - 1. fpath d ip2 st2 bn = fpath d ip1 st1 bn" by - (elim exE conjE, rule that; assumption)
  obtain ad2 where "ip2 = ip1\<lparr>i_size := sint (word_of_int len :: 32 word), i_addr := ad2\<rparr>" using s(5) by blast
  then have ip2: "i_dev ip2 = i_dev ip1" "i_number ip2 = i_number ip1" "i_size ip2 = len" using len by (simp_all add: sint_of_int)
  define ip3 where "ip3 = ip2\<lparr>i_flag := i_flag ip2 OR (ICHG OR IUPD)\<rparr>"
  have ip3: "i_dev ip3 = i_dev ip1" "i_number ip3 = i_number ip1" "i_size ip3 = len" "i_addr ip3 = i_addr ip2" using ip2 by (simp_all add: ip3_def)
  note s2 = s(2) [unfolded file_in_def ip2(1)]
  let ?bn = "itod (i_number ip1)" and ?dev = "i_dev ip1"
  have ok3: "fs_ok d devs N n (i_dev ip3) {} (p @ l1) st2" using s2 by (simp add: ip3)
  have nl: "?bn \<notin> set (p @ l1)" using free_block [OF ok3, of ?bn] ino(2) s(4) by (intro notI) simp
  from iupdat_spec [OF ok3, unfolded ip3, OF ino(1) nl, of env True] obtain st3 ip4 where
    t: "iupdat d env n ip3 True st2 = Ok (st3, ip4)" "fs_ok d devs N n ?dev {} (p @ l1) st3" "sb st3 = sb st2" "uerror (bst st3) = uerror (bst st2)"
      "\<exists>t1 t2 t3 fl. ip4 = ip3\<lparr>i_atime := t1, i_mtime := t2, i_ctime := t3, i_flag := fl\<rparr>" "same_but d devs {(?dev, ?bn)} (bst st2) (bst st3)" by blast
  have ip4: "i_dev ip4 = ?dev" "i_size ip4 = len" "i_addr ip4 = i_addr ip2" using t(5) ip3 by auto
  have V: "view d (bst st3) ?dev b = view d (bst st2) ?dev b" if "b \<in> set (file_blocks (view d (bst st2) ?dev) (i_addr ip2))" for b
  proof -
    have b: "fs_isize (sb st2) \<le> b" "b < fs_fsize (sb st2)" using s2 that by auto
    then have "b \<noteq> ?bn" using ino(2) s(4) by simp
    moreover have "usable d devs ?dev b" by (rule fs_range_usable [OF ok3 [unfolded ip3] b])
    ultimately show ?thesis using t(6) by (simp add: same_but_def)
  qed
  have ff: "file_ok (view d (bst st3) ?dev) (i_addr ip2) = file_ok (view d (bst st2) ?dev) (i_addr ip2)" "file_blocks (view d (bst st3) ?dev) (i_addr ip2) = file_blocks (view d (bst st2) ?dev) (i_addr ip2)"
    "file_map (view d (bst st3) ?dev) (i_addr ip2) = file_map (view d (bst st2) ?dev) (i_addr ip2)" by (rule file_frame, erule V)+
  have fi4: "file_in d devs N n (p @ l1) ip4 st3" unfolding file_in_def ip4 using t(2,3) s2 ff by simp
  have by4: "fbytes d ip4 st3 = fbytes d ip2 st2"
  proof
    fix a
    show "fbytes d ip4 st3 a = fbytes d ip2 st2 a"
      using V [OF file_map_in [of "view d (bst st2) ?dev" "i_addr ip2" "a div 1024"]] by (simp add: fbytes_def file_byte_def Let_def ip4 ip2(1) ff(3))
  qed
  define K where "K = (len + 1023) div 1024"
  have le: "x \<le> lblkno (len + 1023) - 1 \<longleftrightarrow> x < K" for x unfolding lb K_def [symmetric] by linarith
  have fp: "fpath d ip4 st3 = fpath d ip2 st2" unfolding ip4 ip2(1) by (rule file_path_frame, erule V)
  have fm: "fmap d ip4 st3 = fmap d ip2 st2" unfolding ip4 ip2(1) by (rule ff(3))
  have fb: "fblocks d ip4 st3 = fblocks d ip2 st2" unfolding ip4 ip2(1) by (simp only: ff(2))
  have pth: "\<forall>bn<K. fpath d ip4 st3 bn = fpath d ip1 st1 bn" using k(3) unfolding fp le by blast
  have "{0..lblkno (len + 1023) - 1} = {0..<K}" by (rule set_eqI) (simp only: atLeastAtMost_iff atLeastLessThan_iff le)
  then have kept: "fblocks d ip4 st3 = (\<Union>bn\<in>{0..<K}. fpath d ip4 st3 bn)" using k(2) unfolding fp fb by simp
  have map: "\<forall>bn. if bn < K then fmap d ip4 st3 bn = fmap d ip1 st1 bn else fmap d ip4 st3 bn = 0 \<and> (fmap d ip1 st1 bn \<noteq> 0 \<longrightarrow> fmap d ip1 st1 bn \<in> set (p @ l1))"
  proof (intro allI)
    fix bn
    have "fmap d ip1 st1 bn \<in> set p" if "\<not> bn < K" and nz: "fmap d ip1 st1 bn \<noteq> 0"
    proof -
      have f1: "file_ok (view d (bst st1) ?dev) (i_addr ip1)" using fi by (simp add: file_in_def)
      have "fmap d ip1 st1 bn \<notin> fpath d ip1 st1 x" if "x < K" for x using file_map_off_path [OF f1 nz, of x] that \<open>\<not> bn < K\<close> by blast
      then have "fmap d ip1 st1 bn \<notin> fblocks d ip4 st3" using kept pth by auto
      then show ?thesis using file_map_in [OF nz] s(6) fb by blast
    qed
    then show "if bn < K then fmap d ip4 st3 bn = fmap d ip1 st1 bn else fmap d ip4 st3 bn = 0 \<and> (fmap d ip1 st1 bn \<noteq> 0 \<longrightarrow> fmap d ip1 st1 bn \<in> set (p @ l1))"
      using k(1) unfolding fm le by auto
  qed
  have "\<forall>a. fbytes d ip4 st3 a = (if a < len then f a else 0)" unfolding by4 using s(8) kept_part [OF g] by (simp add: lb)
  moreover have "set (p @ l1) \<union> fblocks d ip4 st3 = set l1 \<union> fblocks d ip1 st1" unfolding s(6) ip4 ip2(1) ff(2) by auto
  moreover have "same_but d devs (Pair ?dev ` ({?bn} \<union> fblocks d ip1 st1)) (bst st1) (bst st3)" by (rule same_but_mono [OF same_but_trans [OF s(7) t(6)]]) auto
  moreover have "bind_cres (itrunc_free d env fenv n ip1 len aflags st1) (\<lambda>(st, oip). iupdat d env n (oip\<lparr>i_flag := i_flag oip OR (ICHG OR IUPD)\<rparr>) True st) = Ok (st3, ip4)"
    using s(1) t(1) by (simp add: ip3_def)
  moreover have "uerror (bst st3) = 0" using t(4) s(3) u by simp
  ultimately show ?thesis using fi4 ip4(1,2) map kept pth unfolding K_def [symmetric]
    by - (rule exI [of _ st3], rule exI [of _ ip4], rule exI [of _ "p @ l1"], intro conjI; assumption)
qed

lemma itrunc_spec:
  assumes N: "4 \<le> N" and fi: "file_in d devs N n l ip st" and u: "uerror (bst st) = 0" and np: "i_flag ip AND IPIPE = 0" and len: "0 \<le> len" "len < i_size ip" "i_size ip < 2 ^ 31"
    and l: "len mod 1024 = 0 \<or> 4 \<le> length l" and ino: "usable d devs (i_dev ip) (itod (i_number ip))" "itod (i_number ip) < fs_isize (sb st)"
  shows "\<exists>st' ip' l'. itrunc d env fenv n ip len ioflags st = Ok (st', ip') \<and> itrunc_done d devs N n l ip st len l' ip' st'"
proof -
  define aflags :: "32 word" where "aflags = (if ioflags AND IO_SYNC \<noteq> 0 then B_CLRBUF OR B_SYNC else B_CLRBUF)"
  have z: "aflags AND B_CLRBUF \<noteq> 0" by (simp add: aflags_def)
  let ?upd = "\<lambda>(st, oip). iupdat d env n (oip\<lparr>i_flag := i_flag oip OR (ICHG OR IUPD)\<rparr>) True st"
  have sz: "i_size ip mod 2 ^ 32 = i_size ip" using len by simp
  have b0: "blkoff len = 0 \<longleftrightarrow> len mod 1024 = 0" by (simp add: blkoff_def) (metis Euclidean_Rings.pos_mod_sign antisym zero_less_numeral)
  show ?thesis
  proof (cases "len mod 1024 = 0")
    case True
    have "itrunc d env fenv n ip len ioflags st = bind_cres (itrunc_free d env fenv n ip len aflags st) ?upd"
      unfolding itrunc_def Let_def aflags_def [symmetric] using np sz len True b0 by simp
    moreover have l31: "len < 2 ^ 31" and by0: "fbytes d ip st = (if len mod 1024 = 0 then fbytes d ip st else written (fbytes d ip st) len (replicate (1024 - blkoff len) 0))"
      using len True by simp_all
    from itrunc_finish [OF N fi len(1) l31 u ino by0, of env fenv aflags] obtain st' ip' l' where
      f: "bind_cres (itrunc_free d env fenv n ip len aflags st) ?upd = Ok (st', ip')"
        "file_in d devs N n l' ip' st'" "uerror (bst st') = 0" "i_size ip' = len" "i_dev ip' = i_dev ip" "\<forall>a. fbytes d ip' st' a = (if a < len then fbytes d ip st a else 0)"
        "set l' \<union> fblocks d ip' st' = set l \<union> fblocks d ip st" "same_but d devs (Pair (i_dev ip) ` ({itod (i_number ip)} \<union> fblocks d ip st)) (bst st) (bst st')"
        "\<forall>bn. if bn < (len + 1023) div 1024 then fmap d ip' st' bn = fmap d ip st bn else fmap d ip' st' bn = 0 \<and> (fmap d ip st bn \<noteq> 0 \<longrightarrow> fmap d ip st bn \<in> set l')"
        "fblocks d ip' st' = (\<Union>bn\<in>{0..<(len + 1023) div 1024}. fpath d ip' st' bn)" "\<forall>bn<(len + 1023) div 1024. fpath d ip' st' bn = fpath d ip st bn"
      by - (elim exE conjE, rule that; assumption)
    moreover have "same_but d devs (Pair (i_dev ip) ` ({SUPERB, itod (i_number ip)} \<union> set l \<union> fblocks d ip st)) (bst st) (bst st')" by (rule same_but_mono [OF f(8)]) auto
    moreover have "\<forall>bn. if bn < (len + 1023) div 1024 then fmap d ip' st' bn = fmap d ip st bn \<or> bn = len div 1024 \<and> fmap d ip st bn = 0 \<and> fmap d ip' st' bn \<in> set l
          else fmap d ip' st' bn = 0 \<and> (fmap d ip st bn \<noteq> 0 \<longrightarrow> fmap d ip st bn \<in> set l')" using f(9) by presburger
    ultimately show ?thesis unfolding itrunc_done_def using f(11)
      by - (rule exI [of _ st'], rule exI [of _ ip'], rule exI [of _ l'], intro conjI impI; (assumption | simp only:))
  next
    case False
    have l4: "4 \<le> length l" and N1: "1 < N" and l31: "len < 2 ^ 31" using l False N len by auto
    from tail_spec [OF N1 fi len(1) l31 l4 z, of env fenv] obtain st1 ip1 bn st2 bp p l1 where
      m: "bmap d env fenv n ip (lblkno len) True aflags st = Ok (st1, ip1, bn)" "uerror (bst st1) = uerror (bst st)" "0 < bn"
        "with_buf (bread d env n (i_dev ip) bn) st1 = Ok (st2, bp)" "b_flags (ubuf bp st2) AND B_ERROR = 0" "l = p @ l1" "\<exists>w. ip1 = ip\<lparr>i_addr := i_addr ip1, i_flag := w\<rparr>"
      and m': "let st3 = in_cache (bdwrite bp) (in_cache (upd_buf bp (\<lambda>p. p\<lparr>b_data := mem_block (\<lambda>a. if blkoff len \<le> a \<and> a < 1024 then 0 else block_mem (b_data p) a)\<rparr>)) st2)
        in file_in d devs N n l1 ip1 st3 \<and> uerror (bst st3) = uerror (bst st) \<and> fs_isize (sb st3) = fs_isize (sb st) \<and> fs_fsize (sb st3) = fs_fsize (sb st)
         \<and> fblocks d ip1 st3 = fblocks d ip st \<union> set p \<and> same_but d devs ({(i_dev ip, SUPERB)} \<union> Pair (i_dev ip) ` (fblocks d ip st \<union> set p)) (bst st) (bst st3)
         \<and> fbytes d ip1 st3 = written (fbytes d ip st) len (replicate (1024 - blkoff len) 0)
         \<and> (\<forall>bn. fmap d ip1 st3 bn = fmap d ip st bn \<or> bn = len div 1024 \<and> fmap d ip st bn = 0 \<and> fmap d ip1 st3 bn \<in> set p)" by blast
    define st3 where "st3 = in_cache (bdwrite bp) (in_cache (upd_buf bp (\<lambda>p. p\<lparr>b_data := mem_block (\<lambda>a. if blkoff len \<le> a \<and> a < 1024 then 0 else block_mem (b_data p) a)\<rparr>)) st2)"
    note m3 = m' [folded st3_def, unfolded Let_def]
    obtain w ad1 where "ip1 = ip\<lparr>i_addr := ad1, i_flag := w\<rparr>" using m(7) by blast
    then have ip1: "i_dev ip1 = i_dev ip" "i_number ip1 = i_number ip" by simp_all
    have it: "itrunc d env fenv n ip len ioflags st = bind_cres (itrunc_free d env fenv n ip1 len aflags st3) ?upd"
      unfolding itrunc_def Let_def aflags_def [symmetric] using np sz len False b0 m(1-5) u by (simp add: ip1(1) st3_def)
    have i3: "file_in d devs N n l1 ip1 st3" "uerror (bst st3) = 0" "usable d devs (i_dev ip1) (itod (i_number ip1))" "itod (i_number ip1) < fs_isize (sb st3)"
      using m3 u ino ip1 by auto
    have by3: "fbytes d ip1 st3 = (if len mod 1024 = 0 then fbytes d ip st else written (fbytes d ip st) len (replicate (1024 - blkoff len) 0))" using m3 False by simp
    from itrunc_finish [OF N i3(1) len(1) l31 i3(2-4) by3, of env fenv aflags] obtain st' ip' l' where
      f: "bind_cres (itrunc_free d env fenv n ip1 len aflags st3) ?upd = Ok (st', ip')"
        "file_in d devs N n l' ip' st'" "uerror (bst st') = 0" "i_size ip' = len" "i_dev ip' = i_dev ip1" "\<forall>a. fbytes d ip' st' a = (if a < len then fbytes d ip st a else 0)"
        "set l' \<union> fblocks d ip' st' = set l1 \<union> fblocks d ip1 st3" "same_but d devs (Pair (i_dev ip1) ` ({itod (i_number ip1)} \<union> fblocks d ip1 st3)) (bst st3) (bst st')"
        "\<forall>bn. if bn < (len + 1023) div 1024 then fmap d ip' st' bn = fmap d ip1 st3 bn else fmap d ip' st' bn = 0 \<and> (fmap d ip1 st3 bn \<noteq> 0 \<longrightarrow> fmap d ip1 st3 bn \<in> set l')"
        "fblocks d ip' st' = (\<Union>bn\<in>{0..<(len + 1023) div 1024}. fpath d ip' st' bn)"
      by - (elim exE conjE, rule that; assumption)
    have mp: "\<forall>bn. fmap d ip1 st3 bn = fmap d ip st bn \<or> bn = len div 1024 \<and> fmap d ip st bn = 0 \<and> fmap d ip1 st3 bn \<in> set p" using m3 by blast
    have "len div 1024 < (len + 1023) div 1024" using False unfolding last_block by simp
    then have map: "\<forall>bn. if bn < (len + 1023) div 1024 then fmap d ip' st' bn = fmap d ip st bn \<or> bn = len div 1024 \<and> fmap d ip st bn = 0 \<and> fmap d ip' st' bn \<in> set l
          else fmap d ip' st' bn = 0 \<and> (fmap d ip st bn \<noteq> 0 \<longrightarrow> fmap d ip st bn \<in> set l')" (is "\<forall>bn. ?P bn")
    proof (intro allI)
      fix bn
      show "?P bn" using f(9) [rule_format, of bn] mp [rule_format, of bn] m(6) \<open>len div 1024 < (len + 1023) div 1024\<close> by (cases "bn < (len + 1023) div 1024") auto
    qed
    have un: "set l' \<union> fblocks d ip' st' = set l \<union> fblocks d ip st" using f(7) m3 m(6) by auto
    have sm: "same_but d devs (Pair (i_dev ip) ` ({SUPERB, itod (i_number ip)} \<union> set l \<union> fblocks d ip st)) (bst st) (bst st')"
    proof -
      have a: "same_but d devs ({(i_dev ip, SUPERB)} \<union> Pair (i_dev ip) ` (fblocks d ip st \<union> set p)) (bst st) (bst st3)" using m3 by blast
      have e: "fblocks d ip1 st3 = fblocks d ip st \<union> set p" using m3 by blast
      show ?thesis by (rule same_but_mono [OF same_but_trans [OF a f(8) [unfolded e, unfolded ip1]]]) (use m(6) in auto)
    qed
    show ?thesis unfolding itrunc_done_def
      using it f(1-4) f(5) [unfolded ip1(1)] f(6,10) un sm map False
      by - (rule exI [of _ st'], rule exI [of _ ip'], rule exI [of _ l'], intro conjI impI; (assumption | simp only:))
  qed
qed

section \<open>Properties\<close>

text \<open>
  C14. Truncation. \<open>itrunc\<close> to a length below the size of a file returns without an error. Then the file has that length; below it, it holds the
  bytes it held, behind it only zeroes, also in the rest of the last block. Exactly the blocks behind the new end go to the free list: the
  blocks that remain in the file are those on the way, through the indirect blocks, to one of the blocks below the new end, and all others of the
  blocks that the file and the free list had before are on the free list, which shares no block with the file; in particular every data block
  that was mapped behind the new end is on it, and the inode maps nothing there. The blocks below the new end are mapped as before, but for the last one, which is
  taken from the free list when the length ends within it and it was a hole; when the length is a multiple of the block size the way to each of
  them is as before, too. Nothing else on the card has changed but the super block and the block of the inode.
\<close>

theorem itrunc_truncates:
  assumes "file_in d devs nbuf n l ip st" "4 \<le> nbuf" "uerror (bst st) = 0" "i_flag ip AND IPIPE = 0" "0 \<le> len" "len < i_size ip" "i_size ip < 2 ^ 31"
    and "len mod 1024 = 0 \<or> 4 \<le> length l" "usable d devs (i_dev ip) (itod (i_number ip))" "itod (i_number ip) < fs_isize (sb st)"
  shows "\<exists>st' ip' l'. itrunc d env fenv n ip len ioflags st = Ok (st', ip') \<and> file_in d devs nbuf n l' ip' st' \<and> uerror (bst st') = 0 \<and> i_size ip' = len
     \<and> (\<forall>a. fbytes d ip' st' a = (if a < len then fbytes d ip st a else 0))
     \<and> set l' \<union> fblocks d ip' st' = set l \<union> fblocks d ip st \<and> set l' \<inter> fblocks d ip' st' = {}
     \<and> fblocks d ip' st' = (\<Union>bn\<in>{0..<(len + 1023) div 1024}. fpath d ip' st' bn)
     \<and> (\<forall>bn. if bn < (len + 1023) div 1024 then fmap d ip' st' bn = fmap d ip st bn \<or> bn = len div 1024 \<and> fmap d ip st bn = 0 \<and> fmap d ip' st' bn \<in> set l
          else fmap d ip' st' bn = 0 \<and> (fmap d ip st bn \<noteq> 0 \<longrightarrow> fmap d ip st bn \<in> set l'))
     \<and> (len mod 1024 = 0 \<longrightarrow> (\<forall>bn<(len + 1023) div 1024. fpath d ip' st' bn = fpath d ip st bn))
     \<and> (\<forall>dev blk. usable d devs dev blk \<longrightarrow> \<not> (dev = i_dev ip \<and> blk \<in> {SUPERB, itod (i_number ip)} \<union> set l \<union> fblocks d ip st) \<longrightarrow> view d (bst st') dev blk = view d (bst st) dev blk)"
proof -
  from itrunc_spec [OF assms(2,1,3-10), of env fenv ioflags] obtain st' ip' l' where
    i: "itrunc d env fenv n ip len ioflags st = Ok (st', ip')" "itrunc_done d devs nbuf n l ip st len l' ip' st'" by blast
  note i' = i(2) [unfolded itrunc_done_def]
  have sm: "same_but d devs (Pair (i_dev ip) ` ({SUPERB, itod (i_number ip)} \<union> set l \<union> fblocks d ip st)) (bst st) (bst st')" using i' by - (elim conjE; assumption)
  have v: "\<forall>dev blk. usable d devs dev blk \<longrightarrow> \<not> (dev = i_dev ip \<and> blk \<in> {SUPERB, itod (i_number ip)} \<union> set l \<union> fblocks d ip st) \<longrightarrow> view d (bst st') dev blk = view d (bst st) dev blk"
    using sm unfolding same_but_def by blast
  have "file_in d devs nbuf n l' ip' st'" using i' by - (elim conjE; assumption)
  then have "set l' \<inter> fblocks d ip' st' = {}" unfolding file_in_def by blast
  then show ?thesis using i(1) i' v by - (elim conjE, rule exI [of _ st'], rule exI [of _ ip'], rule exI [of _ l'], intro conjI; assumption)
qed

definition ufs_ex4 :: ufs where
  "ufs_ex4 = ufs_ex\<lparr>bst := binit 4 (bhinit bio_ex)\<rparr>"

lemma ufs_ex4_in: "file_in disk_fs {0} 4 6 [6, 5, 4, 3] (ino_ex\<lparr>i_size := sz\<rparr>) ufs_ex4"
proof -
  have s: "fs_isize fs_ex = 2" "fs_fsize fs_ex = 8" "sb ufs_ex4 = fs_ex" by (simp_all add: ufs_ex4_def ufs_ex_def fs_ex_def)
  have "i_dev ino_ex = 0" by (simp add: ino_ex_def)
  then show ?thesis using ufs_sized_ok [of 4 6] ino_ex_ok s by (simp add: file_in_def ino_ex_blocks ufs_ex4_def [symmetric])
qed

theorem itrunc_truncates_witness:
  "(\<exists>st' ip' l'. itrunc disk_fs (\<lambda>_ c. c) (\<lambda>_ st. st) 6 (ino_ex\<lparr>i_size := 900\<rparr>) 0 0 ufs_ex4 = Ok (st', ip') \<and> i_size ip' = 0
       \<and> file_in disk_fs {0} 4 6 l' ip' st' \<and> set l' = {3, 4, 5, 6, 7} \<and> fblocks disk_fs ip' st' = {})
   \<and> (\<exists>st' ip'. itrunc disk_fs (\<lambda>_ c. c) (\<lambda>_ st. st) 6 (ino_ex\<lparr>i_size := 900\<rparr>) 3 0 ufs_ex4 = Ok (st', ip') \<and> i_size ip' = 3 \<and> fbytes disk_fs ip' st' 5 = 0)"
proof -
  let ?ip = "ino_ex\<lparr>i_size := 900\<rparr>"
  have f: "i_flag ?ip AND IPIPE = 0" "i_dev ?ip = 0" "itod (i_number ?ip) = 1" "fs_isize (sb ufs_ex4) = 2" "i_size ?ip = 900" "i_addr ?ip = i_addr ino_ex"
    by (simp_all add: ino_ex_def ufs_ex4_def ufs_ex_def fs_ex_def itod_def)
  have u: "uerror (bst ufs_ex4) = 0" by (simp add: ufs_ex4_def binit_def binit_loop_uerror bhinit_def bio_ex_def)
  have us: "usable disk_fs {0} (i_dev ?ip) (itod (i_number ?ip))" "itod (i_number ?ip) < fs_isize (sb ufs_ex4)" unfolding f by (simp_all add: disk_fs_ok)
  note t = itrunc_truncates [OF ufs_ex4_in [of 900] _ u f(1) _ _ _ _ us, unfolded f(5), of _ "\<lambda>_ c. c" "\<lambda>_ st. st" 0]
  have z: "{0..<(0 + 1023 :: int) div 1024} = {}" by simp
  have "\<exists>st' ip' l'. itrunc disk_fs (\<lambda>_ c. c) (\<lambda>_ st. st) 6 ?ip 0 0 ufs_ex4 = Ok (st', ip') \<and> i_size ip' = 0
       \<and> file_in disk_fs {0} 4 6 l' ip' st' \<and> set l' = {3, 4, 5, 6, 7} \<and> fblocks disk_fs ip' st' = {}"
  proof -
    from t [of 0] obtain st' ip' l' where a: "itrunc disk_fs (\<lambda>_ c. c) (\<lambda>_ st. st) 6 ?ip 0 0 ufs_ex4 = Ok (st', ip')" "i_size ip' = 0"
      "file_in disk_fs {0} 4 6 l' ip' st'" "set l' \<union> fblocks disk_fs ip' st' = set [6, 5, 4, 3] \<union> fblocks disk_fs ?ip ufs_ex4"
      "fblocks disk_fs ip' st' = (\<Union>bn\<in>{0..<(0 + 1023) div 1024}. fpath disk_fs ip' st' bn)" by auto
    have e: "fblocks disk_fs ip' st' = {}" using a(5) unfolding z by simp
    have "set l' = {3, 4, 5, 6, 7}" using a(4) unfolding e f(6) by (auto simp: ino_ex_blocks)
    with a(1-3) e show ?thesis by blast
  qed
  moreover have "\<exists>st' ip'. itrunc disk_fs (\<lambda>_ c. c) (\<lambda>_ st. st) 6 ?ip 3 0 ufs_ex4 = Ok (st', ip') \<and> i_size ip' = 3 \<and> fbytes disk_fs ip' st' 5 = 0"
  proof -
    from t [of 3] obtain st' ip' where "itrunc disk_fs (\<lambda>_ c. c) (\<lambda>_ st. st) 6 ?ip 3 0 ufs_ex4 = Ok (st', ip')" "i_size ip' = 3"
      "\<forall>a. fbytes disk_fs ip' st' a = (if a < 3 then fbytes disk_fs ?ip ufs_ex4 a else 0)" by auto
    then show ?thesis by auto
  qed
  ultimately show ?thesis by blast
qed

end
