(* ===== verification/Spec2Isabelle.thy ===== *)
theory Spec2Isabelle
  imports Rmap3 Clist_Sys Ktime Signal_Disp Clock_Events Flock Uio Ufs_Rwip Ufs_Itrunc
begin

text \<open>
  \<^bold>\<open>The kernel of DiscoBSD, verified routine by routine.\<close>

  DiscoBSD is a 2.11BSD derived Unix for small 32-bit machines without paging. This development models the
  process-oriented core of its kernel, \<^verbatim>\<open>src/sys/kern\<close>, with the declarations of \<^verbatim>\<open>src/sys/sys\<close> it rests on and a
  few machine-dependent routines of \<^verbatim>\<open>src/sys/arch/stm32/stm32/machdep.c\<close>.

  \<^bold>\<open>How the parts interact.\<close> Every clock interrupt enters \<open>hardclock\<close>, which counts down the callout queue, charges the
  running process for its time, posts the signals of expired interval timers and limits, and keeps the time of
  day; \<open>softclock\<close> then runs the callouts that are due, among them \<open>endtsleep\<close> (the end of a timed sleep) and \<open>schedcpu\<close>
  (the decay of processor usage). \<open>tsleep\<close> puts the running process on a sleep queue, \<open>wakeup\<close> moves all sleepers of an
  event to the run queue, \<open>swtch\<close> chooses from it. \<open>psignal\<close> posts a signal and, through \<open>setrun\<close> and \<open>unsleep\<close>, wakes or
  continues its receiver; \<open>issignal\<close> and \<open>postsig\<close> act on it when the process returns to user mode in \<open>userret\<close>. The
  system calls on identities decide who may signal or renice whom. Terminal queues (character lists) and the
  allocation of swap space (resource maps) are separate stores below this.

  \<^bold>\<open>Reading the model.\<close> A C routine is one HOL function of (nearly) the same name. Routines that change kernel state
  take and return the record \<open>kern\<close> (theory Kern_State); a routine that can panic, or run off an object, returns
  a \<open>cres\<close> (theory Prelude): \<open>Ok\<close> of the result, \<open>Panic\<close> with the message, or \<open>Stuck\<close> for an access C gives no
  meaning to and for a loop that outruns its bound. System calls take the fields of \<^verbatim>\<open>uap\<close> as arguments and leave results
  and errors in the u-area, as in the code. Interrupts are blocked (\<^verbatim>\<open>splhigh\<close>, \<^verbatim>\<open>splclock\<close>, \<^verbatim>\<open>spltty\<close>) for the whole of the
  queue routines, so each is one step. Pointers into a table are indices; queues threaded through a table are the
  lists of the indices on them; the blocks of a character list, whose addresses matter, are kept at their addresses.
  Fields have the width the code gives them: \<open>word\<close>s where the code masks or wraps, \<open>int\<close> with the wrap written out where it
  stores into a narrower variable. Plain \<^verbatim>\<open>char\<close> is signed or not according to the field \<open>char_signed\<close> of the state, because the two
  targets (ARM and MIPS) differ.

  \<^bold>\<open>Theories.\<close>
  \<^item> Prelude: outcomes, machine arithmetic, generic lemmas, and the locales \<open>refines\<close> (a component simulates an
    abstract machine over any sequence of calls) and \<open>safe_component\<close> (an invariant kept over any sequence).
  \<^item> Rmap, Rmap3: \<^verbatim>\<open>subr_rmap.c\<close>. The locale \<open>space_manager\<close> states what a space allocator promises and is interpreted on
    \<open>malloc\<close> and \<open>mfree\<close>. Shown: first fit, exactness of allocation and release, all-or-nothing for \<open>malloc3\<close>, and the overrun
    that the installed \<^verbatim>\<open>m_limit\<close> permits.
  \<^item> Clist, Clist_Sys: \<^verbatim>\<open>tty_subr.c\<close> and \<open>cinit\<close>. Several character lists over one pool of blocks refine queues of bytes.
  \<^item> Kern_State: process table, u-area, files, callouts, inodes, globals, \<open>copyin\<close> and \<open>copyout\<close>.
  \<^item> Prot: \<^verbatim>\<open>kern_prot.c\<close>, \<^verbatim>\<open>kern_prot2.c\<close>, \<^verbatim>\<open>kern_proc.c\<close>, \<open>suser\<close>. Credentials never grow; \<open>pfind\<close> is exact.
  \<^item> Resource: \<^verbatim>\<open>kern_resource.c\<close>; Ktime: \<^verbatim>\<open>kern_time.c\<close>. Round trips, limits, exact conversions.
  \<^item> Sched, Sched_Frame: the queues of \<^verbatim>\<open>kern_synch.c\<close>: the invariant \<open>sched_inv\<close>, \<open>wakeup\<close>, \<open>setrun\<close>, \<open>swtch\<close>, priorities, and what these
    leave alone.
  \<^item> Callout: \<open>timeout\<close>, \<open>untimeout\<close> and the clock's count-down refine a schedule of absolute times, for ticks whose events run at once.
  \<^item> Signal (definitions), Signal_Inv (posting), Signal_Disp (dispositions, choice of the signal): \<^verbatim>\<open>kern_sig.c\<close>, \<^verbatim>\<open>kern_sig2.c\<close>.
  \<^item> Sleep: \<open>tsleep\<close>, \<open>sleep\<close>, \<open>sigsuspend\<close>, \<open>sigwait\<close>, \<open>userret\<close>. Clock: \<open>hardclock\<close>, \<open>softclock\<close>, \<open>schedcpu\<close>, \<open>hzto\<close>.
  \<^item> Clock_Events: the whole clock interrupt with the events it runs, at whatever priority it comes. The locale \<open>clock_events\<close> fixes the routines that are called as
    events and assumes their contract \<open>event_ok\<close>; it is interpreted on \<open>endtsleep\<close> and \<open>schedcpu\<close>. Shown: the interrupt completes and keeps time, and an event runs
    at the first interrupt at the base priority from its time on.
  \<^item> Descrip (definitions), Descrip_Inv (reference counts, allocation of descriptors, \<^verbatim>\<open>/dev/fd\<close>), Flock (advisory locks): \<^verbatim>\<open>kern_descrip.c\<close>, the locks
    of \<^verbatim>\<open>sys_inode.c\<close>, and \<open>open\<close> from \<^verbatim>\<open>ufs_syscalls.c\<close>.
  \<^item> Uio: \<^verbatim>\<open>kern_subr.c\<close>, the read, write and ioctl calls of \<^verbatim>\<open>sys_generic.c\<close>, \<^verbatim>\<open>kern_glob.c\<close>. Scatter and gather, and the agreement of the
    character and block routines.
  \<^item> Bio (definitions), Bio_Inv (the invariant of the cache), Bio_Cache (what each routine does), Bio_Init (set-up and properties):
    \<^verbatim>\<open>ufs_bio.c\<close>, \<^verbatim>\<open>buf.h\<close>, \<open>bhinit\<close> and \<open>binit\<close>, over \<open>sdstrategy\<close> of \<^verbatim>\<open>arch/stm32/dev/sd.c\<close>. The cache refines the bare blocks of the card
    (interpretation \<open>bio\<close> of \<open>refines\<close>); two failures of the driver and of the cache are shown as theorems. Bio_Use states what the holder of a
    buffer can rely on.
  \<^item> Ufs (definitions), Ufs_Free (the free list as a list, and what \<open>balloc\<close> and \<open>free\<close> do to it), Ufs_Props (its properties), Ufs_Bmap (one
    round through an indirect block, and the tree of blocks it belongs to), Ufs_File (the map of a whole file), Ufs_Map (properties):
    \<^verbatim>\<open>ufs_alloc.c\<close> without \<open>ialloc\<close>, \<^verbatim>\<open>ufs_bmap.c\<close>, \<open>badblock\<close>. \<open>file_map\<close> is the map that an inode and the blocks of the card describe.
  \<^item> Ufs_Inode (definitions): \<open>iupdat\<close> and truncation of \<^verbatim>\<open>ufs_inode.c\<close>. Ufs_Rw (definitions): \<open>rwip\<close>, \<open>rdwri\<close> and \<open>ino_rw\<close> of \<^verbatim>\<open>sys_inode.c\<close>. Bio_Blank (an
    empty buffer in use), Ufs_Leaf (which blocks of a file hold its data), Ufs_Bytes (the bytes of a file), Ufs_Io (reading), Ufs_Io2 and Ufs_Io3
    (writing), Ufs_Rwip (properties): reading and writing a regular file, from \<open>rwip\<close> down to the blocks of the card. \<open>content\<close> is the file as a
    function from offsets to bytes.
  \<^item> Ufs_Prune (trees of blocks cut off behind a place), Ufs_Trunc and Ufs_Trunc2 (\<open>indirtrunc\<close>, by induction on its level), Ufs_Trunc3 (the trees of a file
    one after the other), Ufs_Trunc4 and Ufs_Itrunc (\<open>itrunc\<close>, \<open>iupdat\<close>, properties): truncation of a file. \<open>path\<close> is the set of the blocks that lead to a
    place of a tree: those of the blocks kept stay with the file, all others go to the free list.
  \<^item> Spec2Isabelle: the properties that need more than one component.

  \<^bold>\<open>Parameters.\<close> Code outside the model is an argument: \<open>env n k\<close> is the state in which a process that gave up the processor in state
  \<open>k\<close> is resumed (\<open>n\<close> counts the turns that remain, so different turns may see different environments); \<open>call fn arg\<close> runs
  a callout, \<open>vmmeter\<close> gathers the statistics of memory use; the ptrace request handler \<open>procxmt\<close>, the writer of core files and the machine's \<open>sendsig\<close> are arguments of
  \<open>issignal\<close> and \<open>postsig\<close>.
  The routines of a file type are the argument \<open>Fops\<close> (and \<open>fo_rw\<close>, \<open>fo_ioctl_u\<close>), as in the code's table of function pointers; the lookup of a path
  and the opening of its inode are \<open>vn_open\<close>. What the theorems need of them is stated by \<open>fops_ok\<close>: they return and leave the descriptor
  tables alone. What other processes do while one waits for a lock is only expected to keep the lock discipline (\<open>keeps\<close>).
  The SD card is the record \<open>sdisk\<close>: its partitions, and which transfers it carries out. A block \<open>usable\<close> for the theorems on the cache lies
  in its partition and can be read and written; \<open>parts_ok\<close> says that the partitions in use do not overlap.
  \<open>fs_ok\<close> says of a mounted file system that its blocks are usable, that its free list is well formed, without duplicates and counted, and
  that no buffer has a residual count; what other processes do during a sleep here is the argument \<open>fenv\<close>, which the theorems on a file system
  that nobody has locked do not reach. \<open>rw_ok\<close> adds to it that the blocks of the file are in range and not free, and that the request is well formed and ends
  below 2 to the 31. The routines of character devices are \<open>cdev\<close>, what happens during a sleep on an inode \<open>ienv\<close>.

  \<^bold>\<open>Bounds and fuel.\<close> \<open>wakeup\<close> restarts its walk after every process it wakes: it gets as many turns as the queue is long, and
  \<open>wakeup_wakes_all\<close> shows that they are enough. \<open>issignal\<close> and \<open>execsigs\<close> clear one signal a turn: 33 turns, one more than there are
  signals. \<open>softclock\<close> takes its turns as an argument: \<open>hardclock_keeps_time\<close> shows that one more than there are pending events is enough. Loops that wait for the environment (\<open>sigsuspend\<close>,
  \<open>sigwait\<close>, \<open>userret\<close>) take their number of turns as an argument, since nothing in the code bounds them.
  \<open>ino_lock\<close> takes its turns as an argument; for requests that must not block \<open>flock_nonblocking\<close> shows that two are enough.
  \<open>uiomove\<close> terminates by a measure.
  \<open>getnewbuf\<close>, \<open>getblk\<close> and the flushes write one delayed block a turn: as many turns as there are buffers, and two more, are enough.
  \<open>balloc_pick\<close> terminates by a measure; \<open>bmap\<close> takes at most three rounds.
  Every round of \<open>rw_loop\<close> moves a byte at least: the count of the request and one more turn are enough. A write takes at most four blocks of the free list
  for each block of the file that it touches (\<open>blocks_touched\<close>). \<open>indirtrunc\<close> holds one copy of a block a level, and another buffer while it makes the copy: four
  buffers are enough for three levels.

  \<^bold>\<open>Not modelled.\<close> The jumps between kernel stacks (\<^verbatim>\<open>setjmp\<close>, \<^verbatim>\<open>longjmp\<close>, \<^verbatim>\<open>resume\<close>), interrupt priorities other than as
  atomicity, swapping of processes (\<^verbatim>\<open>vm_*.c\<close>), process creation and exit, exec, ptrace, the terminal line discipline, sysctl,
  devices and all of user land. They do input and output, move memory images, or are assembly; the file system's name lookup
  and mount code rests on them.
  \<open>select\<close> and the parts of \<^verbatim>\<open>kern_time.c\<close> and \<^verbatim>\<open>kern_clock.c\<close> that the preprocessor leaves out are not modelled either.
\<close>

section \<open>Properties that span components\<close>

text \<open>
  C33. A process that has given up being the effective super-user with \<open>seteuid\<close> can still signal every process: \<open>cansignal\<close> reads
  the effective user id from the process table, where \<open>seteuid\<close> does not put it.
\<close>

theorem dropped_root_signals_all:
  assumes "p_uid (curproc k) = 0" "u_uid (u k) = 0"
  shows "u_uid (u (seteuid e k)) = e \<and> cansignal q sig (seteuid e k) = Ok True"
  using assms by (auto simp: seteuid_def cansignal_def suser_def Let_def)

theorem dropped_root_signals_all_witness:
  "\<exists>k. p_uid (curproc k) = 0 \<and> u_uid (u (seteuid 7 k)) = 7 \<and> cansignal 3 15 (seteuid 7 k) = Ok True"
proof -
  define k :: kern where "k = undefined\<lparr>u := undefined\<lparr>u_uid := 0, u_procp := 1\<rparr>, procs := (\<lambda>_. undefined\<lparr>p_uid := 0\<rparr>)\<rparr>"
  have "p_uid (curproc k) = 0" "u_uid (u k) = 0" by (simp_all add: k_def)
  with dropped_root_signals_all [OF this, of 7 3 15] show ?thesis by blast
qed

text \<open>
  C34. On a target whose plain \<^verbatim>\<open>char\<close> is unsigned, asking for a better priority gives the worst: when the super-user sets a negative nice value for
  a process, the value is stored as one of 236 to 255, and the priority computed from it is 127, the
  numerically largest, whatever the processor usage.
\<close>

theorem negative_nice_unsigned_char:
  assumes "\<not> char_signed k" "u_uid (u k) = 0" "- 20 \<le> prio" "prio < 0"
  shows "p_nice (procs (setpriority 0 0 prio k) (u_procp (u k))) = prio + 256
     \<and> snd (setpri (u_procp (u k)) (setpriority 0 0 prio k)) = 127"
proof -
  let ?p = "u_procp (u k)"
  have t: "prio_targets 0 0 k = Some [?p]" by (simp add: prio_targets_def)
  have c: "clamp_nice prio = prio" using assms by (simp add: clamp_nice_def)
  have n: "p_nice (procs (setpriority 0 0 prio k) ?p) = prio + 256"
    using donice_nice [of prio ?p k ?p] t c assms to_char_unsigned [of k prio]
    by (simp add: setpriority_def Let_def may_nice_def)
  then show ?thesis using assms by (simp add: setpri_def Let_def)
qed

theorem negative_nice_unsigned_char_witness:
  "\<exists>k. p_nice (procs (setpriority 0 0 (- 5) k) 1) = 251 \<and> snd (setpri 1 (setpriority 0 0 (- 5) k)) = 127"
proof -
  define k :: kern where "k = undefined\<lparr>u := undefined\<lparr>u_uid := 0, u_procp := 1\<rparr>, char_signed := False\<rparr>"
  have "\<not> char_signed k" "u_uid (u k) = 0" "u_procp (u k) = 1" by (simp_all add: k_def)
  with negative_nice_unsigned_char [of k "- 5"] show ?thesis by (intro exI [of _ k]) simp
qed

end
